(* ===== verification/Prelude.thy ===== *)
theory Prelude
  imports Main "HOL-Library.Word" "HOL-Library.Monad_Syntax" "HOL-Library.Sublist"
begin

text \<open>
  The vocabulary every component of the budyk development shares: the machine integer types of
  the C++ sources, the return-code convention, the suffix operation that says what a bounded
  buffer keeps, the arithmetic of slots in a ring, and the interface (locale) of a bounded log
  that keeps its newest entries, which the ring file and the hot buffer provide. Lemma
  collections: \<open>ring_arith\<close> (slot arithmetic), \<open>get_put\<close> (reading back what was written).
\<close>

unbundle bit_operations_syntax

section \<open>Machine types\<close>

type_synonym byte = "8 word"
type_synonym u8 = "8 word"
type_synonym u32 = "32 word"
type_synonym u64 = "64 word"

text \<open>Return codes: 0 is success, a negative number names the failure, as in the sources.\<close>

type_synonym rc = int

text \<open>The \<open>errno\<close> values the sources name.\<close>

type_synonym errno = int

definition ENOENT :: errno where "ENOENT = 2"
definition EIO :: errno where "EIO = 5"
definition EINVAL :: errno where "EINVAL = 22"

abbreviation two64 :: nat where
  "two64 \<equiv> 18446744073709551616"

lemma unat_lt_two64: "unat (x :: u64) < two64"
  using unsigned_less [of x] by simp

named_theorems ring_arith
named_theorems get_put

section \<open>Keeping the newest entries\<close>

text \<open>\<open>last_n n xs\<close>: the newest \<open>n\<close> entries of a log written oldest first.\<close>

definition last_n :: "nat \<Rightarrow> 'a list \<Rightarrow> 'a list" where
  "last_n n xs = drop (length xs - n) xs"

lemma length_last_n [simp]: "length (last_n n xs) = min n (length xs)"
  by (simp add: last_n_def)

lemma last_n_all [simp]: "length xs \<le> n \<Longrightarrow> last_n n xs = xs"
  by (simp add: last_n_def)

lemma last_n_0 [simp]: "last_n 0 xs = []"
  by (simp add: last_n_def)

lemma last_n_Nil [simp]: "last_n n [] = []"
  by (simp add: last_n_def)

lemma last_n_append: "last_n n (xs @ ys) = last_n (n - length ys) xs @ last_n n ys"
  by (cases "n \<le> length ys") (auto simp: last_n_def)

lemma last_n_last_n_append: "last_n n (last_n n xs @ ys) = last_n n (xs @ ys)"
  by (cases "n \<le> length xs") (auto simp: last_n_def add.commute)

lemma suffix_last_n: "suffix (last_n n xs) xs"
  by (simp add: last_n_def suffix_drop)

lemma set_last_n_subset: "set (last_n n xs) \<subseteq> set xs"
  by (simp add: last_n_def set_drop_subset)

lemma sorted_wrt_last_n: "sorted_wrt P xs \<Longrightarrow> sorted_wrt P (last_n n xs)"
  by (simp add: last_n_def sorted_wrt_drop)

lemma last_n_map: "last_n n (map f xs) = map f (last_n n xs)"
  by (simp add: last_n_def drop_map)

lemma last_n_min: "last_n m (last_n n xs) = last_n (min m n) xs"
  by (cases "n \<le> length xs") (auto simp: last_n_def min_def)

lemma last_n_upt: "last_n n (map f [a..<b]) = map f [max a (b - n)..<b]"
proof (cases "n \<le> b - a")
  case True
  then show ?thesis by (auto simp: last_n_def drop_map max_def)
next
  case False
  then have "max a (b - n) = a" by linarith
  with False show ?thesis by simp
qed

section \<open>Slots of a ring\<close>

text \<open>
  A ring of \<open>cap\<close> slots holds the record with logical index \<open>i\<close> in slot \<open>i mod cap\<close>. Two
  logical indices of one window of \<open>cap\<close> consecutive ones never share a slot.
\<close>

lemma mod_inj_window [ring_arith]:
  fixes i j cap w :: nat
  assumes "i mod cap = j mod cap" and "i < w" and "j < w" and "w \<le> i + cap" and "w \<le> j + cap"
  shows "i = j"
proof (rule ccontr)
  assume "i \<noteq> j"
  then consider "i < j" | "j < i" by linarith
  then show False
  proof cases
    case 1
    then have "j - i < cap" "0 < j - i" using assms by auto
    moreover have "cap dvd j - i"
      using assms(1) 1 by (metis mod_eq_dvd_iff_nat less_imp_le)
    ultimately show False by (simp add: nat_dvd_not_less)
  next
    case 2
    then have "i - j < cap" "0 < i - j" using assms by auto
    moreover have "cap dvd i - j"
      using assms(1) 2 by (metis mod_eq_dvd_iff_nat less_imp_le)
    ultimately show False by (simp add: nat_dvd_not_less)
  qed
qed

text \<open>The live window of a ring after \<open>w\<close> writes, oldest first.\<close>

definition live :: "nat \<Rightarrow> nat \<Rightarrow> nat list" where
  "live cap w = [w - min w cap..<w]"

lemma length_live [simp]: "length (live cap w) = min w cap"
  by (simp add: live_def)

lemma set_live: "set (live cap w) = {w - min w cap..<w}"
  by (simp add: live_def)

lemma live_0 [simp]: "live cap 0 = []"
  by (simp add: live_def)

lemma live_Suc: "0 < cap \<Longrightarrow> live cap (Suc w) = last_n cap (live cap w @ [w])"
  by (auto simp: live_def last_n_def drop_upt min_def Suc_diff_le upt_Suc)

text \<open>
  Writing slot \<open>w mod cap\<close> of a ring and reading the live window again: the write evicts at
  most the oldest entry and appends the new one.
\<close>

lemma live_window_push:
  assumes "0 < cap" and "length ring = cap"
  shows "map (\<lambda>i. ring[w mod cap := x] ! (i mod cap)) (live cap (Suc w))
         = last_n cap (map (\<lambda>i. ring ! (i mod cap)) (live cap w) @ [x])"
proof -
  let ?lo = "Suc w - min (Suc w) cap"
  have other: "ring[w mod cap := x] ! (i mod cap) = ring ! (i mod cap)"
    if "i \<in> {?lo..<w}" for i
  proof -
    have "i mod cap \<noteq> w mod cap"
    proof
      assume "i mod cap = w mod cap"
      then have "i = w"
        by (rule mod_inj_window [where w = "Suc w"]) (use that in auto)
      then show False using that by simp
    qed
    then show ?thesis by simp
  qed
  have "live cap (Suc w) = [?lo..<w] @ [w]"
    using assms(1) by (simp add: live_def)
  moreover have "map (\<lambda>i. ring[w mod cap := x] ! (i mod cap)) [?lo..<w]
      = map (\<lambda>i. ring ! (i mod cap)) [?lo..<w]"
    by (rule map_cong) (auto simp: other)
  moreover have "ring[w mod cap := x] ! (w mod cap) = x"
    using assms by simp
  moreover have "last_n cap (map (\<lambda>i. ring ! (i mod cap)) (live cap w) @ [x])
      = map (\<lambda>i. ring ! (i mod cap)) [?lo..<w] @ [x]"
    using assms(1)
    by (auto simp: last_n_append live_def last_n_upt min_def max_def Suc_diff_le
        intro!: arg_cong [where f = "\<lambda>a. map _ [a..<w]"])
  ultimately show ?thesis by simp
qed

section \<open>Interface: a bounded log\<close>

text \<open>
  A buffer that takes entries one at a time and keeps the newest \<open>cap\<close> of them. \<open>ok b x\<close> is
  what the buffer asks of the next entry. The hot buffer (memory) and the ring file (disk) are
  the two providers.
\<close>

fun admissible :: "('b \<Rightarrow> 'a \<Rightarrow> bool) \<Rightarrow> ('b \<Rightarrow> 'a \<Rightarrow> 'b) \<Rightarrow> 'b \<Rightarrow> 'a list \<Rightarrow> bool" where
  "admissible ok push b [] = True"
| "admissible ok push b (x # xs) = (ok b x \<and> admissible ok push (push b x) xs)"

locale bounded_log =
  fixes push :: "'b \<Rightarrow> 'a \<Rightarrow> 'b"
    and entries :: "'b \<Rightarrow> 'a list"
    and cap :: "'b \<Rightarrow> nat"
    and ok :: "'b \<Rightarrow> 'a \<Rightarrow> bool"
    and inv :: "'b \<Rightarrow> bool"
  assumes inv_push: "inv b \<Longrightarrow> ok b x \<Longrightarrow> inv (push b x)"
    and cap_push: "inv b \<Longrightarrow> ok b x \<Longrightarrow> cap (push b x) = cap b"
    and cap_pos: "inv b \<Longrightarrow> 0 < cap b"
    and entries_push:
      "inv b \<Longrightarrow> ok b x \<Longrightarrow> entries (push b x) = last_n (cap b) (entries b @ [x])"
    and entries_fit: "inv b \<Longrightarrow> length (entries b) \<le> cap b"
begin

lemma run_inv: "inv b \<Longrightarrow> admissible ok push b xs \<Longrightarrow> inv (foldl push b xs)"
  by (induction xs arbitrary: b) (auto intro: inv_push)

lemma run_cap: "inv b \<Longrightarrow> admissible ok push b xs \<Longrightarrow> cap (foldl push b xs) = cap b"
proof (induction xs arbitrary: b)
  case (Cons x xs)
  then show ?case by (auto simp: inv_push cap_push)
qed simp

lemma run_entries:
  "inv b \<Longrightarrow> admissible ok push b xs \<Longrightarrow>
   entries (foldl push b xs) = last_n (cap b) (entries b @ xs)"
proof (induction xs arbitrary: b)
  case Nil
  then show ?case by (simp add: entries_fit)
next
  case (Cons x xs)
  then have step: "inv (push b x)" "cap (push b x) = cap b"
    "entries (push b x) = last_n (cap b) (entries b @ [x])"
    by (auto simp: inv_push cap_push entries_push)
  have "entries (foldl push b (x # xs)) = last_n (cap b) (last_n (cap b) (entries b @ [x]) @ xs)"
    using Cons.IH [OF step(1)] Cons.prems step by simp
  then show ?case by (simp add: last_n_last_n_append)
qed

lemma newest_kept:
  "inv b \<Longrightarrow> admissible ok push b xs \<Longrightarrow> length xs \<le> cap b \<Longrightarrow>
   suffix xs (entries (foldl push b xs))"
  by (simp add: run_entries last_n_append suffixI)

end

end
