(* ===== verification/Float64.thy ===== *)
theory Float64
  imports Prelude "HOL-Library.Log_Nat"
begin

text \<open>
  The C++ type \<open>double\<close> as its IEEE 754 binary64 bit pattern: \<open>std::memcpy\<close> of a double into a
  \<open>uint64_t\<close> (the codec) is the identity, comparisons and the arithmetic the sources use are
  computed from the pattern, rounding to nearest, ties to even. A NaN result is the one quiet
  NaN \<open>f64_qnan\<close>; the sources never look at a NaN's payload.
\<close>

type_synonym f64 = "64 word"

section \<open>Fields of the pattern\<close>

definition f64_sign :: "f64 \<Rightarrow> bool" where
  "f64_sign x \<longleftrightarrow> 2 ^ 63 \<le> unat x"

definition f64_mag :: "f64 \<Rightarrow> nat" where
  "f64_mag x = unat x mod 2 ^ 63"

definition f64_exp :: "f64 \<Rightarrow> nat" where
  "f64_exp x = f64_mag x div 2 ^ 52"

definition f64_frac :: "f64 \<Rightarrow> nat" where
  "f64_frac x = f64_mag x mod 2 ^ 52"

definition f64_nan :: "f64 \<Rightarrow> bool" where
  "f64_nan x \<longleftrightarrow> 2047 * 2 ^ 52 < f64_mag x"

definition f64_inf :: "f64 \<Rightarrow> bool" where
  "f64_inf x \<longleftrightarrow> f64_mag x = 2047 * 2 ^ 52"

definition f64_finite :: "f64 \<Rightarrow> bool" where
  "f64_finite x \<longleftrightarrow> f64_mag x < 2047 * 2 ^ 52"

definition f64_pack :: "bool \<Rightarrow> nat \<Rightarrow> f64" where
  "f64_pack s m = of_nat ((if s then 2 ^ 63 else 0) + m)"

abbreviation (input) f64_zero :: f64 where
  "f64_zero \<equiv> 0"

definition f64_one :: f64 where
  "f64_one = 0x3FF0000000000000"

definition f64_qnan :: f64 where
  "f64_qnan = 0x7FF8000000000000"

lemma f64_pack_fields: "f64_pack (f64_sign x) (f64_mag x) = x"
proof -
  have lt: "unat x < 2 ^ 64" using unsigned_less [of x, where ?'a = nat] by simp
  show ?thesis
  proof (cases "f64_sign x")
    case True
    then have ge: "2 ^ 63 \<le> unat x" by (simp add: f64_sign_def)
    then have "unat x mod 2 ^ 63 = unat x - 2 ^ 63"
      using lt by (simp add: mod_if le_mod_geq)
    then have "2 ^ 63 + f64_mag x = unat x"
      using ge by (simp add: f64_mag_def)
    with True show ?thesis by (simp add: f64_pack_def)
  next
    case False
    then have "f64_mag x = unat x" by (simp add: f64_mag_def f64_sign_def)
    with False show ?thesis by (simp add: f64_pack_def)
  qed
qed

section \<open>Order\<close>

text \<open>
  On the patterns of one sign the magnitude field orders the values, infinities included; the
  two zeros compare equal and a NaN compares with nothing.
\<close>

definition f64_key :: "f64 \<Rightarrow> int" where
  "f64_key x = (if f64_sign x then - int (f64_mag x) else int (f64_mag x))"

definition f64_less :: "f64 \<Rightarrow> f64 \<Rightarrow> bool" where
  "f64_less x y \<longleftrightarrow> \<not> f64_nan x \<and> \<not> f64_nan y \<and> f64_key x < f64_key y"

abbreviation f64_gt :: "f64 \<Rightarrow> f64 \<Rightarrow> bool" where
  "f64_gt x y \<equiv> f64_less y x"

text \<open>\<open>std::max(a, b)\<close> is \<open>(a < b) ? b : a\<close>; \<open>std::fabs\<close> clears the sign bit.\<close>

definition f64_max :: "f64 \<Rightarrow> f64 \<Rightarrow> f64" where
  "f64_max x y = (if f64_less x y then y else x)"

definition f64_fabs :: "f64 \<Rightarrow> f64" where
  "f64_fabs x = f64_pack False (f64_mag x)"

lemma f64_less_irrefl [simp]: "\<not> f64_less x x"
  by (simp add: f64_less_def)

lemma f64_less_trans: "f64_less x y \<Longrightarrow> f64_less y z \<Longrightarrow> f64_less x z"
  by (auto simp: f64_less_def)

lemma f64_not_less_trans:
  "\<not> f64_nan x \<Longrightarrow> \<not> f64_nan y \<Longrightarrow> \<not> f64_nan z \<Longrightarrow> \<not> f64_less y x \<Longrightarrow> \<not> f64_less z y \<Longrightarrow>
   \<not> f64_less z x"
  by (auto simp: f64_less_def)

lemma f64_max_nan: "\<not> f64_nan x \<Longrightarrow> \<not> f64_nan (f64_max x y)"
  by (auto simp: f64_max_def f64_less_def)

lemma f64_max_ge: "\<not> f64_less (f64_max x y) x" "\<not> f64_nan x \<Longrightarrow> \<not> f64_less (f64_max x y) y"
  by (auto simp: f64_max_def f64_less_def)

section \<open>Rounding and arithmetic\<close>

text \<open>
  A finite value is an integer multiple of \<open>2^-1074\<close>, the smallest subnormal. \<open>f64_scaled\<close> is
  that multiple and \<open>f64_round s a b\<close> the nearest double of \<open>\<plusminus>(a / b)\<close> multiples.
\<close>

definition f64_units :: "f64 \<Rightarrow> nat" where
  "f64_units x = (if f64_exp x = 0 then f64_frac x
                  else (2 ^ 52 + f64_frac x) * 2 ^ (f64_exp x - 1))"

definition f64_scaled :: "f64 \<Rightarrow> int" where
  "f64_scaled x = (if f64_sign x then - int (f64_units x) else int (f64_units x))"

definition f64_round :: "bool \<Rightarrow> nat \<Rightarrow> nat \<Rightarrow> f64" where
  "f64_round s a b =
     (let sh = floorlog 2 (a div b) - 53;
          d = b * 2 ^ sh;
          n = a div d;
          r = a mod d;
          m = (if d < 2 * r \<or> (2 * r = d \<and> odd n) then n + 1 else n)
      in f64_pack s (min (sh * 2 ^ 52 + m) (2047 * 2 ^ 52)))"

definition f64_add :: "f64 \<Rightarrow> f64 \<Rightarrow> f64" where
  "f64_add x y =
     (if f64_nan x \<or> f64_nan y then f64_qnan
      else if f64_inf x then (if f64_inf y \<and> f64_sign x \<noteq> f64_sign y then f64_qnan else x)
      else if f64_inf y then y
      else let z = f64_scaled x + f64_scaled y
           in if z = 0 then f64_pack (f64_sign x \<and> f64_sign y) 0
              else f64_round (z < 0) (nat \<bar>z\<bar>) 1)"

definition f64_mul :: "f64 \<Rightarrow> f64 \<Rightarrow> f64" where
  "f64_mul x y =
     (let s = (f64_sign x \<noteq> f64_sign y)
      in if f64_nan x \<or> f64_nan y then f64_qnan
         else if f64_inf x \<or> f64_inf y
         then (if f64_mag x = 0 \<or> f64_mag y = 0 then f64_qnan else f64_pack s (2047 * 2 ^ 52))
         else f64_round s (f64_units x * f64_units y) (2 ^ 1074))"

definition f64_div :: "f64 \<Rightarrow> f64 \<Rightarrow> f64" where
  "f64_div x y =
     (let s = (f64_sign x \<noteq> f64_sign y)
      in if f64_nan x \<or> f64_nan y then f64_qnan
         else if f64_inf x then (if f64_inf y then f64_qnan else f64_pack s (2047 * 2 ^ 52))
         else if f64_inf y then f64_pack s 0
         else if f64_mag y = 0 then (if f64_mag x = 0 then f64_qnan else f64_pack s (2047 * 2 ^ 52))
         else f64_round s (f64_units x * 2 ^ 1074) (f64_units y))"

text \<open>\<open>static_cast<double>\<close> of an unsigned integer.\<close>

definition f64_of_nat :: "nat \<Rightarrow> f64" where
  "f64_of_nat n = f64_round False (n * 2 ^ 1074) 1"

text \<open>
  \<open>static_cast<uint64_t>(std::llround(x))\<close>: half away from zero. A value outside the range of
  \<open>long long\<close> (or a NaN) gives \<open>LLONG_MIN\<close>, as glibc on x86-64 does.
\<close>

definition f64_llround :: "f64 \<Rightarrow> u64" where
  "f64_llround x =
     (if f64_finite x
      then (let n = (2 * f64_units x + 2 ^ 1074) div (2 * 2 ^ 1074)
            in if n < 2 ^ 63 then (if f64_sign x then - of_nat n else of_nat n)
               else 2 ^ 63)
      else 2 ^ 63)"

section \<open>Exact cases\<close>

lemma f64_round_scale:
  assumes "0 < c"
  shows "f64_round s (a * c) (b * c) = f64_round s a b"
proof -
  let ?sh = "floorlog 2 (a div b) - 53"
  let ?d = "b * 2 ^ ?sh"
  have q: "a * c div (b * c) = a div b" using assms by simp
  have d: "b * c * 2 ^ k = (b * 2 ^ k) * c" for k by simp
  have n: "a * c div (?d * c) = a div ?d" using assms by simp
  have r: "a * c mod (?d * c) = (a mod ?d) * c" by (simp add: mult_mod_left)
  have lt: "(?d * c < 2 * ((a mod ?d) * c)) = (?d < 2 * (a mod ?d))"
    by (simp only: mult.assoc [symmetric] mult_less_cancel2) (use assms in simp)
  have eq: "(2 * ((a mod ?d) * c) = ?d * c) = (2 * (a mod ?d) = ?d)"
    by (simp only: mult.assoc [symmetric] mult_cancel2) (use assms in simp)
  show ?thesis unfolding f64_round_def q d n r Let_def lt eq ..
qed

lemma floorlog_2_bits:
  assumes "2 ^ k \<le> a" and "a < 2 ^ Suc k"
  shows "floorlog 2 a = Suc k"
proof (rule order_antisym)
  show "floorlog 2 a \<le> Suc k" using assms(2) by (intro floorlog_leI) auto
  show "Suc k \<le> floorlog 2 a" using assms(1) by (intro floorlog_geI) auto
qed

lemma f64_units_small: "f64_exp x = 0 \<Longrightarrow> f64_units x < 2 ^ 52"
  by (simp add: f64_units_def f64_frac_def)

lemma f64_mag_split: "f64_mag x = f64_exp x * 2 ^ 52 + f64_frac x"
  by (simp add: f64_exp_def f64_frac_def)

lemma f64_round_exact:
  assumes "f64_finite x"
  shows "f64_round (f64_sign x) (f64_units x) 1 = x"
proof -
  have frac: "f64_frac x < 2 ^ 52" by (simp add: f64_frac_def)
  have le: "f64_mag x \<le> 2047 * 2 ^ 52" using assms by (simp add: f64_finite_def)
  show ?thesis
  proof (cases "f64_exp x = 0")
    case True
    then have u: "f64_units x = f64_mag x" "f64_units x < 2 ^ 52"
      using f64_units_small [of x] f64_mag_split [of x] by (auto simp: f64_units_def)
    have "floorlog 2 (f64_units x) \<le> 52"
      using u(2) by (intro floorlog_leI) auto
    then have "f64_round (f64_sign x) (f64_units x) 1 = f64_pack (f64_sign x) (f64_mag x)"
      using u le by (simp add: f64_round_def)
    then show ?thesis by (simp add: f64_pack_fields)
  next
    case False
    define e where "e = f64_exp x - 1"
    define f where "f = 2 ^ 52 + f64_frac x"
    have u: "f64_units x = f * 2 ^ e" using False by (simp add: f64_units_def e_def f_def)
    have f_lo: "2 ^ 52 \<le> f" and f_hi: "f < 2 ^ 53" using frac by (auto simp: f_def)
    have "floorlog 2 (f64_units x) = Suc (52 + e)"
    proof (rule floorlog_2_bits)
      show "2 ^ (52 + e) \<le> f64_units x" unfolding u power_add using f_lo by simp
      show "f64_units x < 2 ^ Suc (52 + e)"
      proof -
        have "f * 2 ^ e < 2 ^ 53 * 2 ^ e" using f_hi by simp
        then show ?thesis unfolding u by (simp add: power_add)
      qed
    qed
    then have "f64_round (f64_sign x) (f64_units x) 1
        = f64_pack (f64_sign x) (min (e * 2 ^ 52 + f) (2047 * 2 ^ 52))"
      by (simp add: f64_round_def u)
    also have "e * 2 ^ 52 + f = f64_mag x"
      using False f64_mag_split [of x] by (cases "f64_exp x") (auto simp: e_def f_def)
    finally show ?thesis using le by (simp add: min_absorb1 f64_pack_fields)
  qed
qed

lemma f64_one_fields [simp]:
  "\<not> f64_sign f64_one" "\<not> f64_nan f64_one" "\<not> f64_inf f64_one" "f64_units f64_one = 2 ^ 1074"
  "f64_mag f64_one \<noteq> 0"
proof -
  have mag: "f64_mag f64_one = 1023 * 2 ^ 52" by (simp add: f64_mag_def f64_one_def)
  then have "f64_exp f64_one = 1023" "f64_frac f64_one = 0"
    by (simp_all add: f64_exp_def f64_frac_def)
  then have "f64_units f64_one = 2 ^ 52 * 2 ^ 1022" by (simp add: f64_units_def)
  also have "\<dots> = 2 ^ (52 + 1022)" by (simp only: power_add)
  finally show "f64_units f64_one = 2 ^ 1074" by simp
  show "\<not> f64_sign f64_one" by (simp add: f64_sign_def f64_one_def)
  show "\<not> f64_nan f64_one" "\<not> f64_inf f64_one" "f64_mag f64_one \<noteq> 0"
    using mag by (simp_all add: f64_nan_def f64_inf_def)
qed

lemma f64_finite_not: "f64_finite x \<Longrightarrow> \<not> f64_nan x" "f64_finite x \<Longrightarrow> \<not> f64_inf x"
  by (auto simp: f64_finite_def f64_nan_def f64_inf_def)

text \<open>\<open>x * 1.0 = x\<close>, \<open>1.0 / 1.0 = 1.0\<close> and \<open>0.0 + x = x\<close> (the sum of two zeros of opposite
  sign is \<open>+0.0\<close>).\<close>

lemma f64_mul_one: "f64_finite x \<Longrightarrow> f64_mul x f64_one = x"
  using f64_round_scale [of "2 ^ 1074" "f64_sign x" "f64_units x" 1] f64_round_exact [of x]
  by (simp add: f64_mul_def f64_finite_not)

lemma f64_div_one_one: "f64_div f64_one f64_one = f64_one"
proof -
  have "f64_finite f64_one" by (simp add: f64_finite_def f64_mag_def f64_one_def)
  from f64_round_exact [OF this] have "f64_round False (2 ^ 1074) 1 = f64_one"
    by simp
  then show ?thesis
    using f64_round_scale [of "2 ^ 1074" False "2 ^ 1074" 1] by (simp add: f64_div_def)
qed

lemma f64_zero_fields [simp]:
  "\<not> f64_sign 0" "f64_mag 0 = 0" "\<not> f64_nan 0" "\<not> f64_inf 0" "f64_units 0 = 0" "f64_scaled 0 = 0"
  by (simp_all add: f64_sign_def f64_mag_def f64_nan_def f64_inf_def f64_units_def f64_exp_def
      f64_frac_def f64_scaled_def)

lemma f64_units_0: "f64_units x = 0 \<Longrightarrow> f64_mag x = 0"
  by (auto simp: f64_units_def f64_mag_split split: if_splits)

lemma f64_add_zero:
  assumes "f64_finite x" and "x \<noteq> 2 ^ 63"
  shows "f64_add f64_zero x = x"
proof (cases "f64_units x = 0")
  case True
  then have mag: "f64_mag x = 0" by (rule f64_units_0)
  have "\<not> f64_sign x"
    using f64_pack_fields [of x] mag assms(2) by (auto simp: f64_pack_def)
  then have "x = f64_pack False 0" using f64_pack_fields [of x] mag by simp
  then show ?thesis using True assms by (simp add: f64_add_def f64_finite_not f64_scaled_def)
next
  case False
  then show ?thesis
    using assms f64_round_exact [of x]
    by (cases "f64_sign x") (simp_all add: f64_add_def f64_finite_not f64_scaled_def)
qed

end
