(* ===== verification/Sample.thy ===== *)
theory Sample
  imports Float64
begin

text \<open>
  The sample (\<open>src/core/sample.h\<close>, \<open>src/core/sample.cpp\<close>): one record per struct, with the
  struct's name as a prefix of its fields; a \<open>double\<close> is its bit pattern (theory \<open>Float64\<close>), an
  integer is a word of its width. \<open>Level\<close> is an enum over \<open>uint8_t\<close> whose custom values are
  cast in, so it is a byte here. \<open>absent_zero\<close> is the invariant the storage and the dashboards
  rely on: a group the mask does not name is all zeros.
\<close>

section \<open>Levels\<close>

type_synonym level = u8

abbreviation (input) L1 :: level where "L1 \<equiv> 1"
abbreviation (input) L2 :: level where "L2 \<equiv> 2"
abbreviation (input) L3 :: level where "L3 \<equiv> 3"
abbreviation (input) kFirstCustomLevel :: level where "kFirstCustomLevel \<equiv> 4"
abbreviation (input) kMaxLevelId :: level where "kMaxLevelId \<equiv> 19"

section \<open>The structs\<close>

record cpu_stats =
  cpu_total_percent :: f64
  cpu_count :: u32
  cpu_user_percent :: f64
  cpu_system_percent :: f64
  cpu_iowait_percent :: f64
  cpu_irq_percent :: f64
  cpu_steal_percent :: f64
  cpu_idle_percent :: f64

record mem_stats =
  mem_total :: u64
  mem_available :: u64
  mem_available_percent :: f64

record swap_stats =
  swap_total :: u64
  swap_used :: u64
  swap_used_percent :: f64

record load_stats =
  load_avg_1m :: f64
  load_avg_5m :: f64
  load_avg_15m :: f64

record disk_stats =
  disk_read_bytes_per_sec :: u64
  disk_write_bytes_per_sec :: u64
  disk_device_count :: u32

record net_stats =
  net_rx_bytes_per_sec :: u64
  net_tx_bytes_per_sec :: u64
  net_interface_count :: u32

record process_stats =
  proc_total :: u32
  proc_running :: u32
  proc_sleeping :: u32
  proc_blocked :: u32
  proc_stopped :: u32
  proc_zombie :: u32
  proc_threads :: u32

record tcp_stats =
  tcp_established :: u32
  tcp_time_wait :: u32
  tcp_active_opens_per_sec :: f64
  tcp_passive_opens_per_sec :: f64
  tcp_retransmits_per_sec :: f64
  tcp_in_segments_per_sec :: f64
  tcp_out_segments_per_sec :: f64
  tcp_in_errors_per_sec :: f64
  tcp_present :: bool

record udp_stats =
  udp_in_datagrams_per_sec :: f64
  udp_out_datagrams_per_sec :: f64
  udp_no_port_per_sec :: f64
  udp_in_errors_per_sec :: f64
  udp_present :: bool

record icmp_stats =
  icmp_in_msgs_per_sec :: f64
  icmp_out_msgs_per_sec :: f64
  icmp_in_errors_per_sec :: f64
  icmp_in_dest_unreachs_per_sec :: f64
  icmp_present :: bool

record fs_stats =
  fs_count :: u32
  fs_max_used_percent :: f64
  fs_max_inodes_used_percent :: f64
  fs_present :: bool

record clock_stats =
  clock_offset_ms :: f64
  clock_max_error_ms :: f64
  clock_synced :: bool
  clock_present :: bool

record entropy_stats =
  entropy_available_bits :: u32
  entropy_present :: bool

record self_stats =
  self_rss_bytes :: u64
  self_peak_rss_bytes :: u64
  self_cpu_user_seconds :: f64
  self_cpu_system_seconds :: f64

record thermal_stats =
  thermal_max_celsius :: f64
  thermal_sensor_count :: u32
  thermal_present :: bool

record file_watch_sample =
  fw_events_this_tick :: u32
  fw_watched_count :: u32
  fw_present :: bool

record sample =
  s_timestamp_nanos :: u64
  s_level :: level
  s_cpu :: cpu_stats
  s_mem :: mem_stats
  s_swap :: swap_stats
  s_load :: load_stats
  s_disk :: disk_stats
  s_net :: net_stats
  s_proc :: process_stats
  s_entropy :: entropy_stats
  s_self :: self_stats
  s_thermal :: thermal_stats
  s_file_watch :: file_watch_sample
  s_tcp :: tcp_stats
  s_udp :: udp_stats
  s_icmp :: icmp_stats
  s_fs :: fs_stats
  s_clock :: clock_stats
  s_groups :: u32
  s_baseline :: u32
  s_uptime_seconds :: f64
  s_folded :: bool

section \<open>Value initialisation: \<open>T{}\<close>\<close>

definition cpu_zero :: cpu_stats where
  "cpu_zero = \<lparr>cpu_total_percent = 0, cpu_count = 0, cpu_user_percent = 0, cpu_system_percent = 0,
     cpu_iowait_percent = 0, cpu_irq_percent = 0, cpu_steal_percent = 0, cpu_idle_percent = 0\<rparr>"

definition mem_zero :: mem_stats where
  "mem_zero = \<lparr>mem_total = 0, mem_available = 0, mem_available_percent = 0\<rparr>"

definition swap_zero :: swap_stats where
  "swap_zero = \<lparr>swap_total = 0, swap_used = 0, swap_used_percent = 0\<rparr>"

definition load_zero :: load_stats where
  "load_zero = \<lparr>load_avg_1m = 0, load_avg_5m = 0, load_avg_15m = 0\<rparr>"

definition disk_zero :: disk_stats where
  "disk_zero = \<lparr>disk_read_bytes_per_sec = 0, disk_write_bytes_per_sec = 0, disk_device_count = 0\<rparr>"

definition net_zero :: net_stats where
  "net_zero = \<lparr>net_rx_bytes_per_sec = 0, net_tx_bytes_per_sec = 0, net_interface_count = 0\<rparr>"

definition proc_zero :: process_stats where
  "proc_zero = \<lparr>proc_total = 0, proc_running = 0, proc_sleeping = 0, proc_blocked = 0,
     proc_stopped = 0, proc_zombie = 0, proc_threads = 0\<rparr>"

definition tcp_zero :: tcp_stats where
  "tcp_zero = \<lparr>tcp_established = 0, tcp_time_wait = 0, tcp_active_opens_per_sec = 0,
     tcp_passive_opens_per_sec = 0, tcp_retransmits_per_sec = 0, tcp_in_segments_per_sec = 0,
     tcp_out_segments_per_sec = 0, tcp_in_errors_per_sec = 0, tcp_present = False\<rparr>"

definition udp_zero :: udp_stats where
  "udp_zero = \<lparr>udp_in_datagrams_per_sec = 0, udp_out_datagrams_per_sec = 0,
     udp_no_port_per_sec = 0, udp_in_errors_per_sec = 0, udp_present = False\<rparr>"

definition icmp_zero :: icmp_stats where
  "icmp_zero = \<lparr>icmp_in_msgs_per_sec = 0, icmp_out_msgs_per_sec = 0,
     icmp_in_errors_per_sec = 0, icmp_in_dest_unreachs_per_sec = 0, icmp_present = False\<rparr>"

definition fs_zero :: fs_stats where
  "fs_zero = \<lparr>fs_count = 0, fs_max_used_percent = 0, fs_max_inodes_used_percent = 0,
     fs_present = False\<rparr>"

definition clock_zero :: clock_stats where
  "clock_zero = \<lparr>clock_offset_ms = 0, clock_max_error_ms = 0, clock_synced = False,
     clock_present = False\<rparr>"

definition entropy_zero :: entropy_stats where
  "entropy_zero = \<lparr>entropy_available_bits = 0, entropy_present = False\<rparr>"

definition self_zero :: self_stats where
  "self_zero = \<lparr>self_rss_bytes = 0, self_peak_rss_bytes = 0, self_cpu_user_seconds = 0,
     self_cpu_system_seconds = 0\<rparr>"

definition thermal_zero :: thermal_stats where
  "thermal_zero = \<lparr>thermal_max_celsius = 0, thermal_sensor_count = 0, thermal_present = False\<rparr>"

definition file_watch_zero :: file_watch_sample where
  "file_watch_zero = \<lparr>fw_events_this_tick = 0, fw_watched_count = 0, fw_present = False\<rparr>"

lemmas zero_defs = cpu_zero_def mem_zero_def swap_zero_def load_zero_def disk_zero_def
  net_zero_def proc_zero_def tcp_zero_def udp_zero_def icmp_zero_def fs_zero_def clock_zero_def
  entropy_zero_def self_zero_def thermal_zero_def file_watch_zero_def

definition sample_zero :: sample where
  "sample_zero = \<lparr>s_timestamp_nanos = 0, s_level = 0, s_cpu = cpu_zero, s_mem = mem_zero,
     s_swap = swap_zero, s_load = load_zero, s_disk = disk_zero, s_net = net_zero,
     s_proc = proc_zero, s_entropy = entropy_zero, s_self = self_zero, s_thermal = thermal_zero,
     s_file_watch = file_watch_zero, s_tcp = tcp_zero, s_udp = udp_zero, s_icmp = icmp_zero,
     s_fs = fs_zero, s_clock = clock_zero, s_groups = 0, s_baseline = 0, s_uptime_seconds = 0,
     s_folded = False\<rparr>"

section \<open>Metric groups\<close>

abbreviation (input) kGroupCpu :: u32 where "kGroupCpu \<equiv> 1"
abbreviation (input) kGroupMem :: u32 where "kGroupMem \<equiv> 2"
abbreviation (input) kGroupSwap :: u32 where "kGroupSwap \<equiv> 4"
abbreviation (input) kGroupLoad :: u32 where "kGroupLoad \<equiv> 8"
abbreviation (input) kGroupDisk :: u32 where "kGroupDisk \<equiv> 16"
abbreviation (input) kGroupNet :: u32 where "kGroupNet \<equiv> 32"
abbreviation (input) kGroupProc :: u32 where "kGroupProc \<equiv> 64"
abbreviation (input) kGroupEntropy :: u32 where "kGroupEntropy \<equiv> 128"
abbreviation (input) kGroupSelf :: u32 where "kGroupSelf \<equiv> 256"
abbreviation (input) kGroupThermal :: u32 where "kGroupThermal \<equiv> 512"
abbreviation (input) kGroupFileWatch :: u32 where "kGroupFileWatch \<equiv> 1024"
abbreviation (input) kGroupUptime :: u32 where "kGroupUptime \<equiv> 2048"
abbreviation (input) kGroupTcp :: u32 where "kGroupTcp \<equiv> 4096"
abbreviation (input) kGroupUdp :: u32 where "kGroupUdp \<equiv> 8192"
abbreviation (input) kGroupFs :: u32 where "kGroupFs \<equiv> 16384"
abbreviation (input) kGroupClock :: u32 where "kGroupClock \<equiv> 32768"
abbreviation (input) kGroupIcmp :: u32 where "kGroupIcmp \<equiv> 65536"
abbreviation (input) kGroupsV7 :: u32 where "kGroupsV7 \<equiv> 4095"
abbreviation (input) kGroupsAll :: u32 where "kGroupsAll \<equiv> 131071"

text \<open>\<open>(groups & g) != 0\<close>, the test every consumer of the mask makes.\<close>

definition has_group :: "u32 \<Rightarrow> u32 \<Rightarrow> bool" where
  "has_group groups g \<longleftrightarrow> groups AND g \<noteq> 0"

text \<open>
  A group bit is a power of two, so the test is a bit test; the collection \<open>group_bit\<close> turns
  every test into one.
\<close>

named_theorems group_bit

lemma has_group_bit: "n < 32 \<Longrightarrow> has_group groups (2 ^ n) = bit groups n"
  by (simp add: has_group_def and_exp_eq_0_iff_not_bit)

lemma has_group_bits [group_bit]:
  "has_group m kGroupCpu = bit m 0" "has_group m kGroupMem = bit m 1"
  "has_group m kGroupSwap = bit m 2" "has_group m kGroupLoad = bit m 3"
  "has_group m kGroupDisk = bit m 4" "has_group m kGroupNet = bit m 5"
  "has_group m kGroupProc = bit m 6" "has_group m kGroupEntropy = bit m 7"
  "has_group m kGroupSelf = bit m 8" "has_group m kGroupThermal = bit m 9"
  "has_group m kGroupFileWatch = bit m 10" "has_group m kGroupUptime = bit m 11"
  "has_group m kGroupTcp = bit m 12" "has_group m kGroupUdp = bit m 13"
  "has_group m kGroupFs = bit m 14" "has_group m kGroupClock = bit m 15"
  "has_group m kGroupIcmp = bit m 16"
  using has_group_bit [of 0 m] has_group_bit [of 1 m] has_group_bit [of 2 m]
    has_group_bit [of 3 m] has_group_bit [of 4 m] has_group_bit [of 5 m] has_group_bit [of 6 m]
    has_group_bit [of 7 m] has_group_bit [of 8 m] has_group_bit [of 9 m] has_group_bit [of 10 m]
    has_group_bit [of 11 m] has_group_bit [of 12 m] has_group_bit [of 13 m]
    has_group_bit [of 14 m] has_group_bit [of 15 m] has_group_bit [of 16 m]
  by simp_all

section \<open>\<open>clear_groups\<close>\<close>

definition cleared :: "u32 \<Rightarrow> u32 \<Rightarrow> 'a \<Rightarrow> 'a \<Rightarrow> 'a" where
  "cleared groups g zero v = (if has_group groups g then zero else v)"

definition clear_fields :: "sample \<Rightarrow> u32 \<Rightarrow> sample" where
  "clear_fields s groups = s\<lparr>
     s_cpu := cleared groups kGroupCpu cpu_zero (s_cpu s),
     s_mem := cleared groups kGroupMem mem_zero (s_mem s),
     s_swap := cleared groups kGroupSwap swap_zero (s_swap s),
     s_load := cleared groups kGroupLoad load_zero (s_load s),
     s_disk := cleared groups kGroupDisk disk_zero (s_disk s),
     s_net := cleared groups kGroupNet net_zero (s_net s),
     s_proc := cleared groups kGroupProc proc_zero (s_proc s),
     s_entropy := cleared groups kGroupEntropy entropy_zero (s_entropy s),
     s_self := cleared groups kGroupSelf self_zero (s_self s),
     s_thermal := cleared groups kGroupThermal thermal_zero (s_thermal s),
     s_file_watch := cleared groups kGroupFileWatch file_watch_zero (s_file_watch s),
     s_uptime_seconds := cleared groups kGroupUptime 0 (s_uptime_seconds s),
     s_tcp := cleared groups kGroupTcp tcp_zero (s_tcp s),
     s_udp := cleared groups kGroupUdp udp_zero (s_udp s),
     s_icmp := cleared groups kGroupIcmp icmp_zero (s_icmp s),
     s_fs := cleared groups kGroupFs fs_zero (s_fs s),
     s_clock := cleared groups kGroupClock clock_zero (s_clock s),
     s_groups := s_groups s AND NOT groups\<rparr>"

text \<open>The pointer may be null: then nothing happens.\<close>

definition clear_groups :: "sample option \<Rightarrow> u32 \<Rightarrow> sample option" where
  "clear_groups so groups = map_option (\<lambda>s. clear_fields s groups) so"

section \<open>A group the mask does not name is all zeros\<close>

definition absent_zero :: "sample \<Rightarrow> bool" where
  "absent_zero s \<longleftrightarrow>
     (has_group (s_groups s) kGroupCpu \<or> s_cpu s = cpu_zero) \<and>
     (has_group (s_groups s) kGroupMem \<or> s_mem s = mem_zero) \<and>
     (has_group (s_groups s) kGroupSwap \<or> s_swap s = swap_zero) \<and>
     (has_group (s_groups s) kGroupLoad \<or> s_load s = load_zero) \<and>
     (has_group (s_groups s) kGroupDisk \<or> s_disk s = disk_zero) \<and>
     (has_group (s_groups s) kGroupNet \<or> s_net s = net_zero) \<and>
     (has_group (s_groups s) kGroupProc \<or> s_proc s = proc_zero) \<and>
     (has_group (s_groups s) kGroupEntropy \<or> s_entropy s = entropy_zero) \<and>
     (has_group (s_groups s) kGroupSelf \<or> s_self s = self_zero) \<and>
     (has_group (s_groups s) kGroupThermal \<or> s_thermal s = thermal_zero) \<and>
     (has_group (s_groups s) kGroupFileWatch \<or> s_file_watch s = file_watch_zero) \<and>
     (has_group (s_groups s) kGroupUptime \<or> s_uptime_seconds s = 0) \<and>
     (has_group (s_groups s) kGroupTcp \<or> s_tcp s = tcp_zero) \<and>
     (has_group (s_groups s) kGroupUdp \<or> s_udp s = udp_zero) \<and>
     (has_group (s_groups s) kGroupIcmp \<or> s_icmp s = icmp_zero) \<and>
     (has_group (s_groups s) kGroupFs \<or> s_fs s = fs_zero) \<and>
     (has_group (s_groups s) kGroupClock \<or> s_clock s = clock_zero)"

lemma absent_zero_sample_zero: "absent_zero sample_zero"
  by (simp add: absent_zero_def sample_zero_def)

lemma cleared_absent:
  "n < 32 \<Longrightarrow> bit m n \<or> v = z \<Longrightarrow>
   bit (m AND NOT (g::u32)) n \<or> (if bit g n then z else v) = z"
  by (auto simp: bit_simps)

lemma clear_fields_sel:
  "s_cpu (clear_fields s g) = cleared g kGroupCpu cpu_zero (s_cpu s)"
  "s_mem (clear_fields s g) = cleared g kGroupMem mem_zero (s_mem s)"
  "s_swap (clear_fields s g) = cleared g kGroupSwap swap_zero (s_swap s)"
  "s_load (clear_fields s g) = cleared g kGroupLoad load_zero (s_load s)"
  "s_disk (clear_fields s g) = cleared g kGroupDisk disk_zero (s_disk s)"
  "s_net (clear_fields s g) = cleared g kGroupNet net_zero (s_net s)"
  "s_proc (clear_fields s g) = cleared g kGroupProc proc_zero (s_proc s)"
  "s_entropy (clear_fields s g) = cleared g kGroupEntropy entropy_zero (s_entropy s)"
  "s_self (clear_fields s g) = cleared g kGroupSelf self_zero (s_self s)"
  "s_thermal (clear_fields s g) = cleared g kGroupThermal thermal_zero (s_thermal s)"
  "s_file_watch (clear_fields s g) = cleared g kGroupFileWatch file_watch_zero (s_file_watch s)"
  "s_uptime_seconds (clear_fields s g) = cleared g kGroupUptime 0 (s_uptime_seconds s)"
  "s_tcp (clear_fields s g) = cleared g kGroupTcp tcp_zero (s_tcp s)"
  "s_udp (clear_fields s g) = cleared g kGroupUdp udp_zero (s_udp s)"
  "s_icmp (clear_fields s g) = cleared g kGroupIcmp icmp_zero (s_icmp s)"
  "s_fs (clear_fields s g) = cleared g kGroupFs fs_zero (s_fs s)"
  "s_clock (clear_fields s g) = cleared g kGroupClock clock_zero (s_clock s)"
  "s_groups (clear_fields s g) = s_groups s AND NOT g"
  "s_timestamp_nanos (clear_fields s g) = s_timestamp_nanos s"
  "s_level (clear_fields s g) = s_level s"
  "s_baseline (clear_fields s g) = s_baseline s"
  "s_folded (clear_fields s g) = s_folded s"
  by (simp_all add: clear_fields_def)

text \<open>Clearing groups keeps the invariant: each conjunct is one use of \<open>cleared_absent\<close>.\<close>

lemma clear_fields_absent_zero:
  "absent_zero s \<Longrightarrow> absent_zero (clear_fields s g)"
  unfolding absent_zero_def clear_fields_sel cleared_def group_bit
  apply (elim conjE)
  apply (intro conjI cleared_absent)
  apply ((assumption | simp (no_asm)))+
  done

end
