(* ===== verification/Endian.thy ===== *)
theory Endian
  imports Prelude
begin

text \<open>
  Little-endian field access (\<open>src/core/endian.h\<close>) and the cursor operations of the sample
  codec (\<open>put_*\<close>, \<open>get_*\<close>, \<open>skip\<close> of \<open>src/core/codec.cpp\<close>). A cursor over a buffer is the list
  of the bytes from it to the buffer's end; a read past the end, undefined in C++, is \<open>None\<close>, so
  that a theorem can say it does not happen. The collections \<open>get_put\<close> (read back what was
  written) and \<open>get_len\<close> (a read within the buffer succeeds) carry the codec's proofs.
\<close>

section \<open>Bytes of an integer\<close>

definition le_put_u32 :: "u32 \<Rightarrow> byte list" where
  "le_put_u32 v = [ucast v, ucast (drop_bit 8 v), ucast (drop_bit 16 v), ucast (drop_bit 24 v)]"

definition le_put_u64 :: "u64 \<Rightarrow> byte list" where
  "le_put_u64 v =
     [ucast v, ucast (drop_bit 8 v), ucast (drop_bit 16 v), ucast (drop_bit 24 v),
      ucast (drop_bit 32 v), ucast (drop_bit 40 v), ucast (drop_bit 48 v), ucast (drop_bit 56 v)]"

fun le_get_u32 :: "byte list \<Rightarrow> u32 option" where
  "le_get_u32 (a # b # c # d # _) =
     Some (ucast a OR push_bit 8 (ucast b) OR push_bit 16 (ucast c) OR push_bit 24 (ucast d))"
| "le_get_u32 _ = None"

fun le_get_u64 :: "byte list \<Rightarrow> u64 option" where
  "le_get_u64 (a # b # c # d # e # f # g # h # _) =
     Some (ucast a OR push_bit 8 (ucast b) OR push_bit 16 (ucast c) OR push_bit 24 (ucast d)
        OR push_bit 32 (ucast e) OR push_bit 40 (ucast f) OR push_bit 48 (ucast g)
        OR push_bit 56 (ucast h))"
| "le_get_u64 _ = None"

lemma length_le_put [simp]: "length (le_put_u32 v) = 4" "length (le_put_u64 w) = 8"
  by (simp_all add: le_put_u32_def le_put_u64_def)

text \<open>Byte \<open>k\<close> of a word, put back in its place, is the word's bits \<open>8 k .. 8 k + 7\<close>.\<close>

lemma byte_slice:
  fixes v :: "'a::len word"
  shows "bit (push_bit k (ucast (ucast (drop_bit k v) :: byte)) :: 'a word) n
    \<longleftrightarrow> k \<le> n \<and> n < k + 8 \<and> n < LENGTH('a) \<and> bit v n"
  by (auto simp: bit_simps)

lemma byte_slice_0:
  fixes v :: "'a::len word"
  shows "bit (ucast (ucast v :: byte) :: 'a word) n \<longleftrightarrow> n < 8 \<and> n < LENGTH('a) \<and> bit v n"
  by (auto simp: bit_simps)

lemma u32_bytes:
  fixes v :: u32
  shows "ucast (ucast v :: byte) OR push_bit 8 (ucast (ucast (drop_bit 8 v) :: byte))
     OR push_bit 16 (ucast (ucast (drop_bit 16 v) :: byte))
     OR push_bit 24 (ucast (ucast (drop_bit 24 v) :: byte)) = v" (is "?w = v")
proof (rule bit_word_eqI)
  fix n assume "n < LENGTH(32)"
  then show "bit ?w n = bit v n"
    unfolding bit_or_iff byte_slice byte_slice_0 by (cases "bit v n") (simp_all, linarith)
qed

lemma u64_bytes:
  fixes v :: u64
  shows "ucast (ucast v :: byte) OR push_bit 8 (ucast (ucast (drop_bit 8 v) :: byte))
     OR push_bit 16 (ucast (ucast (drop_bit 16 v) :: byte))
     OR push_bit 24 (ucast (ucast (drop_bit 24 v) :: byte))
     OR push_bit 32 (ucast (ucast (drop_bit 32 v) :: byte))
     OR push_bit 40 (ucast (ucast (drop_bit 40 v) :: byte))
     OR push_bit 48 (ucast (ucast (drop_bit 48 v) :: byte))
     OR push_bit 56 (ucast (ucast (drop_bit 56 v) :: byte)) = v" (is "?w = v")
proof (rule bit_word_eqI)
  fix n assume "n < LENGTH(64)"
  then show "bit ?w n = bit v n"
    unfolding bit_or_iff byte_slice byte_slice_0 by (cases "bit v n") (simp_all, linarith)
qed

lemma le_get_put_u32 [get_put]: "le_get_u32 (le_put_u32 v @ r) = Some v"
  by (simp add: le_put_u32_def u32_bytes)

lemma le_get_put_u64 [get_put]: "le_get_u64 (le_put_u64 v @ r) = Some v"
  by (simp add: le_put_u64_def u64_bytes)

text \<open>Reading is injective: the value determines the four bytes.\<close>

lemma le_put_get_u32: "le_get_u32 p = Some v \<Longrightarrow> take 4 p = le_put_u32 v"
proof (induction p rule: le_get_u32.induct)
  case (1 a b c d r)
  then have v: "v = ucast a OR push_bit 8 (ucast b) OR push_bit 16 (ucast c) OR push_bit 24 (ucast d)"
    by simp
  have "a = ucast v" "b = ucast (drop_bit 8 v)" "c = ucast (drop_bit 16 v)" "d = ucast (drop_bit 24 v)"
    unfolding v by (rule bit_word_eqI; auto simp: bit_simps dest: bit_imp_le_length)+
  then show ?case by (simp add: le_put_u32_def)
qed simp_all

lemma list_ge_4: "4 \<le> length p \<Longrightarrow> \<exists>a b c d r. p = a # b # c # d # r"
  by (cases p; cases "tl p"; cases "tl (tl p)"; cases "tl (tl (tl p))") auto

lemma le_get_u32_len: "4 \<le> length p \<Longrightarrow> \<exists>v. le_get_u32 p = Some v"
  using list_ge_4 [of p] by auto

lemma le_get_u32_drop: "k + 4 \<le> length p \<Longrightarrow> \<exists>v. le_get_u32 (drop k p) = Some v"
  by (rule le_get_u32_len) simp

lemma le_get_u64_len:
  assumes "8 \<le> length p"
  shows "\<exists>v. le_get_u64 p = Some v"
proof -
  obtain a b c d r where p: "p = a # b # c # d # r" using list_ge_4 [of p] assms by auto
  obtain e f g h s where "r = e # f # g # h # s" using list_ge_4 [of r] assms p by auto
  then show ?thesis using p by simp
qed

section \<open>Cursor operations\<close>

definition put_u8 :: "u8 \<Rightarrow> byte list" where
  "put_u8 v = [v]"

definition put_u32 :: "u32 \<Rightarrow> byte list" where
  "put_u32 v = le_put_u32 v"

definition put_u64 :: "u64 \<Rightarrow> byte list" where
  "put_u64 v = le_put_u64 v"

text \<open>A double is its bit pattern, so the \<open>memcpy\<close> into a \<open>uint64_t\<close> is the identity.\<close>

definition put_f64 :: "64 word \<Rightarrow> byte list" where
  "put_f64 v = put_u64 v"

definition put_pad :: "nat \<Rightarrow> byte list" where
  "put_pad n = replicate n 0"

definition put_bool :: "bool \<Rightarrow> byte list" where
  "put_bool b = put_u8 (if b then 1 else 0)"

definition get_u8 :: "byte list \<Rightarrow> (u8 \<times> byte list) option" where
  "get_u8 p = (case p of [] \<Rightarrow> None | v # r \<Rightarrow> Some (v, r))"

definition get_u32 :: "byte list \<Rightarrow> (u32 \<times> byte list) option" where
  "get_u32 p = do { v \<leftarrow> le_get_u32 p; Some (v, drop 4 p) }"

definition get_u64 :: "byte list \<Rightarrow> (u64 \<times> byte list) option" where
  "get_u64 p = do { v \<leftarrow> le_get_u64 p; Some (v, drop 8 p) }"

definition get_f64 :: "byte list \<Rightarrow> (64 word \<times> byte list) option" where
  "get_f64 p = get_u64 p"

definition get_bool :: "byte list \<Rightarrow> (bool \<times> byte list) option" where
  "get_bool p = do { (v, p) \<leftarrow> get_u8 p; Some (v \<noteq> 0, p) }"

text \<open>\<open>skip\<close> only moves the pointer; past the end (one past it is still a valid pointer) it is
  \<open>None\<close>.\<close>

definition skip :: "nat \<Rightarrow> byte list \<Rightarrow> byte list option" where
  "skip n p = (if n \<le> length p then Some (drop n p) else None)"

lemma length_put [simp]:
  "length (put_u8 a) = 1" "length (put_u32 b) = 4" "length (put_u64 c) = 8"
  "length (put_f64 d) = 8" "length (put_pad n) = n" "length (put_bool e) = 1"
  by (simp_all add: put_u8_def put_u32_def put_u64_def put_f64_def put_pad_def put_bool_def)

lemma get_u8_put [get_put]: "get_u8 (put_u8 v @ r) = Some (v, r)"
  by (simp add: get_u8_def put_u8_def)

lemma get_u32_put [get_put]: "get_u32 (put_u32 v @ r) = Some (v, r)"
  by (simp add: get_u32_def put_u32_def le_get_put_u32)

lemma get_u64_put [get_put]: "get_u64 (put_u64 v @ r) = Some (v, r)"
  by (simp add: get_u64_def put_u64_def le_get_put_u64)

lemma get_f64_put [get_put]: "get_f64 (put_f64 v @ r) = Some (v, r)"
  by (simp add: get_f64_def put_f64_def get_u64_put)

lemma get_bool_put [get_put]: "get_bool (put_bool v @ r) = Some (v, r)"
  by (simp add: get_bool_def put_bool_def get_u8_put)

lemma skip_pad [get_put]: "skip n (put_pad n @ r) = Some r"
  by (simp add: skip_def put_pad_def)

section \<open>Reads within the buffer\<close>

text \<open>
  The same reads with their value written out: a read of \<open>k\<close> bytes from a cursor with at least
  \<open>k\<close> left succeeds and advances by \<open>k\<close>.
\<close>

named_theorems get_len

definition val_u32 :: "byte list \<Rightarrow> u32" where
  "val_u32 p = the (le_get_u32 p)"

definition val_u64 :: "byte list \<Rightarrow> u64" where
  "val_u64 p = the (le_get_u64 p)"

definition val_bool :: "byte list \<Rightarrow> bool" where
  "val_bool p \<longleftrightarrow> hd p \<noteq> 0"

lemma get_u8_len [get_len]: "0 < length p \<Longrightarrow> get_u8 p = Some (hd p, drop 1 p)"
  by (cases p) (simp_all add: get_u8_def)

lemma get_u32_len [get_len]: "4 \<le> length p \<Longrightarrow> get_u32 p = Some (val_u32 p, drop 4 p)"
  using le_get_u32_len [of p] by (auto simp: get_u32_def val_u32_def)

lemma get_u64_len [get_len]: "8 \<le> length p \<Longrightarrow> get_u64 p = Some (val_u64 p, drop 8 p)"
  using le_get_u64_len [of p] by (auto simp: get_u64_def val_u64_def)

lemma get_f64_len [get_len]: "8 \<le> length p \<Longrightarrow> get_f64 p = Some (val_u64 p, drop 8 p)"
  by (simp add: get_f64_def get_u64_len)

lemma get_bool_len [get_len]: "0 < length p \<Longrightarrow> get_bool p = Some (val_bool p, drop 1 p)"
  by (simp add: get_bool_def get_u8_len val_bool_def)

lemma skip_len [get_len]: "n \<le> length p \<Longrightarrow> skip n p = Some (drop n p)"
  by (simp add: skip_def)

section \<open>Writing into a buffer\<close>

text \<open>\<open>memcpy(buf + off, bytes, n)\<close>, the write staying inside the buffer.\<close>

definition write_at :: "nat \<Rightarrow> byte list \<Rightarrow> byte list \<Rightarrow> byte list" where
  "write_at off bytes buf = take off buf @ bytes @ drop (off + length bytes) buf"

lemma length_write_at [simp]:
  "off + length bytes \<le> length buf \<Longrightarrow> length (write_at off bytes buf) = length buf"
  by (simp add: write_at_def)

lemma nth_write_at:
  assumes "off + length bytes \<le> length buf" and "i < length buf"
  shows "write_at off bytes buf ! i =
    (if off \<le> i \<and> i < off + length bytes then bytes ! (i - off) else buf ! i)"
  using assms by (auto simp: write_at_def nth_append min_def)

lemma take_write_at_before [simp]:
  "n \<le> off \<Longrightarrow> off + length bytes \<le> length buf \<Longrightarrow> take n (write_at off bytes buf) = take n buf"
  by (simp add: write_at_def min_def)

lemma read_write_at [simp]:
  "off + length bytes \<le> length buf \<Longrightarrow>
   take (length bytes) (drop off (write_at off bytes buf)) = bytes"
  by (simp add: write_at_def)

lemma drop_write_at_after [simp]:
  "off + length bytes \<le> n \<Longrightarrow> off + length bytes \<le> length buf \<Longrightarrow>
   drop n (write_at off bytes buf) = drop n buf"
  by (simp add: write_at_def add.commute)

end
