(* ===== verification/Sample_Codec.thy ===== *)
theory Sample_Codec
  imports Sample Endian
begin

text \<open>
  The sample payload codec (\<open>src/core/codec.cpp\<close>). \<open>sample_encode\<close> writes version 9;
  \<open>sample_decode\<close> reads versions 1 to 9, each version's tail its own definition, in the order of
  the source. A decode is a walk of a cursor \<open>p\<close> over the buffer in the option monad; \<open>None\<close>
  would be a read past the end. Proved here: the decoder never makes such a read whatever the
  bytes, a decoded version 9 record is the sample that was encoded, and a record of an older
  version says zero about every group it does not hold.
\<close>

section \<open>Layout\<close>

definition kMagic :: "byte list" where
  "kMagic = [0x42, 0x44, 0x59, 0x4B, 0x53, 0x4D, 0x50, 0x4C]"

definition kVersionWrite :: u32 where
  "kVersionWrite = 9"

definition kEncodedSizeV1 :: nat where
  "kEncodedSizeV1 = 8 + 4 + 4 + 8 + 1 + 7 + 8 + 4 + 4 + 8 + 8 + 8 + 8 + 8 + 8 + 8 + 8 + 8 + 8"

definition kEncodedSizeV2 :: nat where
  "kEncodedSizeV2 = kEncodedSizeV1 + 8 + 8 + 4 + 4 + 8 + 8 + 4 + 4"

definition kEncodedSizeV3 :: nat where
  "kEncodedSizeV3 = kEncodedSizeV2 + 4 + 4"

definition kEncodedSizeV4 :: nat where
  "kEncodedSizeV4 = kEncodedSizeV3 + 4 + 1 + 3"

definition kEncodedSizeV5 :: nat where
  "kEncodedSizeV5 = kEncodedSizeV4 + 8 + 8 + 8 + 8"

definition kEncodedSizeV6 :: nat where
  "kEncodedSizeV6 = kEncodedSizeV5 + 8 + 4 + 1 + 3"

definition kEncodedSizeV7 :: nat where
  "kEncodedSizeV7 = kEncodedSizeV6 + 4 + 4 + 1 + 7"

definition kEncodedSizeV8 :: nat where
  "kEncodedSizeV8 = kEncodedSizeV7 + 6 * 8 + 5 * 4 + 4 + 4 + 4 + 6 * 8 + 1 + 7 + 4 * 8 + 1 + 7
     + 4 + 1 + 3 + 2 * 8 + 2 * 8 + 1 + 1 + 6 + 4 + 4"

definition kEncodedSizeV9 :: nat where
  "kEncodedSizeV9 = kEncodedSizeV8 + 4 * 8 + 1 + 7"

lemmas kEncodedSize_defs = kEncodedSizeV1_def kEncodedSizeV2_def kEncodedSizeV3_def
  kEncodedSizeV4_def kEncodedSizeV5_def kEncodedSizeV6_def kEncodedSizeV7_def
  kEncodedSizeV8_def kEncodedSizeV9_def

definition kMinSize :: "nat list" where
  "kMinSize = [0, kEncodedSizeV1, kEncodedSizeV2, kEncodedSizeV3, kEncodedSizeV4, kEncodedSizeV5,
     kEncodedSizeV6, kEncodedSizeV7, kEncodedSizeV8, kEncodedSizeV9]"

definition sample_max_encoded_size :: nat where
  "sample_max_encoded_size = kEncodedSizeV9"

lemma sample_max_encoded_size_eq: "sample_max_encoded_size = 528"
  by (simp add: sample_max_encoded_size_def kEncodedSize_defs)

section \<open>Encoding\<close>

definition encode_v1 :: "sample \<Rightarrow> byte list" where
  "encode_v1 s =
     put_u64 (s_timestamp_nanos s) @ put_u8 (s_level s) @ put_pad 7 @
     put_f64 (cpu_total_percent (s_cpu s)) @ put_u32 (cpu_count (s_cpu s)) @ put_pad 4 @
     put_u64 (mem_total (s_mem s)) @ put_u64 (mem_available (s_mem s)) @
     put_f64 (mem_available_percent (s_mem s)) @
     put_u64 (swap_total (s_swap s)) @ put_u64 (swap_used (s_swap s)) @
     put_f64 (swap_used_percent (s_swap s)) @
     put_f64 (load_avg_1m (s_load s)) @ put_f64 (load_avg_5m (s_load s)) @
     put_f64 (load_avg_15m (s_load s)) @
     put_f64 (s_uptime_seconds s)"

definition encode_v2 :: "sample \<Rightarrow> byte list" where
  "encode_v2 s =
     put_u64 (disk_read_bytes_per_sec (s_disk s)) @ put_u64 (disk_write_bytes_per_sec (s_disk s)) @
     put_u32 (disk_device_count (s_disk s)) @ put_pad 4 @
     put_u64 (net_rx_bytes_per_sec (s_net s)) @ put_u64 (net_tx_bytes_per_sec (s_net s)) @
     put_u32 (net_interface_count (s_net s)) @ put_pad 4"

definition encode_v3 :: "sample \<Rightarrow> byte list" where
  "encode_v3 s = put_u32 (proc_total (s_proc s)) @ put_u32 (proc_running (s_proc s))"

definition encode_v4 :: "sample \<Rightarrow> byte list" where
  "encode_v4 s =
     put_u32 (entropy_available_bits (s_entropy s)) @ put_bool (entropy_present (s_entropy s)) @
     put_pad 3"

definition encode_v5 :: "sample \<Rightarrow> byte list" where
  "encode_v5 s =
     put_u64 (self_rss_bytes (s_self s)) @ put_u64 (self_peak_rss_bytes (s_self s)) @
     put_f64 (self_cpu_user_seconds (s_self s)) @ put_f64 (self_cpu_system_seconds (s_self s))"

definition encode_v6 :: "sample \<Rightarrow> byte list" where
  "encode_v6 s =
     put_f64 (thermal_max_celsius (s_thermal s)) @ put_u32 (thermal_sensor_count (s_thermal s)) @
     put_bool (thermal_present (s_thermal s)) @ put_pad 3"

definition encode_v7 :: "sample \<Rightarrow> byte list" where
  "encode_v7 s =
     put_u32 (fw_events_this_tick (s_file_watch s)) @ put_u32 (fw_watched_count (s_file_watch s)) @
     put_bool (fw_present (s_file_watch s)) @ put_pad 7"

definition encode_v8 :: "sample \<Rightarrow> byte list" where
  "encode_v8 s =
     put_f64 (cpu_user_percent (s_cpu s)) @ put_f64 (cpu_system_percent (s_cpu s)) @
     put_f64 (cpu_iowait_percent (s_cpu s)) @ put_f64 (cpu_irq_percent (s_cpu s)) @
     put_f64 (cpu_steal_percent (s_cpu s)) @ put_f64 (cpu_idle_percent (s_cpu s)) @
     put_u32 (proc_sleeping (s_proc s)) @ put_u32 (proc_blocked (s_proc s)) @
     put_u32 (proc_stopped (s_proc s)) @ put_u32 (proc_zombie (s_proc s)) @
     put_u32 (proc_threads (s_proc s)) @ put_pad 4 @
     put_u32 (tcp_established (s_tcp s)) @ put_u32 (tcp_time_wait (s_tcp s)) @
     put_f64 (tcp_active_opens_per_sec (s_tcp s)) @ put_f64 (tcp_passive_opens_per_sec (s_tcp s)) @
     put_f64 (tcp_retransmits_per_sec (s_tcp s)) @ put_f64 (tcp_in_segments_per_sec (s_tcp s)) @
     put_f64 (tcp_out_segments_per_sec (s_tcp s)) @ put_f64 (tcp_in_errors_per_sec (s_tcp s)) @
     put_bool (tcp_present (s_tcp s)) @ put_pad 7 @
     put_f64 (udp_in_datagrams_per_sec (s_udp s)) @ put_f64 (udp_out_datagrams_per_sec (s_udp s)) @
     put_f64 (udp_no_port_per_sec (s_udp s)) @ put_f64 (udp_in_errors_per_sec (s_udp s)) @
     put_bool (udp_present (s_udp s)) @ put_pad 7 @
     put_u32 (fs_count (s_fs s)) @ put_bool (fs_present (s_fs s)) @ put_pad 3 @
     put_f64 (fs_max_used_percent (s_fs s)) @ put_f64 (fs_max_inodes_used_percent (s_fs s)) @
     put_f64 (clock_offset_ms (s_clock s)) @ put_f64 (clock_max_error_ms (s_clock s)) @
     put_bool (clock_synced (s_clock s)) @ put_bool (clock_present (s_clock s)) @ put_pad 6 @
     put_u32 (s_groups s) @ put_pad 4"

definition encode_v9 :: "sample \<Rightarrow> byte list" where
  "encode_v9 s =
     put_f64 (icmp_in_msgs_per_sec (s_icmp s)) @ put_f64 (icmp_out_msgs_per_sec (s_icmp s)) @
     put_f64 (icmp_in_errors_per_sec (s_icmp s)) @
     put_f64 (icmp_in_dest_unreachs_per_sec (s_icmp s)) @
     put_bool (icmp_present (s_icmp s)) @ put_pad 7"

definition encode_bytes :: "sample \<Rightarrow> byte list" where
  "encode_bytes s =
     kMagic @ put_u32 kVersionWrite @ put_u32 0 @ encode_v1 s @ encode_v2 s @ encode_v3 s @
     encode_v4 s @ encode_v5 s @ encode_v6 s @ encode_v7 s @ encode_v8 s @ encode_v9 s"

text \<open>
  \<open>sample_encode(s, buf, cap, out_len)\<close>: pointers that may be null are options, the buffer is
  the memory it points to and \<open>cap\<close> the room the caller claims. The result is the return code,
  the buffer and \<open>*out_len\<close>.
\<close>

definition sample_encode ::
  "sample option \<Rightarrow> byte list option \<Rightarrow> nat \<Rightarrow> nat option \<Rightarrow> rc \<times> byte list option \<times> nat option"
where
  "sample_encode so bufo cap out_len =
     (case (so, bufo, out_len) of
        (Some s, Some buf, Some _) \<Rightarrow>
          if cap < kEncodedSizeV9 then (-2, bufo, out_len)
          else (0, Some (write_at 0 (encode_bytes s) buf), Some kEncodedSizeV9)
      | _ \<Rightarrow> (-1, bufo, out_len))"

section \<open>Decoding\<close>

definition decode_v1 :: "byte list \<Rightarrow> sample \<Rightarrow> (sample \<times> byte list) option" where
  "decode_v1 p out = do {
     (ctotal, p) \<leftarrow> get_f64 p; (ccount, p) \<leftarrow> get_u32 p; p \<leftarrow> skip 4 p;
     (mtotal, p) \<leftarrow> get_u64 p; (mavail, p) \<leftarrow> get_u64 p; (mpct, p) \<leftarrow> get_f64 p;
     (stotal, p) \<leftarrow> get_u64 p; (sused, p) \<leftarrow> get_u64 p; (spct, p) \<leftarrow> get_f64 p;
     (l1, p) \<leftarrow> get_f64 p; (l5, p) \<leftarrow> get_f64 p; (l15, p) \<leftarrow> get_f64 p;
     (up, p) \<leftarrow> get_f64 p;
     Some (out\<lparr>s_cpu := (s_cpu out)\<lparr>cpu_total_percent := ctotal, cpu_count := ccount\<rparr>,
        s_mem := \<lparr>mem_total = mtotal, mem_available = mavail, mem_available_percent = mpct\<rparr>,
        s_swap := \<lparr>swap_total = stotal, swap_used = sused, swap_used_percent = spct\<rparr>,
        s_load := \<lparr>load_avg_1m = l1, load_avg_5m = l5, load_avg_15m = l15\<rparr>,
        s_uptime_seconds := up\<rparr>, p)
   }"

definition decode_v2 :: "byte list \<Rightarrow> sample \<Rightarrow> (sample \<times> byte list) option" where
  "decode_v2 p out = do {
     (dr, p) \<leftarrow> get_u64 p; (dw, p) \<leftarrow> get_u64 p; (dc, p) \<leftarrow> get_u32 p; p \<leftarrow> skip 4 p;
     (rx, p) \<leftarrow> get_u64 p; (tx, p) \<leftarrow> get_u64 p; (ic, p) \<leftarrow> get_u32 p; p \<leftarrow> skip 4 p;
     Some (out\<lparr>s_disk := \<lparr>disk_read_bytes_per_sec = dr, disk_write_bytes_per_sec = dw,
                          disk_device_count = dc\<rparr>,
        s_net := \<lparr>net_rx_bytes_per_sec = rx, net_tx_bytes_per_sec = tx,
                  net_interface_count = ic\<rparr>\<rparr>, p)
   }"

definition decode_v3 :: "byte list \<Rightarrow> sample \<Rightarrow> (sample \<times> byte list) option" where
  "decode_v3 p out = do {
     (total, p) \<leftarrow> get_u32 p; (running, p) \<leftarrow> get_u32 p;
     Some (out\<lparr>s_proc := (s_proc out)\<lparr>proc_total := total, proc_running := running\<rparr>\<rparr>, p)
   }"

definition decode_v4 :: "byte list \<Rightarrow> sample \<Rightarrow> (sample \<times> byte list) option" where
  "decode_v4 p out = do {
     (bits, p) \<leftarrow> get_u32 p; (pres, p) \<leftarrow> get_bool p; p \<leftarrow> skip 3 p;
     Some (out\<lparr>s_entropy := \<lparr>entropy_available_bits = bits, entropy_present = pres\<rparr>\<rparr>, p)
   }"

definition decode_v5 :: "byte list \<Rightarrow> sample \<Rightarrow> (sample \<times> byte list) option" where
  "decode_v5 p out = do {
     (rss, p) \<leftarrow> get_u64 p; (peak, p) \<leftarrow> get_u64 p; (user, p) \<leftarrow> get_f64 p; (sys, p) \<leftarrow> get_f64 p;
     Some (out\<lparr>s_self := \<lparr>self_rss_bytes = rss, self_peak_rss_bytes = peak,
        self_cpu_user_seconds = user, self_cpu_system_seconds = sys\<rparr>\<rparr>, p)
   }"

definition decode_v6 :: "byte list \<Rightarrow> sample \<Rightarrow> (sample \<times> byte list) option" where
  "decode_v6 p out = do {
     (cel, p) \<leftarrow> get_f64 p; (n, p) \<leftarrow> get_u32 p; (pres, p) \<leftarrow> get_bool p; p \<leftarrow> skip 3 p;
     Some (out\<lparr>s_thermal := \<lparr>thermal_max_celsius = cel, thermal_sensor_count = n,
        thermal_present = pres\<rparr>\<rparr>, p)
   }"

definition decode_v7 :: "byte list \<Rightarrow> sample \<Rightarrow> (sample \<times> byte list) option" where
  "decode_v7 p out = do {
     (ev, p) \<leftarrow> get_u32 p; (n, p) \<leftarrow> get_u32 p; (pres, p) \<leftarrow> get_bool p; p \<leftarrow> skip 7 p;
     Some (out\<lparr>s_file_watch := \<lparr>fw_events_this_tick = ev, fw_watched_count = n,
        fw_present = pres\<rparr>\<rparr>, p)
   }"

text \<open>A tail the record's version has is read, one it lacks is zeroed.\<close>

definition decode_tail ::
  "bool \<Rightarrow> (byte list \<Rightarrow> sample \<Rightarrow> (sample \<times> byte list) option) \<Rightarrow> (sample \<Rightarrow> sample) \<Rightarrow>
   byte list \<Rightarrow> sample \<Rightarrow> (sample \<times> byte list) option" where
  "decode_tail present dec zero p out = (if present then dec p out else Some (zero out, p))"

definition decode_v2_to_v7 :: "u32 \<Rightarrow> byte list \<Rightarrow> sample \<Rightarrow> (sample \<times> byte list) option" where
  "decode_v2_to_v7 version p out = do {
     (out, p) \<leftarrow> decode_tail (2 \<le> version) decode_v2
                   (\<lambda>s. s\<lparr>s_disk := disk_zero, s_net := net_zero\<rparr>) p out;
     (out, p) \<leftarrow> decode_tail (3 \<le> version) decode_v3 (\<lambda>s. s\<lparr>s_proc := proc_zero\<rparr>) p out;
     (out, p) \<leftarrow> decode_tail (4 \<le> version) decode_v4 (\<lambda>s. s\<lparr>s_entropy := entropy_zero\<rparr>) p out;
     (out, p) \<leftarrow> decode_tail (5 \<le> version) decode_v5 (\<lambda>s. s\<lparr>s_self := self_zero\<rparr>) p out;
     (out, p) \<leftarrow> decode_tail (6 \<le> version) decode_v6 (\<lambda>s. s\<lparr>s_thermal := thermal_zero\<rparr>) p out;
     decode_tail (7 \<le> version) decode_v7 (\<lambda>s. s\<lparr>s_file_watch := file_watch_zero\<rparr>) p out
   }"

definition zero_v8 :: "sample \<Rightarrow> sample" where
  "zero_v8 out = out\<lparr>s_tcp := tcp_zero, s_udp := udp_zero, s_fs := fs_zero, s_clock := clock_zero,
     s_proc := (s_proc out)\<lparr>proc_sleeping := 0, proc_blocked := 0, proc_stopped := 0,
                            proc_zombie := 0, proc_threads := 0\<rparr>,
     s_cpu := (s_cpu out)\<lparr>cpu_user_percent := 0, cpu_system_percent := 0, cpu_iowait_percent := 0,
                          cpu_irq_percent := 0, cpu_steal_percent := 0, cpu_idle_percent := 0\<rparr>,
     s_icmp := icmp_zero\<rparr>"

text \<open>The groups a record from before version 8 holds.\<close>

definition groups_of_version :: "u32 \<Rightarrow> u32" where
  "groups_of_version version =
     (kGroupCpu OR kGroupMem OR kGroupSwap OR kGroupLoad OR kGroupUptime)
     OR (if 2 \<le> version then kGroupDisk OR kGroupNet else 0)
     OR (if 3 \<le> version then kGroupProc else 0)
     OR (if 4 \<le> version then kGroupEntropy else 0)
     OR (if 5 \<le> version then kGroupSelf else 0)
     OR (if 6 \<le> version then kGroupThermal else 0)
     OR (if 7 \<le> version then kGroupFileWatch else 0)"

definition decode_v8 :: "byte list \<Rightarrow> sample \<Rightarrow> (sample \<times> byte list) option" where
  "decode_v8 p out = do {
     (cuser, p) \<leftarrow> get_f64 p; (csys, p) \<leftarrow> get_f64 p; (ciow, p) \<leftarrow> get_f64 p;
     (cirq, p) \<leftarrow> get_f64 p; (csteal, p) \<leftarrow> get_f64 p; (cidle, p) \<leftarrow> get_f64 p;
     (psleep, p) \<leftarrow> get_u32 p; (pblock, p) \<leftarrow> get_u32 p; (pstop, p) \<leftarrow> get_u32 p;
     (pzomb, p) \<leftarrow> get_u32 p; (pthr, p) \<leftarrow> get_u32 p; p \<leftarrow> skip 4 p;
     (test, p) \<leftarrow> get_u32 p; (ttw, p) \<leftarrow> get_u32 p;
     (tact, p) \<leftarrow> get_f64 p; (tpas, p) \<leftarrow> get_f64 p; (tret, p) \<leftarrow> get_f64 p;
     (tin, p) \<leftarrow> get_f64 p; (tout, p) \<leftarrow> get_f64 p; (terr, p) \<leftarrow> get_f64 p;
     (tpres, p) \<leftarrow> get_bool p; p \<leftarrow> skip 7 p;
     (uin, p) \<leftarrow> get_f64 p; (uout, p) \<leftarrow> get_f64 p; (uport, p) \<leftarrow> get_f64 p; (uerr, p) \<leftarrow> get_f64 p;
     (upres, p) \<leftarrow> get_bool p; p \<leftarrow> skip 7 p;
     (fcount, p) \<leftarrow> get_u32 p; (fpres, p) \<leftarrow> get_bool p; p \<leftarrow> skip 3 p;
     (fused, p) \<leftarrow> get_f64 p; (finod, p) \<leftarrow> get_f64 p;
     (coff, p) \<leftarrow> get_f64 p; (cerr, p) \<leftarrow> get_f64 p;
     (csync, p) \<leftarrow> get_bool p; (cpres, p) \<leftarrow> get_bool p; p \<leftarrow> skip 6 p;
     (g, p) \<leftarrow> get_u32 p; p \<leftarrow> skip 4 p;
     Some (out\<lparr>
        s_cpu := (s_cpu out)\<lparr>cpu_user_percent := cuser, cpu_system_percent := csys,
           cpu_iowait_percent := ciow, cpu_irq_percent := cirq, cpu_steal_percent := csteal,
           cpu_idle_percent := cidle\<rparr>,
        s_proc := (s_proc out)\<lparr>proc_sleeping := psleep, proc_blocked := pblock,
           proc_stopped := pstop, proc_zombie := pzomb, proc_threads := pthr\<rparr>,
        s_tcp := \<lparr>tcp_established = test, tcp_time_wait = ttw, tcp_active_opens_per_sec = tact,
           tcp_passive_opens_per_sec = tpas, tcp_retransmits_per_sec = tret,
           tcp_in_segments_per_sec = tin, tcp_out_segments_per_sec = tout,
           tcp_in_errors_per_sec = terr, tcp_present = tpres\<rparr>,
        s_udp := \<lparr>udp_in_datagrams_per_sec = uin, udp_out_datagrams_per_sec = uout,
           udp_no_port_per_sec = uport, udp_in_errors_per_sec = uerr, udp_present = upres\<rparr>,
        s_fs := \<lparr>fs_count = fcount, fs_max_used_percent = fused,
           fs_max_inodes_used_percent = finod, fs_present = fpres\<rparr>,
        s_clock := \<lparr>clock_offset_ms = coff, clock_max_error_ms = cerr, clock_synced = csync,
           clock_present = cpres\<rparr>,
        s_groups := g\<rparr>, p)
   }"

definition decode_v9 :: "byte list \<Rightarrow> sample \<Rightarrow> (sample \<times> byte list) option" where
  "decode_v9 p out = do {
     (iin, p) \<leftarrow> get_f64 p; (iout, p) \<leftarrow> get_f64 p; (ierr, p) \<leftarrow> get_f64 p; (iun, p) \<leftarrow> get_f64 p;
     (pres, p) \<leftarrow> get_bool p; p \<leftarrow> skip 7 p;
     Some (out\<lparr>s_icmp := \<lparr>icmp_in_msgs_per_sec = iin, icmp_out_msgs_per_sec = iout,
        icmp_in_errors_per_sec = ierr, icmp_in_dest_unreachs_per_sec = iun,
        icmp_present = pres\<rparr>\<rparr>, p)
   }"

text \<open>
  The decoder after its null checks. The buffer is exactly the \<open>len\<close> bytes the caller passes;
  the result is the return code and \<open>*out\<close>, partly written when the level byte is bad, as in the
  source.
\<close>

definition decode_into :: "byte list \<Rightarrow> sample \<Rightarrow> (rc \<times> sample) option" where
  "decode_into buf out =
     (if length buf < kEncodedSizeV1 then Some (-2, out)
      else if take 8 buf \<noteq> kMagic then Some (-3, out)
      else do {
        p \<leftarrow> skip 8 buf;
        (version, p) \<leftarrow> get_u32 p;
        if version < 1 \<or> 9 < version then Some (-4, out)
        else if length buf < kMinSize ! unat version then Some (-2, out)
        else do {
          (_, p) \<leftarrow> get_u32 p;
          (ts, p) \<leftarrow> get_u64 p;
          (lv, p) \<leftarrow> get_u8 p;
          let out = out\<lparr>s_timestamp_nanos := ts\<rparr>;
          if lv < 1 \<or> kMaxLevelId < lv then Some (-5, out)
          else do {
            let out = out\<lparr>s_level := lv\<rparr>;
            p \<leftarrow> skip 7 p;
            (out, p) \<leftarrow> decode_v1 p out;
            (out, p) \<leftarrow> decode_v2_to_v7 version p out;
            let out = zero_v8 out;
            if version < 8 then Some (0, out\<lparr>s_groups := groups_of_version version\<rparr>)
            else do {
              (out, p) \<leftarrow> decode_v8 p out;
              if version < 9 then Some (0, out)
              else do { (out, p) \<leftarrow> decode_v9 p out; Some (0, out) }
            }
          }
        }
      })"

definition sample_decode :: "byte list option \<Rightarrow> sample option \<Rightarrow> (rc \<times> sample option) option" where
  "sample_decode bufo outo =
     (case (bufo, outo) of
        (Some buf, Some out) \<Rightarrow> map_option (map_prod id Some) (decode_into buf out)
      | _ \<Rightarrow> Some (-1, outo))"

section \<open>Sizes\<close>

lemma length_kMagic [simp]: "length kMagic = 8"
  by (simp add: kMagic_def)

lemma length_encode_tails [simp]:
  "length (encode_v1 s) = 112" "length (encode_v2 s) = 48" "length (encode_v3 s) = 8"
  "length (encode_v4 s) = 8" "length (encode_v5 s) = 32" "length (encode_v6 s) = 16"
  "length (encode_v7 s) = 16" "length (encode_v8 s) = 232" "length (encode_v9 s) = 40"
  by (simp_all add: encode_v1_def encode_v2_def encode_v3_def encode_v4_def encode_v5_def
      encode_v6_def encode_v7_def encode_v8_def encode_v9_def)

lemma length_encode_bytes [simp]: "length (encode_bytes s) = 528"
  by (simp add: encode_bytes_def)

lemma kEncodedSizeV9_eq [simp]: "kEncodedSizeV9 = 528"
  by (simp add: kEncodedSize_defs)

section \<open>What is decoded is what was encoded\<close>

lemma decode_v1_encode:
  "decode_v1 (put_f64 (cpu_total_percent (s_cpu s)) @ put_u32 (cpu_count (s_cpu s)) @ put_pad 4 @
     put_u64 (mem_total (s_mem s)) @ put_u64 (mem_available (s_mem s)) @
     put_f64 (mem_available_percent (s_mem s)) @
     put_u64 (swap_total (s_swap s)) @ put_u64 (swap_used (s_swap s)) @
     put_f64 (swap_used_percent (s_swap s)) @
     put_f64 (load_avg_1m (s_load s)) @ put_f64 (load_avg_5m (s_load s)) @
     put_f64 (load_avg_15m (s_load s)) @ put_f64 (s_uptime_seconds s) @ r) out
   = Some (out\<lparr>s_cpu := (s_cpu out)\<lparr>cpu_total_percent := cpu_total_percent (s_cpu s),
                                    cpu_count := cpu_count (s_cpu s)\<rparr>,
       s_mem := s_mem s, s_swap := s_swap s, s_load := s_load s,
       s_uptime_seconds := s_uptime_seconds s\<rparr>, r)"
  by (simp add: decode_v1_def get_put)

lemma decode_v2_encode [get_put]:
  "decode_v2 (encode_v2 s @ r) out = Some (out\<lparr>s_disk := s_disk s, s_net := s_net s\<rparr>, r)"
  by (simp add: decode_v2_def encode_v2_def get_put)

lemma decode_v3_encode [get_put]:
  "decode_v3 (encode_v3 s @ r) out =
     Some (out\<lparr>s_proc := (s_proc out)\<lparr>proc_total := proc_total (s_proc s),
                                     proc_running := proc_running (s_proc s)\<rparr>\<rparr>, r)"
  by (simp add: decode_v3_def encode_v3_def get_put)

lemma decode_v4_encode [get_put]:
  "decode_v4 (encode_v4 s @ r) out = Some (out\<lparr>s_entropy := s_entropy s\<rparr>, r)"
  by (simp add: decode_v4_def encode_v4_def get_put)

lemma decode_v5_encode [get_put]:
  "decode_v5 (encode_v5 s @ r) out = Some (out\<lparr>s_self := s_self s\<rparr>, r)"
  by (simp add: decode_v5_def encode_v5_def get_put)

lemma decode_v6_encode [get_put]:
  "decode_v6 (encode_v6 s @ r) out = Some (out\<lparr>s_thermal := s_thermal s\<rparr>, r)"
  by (simp add: decode_v6_def encode_v6_def get_put)

lemma decode_v7_encode [get_put]:
  "decode_v7 (encode_v7 s @ r) out = Some (out\<lparr>s_file_watch := s_file_watch s\<rparr>, r)"
  by (simp add: decode_v7_def encode_v7_def get_put)

lemma decode_v8_encode [get_put]:
  "decode_v8 (encode_v8 s @ r) out =
     Some (out\<lparr>
       s_cpu := (s_cpu s)\<lparr>cpu_total_percent := cpu_total_percent (s_cpu out),
                         cpu_count := cpu_count (s_cpu out)\<rparr>,
       s_proc := (s_proc s)\<lparr>proc_total := proc_total (s_proc out),
                           proc_running := proc_running (s_proc out)\<rparr>,
       s_tcp := s_tcp s, s_udp := s_udp s, s_fs := s_fs s, s_clock := s_clock s,
       s_groups := s_groups s\<rparr>, r)"
  by (simp add: decode_v8_def encode_v8_def get_put)

lemma decode_v9_encode [get_put]:
  "decode_v9 (encode_v9 s @ r) out = Some (out\<lparr>s_icmp := s_icmp s\<rparr>, r)"
  by (simp add: decode_v9_def encode_v9_def get_put)

lemma decode_v2_to_v7_encode:
  "7 \<le> version \<Longrightarrow>
   decode_v2_to_v7 version
     (encode_v2 s @ encode_v3 s @ encode_v4 s @ encode_v5 s @ encode_v6 s @ encode_v7 s @ r) out
   = Some (out\<lparr>s_disk := s_disk s, s_net := s_net s,
       s_proc := (s_proc out)\<lparr>proc_total := proc_total (s_proc s),
                             proc_running := proc_running (s_proc s)\<rparr>,
       s_entropy := s_entropy s, s_self := s_self s, s_thermal := s_thermal s,
       s_file_watch := s_file_watch s\<rparr>, r)"
proof -
  assume v: "7 \<le> version"
  have le: "2 \<le> version" "3 \<le> version" "4 \<le> version" "5 \<le> version" "6 \<le> version"
    using v by (auto intro: order_trans [OF _ v])
  show ?thesis by (simp add: decode_v2_to_v7_def decode_tail_def le v get_put)
qed

text \<open>
  A version 9 payload decodes to the sample it was made from; the two fields a payload does not
  carry, \<open>baseline\<close> and \<open>folded\<close>, stay as they were in \<open>*out\<close>. Bytes after the payload do not
  matter.
\<close>

lemma decode_into_encode:
  assumes "1 \<le> s_level s" and "s_level s \<le> kMaxLevelId"
  shows "decode_into (encode_bytes s @ r) out
         = Some (0, s\<lparr>s_baseline := s_baseline out, s_folded := s_folded out\<rparr>)"
proof -
  have level: "s_level s \<noteq> 0" "\<not> kMaxLevelId < s_level s" using assms by auto
  have enough: "kEncodedSizeV1 = 128" "kMinSize ! 9 = 528"
    by (simp_all add: kEncodedSize_defs kMinSize_def)
  have magic: "take 8 (encode_bytes s) = kMagic"
    by (simp add: encode_bytes_def)
  have cursor: "skip 8 (encode_bytes s @ r) = Some (put_u32 9 @ put_u32 0 @ encode_v1 s @
      encode_v2 s @ encode_v3 s @ encode_v4 s @ encode_v5 s @ encode_v6 s @ encode_v7 s @
      encode_v8 s @ encode_v9 s @ r)"
    by (simp add: skip_def encode_bytes_def kVersionWrite_def)
  show ?thesis
    unfolding decode_into_def cursor
    by (simp add: enough magic level get_put encode_v1_def decode_v1_encode
        decode_v2_to_v7_encode zero_v8_def Let_def)
qed

section \<open>No read past the end of the buffer\<close>

text \<open>
  \<open>consumes n dec\<close>: from a cursor with at least \<open>n\<close> bytes left, \<open>dec\<close> succeeds and advances by
  \<open>n\<close>. The tails compose.
\<close>

definition consumes :: "nat \<Rightarrow> (byte list \<Rightarrow> 's \<Rightarrow> ('s \<times> byte list) option) \<Rightarrow> bool" where
  "consumes n dec \<longleftrightarrow> (\<forall>p out. n \<le> length p \<longrightarrow> (\<exists>o'. dec p out = Some (o', drop n p)))"

lemma consumesD: "consumes n dec \<Longrightarrow> n \<le> length p \<Longrightarrow> \<exists>o'. dec p out = Some (o', drop n p)"
  by (simp add: consumes_def)

lemma consumes_seq:
  assumes f: "consumes m f" and g: "consumes n g"
  shows "consumes (m + n) (\<lambda>p out. do { (o', p') \<leftarrow> f p out; g p' o' })"
  unfolding consumes_def
proof (intro allI impI)
  fix p :: "byte list" and out :: 'a assume len: "m + n \<le> length p"
  then obtain o1 where o1: "f p out = Some (o1, drop m p)" using consumesD [OF f] by fastforce
  moreover obtain o2 where "g (drop m p) o1 = Some (o2, drop n (drop m p))"
    using consumesD [OF g, of "drop m p" o1] len by (metis add_le_imp_le_diff add.commute length_drop)
  ultimately show "\<exists>o'. (do { (o', p') \<leftarrow> f p out; g p' o' }) = Some (o', drop (m + n) p)"
    by (simp add: add.commute)
qed

lemma consumes_tail: "consumes n dec \<Longrightarrow> consumes (if b then n else 0) (decode_tail b dec z)"
  by (auto simp: consumes_def decode_tail_def)

lemma consumes_tails:
  "consumes 96 decode_v1" "consumes 48 decode_v2" "consumes 8 decode_v3" "consumes 8 decode_v4"
  "consumes 32 decode_v5" "consumes 16 decode_v6" "consumes 16 decode_v7" "consumes 232 decode_v8"
  "consumes 40 decode_v9"
  by (simp_all add: consumes_def decode_v1_def decode_v2_def decode_v3_def decode_v4_def
      decode_v5_def decode_v6_def decode_v7_def decode_v8_def decode_v9_def get_len)

text \<open>The bytes of the tails that a version up to 7 brings.\<close>

definition tail_size :: "u32 \<Rightarrow> nat" where
  "tail_size v = (if 2 \<le> v then 48 else 0) + ((if 3 \<le> v then 8 else 0) + ((if 4 \<le> v then 8 else 0)
     + ((if 5 \<le> v then 32 else 0) + ((if 6 \<le> v then 16 else 0) + (if 7 \<le> v then 16 else 0)))))"

lemma consumes_v2_to_v7: "consumes (tail_size v) (decode_v2_to_v7 v)"
  unfolding decode_v2_to_v7_def tail_size_def
  by (intro consumes_seq consumes_tail consumes_tails)

lemma version_cases:
  assumes "\<not> v < 1" and "\<not> 9 < (v :: u32)"
  shows "v = 1 \<or> v = 2 \<or> v = 3 \<or> v = 4 \<or> v = 5 \<or> v = 6 \<or> v = 7 \<or> v = 8 \<or> v = 9"
proof -
  have "1 \<le> unat v" "unat v \<le> 9"
    using assms by (simp_all add: word_less_nat_alt)
  then have "unat v = 1 \<or> unat v = 2 \<or> unat v = 3 \<or> unat v = 4 \<or> unat v = 5 \<or> unat v = 6
    \<or> unat v = 7 \<or> unat v = 8 \<or> unat v = 9" by linarith
  moreover have "v = of_nat (unat v)" by simp
  ultimately show ?thesis by (elim disjE) simp_all
qed

lemma kMinSize_values: "kMinSize = [0, 128, 176, 184, 192, 224, 240, 256, 488, 528]"
  by (simp add: kMinSize_def kEncodedSize_defs)

text \<open>The size table covers what each version reads: 32 bytes up to the level, 96 of version 1,
  then the tails.\<close>

lemma kMinSize_tail:
  assumes "\<not> v < 1" and "\<not> 9 < (v :: u32)"
  shows "kMinSize ! unat v = 128 + tail_size v + (if 8 \<le> v then 232 else 0)
           + (if 9 \<le> v then 40 else 0)"
  using version_cases [OF assms]
  by (elim disjE) (simp_all add: kMinSize_values tail_size_def word_le_nat_alt)

text \<open>
  What the decoder computes once the size, the magic, the version and the level byte are good.
\<close>

definition version_of :: "byte list \<Rightarrow> u32" where
  "version_of buf = val_u32 (drop 8 buf)"

definition header_ok :: "byte list \<Rightarrow> bool" where
  "header_ok buf \<longleftrightarrow> 128 \<le> length buf \<and> take 8 buf = kMagic
     \<and> 1 \<le> version_of buf \<and> version_of buf \<le> 9 \<and> kMinSize ! unat (version_of buf) \<le> length buf
     \<and> 1 \<le> hd (drop 24 buf) \<and> hd (drop 24 buf) \<le> kMaxLevelId"

definition decode_payload :: "u32 \<Rightarrow> byte list \<Rightarrow> sample \<Rightarrow> (rc \<times> sample) option" where
  "decode_payload v p out = do {
     (out, p) \<leftarrow> decode_v1 p out;
     (out, p) \<leftarrow> decode_v2_to_v7 v p out;
     (if v < 8 then Some (0, (zero_v8 out)\<lparr>s_groups := groups_of_version v\<rparr>)
      else do { (out, p) \<leftarrow> decode_v8 p (zero_v8 out);
             if v < 9 then Some (0, out) else do { (out, p) \<leftarrow> decode_v9 p out; Some (0, out) } })
   }"

lemma decode_into_ok:
  "header_ok buf \<Longrightarrow> decode_into buf out = decode_payload (version_of buf) (drop 32 buf)
     (out\<lparr>s_timestamp_nanos := val_u64 (drop 16 buf), s_level := hd (drop 24 buf)\<rparr>)"
  by (auto simp: decode_into_def decode_payload_def header_ok_def version_of_def get_len Let_def
      kEncodedSize_defs not_less word_less_1 [symmetric] simp del: word_less_1)

lemma decode_into_bad:
  "\<not> header_ok buf \<Longrightarrow> \<exists>rc t. decode_into buf out = Some (rc, t) \<and> rc < 0"
  by (auto simp: decode_into_def header_ok_def version_of_def get_len Let_def kEncodedSize_defs
      not_less not_le)

lemma decode_payload_total:
  assumes "\<not> v < 1" and "\<not> 9 < v" and "kMinSize ! unat v \<le> 32 + length p"
  shows "\<exists>t. decode_payload v p out = Some (0, t)"
proof -
  note min = kMinSize_tail [OF assms(1,2)]
  define q where "q = drop (tail_size v) (drop 96 p)"
  obtain o2 where o2: "decode_v1 p out = Some (o2, drop 96 p)"
    using consumesD [OF consumes_tails(1), of p out] assms(3) min by auto
  have "tail_size v \<le> length (drop 96 p)" using assms(3) min by simp
  then obtain o3 where o3: "decode_v2_to_v7 v (drop 96 p) o2 = Some (o3, q)"
    using consumesD [OF consumes_v2_to_v7, of v "drop 96 p" o2] unfolding q_def by blast
  show ?thesis
  proof (cases "v < 8")
    case True
    then show ?thesis by (simp add: decode_payload_def o2 o3)
  next
    case False
    then have q: "232 + (if 9 \<le> v then 40 else 0) \<le> length q"
      using assms(3) min by (auto simp: not_less q_def)
    then obtain o4 where o4: "decode_v8 q (zero_v8 o3) = Some (o4, drop 232 q)"
      using consumesD [OF consumes_tails(8), of q "zero_v8 o3"] by auto
    have "40 \<le> length (drop 232 q)" if "\<not> v < 9" using q that by (simp add: not_less)
    then show ?thesis
      using False consumesD [OF consumes_tails(9), of "drop 232 q" o4]
      by (cases "v < 9") (auto simp: decode_payload_def o2 o3 o4)
  qed
qed

lemma decode_into_total: "\<exists>rc t. decode_into buf out = Some (rc, t)"
proof (cases "header_ok buf")
  case True
  then show ?thesis
    using decode_payload_total [of "version_of buf" "drop 32 buf"]
    by (fastforce simp: decode_into_ok header_ok_def not_less)
qed (use decode_into_bad in blast)

section \<open>Records of older versions\<close>

text \<open>Each tail writes its own field and no other.\<close>

lemma decode_frames:
  "decode_v1 p out = Some (o', q) \<Longrightarrow> \<exists>c m sw l u. o' = out\<lparr>s_cpu := c, s_mem := m,
     s_swap := sw, s_load := l, s_uptime_seconds := u\<rparr>"
  "decode_v2 p out = Some (o', q) \<Longrightarrow> \<exists>d n. o' = out\<lparr>s_disk := d, s_net := n\<rparr>"
  "decode_v3 p out = Some (o', q) \<Longrightarrow> \<exists>x. o' = out\<lparr>s_proc := x\<rparr>"
  "decode_v4 p out = Some (o', q) \<Longrightarrow> \<exists>x. o' = out\<lparr>s_entropy := x\<rparr>"
  "decode_v5 p out = Some (o', q) \<Longrightarrow> \<exists>x. o' = out\<lparr>s_self := x\<rparr>"
  "decode_v6 p out = Some (o', q) \<Longrightarrow> \<exists>x. o' = out\<lparr>s_thermal := x\<rparr>"
  "decode_v7 p out = Some (o', q) \<Longrightarrow> \<exists>x. o' = out\<lparr>s_file_watch := x\<rparr>"
  by (auto simp: decode_v1_def decode_v2_def decode_v3_def decode_v4_def decode_v5_def
      decode_v6_def decode_v7_def split: bind_splits) (intro exI, rule refl)+

lemma tail_frame:
  assumes "decode_tail b dec z p out = Some (o', q)"
    and "dec p out = Some (o', q) \<Longrightarrow> \<exists>x. o' = upd x out"
    and "z out = upd zero out"
  shows "\<exists>x. o' = upd x out \<and> (b \<or> x = zero)"
  using assms by (auto simp: decode_tail_def split: if_splits)

text \<open>The fields after the tails of a version: read where the version has them, zero elsewhere.\<close>

lemma decode_v2_to_v7_frame:
  assumes "decode_v2_to_v7 v p out = Some (o', q)"
  shows "\<exists>dn pr en se th fw. o' = out\<lparr>s_disk := fst dn, s_net := snd dn, s_proc := pr,
      s_entropy := en, s_self := se, s_thermal := th, s_file_watch := fw\<rparr>
    \<and> (2 \<le> v \<or> dn = (disk_zero, net_zero)) \<and> (3 \<le> v \<or> pr = proc_zero)
    \<and> (4 \<le> v \<or> en = entropy_zero) \<and> (5 \<le> v \<or> se = self_zero)
    \<and> (6 \<le> v \<or> th = thermal_zero) \<and> (7 \<le> v \<or> fw = file_watch_zero)"
proof -
  let ?z2 = "\<lambda>s. s\<lparr>s_disk := disk_zero, s_net := net_zero\<rparr>"
  obtain o2 p2 o3 p3 o4 p4 o5 p5 o6 p6 where
    t: "decode_tail (2 \<le> v) decode_v2 ?z2 p out = Some (o2, p2)"
       "decode_tail (3 \<le> v) decode_v3 (\<lambda>s. s\<lparr>s_proc := proc_zero\<rparr>) p2 o2 = Some (o3, p3)"
       "decode_tail (4 \<le> v) decode_v4 (\<lambda>s. s\<lparr>s_entropy := entropy_zero\<rparr>) p3 o3 = Some (o4, p4)"
       "decode_tail (5 \<le> v) decode_v5 (\<lambda>s. s\<lparr>s_self := self_zero\<rparr>) p4 o4 = Some (o5, p5)"
       "decode_tail (6 \<le> v) decode_v6 (\<lambda>s. s\<lparr>s_thermal := thermal_zero\<rparr>) p5 o5 = Some (o6, p6)"
       "decode_tail (7 \<le> v) decode_v7 (\<lambda>s. s\<lparr>s_file_watch := file_watch_zero\<rparr>) p6 o6 = Some (o', q)"
    using assms unfolding decode_v2_to_v7_def by (auto split: bind_splits)
  from tail_frame [OF t(1), where upd = "\<lambda>x s. s\<lparr>s_disk := fst x, s_net := snd x\<rparr>"
      and zero = "(disk_zero, net_zero)"] decode_frames(2)
  obtain dn where "o2 = out\<lparr>s_disk := fst dn, s_net := snd dn\<rparr>"
    "2 \<le> v \<or> dn = (disk_zero, net_zero)" by fastforce
  moreover from tail_frame [where upd = "\<lambda>x s. s\<lparr>s_proc := x\<rparr>", OF t(2) decode_frames(3)]
  obtain pr where "o3 = o2\<lparr>s_proc := pr\<rparr>" "3 \<le> v \<or> pr = proc_zero" by blast
  moreover from tail_frame [where upd = "\<lambda>x s. s\<lparr>s_entropy := x\<rparr>", OF t(3) decode_frames(4)]
  obtain en where "o4 = o3\<lparr>s_entropy := en\<rparr>" "4 \<le> v \<or> en = entropy_zero" by blast
  moreover from tail_frame [where upd = "\<lambda>x s. s\<lparr>s_self := x\<rparr>", OF t(4) decode_frames(5)]
  obtain se where "o5 = o4\<lparr>s_self := se\<rparr>" "5 \<le> v \<or> se = self_zero" by blast
  moreover from tail_frame [where upd = "\<lambda>x s. s\<lparr>s_thermal := x\<rparr>", OF t(5) decode_frames(6)]
  obtain th where "o6 = o5\<lparr>s_thermal := th\<rparr>" "6 \<le> v \<or> th = thermal_zero" by blast
  moreover from tail_frame [where upd = "\<lambda>x s. s\<lparr>s_file_watch := x\<rparr>", OF t(6) decode_frames(7)]
  obtain fw where "o' = o6\<lparr>s_file_watch := fw\<rparr>" "7 \<le> v \<or> fw = file_watch_zero" by blast
  ultimately show ?thesis by (intro exI conjI) simp_all
qed

lemma groups_of_version_bits:
  "bit (groups_of_version v) 0" "bit (groups_of_version v) 1" "bit (groups_of_version v) 2"
  "bit (groups_of_version v) 3" "bit (groups_of_version v) 4 = (2 \<le> v)"
  "bit (groups_of_version v) 5 = (2 \<le> v)" "bit (groups_of_version v) 6 = (3 \<le> v)"
  "bit (groups_of_version v) 7 = (4 \<le> v)" "bit (groups_of_version v) 8 = (5 \<le> v)"
  "bit (groups_of_version v) 9 = (6 \<le> v)" "bit (groups_of_version v) 10 = (7 \<le> v)"
  "bit (groups_of_version v) 11" "\<not> bit (groups_of_version v) 12"
  "\<not> bit (groups_of_version v) 13" "\<not> bit (groups_of_version v) 14"
  "\<not> bit (groups_of_version v) 15" "\<not> bit (groups_of_version v) 16"
  by (simp_all add: groups_of_version_def bit_or_iff)

lemma decode_payload_old:
  assumes "decode_payload v p out = Some (0, t)" and "v < 8"
  shows "absent_zero t \<and> s_groups t = groups_of_version v"
proof -
  obtain o1 p1 o2 p2 where o2: "decode_v2_to_v7 v p1 o1 = Some (o2, p2)"
    and t: "t = (zero_v8 o2)\<lparr>s_groups := groups_of_version v\<rparr>"
    using assms unfolding decode_payload_def by (auto split: bind_splits)
  obtain dn pr en se th fw where f: "o2 = o1\<lparr>s_disk := fst dn, s_net := snd dn, s_proc := pr,
      s_entropy := en, s_self := se, s_thermal := th, s_file_watch := fw\<rparr>"
    and z: "2 \<le> v \<or> dn = (disk_zero, net_zero)" "3 \<le> v \<or> pr = proc_zero"
      "4 \<le> v \<or> en = entropy_zero" "5 \<le> v \<or> se = self_zero"
      "6 \<le> v \<or> th = thermal_zero" "7 \<le> v \<or> fw = file_watch_zero"
    using decode_v2_to_v7_frame [OF o2] by blast
  have tails: "2 \<le> v \<or> s_disk t = disk_zero" "2 \<le> v \<or> s_net t = net_zero"
    "3 \<le> v \<or> s_proc t = proc_zero" "4 \<le> v \<or> s_entropy t = entropy_zero"
    "5 \<le> v \<or> s_self t = self_zero" "6 \<le> v \<or> s_thermal t = thermal_zero"
    "7 \<le> v \<or> s_file_watch t = file_watch_zero"
    using z(1) apply (auto simp: t f zero_v8_def) [2]
    using z(2) apply (auto simp: t f zero_v8_def proc_zero_def) [1]
    using z(3) apply (auto simp: t f zero_v8_def) [1]
    using z(4) apply (auto simp: t f zero_v8_def) [1]
    using z(5) apply (auto simp: t f zero_v8_def) [1]
    using z(6) apply (auto simp: t f zero_v8_def) [1]
    done
  have g: "s_groups t = groups_of_version v" by (simp add: t)
  moreover have "absent_zero t"
    unfolding absent_zero_def group_bit g groups_of_version_bits
    by (intro conjI; (rule tails | rule disjI1, rule groups_of_version_bits)?;
        (simp add: t zero_v8_def)?)
  ultimately show ?thesis by simp
qed

section \<open>Properties\<close>

definition demo_sample :: sample where
  "demo_sample = sample_zero\<lparr>s_timestamp_nanos := 7, s_level := L3, s_uptime_seconds := 9\<rparr>"

lemma demo_sample_level: "1 \<le> s_level demo_sample" "s_level demo_sample \<le> kMaxLevelId"
  by (simp_all add: demo_sample_def word_le_nat_alt)

text \<open>C18: A sample with a valid level, encoded into a buffer with room for it and decoded from the
  bytes written, comes back field for field, apart from the two fields the format does not carry
  (the baseline mask and the folded flag), which keep what the caller's structure held.\<close>

theorem sample_roundtrip:
  assumes "1 \<le> s_level s" and "s_level s \<le> kMaxLevelId"
    and "sample_max_encoded_size \<le> cap" and "cap \<le> length buf"
  shows "\<exists>b. sample_encode (Some s) (Some buf) cap (Some n) = (0, Some b, Some sample_max_encoded_size) \<and>
    length b = length buf \<and>
    sample_decode (Some (take sample_max_encoded_size b)) (Some out) =
      Some (0, Some (s\<lparr>s_baseline := s_baseline out, s_folded := s_folded out\<rparr>))"
  using assms decode_into_encode [OF assms(1,2), of "[]" out]
  by (simp add: sample_encode_def sample_decode_def write_at_def sample_max_encoded_size_eq)

theorem sample_roundtrip_witness:
  "\<exists>b. sample_encode (Some demo_sample) (Some (replicate 600 0)) 528 (Some 0) = (0, Some b, Some 528) \<and>
    sample_decode (Some (take 528 b)) (Some sample_zero) = Some (0, Some demo_sample)"
  using sample_roundtrip [OF demo_sample_level, of 528 "replicate 600 0" 0 sample_zero]
  by (auto simp: sample_max_encoded_size_eq demo_sample_def sample_zero_def)

text \<open>Decoding never reads outside the buffer it was given, whatever bytes are in it: every
  call returns a code, and 0 exactly when the magic, the version, the size for that version and
  the level byte are good.\<close>

theorem sample_decode_safe:
  "\<exists>rc t. sample_decode (Some buf) (Some out) = Some (rc, Some t) \<and> (rc = 0 \<longleftrightarrow> header_ok buf) \<and> rc \<le> 0"
proof (cases "header_ok buf")
  case True
  then obtain t where "decode_into buf out = Some (0, t)"
    using decode_payload_total [of "version_of buf" "drop 32 buf"]
    by (fastforce simp: decode_into_ok header_ok_def not_less)
  then show ?thesis using True by (simp add: sample_decode_def)
next
  case False
  then obtain rc t where "decode_into buf out = Some (rc, t)" "rc < 0" using decode_into_bad by blast
  then show ?thesis using False by (simp add: sample_decode_def)
qed

text \<open>A record written by an older version (1 to 7) decodes to a sample whose group mask is the
  one of that version and in which every group the version did not have is zero, whatever the
  caller's structure held before.\<close>

theorem sample_decode_old_version:
  assumes "header_ok buf" and "version_of buf < 8"
  shows "\<exists>t. sample_decode (Some buf) (Some out) = Some (0, Some t) \<and> absent_zero t \<and>
    s_groups t = groups_of_version (version_of buf)"
proof -
  obtain t where t: "decode_payload (version_of buf) (drop 32 buf)
      (out\<lparr>s_timestamp_nanos := val_u64 (drop 16 buf), s_level := hd (drop 24 buf)\<rparr>) = Some (0, t)"
    using decode_payload_total [of "version_of buf" "drop 32 buf"] assms(1)
    by (fastforce simp: header_ok_def not_less)
  then have "decode_into buf out = Some (0, t)" using decode_into_ok [OF assms(1)] by simp
  then show ?thesis using decode_payload_old [OF t assms(2)] by (simp add: sample_decode_def)
qed

definition demo_v1 :: "byte list" where
  "demo_v1 = kMagic @ [1, 0, 0, 0] @ replicate 12 0 @ [1] @ replicate 103 0"

lemma demo_v1_ok: "header_ok demo_v1" "version_of demo_v1 = 1"
  by (simp_all add: header_ok_def demo_v1_def version_of_def kMagic_def val_u32_def kMinSize_values
      eval_nat_numeral) (simp_all add: word_le_nat_alt)

theorem sample_decode_old_version_witness:
  "\<exists>t. sample_decode (Some demo_v1) (Some demo_sample) = Some (0, Some t) \<and> absent_zero t \<and>
    s_groups t = groups_of_version 1"
  using sample_decode_old_version [OF demo_v1_ok(1), of demo_sample] demo_v1_ok(2) by simp

end
