(* ===== verification/Record_Codec.thy ===== *)
theory Record_Codec
  imports Sample_Codec
begin

text \<open>
  The on-disk record (\<open>src/storage/codec.h\<close>, \<open>src/storage/codec.cpp\<close>): a timestamp, a level, a
  flags byte, a CRC-32C and the sample payload. Proved here: the table-driven CRC is the bit by
  bit one, one changed byte anywhere in a record always fails the CRC check, a record decodes to
  the sample it was made from, and decoding never reads outside the buffer.
\<close>

section \<open>CRC-32C\<close>

definition kCrc32cPolyReflected :: u32 where
  "kCrc32cPolyReflected = 0x82F63B78"

text \<open>One turn of the inner loop of \<open>make_crc32c_table\<close>.\<close>

definition crc_bit_step :: "u32 \<Rightarrow> u32" where
  "crc_bit_step c = drop_bit 1 c XOR (kCrc32cPolyReflected AND (0 - (c AND 1)))"

definition make_crc32c_table :: "u32 list" where
  "make_crc32c_table = map (\<lambda>i. (crc_bit_step ^^ 8) (of_nat i)) [0..<256]"

definition crc32c_byte :: "u32 \<Rightarrow> byte \<Rightarrow> u32" where
  "crc32c_byte c b = drop_bit 8 c XOR make_crc32c_table ! unat ((c XOR ucast b) AND 0xFF)"

definition crc32c :: "byte list \<Rightarrow> u32 \<Rightarrow> u32" where
  "crc32c data seed = NOT (foldl crc32c_byte (NOT seed) data)"

section \<open>The record\<close>

definition kRecordHeaderSize :: nat where
  "kRecordHeaderSize = 14"

definition kRecordFolded :: u8 where
  "kRecordFolded = 1"

definition record_size_for_sample :: nat where
  "record_size_for_sample = kRecordHeaderSize + sample_max_encoded_size"

definition record_encode ::
  "sample \<Rightarrow> byte list option \<Rightarrow> nat \<Rightarrow> nat option \<Rightarrow> rc \<times> byte list option \<times> nat option" where
  "record_encode s bufo cap out_len =
     (case (bufo, out_len) of
        (Some buf, Some _) \<Rightarrow>
          if cap < record_size_for_sample then (-2, bufo, out_len)
          else
            let base = write_at 0 (le_put_u64 (s_timestamp_nanos s) @ [s_level s,
                         (if s_folded s then kRecordFolded else 0)] @ replicate 4 0) buf
            in (case sample_encode (Some s) (Some (drop kRecordHeaderSize base))
                       (cap - kRecordHeaderSize) (Some 0) of
                  (rc, Some p, Some enc_len) \<Rightarrow>
                    let base = take kRecordHeaderSize base @ p
                    in if rc \<noteq> 0 then (-3, Some base, out_len)
                       else if enc_len \<noteq> sample_max_encoded_size then (-4, Some base, out_len)
                       else
                         let c = crc32c (take 10 base) 0;
                             c = crc32c (take enc_len p) c
                         in (0, Some (write_at 10 (le_put_u32 c) base), Some record_size_for_sample)
                | _ \<Rightarrow> (-3, Some base, out_len))
      | _ \<Rightarrow> (-1, bufo, out_len))"

definition record_decode_into :: "byte list \<Rightarrow> sample \<Rightarrow> (rc \<times> sample) option" where
  "record_decode_into base out =
     (if length base \<le> kRecordHeaderSize then Some (-2, out)
      else do {
        stored \<leftarrow> le_get_u32 (drop 10 base);
        let c = crc32c (take 10 base) 0;
        let c = crc32c (drop kRecordHeaderSize base) c;
        if c \<noteq> stored then Some (-3, out)
        else do {
          (rc, out) \<leftarrow> decode_into (drop kRecordHeaderSize base) out;
          if rc \<noteq> 0 then Some (-4, out)
          else do {
            ts \<leftarrow> le_get_u64 base;
            let out = out\<lparr>s_timestamp_nanos := ts\<rparr>;
            let lv = base ! 8;
            if lv < 1 \<or> kMaxLevelId < lv then Some (-5, out)
            else Some (0, out\<lparr>s_level := lv, s_folded := (base ! 9 AND kRecordFolded \<noteq> 0)\<rparr>)
          }
        }
      })"

definition record_decode :: "byte list option \<Rightarrow> sample option \<Rightarrow> (rc \<times> sample option) option" where
  "record_decode bufo outo =
     (case (bufo, outo) of
        (Some buf, Some out) \<Rightarrow> map_option (map_prod id Some) (record_decode_into buf out)
      | _ \<Rightarrow> Some (-1, outo))"

text \<open>
  How every reader calls it: a fresh \<open>Sample s{}\<close>, and anything but 0 drops the record.
\<close>

definition read_record :: "byte list \<Rightarrow> sample option" where
  "read_record buf = (case record_decode_into buf sample_zero of
      Some (rc, s) \<Rightarrow> if rc = 0 then Some s else None
    | None \<Rightarrow> None)"

section \<open>The table is the bit by bit CRC\<close>

definition crc32c_byte_bitwise :: "u32 \<Rightarrow> byte \<Rightarrow> u32" where
  "crc32c_byte_bitwise c b = (crc_bit_step ^^ 8) (c XOR ucast b)"

definition crc32c_bitwise :: "byte list \<Rightarrow> u32 \<Rightarrow> u32" where
  "crc32c_bitwise data seed = NOT (foldl crc32c_byte_bitwise (NOT seed) data)"

lemma mask_low_bit: "0 - (c AND 1 :: u32) = (if bit c 0 then -1 else 0)"
  by (simp add: and_one_eq odd_iff_mod_2_eq_one bit_0)

lemma crc_bit_step_alt:
  "crc_bit_step c = drop_bit 1 c XOR (if bit c 0 then kCrc32cPolyReflected else 0)"
  unfolding crc_bit_step_def mask_low_bit by simp

lemma crc_bit_step_xor: "crc_bit_step (a XOR b) = crc_bit_step a XOR crc_bit_step b"
  by (rule bit_word_eqI) (auto simp: crc_bit_step_alt bit_simps)

lemma crc_bit_steps_xor: "(crc_bit_step ^^ n) (a XOR b) = (crc_bit_step ^^ n) a XOR (crc_bit_step ^^ n) b"
  by (induction n) (simp_all add: crc_bit_step_xor)

lemma crc_bit_steps_shift:
  "(\<And>i. i < n \<Longrightarrow> \<not> bit a i) \<Longrightarrow> (crc_bit_step ^^ n) a = drop_bit n a"
proof (induction n arbitrary: a)
  case (Suc n)
  have "crc_bit_step a = drop_bit 1 a"
    using Suc.prems [of 0] by (simp add: crc_bit_step_alt)
  moreover have "(crc_bit_step ^^ n) (drop_bit 1 a) = drop_bit n (drop_bit 1 a)"
    by (rule Suc.IH) (use Suc.prems in \<open>simp add: bit_simps\<close>)
  ultimately show ?case by (simp add: funpow_swap1 drop_bit_drop_bit)
qed simp

lemma low_byte_split: "x = (x AND NOT 0xFF) XOR (x AND 0xFF :: u32)"
  by (rule bit_word_eqI) (auto simp: bit_simps)

lemma crc32c_byte_bitwise_eq: "crc32c_byte c b = crc32c_byte_bitwise c b"
proof -
  define x where "x = c XOR ucast b"
  have lt: "unat (x AND 0xFF) < 256"
  proof -
    have "x AND 0xFF \<le> 0xFF" by (rule word_and_le1)
    then show ?thesis by (simp add: word_le_nat_alt)
  qed
  have ff: "(0xFF :: u32) = mask 8" by (simp add: mask_eq_exp_minus_1)
  have "drop_bit 8 c = drop_bit 8 (x AND NOT 0xFF)" unfolding ff
    by (rule bit_word_eqI) (auto simp: x_def bit_simps dest: bit_imp_le_length)
  also have "\<dots> = (crc_bit_step ^^ 8) (x AND NOT 0xFF)" unfolding ff
    by (rule crc_bit_steps_shift [symmetric]) (simp add: bit_simps)
  finally have hi: "drop_bit 8 c = (crc_bit_step ^^ 8) (x AND NOT 0xFF)" .
  have lo: "make_crc32c_table ! unat (x AND 0xFF) = (crc_bit_step ^^ 8) (x AND 0xFF)"
    using lt by (simp add: make_crc32c_table_def)
  have "(crc_bit_step ^^ 8) (x AND NOT 0xFF) XOR (crc_bit_step ^^ 8) (x AND 0xFF)
      = (crc_bit_step ^^ 8) x"
    by (simp only: crc_bit_steps_xor [symmetric] low_byte_split [symmetric])
  then show ?thesis
    unfolding crc32c_byte_def crc32c_byte_bitwise_def x_def [symmetric] hi lo .
qed

section \<open>One changed byte changes the CRC\<close>

text \<open>
  The polynomial's top bit is set and a shifted word's is not, so a step can be undone: it is
  injective, and so is the whole fold in its state and, at every position, in the byte.
\<close>

lemma xor_left_cancel: "(a XOR b = a XOR (c :: u32)) = (b = c)"
  by (metis xor.assoc xor.left_neutral xor_self_eq)

lemma crc_bit_step_inj: "crc_bit_step a = crc_bit_step b \<Longrightarrow> a = b"
proof -
  assume eq: "crc_bit_step a = crc_bit_step b"
  have top: "bit (crc_bit_step c) 31 = bit c 0" for c
    using bit_imp_le_length [of c 32]
    by (auto simp: crc_bit_step_alt bit_simps kCrc32cPolyReflected_def)
  from eq have low: "bit a 0 = bit b 0" using top by metis
  then have sh: "drop_bit 1 a = drop_bit 1 b"
    using eq by (auto simp: crc_bit_step_alt xor_left_cancel xor.commute split: if_splits)
  show "a = b"
  proof (rule bit_word_eqI)
    fix n assume "n < LENGTH(32)"
    show "bit a n = bit b n"
    proof (cases n)
      case (Suc k)
      then show ?thesis using arg_cong [OF sh, of "\<lambda>w. bit w k"] by (simp add: bit_simps)
    qed (use low in simp)
  qed
qed

lemma crc_bit_steps_inj: "(crc_bit_step ^^ n) a = (crc_bit_step ^^ n) b \<Longrightarrow> a = b"
  by (induction n) (auto dest: crc_bit_step_inj)

lemma ucast_u32_inj:
  assumes "(ucast (a :: byte) :: u32) = ucast b"
  shows "a = b"
proof (rule bit_word_eqI)
  fix n assume "n < LENGTH(8)"
  then show "bit a n = bit b n"
    using arg_cong [OF assms, of "\<lambda>w. bit w n"] by (simp add: bit_simps)
qed

lemma crc32c_byte_inj_state: "crc32c_byte c b = crc32c_byte c' b \<Longrightarrow> c = c'"
  unfolding crc32c_byte_bitwise_eq crc32c_byte_bitwise_def
  by (drule crc_bit_steps_inj) (metis xor_left_cancel xor.commute)

lemma crc32c_byte_inj_byte: "crc32c_byte c b = crc32c_byte c b' \<Longrightarrow> b = b'"
  unfolding crc32c_byte_bitwise_eq crc32c_byte_bitwise_def
  by (drule crc_bit_steps_inj) (simp add: xor_left_cancel ucast_u32_inj)

lemma crc_fold_inj_state: "foldl crc32c_byte c bs = foldl crc32c_byte c' bs \<Longrightarrow> c = c'"
  by (induction bs arbitrary: c c') (auto dest: crc32c_byte_inj_state)

lemma crc_fold_byte_change:
  assumes "i < length bs" and "x \<noteq> bs ! i"
  shows "foldl crc32c_byte c (bs[i := x]) \<noteq> foldl crc32c_byte c bs"
proof
  assume eq: "foldl crc32c_byte c (bs[i := x]) = foldl crc32c_byte c bs"
  have split: "bs = take i bs @ bs ! i # drop (Suc i) bs" using assms(1) by (simp add: id_take_nth_drop)
  have "bs[i := x] = take i bs @ x # drop (Suc i) bs" using assms(1) by (simp add: upd_conv_take_nth_drop)
  with eq split have "foldl crc32c_byte (crc32c_byte (foldl crc32c_byte c (take i bs)) x) (drop (Suc i) bs)
     = foldl crc32c_byte (crc32c_byte (foldl crc32c_byte c (take i bs)) (bs ! i)) (drop (Suc i) bs)"
    by (metis foldl_Cons foldl_append)
  then have "x = bs ! i" by (blast dest: crc_fold_inj_state crc32c_byte_inj_byte)
  with assms(2) show False ..
qed

lemma crc32c_byte_change:
  "i < length bs \<Longrightarrow> x \<noteq> bs ! i \<Longrightarrow> crc32c (bs[i := x]) seed \<noteq> crc32c bs seed"
  unfolding crc32c_def by (simp add: crc_fold_byte_change)

lemma crc32c_seed_inj: "crc32c bs c = crc32c bs c' \<Longrightarrow> c = c'"
  unfolding crc32c_def by (drule arg_cong [of _ _ "\<lambda>w. NOT w"]) (auto dest: crc_fold_inj_state)

text \<open>The CRC of two parts chained by the seed is the CRC of the whole.\<close>

lemma crc32c_append: "crc32c (xs @ ys) seed = crc32c ys (crc32c xs seed)"
  by (simp add: crc32c_def)

section \<open>The bytes of a record\<close>

text \<open>What \<open>record_encode\<close> leaves in the buffer, written out.\<close>

definition record_prefix :: "sample \<Rightarrow> byte list" where
  "record_prefix s = le_put_u64 (s_timestamp_nanos s) @
     [s_level s, (if s_folded s then kRecordFolded else 0)]"

definition record_bytes :: "sample \<Rightarrow> byte list" where
  "record_bytes s = record_prefix s @
     le_put_u32 (crc32c (encode_bytes s) (crc32c (record_prefix s) 0)) @ encode_bytes s"

lemma length_record_prefix [simp]: "length (record_prefix s) = 10"
  by (simp add: record_prefix_def)

lemma record_size_eq: "record_size_for_sample = 542"
  by (simp add: record_size_for_sample_def kRecordHeaderSize_def sample_max_encoded_size_eq)

lemma length_record_bytes [simp]: "length (record_bytes s) = record_size_for_sample"
  by (simp add: record_bytes_def record_size_eq)

lemma record_encode_writes:
  assumes "record_size_for_sample \<le> cap" and "cap \<le> length buf"
  shows "record_encode s (Some buf) cap (Some n) =
    (0, Some (write_at 0 (record_bytes s) buf), Some record_size_for_sample)"
proof -
  have len: "542 \<le> cap" "542 \<le> length buf" using assms by (simp_all add: record_size_eq)
  define c where "c = crc32c (encode_bytes s) (crc32c (record_prefix s) 0)"
  have hd: "le_put_u64 (s_timestamp_nanos s) @ [s_level s, (if s_folded s then kRecordFolded else 0)]
      @ replicate 4 0 = record_prefix s @ replicate 4 0"
    unfolding record_prefix_def append_assoc ..
  have enc: "sample_encode (Some s) (Some (drop 14 buf)) (cap - 14) (Some 0)
      = (0, Some (encode_bytes s @ drop 542 buf), Some 528)"
    using len by (simp add: sample_encode_def write_at_def)
  have "record_encode s (Some buf) cap (Some n)
      = (0, Some (write_at 10 (le_put_u32 c)
          (record_prefix s @ replicate 4 0 @ encode_bytes s @ drop 542 buf)), Some 542)"
    using len unfolding record_encode_def hd
    by (simp add: enc Let_def record_size_eq sample_max_encoded_size_eq kRecordHeaderSize_def)
      (simp add: write_at_def c_def)
  then show ?thesis
    by (simp add: write_at_def record_bytes_def record_size_eq c_def)
qed

lemma record_encode_short:
  "cap < record_size_for_sample \<Longrightarrow> record_encode s (Some buf) cap (Some n) = (-2, Some buf, Some n)"
  by (simp add: record_encode_def)

lemma record_decode_into_encode:
  assumes "1 \<le> s_level s" and "s_level s \<le> kMaxLevelId"
  shows "record_decode_into (record_bytes s) out = Some (0, s\<lparr>s_baseline := s_baseline out\<rparr>)"
proof -
  have level: "s_level s \<noteq> 0" "\<not> kMaxLevelId < s_level s" using assms by auto
  have parts: "take 10 (record_bytes s) = record_prefix s"
    "drop 14 (record_bytes s) = encode_bytes s"
    "drop 10 (record_bytes s) = le_put_u32 (crc32c (encode_bytes s) (crc32c (record_prefix s) 0))
        @ encode_bytes s"
    by (simp_all add: record_bytes_def)
  have fields: "le_get_u64 (record_bytes s) = Some (s_timestamp_nanos s)"
    "record_bytes s ! 8 = s_level s"
    "record_bytes s ! 9 = (if s_folded s then kRecordFolded else 0)"
    by (simp_all add: record_bytes_def record_prefix_def get_put nth_append)
  have dec: "decode_into (encode_bytes s) out
      = Some (0, s\<lparr>s_baseline := s_baseline out, s_folded := s_folded out\<rparr>)"
    using decode_into_encode [OF assms, of "[]"] by simp
  show ?thesis
    by (simp add: record_decode_into_def kRecordHeaderSize_def record_size_eq parts fields dec level
        get_put Let_def kRecordFolded_def)
qed

lemma read_record_bytes:
  "1 \<le> s_level s \<Longrightarrow> s_level s \<le> kMaxLevelId \<Longrightarrow> s_baseline s = 0 \<Longrightarrow>
   read_record (record_bytes s) = Some s"
  by (simp add: read_record_def record_decode_into_encode sample_zero_def)

lemma record_decode_into_total: "\<exists>rc t. record_decode_into buf out = Some (rc, t)"
proof (cases "length buf \<le> kRecordHeaderSize")
  case False
  then have len: "14 < length buf" by (simp add: kRecordHeaderSize_def)
  obtain stored where "le_get_u32 (drop 10 buf) = Some stored"
    using le_get_u32_drop [of 10 buf] len by auto
  moreover obtain ts where "le_get_u64 buf = Some ts"
    using le_get_u64_len [of buf] len by auto
  moreover obtain rc t where "decode_into (drop kRecordHeaderSize buf) out = Some (rc, t)"
    using decode_into_total by blast
  ultimately show ?thesis using False by (simp add: record_decode_into_def Let_def)
qed (simp add: record_decode_into_def)

section \<open>A changed byte is caught\<close>

lemma record_decode_crc:
  "record_decode_into b out = Some (0, t) \<Longrightarrow>
   14 < length b \<and> le_get_u32 (drop 10 b) = Some (crc32c (drop 14 b) (crc32c (take 10 b) 0))"
  by (auto simp: record_decode_into_def kRecordHeaderSize_def Let_def split: bind_splits if_splits)

lemma record_decode_bad_crc:
  "14 < length b \<Longrightarrow> le_get_u32 (drop 10 b) = Some v \<Longrightarrow> v \<noteq> crc32c (drop 14 b) (crc32c (take 10 b) 0) \<Longrightarrow>
   record_decode_into b out = Some (-3, out)"
  by (auto simp: record_decode_into_def kRecordHeaderSize_def Let_def)

lemma record_decode_changed_byte:
  assumes "record_decode_into b out = Some (0, t)" and "i < length b" and "x \<noteq> b ! i"
  shows "record_decode_into (b[i := x]) out' = Some (-3, out')"
proof -
  let ?b = "b[i := x]"
  let ?crc = "crc32c (drop 14 b) (crc32c (take 10 b) 0)"
  have len: "14 < length b" and crc: "le_get_u32 (drop 10 b) = Some ?crc"
    using record_decode_crc [OF assms(1)] by auto
  obtain v where v: "le_get_u32 (drop 10 ?b) = Some v"
    using le_get_u32_drop [of 10 ?b] len by auto
  have four: "take 4 (drop 10 b) = le_put_u32 ?crc" "take 4 (drop 10 ?b) = le_put_u32 v"
    using crc v by (simp_all add: le_put_get_u32)
  have "v \<noteq> crc32c (drop 14 ?b) (crc32c (take 10 ?b) 0)"
  proof (cases "10 \<le> i \<and> i < 14")
    case True
    then have "drop 14 ?b = drop 14 b" "take 10 ?b = take 10 b" by simp_all
    moreover have "take 4 (drop 10 ?b) \<noteq> take 4 (drop 10 b)"
    proof
      assume "take 4 (drop 10 ?b) = take 4 (drop 10 b)"
      then have "take 4 (drop 10 ?b) ! (i - 10) = take 4 (drop 10 b) ! (i - 10)" by simp
      moreover have "i - 10 < 4" "10 + (i - 10) = i" using True by auto
      ultimately show False using len assms(2,3) by simp
    qed
    ultimately show ?thesis using four by metis
  next
    case False
    have "drop 10 ?b = (drop 10 b)[i - 10 := x]" if "10 \<le> i" using that by (simp add: drop_update_swap)
    then have "take 4 (drop 10 ?b) = take 4 (drop 10 b)"
      using False by (cases "i < 10") simp_all
    with four have same: "v = ?crc" by (metis le_get_put_u32 append_Nil2 option.inject)
    show ?thesis
    proof (cases "i < 10")
      case True
      then have "take 10 ?b = (take 10 b)[i := x]" "drop 14 ?b = drop 14 b"
        by (simp_all add: take_update_swap)
      moreover have "crc32c ((take 10 b)[i := x]) 0 \<noteq> crc32c (take 10 b) 0"
        using True assms(2,3) by (intro crc32c_byte_change) simp_all
      ultimately show ?thesis using same by (metis crc32c_seed_inj)
    next
      case ge: False
      then have "take 10 ?b = take 10 b" "drop 14 ?b = (drop 14 b)[i - 14 := x]"
        using False by (simp_all add: drop_update_swap)
      moreover have "crc32c ((drop 14 b)[i - 14 := x]) c \<noteq> crc32c (drop 14 b) c" for c
        using ge False assms(2,3) by (intro crc32c_byte_change) simp_all
      ultimately show ?thesis using same by metis
    qed
  qed
  then show ?thesis using len v by (intro record_decode_bad_crc) simp_all
qed

text \<open>A slot never written (zero bytes) is not a record.\<close>

lemma read_record_blank:
  assumes "list_all (\<lambda>b. b = 0) buf"
  shows "read_record buf = None"
proof -
  have "take 8 (drop 14 buf) \<noteq> kMagic"
  proof
    assume eq: "take 8 (drop 14 buf) = kMagic"
    have "list_all (\<lambda>b. b = 0) (take 8 (drop 14 buf))"
      using assms by (auto simp: list_all_iff dest: in_set_takeD in_set_dropD)
    then show False unfolding eq by (simp add: kMagic_def)
  qed
  then have "\<not> header_ok (drop 14 buf)" by (auto simp: header_ok_def)
  then obtain rc t where "decode_into (drop 14 buf) sample_zero = Some (rc, t)" "rc < 0"
    using decode_into_bad by blast
  then show ?thesis
    using record_decode_into_total [of buf sample_zero]
    by (auto simp: read_record_def record_decode_into_def kRecordHeaderSize_def Let_def split: bind_splits if_splits)
qed

section \<open>Properties\<close>

text \<open>C17: A sample with a valid level, written as a storage record and read back from the bytes
  written, comes back whole, its timestamp, level and folded flag from the record header; only the
  baseline mask, which is not stored, is the reader's.\<close>

theorem record_roundtrip:
  assumes "1 \<le> s_level s" and "s_level s \<le> kMaxLevelId"
    and "record_size_for_sample \<le> cap" and "cap \<le> length buf"
  shows "\<exists>b. record_encode s (Some buf) cap (Some n) = (0, Some b, Some record_size_for_sample) \<and>
    record_decode (Some (take record_size_for_sample b)) (Some out) =
      Some (0, Some (s\<lparr>s_baseline := s_baseline out\<rparr>))"
  using record_encode_writes [OF assms(3,4)] record_decode_into_encode [OF assms(1,2), of out]
  by (simp add: record_decode_def write_at_def)

theorem record_roundtrip_witness:
  "\<exists>b. record_encode demo_sample (Some (replicate 1024 0)) 1024 (Some 0) = (0, Some b, Some record_size_for_sample) \<and>
    record_decode (Some (take record_size_for_sample b)) (Some sample_zero) = Some (0, Some demo_sample)"
  using record_roundtrip [OF demo_sample_level, of 1024 "replicate 1024 0" 0 sample_zero]
  by (auto simp: record_size_eq demo_sample_def sample_zero_def)

text \<open>C12: A record that decodes, with any one of its bytes changed to another value (in the header,
  the stored CRC or the payload), is refused with the CRC error and the caller's sample is not
  touched.\<close>

theorem record_one_byte_detected:
  assumes "record_decode (Some b) (Some out) = Some (0, Some t)" and "i < length b" and "x \<noteq> b ! i"
  shows "record_decode (Some (b[i := x])) (Some out') = Some (-3, Some out')"
proof -
  have "record_decode_into b out = Some (0, t)" using assms(1) by (auto simp: record_decode_def)
  then show ?thesis using record_decode_changed_byte [OF _ assms(2,3)] by (simp add: record_decode_def)
qed

lemma record_bytes_0:
  "s_timestamp_nanos s = 7 \<Longrightarrow> record_bytes s ! 0 = 7"
  by (simp add: record_bytes_def record_prefix_def le_put_u64_def)

theorem record_one_byte_detected_witness:
  "record_decode (Some ((record_bytes demo_sample)[0 := 8])) (Some sample_zero) = Some (-3, Some sample_zero)"
  by (rule record_one_byte_detected [of "record_bytes demo_sample" sample_zero demo_sample])
    (use record_decode_into_encode [OF demo_sample_level, of sample_zero] in
      \<open>simp_all add: record_decode_def record_bytes_0 record_size_eq demo_sample_def sample_zero_def\<close>)

text \<open>The table-driven CRC-32C is the bit-by-bit division by the reflected Castagnoli
  polynomial, for every input and seed.\<close>

theorem crc32c_is_bitwise: "crc32c data seed = crc32c_bitwise data seed"
  by (simp add: crc32c_def crc32c_bitwise_def crc32c_byte_bitwise_eq cong: foldl_cong)

text \<open>Decoding a record never reads outside the buffer, whatever it holds, and a buffer no
  longer than a record header is refused before any field is read.\<close>

theorem record_decode_safe:
  "\<exists>rc t. record_decode (Some buf) (Some out) = Some (rc, Some t) \<and>
    (length buf \<le> kRecordHeaderSize \<longrightarrow> rc = -2 \<and> t = out)"
  using record_decode_into_total [of buf out]
  by (auto simp: record_decode_def record_decode_into_def)

theorem record_decode_safe_witness:
  "\<exists>rc t. record_decode (Some (replicate 14 0)) (Some sample_zero) = Some (rc, Some t) \<and> rc = -2 \<and> t = sample_zero"
  using record_decode_safe [of "replicate 14 0" sample_zero] by (simp add: kRecordHeaderSize_def)

end
