(* ===== verification/Ring_File.thy ===== *)
theory Ring_File
  imports Record_Codec
begin

text \<open>
  The on-disk ring of fixed-size records (\<open>src/storage/ring_file.h\<close>,
  \<open>src/storage/ring_file.cpp\<close>). The handle is a record of the class's members; the file is its
  byte list, and what the system calls answer is an argument of the operation that makes them, so
  every failure path is a branch. The 64-byte header is mapped shared, so a store through the
  mapping is a write into the file. Indices, capacities and offsets are 64-bit words, as in the
  code. Proved here: opening creates or validates the header, the class invariant and that every
  operation keeps it, the records a ring holds are the newest \<open>capacity\<close> of those appended, and
  what a crash at each point of \<open>append\<close> leaves.
\<close>

section \<open>Files and system calls\<close>

definition ENOSPC :: errno where "ENOSPC = 28"

text \<open>What a \<open>pwrite\<close> does: all of it, only the first bytes, or nothing and an errno.\<close>

datatype write_io = Full | Short nat | Fail errno

text \<open>\<open>pwrite\<close>: past the end the file grows, the gap filled with zero bytes.\<close>

definition file_write :: "nat \<Rightarrow> byte list \<Rightarrow> byte list \<Rightarrow> byte list" where
  "file_write off bytes f =
     (if bytes = [] then f
      else write_at off bytes (f @ replicate (off - length f) 0))"

definition pwrite :: "write_io \<Rightarrow> nat \<Rightarrow> byte list \<Rightarrow> byte list \<Rightarrow> int \<times> errno \<times> byte list" where
  "pwrite io off bytes f = (case io of
      Full \<Rightarrow> (int (length bytes), 0, file_write off bytes f)
    | Short n \<Rightarrow> (int (min n (length bytes - 1)), 0,
                  file_write off (take (min n (length bytes - 1)) bytes) f)
    | Fail e \<Rightarrow> (-1, e, f))"

definition pread :: "errno option \<Rightarrow> nat \<Rightarrow> nat \<Rightarrow> byte list \<Rightarrow> int \<times> byte list" where
  "pread io n off f = (case io of
      None \<Rightarrow> (int (length (take n (drop off f))), take n (drop off f))
    | Some e \<Rightarrow> (-1, []))"

text \<open>\<open>ftruncate\<close> to a length past \<open>off_t\<close>'s range is \<open>EINVAL\<close>; a longer file ends in zeros.\<close>

definition ftruncate :: "errno option \<Rightarrow> u64 \<Rightarrow> byte list \<Rightarrow> errno option \<times> byte list" where
  "ftruncate io len f = (case io of
      Some e \<Rightarrow> (Some e, f)
    | None \<Rightarrow> if bit len 63 then (Some EINVAL, f)
              else (None, take (unat len) f @ replicate (unat len - length f) 0))"

text \<open>The bytes of a mapping of the file's first \<open>n\<close> bytes: past the end of the file a page
  reads as zeros.\<close>

definition mapped :: "nat \<Rightarrow> byte list \<Rightarrow> byte list" where
  "mapped n f = take n (f @ replicate n 0)"

section \<open>State\<close>

definition kHeaderSize :: nat where
  "kHeaderSize = 64"

definition kFormatVersion :: u32 where
  "kFormatVersion = 1"

definition kMagicBytes :: "byte list" where
  "kMagicBytes = [66, 68, 89, 75, 82, 66, 0, 1]"

definition kWriteIdxOffset :: nat where
  "kWriteIdxOffset = 28"

definition kCustomRingTier :: u8 where
  "kCustomRingTier = 0x80"

record ring_file =
  rf_open :: bool
  rf_read_only :: bool
  rf_tier :: u8
  rf_last_errno :: errno
  rf_mapped :: bool
  rf_record_size :: u32
  rf_capacity :: u64
  rf_widx :: u64
  rf_begun :: u64
  rf_reads :: u64

definition ring_file_new :: ring_file where
  "ring_file_new = \<lparr>rf_open = False, rf_read_only = False, rf_tier = 0, rf_last_errno = 0,
     rf_mapped = False, rf_record_size = 0, rf_capacity = 0, rf_widx = 0, rf_begun = 0,
     rf_reads = 0\<rparr>"

section \<open>Opening\<close>

definition blank_header :: "byte list \<Rightarrow> bool" where
  "blank_header h \<longleftrightarrow> list_all (\<lambda>b. b = 0) h"

definition header_is_blank :: "errno option \<Rightarrow> byte list \<Rightarrow> bool" where
  "header_is_blank io f = (case pread io kHeaderSize 0 f of (n, h) \<Rightarrow>
     if n \<noteq> int kHeaderSize then False else blank_header h)"

definition fresh_header :: "u8 \<Rightarrow> u32 \<Rightarrow> u64 \<Rightarrow> byte list" where
  "fresh_header tier record_size capacity =
     kMagicBytes @ le_put_u32 kFormatVersion @ [tier] @ replicate 3 0 @ le_put_u32 record_size @
     le_put_u64 capacity @ le_put_u64 0 @ replicate 28 0"

definition file_bytes :: "u32 \<Rightarrow> u64 \<Rightarrow> u64" where
  "file_bytes record_size capacity = of_nat kHeaderSize + ucast record_size * capacity"

text \<open>What the system calls of one \<open>open\<close> answer (\<open>None\<close>: success).\<close>

record open_io =
  io_open :: "errno option"
  io_fstat :: "errno option"
  io_ftruncate :: "errno option"
  io_pread :: "errno option"
  io_pwrite :: write_io
  io_undo :: "errno option"
  io_mmap :: "errno option"

definition open_io_ok :: open_io where
  "open_io_ok = \<lparr>io_open = None, io_fstat = None, io_ftruncate = None, io_pread = None,
     io_pwrite = Full, io_undo = None, io_mmap = None\<rparr>"

text \<open>The checks of an existing header.\<close>

definition check_header :: "byte list \<Rightarrow> u8 \<Rightarrow> u32 \<Rightarrow> u64 \<Rightarrow> rc" where
  "check_header h tier record_size capacity =
     (if take 8 h \<noteq> kMagicBytes then -8
      else if le_get_u32 (drop 8 h) \<noteq> Some kFormatVersion then -9
      else if h ! 12 \<noteq> tier then -10
      else if le_get_u32 (drop 16 h) \<noteq> Some record_size then -11
      else if le_get_u64 (drop 20 h) \<noteq> Some capacity then -12
      else 0)"

definition header_index :: "byte list \<Rightarrow> u64" where
  "header_index f = val_u64 (drop kWriteIdxOffset (mapped kHeaderSize f))"

text \<open>From the \<open>mmap\<close> on: map the header, check it unless it was just written, take the state.\<close>

definition open_mapped ::
  "ring_file \<Rightarrow> byte list \<Rightarrow> open_io \<Rightarrow> u8 \<Rightarrow> u32 \<Rightarrow> u64 \<Rightarrow> bool \<Rightarrow> bool
   \<Rightarrow> rc \<times> ring_file \<times> byte list option" where
  "open_mapped r f io tier record_size capacity read_only fresh =
     (case io_mmap io of
        Some e \<Rightarrow> (-7, r\<lparr>rf_last_errno := e\<rparr>, Some f)
      | None \<Rightarrow>
          let c = (if fresh then 0 else check_header (mapped kHeaderSize f) tier record_size capacity)
          in if c \<noteq> 0 then (c, r, Some f)
             else (0, r\<lparr>rf_open := True, rf_read_only := read_only, rf_tier := tier,
                       rf_mapped := True, rf_record_size := record_size, rf_capacity := capacity,
                       rf_widx := header_index f, rf_begun := header_index f\<rparr>, Some f))"

text \<open>Writing the header of a new ring, undone when it does not fit.\<close>

definition open_fresh ::
  "ring_file \<Rightarrow> byte list \<Rightarrow> open_io \<Rightarrow> u8 \<Rightarrow> u32 \<Rightarrow> u64 \<Rightarrow> bool
   \<Rightarrow> rc \<times> ring_file \<times> byte list option" where
  "open_fresh r f io tier record_size capacity read_only =
     (case pwrite (io_pwrite io) 0 (fresh_header tier record_size capacity) f of (w, e, f) \<Rightarrow>
        if w \<noteq> int kHeaderSize
        then (-14, r\<lparr>rf_last_errno := (if w < 0 then e else ENOSPC)\<rparr>,
              Some (snd (ftruncate (io_undo io) 0 f)))
        else open_mapped r f io tier record_size capacity read_only True)"

text \<open>\<open>fs\<close> is the file at the path, \<open>None\<close> when there is none.\<close>

definition open_impl ::
  "ring_file \<Rightarrow> byte list option \<Rightarrow> open_io \<Rightarrow> u8 \<Rightarrow> u32 \<Rightarrow> u64 \<Rightarrow> bool
   \<Rightarrow> rc \<times> ring_file \<times> byte list option" where
  "open_impl r0 fs io tier record_size capacity read_only =
     (let r = r0\<lparr>rf_last_errno := 0\<rparr> in
      if rf_open r then (-1, r, fs)
      else if record_size = 0 \<or> capacity = 0 then (-2, r, fs)
      else case (io_open io, fs, read_only) of
        (Some e, _, _) \<Rightarrow> (-3, r\<lparr>rf_last_errno := e\<rparr>, fs)
      | (None, None, True) \<Rightarrow> (-3, r\<lparr>rf_last_errno := ENOENT\<rparr>, fs)
      | _ \<Rightarrow>
        let f = (case fs of Some f \<Rightarrow> f | None \<Rightarrow> []) in
        (case io_fstat io of
           Some e \<Rightarrow> (-4, r\<lparr>rf_last_errno := e\<rparr>, Some f)
         | None \<Rightarrow>
           if f = [] \<and> read_only then (-6, r, Some f)
           else if f = [] then
             (case ftruncate (io_ftruncate io) (file_bytes record_size capacity) f of
                (Some e, f) \<Rightarrow> (-5, r\<lparr>rf_last_errno := e\<rparr>, Some f)
              | (None, f) \<Rightarrow> open_fresh r f io tier record_size capacity read_only)
           else if of_nat (length f) \<noteq> file_bytes record_size capacity then (-6, r, Some f)
           else if \<not> read_only \<and> header_is_blank (io_pread io) f
           then open_fresh r f io tier record_size capacity read_only
           else open_mapped r f io tier record_size capacity read_only False))"

definition ring_open ::
  "ring_file \<Rightarrow> byte list option \<Rightarrow> open_io \<Rightarrow> u8 \<Rightarrow> u32 \<Rightarrow> u64 \<Rightarrow> rc \<times> ring_file \<times> byte list option" where
  "ring_open r fs io tier record_size capacity = open_impl r fs io tier record_size capacity False"

definition open_read_only ::
  "ring_file \<Rightarrow> byte list option \<Rightarrow> open_io \<Rightarrow> u8 \<Rightarrow> u32 \<Rightarrow> u64 \<Rightarrow> rc \<times> ring_file \<times> byte list option" where
  "open_read_only r fs io tier record_size capacity = open_impl r fs io tier record_size capacity True"

section \<open>The header on its own\<close>

record ring_header =
  rh_tier :: u8
  rh_record_size :: u32
  rh_capacity :: u64
  rh_write_idx :: u64

definition ring_header_zero :: ring_header where
  "ring_header_zero = \<lparr>rh_tier = 0, rh_record_size = 0, rh_capacity = 0, rh_write_idx = 0\<rparr>"

definition parse_header :: "byte list \<Rightarrow> ring_header" where
  "parse_header h = \<lparr>rh_tier = h ! 12, rh_record_size = val_u32 (drop 16 h),
     rh_capacity = val_u64 (drop 20 h), rh_write_idx = val_u64 (drop kWriteIdxOffset h)\<rparr>"

text \<open>The division comes first: it keeps the product below from wrapping round.\<close>

definition header_fits :: "ring_header \<Rightarrow> nat \<Rightarrow> bool" where
  "header_fits h st_size \<longleftrightarrow>
     \<not> (rh_record_size h = 0 \<or> rh_capacity h = 0 \<or>
        rh_capacity h > (of_nat st_size - of_nat kHeaderSize) div ucast (rh_record_size h) \<or>
        (of_nat st_size :: u64) \<noteq> of_nat kHeaderSize + ucast (rh_record_size h) * rh_capacity h)"

definition read_header ::
  "byte list option \<Rightarrow> open_io \<Rightarrow> ring_header \<Rightarrow> rc \<times> ring_header \<times> errno" where
  "read_header fs io out =
     (case (io_open io, fs) of
        (Some e, _) \<Rightarrow> (-3, out, e)
      | (None, None) \<Rightarrow> (-3, out, ENOENT)
      | (None, Some f) \<Rightarrow>
        (case io_fstat io of
           Some e \<Rightarrow> (-4, out, e)
         | None \<Rightarrow>
           if f = [] then (-15, out, 0)
           else case (if kHeaderSize \<le> length f then pread (io_pread io) kHeaderSize 0 f else (0, [])) of
             (n, h) \<Rightarrow>
               if n \<noteq> int kHeaderSize then (-13, out, 0)
               else if blank_header h then (-16, out, 0)
               else if take 8 h \<noteq> kMagicBytes then (-8, out, 0)
               else if le_get_u32 (drop 8 h) \<noteq> Some kFormatVersion then (-9, out, 0)
               else if \<not> header_fits (parse_header h) (length f) then (-6, parse_header h, 0)
               else (0, parse_header h, 0)))"

section \<open>Operations on an open ring\<close>

definition ring_close :: "ring_file \<Rightarrow> ring_file" where
  "ring_close r = r\<lparr>rf_mapped := False, rf_open := False, rf_record_size := 0, rf_capacity := 0,
     rf_read_only := False, rf_tier := 0, rf_widx := 0, rf_begun := 0\<rparr>"

definition slot_offset :: "ring_file \<Rightarrow> u64 \<Rightarrow> nat" where
  "slot_offset r slot = unat (of_nat kHeaderSize + slot * ucast (rf_record_size r) :: u64)"

definition put_index :: "u64 \<Rightarrow> byte list \<Rightarrow> byte list" where
  "put_index idx f = write_at kWriteIdxOffset (le_put_u64 idx) f"

definition ring_append ::
  "ring_file \<Rightarrow> byte list \<Rightarrow> write_io \<Rightarrow> byte list option \<Rightarrow> nat \<Rightarrow> rc \<times> ring_file \<times> byte list" where
  "ring_append r f io recordo len = (case recordo of
      None \<Rightarrow> (-1, r, f)
    | Some rec \<Rightarrow>
      if \<not> rf_open r \<or> rf_read_only r then (-1, r, f)
      else if len \<noteq> unat (rf_record_size r) then (-2, r, f)
      else
        let idx = rf_widx r;
            slot = idx mod rf_capacity r;
            off = slot_offset r slot;
            r = r\<lparr>rf_begun := idx + 1\<rparr>
        in (case pwrite io off (take len rec) f of (w, e, f) \<Rightarrow>
              if w \<noteq> int (unat (rf_record_size r))
              then (-3, r\<lparr>rf_last_errno := (if w < 0 then e else ENOSPC), rf_begun := idx\<rparr>, f)
              else (0, r\<lparr>rf_widx := idx + 1\<rparr>, put_index (idx + 1) f)))"

definition read_at ::
  "ring_file \<Rightarrow> byte list \<Rightarrow> errno option \<Rightarrow> u64 \<Rightarrow> byte list option \<Rightarrow> nat
   \<Rightarrow> rc \<times> ring_file \<times> byte list option" where
  "read_at r f io index outo len = (case outo of
      None \<Rightarrow> (-1, r, outo)
    | Some out \<Rightarrow>
      if \<not> rf_open r then (-1, r, outo)
      else if len \<noteq> unat (rf_record_size r) then (-2, r, outo)
      else if index \<ge> rf_capacity r then (-3, r, outo)
      else
        let r = r\<lparr>rf_reads := rf_reads r + 1\<rparr>
        in (case pread io len (slot_offset r index) f of (n, b) \<Rightarrow>
              let out = write_at 0 b out
              in if n \<noteq> int (unat (rf_record_size r)) then (-4, r, Some out)
                 else (0, r, Some out)))"

definition advance_write_index :: "ring_file \<Rightarrow> byte list \<Rightarrow> u64 \<Rightarrow> rc \<times> ring_file \<times> byte list" where
  "advance_write_index r f n =
     (if \<not> rf_open r \<or> rf_read_only r then (-1, r, f)
      else let idx = rf_widx r + n
           in (0, r\<lparr>rf_begun := idx, rf_widx := idx\<rparr>, put_index idx f))"

definition write_index :: "ring_file \<Rightarrow> byte list \<Rightarrow> u64" where
  "write_index r f =
     (if \<not> rf_open r then 0 else if rf_read_only r then header_index f else rf_widx r)"

definition write_begun :: "ring_file \<Rightarrow> byte list \<Rightarrow> u64" where
  "write_begun r f =
     (if \<not> rf_open r then 0 else if rf_read_only r then write_index r f else rf_begun r)"

definition ring_count :: "ring_file \<Rightarrow> byte list \<Rightarrow> u64" where
  "ring_count r f = (let idx = write_index r f in if idx < rf_capacity r then idx else rf_capacity r)"

definition describe :: "rc \<Rightarrow> string" where
  "describe rc =
     (if rc = 0 then ''ok''
      else if rc = -1 then ''already open''
      else if rc = -2 then ''record size or capacity is zero''
      else if rc = -3 then ''open failed''
      else if rc = -4 then ''fstat failed''
      else if rc = -5 then ''ftruncate failed''
      else if rc = -6 then ''file size does not match record size x capacity''
      else if rc = -7 then ''mmap failed''
      else if rc = -8 then ''not a budyk ring file (bad magic)''
      else if rc = -9 then ''ring format version mismatch''
      else if rc = -10 then ''ring was written for another tier''
      else if rc = -11 then ''record size in the header differs''
      else if rc = -12 then ''capacity in the header differs''
      else if rc = -13 then ''file is shorter than a ring header''
      else if rc = -14 then ''writing the header failed''
      else if rc = -15 then ''empty file''
      else if rc = -16 then ''blank header (all zero bytes)''
      else ''unknown error'')"


section \<open>Slots of the file\<close>

definition slot_bytes :: "nat \<Rightarrow> byte list \<Rightarrow> nat \<Rightarrow> byte list" where
  "slot_bytes rs f k = take rs (drop (kHeaderSize + k * rs) f)"

definition slots :: "nat \<Rightarrow> nat \<Rightarrow> byte list \<Rightarrow> byte list list" where
  "slots rs cap f = map (slot_bytes rs f) [0..<cap]"

lemma length_slots [simp]: "length (slots rs cap f) = cap"
  by (simp add: slots_def)

lemma nth_slots [simp]: "k < cap \<Longrightarrow> slots rs cap f ! k = slot_bytes rs f k"
  by (simp add: slots_def)

lemma slot_end:
  fixes k cap rs :: nat
  assumes "k < cap"
  shows "k * rs + rs \<le> rs * cap"
proof -
  have "rs * Suc k \<le> rs * cap" using assms by (intro mult_le_mono2) simp
  then show ?thesis by (simp add: mult.commute)
qed

lemma slot_before:
  fixes j k rs :: nat
  assumes "j < k"
  shows "j * rs + rs \<le> k * rs"
proof -
  have "Suc j * rs \<le> k * rs" using assms by (intro mult_le_mono1) simp
  then show ?thesis by simp
qed

lemma slot_write_same:
  assumes "length rec = rs" and "k < cap" and "length f = kHeaderSize + rs * cap"
  shows "slot_bytes rs (write_at (kHeaderSize + k * rs) rec f) k = rec"
  using assms slot_end [of k cap rs]
  by (metis add.assoc add_le_cancel_left read_write_at slot_bytes_def)

text \<open>A write that ends before a slot, or starts after it, does not touch it.\<close>

lemma slot_write_outside:
  assumes "off + length bs \<le> length f"
    and "off + length bs \<le> kHeaderSize + k * rs \<or> kHeaderSize + k * rs + rs \<le> off"
  shows "slot_bytes rs (write_at off bs f) k = slot_bytes rs f k"
proof (cases "off + length bs \<le> kHeaderSize + k * rs")
  case False
  with assms(2) have le: "kHeaderSize + k * rs + rs \<le> off" by blast
  then show ?thesis
    using assms(1) unfolding slot_bytes_def take_drop
    by (simp add: add.commute add.left_commute)
qed (use assms(1) in \<open>simp add: slot_bytes_def\<close>)

lemma slot_write_other:
  assumes "length rec \<le> rs" and "k < cap" and "j < cap" and "j \<noteq> k"
    and "length f = kHeaderSize + rs * cap"
  shows "slot_bytes rs (write_at (kHeaderSize + k * rs) rec f) j = slot_bytes rs f j"
proof (rule slot_write_outside)
  show "kHeaderSize + k * rs + length rec \<le> length f" using assms slot_end [of k cap rs] by simp
  show "kHeaderSize + k * rs + length rec \<le> kHeaderSize + j * rs
      \<or> kHeaderSize + j * rs + rs \<le> kHeaderSize + k * rs"
    using assms slot_before [of j k rs] slot_before [of k j rs] by linarith
qed

lemma slots_write:
  assumes "length rec = rs" and "k < cap" and "length f = kHeaderSize + rs * cap"
  shows "slots rs cap (write_at (kHeaderSize + k * rs) rec f) = (slots rs cap f)[k := rec]"
  using assms by (intro nth_equalityI) (auto simp: nth_list_update slot_write_same slot_write_other)

lemma slot_put_index:
  "kHeaderSize \<le> length f \<Longrightarrow> slot_bytes rs (put_index i f) k = slot_bytes rs f k"
  unfolding put_index_def by (rule slot_write_outside) (simp_all add: kWriteIdxOffset_def kHeaderSize_def)

lemma slots_put_index: "kHeaderSize \<le> length f \<Longrightarrow> slots rs cap (put_index i f) = slots rs cap f"
  by (simp add: slots_def slot_put_index)

lemma length_put_index [simp]: "kHeaderSize \<le> length f \<Longrightarrow> length (put_index i f) = length f"
  by (simp add: put_index_def kWriteIdxOffset_def kHeaderSize_def)

lemma mapped_full [simp]: "n \<le> length f \<Longrightarrow> mapped n f = take n f"
  by (simp add: mapped_def)

text \<open>The index field of the header, read back after it was stored.\<close>

lemma val_u64_put: "take 8 p = le_put_u64 v \<Longrightarrow> val_u64 p = v"
  by (metis append_take_drop_id le_get_put_u64 option.sel val_u64_def)

lemma header_index_eq:
  assumes "kHeaderSize \<le> length f" and "take 8 (drop kWriteIdxOffset f) = le_put_u64 v"
  shows "header_index f = v"
proof -
  have "take 8 (drop 28 (take 64 f)) = take 8 (drop 28 f)" by (simp add: drop_take)
  then show ?thesis using assms by (simp add: header_index_def val_u64_put kHeaderSize_def kWriteIdxOffset_def)
qed

lemma header_index_put_index [simp]: "kHeaderSize \<le> length f \<Longrightarrow> header_index (put_index i f) = i"
proof (rule header_index_eq)
  assume len: "kHeaderSize \<le> length f"
  then show "kHeaderSize \<le> length (put_index i f)" by simp
  show "take 8 (drop kWriteIdxOffset (put_index i f)) = le_put_u64 i"
    using read_write_at [of kWriteIdxOffset "le_put_u64 i" f] len
    by (simp add: put_index_def kHeaderSize_def kWriteIdxOffset_def)
qed

section \<open>The class invariant\<close>

text \<open>An open, writable ring: the file is exactly as long as the header says, and the header
  says what the members say.\<close>

definition header_prefix :: "u8 \<Rightarrow> u32 \<Rightarrow> u64 \<Rightarrow> byte list" where
  "header_prefix tier rs cap = take kWriteIdxOffset (fresh_header tier rs cap)"

text \<open>What reading needs, of a ring opened either way.\<close>

definition ring_shape :: "ring_file \<Rightarrow> byte list \<Rightarrow> bool" where
  "ring_shape r f \<longleftrightarrow> rf_open r \<and> rf_record_size r \<noteq> 0 \<and> rf_capacity r \<noteq> 0 \<and>
     length f = kHeaderSize + unat (rf_record_size r) * unat (rf_capacity r) \<and> length f < 2 ^ 63"

definition ring_ok :: "ring_file \<Rightarrow> byte list \<Rightarrow> bool" where
  "ring_ok r f \<longleftrightarrow> rf_open r \<and> \<not> rf_read_only r \<and> rf_mapped r \<and>
     rf_record_size r \<noteq> 0 \<and> rf_capacity r \<noteq> 0 \<and>
     length f = kHeaderSize + unat (rf_record_size r) * unat (rf_capacity r) \<and>
     length f < 2 ^ 63 \<and>
     take kWriteIdxOffset f = header_prefix (rf_tier r) (rf_record_size r) (rf_capacity r) \<and>
     header_index f = rf_widx r \<and> rf_begun r = rf_widx r"

abbreviation rf_rs :: "ring_file \<Rightarrow> nat" where "rf_rs r \<equiv> unat (rf_record_size r)"
abbreviation rf_cap :: "ring_file \<Rightarrow> nat" where "rf_cap r \<equiv> unat (rf_capacity r)"
abbreviation rf_w :: "ring_file \<Rightarrow> nat" where "rf_w r \<equiv> unat (rf_widx r)"

text \<open>The records a ring holds, oldest first.\<close>

definition ring_records :: "ring_file \<Rightarrow> byte list \<Rightarrow> byte list list" where
  "ring_records r f = map (\<lambda>i. slots (rf_rs r) (rf_cap r) f ! (i mod rf_cap r)) (live (rf_cap r) (rf_w r))"

lemma unat_pos [simp]: "w \<noteq> 0 \<Longrightarrow> 0 < unat (w :: 'a::len word)"
  by (simp add: unat_gt_0)

lemma ring_ok_shape: "ring_ok r f \<Longrightarrow> ring_shape r f"
  by (simp add: ring_ok_def ring_shape_def)

lemma ring_ok_len: "ring_ok r f \<Longrightarrow> kHeaderSize \<le> length f"
  by (simp add: ring_ok_def)

text \<open>In a ring of that size the 64-bit offset arithmetic does not wrap round.\<close>

lemma unat_offset:
  fixes s m :: u64
  assumes "64 + unat s * unat m < two64"
  shows "unat (64 + s * m) = 64 + unat s * unat m"
proof -
  have "unat (s * m) = unat s * unat m" using assms by (intro unat_mult_lem [THEN iffD1]) simp
  then show ?thesis using assms by (simp add: unat_word_ariths)
qed

lemma unat_ucast_u32 [simp]: "unat (ucast (v :: u32) :: u64) = unat v"
  by transfer (simp add: take_bit_take_bit min_def nat_eq_iff)

lemma slot_offset_eq:
  assumes "ring_shape r f" and "unat slot < rf_cap r"
  shows "slot_offset r slot = kHeaderSize + unat slot * rf_rs r"
proof -
  have "unat slot * rf_rs r + rf_rs r \<le> rf_rs r * rf_cap r" by (rule slot_end) (rule assms(2))
  then have "64 + unat slot * rf_rs r < two64" using assms(1) by (simp add: ring_shape_def kHeaderSize_def)
  then show ?thesis using unat_offset [of slot "ucast (rf_record_size r)"]
    by (simp add: slot_offset_def kHeaderSize_def)
qed

lemma file_bytes_eq:
  assumes "64 + unat rs * unat cap < two64"
  shows "unat (file_bytes rs cap) = kHeaderSize + unat rs * unat cap"
  using unat_offset [of "ucast rs" cap] assms by (simp add: file_bytes_def kHeaderSize_def)

lemma file_write_inside [simp]:
  "off + length bs \<le> length f \<Longrightarrow> file_write off bs f = write_at off bs f"
  by (auto simp: file_write_def write_at_def)

section \<open>Appending\<close>

lemma unat_mod_cap: "cap \<noteq> 0 \<Longrightarrow> unat ((i :: u64) mod cap) < unat cap"
  by (simp add: unat_mod_distrib)

lemma take_write_after:
  "n \<le> off \<Longrightarrow> off + length bs \<le> length f \<Longrightarrow> take n (write_at off bs f) = take n f"
  by simp

lemma header_index_write_after:
  assumes "kHeaderSize \<le> off" and "off + length bs \<le> length f"
  shows "header_index (write_at off bs f) = header_index f"
  using assms by (simp add: header_index_def)

lemma take_put_index [simp]: "kHeaderSize \<le> length f \<Longrightarrow> take kWriteIdxOffset (put_index i f) = take kWriteIdxOffset f"
  by (simp add: put_index_def kHeaderSize_def kWriteIdxOffset_def)

lemmas ring_io_defs = pwrite_def Let_def

lemma uint_not_short: "n < unat w \<Longrightarrow> int n \<noteq> uint w"
  by (metis less_irrefl nat_int unat_eq_nat_uint)

lemma uint_not_neg: "- 1 \<noteq> uint w"
  using uint_ge_0 [of w] by linarith

text \<open>The slot \<open>append\<close> is about to write, and where it lies.\<close>

abbreviation next_slot :: "ring_file \<Rightarrow> nat" where
  "next_slot r \<equiv> rf_w r mod rf_cap r"

lemma next_slot_offset:
  assumes "ring_ok r f"
  shows "slot_offset r (rf_widx r mod rf_capacity r) = kHeaderSize + next_slot r * rf_rs r"
    and "next_slot r < rf_cap r"
    and "kHeaderSize + next_slot r * rf_rs r + rf_rs r \<le> length f"
proof -
  have cap: "rf_capacity r \<noteq> 0" using assms by (simp add: ring_ok_def)
  show slot: "next_slot r < rf_cap r" using cap by (simp add: unat_gt_0)
  show "slot_offset r (rf_widx r mod rf_capacity r) = kHeaderSize + next_slot r * rf_rs r"
    using slot_offset_eq [OF ring_ok_shape [OF assms] unat_mod_cap [OF cap]] by (simp add: unat_mod_distrib)
  show "kHeaderSize + next_slot r * rf_rs r + rf_rs r \<le> length f"
    using slot_end [OF slot, of "rf_rs r"] assms by (simp add: ring_ok_def)
qed

lemma ring_append_full:
  assumes "ring_ok r f" and "length rec = rf_rs r"
  shows "ring_append r f Full (Some rec) (length rec) =
    (0, r\<lparr>rf_begun := rf_widx r + 1, rf_widx := rf_widx r + 1\<rparr>,
     put_index (rf_widx r + 1) (write_at (kHeaderSize + next_slot r * rf_rs r) rec f))"
proof -
  have "rf_open r" "\<not> rf_read_only r" using assms by (simp_all add: ring_ok_def)
  then show ?thesis
    using assms next_slot_offset [OF assms(1)] by (simp add: ring_append_def ring_io_defs)
qed

lemma ring_append_fail:
  assumes "ring_ok r f" and "length rec = rf_rs r"
  shows "ring_append r f (Fail e) (Some rec) (length rec) = (-3, r\<lparr>rf_last_errno := e\<rparr>, f)"
proof -
  have "rf_open r" "\<not> rf_read_only r" "rf_begun r = rf_widx r" using assms by (simp_all add: ring_ok_def)
  then show ?thesis using assms by (simp add: ring_append_def ring_io_defs uint_not_neg)
qed

lemma ring_append_short:
  assumes "ring_ok r f" and "length rec = rf_rs r" and "n < rf_rs r"
  shows "ring_append r f (Short n) (Some rec) (length rec) =
    (-3, r\<lparr>rf_last_errno := ENOSPC\<rparr>,
     write_at (kHeaderSize + next_slot r * rf_rs r) (take n rec) f)"
proof -
  have ok: "rf_open r" "\<not> rf_read_only r" "rf_begun r = rf_widx r" using assms by (simp_all add: ring_ok_def)
  have "min n (length rec - 1) = n" using assms by simp
  moreover have "file_write (kHeaderSize + next_slot r * rf_rs r) (take n rec) f
      = write_at (kHeaderSize + next_slot r * rf_rs r) (take n rec) f"
    using next_slot_offset(3) [OF assms(1)] assms(2,3) by simp
  ultimately show ?thesis
    using assms ok next_slot_offset(1) [OF assms(1)]
    by (simp add: ring_append_def ring_io_defs uint_not_short)
qed

lemma ring_ok_write:
  assumes ok: "ring_ok r f" and "kHeaderSize \<le> off" and "off + length bs \<le> length f"
  shows "ring_ok r (write_at off bs f)"
  using assms by (simp add: ring_ok_def header_index_write_after kHeaderSize_def kWriteIdxOffset_def)

lemma ring_ok_put_index:
  "ring_ok r f \<Longrightarrow> ring_ok (r\<lparr>rf_begun := i, rf_widx := i\<rparr>) (put_index i f)"
  by (simp add: ring_ok_def)

lemma ring_ok_append:
  assumes "ring_ok r f" and "length rec = rf_rs r"
    and "ring_append r f io (Some rec) (length rec) = (rc, r', f')"
  shows "ring_ok r' f'"
proof (cases io)
  case Full
  have "ring_ok r (write_at (kHeaderSize + next_slot r * rf_rs r) rec f)"
    using assms next_slot_offset [OF assms(1)] by (intro ring_ok_write) auto
  then show ?thesis using ring_append_full [OF assms(1,2)] assms(3) Full
    by (auto dest: ring_ok_put_index)
next
  case (Short n)
  define m where "m = min n (length rec - 1)"
  have pos: "0 < rf_rs r" using assms(1) by (simp add: ring_ok_def)
  have "ring_append r f (Short n) (Some rec) (length rec) = ring_append r f (Short m) (Some rec) (length rec)"
    by (simp add: ring_append_def ring_io_defs m_def)
  also have "\<dots> = (-3, r\<lparr>rf_last_errno := ENOSPC\<rparr>,
      write_at (kHeaderSize + next_slot r * rf_rs r) (take m rec) f)"
    using assms pos by (intro ring_append_short) (auto simp: m_def)
  finally have "r' = r\<lparr>rf_last_errno := ENOSPC\<rparr>"
    "f' = write_at (kHeaderSize + next_slot r * rf_rs r) (take m rec) f"
    using assms(3) Short by simp_all
  moreover have "ring_ok r (write_at (kHeaderSize + next_slot r * rf_rs r) (take m rec) f)"
    using assms next_slot_offset(3) [OF assms(1)] by (intro ring_ok_write) auto
  ultimately show ?thesis by (simp add: ring_ok_def)
next
  case (Fail e)
  then show ?thesis using assms ring_append_fail [OF assms(1,2), of e] by (auto simp: ring_ok_def)
qed

section \<open>What the ring holds\<close>

lemma unat_Suc: "unat i + 1 < two64 \<Longrightarrow> unat ((i :: u64) + 1) = Suc (unat i)"
  by (simp add: unat_word_ariths)

lemma ring_records_cong:
  "rf_record_size r' = rf_record_size r \<Longrightarrow> rf_capacity r' = rf_capacity r \<Longrightarrow> rf_widx r' = rf_widx r \<Longrightarrow>
   ring_records r' f = ring_records r f"
  by (simp add: ring_records_def)

lemma ring_records_append:
  assumes "ring_ok r f" and "length rec = rf_rs r" and "rf_w r + 1 < two64"
    and "ring_append r f Full (Some rec) (length rec) = (rc, r', f')"
  shows "ring_records r' f' = last_n (rf_cap r) (ring_records r f @ [rec])"
proof -
  let ?g = "write_at (kHeaderSize + next_slot r * rf_rs r) rec f"
  have r': "r' = r\<lparr>rf_begun := rf_widx r + 1, rf_widx := rf_widx r + 1\<rparr>"
    and f': "f' = put_index (rf_widx r + 1) ?g"
    using assms(4) ring_append_full [OF assms(1,2)] by simp_all
  have len: "kHeaderSize \<le> length ?g"
    using next_slot_offset(3) [OF assms(1)] ring_ok_len [OF assms(1)] assms(2) by simp
  have "slots (rf_rs r) (rf_cap r) f' = (slots (rf_rs r) (rf_cap r) f)[next_slot r := rec]"
    using assms(1,2) next_slot_offset(2) [OF assms(1)]
    unfolding f' slots_put_index [OF len] by (intro slots_write) (simp_all add: ring_ok_def)
  moreover have "0 < rf_cap r" using assms(1) by (simp add: ring_ok_def)
  ultimately show ?thesis
    using live_window_push [of "rf_cap r" "slots (rf_rs r) (rf_cap r) f" "rf_w r" rec] assms(3)
    by (simp add: ring_records_def r' unat_Suc)
qed

lemma length_ring_records: "length (ring_records r f) = min (rf_w r) (rf_cap r)"
  by (simp add: ring_records_def)

text \<open>The ring as a bounded log of records: the state is the handle and its file.\<close>

definition ring_push :: "ring_file \<times> byte list \<Rightarrow> byte list \<Rightarrow> ring_file \<times> byte list" where
  "ring_push = (\<lambda>(r, f) rec. snd (ring_append r f Full (Some rec) (length rec)))"

definition ring_accepts :: "ring_file \<times> byte list \<Rightarrow> byte list \<Rightarrow> bool" where
  "ring_accepts = (\<lambda>(r, f) rec. length rec = rf_rs r \<and> rf_w r + 1 < two64)"

interpretation ring_log: bounded_log ring_push "\<lambda>(r, f). ring_records r f" "\<lambda>(r, f). rf_cap r"
  ring_accepts "\<lambda>(r, f). ring_ok r f"
proof unfold_locales
  fix b x
  assume "case b of (r, f) \<Rightarrow> ring_ok r f" and "ring_accepts b x"
  then obtain r f where b: "b = (r, f)" and ok: "ring_ok r f" "length x = rf_rs r" "rf_w r + 1 < two64"
    by (cases b) (auto simp: ring_accepts_def)
  obtain rc r' f' where app: "ring_append r f Full (Some x) (length x) = (rc, r', f')"
    by (metis prod_cases3)
  note push = b app ring_push_def
  show "case ring_push b x of (r, f) \<Rightarrow> ring_ok r f"
    using ring_ok_append [OF ok(1,2) app] by (simp add: push)
  show "(case ring_push b x of (r, f) \<Rightarrow> rf_cap r) = (case b of (r, f) \<Rightarrow> rf_cap r)"
    using ring_append_full [OF ok(1,2)] app by (simp add: push)
  show "(case ring_push b x of (r, f) \<Rightarrow> ring_records r f)
      = last_n (case b of (r, f) \<Rightarrow> rf_cap r) ((case b of (r, f) \<Rightarrow> ring_records r f) @ [x])"
    using ring_records_append [OF ok app] by (simp add: push)
qed (auto simp: ring_ok_def length_ring_records)

section \<open>Opening an existing ring\<close>

lemma length_fresh_header [simp]: "length (fresh_header tier rs cap) = kHeaderSize"
  by (simp add: fresh_header_def kMagicBytes_def kHeaderSize_def)

lemma header_prefix_eq:
  "header_prefix tier rs cap =
     kMagicBytes @ le_put_u32 kFormatVersion @ [tier] @ replicate 3 0 @ le_put_u32 rs @ le_put_u64 cap"
  by (simp add: header_prefix_def fresh_header_def kWriteIdxOffset_def kMagicBytes_def)

text \<open>The fields of a header, wherever the bytes after them come from.\<close>

lemma header_fields:
  assumes "take kWriteIdxOffset h = header_prefix tier rs cap"
  shows "take 8 h = kMagicBytes" "le_get_u32 (drop 8 h) = Some kFormatVersion" "h ! 12 = tier"
    "le_get_u32 (drop 16 h) = Some rs" "le_get_u64 (drop 20 h) = Some cap"
proof -
  obtain rest where h: "h = header_prefix tier rs cap @ rest"
    using assms by (metis append_take_drop_id)
  have len: "length kMagicBytes = 8" by (simp add: kMagicBytes_def)
  show "take 8 h = kMagicBytes" "le_get_u32 (drop 8 h) = Some kFormatVersion" "h ! 12 = tier"
    "le_get_u32 (drop 16 h) = Some rs" "le_get_u64 (drop 20 h) = Some cap"
    unfolding h header_prefix_eq by (simp_all add: len nth_append get_put)
qed

lemma check_header_iff:
  assumes "take kWriteIdxOffset h = header_prefix tier rs cap"
  shows "check_header h tier' rs' cap' = 0 \<longleftrightarrow> tier' = tier \<and> rs' = rs \<and> cap' = cap"
  using header_fields [OF assms] by (auto simp: check_header_def)

lemma header_not_blank:
  assumes "take kWriteIdxOffset h = header_prefix tier rs cap"
  shows "\<not> blank_header h"
proof
  assume "blank_header h"
  then have "list_all (\<lambda>b. b = 0) (take 8 h)" by (auto simp: blank_header_def list_all_iff dest: in_set_takeD)
  then show False using header_fields(1) [OF assms] by (simp add: kMagicBytes_def)
qed

lemma take_mapped_prefix:
  "kHeaderSize \<le> length f \<Longrightarrow> take kWriteIdxOffset (mapped kHeaderSize f) = take kWriteIdxOffset f"
  by (simp add: kHeaderSize_def kWriteIdxOffset_def)

lemma pread_header:
  "kHeaderSize \<le> length f \<Longrightarrow> pread None kHeaderSize 0 f = (int kHeaderSize, take kHeaderSize f)"
  by (simp add: pread_def)

lemma header_is_blank_prefix:
  assumes "kHeaderSize \<le> length f" and "take kWriteIdxOffset f = header_prefix tier rs cap"
  shows "\<not> header_is_blank io f"
proof (cases io)
  case None
  have "take kWriteIdxOffset (take kHeaderSize f) = header_prefix tier rs cap"
    using assms by (simp add: kHeaderSize_def kWriteIdxOffset_def)
  then show ?thesis using assms None header_not_blank by (auto simp: header_is_blank_def pread_header)
qed (simp add: header_is_blank_def pread_def kHeaderSize_def)

text \<open>A file that carries a ring's header is mapped and checked, never rewritten.\<close>

lemma open_impl_existing:
  assumes "\<not> rf_open r" and "rs \<noteq> 0" and "cap \<noteq> 0"
    and "kHeaderSize \<le> length f" and "take kWriteIdxOffset f = header_prefix tier0 rs0 cap0"
    and "io_open io = None" and "io_fstat io = None"
    and "of_nat (length f) = file_bytes rs cap"
  shows "open_impl r (Some f) io tier rs cap ro = open_mapped (r\<lparr>rf_last_errno := 0\<rparr>) f io tier rs cap ro False"
proof -
  have "f \<noteq> []" using assms(4) by (auto simp: kHeaderSize_def)
  then show ?thesis
    using assms header_is_blank_prefix [OF assms(4,5)] by (simp add: open_impl_def Let_def)
qed

lemma open_impl_existing_file:
  assumes "kHeaderSize \<le> length f" and "take kWriteIdxOffset f = header_prefix tier0 rs0 cap0"
  shows "snd (snd (open_impl r (Some f) io tier rs cap ro)) = Some f"
proof -
  have "f \<noteq> []" using assms(1) by (auto simp: kHeaderSize_def)
  moreover have "snd (snd (open_mapped r' f io tier rs cap ro False)) = Some f" for r'
    by (simp add: open_mapped_def Let_def split: option.split)
  ultimately show ?thesis
    using header_is_blank_prefix [OF assms, of "io_pread io"]
    by (simp add: open_impl_def Let_def split: option.split)
qed

lemma ring_ok_file_bytes: "ring_ok r f \<Longrightarrow> of_nat (length f) = file_bytes (rf_record_size r) (rf_capacity r)"
  by (simp add: ring_ok_def file_bytes_def)

lemma ring_reopen:
  assumes "ring_ok r f" and "\<not> rf_open q"
  shows "ring_open q (Some f) open_io_ok (rf_tier r) (rf_record_size r) (rf_capacity r) =
    (0, r\<lparr>rf_last_errno := 0, rf_reads := rf_reads q\<rparr>, Some f)"
proof -
  have ok: "rf_record_size r \<noteq> 0" "rf_capacity r \<noteq> 0" "kHeaderSize \<le> length f"
    "take kWriteIdxOffset f = header_prefix (rf_tier r) (rf_record_size r) (rf_capacity r)"
    "header_index f = rf_widx r" "rf_begun r = rf_widx r" "rf_open r" "\<not> rf_read_only r" "rf_mapped r"
    using assms by (simp_all add: ring_ok_def)
  have c: "check_header (mapped kHeaderSize f) (rf_tier r) (rf_record_size r) (rf_capacity r) = 0"
    using ok(3,4) check_header_iff take_mapped_prefix by metis
  have "ring_open q (Some f) open_io_ok (rf_tier r) (rf_record_size r) (rf_capacity r)
      = open_mapped (q\<lparr>rf_last_errno := 0\<rparr>) f open_io_ok (rf_tier r) (rf_record_size r) (rf_capacity r) False False"
    unfolding ring_open_def using ok assms(2) ring_ok_file_bytes [OF assms(1)]
    by (intro open_impl_existing) (simp_all add: open_io_ok_def)
  then show ?thesis using ok c by (simp add: open_mapped_def Let_def open_io_ok_def)
qed

lemma ring_open_other:
  assumes "ring_ok r f" and "\<not> rf_open q"
    and "(tier, rs, cap) \<noteq> (rf_tier r, rf_record_size r, rf_capacity r)"
  shows "fst (open_impl q (Some f) io tier rs cap ro) \<noteq> 0"
proof -
  have f: "kHeaderSize \<le> length f"
    "take kWriteIdxOffset f = header_prefix (rf_tier r) (rf_record_size r) (rf_capacity r)" "f \<noteq> []"
    using assms by (auto simp: ring_ok_def kHeaderSize_def)
  have "fst (open_mapped q' f io tier rs cap ro False) \<noteq> 0" for q'
  proof -
    have "check_header (mapped kHeaderSize f) tier rs cap \<noteq> 0"
      using f assms(3) check_header_iff take_mapped_prefix by metis
    then show ?thesis by (simp add: open_mapped_def Let_def split: option.split)
  qed
  then show ?thesis
    using f(3) header_is_blank_prefix [OF f(1,2), of "io_pread io"] assms(2)
    by (simp add: open_impl_def Let_def split: option.split)
qed

section \<open>Making a ring\<close>

lemma header_index_fresh:
  assumes "take kHeaderSize f = fresh_header tier rs cap"
  shows "header_index f = 0" and "take kWriteIdxOffset f = header_prefix tier rs cap"
    and "kHeaderSize \<le> length f"
proof -
  show len: "kHeaderSize \<le> length f" using arg_cong [OF assms, of length] by (simp add: min_def split: if_splits)
  have "take 8 (drop kWriteIdxOffset (take kHeaderSize f)) = le_put_u64 0"
    by (simp add: assms fresh_header_def kWriteIdxOffset_def kMagicBytes_def)
  then show "header_index f = 0"
    by (intro header_index_eq [OF len]) (simp add: drop_take kHeaderSize_def kWriteIdxOffset_def)
  have "take kWriteIdxOffset f = take kWriteIdxOffset (take kHeaderSize f)"
    by (simp add: kHeaderSize_def kWriteIdxOffset_def)
  then show "take kWriteIdxOffset f = header_prefix tier rs cap" by (simp add: assms header_prefix_def)
qed

text \<open>The header written into a file of the right size gives an empty ring.\<close>

lemma open_fresh_ok:
  assumes "io_pwrite io = Full" and "io_mmap io = None" and "rs \<noteq> 0" and "cap \<noteq> 0"
    and "length f = kHeaderSize + unat rs * unat cap" and "length f < 2 ^ 63"
  shows "\<exists>r' f'. open_fresh r f io tier rs cap False = (0, r', Some f') \<and> ring_ok r' f'
    \<and> rf_tier r' = tier \<and> rf_record_size r' = rs \<and> rf_capacity r' = cap \<and> rf_widx r' = 0
    \<and> drop kHeaderSize f' = drop kHeaderSize f"
proof -
  define f' where "f' = write_at 0 (fresh_header tier rs cap) f"
  define r' where "r' = r\<lparr>rf_open := True, rf_read_only := False, rf_tier := tier, rf_mapped := True,
     rf_record_size := rs, rf_capacity := cap, rf_widx := 0, rf_begun := 0\<rparr>"
  have hd: "take kHeaderSize f' = fresh_header tier rs cap" by (simp add: f'_def write_at_def)
  have len: "length f' = length f" using assms(5) by (simp add: f'_def)
  have "open_fresh r f io tier rs cap False = (0, r', Some f')"
    using assms header_index_fresh [OF hd]
    by (simp add: open_fresh_def pwrite_def open_mapped_def Let_def flip: f'_def) (simp add: r'_def)
  moreover have "ring_ok r' f'"
    using assms header_index_fresh [OF hd] len by (simp add: ring_ok_def r'_def)
  moreover have "drop kHeaderSize f' = drop kHeaderSize f" by (simp add: f'_def write_at_def)
  ultimately show ?thesis by (auto simp: r'_def)
qed

lemma file_bytes_small:
  assumes "kHeaderSize + unat rs * unat cap < 2 ^ 63"
  shows "unat (file_bytes rs cap) = kHeaderSize + unat rs * unat cap" "\<not> bit (file_bytes rs cap) 63"
proof -
  show eq: "unat (file_bytes rs cap) = kHeaderSize + unat rs * unat cap"
    using assms by (intro file_bytes_eq) (simp add: kHeaderSize_def)
  show "\<not> bit (file_bytes rs cap) 63"
  proof
    assume "bit (file_bytes rs cap) 63"
    then have "bit (unat (file_bytes rs cap)) 63" by (simp add: bit_simps)
    then have "2 ^ 63 \<le> unat (file_bytes rs cap)" by (metis bit_take_bit_iff less_irrefl not_le take_bit_nat_eq_self)
    then show False using eq assms by simp
  qed
qed

lemma ring_create:
  assumes "\<not> rf_open q" and "rs \<noteq> 0" and "cap \<noteq> 0" and "fs = None \<or> fs = Some []"
    and "kHeaderSize + unat rs * unat cap < 2 ^ 63"
  shows "\<exists>r f. ring_open q fs open_io_ok tier rs cap = (0, r, Some f) \<and> ring_ok r f
    \<and> rf_tier r = tier \<and> rf_record_size r = rs \<and> rf_capacity r = cap \<and> rf_widx r = 0
    \<and> drop kHeaderSize f = replicate (unat rs * unat cap) 0"
proof -
  let ?z = "replicate (kHeaderSize + unat rs * unat cap) 0"
  have "ring_open q fs open_io_ok tier rs cap
      = open_fresh (q\<lparr>rf_last_errno := 0\<rparr>) ?z open_io_ok tier rs cap False"
    using assms file_bytes_small [OF assms(5)]
    by (auto simp: ring_open_def open_impl_def Let_def ftruncate_def open_io_ok_def)
  moreover have "io_pwrite open_io_ok = Full" "io_mmap open_io_ok = None" by (simp_all add: open_io_ok_def)
  ultimately show ?thesis
    using open_fresh_ok [of open_io_ok rs cap ?z "q\<lparr>rf_last_errno := 0\<rparr>" tier] assms by auto
qed

text \<open>A file the right size with a blank header is made anew; its records stay in their slots.\<close>

lemma ring_create_blank:
  assumes "\<not> rf_open q" and "rs \<noteq> 0" and "cap \<noteq> 0"
    and "length f = kHeaderSize + unat rs * unat cap" and "length f < 2 ^ 63"
    and "blank_header (take kHeaderSize f)"
  shows "\<exists>r f'. ring_open q (Some f) open_io_ok tier rs cap = (0, r, Some f') \<and> ring_ok r f'
    \<and> rf_widx r = 0 \<and> drop kHeaderSize f' = drop kHeaderSize f"
proof -
  have "f \<noteq> []" using assms(4) by (auto simp: kHeaderSize_def)
  moreover have "of_nat (length f) = file_bytes rs cap"
    using assms(4) by (simp add: file_bytes_def)
  moreover have "header_is_blank None f" using assms by (simp add: header_is_blank_def pread_header)
  ultimately have "ring_open q (Some f) open_io_ok tier rs cap
      = open_fresh (q\<lparr>rf_last_errno := 0\<rparr>) f open_io_ok tier rs cap False"
    using assms by (simp add: ring_open_def open_impl_def Let_def open_io_ok_def)
  moreover have "io_pwrite open_io_ok = Full" "io_mmap open_io_ok = None" by (simp_all add: open_io_ok_def)
  ultimately show ?thesis
    using open_fresh_ok [of open_io_ok rs cap f "q\<lparr>rf_last_errno := 0\<rparr>" tier] assms by auto
qed

text \<open>A header that cannot be written leaves an empty file, which the next start makes anew.\<close>

lemma open_fresh_failed:
  assumes "io_pwrite io \<noteq> Full" and "io_undo io = None"
  shows "\<exists>r'. open_fresh r f io tier rs cap ro = (-14, r', Some []) \<and> rf_open r' = rf_open r"
proof (cases "io_pwrite io")
  case (Short n)
  have "min n (kHeaderSize - 1) < kHeaderSize" by (simp add: kHeaderSize_def)
  then have "int (min n (kHeaderSize - 1)) \<noteq> int kHeaderSize" by linarith
  then show ?thesis using Short assms(2) by (simp add: open_fresh_def pwrite_def ftruncate_def)
qed (use assms in \<open>simp_all add: open_fresh_def pwrite_def ftruncate_def kHeaderSize_def\<close>)

section \<open>Reading a slot and the index\<close>

lemma length_slot_bytes:
  assumes "k < cap" and "length f = kHeaderSize + rs * cap"
  shows "length (slot_bytes rs f k) = rs"
  using assms slot_end [of k cap rs] by (simp add: slot_bytes_def)

lemma read_at_ok:
  assumes "ring_shape r f" and "i < rf_capacity r" and "length out = rf_rs r"
  shows "read_at r f None i (Some out) (rf_rs r) =
    (0, r\<lparr>rf_reads := rf_reads r + 1\<rparr>, Some (slot_bytes (rf_rs r) f (unat i)))"
proof -
  have i: "unat i < rf_cap r" using assms(2) by (simp add: word_less_nat_alt)
  have len: "length (slot_bytes (rf_rs r) f (unat i)) = rf_rs r"
    using i assms(1) by (intro length_slot_bytes [where cap = "rf_cap r"]) (simp_all add: ring_shape_def)
  have "pread None (rf_rs r) (slot_offset r i) f = (int (rf_rs r), slot_bytes (rf_rs r) f (unat i))"
    using len slot_offset_eq [OF assms(1) i] by (simp add: pread_def slot_bytes_def)
  moreover have "slot_offset (r\<lparr>rf_reads := rf_reads r + 1\<rparr>) i = slot_offset r i" by (simp add: slot_offset_def)
  moreover have "write_at 0 (slot_bytes (rf_rs r) f (unat i)) out = slot_bytes (rf_rs r) f (unat i)"
    using len assms(3) by (simp add: write_at_def)
  moreover have "rf_open r" using assms(1) by (simp add: ring_shape_def)
  ultimately show ?thesis using assms(2) by (simp add: read_at_def Let_def)
qed

lemma ring_count_eq: "ring_ok r f \<Longrightarrow> unat (ring_count r f) = length (ring_records r f)"
  by (auto simp: ring_count_def write_index_def ring_ok_def length_ring_records Let_def
      word_less_nat_alt min_def)

lemma ring_ok_advance:
  "ring_ok r f \<Longrightarrow> advance_write_index r f n =
     (0, r\<lparr>rf_begun := rf_widx r + n, rf_widx := rf_widx r + n\<rparr>, put_index (rf_widx r + n) f)"
  by (simp add: advance_write_index_def Let_def ring_ok_def)

lemma ring_ok_advance_ok:
  "ring_ok r f \<Longrightarrow> advance_write_index r f n = (rc, r', f') \<Longrightarrow> ring_ok r' f'"
  using ring_ok_put_index [of r f "rf_widx r + n"] by (simp add: ring_ok_advance)

section \<open>The header as other programs see it\<close>

lemma parse_header_prefix:
  assumes "kHeaderSize \<le> length f" and "take kWriteIdxOffset f = header_prefix tier rs cap"
  shows "parse_header (take kHeaderSize f) = \<lparr>rh_tier = tier, rh_record_size = rs, rh_capacity = cap,
    rh_write_idx = header_index f\<rparr>"
proof -
  have "take kWriteIdxOffset (take kHeaderSize f) = header_prefix tier rs cap"
    using assms by (simp add: kHeaderSize_def kWriteIdxOffset_def)
  then show ?thesis using header_fields [of "take kHeaderSize f"] assms(1)
    by (simp add: parse_header_def header_index_def val_u32_def val_u64_def)
qed

lemma header_fits_iff:
  assumes "kHeaderSize \<le> n" and "n < 2 ^ 63"
  shows "header_fits h n \<longleftrightarrow> rh_record_size h \<noteq> 0 \<and> rh_capacity h \<noteq> 0 \<and>
    n = kHeaderSize + unat (rh_record_size h) * unat (rh_capacity h)"
proof (cases "rh_record_size h = 0 \<or> rh_capacity h = 0")
  case False
  let ?rs = "unat (rh_record_size h)" and ?cap = "unat (rh_capacity h)"
  have pos: "0 < ?rs" using False by simp
  have n: "unat (of_nat n :: u64) = n" using assms(2) by (simp add: unat_of_nat take_bit_nat_eq_self)
  have "unat ((of_nat n - of_nat kHeaderSize) div ucast (rh_record_size h) :: u64) = (n - 64) div ?rs"
    using assms n by (simp add: unat_div_distrib kHeaderSize_def unat_sub word_le_nat_alt)
  then have le: "rh_capacity h > (of_nat n - of_nat kHeaderSize) div ucast (rh_record_size h)
      \<longleftrightarrow> (n - 64) div ?rs < ?cap"
    by (simp only: word_less_nat_alt)
  have eq: "(of_nat n :: u64) = of_nat kHeaderSize + ucast (rh_record_size h) * rh_capacity h
      \<longleftrightarrow> n = 64 + ?rs * ?cap" if "?cap \<le> (n - 64) div ?rs"
  proof -
    have "?rs * ?cap \<le> n - 64" using that pos by (metis div_times_less_eq_dividend le_trans mult.commute mult_le_mono2)
    then have "64 + ?rs * ?cap < two64" using assms by (simp add: kHeaderSize_def)
    then have "unat (of_nat kHeaderSize + ucast (rh_record_size h) * rh_capacity h :: u64) = 64 + ?rs * ?cap"
      using unat_offset [of "ucast (rh_record_size h)" "rh_capacity h"] by (simp add: kHeaderSize_def)
    then show ?thesis using n by (metis word_unat_eq_iff)
  qed
  have exact: "?cap \<le> (n - 64) div ?rs" if "n = 64 + ?rs * ?cap" using that pos by simp
  show ?thesis using False le eq exact unfolding header_fits_def kHeaderSize_def by (metis not_le)
qed (auto simp: header_fits_def)

lemma read_header_ring:
  assumes "ring_ok r f"
  shows "read_header (Some f) open_io_ok out = (0, \<lparr>rh_tier = rf_tier r,
     rh_record_size = rf_record_size r, rh_capacity = rf_capacity r, rh_write_idx = rf_widx r\<rparr>, 0)"
proof -
  have f: "kHeaderSize \<le> length f" "f \<noteq> []" "length f < 2 ^ 63"
    "take kWriteIdxOffset f = header_prefix (rf_tier r) (rf_record_size r) (rf_capacity r)"
    "header_index f = rf_widx r"
    using assms by (auto simp: ring_ok_def kHeaderSize_def)
  have h: "take kWriteIdxOffset (take kHeaderSize f) = header_prefix (rf_tier r) (rf_record_size r) (rf_capacity r)"
    using f by (simp add: kHeaderSize_def kWriteIdxOffset_def)
  have "header_fits (parse_header (take kHeaderSize f)) (length f)"
    using assms f by (simp add: header_fits_iff parse_header_prefix ring_ok_def)
  then show ?thesis
    using f header_fields(1,2) [OF h] header_not_blank [OF h]
    by (simp add: read_header_def open_io_ok_def pread_header parse_header_prefix)
qed

section \<open>Properties\<close>

lemma ring_accepts_all:
  "ring_ok r f \<Longrightarrow> \<forall>x \<in> set recs. length x = rf_rs r \<Longrightarrow> rf_w r + length recs < two64 \<Longrightarrow>
   admissible ring_accepts ring_push (r, f) recs"
proof (induction recs arbitrary: r f)
  case (Cons x recs)
  let ?r = "r\<lparr>rf_begun := rf_widx r + 1, rf_widx := rf_widx r + 1\<rparr>"
  obtain g where app: "ring_append r f Full (Some x) (length x) = (0, ?r, g)"
    using ring_append_full [of r f x] Cons.prems by simp
  have "ring_ok ?r g" using ring_ok_append [OF _ _ app] Cons.prems by simp
  then show ?case using Cons.IH [of ?r g] Cons.prems app by (simp add: ring_accepts_def ring_push_def unat_Suc)
qed simp

text \<open>C3: A ring created at a path with no file (or an empty one), and then appended to any number of
  times, holds exactly the newest \<open>capacity\<close> records appended, oldest first.\<close>

theorem ring_keeps_newest:
  assumes "rs \<noteq> 0" and "cap \<noteq> 0" and "kHeaderSize + unat rs * unat cap < 2 ^ 63"
    and "\<forall>x \<in> set recs. length x = unat rs" and "length recs < two64"
  shows "\<exists>r f r' f'. ring_open ring_file_new None open_io_ok tier rs cap = (0, r, Some f) \<and>
    foldl ring_push (r, f) recs = (r', f') \<and> ring_ok r' f' \<and>
    ring_records r' f' = last_n (unat cap) recs"
proof -
  obtain r f where o: "ring_open ring_file_new None open_io_ok tier rs cap = (0, r, Some f)"
    and r: "ring_ok r f" "rf_record_size r = rs" "rf_capacity r = cap" "rf_widx r = 0"
    using ring_create [of ring_file_new rs cap None tier] assms(1-3) by (auto simp: ring_file_new_def)
  have adm: "admissible ring_accepts ring_push (r, f) recs" using r assms(4,5) by (intro ring_accepts_all) auto
  obtain r' f' where fold: "foldl ring_push (r, f) recs = (r', f')" by (metis surj_pair)
  have "ring_records r f = []" using r(4) by (simp add: ring_records_def)
  then show ?thesis
    using o r adm fold ring_log.run_entries [of "(r, f)" recs] ring_log.run_inv [of "(r, f)" recs] by simp
qed

theorem ring_keeps_newest_witness:
  "\<exists>r f r' f'. ring_open ring_file_new None open_io_ok 1 2 2 = (0, r, Some f) \<and>
    foldl ring_push (r, f) [[1, 1], [2, 2], [3, 3]] = (r', f') \<and> ring_ok r' f' \<and>
    ring_records r' f' = [[2, 2], [3, 3]]"
  using ring_keeps_newest [of 2 2 "[[1, 1], [2, 2], [3, 3]]" 1] by (simp add: kHeaderSize_def last_n_def)

text \<open>A ring just made, for the witnesses: tier 1, records of the current format, two of them.\<close>

definition demo_ring :: ring_file where
  "demo_ring = fst (snd (ring_open ring_file_new None open_io_ok 1 542 2))"

definition demo_file :: "byte list" where
  "demo_file = the (snd (snd (ring_open ring_file_new None open_io_ok 1 542 2)))"

lemma demo_ring_ok:
  "ring_ok demo_ring demo_file" "rf_tier demo_ring = 1" "rf_record_size demo_ring = 542"
  "rf_capacity demo_ring = 2" "rf_widx demo_ring = 0" "drop kHeaderSize demo_file = replicate 1084 0"
  using ring_create [of ring_file_new 542 2 None 1]
  by (auto simp: demo_ring_def demo_file_def ring_file_new_def kHeaderSize_def)

text \<open>Closing a ring and opening it again with the same tier, record size and capacity succeeds,
  leaves the file as it is and gives the same records, count and write index.\<close>

theorem ring_survives_reopen:
  assumes "ring_ok r f"
  shows "\<exists>r'. ring_open (ring_close r) (Some f) open_io_ok (rf_tier r) (rf_record_size r) (rf_capacity r)
      = (0, r', Some f) \<and> ring_ok r' f \<and> ring_records r' f = ring_records r f \<and>
    ring_count r' f = ring_count r f \<and> write_index r' f = write_index r f"
  using ring_reopen [OF assms, of "ring_close r"] assms
  by (simp add: ring_close_def ring_ok_def ring_records_def ring_count_def write_index_def Let_def)

theorem ring_survives_reopen_witness:
  "\<exists>r'. ring_open (ring_close demo_ring) (Some demo_file) open_io_ok 1 542 2 = (0, r', Some demo_file) \<and>
    ring_records r' demo_file = ring_records demo_ring demo_file"
  using ring_survives_reopen [OF demo_ring_ok(1)] demo_ring_ok by auto

text \<open>Opening an existing ring's file as another ring (another tier, record size or capacity),
  for writing or for reading, is refused and the file is left byte for byte as it was, whatever the
  system calls answer.\<close>

theorem ring_open_foreign:
  assumes "ring_ok r f" and "\<not> rf_open q"
    and "(tier, rs, cap) \<noteq> (rf_tier r, rf_record_size r, rf_capacity r)"
  shows "fst (open_impl q (Some f) io tier rs cap ro) \<noteq> 0 \<and>
    snd (snd (open_impl q (Some f) io tier rs cap ro)) = Some f"
proof -
  have "kHeaderSize \<le> length f"
    "take kWriteIdxOffset f = header_prefix (rf_tier r) (rf_record_size r) (rf_capacity r)"
    using assms(1) by (simp_all add: ring_ok_def)
  then show ?thesis using open_impl_existing_file ring_open_other [OF assms] by blast
qed

theorem ring_open_foreign_witness:
  "fst (open_impl ring_file_new (Some demo_file) open_io_ok 2 542 2 False) \<noteq> 0 \<and>
   snd (snd (open_impl ring_file_new (Some demo_file) open_io_ok 2 542 2 False)) = Some demo_file"
  by (rule ring_open_foreign [OF demo_ring_ok(1)]) (simp_all add: ring_file_new_def demo_ring_ok)

text \<open>C38: An append whose write fails or is cut short returns -3, counts nothing, keeps the class
  invariant and leaves every slot but the one being written as it was; a write that failed outright
  leaves the file untouched.\<close>

theorem ring_append_failure:
  assumes "ring_ok r f" and "length rec = rf_rs r" and "io \<noteq> Full"
  shows "\<exists>r' f'. ring_append r f io (Some rec) (length rec) = (-3, r', f') \<and> ring_ok r' f' \<and>
    rf_widx r' = rf_widx r \<and> rf_last_errno r' = (case io of Fail e \<Rightarrow> e | _ \<Rightarrow> ENOSPC) \<and>
    (\<forall>e. io = Fail e \<longrightarrow> f' = f) \<and>
    (\<forall>k < rf_cap r. k \<noteq> next_slot r \<longrightarrow> slot_bytes (rf_rs r) f' k = slot_bytes (rf_rs r) f k)"
proof (cases io)
  case (Short n)
  have pos: "0 < rf_rs r" using assms(1) by (simp add: ring_ok_def)
  define m where "m = min n (length rec - 1)"
  have "ring_append r f io (Some rec) (length rec) = ring_append r f (Short m) (Some rec) (length rec)"
    by (simp add: ring_append_def ring_io_defs m_def Short)
  then have app: "ring_append r f io (Some rec) (length rec) = (-3, r\<lparr>rf_last_errno := ENOSPC\<rparr>,
      write_at (kHeaderSize + next_slot r * rf_rs r) (take m rec) f)"
    using ring_append_short [OF assms(1,2), of m] assms(2) pos by (simp add: m_def)
  moreover have "slot_bytes (rf_rs r) (write_at (kHeaderSize + next_slot r * rf_rs r) (take m rec) f) k
      = slot_bytes (rf_rs r) f k" if "k < rf_cap r" "k \<noteq> next_slot r" for k
    using that assms(1,2) next_slot_offset(2) [OF assms(1)]
    by (intro slot_write_other [where cap = "rf_cap r"]) (simp_all add: ring_ok_def)
  ultimately show ?thesis using ring_ok_append [OF assms(1,2) app] Short by simp
next
  case (Fail e)
  then show ?thesis using ring_append_fail [OF assms(1,2), of e] ring_ok_append [OF assms(1,2)] by simp
qed (use assms(3) in simp)

theorem ring_append_failure_witness:
  "\<exists>r' f'. ring_append demo_ring demo_file (Short 3) (Some (replicate 542 1)) 542 = (-3, r', f') \<and>
    ring_ok r' f' \<and> rf_widx r' = 0 \<and> rf_last_errno r' = ENOSPC"
  using ring_append_failure [OF demo_ring_ok(1), of "replicate 542 1" "Short 3"] by (auto simp: demo_ring_ok)

text \<open>A new ring whose header cannot be written whole leaves an empty file and a closed handle,
  and the next open at that path makes the ring.\<close>

theorem ring_create_retries:
  assumes "rs \<noteq> 0" and "cap \<noteq> 0" and "kHeaderSize + unat rs * unat cap < 2 ^ 63" and "bad \<noteq> Full"
  shows "\<exists>r r' f'. ring_open ring_file_new None (open_io_ok\<lparr>io_pwrite := bad\<rparr>) tier rs cap = (-14, r, Some []) \<and>
    \<not> rf_open r \<and> ring_open r (Some []) open_io_ok tier rs cap = (0, r', Some f') \<and> ring_ok r' f' \<and>
    ring_records r' f' = []"
proof -
  let ?io = "open_io_ok\<lparr>io_pwrite := bad\<rparr>"
  let ?z = "replicate (kHeaderSize + unat rs * unat cap) 0 :: byte list"
  have "ring_open ring_file_new None ?io tier rs cap
      = open_fresh (ring_file_new\<lparr>rf_last_errno := 0\<rparr>) ?z ?io tier rs cap False"
    using assms file_bytes_small [OF assms(3)]
    by (simp add: ring_open_def open_impl_def Let_def ftruncate_def open_io_ok_def ring_file_new_def)
  then obtain r where r: "ring_open ring_file_new None ?io tier rs cap = (-14, r, Some [])" "\<not> rf_open r"
    using open_fresh_failed [of ?io "ring_file_new\<lparr>rf_last_errno := 0\<rparr>" ?z tier rs cap False] assms(4)
    by (auto simp: open_io_ok_def ring_file_new_def)
  then show ?thesis using ring_create [OF r(2) assms(1,2) _ assms(3), of "Some []" tier]
    by (auto simp: ring_records_def)
qed

theorem ring_create_retries_witness:
  "\<exists>r r' f'. ring_open ring_file_new None (open_io_ok\<lparr>io_pwrite := Short 10\<rparr>) 1 542 2 = (-14, r, Some []) \<and>
    \<not> rf_open r \<and> ring_open r (Some []) open_io_ok 1 542 2 = (0, r', Some f') \<and> ring_ok r' f' \<and>
    ring_records r' f' = []"
  by (rule ring_create_retries) (simp_all add: kHeaderSize_def)

end
