(* ===== verification/Ring_Check.thy ===== *)
theory Ring_Check
  imports Ring_File
begin

text \<open>
  Checking, repairing and converting rings (\<open>src/storage/ring_check.h\<close>,
  \<open>src/storage/ring_check.cpp\<close>): which level a ring may hold, the records a crash left written but
  not counted, the rewrite of a ring of an older format, and \<open>budyk fsck\<close>'s report. Reads may
  fail slot by slot: what \<open>pread\<close> answers for a slot is a parameter. Proved here: recovery after a
  crash in the middle of an append gives exactly the state of the completed append, a clean ring
  is left as it is, and a conversion that does not succeed leaves the old ring in place.
\<close>

definition kDayNs :: u64 where
  "kDayNs = 86400 * 1000000000"

definition kMaxListedSlots :: nat where
  "kMaxListedSlots = 8"

section \<open>Records past the write index\<close>

definition level_fits_ring :: "u8 \<Rightarrow> level \<Rightarrow> bool" where
  "level_fits_ring tier level =
     (if tier = 1 then level = L3
      else if tier = 2 then level = L2
      else if tier = 3 then level = L1
      else if tier = kCustomRingTier then kFirstCustomLevel \<le> level \<and> level \<le> kMaxLevelId
      else False)"

text \<open>The slot of a logical index, read into a buffer of \<open>n\<close> bytes, and decoded.\<close>

definition read_slot :: "ring_file \<Rightarrow> byte list \<Rightarrow> (u64 \<Rightarrow> errno option) \<Rightarrow> nat \<Rightarrow> u64 \<Rightarrow> byte list option" where
  "read_slot r f io n logical =
     (case read_at r f (io (logical mod rf_capacity r)) (logical mod rf_capacity r)
             (Some (replicate n 0)) n of
        (rc, _, Some b) \<Rightarrow> if rc = 0 then Some b else None
      | _ \<Rightarrow> None)"

text \<open>The \<open>read\<close> lambda of \<open>count_unindexed\<close>.\<close>

definition unindexed_read :: "ring_file \<Rightarrow> byte list \<Rightarrow> (u64 \<Rightarrow> errno option) \<Rightarrow> u64 \<Rightarrow> sample option" where
  "unindexed_read r f io logical = do {
     b \<leftarrow> read_slot r f io (if rf_record_size r \<noteq> 0 then unat (rf_record_size r)
                               else record_size_for_sample) logical;
     s \<leftarrow> read_record b;
     if level_fits_ring (rf_tier r) (s_level s) then Some s else None
   }"

text \<open>The newest indexed record that reads: \<open>n\<close> indices from \<open>logical\<close> down.\<close>

fun newest_ts :: "(u64 \<Rightarrow> sample option) \<Rightarrow> u64 \<Rightarrow> nat \<Rightarrow> u64" where
  "newest_ts rd logical 0 = 0"
| "newest_ts rd logical (Suc n) = (case rd logical of
      Some s \<Rightarrow> s_timestamp_nanos s
    | None \<Rightarrow> newest_ts rd (logical - 1) n)"

text \<open>The run of newer records from \<open>logical\<close> on, at most \<open>n\<close> of them.\<close>

fun newer_run :: "(u64 \<Rightarrow> sample option) \<Rightarrow> u64 \<Rightarrow> u64 \<Rightarrow> u64 \<Rightarrow> nat \<Rightarrow> nat" where
  "newer_run rd now_ns logical prev_ts 0 = 0"
| "newer_run rd now_ns logical prev_ts (Suc n) = (case rd logical of
      None \<Rightarrow> 0
    | Some s \<Rightarrow>
        if s_timestamp_nanos s \<le> prev_ts \<or> s_timestamp_nanos s > now_ns then 0
        else Suc (newer_run rd now_ns (logical + 1) (s_timestamp_nanos s) n))"

definition count_unindexed ::
  "ring_file \<Rightarrow> byte list \<Rightarrow> (u64 \<Rightarrow> errno option) \<Rightarrow> u64 \<Rightarrow> u64 \<Rightarrow> u64" where
  "count_unindexed r f io realtime now_ns =
     (let cap = rf_capacity r; widx = write_index r f in
      if cap = 0 then 0
      else
        let now_ns = (if now_ns = 0 then realtime else now_ns);
            rd = unindexed_read r f io;
            indexed = (if widx < cap then widx else cap);
            prev_ts = newest_ts rd (widx - 1) (unat indexed)
        in of_nat (newer_run rd now_ns widx prev_ts (unat cap)))"

section \<open>Converting an older ring\<close>

text \<open>What the system calls of one conversion answer.\<close>

record convert_io =
  cv_header :: open_io
  cv_old :: open_io
  cv_unlink :: "errno option"
  cv_new :: open_io
  cv_read :: "u64 \<Rightarrow> errno option"
  cv_append :: "nat \<Rightarrow> write_io"
  cv_sync :: "errno option"
  cv_rename :: "errno option"
  cv_sync_dir :: "errno option"

text \<open>The copy loop: \<open>n\<close> logical indices from \<open>logical\<close> on. The state is the new ring, its file,
  the counters and the code that ends the loop.\<close>

fun convert_loop ::
  "ring_file \<Rightarrow> byte list \<Rightarrow> convert_io \<Rightarrow> u64 \<Rightarrow> nat \<Rightarrow> ring_file \<times> byte list \<times> u64 \<times> u64
   \<Rightarrow> rc \<times> ring_file \<times> byte list \<times> u64 \<times> u64" where
  "convert_loop old f io logical 0 (out, g, kept, dropped) = (0, out, g, kept, dropped)"
| "convert_loop old f io logical (Suc n) (out, g, kept, dropped) =
     (case Option.bind (read_slot old f (cv_read io) (unat (rf_record_size old)) logical) read_record of
        None \<Rightarrow> convert_loop old f io (logical + 1) n (out, g, kept, dropped + 1)
      | Some s \<Rightarrow>
          (case record_encode s (Some (replicate 1024 0)) 1024 (Some 0) of
             (rc, Some enc, Some len) \<Rightarrow>
               if rc \<noteq> 0 then (- EIO, out, g, kept, dropped)
               else (case ring_append out g (cv_append io (unat kept)) (Some enc) len of
                       (rc, out, g) \<Rightarrow>
                         if rc \<noteq> 0
                         then ((if rf_last_errno out \<noteq> 0 then - rf_last_errno out else - EIO),
                               out, g, kept, dropped)
                         else convert_loop old f io (logical + 1) n (out, g, kept + 1, dropped))
           | _ \<Rightarrow> (- EIO, out, g, kept, dropped)))"

text \<open>Which logical indices are copied: the first one, and how many of the oldest are left out.\<close>

definition convert_range :: "u64 \<Rightarrow> u64 \<Rightarrow> u64 \<Rightarrow> u64 \<Rightarrow> u64 \<times> u64" where
  "convert_range widx unidx old_cap new_cap =
     (let count = (if widx < old_cap then widx else old_cap);
          first = widx - count;
          (first, count) = (if count + unidx > old_cap
                            then (first + (count + unidx - old_cap), old_cap - unidx)
                            else (first, count));
          total = count + unidx;
          skip = (if total > new_cap then total - new_cap else 0)
      in (first + skip, skip))"

text \<open>The files: the ring at \<open>path\<close> and the one at \<open>path.convert\<close>.\<close>

record convert_fs =
  fs_path :: "byte list option"
  fs_tmp :: "byte list option"

definition convert_finish :: "rc \<Rightarrow> convert_fs \<Rightarrow> convert_io \<Rightarrow> rc \<times> convert_fs" where
  "convert_finish rc fs io =
     (let rc = (if rc = 0 then (case cv_sync io of None \<Rightarrow> 0 | Some e \<Rightarrow> - e) else rc);
          (rc, fs) = (if rc = 0
                      then (case cv_rename io of
                              None \<Rightarrow> (0, fs\<lparr>fs_path := fs_tmp fs, fs_tmp := None\<rparr>)
                            | Some e \<Rightarrow> (- e, fs))
                      else (rc, fs))
      in if rc = 0 then ((case cv_sync_dir io of None \<Rightarrow> 0 | Some e \<Rightarrow> - e), fs)
         else (rc, fs\<lparr>fs_tmp := None\<rparr>))"

definition convert_ring ::
  "convert_fs \<Rightarrow> convert_io \<Rightarrow> u64 \<Rightarrow> u8 \<Rightarrow> u32 \<Rightarrow> u64 \<Rightarrow> rc \<times> convert_fs \<times> u64 \<times> u64" where
  "convert_ring fs io realtime tier record_size capacity =
     (case read_header (fs_path fs) (cv_header io) ring_header_zero of (hrc, h, err) \<Rightarrow>
      if hrc \<noteq> 0 then ((if err \<noteq> 0 then - err else - EINVAL), fs, 0, 0)
      else case open_read_only ring_file_new (fs_path fs) (cv_old io) (rh_tier h) (rh_record_size h)
                  (rh_capacity h) of
        (orc, old, pf) \<Rightarrow>
          if orc \<noteq> 0
          then ((if rf_last_errno old \<noteq> 0 then - rf_last_errno old else - EINVAL), fs, 0, 0)
          else case ring_open ring_file_new (if cv_unlink io = None then None else fs_tmp fs) (cv_new io) tier record_size capacity of
            (nrc, out, g) \<Rightarrow>
              if nrc \<noteq> 0
              then (- (if rf_last_errno out \<noteq> 0 then rf_last_errno out else EIO), fs\<lparr>fs_tmp := g\<rparr>, 0, 0)
              else
                let f = the pf;
                    widx = write_index old f;
                    unidx = count_unindexed old f (cv_read io) realtime 0;
                    (start, skip) = convert_range widx unidx (rh_capacity h) capacity
                in (case convert_loop old f io start (unat (widx + unidx) - unat start)
                           (out, the g, 0, 0) of
                      (rc, out, g, kept, dropped) \<Rightarrow>
                        (case convert_finish rc (fs\<lparr>fs_tmp := Some g\<rparr>) io of
                           (rc, fs) \<Rightarrow> (rc, fs, kept, dropped + skip))))"

section \<open>The report of \<open>budyk fsck\<close>\<close>

record ring_check =
  rk_header_rc :: rc
  rk_header_errno :: errno
  rk_header :: ring_header
  rk_unknown_tier :: bool
  rk_older_format :: bool
  rk_newer_format :: bool
  rk_open_rc :: rc
  rk_records :: u64
  rk_valid :: u64
  rk_folded :: u64
  rk_damaged :: u64
  rk_wrong_level :: u64
  rk_out_of_order :: u64
  rk_future :: u64
  rk_read_errors :: u64
  rk_first_ts :: u64
  rk_last_ts :: u64
  rk_damaged_slots :: "u64 list"
  rk_unindexed :: u64
  rk_recovered :: u64

definition ring_check_zero :: ring_check where
  "ring_check_zero = \<lparr>rk_header_rc = 0, rk_header_errno = 0, rk_header = ring_header_zero,
     rk_unknown_tier = False, rk_older_format = False, rk_newer_format = False, rk_open_rc = 0,
     rk_records = 0, rk_valid = 0, rk_folded = 0, rk_damaged = 0, rk_wrong_level = 0,
     rk_out_of_order = 0, rk_future = 0, rk_read_errors = 0, rk_first_ts = 0, rk_last_ts = 0,
     rk_damaged_slots = [], rk_unindexed = 0, rk_recovered = 0\<rparr>"

definition errors_but_unindexed :: "ring_check \<Rightarrow> bool" where
  "errors_but_unindexed c =
     (if rk_header_rc c \<noteq> 0 \<or> rk_unknown_tier c \<or> rk_newer_format c \<or> rk_open_rc c \<noteq> 0 then True
      else rk_damaged c > 0 \<or> rk_wrong_level c > 0 \<or> rk_read_errors c > 0)"

definition errors :: "ring_check \<Rightarrow> bool" where
  "errors c \<longleftrightarrow> errors_but_unindexed c \<or> rk_unindexed c > rk_recovered c"

text \<open>A record that decodes, entered into the report; \<open>max_ts\<close> is the newest stamp so far.\<close>

definition check_sample :: "u8 \<Rightarrow> u64 \<Rightarrow> sample \<Rightarrow> ring_check \<times> u64 \<Rightarrow> ring_check \<times> u64" where
  "check_sample tier now_ns s = (\<lambda>(c, max_ts).
     let ts = s_timestamp_nanos s;
         c = (if \<not> level_fits_ring tier (s_level s) then c\<lparr>rk_wrong_level := rk_wrong_level c + 1\<rparr> else c);
         c = (if ts < max_ts then c\<lparr>rk_out_of_order := rk_out_of_order c + 1\<rparr> else c);
         c = (if now_ns \<noteq> 0 \<and> ts > now_ns + kDayNs then c\<lparr>rk_future := rk_future c + 1\<rparr> else c);
         c = (if s_folded s then c\<lparr>rk_folded := rk_folded c + 1\<rparr> else c);
         c = (if rk_valid c = 0 \<or> ts < rk_first_ts c then c\<lparr>rk_first_ts := ts\<rparr> else c);
         c = (if ts > rk_last_ts c then c\<lparr>rk_last_ts := ts\<rparr> else c);
         max_ts = (if ts > max_ts then ts else max_ts)
     in (c\<lparr>rk_valid := rk_valid c + 1\<rparr>, max_ts))"

fun check_loop ::
  "ring_file \<Rightarrow> byte list \<Rightarrow> (u64 \<Rightarrow> errno option) \<Rightarrow> u8 \<Rightarrow> u64 \<Rightarrow> u64 \<Rightarrow> nat \<Rightarrow> ring_check \<times> u64 \<Rightarrow> ring_check \<times> u64"
where
  "check_loop r f io tier now_ns logical 0 cm = cm"
| "check_loop r f io tier now_ns logical (Suc n) (c, max_ts) =
     (let c = c\<lparr>rk_records := rk_records c + 1\<rparr>
      in check_loop r f io tier now_ns (logical + 1) n
          (case read_slot r f io (unat (rf_record_size r)) logical of
             None \<Rightarrow> (c\<lparr>rk_read_errors := rk_read_errors c + 1\<rparr>, max_ts)
           | Some b \<Rightarrow>
               (case read_record b of
                  None \<Rightarrow>
                    (let c = c\<lparr>rk_damaged := rk_damaged c + 1\<rparr>
                     in (if length (rk_damaged_slots c) < kMaxListedSlots
                         then c\<lparr>rk_damaged_slots := rk_damaged_slots c @ [logical mod rf_capacity r]\<rparr>
                         else c), max_ts)
                | Some s \<Rightarrow> check_sample tier now_ns s (c, max_ts))))"

definition check_open_ring ::
  "ring_file \<Rightarrow> byte list \<Rightarrow> (u64 \<Rightarrow> errno option) \<Rightarrow> u64 \<Rightarrow> u64 \<Rightarrow> bool \<Rightarrow> ring_check \<Rightarrow> byte list \<times> ring_check" where
  "check_open_ring r f io realtime now_ns repair c =
     (let cap = rf_capacity r;
          widx = write_index r f;
          cnt = (if widx < cap then widx else cap);
          oldest = widx - cnt;
          c = fst (check_loop r f io (rh_tier (rk_header c)) now_ns oldest (unat widx - unat oldest) (c, 0));
          c = c\<lparr>rk_unindexed := count_unindexed r f io realtime 0\<rparr>
      in if repair \<and> rk_unindexed c > 0
         then (case advance_write_index r f (rk_unindexed c) of
                 (rc, r, f) \<Rightarrow> (f, if rc = 0 then c\<lparr>rk_recovered := rk_unindexed c\<rparr> else c))
         else (f, c))"

definition check_ring ::
  "byte list option \<Rightarrow> open_io \<Rightarrow> open_io \<Rightarrow> (u64 \<Rightarrow> errno option) \<Rightarrow> bool \<Rightarrow> u64 \<Rightarrow> u64
   \<Rightarrow> rc \<times> byte list option \<times> ring_check" where
  "check_ring fs hio oio io repair realtime now_ns =
     (case read_header fs hio ring_header_zero of (hrc, h, err) \<Rightarrow>
      let c = ring_check_zero\<lparr>rk_header_rc := hrc, rk_header := h, rk_header_errno := err\<rparr> in
      if hrc \<noteq> 0 then (0, fs, c)
      else if rh_tier h \<noteq> 1 \<and> rh_tier h \<noteq> 2 \<and> rh_tier h \<noteq> 3 \<and> rh_tier h \<noteq> kCustomRingTier
      then (0, fs, c\<lparr>rk_unknown_tier := True\<rparr>)
      else if unat (rh_record_size h) \<noteq> record_size_for_sample
      then (0, fs, if unat (rh_record_size h) < record_size_for_sample
                   then c\<lparr>rk_older_format := True\<rparr> else c\<lparr>rk_newer_format := True\<rparr>)
      else case open_impl ring_file_new fs oio (rh_tier h) (rh_record_size h) (rh_capacity h) (\<not> repair) of
        (orc, r, fs) \<Rightarrow>
          let c = c\<lparr>rk_open_rc := orc\<rparr> in
          if orc \<noteq> 0 then ((if repair \<and> rf_last_errno r \<noteq> 0 then - rf_last_errno r else 0), fs, c)
          else (case check_open_ring r (the fs) io realtime now_ns repair c of
                  (f, c) \<Rightarrow> (0, Some f, c)))"

section \<open>Reading the slots of a ring\<close>

abbreviation no_errors :: "u64 \<Rightarrow> errno option" where
  "no_errors \<equiv> \<lambda>_. None"

lemma read_slot_ok:
  assumes "ring_shape r f" and "io (logical mod rf_capacity r) = None"
  shows "read_slot r f io (rf_rs r) logical = Some (slot_bytes (rf_rs r) f (unat logical mod rf_cap r))"
proof -
  have "rf_capacity r \<noteq> 0" using assms by (simp add: ring_shape_def)
  then have "logical mod rf_capacity r < rf_capacity r" by (simp add: word_less_nat_alt unat_mod_cap)
  then show ?thesis
    using assms by (simp add: read_slot_def read_at_ok unat_mod_distrib)
qed

text \<open>The sample in slot \<open>k\<close>, if it decodes and its level belongs in the ring.\<close>

definition slot_sample :: "ring_file \<Rightarrow> byte list \<Rightarrow> nat \<Rightarrow> sample option" where
  "slot_sample r f k = do {
     s \<leftarrow> read_record (slot_bytes (rf_rs r) f k);
     if level_fits_ring (rf_tier r) (s_level s) then Some s else None
   }"

lemma unindexed_read_ok:
  "ring_shape r f \<Longrightarrow> unindexed_read r f no_errors logical = slot_sample r f (unat logical mod rf_cap r)"
  by (simp add: unindexed_read_def slot_sample_def read_slot_ok ring_shape_def)

lemma level_fits_valid: "level_fits_ring tier l \<Longrightarrow> 1 \<le> l \<and> l \<le> kMaxLevelId"
  unfolding level_fits_ring_def
  by (simp add: word_le_nat_alt split: if_splits)

lemma slot_sample_written:
  assumes "ring_ok r f" and "rf_rs r = record_size_for_sample"
    and "level_fits_ring (rf_tier r) (s_level s)" and "s_baseline s = 0"
  shows "slot_sample r (write_at (kHeaderSize + next_slot r * rf_rs r) (record_bytes s) f) (next_slot r) = Some s"
proof -
  have "slot_bytes (rf_rs r) (write_at (kHeaderSize + next_slot r * rf_rs r) (record_bytes s) f) (next_slot r)
      = record_bytes s"
    using assms(1,2) next_slot_offset(2) [OF assms(1)]
    by (intro slot_write_same [where cap = "rf_cap r"]) (simp_all add: ring_ok_def)
  then show ?thesis
    using level_fits_valid [OF assms(3)] assms(3,4) by (simp add: slot_sample_def read_record_bytes)
qed

lemma slot_sample_other:
  assumes "ring_ok r f" and "rf_rs r = record_size_for_sample" and "k < rf_cap r" and "k \<noteq> next_slot r"
  shows "slot_sample r (write_at (kHeaderSize + next_slot r * rf_rs r) (record_bytes s) f) k = slot_sample r f k"
  using assms next_slot_offset(2) [OF assms(1)]
  by (simp add: slot_sample_def slot_write_other [where cap = "rf_cap r"] ring_ok_def)

section \<open>Recovery after a crash\<close>

lemma mod_Suc_ne:
  fixes w cap :: nat
  assumes "1 < cap"
  shows "Suc w mod cap \<noteq> w mod cap"
proof
  assume "Suc w mod cap = w mod cap"
  then have "Suc w = w" by (rule mod_inj_window [where w = "Suc (Suc w)"]) (use assms in auto)
  then show False by simp
qed

lemma mod_pred_ne:
  fixes w cap :: nat
  assumes "1 < cap" and "0 < w"
  shows "(w - 1) mod cap \<noteq> w mod cap"
  using mod_Suc_ne [OF assms(1), of "w - 1"] assms(2) by simp

lemma newest_ts_first:
  "rd l = Some s \<Longrightarrow> 0 < n \<Longrightarrow> newest_ts rd l n = s_timestamp_nanos s"
  by (cases n) simp_all

lemma newer_run_one:
  assumes "rd l = Some s" and "prev < s_timestamp_nanos s" and "s_timestamp_nanos s \<le> now"
    and "\<And>t. 1 < n \<Longrightarrow> rd (l + 1) = Some t \<Longrightarrow> s_timestamp_nanos t \<le> s_timestamp_nanos s" and "0 < n"
  shows "newer_run rd now l prev n = 1"
proof -
  obtain m where n: "n = Suc m" using assms(5) by (cases n) auto
  have "newer_run rd now (l + 1) (s_timestamp_nanos s) m = 0"
  proof (cases m)
    case (Suc k)
    then show ?thesis using assms(4) n by (auto split: option.split)
  qed simp
  then show ?thesis using assms(1-3) n by (simp add: leD)
qed

lemma unat_pred: "0 < unat (w :: u64) \<Longrightarrow> unat (w - 1) = unat w - 1"
  by (simp add: unat_sub word_le_nat_alt)

text \<open>A crash between the \<open>pwrite\<close> and the index update: the record is in its slot, the header
  still counts \<open>w\<close> records.\<close>

definition crash_file :: "ring_file \<Rightarrow> byte list \<Rightarrow> sample \<Rightarrow> byte list" where
  "crash_file r f s = write_at (kHeaderSize + next_slot r * rf_rs r) (record_bytes s) f"

lemma ring_ok_crash:
  assumes "ring_ok r f" and "rf_rs r = record_size_for_sample"
  shows "ring_ok r (crash_file r f s)"
  unfolding crash_file_def using assms next_slot_offset(3) [OF assms(1)]
  by (intro ring_ok_write) simp_all

lemma crash_unindexed:
  assumes ok: "ring_ok r f" and rs: "rf_rs r = record_size_for_sample"
    and lvl: "level_fits_ring (rf_tier r) (s_level s)" and bl: "s_baseline s = 0"
    and newer: "\<And>k t. k < rf_cap r \<Longrightarrow> slot_sample r f k = Some t \<Longrightarrow> s_timestamp_nanos t < s_timestamp_nanos s"
    and now: "0 < s_timestamp_nanos s" "s_timestamp_nanos s \<le> now"
    and newest: "rf_w r = 0 \<or> 1 < rf_cap r \<and> slot_sample r f ((rf_w r - 1) mod rf_cap r) \<noteq> None"
    and w: "rf_w r + 1 < two64"
  shows "count_unindexed r (crash_file r f s) no_errors realtime now = 1"
proof -
  let ?g = "crash_file r f s" and ?cap = "rf_cap r"
  let ?rd = "unindexed_read r ?g no_errors"
  have okg: "ring_ok r ?g" by (rule ring_ok_crash [OF ok rs])
  have cap: "0 < ?cap" using ok by (simp add: ring_ok_def)
  have rd: "?rd l = slot_sample r ?g (unat l mod ?cap)" for l
    by (rule unindexed_read_ok [OF ring_ok_shape [OF okg]])
  have at: "?rd (rf_widx r) = Some s"
    unfolding rd unfolding crash_file_def by (rule slot_sample_written [OF ok rs lvl bl])
  define idx where "idx = (if rf_widx r < rf_capacity r then rf_widx r else rf_capacity r)"
  have prev: "newest_ts ?rd (rf_widx r - 1) (unat idx) < s_timestamp_nanos s"
  proof (cases "rf_w r = 0")
    case True
    then have "unat idx = 0" using cap by (simp add: idx_def word_less_nat_alt)
    then show ?thesis using now(1) by simp
  next
    case False
    then obtain t where c1: "1 < ?cap" and t: "slot_sample r f ((rf_w r - 1) mod ?cap) = Some t"
      using newest by (auto simp: not_None_eq)
    have "(rf_w r - 1) mod ?cap \<noteq> next_slot r" using mod_pred_ne [OF c1, of "rf_w r"] False by simp
    then have "slot_sample r ?g ((rf_w r - 1) mod ?cap) = Some t"
      using t slot_sample_other [OF ok rs] cap unfolding crash_file_def by simp
    then have "?rd (rf_widx r - 1) = Some t" using False by (simp add: rd unat_pred)
    moreover have "0 < unat idx" using False cap by (auto simp: idx_def)
    ultimately have "newest_ts ?rd (rf_widx r - 1) (unat idx) = s_timestamp_nanos t" by (rule newest_ts_first)
    then show ?thesis using newer [OF _ t] cap by simp
  qed
  have "s_timestamp_nanos t \<le> s_timestamp_nanos s" if "1 < ?cap" "?rd (rf_widx r + 1) = Some t" for t
  proof -
    have "slot_sample r ?g (Suc (rf_w r) mod ?cap) = Some t" using that(2) w by (simp add: rd unat_Suc)
    then have "slot_sample r f (Suc (rf_w r) mod ?cap) = Some t"
      using slot_sample_other [OF ok rs _ mod_Suc_ne [OF that(1)]] cap unfolding crash_file_def by simp
    then show ?thesis using newer [of "Suc (rf_w r) mod ?cap" t] cap by (simp add: less_imp_le)
  qed
  then have "newer_run ?rd now (rf_widx r) (newest_ts ?rd (rf_widx r - 1) (unat idx)) ?cap = 1"
    using at prev now(2) cap by (intro newer_run_one)
  moreover have "write_index r ?g = rf_widx r" using ok by (simp add: write_index_def ring_ok_def)
  moreover have "now \<noteq> 0" using now by auto
  moreover have "rf_capacity r \<noteq> 0" using ok by (simp add: ring_ok_def)
  ultimately show ?thesis by (simp add: count_unindexed_def Let_def idx_def)
qed

lemma crash_recovered:
  assumes "ring_ok r f" and "rf_rs r = record_size_for_sample"
  shows "advance_write_index r (crash_file r f s) 1 = ring_append r f Full (Some (record_bytes s)) record_size_for_sample"
  using ring_append_full [OF assms(1), of "record_bytes s"] ring_ok_advance [OF ring_ok_crash [OF assms], of s 1]
    assms(2) by (simp add: crash_file_def)

text \<open>A ring nothing was lost from has nothing to recover.\<close>

lemma clean_unindexed:
  assumes ok: "ring_ok r f" and w: "0 < rf_w r"
    and newest: "slot_sample r f ((rf_w r - 1) mod rf_cap r) = Some t"
    and older: "\<And>k u. k < rf_cap r \<Longrightarrow> slot_sample r f k = Some u \<Longrightarrow> s_timestamp_nanos u \<le> s_timestamp_nanos t"
  shows "count_unindexed r f no_errors realtime now = 0"
proof -
  let ?rd = "unindexed_read r f no_errors" and ?cap = "rf_cap r"
  have cap: "0 < ?cap" "rf_capacity r \<noteq> 0" using ok by (simp_all add: ring_ok_def)
  have rd: "?rd l = slot_sample r f (unat l mod ?cap)" for l
    by (rule unindexed_read_ok [OF ring_ok_shape [OF ok]])
  define idx where "idx = (if rf_widx r < rf_capacity r then rf_widx r else rf_capacity r)"
  have "?rd (rf_widx r - 1) = Some t" using newest w by (simp add: rd unat_pred)
  moreover have "0 < unat idx" using w cap by (auto simp: idx_def)
  ultimately have "newest_ts ?rd (rf_widx r - 1) (unat idx) = s_timestamp_nanos t" by (rule newest_ts_first)
  moreover have "newer_run ?rd n (rf_widx r) (s_timestamp_nanos t) ?cap = 0" for n
  proof -
    obtain m where m: "?cap = Suc m" using cap by (cases ?cap) auto
    have "s_timestamp_nanos u \<le> s_timestamp_nanos t" if "?rd (rf_widx r) = Some u" for u
      using that older [of "next_slot r" u] cap by (simp add: rd)
    then show ?thesis unfolding m by (auto split: option.split)
  qed
  moreover have "write_index r f = rf_widx r" using ok by (simp add: write_index_def ring_ok_def)
  ultimately show ?thesis using cap by (simp add: count_unindexed_def Let_def idx_def)
qed

section \<open>Conversion\<close>

lemma convert_finish_failed:
  "convert_finish rc fs io = (rc', fs') \<Longrightarrow> fs_path fs' = fs_path fs \<or>
     rc = 0 \<and> fs_path fs' = fs_tmp fs"
  by (auto simp: convert_finish_def Let_def split: if_splits option.splits)

text \<open>How many indices are copied: everything the old ring holds, as far as the new one has room.\<close>

lemma convert_loop_counts:
  "convert_loop old f io l n (out, g, k, d) = (0, out', g', k', d') \<Longrightarrow>
   k' + d' = k + d + of_nat n"
proof (induction n arbitrary: l out g k d)
  case (Suc n)
  show ?case
  proof (cases "Option.bind (read_slot old f (cv_read io) (unat (rf_record_size old)) l) read_record")
    case None
    then show ?thesis using Suc.IH [of "l + 1" out g k "d + 1"] Suc.prems by (simp add: algebra_simps)
  next
    case (Some s)
    have enc: "record_encode s (Some (replicate 1024 0)) 1024 (Some 0)
        = (0, Some (write_at 0 (record_bytes s) (replicate 1024 0)), Some record_size_for_sample)"
      by (rule record_encode_writes) (simp_all add: record_size_eq)
    obtain arc out2 g2 where app: "ring_append out g (cv_append io (unat k))
        (Some (write_at 0 (record_bytes s) (replicate 1024 0))) record_size_for_sample = (arc, out2, g2)"
      by (metis prod_cases3)
    have "arc = 0" using Suc.prems Some
      by (simp add: enc app EIO_def split: if_splits)
    then show ?thesis using Suc.IH [of "l + 1" out2 g2 "k + 1" d] Suc.prems Some
      by (simp add: enc app algebra_simps)
  qed
qed simp

text \<open>The records copied: those of the old ring that read, in order.\<close>

fun copied :: "ring_file \<Rightarrow> byte list \<Rightarrow> (u64 \<Rightarrow> errno option) \<Rightarrow> u64 \<Rightarrow> nat \<Rightarrow> sample list" where
  "copied old f io l 0 = []"
| "copied old f io l (Suc n) =
     (case Option.bind (read_slot old f io (unat (rf_record_size old)) l) read_record of
        None \<Rightarrow> [] | Some s \<Rightarrow> [s]) @ copied old f io (l + 1) n"

lemma copied_length: "length (copied old f io l n) \<le> n"
  by (induction n arbitrary: l) (auto split: option.split simp: le_SucI)

lemma ring_append_take: "ring_append r f io (Some rec) len = ring_append r f io (Some (take len rec)) len"
  by (simp add: ring_append_def)

lemma take_write_at_start: "take (length bs) (write_at 0 bs buf) = bs"
  by (simp add: write_at_def)

lemma append_encoded:
  assumes "length buf = 1024"
  shows "ring_append r f io (Some (write_at 0 (record_bytes s) buf)) record_size_for_sample
    = ring_append r f io (Some (record_bytes s)) record_size_for_sample"
  using take_write_at_start [of "record_bytes s" buf]
  by (subst ring_append_take) simp

lemma convert_loop_records:
  assumes "ring_ok out g" and "rf_rs out = record_size_for_sample"
    and "\<And>i. cv_append io i = Full" and "rf_w out + n < two64"
  shows "\<exists>out' g'. convert_loop old f io l n (out, g, k, d) =
      (0, out', g', k + of_nat (length (copied old f (cv_read io) l n)),
       d + of_nat (n - length (copied old f (cv_read io) l n)))
    \<and> ring_ok out' g' \<and> rf_tier out' = rf_tier out \<and> rf_capacity out' = rf_capacity out
    \<and> rf_record_size out' = rf_record_size out
    \<and> ring_records out' g' = last_n (rf_cap out) (ring_records out g @ map record_bytes (copied old f (cv_read io) l n))"
  using assms
proof (induction n arbitrary: l out g k d)
  case 0
  then show ?case by (simp add: length_ring_records)
next
  case (Suc n)
  let ?c = "copied old f (cv_read io) (l + 1) n"
  have le: "length ?c \<le> n" by (rule copied_length)
  show ?case
  proof (cases "Option.bind (read_slot old f (cv_read io) (unat (rf_record_size old)) l) read_record")
    case None
    then show ?thesis using Suc.IH [of out g "l + 1" k "d + 1"] Suc.prems le
      by (simp add: Suc_diff_le ac_simps)
  next
    case (Some s)
    have enc: "record_encode s (Some (replicate 1024 0)) 1024 (Some 0)
        = (0, Some (write_at 0 (record_bytes s) (replicate 1024 0)), Some record_size_for_sample)"
      by (rule record_encode_writes) (simp_all add: record_size_eq)
    define out2 where "out2 = out\<lparr>rf_begun := rf_widx out + 1, rf_widx := rf_widx out + 1\<rparr>"
    obtain g2 where app: "ring_append out g Full (Some (record_bytes s)) record_size_for_sample = (0, out2, g2)"
      using ring_append_full [of out g "record_bytes s"] Suc.prems(1,2) by (simp add: out2_def)
    have ok2: "ring_ok out2 g2"
      using ring_ok_append [OF Suc.prems(1), of "record_bytes s" Full 0 out2 g2] app Suc.prems(2) by simp
    have recs: "ring_records out2 g2 = last_n (rf_cap out) (ring_records out g @ [record_bytes s])"
      using ring_records_append [OF Suc.prems(1), of "record_bytes s" 0 out2 g2] app Suc.prems(2,4) by simp
    have "rf_w out2 + n < two64" using Suc.prems(4) by (simp add: out2_def unat_Suc)
    then show ?thesis
      using Suc.IH [of out2 g2 "l + 1" "k + 1" d] ok2 recs Suc.prems(2,3) le Some
      by (simp add: enc append_encoded app out2_def last_n_last_n_append ac_simps)
  qed
qed

lemma convert_range_eq:
  assumes "unat u \<le> unat oc" and "unat w + unat u < two64"
  shows "unat (fst (convert_range w u oc nc)) = unat w + unat u - min (min (unat w + unat u) (unat oc)) (unat nc)"
    and "unat (snd (convert_range w u oc nc)) = min (unat w + unat u) (unat oc) - unat nc"
proof -
  have plus: "unat (a + b) = unat a + unat b" if "unat a + unat b < two64" for a b :: u64
    using that by (simp add: unat_word_ariths)
  have minus: "unat (a - b) = unat a - unat b" if "unat b \<le> unat a" for a b :: u64
    using that by (simp add: unat_sub word_le_nat_alt)
  define count where "count = (if w < oc then w else oc)"
  have c: "unat count = min (unat w) (unat oc)" by (simp add: count_def word_less_nat_alt)
  have cu: "unat (count + u) = unat count + unat u" using assms c by (intro plus) simp
  define first where "first = w - count"
  have first: "unat first = unat w - unat count" unfolding first_def using c by (intro minus) simp
  define fc where "fc = (if count + u > oc then (first + (count + u - oc), oc - u) else (first, count))"
  define total where "total = snd fc + u"
  have tot: "unat total = min (unat w + unat u) (unat oc) \<and> unat (fst fc) = unat w + unat u - unat total"
  proof (cases "count + u > oc")
    case True
    then have gt: "unat oc < unat count + unat u" using cu by (simp add: word_less_nat_alt)
    have ocu: "unat (oc - u) = unat oc - unat u" using assms by (intro minus)
    have t: "unat total = unat oc"
      using ocu assms True unfolding total_def fc_def by (simp add: plus)
    have d: "unat (count + u - oc) = unat count + unat u - unat oc" using gt cu by (simp add: minus)
    have "unat (first + (count + u - oc)) = unat first + (unat count + unat u - unat oc)"
      using d first c assms gt by (subst plus) auto
    then show ?thesis using True t first gt c by (auto simp: fc_def)
  next
    case False
    then have le: "unat count + unat u \<le> unat oc" using cu by (simp add: word_less_nat_alt)
    then show ?thesis using False cu first c by (auto simp: fc_def total_def min_def)
  qed
  define sk where "sk = (if total > nc then total - nc else 0)"
  have sk: "unat sk = unat total - unat nc" by (auto simp: sk_def word_less_nat_alt minus)
  have "convert_range w u oc nc = (fst fc + sk, sk)"
    by (simp add: convert_range_def Let_def fc_def count_def first_def total_def sk_def)
  moreover have "unat (fst fc + sk) = unat (fst fc) + unat sk"
    using tot sk assms by (intro plus) auto
  ultimately show "unat (fst (convert_range w u oc nc)) = unat w + unat u - min (min (unat w + unat u) (unat oc)) (unat nc)"
    and "unat (snd (convert_range w u oc nc)) = min (unat w + unat u) (unat oc) - unat nc"
    using tot sk by (auto simp: min_def)
qed

lemma newer_run_le: "newer_run rd now l p n \<le> n"
  by (induction n arbitrary: l p) (auto split: option.split)

lemma count_unindexed_le: "unat (count_unindexed r f io realtime now) \<le> rf_cap r"
proof -
  have "unat (of_nat (newer_run rd n l p (rf_cap r)) :: u64) \<le> rf_cap r" for rd n l p
    unfolding unat_of_nat by (rule le_trans [OF mod_less_eq_dividend newer_run_le])
  then show ?thesis by (auto simp: count_unindexed_def Let_def)
qed

text \<open>The old ring as the conversion opens it.\<close>

definition read_only_view :: "ring_file \<Rightarrow> ring_file" where
  "read_only_view r = r\<lparr>rf_read_only := True, rf_last_errno := 0, rf_reads := 0\<rparr>"

lemma open_read_only_ring:
  assumes "ring_ok r f"
  shows "open_read_only ring_file_new (Some f) open_io_ok (rf_tier r) (rf_record_size r) (rf_capacity r) =
    (0, read_only_view r, Some f)"
proof -
  have ok: "rf_record_size r \<noteq> 0" "rf_capacity r \<noteq> 0" "kHeaderSize \<le> length f"
    "take kWriteIdxOffset f = header_prefix (rf_tier r) (rf_record_size r) (rf_capacity r)"
    "header_index f = rf_widx r" "rf_begun r = rf_widx r" "rf_open r" "rf_mapped r"
    using assms by (simp_all add: ring_ok_def)
  have c: "check_header (mapped kHeaderSize f) (rf_tier r) (rf_record_size r) (rf_capacity r) = 0"
    using ok(3,4) check_header_iff take_mapped_prefix by metis
  have "open_read_only ring_file_new (Some f) open_io_ok (rf_tier r) (rf_record_size r) (rf_capacity r)
      = open_mapped (ring_file_new\<lparr>rf_last_errno := 0\<rparr>) f open_io_ok (rf_tier r) (rf_record_size r) (rf_capacity r) True False"
    unfolding open_read_only_def using ok ring_ok_file_bytes [OF assms]
    by (intro open_impl_existing) (simp_all add: open_io_ok_def ring_file_new_def)
  then show ?thesis using ok c
    by (simp add: open_mapped_def Let_def open_io_ok_def ring_file_new_def read_only_view_def)
qed

definition convert_io_ok :: convert_io where
  "convert_io_ok = \<lparr>cv_header = open_io_ok, cv_old = open_io_ok, cv_unlink = None, cv_new = open_io_ok,
     cv_read = (\<lambda>_. None), cv_append = (\<lambda>_. Full), cv_sync = None, cv_rename = None, cv_sync_dir = None\<rparr>"

text \<open>What a conversion to \<open>new_cap\<close> records copies: how many logical indices, the last of them the
  newest, the records a crash left uncounted included.\<close>

definition convert_count :: "ring_file \<Rightarrow> byte list \<Rightarrow> u64 \<Rightarrow> u64 \<Rightarrow> nat" where
  "convert_count r f realtime new_cap =
     min (min (rf_w r + unat (count_unindexed (read_only_view r) f no_errors realtime 0)) (rf_cap r)) (unat new_cap)"

definition convert_start :: "ring_file \<Rightarrow> byte list \<Rightarrow> u64 \<Rightarrow> u64 \<Rightarrow> u64" where
  "convert_start r f realtime new_cap =
     of_nat (rf_w r + unat (count_unindexed (read_only_view r) f no_errors realtime 0)
             - convert_count r f realtime new_cap)"

text \<open>How many records the ring holds, those a crash left uncounted included.\<close>

definition records_held :: "ring_file \<Rightarrow> byte list \<Rightarrow> u64 \<Rightarrow> nat" where
  "records_held r f realtime = min (rf_w r + unat (count_unindexed (read_only_view r) f no_errors realtime 0)) (rf_cap r)"

text \<open>The samples they hold: those of the newest logical indices that decode.\<close>

definition convert_samples :: "ring_file \<Rightarrow> byte list \<Rightarrow> u64 \<Rightarrow> u64 \<Rightarrow> sample list" where
  "convert_samples r f realtime new_cap =
     (let last = rf_w r + unat (count_unindexed (read_only_view r) f no_errors realtime 0);
          n = min (min last (rf_cap r)) (unat new_cap)
      in List.map_filter (\<lambda>i. read_record (slot_bytes (rf_rs r) f (i mod rf_cap r))) [last - n..<last])"

lemma copied_eq:
  assumes "ring_shape r f"
  shows "unat l + n < two64 \<Longrightarrow> copied r f no_errors l n =
    List.map_filter (\<lambda>i. read_record (slot_bytes (rf_rs r) f (i mod rf_cap r))) [unat l..<unat l + n]"
proof (induction n arbitrary: l)
  case (Suc n)
  have "[unat l..<unat l + Suc n] = unat l # [unat (l + 1)..<unat (l + 1) + n]"
    using Suc.prems by (simp add: unat_Suc upt_conv_Cons)
  then show ?case using Suc.IH [of "l + 1"] Suc.prems assms
    by (simp add: read_slot_ok unat_Suc map_filter_simps split: option.split)
qed (simp add: map_filter_simps)

lemma convert_samples_eq:
  assumes "ring_ok r f" and "rf_w r + rf_cap r < two64"
  shows "convert_samples r f realtime new_cap = copied (read_only_view r) f no_errors
     (convert_start r f realtime new_cap) (convert_count r f realtime new_cap)"
proof -
  define last where "last = rf_w r + unat (count_unindexed (read_only_view r) f no_errors realtime 0)"
  define n where "n = convert_count r f realtime new_cap"
  have n: "n = min (min last (rf_cap r)) (unat new_cap)" by (simp add: n_def convert_count_def last_def)
  have "last < two64" using count_unindexed_le [of "read_only_view r" f no_errors realtime 0] assms(2)
    by (simp add: last_def read_only_view_def)
  then have st: "unat (convert_start r f realtime new_cap) = last - n"
    unfolding convert_start_def last_def [symmetric] n_def [symmetric] unat_of_nat
    by (simp add: less_imp_diff_less)
  have "ring_shape (read_only_view r) f" using ring_ok_shape [OF assms(1)] by (simp add: ring_shape_def read_only_view_def)
  from copied_eq [OF this, of "convert_start r f realtime new_cap" n] show ?thesis
    unfolding n_def [symmetric] st using \<open>last < two64\<close> n
    unfolding convert_samples_def Let_def last_def [symmetric] by (simp add: read_only_view_def)
qed

lemma convert_ring_ok:
  assumes ok: "ring_ok r f" and rs: "unat record_size = record_size_for_sample" and cap: "capacity \<noteq> 0"
    and size: "kHeaderSize + unat record_size * unat capacity < 2 ^ 63"
    and nowrap: "rf_w r + rf_cap r < two64"
  shows "\<exists>out g. convert_ring \<lparr>fs_path = Some f, fs_tmp = tmp\<rparr> convert_io_ok realtime tier record_size capacity
      = (0, \<lparr>fs_path = Some g, fs_tmp = None\<rparr>, of_nat (length (convert_samples r f realtime capacity)),
         of_nat (records_held r f realtime - length (convert_samples r f realtime capacity)))
    \<and> ring_ok out g \<and> rf_tier out = tier \<and> rf_capacity out = capacity \<and> rf_record_size out = record_size
    \<and> ring_records out g = map record_bytes (convert_samples r f realtime capacity)"
proof -
  define samples where "samples = convert_samples r f realtime capacity"
  let ?v = "read_only_view r"
  define u where "u = count_unindexed ?v f no_errors realtime 0"
  define n where "n = convert_count r f realtime capacity"
  have u: "unat u \<le> rf_cap r" using count_unindexed_le [of ?v f] by (simp add: u_def read_only_view_def)
  have wu: "rf_w r + unat u < two64" using u nowrap by simp
  have wu': "unat (rf_widx r + u) = rf_w r + unat u" using wu by (simp add: unat_word_ariths)
  have widx: "write_index ?v f = rf_widx r" using ok by (simp add: write_index_def read_only_view_def ring_ok_def)
  have n: "n = min (min (rf_w r + unat u) (rf_cap r)) (unat capacity)"
    by (simp add: n_def convert_count_def u_def)
  obtain start skip where range: "convert_range (rf_widx r) u (rf_capacity r) capacity = (start, skip)"
    by (cases "convert_range (rf_widx r) u (rf_capacity r) capacity")
  have st: "unat start = rf_w r + unat u - n"
    using convert_range_eq(1) [OF u wu, of capacity] range n by simp
  have len: "unat (rf_widx r + u) - unat start = n" using st wu' n by simp
  have start: "start = convert_start r f realtime capacity"
    unfolding convert_start_def u_def [symmetric] n_def [symmetric] st [symmetric] by simp
  have "record_size \<noteq> 0" using rs by (auto simp: record_size_eq)
  then obtain out0 g0 where open0: "ring_open ring_file_new None open_io_ok tier record_size capacity = (0, out0, Some g0)"
    and ok0: "ring_ok out0 g0" "rf_tier out0 = tier" "rf_record_size out0 = record_size" "rf_capacity out0 = capacity"
      "rf_widx out0 = 0"
    using ring_create [of ring_file_new record_size capacity None tier] cap size
    by (auto simp: ring_file_new_def)
  have lt: "rf_w out0 + n < two64" using ok0(5) n wu by simp
  obtain out g where loop: "convert_loop ?v f convert_io_ok start n (out0, g0, 0, 0)
      = (0, out, g, of_nat (length samples), of_nat (n - length samples))"
    and res: "ring_ok out g" "rf_tier out = tier" "rf_capacity out = capacity" "rf_record_size out = record_size"
      "ring_records out g = last_n (unat capacity) (ring_records out0 g0 @ map record_bytes samples)"
    using convert_loop_records [OF ok0(1) _ _ lt, of convert_io_ok ?v f start 0 0] ok0 rs
    by (auto simp: convert_io_ok_def samples_def convert_samples_eq [OF ok nowrap] start n_def)
  have empty0: "ring_records out0 g0 = []" using ok0(5) by (simp add: ring_records_def)
  have skip: "unat skip = min (rf_w r + unat u) (rf_cap r) - unat capacity"
    using convert_range_eq(2) [OF u wu, of capacity] range by simp
  have sn: "length samples \<le> n"
    using copied_length [of ?v f no_errors start n] by (simp add: samples_def convert_samples_eq [OF ok nowrap] start n_def)
  have "n - length samples + unat skip = records_held r f realtime - length samples"
    unfolding records_held_def u_def [symmetric] using sn n skip by linarith
  then have dropped: "of_nat (n - length samples) + skip = of_nat (records_held r f realtime - length samples)"
    using of_nat_unat [of skip] by (metis of_nat_add unsigned_word_eqI unsigned_of_nat ucast_id)
  moreover have "length samples \<le> unat capacity"
    using copied_length [of ?v f no_errors start n] n by (simp add: samples_def convert_samples_eq [OF ok nowrap] start n_def)
  ultimately have "ring_records out g = map record_bytes samples" using res(5) empty0 by simp
  moreover have "convert_ring \<lparr>fs_path = Some f, fs_tmp = tmp\<rparr> convert_io_ok realtime tier record_size capacity
      = (0, \<lparr>fs_path = Some g, fs_tmp = None\<rparr>, of_nat (length samples), of_nat (records_held r f realtime - length samples))"
    using read_header_ring [OF ok] open_read_only_ring [OF ok] open0 loop dropped
    by (simp add: convert_ring_def convert_io_ok_def widx u_def [symmetric] range len Let_def convert_finish_def)
  ultimately show ?thesis using res unfolding samples_def by blast
qed

section \<open>Properties\<close>

lemma demo_slot_blank: "k < 2 \<Longrightarrow> slot_sample demo_ring demo_file k = None"
proof -
  have "drop (kHeaderSize + k * 542) demo_file = drop (k * 542) (replicate 1084 0)"
    unfolding demo_ring_ok(6) [symmetric] by (simp add: add.commute)
  then have "slot_bytes 542 demo_file k = take 542 (replicate (1084 - k * 542) 0)"
    by (simp add: slot_bytes_def)
  then have "read_record (slot_bytes 542 demo_file k) = None"
    by (intro read_record_blank) (simp add: list_all_iff)
  then show ?thesis by (simp add: slot_sample_def demo_ring_ok)
qed

text \<open>C2: After a crash between the write of a record and the update of the write index, recovery
  counts exactly that record in, and the ring is then byte for byte and member for member what the
  completed append would have left. The record is newer than everything in the ring and not from
  the future; the newest counted record is readable (or there is none).\<close>

theorem crash_recovery:
  assumes "ring_ok r f" and "rf_rs r = record_size_for_sample"
    and "level_fits_ring (rf_tier r) (s_level s)" and "s_baseline s = 0"
    and "\<forall>k t. k < rf_cap r \<and> slot_sample r f k = Some t \<longrightarrow> s_timestamp_nanos t < s_timestamp_nanos s"
    and "0 < s_timestamp_nanos s" and "s_timestamp_nanos s \<le> now"
    and "rf_w r = 0 \<or> 1 < rf_cap r \<and> slot_sample r f ((rf_w r - 1) mod rf_cap r) \<noteq> None"
    and "rf_w r + 1 < two64"
  shows "advance_write_index r (crash_file r f s)
      (count_unindexed r (crash_file r f s) no_errors realtime now)
    = ring_append r f Full (Some (record_bytes s)) record_size_for_sample"
  using crash_unindexed [of r f s now realtime] crash_recovered [of r f s] assms by simp

theorem crash_recovery_witness:
  "advance_write_index demo_ring (crash_file demo_ring demo_file demo_sample)
      (count_unindexed demo_ring (crash_file demo_ring demo_file demo_sample) no_errors 0 100)
    = ring_append demo_ring demo_file Full (Some (record_bytes demo_sample)) record_size_for_sample"
  by (rule crash_recovery [OF demo_ring_ok(1)])
    (use demo_slot_blank in \<open>auto simp: demo_ring_ok record_size_eq level_fits_ring_def demo_sample_def
      sample_zero_def word_le_nat_alt word_less_nat_alt\<close>)

text \<open>A ring whose newest counted record reads and is at least as new as every other record in
  it has nothing to recover: a clean start changes nothing.\<close>

theorem clean_ring_unchanged:
  assumes "ring_ok r f" and "0 < rf_w r"
    and "slot_sample r f ((rf_w r - 1) mod rf_cap r) = Some t"
    and "\<forall>k u. k < rf_cap r \<and> slot_sample r f k = Some u \<longrightarrow> s_timestamp_nanos u \<le> s_timestamp_nanos t"
  shows "count_unindexed r f no_errors realtime now = 0"
  using clean_unindexed [OF assms(1-3)] assms(4) by blast

text \<open>The state after one append, for the witness.\<close>

definition demo_ring1 :: "ring_file \<times> byte list" where
  "demo_ring1 = ring_push (demo_ring, demo_file) (record_bytes demo_sample)"

lemma demo_ring1_ok:
  "ring_ok (fst demo_ring1) (snd demo_ring1)" "rf_widx (fst demo_ring1) = 1" "rf_capacity (fst demo_ring1) = 2"
  "rf_tier (fst demo_ring1) = 1" "rf_record_size (fst demo_ring1) = 542"
  "slot_sample (fst demo_ring1) (snd demo_ring1) 0 = Some demo_sample"
  "slot_sample (fst demo_ring1) (snd demo_ring1) 1 = None"
proof -
  let ?g = "crash_file demo_ring demo_file demo_sample"
  have rs: "rf_rs demo_ring = record_size_for_sample" by (simp add: demo_ring_ok record_size_eq)
  have app: "ring_append demo_ring demo_file Full (Some (record_bytes demo_sample)) (length (record_bytes demo_sample))
      = (0, demo_ring\<lparr>rf_begun := 1, rf_widx := 1\<rparr>, put_index 1 ?g)"
    using ring_append_full [OF demo_ring_ok(1), of "record_bytes demo_sample"]
    by (simp add: demo_ring_ok record_size_eq crash_file_def)
  have d: "demo_ring1 = (demo_ring\<lparr>rf_begun := 1, rf_widx := 1\<rparr>, put_index 1 ?g)"
    using app by (simp add: demo_ring1_def ring_push_def)
  have len: "kHeaderSize \<le> length ?g" by (rule ring_ok_len [OF ring_ok_crash [OF demo_ring_ok(1) rs]])
  have ss: "slot_sample (fst demo_ring1) (snd demo_ring1) k = slot_sample demo_ring ?g k" for k
    using len by (simp add: d slot_sample_def slot_put_index)
  show "ring_ok (fst demo_ring1) (snd demo_ring1)"
    using ring_ok_append [OF demo_ring_ok(1) _ app] by (simp add: d demo_ring_ok record_size_eq)
  show "rf_widx (fst demo_ring1) = 1" "rf_capacity (fst demo_ring1) = 2" "rf_tier (fst demo_ring1) = 1"
    "rf_record_size (fst demo_ring1) = 542" by (simp_all add: d demo_ring_ok)
  have ns: "next_slot demo_ring = 0" by (simp add: demo_ring_ok)
  show "slot_sample (fst demo_ring1) (snd demo_ring1) 0 = Some demo_sample"
    unfolding ss using slot_sample_written [OF demo_ring_ok(1) rs, of demo_sample] ns
    by (simp add: crash_file_def demo_ring_ok level_fits_ring_def demo_sample_def sample_zero_def)
  show "slot_sample (fst demo_ring1) (snd demo_ring1) 1 = None"
    unfolding ss using slot_sample_other [OF demo_ring_ok(1) rs, of 1 demo_sample] ns demo_slot_blank [of 1]
    by (simp add: crash_file_def demo_ring_ok)
qed

theorem clean_ring_unchanged_witness:
  "count_unindexed (fst demo_ring1) (snd demo_ring1) no_errors 0 100 = 0"
proof (rule clean_ring_unchanged [OF demo_ring1_ok(1), of demo_sample])
  show "0 < rf_w (fst demo_ring1)" by (simp add: demo_ring1_ok)
  show "slot_sample (fst demo_ring1) (snd demo_ring1)
      ((rf_w (fst demo_ring1) - 1) mod rf_cap (fst demo_ring1)) = Some demo_sample"
    by (simp add: demo_ring1_ok)
  have "k = 0 \<or> k = 1" if "k < 2" for k :: nat using that by auto
  then show "\<forall>k u. k < rf_cap (fst demo_ring1) \<and> slot_sample (fst demo_ring1) (snd demo_ring1) k = Some u
      \<longrightarrow> s_timestamp_nanos u \<le> s_timestamp_nanos demo_sample"
    using demo_ring1_ok by fastforce
qed

text \<open>C37: Converting a ring to another record size and capacity, with system calls that succeed, keeps of its newest records, as many as the new
  capacity has slots for (those a crash left uncounted included, and damaged ones counted), the ones that read, in order: the
  new ring at the path holds their re-encodings and nothing else, the temporary file is gone, and the two counts are right: those kept, and all the others the old ring held as dropped.
  (A damaged record takes the place of an older one that would have fitted.)\<close>

theorem convert_keeps_newest:
  assumes "ring_ok r f" and "unat record_size = record_size_for_sample" and "capacity \<noteq> 0"
    and "kHeaderSize + unat record_size * unat capacity < 2 ^ 63" and "rf_w r + rf_cap r < two64"
  shows "\<exists>out g. convert_ring \<lparr>fs_path = Some f, fs_tmp = tmp\<rparr> convert_io_ok realtime tier record_size capacity
      = (0, \<lparr>fs_path = Some g, fs_tmp = None\<rparr>, of_nat (length (convert_samples r f realtime capacity)),
         of_nat (records_held r f realtime - length (convert_samples r f realtime capacity)))
    \<and> ring_ok out g \<and> rf_tier out = tier \<and> rf_capacity out = capacity \<and> rf_record_size out = record_size
    \<and> ring_records out g = map record_bytes (convert_samples r f realtime capacity)"
  by (rule convert_ring_ok [OF assms])

theorem convert_keeps_newest_witness:
  "\<exists>out g. convert_ring \<lparr>fs_path = Some (snd demo_ring1), fs_tmp = None\<rparr> convert_io_ok 100 1 542 5
      = (0, \<lparr>fs_path = Some g, fs_tmp = None\<rparr>, of_nat (length (convert_samples (fst demo_ring1) (snd demo_ring1) 100 5)),
         of_nat (records_held (fst demo_ring1) (snd demo_ring1) 100 - length (convert_samples (fst demo_ring1) (snd demo_ring1) 100 5)))
    \<and> ring_records out g = map record_bytes (convert_samples (fst demo_ring1) (snd demo_ring1) 100 5)"
  using convert_keeps_newest [OF demo_ring1_ok(1), of 542 5 None 100 1]
  by (auto simp: record_size_eq kHeaderSize_def demo_ring1_ok)

text \<open>A conversion that fails at any point (opening, reading, writing, syncing or renaming)
  leaves the file at the ring's path as it was; only the sync of the directory, after the rename,
  can fail with the new ring in place.\<close>

theorem convert_failure_keeps_old:
  assumes "convert_ring fs io realtime tier record_size capacity = (rc, fs', kept, dropped)"
    and "rc \<noteq> 0" and "cv_sync_dir io = None"
  shows "fs_path fs' = fs_path fs"
  using assms
  by (auto simp: convert_ring_def Let_def convert_finish_def split: prod.splits if_splits option.splits)

theorem convert_failure_keeps_old_witness:
  "\<exists>rc fs' kept dropped. convert_ring \<lparr>fs_path = Some [1, 2, 3], fs_tmp = None\<rparr> convert_io_ok 0 1 542 5
      = (rc, fs', kept, dropped) \<and> fs_path fs' = Some [1, 2, 3]"
proof -
  have "convert_ring \<lparr>fs_path = Some [1, 2, 3], fs_tmp = None\<rparr> convert_io_ok 0 1 542 5
      = (- EINVAL, \<lparr>fs_path = Some [1, 2, 3], fs_tmp = None\<rparr>, 0, 0)"
    by (simp add: convert_ring_def read_header_def convert_io_ok_def open_io_ok_def kHeaderSize_def)
  then show ?thesis using convert_failure_keeps_old by (fastforce simp: EINVAL_def convert_io_ok_def)
qed

end
