(* ===== verification/Tier_Query.thy ===== *)
theory Tier_Query
  imports Ring_Check "HOL-Library.Multiset"
begin

text \<open>
  Reading the stored history (\<open>RingReader\<close>, \<open>drop_covered\<close>, \<open>query_ring\<close>, \<open>query_ring_spread\<close> and
  the merge of \<open>query_all\<close>, \<open>src/storage/tier_manager.cpp\<close>). A ring under query is its handle, its
  file, what \<open>pread\<close> answers per slot and, for the walk of \<open>query_ring\<close>, what \<open>write_begun()\<close> answers
  at each step, so that a writer running beside the query is covered. Proved here: the binary
  search finds the first record at or after a timestamp, and \<open>query_ring\<close> on a ring in time order
  returns exactly the newest \<open>max_records\<close> readable records of the window, oldest first.
\<close>

section \<open>\<open>RingReader\<close>\<close>

record ring_reader =
  rr_ring :: ring_file
  rr_file :: "byte list"
  rr_io :: "u64 \<Rightarrow> errno option"
  rr_cap :: u64
  rr_oldest :: u64
  rr_end :: u64

definition reader_new :: "ring_file \<Rightarrow> byte list \<Rightarrow> (u64 \<Rightarrow> errno option) \<Rightarrow> ring_reader" where
  "reader_new r f io =
     (let cap = rf_capacity r; widx = write_index r f;
          valid = (if widx < cap then widx else cap)
      in \<lparr>rr_ring = r, rr_file = f, rr_io = io, rr_cap = cap, rr_oldest = widx - valid, rr_end = widx\<rparr>)"

definition reader_empty :: "ring_reader \<Rightarrow> bool" where
  "reader_empty q \<longleftrightarrow> rr_cap q = 0 \<or> rr_end q = rr_oldest q"

definition reader_read :: "ring_reader \<Rightarrow> u64 \<Rightarrow> sample option" where
  "reader_read q logical =
     Option.bind (read_slot (rr_ring q) (rr_file q) (rr_io q) record_size_for_sample logical) read_record"

text \<open>\<open>ts_from\<close>: \<open>n\<close> indices from \<open>k\<close> on.\<close>

fun ts_from_loop :: "ring_reader \<Rightarrow> u64 \<Rightarrow> nat \<Rightarrow> u64 option" where
  "ts_from_loop q k 0 = None"
| "ts_from_loop q k (Suc n) = (case reader_read q k of
      Some s \<Rightarrow> Some (s_timestamp_nanos s)
    | None \<Rightarrow> ts_from_loop q (k + 1) n)"

definition ts_from :: "ring_reader \<Rightarrow> u64 \<Rightarrow> u64 option" where
  "ts_from q logical = ts_from_loop q logical (unat (rr_end q) - unat logical)"

lemma mid_bounds:
  fixes lo hi :: u64
  assumes "lo < hi"
  shows "unat (lo + (hi - lo) div 2) = unat lo + (unat hi - unat lo) div 2"
    and "unat (lo + (hi - lo) div 2 + 1) = unat lo + (unat hi - unat lo) div 2 + 1"
proof -
  have d: "unat (hi - lo) = unat hi - unat lo" using assms by (simp add: unat_sub)
  have l: "unat lo < unat hi" using assms by (simp add: word_less_nat_alt)
  have h: "unat hi < two64" using unsigned_less [of hi, where ?'a = nat] by simp
  have b: "unat lo + (unat hi - unat lo) div 2 < unat hi" using l by linarith
  show m: "unat (lo + (hi - lo) div 2) = unat lo + (unat hi - unat lo) div 2"
    using b h d by (simp add: unat_word_ariths(1) unat_div)
  show "unat (lo + (hi - lo) div 2 + 1) = unat lo + (unat hi - unat lo) div 2 + 1"
    using unat_Suc [of "lo + (hi - lo) div 2"] b h m by simp
qed

function lower_bound_loop :: "ring_reader \<Rightarrow> u64 \<Rightarrow> u64 \<Rightarrow> u64 \<Rightarrow> u64" where
  "lower_bound_loop q ts lo hi =
     (if lo < hi
      then let mid = lo + (hi - lo) div 2
           in if (case ts_from q mid of None \<Rightarrow> True | Some t \<Rightarrow> t \<ge> ts)
              then lower_bound_loop q ts lo mid
              else lower_bound_loop q ts (mid + 1) hi
      else lo)"
  by auto
termination
proof (relation "measure (\<lambda>(q, ts, lo, hi). unat hi - unat lo)")
  fix q :: ring_reader and ts lo hi mid :: u64
  assume "lo < hi" and mid: "mid = lo + (hi - lo) div 2"
  then have "unat lo < unat hi" "unat mid = unat lo + (unat hi - unat lo) div 2"
    "unat (mid + 1) = unat lo + (unat hi - unat lo) div 2 + 1"
    using mid_bounds by (simp_all add: word_less_nat_alt)
  then show "((q, ts, lo, mid), (q, ts, lo, hi)) \<in> measure (\<lambda>(q, ts, lo, hi). unat hi - unat lo)"
    and "((q, ts, mid + 1, hi), (q, ts, lo, hi)) \<in> measure (\<lambda>(q, ts, lo, hi). unat hi - unat lo)"
    by auto
qed auto

declare lower_bound_loop.simps [simp del]

definition lower_bound :: "ring_reader \<Rightarrow> u64 \<Rightarrow> u64" where
  "lower_bound q ts = lower_bound_loop q ts (rr_oldest q) (rr_end q)"

definition any_in :: "ring_reader \<Rightarrow> u64 \<Rightarrow> u64 \<Rightarrow> bool" where
  "any_in q lo hi =
     (if reader_empty q \<or> hi \<le> lo then False
      else case ts_from q (lower_bound q (lo + 1)) of None \<Rightarrow> False | Some ts \<Rightarrow> ts \<le> hi)"

section \<open>\<open>drop_covered\<close>\<close>

text \<open>\<open>upper_bound\<close> in the sorted stamps: the first one past \<open>lo\<close>.\<close>

definition covered :: "u64 \<Rightarrow> u64 list \<Rightarrow> ring_reader list \<Rightarrow> sample \<Rightarrow> bool" where
  "covered window_ns seen_ts readers s =
     (if \<not> s_folded s then False
      else let hi = s_timestamp_nanos s; lo = (if hi > window_ns then hi - window_ns else 0)
           in case dropWhile (\<lambda>t. t \<le> lo) seen_ts of
                t # _ \<Rightarrow> if t \<le> hi then True else list_ex (\<lambda>q. any_in q lo hi) readers
              | [] \<Rightarrow> list_ex (\<lambda>q. any_in q lo hi) readers)"

definition drop_covered :: "sample list \<Rightarrow> u64 \<Rightarrow> sample list list \<Rightarrow> ring_reader list \<Rightarrow> sample list" where
  "drop_covered recs window_ns seen readers =
     (if window_ns = 0 then recs
      else let seen_ts = sort (map s_timestamp_nanos (concat seen))
           in filter (\<lambda>s. \<not> covered window_ns seen_ts readers s) recs)"

section \<open>\<open>query_ring_spread\<close>\<close>

definition override_sample :: "int \<Rightarrow> sample \<Rightarrow> sample" where
  "override_sample override_level s =
     (if override_level > 0 then s\<lparr>s_level := word_of_int override_level\<rparr> else s)"

definition in_window :: "u64 \<Rightarrow> u64 \<Rightarrow> sample \<Rightarrow> bool" where
  "in_window since_ns until_ns s \<longleftrightarrow>
     since_ns \<le> s_timestamp_nanos s \<and> (until_ns = 0 \<or> s_timestamp_nanos s \<le> until_ns)"

fun spread_loop ::
  "ring_reader \<Rightarrow> int \<Rightarrow> u64 \<Rightarrow> u64 \<Rightarrow> u64 \<Rightarrow> u64 \<Rightarrow> u64 \<Rightarrow> u64 \<Rightarrow> u64 \<Rightarrow> u64 \<Rightarrow> nat \<Rightarrow> sample list" where
  "spread_loop q ov since_ns until_ns first end cnt tk k prev 0 = []"
| "spread_loop q ov since_ns until_ns first end cnt tk k prev (Suc n) =
     (let idx = (if tk = 1 then end - 1 else first + (k * (cnt - 1)) div (tk - 1))
      in if idx = prev then spread_loop q ov since_ns until_ns first end cnt tk (k + 1) prev n
         else (case reader_read q idx of
                 None \<Rightarrow> []
               | Some s \<Rightarrow> if in_window since_ns until_ns s then [override_sample ov s] else [])
              @ spread_loop q ov since_ns until_ns first end cnt tk (k + 1) idx n)"

definition query_ring_spread :: "ring_reader \<Rightarrow> int \<Rightarrow> u64 \<Rightarrow> u64 \<Rightarrow> u64 \<Rightarrow> sample list" where
  "query_ring_spread q ov since_ns until_ns max_records =
     (if reader_empty q then []
      else let first = lower_bound q since_ns;
               end = (if until_ns \<noteq> 0 \<and> until_ns \<noteq> -1 then lower_bound q (until_ns + 1) else rr_end q)
           in if first \<ge> end then []
              else let cnt = end - first;
                       tk = (if cnt < max_records then cnt else max_records)
                   in spread_loop q ov since_ns until_ns first end cnt tk 0 (-1) (unat tk))"

section \<open>\<open>query_ring\<close>\<close>

definition kDisorderLookback :: u64 where
  "kDisorderLookback = 1024"

text \<open>The walk from the newest record of the window down: \<open>n\<close> steps are left, \<open>k\<close> counts from the
  newest; the result is \<open>newest_first\<close>.\<close>

fun query_walk ::
  "ring_reader \<Rightarrow> (u64 \<Rightarrow> u64) \<Rightarrow> int \<Rightarrow> u64 \<Rightarrow> u64 \<Rightarrow> nat \<Rightarrow> u64 \<Rightarrow> u64 \<Rightarrow> nat \<Rightarrow> sample list \<Rightarrow> sample list" where
  "query_walk q begun ov since_ns until_ns max_records k older_run 0 newest_first = newest_first"
| "query_walk q begun ov since_ns until_ns max_records k older_run (Suc n) newest_first =
     (if \<not> length newest_first < max_records then newest_first
      else
        let logical = rr_end q - 1 - k
        in case read_slot (rr_ring q) (rr_file q) (rr_io q) record_size_for_sample logical of
             None \<Rightarrow> query_walk q begun ov since_ns until_ns max_records (k + 1) older_run n newest_first
           | Some b \<Rightarrow>
             if begun k > logical + rr_cap q then newest_first
             else case read_record b of
                    None \<Rightarrow> query_walk q begun ov since_ns until_ns max_records (k + 1) older_run n newest_first
                  | Some s \<Rightarrow>
                      if s_timestamp_nanos s < since_ns
                      then (if older_run + 1 > kDisorderLookback then newest_first
                            else query_walk q begun ov since_ns until_ns max_records (k + 1) (older_run + 1) n newest_first)
                      else if until_ns \<noteq> 0 \<and> s_timestamp_nanos s > until_ns
                      then query_walk q begun ov since_ns until_ns max_records (k + 1) 0 n newest_first
                      else query_walk q begun ov since_ns until_ns max_records (k + 1) 0 n
                             (newest_first @ [override_sample ov s]))"

definition query_ring :: "ring_reader \<Rightarrow> (u64 \<Rightarrow> u64) \<Rightarrow> int \<Rightarrow> u64 \<Rightarrow> u64 \<Rightarrow> nat \<Rightarrow> sample list" where
  "query_ring q begun ov since_ns until_ns max_records =
     (let widx = rr_end q; cap = rr_cap q in
      if cap = 0 \<or> widx = 0 then []
      else
        let valid = (if widx < cap then widx else cap)
        in if until_ns \<noteq> 0 \<and> since_ns > until_ns then []
           else
             let start = (if until_ns \<noteq> 0 \<and> until_ns \<noteq> -1
                          then (let start = lower_bound q (until_ns + 1);
                                    start = (if start > widx then widx else start)
                                in if start < widx - valid then widx - valid else start)
                          else widx)
             in rev (query_walk q begun ov since_ns until_ns max_records (widx - start) 0
                       (unat valid - unat (widx - start)) []))"

section \<open>The merge of \<open>query_all\<close>\<close>

text \<open>Thinning: the newest sample per slice. \<open>slice\<close> is the long double computation of the slice
  number, a parameter since its rounding is the platform's.\<close>

fun thin :: "(u64 \<Rightarrow> u64) \<Rightarrow> u64 \<Rightarrow> u64 \<Rightarrow> sample list \<Rightarrow> sample list \<Rightarrow> sample list" where
  "thin slc lo last_slice thinned [] = thinned"
| "thin slc lo last_slice thinned (s # ss) =
     (let sl = slc (s_timestamp_nanos s - lo)
      in if sl = last_slice then thin slc lo last_slice (butlast thinned @ [s]) ss
         else thin slc lo sl (thinned @ [s]) ss)"

text \<open>\<open>srt\<close> is \<open>std::sort\<close> by timestamp, which may order equal stamps as it likes; \<open>slice\<close> takes the
  span and \<open>max_records\<close> first.\<close>

definition query_merge ::
  "(sample list \<Rightarrow> sample list) \<Rightarrow> (u64 \<Rightarrow> nat \<Rightarrow> u64 \<Rightarrow> u64) \<Rightarrow> nat \<Rightarrow> sample list \<Rightarrow> sample list \<Rightarrow> sample list \<Rightarrow> sample list"
where
  "query_merge srt slc max_records fine l2 l1 =
     (let merged = srt (fine @ l2 @ l1)
      in if length merged > max_records
         then let lo = s_timestamp_nanos (hd merged); hi = s_timestamp_nanos (last merged);
                  span = hi - lo + 1
              in thin (slc span max_records) lo (-1) [] merged
         else merged)"

section \<open>The records a reader sees\<close>

definition reader_ok :: "ring_reader \<Rightarrow> bool" where
  "reader_ok q \<longleftrightarrow> rr_oldest q = rr_end q - (if rr_end q < rr_cap q then rr_end q else rr_cap q) \<and>
     unat (rr_end q) + unat (rr_cap q) < two64"

abbreviation rr_e :: "ring_reader \<Rightarrow> nat" where "rr_e q \<equiv> unat (rr_end q)"
abbreviation rr_o :: "ring_reader \<Rightarrow> nat" where "rr_o q \<equiv> unat (rr_oldest q)"

abbreviation rr_at :: "ring_reader \<Rightarrow> nat \<Rightarrow> sample option" where
  "rr_at q k \<equiv> reader_read q (of_nat k)"

text \<open>The readable records with logical index below \<open>m\<close>, oldest first.\<close>

definition samples_upto :: "ring_reader \<Rightarrow> nat \<Rightarrow> sample list" where
  "samples_upto q m = List.map_filter (rr_at q) [rr_o q..<m]"

abbreviation reader_samples :: "ring_reader \<Rightarrow> sample list" where
  "reader_samples q \<equiv> samples_upto q (rr_e q)"

definition time_ordered :: "ring_reader \<Rightarrow> bool" where
  "time_ordered q \<longleftrightarrow> sorted (map s_timestamp_nanos (reader_samples q))"

lemma reader_ok_oldest: "reader_ok q \<Longrightarrow> rr_o q = rr_e q - min (rr_e q) (unat (rr_cap q))"
  by (auto simp: reader_ok_def word_less_nat_alt unat_sub word_le_nat_alt min_def split: if_splits)

lemma reader_le: "reader_ok q \<Longrightarrow> rr_o q \<le> rr_e q"
  by (simp add: reader_ok_oldest)

lemma samples_upto_Suc:
  "rr_o q \<le> m \<Longrightarrow> samples_upto q (Suc m) = samples_upto q m @ (case rr_at q m of None \<Rightarrow> [] | Some s \<Rightarrow> [s])"
  by (simp add: samples_upto_def map_filter_def split: option.split)

lemma map_filter_append: "List.map_filter f (xs @ ys) = List.map_filter f xs @ List.map_filter f ys"
  by (simp add: map_filter_def)

lemma map_filter_split_upt:
  "a \<le> m \<Longrightarrow> m \<le> e \<Longrightarrow> List.map_filter f [a..<e] = List.map_filter f [a..<m] @ List.map_filter f [m..<e]"
  by (metis le_add_diff_inverse map_filter_append upt_add_eq_append)

lemma set_map_filter: "set (List.map_filter f xs) = {y. \<exists>x \<in> set xs. f x = Some y}"
  by (force simp: map_filter_def)

lemma time_orderedD:
  assumes "time_ordered q" and "rr_o q \<le> i" and "i \<le> j" and "j < rr_e q"
    and "rr_at q i = Some s" and "rr_at q j = Some t"
  shows "s_timestamp_nanos s \<le> s_timestamp_nanos t"
proof (cases "i = j")
  case False
  then have "List.map_filter (rr_at q) [rr_o q..<rr_e q]
      = List.map_filter (rr_at q) [rr_o q..<j] @ List.map_filter (rr_at q) [j..<rr_e q]"
    using assms by (intro map_filter_split_upt) auto
  moreover have "s \<in> set (List.map_filter (rr_at q) [rr_o q..<j])"
    using assms False by (auto simp: set_map_filter)
  moreover have "t \<in> set (List.map_filter (rr_at q) [j..<rr_e q])" using assms by (auto simp: set_map_filter)
  ultimately show ?thesis using assms(1) by (auto simp: time_ordered_def samples_upto_def sorted_append)
qed (use assms in simp)

section \<open>The binary search\<close>

lemma ts_from_loop_Some:
  "k + n < two64 \<Longrightarrow> ts_from_loop q (of_nat k) n = Some t \<Longrightarrow>
   \<exists>j s. k \<le> j \<and> j < k + n \<and> rr_at q j = Some s \<and> t = s_timestamp_nanos s \<and> (\<forall>i. k \<le> i \<and> i < j \<longrightarrow> rr_at q i = None)"
proof (induction n arbitrary: k)
  case (Suc n)
  show ?case
  proof (cases "rr_at q k")
    case None
    have "ts_from_loop q (of_nat (Suc k)) n = Some t" using Suc.prems None by (simp add: add.commute)
    then obtain j s where "Suc k \<le> j" "j < k + Suc n" "rr_at q j = Some s" "t = s_timestamp_nanos s"
      "\<forall>i. Suc k \<le> i \<and> i < j \<longrightarrow> rr_at q i = None"
      using Suc.IH [of "Suc k"] Suc.prems by auto
    moreover from this(5) None have "\<forall>i. k \<le> i \<and> i < j \<longrightarrow> rr_at q i = None"
      by (metis Suc_leI le_neq_implies_less)
    ultimately show ?thesis by (intro exI [of _ j] exI [of _ s]) auto
  next
    case (Some s)
    then show ?thesis using Suc.prems by (intro exI [of _ k] exI [of _ s]) auto
  qed
qed simp

lemma ts_from_loop_None:
  "k + n < two64 \<Longrightarrow> ts_from_loop q (of_nat k) n = None \<Longrightarrow> k \<le> j \<Longrightarrow> j < k + n \<Longrightarrow> rr_at q j = None"
proof (induction n arbitrary: k)
  case (Suc n)
  from Suc.prems have "rr_at q k = None" "ts_from_loop q (of_nat (Suc k)) n = None"
    by (auto simp: add.commute split: option.splits)
  then show ?case using Suc.IH [of "Suc k"] Suc.prems by (cases "j = k") auto
qed simp

lemma ts_from_nat: "ts_from q (of_nat k) = ts_from_loop q (of_nat k) (rr_e q - k)" if "k < two64"
  using that by (simp add: ts_from_def unat_of_nat)

text \<open>Where the loop looks: everything readable before \<open>lo\<close> is older than \<open>ts\<close>, everything from
  \<open>hi\<close> on is not.\<close>

definition bounds :: "ring_reader \<Rightarrow> u64 \<Rightarrow> nat \<Rightarrow> nat \<Rightarrow> bool" where
  "bounds q ts lo hi \<longleftrightarrow>
     (\<forall>i s. rr_o q \<le> i \<and> i < lo \<and> rr_at q i = Some s \<longrightarrow> s_timestamp_nanos s < ts) \<and>
     (\<forall>i s. hi \<le> i \<and> i < rr_e q \<and> rr_at q i = Some s \<longrightarrow> ts \<le> s_timestamp_nanos s)"

lemma bounds_probe:
  assumes ord: "time_ordered q" and b: "bounds q ts lo hi" and m: "rr_o q \<le> m" "m < rr_e q"
  shows "(case ts_from q (of_nat m) of None \<Rightarrow> True | Some t \<Rightarrow> t \<ge> ts) \<Longrightarrow> bounds q ts lo m"
    and "\<not> (case ts_from q (of_nat m) of None \<Rightarrow> True | Some t \<Rightarrow> t \<ge> ts) \<Longrightarrow> bounds q ts (Suc m) hi"
proof -
  have e: "rr_e q < two64" using unsigned_less [of "rr_end q", where ?'a = nat] by simp
  have probe: "ts_from q (of_nat m) = ts_from_loop q (of_nat m) (rr_e q - m)" using m e by (intro ts_from_nat) simp
  have lt: "m + (rr_e q - m) < two64" using m e by simp
  assume P: "case ts_from q (of_nat m) of None \<Rightarrow> True | Some t \<Rightarrow> t \<ge> ts"
  have "ts \<le> s_timestamp_nanos s" if i: "m \<le> i" "i < rr_e q" "rr_at q i = Some s" for i s
  proof (cases "ts_from_loop q (of_nat m) (rr_e q - m)")
    case None
    then show ?thesis using ts_from_loop_None [OF lt None i(1)] i by simp
  next
    case (Some t)
    obtain j u where j: "m \<le> j" "rr_at q j = Some u" "t = s_timestamp_nanos u" "\<forall>i. m \<le> i \<and> i < j \<longrightarrow> rr_at q i = None"
      using ts_from_loop_Some [OF lt Some] by blast
    have "j \<le> i" using j(4) i by (metis not_le option.distinct(1))
    then have "s_timestamp_nanos u \<le> s_timestamp_nanos s"
      using time_orderedD [OF ord _ _ i(2) j(2) i(3)] j(1) m(1) by simp
    then show ?thesis using P j(3) Some probe by simp
  qed
  then show "bounds q ts lo m" using b unfolding bounds_def by blast
next
  have e: "rr_e q < two64" using unsigned_less [of "rr_end q", where ?'a = nat] by simp
  have probe: "ts_from q (of_nat m) = ts_from_loop q (of_nat m) (rr_e q - m)" using m e by (intro ts_from_nat) simp
  have lt: "m + (rr_e q - m) < two64" using m e by simp
  assume "\<not> (case ts_from q (of_nat m) of None \<Rightarrow> True | Some t \<Rightarrow> t \<ge> ts)"
  then obtain t where t: "ts_from_loop q (of_nat m) (rr_e q - m) = Some t" "t < ts"
    by (auto simp: probe not_le split: option.splits)
  obtain j u where j: "m \<le> j" "j < rr_e q" "rr_at q j = Some u" "t = s_timestamp_nanos u"
    using ts_from_loop_Some [OF lt t(1)] m by auto
  have "s_timestamp_nanos s < ts" if "rr_o q \<le> i" "i < Suc m" "rr_at q i = Some s" for i s
    using time_orderedD [OF ord that(1) _ j(2) that(3) j(3)] that(2) j(1,4) t(2) by simp
  then show "bounds q ts (Suc m) hi" using b unfolding bounds_def by blast
qed

lemma lower_bound_loop_ok:
  "time_ordered q \<Longrightarrow> bounds q ts (unat lo) (unat hi) \<Longrightarrow> rr_o q \<le> unat lo \<Longrightarrow> unat lo \<le> unat hi \<Longrightarrow> unat hi \<le> rr_e q \<Longrightarrow>
   bounds q ts (unat (lower_bound_loop q ts lo hi)) (unat (lower_bound_loop q ts lo hi)) \<and>
   unat lo \<le> unat (lower_bound_loop q ts lo hi) \<and> unat (lower_bound_loop q ts lo hi) \<le> unat hi"
proof (induction q ts lo hi rule: lower_bound_loop.induct)
  case (1 q ts lo hi)
  show ?case
  proof (cases "lo < hi")
    case False
    then have "unat lo = unat hi" using "1.prems" by (simp add: word_less_nat_alt)
    then show ?thesis using "1.prems" False by (simp add: lower_bound_loop.simps)
  next
    case True
    let ?m = "lo + (hi - lo) div 2"
    note mid = mid_bounds [OF True]
    have m: "unat lo \<le> unat ?m" "unat ?m < unat hi" "unat (?m + 1) = Suc (unat ?m)"
      using mid True by (auto simp: word_less_nat_alt)
    have o: "rr_o q \<le> unat ?m" "unat ?m < rr_e q" using m "1.prems" by auto
    have inverse: "of_nat (unat ?m) = ?m" by simp
    note probe = bounds_probe [OF "1.prems"(1,2) o, unfolded inverse]
    show ?thesis
    proof (cases "case ts_from q ?m of None \<Rightarrow> True | Some t \<Rightarrow> t \<ge> ts")
      case hit: True
      then have "lower_bound_loop q ts lo hi = lower_bound_loop q ts lo ?m"
        using True by (subst lower_bound_loop.simps) (simp add: Let_def)
      moreover have "bounds q ts (unat lo) (unat ?m)" by (rule probe(1) [OF hit])
      ultimately show ?thesis using "1.IH"(1) [OF True refl hit "1.prems"(1)] m "1.prems" by auto
    next
      case miss: False
      then have "lower_bound_loop q ts lo hi = lower_bound_loop q ts (?m + 1) hi"
        using True by (subst lower_bound_loop.simps) (simp add: Let_def)
      moreover have "bounds q ts (unat (?m + 1)) (unat hi)" using probe(2) [OF miss] m(3) by simp
      ultimately show ?thesis using "1.IH"(2) [OF True refl miss "1.prems"(1)] m "1.prems" by auto
    qed
  qed
qed

text \<open>The partition point of a ring in time order.\<close>

lemma lower_bound_ok:
  assumes "time_ordered q" and "reader_ok q"
  shows "bounds q ts (unat (lower_bound q ts)) (unat (lower_bound q ts))"
    and "rr_o q \<le> unat (lower_bound q ts)" and "unat (lower_bound q ts) \<le> rr_e q"
proof -
  have "bounds q ts (rr_o q) (rr_e q)" by (auto simp: bounds_def)
  from lower_bound_loop_ok [OF assms(1) this] reader_le [OF assms(2)]
  show "bounds q ts (unat (lower_bound q ts)) (unat (lower_bound q ts))"
    and "rr_o q \<le> unat (lower_bound q ts)" and "unat (lower_bound q ts) \<le> rr_e q"
    by (simp_all add: lower_bound_def)
qed

section \<open>The walk\<close>

lemma samples_upto_older:
  assumes "time_ordered q" and "rr_o q \<le> m" and "m < rr_e q" and "rr_at q m = Some s" and "x \<in> set (samples_upto q m)"
  shows "s_timestamp_nanos x \<le> s_timestamp_nanos s"
proof -
  obtain i where "rr_o q \<le> i" "i < m" "rr_at q i = Some x"
    using assms(5) by (auto simp: samples_upto_def set_map_filter)
  then show ?thesis using time_orderedD [OF assms(1), of i m x s] assms by simp
qed

lemma walk_logical:
  assumes "k < rr_e q"
  shows "rr_end q - 1 - of_nat k = of_nat (rr_e q - Suc k)"
proof -
  have "(of_nat (rr_e q - Suc k) :: u64) = of_nat (rr_e q) - of_nat (Suc k)"
    using assms by (intro of_nat_diff) simp
  then show ?thesis by simp
qed

lemma query_walk_ok:
  assumes ok: "reader_ok q" and ord: "time_ordered q"
  shows "k \<le> rr_e q \<Longrightarrow> n = rr_e q - k - rr_o q \<Longrightarrow> length acc \<le> mx \<Longrightarrow>
    query_walk q (\<lambda>_. rr_end q) ov since until mx (of_nat k) older n acc
    = acc @ take (mx - length acc) (rev (map (override_sample ov) (filter (in_window since until) (samples_upto q (rr_e q - k)))))"
proof (induction n arbitrary: k older acc)
  case 0
  then have "samples_upto q (rr_e q - k) = []" by (simp add: samples_upto_def map_filter_simps)
  then show ?case by simp
next
  case (Suc n)
  define m where "m = rr_e q - Suc k"
  have k: "k < rr_e q" "rr_e q - k = Suc m" "rr_o q \<le> m" "m < rr_e q" "n = m - rr_o q"
    using Suc.prems by (auto simp: m_def)
  have log: "rr_end q - 1 - of_nat k = of_nat m" using walk_logical [OF k(1)] by (simp add: m_def)
  have next_k: "of_nat k + 1 = (of_nat (Suc k) :: u64)" by simp
  have begun: "\<not> of_nat m + rr_cap q < rr_end q"
  proof -
    have u: "unat (of_nat m :: u64) = m" using k(4) unsigned_less [of "rr_end q", where ?'a = nat] by (simp add: unat_of_nat)
    have "rr_e q \<le> m + unat (rr_cap q)" using k(3) reader_ok_oldest [OF ok] by (simp add: min_def split: if_splits)
    moreover have "m + unat (rr_cap q) < two64" using k(4) ok by (simp add: reader_ok_def)
    ultimately show ?thesis using u by (simp add: word_less_nat_alt unat_word_ariths)
  qed
  have IH: "query_walk q (\<lambda>_. rr_end q) ov since until mx (of_nat (Suc k)) o' n acc'
      = acc' @ take (mx - length acc') (rev (map (override_sample ov) (filter (in_window since until) (samples_upto q m))))"
    if "length acc' \<le> mx" for o' acc'
    using Suc.IH [of "Suc k" acc' o'] k that by (simp add: m_def)
  have split: "samples_upto q (rr_e q - k) = samples_upto q m @ (case rr_at q m of None \<Rightarrow> [] | Some s \<Rightarrow> [s])"
    using samples_upto_Suc [OF k(3)] k(2) by simp
  show ?case
  proof (cases "length acc < mx")
    case False
    then show ?thesis using Suc.prems(3) by simp
  next
    case True
    show ?thesis
    proof (cases "rr_at q m")
      case None
      then have "query_walk q (\<lambda>_. rr_end q) ov since until mx (of_nat k) older (Suc n) acc =
          query_walk q (\<lambda>_. rr_end q) ov since until mx (of_nat (Suc k)) older n acc"
        using True
        by (auto simp: reader_read_def log next_k begun Let_def bind_eq_None_conv simp del: of_nat_Suc split: option.split)
      then show ?thesis using IH [of acc] Suc.prems(3) split None by simp
    next
      case (Some s)
      then obtain b where b: "read_slot (rr_ring q) (rr_file q) (rr_io q) record_size_for_sample (of_nat m) = Some b"
        "read_record b = Some s" by (auto simp: reader_read_def bind_eq_Some_conv)
      have step: "query_walk q (\<lambda>_. rr_end q) ov since until mx (of_nat k) older (Suc n) acc =
          (if s_timestamp_nanos s < since
           then (if older + 1 > kDisorderLookback then acc
                 else query_walk q (\<lambda>_. rr_end q) ov since until mx (of_nat (Suc k)) (older + 1) n acc)
           else if until \<noteq> 0 \<and> s_timestamp_nanos s > until
           then query_walk q (\<lambda>_. rr_end q) ov since until mx (of_nat (Suc k)) 0 n acc
           else query_walk q (\<lambda>_. rr_end q) ov since until mx (of_nat (Suc k)) 0 n (acc @ [override_sample ov s]))"
        using True by (simp add: log b begun next_k Let_def del: of_nat_Suc)
      show ?thesis
      proof (cases "s_timestamp_nanos s < since")
        case older: True
        then have "filter (in_window since until) (samples_upto q m) = []"
          using samples_upto_older [OF ord k(3,4) Some] by (fastforce simp: filter_empty_conv in_window_def)
        moreover have "\<not> in_window since until s" using older by (auto simp: in_window_def)
        ultimately show ?thesis unfolding step split Some using older IH [of acc] Suc.prems(3) by simp
      next
        case newer: False
        show ?thesis
        proof (cases "until \<noteq> 0 \<and> s_timestamp_nanos s > until")
          case late: True
          then have "\<not> in_window since until s" by (auto simp: in_window_def)
          then show ?thesis unfolding step split Some using newer late IH [of acc] Suc.prems(3) by simp
        next
          case inside: False
          then have win: "in_window since until s" using newer by (auto simp: in_window_def not_less)
          have "mx - length acc = Suc (mx - Suc (length acc))" using True by simp
          then show ?thesis unfolding step split Some
            using newer inside win IH [of "acc @ [override_sample ov s]"] True by auto
        qed
      qed
    qed
  qed
qed

text \<open>On a ring in time order, with nobody writing meanwhile, \<open>query_ring\<close> is the newest
  \<open>max_records\<close> readable records of the window.\<close>

lemma not_max:
  assumes "(x :: u64) \<noteq> - 1"
  shows "unat x + 1 < two64"
proof (rule ccontr)
  assume "\<not> unat x + 1 < two64"
  then have "unat x = 18446744073709551615" using unsigned_less [of x, where ?'a = nat] by simp
  then have "(of_nat (unat x) :: u64) = of_nat 18446744073709551615" by simp
  then show False using assms by simp
qed

lemma filter_window_cut:
  assumes "bounds q (until + 1) m m" and "rr_o q \<le> m" and "m \<le> rr_e q" and "until \<noteq> 0" and "until \<noteq> -1"
  shows "filter (in_window since until) (reader_samples q) = filter (in_window since until) (samples_upto q m)"
proof -
  have "filter (in_window since until) (List.map_filter (rr_at q) [m..<rr_e q]) = []"
  proof (simp add: filter_empty_conv set_map_filter, intro allI impI)
    fix x assume "\<exists>i \<in> {m..<rr_e q}. rr_at q i = Some x"
    then have "until + 1 \<le> s_timestamp_nanos x" using assms(1) by (auto simp: bounds_def)
    then have "until < s_timestamp_nanos x"
      using unat_Suc [OF not_max [OF assms(5)]] by (simp add: word_le_nat_alt word_less_nat_alt)
    then show "\<not> in_window since until x" using assms(4) by (auto simp: in_window_def)
  qed
  then show ?thesis using map_filter_split_upt [OF assms(2,3), of "rr_at q"] by (simp add: samples_upto_def)
qed


lemma walk_start:
  assumes "reader_ok q" and "time_ordered q" and "rr_o q \<le> unat start" and "unat start \<le> rr_e q"
    and "filter (in_window since until) (reader_samples q) = filter (in_window since until) (samples_upto q (unat start))"
    and that: "unat valid = rr_e q - rr_o q"
  shows "rev (query_walk q (\<lambda>_. rr_end q) ov since until mx (rr_end q - start) 0 (unat valid - unat (rr_end q - start)) [])
    = last_n mx (map (override_sample ov) (filter (in_window since until) (reader_samples q)))"
proof -
  have k: "unat (rr_end q - start) = rr_e q - unat start" using assms(4) by (simp add: unat_sub word_le_nat_alt)
  then have w: "rr_end q - start = of_nat (rr_e q - unat start)" by (metis of_nat_unat ucast_id)
  have "unat valid - unat (rr_end q - start) = rr_e q - (rr_e q - unat start) - rr_o q"
    using that k assms(3,4) by simp
  then show ?thesis
    using query_walk_ok [OF assms(1,2), of "rr_e q - unat start" "unat valid - unat (rr_end q - start)" "[]" mx ov since until 0]
      assms(4,5) unfolding w [symmetric] by (simp add: last_n_def take_rev)
qed

lemma query_ring_ok:
  assumes ok: "reader_ok q" and ord: "time_ordered q"
  shows "query_ring q (\<lambda>_. rr_end q) ov since until mx
    = last_n mx (map (override_sample ov) (filter (in_window since until) (reader_samples q)))"
proof -
  define valid where "valid = (if rr_end q < rr_cap q then rr_end q else rr_cap q)"
  have valid: "unat valid = rr_e q - rr_o q" "rr_end q - valid = rr_oldest q"
    using ok reader_ok_oldest [OF ok] by (auto simp: valid_def reader_ok_def word_less_nat_alt min_def)
  show ?thesis
  proof (cases "rr_cap q = 0 \<or> rr_end q = 0")
    case True
    then have "rr_e q - rr_o q = 0" using reader_ok_oldest [OF ok] by auto
    then have "reader_samples q = []" by (simp add: samples_upto_def map_filter_simps)
    then show ?thesis using True by (simp add: query_ring_def Let_def)
  next
    case open_ring: False
    show ?thesis
    proof (cases "until \<noteq> 0 \<and> since > until")
      case True
      then have "filter (in_window since until) (reader_samples q) = []"
        by (auto simp: filter_empty_conv in_window_def)
      then show ?thesis using True open_ring by (simp add: query_ring_def Let_def)
    next
      case window: False
      define start where "start = (if until \<noteq> 0 \<and> until \<noteq> -1 then lower_bound q (until + 1) else rr_end q)"
      note lb = lower_bound_ok [OF ord ok, of "until + 1"]
      have st: "rr_o q \<le> unat start" "unat start \<le> rr_e q"
        using lb reader_le [OF ok] by (auto simp: start_def)
      have cut: "filter (in_window since until) (reader_samples q) = filter (in_window since until) (samples_upto q (unat start))"
        using filter_window_cut [OF lb] by (auto simp: start_def)
      have clamp: "\<not> start > rr_end q" "\<not> start < rr_end q - valid"
        using st by (simp_all add: valid(2) word_less_nat_alt)
      have "query_ring q (\<lambda>_. rr_end q) ov since until mx
          = rev (query_walk q (\<lambda>_. rr_end q) ov since until mx (rr_end q - start) 0 (unat valid - unat (rr_end q - start)) [])"
        using open_ring window clamp
        by (simp add: query_ring_def Let_def flip: valid_def) (auto simp: start_def)
      then show ?thesis using walk_start [OF ok ord st cut valid(1)] by simp
    qed
  qed
qed

section \<open>A reader of a ring\<close>

lemma reader_new_ok:
  "rf_w r + rf_cap r < two64 \<Longrightarrow> ring_ok r f \<Longrightarrow> reader_ok (reader_new r f io)"
  by (simp add: reader_ok_def reader_new_def Let_def write_index_def ring_ok_def)

lemma reader_new_sel:
  assumes "ring_ok r f"
  shows "rr_end (reader_new r f io) = rf_widx r" "rr_cap (reader_new r f io) = rf_capacity r"
    "rr_ring (reader_new r f io) = r" "rr_file (reader_new r f io) = f" "rr_io (reader_new r f io) = io"
  using assms by (simp_all add: reader_new_def Let_def write_index_def ring_ok_def)

lemma map_filter_map: "List.map_filter g (map h xs) = List.map_filter (g \<circ> h) xs"
  by (simp add: map_filter_def filter_map comp_def)

lemma map_filter_cong:
  "(\<And>x. x \<in> set xs \<Longrightarrow> f x = g x) \<Longrightarrow> List.map_filter f xs = List.map_filter g xs"
  by (induction xs) (simp_all add: map_filter_simps split: option.split)

text \<open>What a reader sees is what the ring holds: the records, oldest first, that decode.\<close>

lemma reader_samples_ring:
  assumes "ring_ok r f" and "rf_rs r = record_size_for_sample" and "rf_w r + rf_cap r < two64"
  shows "reader_samples (reader_new r f no_errors) = List.map_filter read_record (ring_records r f)"
proof -
  let ?q = "reader_new r f no_errors"
  note sel = reader_new_sel [OF assms(1), of no_errors]
  have o: "rr_o ?q = rf_w r - min (rf_w r) (rf_cap r)"
    using reader_ok_oldest [OF reader_new_ok [OF assms(3,1)], of no_errors] sel by simp
  have at: "rr_at ?q i = read_record (slots (rf_rs r) (rf_cap r) f ! (i mod rf_cap r))" if "i < rf_w r" for i
  proof -
    have "i < two64" using that assms(3) by simp
    then have "read_slot r f no_errors (rf_rs r) (of_nat i) = Some (slot_bytes (rf_rs r) f (i mod rf_cap r))"
      using read_slot_ok [OF ring_ok_shape [OF assms(1)], of no_errors "of_nat i"] by (simp add: unat_of_nat)
    moreover have "i mod rf_cap r < rf_cap r" using assms(1) by (simp add: ring_ok_def)
    ultimately show ?thesis using sel assms(2) by (simp add: reader_read_def)
  qed
  have "List.map_filter (rr_at ?q) [rr_o ?q..<rf_w r]
      = List.map_filter (\<lambda>i. read_record (slots (rf_rs r) (rf_cap r) f ! (i mod rf_cap r))) (live (rf_cap r) (rf_w r))"
    unfolding live_def o by (rule map_filter_cong) (simp add: at)
  then show ?thesis using sel by (simp add: samples_upto_def ring_records_def map_filter_map comp_def)
qed

section \<open>Folded records that a finer ring still covers\<close>

lemma any_in_iff:
  assumes "reader_ok q" and "time_ordered q" and "lo < hi"
  shows "any_in q lo hi \<longleftrightarrow> (\<exists>s \<in> set (reader_samples q). lo < s_timestamp_nanos s \<and> s_timestamp_nanos s \<le> hi)"
proof -
  define m where "m = unat (lower_bound q (lo + 1))"
  have b: "bounds q (lo + 1) m m" "rr_o q \<le> m" "m \<le> rr_e q"
    using lower_bound_ok [OF assms(2,1), of "lo + 1"] by (simp_all add: m_def)
  have e: "rr_e q < two64" using unsigned_less [of "rr_end q", where ?'a = nat] by simp
  have lo: "t < lo + 1 \<longleftrightarrow> t \<le> lo" for t
  proof -
    have "lo \<noteq> -1" using assms(3) by (metis not_less word_order.extremum)
    then show ?thesis using unat_Suc [OF not_max] by (simp add: word_less_nat_alt word_le_nat_alt less_Suc_eq_le)
  qed
  have set: "s \<in> set (reader_samples q) \<longleftrightarrow> (\<exists>i. rr_o q \<le> i \<and> i < rr_e q \<and> rr_at q i = Some s)" for s
    by (auto simp: samples_upto_def set_map_filter)
  have w: "lower_bound q (lo + 1) = of_nat m" by (simp add: m_def)
  have lt: "m + (rr_e q - m) < two64" using b(3) e by simp
  have tf: "ts_from q (of_nat m) = ts_from_loop q (of_nat m) (rr_e q - m)" using b(3) e by (intro ts_from_nat) simp
  show ?thesis
  proof (cases "reader_empty q")
    case True
    then have "reader_samples q = []"
      using reader_ok_oldest [OF assms(1)] by (auto simp: reader_empty_def samples_upto_def map_filter_simps)
    then show ?thesis using True by (simp add: any_in_def)
  next
    case False
    then have any: "any_in q lo hi \<longleftrightarrow> (case ts_from_loop q (of_nat m) (rr_e q - m) of None \<Rightarrow> False | Some ts \<Rightarrow> ts \<le> hi)"
      using assms(3) unfolding any_in_def w tf by (simp add: not_le)
    show ?thesis
    proof (cases "ts_from_loop q (of_nat m) (rr_e q - m)")
      case None
      have "s_timestamp_nanos s \<le> lo" if "rr_o q \<le> i" "i < rr_e q" "rr_at q i = Some s" for i s
        using ts_from_loop_None [OF lt None, of i] b(1) that b(3) lo by (cases "i < m") (auto simp: bounds_def)
      then show ?thesis using any None by (fastforce simp: set not_less)
    next
      case (Some t)
      obtain j u where j: "m \<le> j" "j < rr_e q" "rr_at q j = Some u" "t = s_timestamp_nanos u"
        "\<forall>i. m \<le> i \<and> i < j \<longrightarrow> rr_at q i = None"
        using ts_from_loop_Some [OF lt Some] b(3) by auto
      have "lo + 1 \<le> t" using b(1) j by (auto simp: bounds_def)
      then have gt: "lo < t" using lo [of t] by (metis not_le)
      have least: "t \<le> s_timestamp_nanos s" if s: "s \<in> set (reader_samples q)" "lo < s_timestamp_nanos s" for s
      proof -
        obtain i where i: "rr_o q \<le> i" "i < rr_e q" "rr_at q i = Some s" using s(1) by (auto simp: set)
        have "m \<le> i" using b(1) i s(2) lo by (fastforce simp: bounds_def not_le)
        then have "j \<le> i" using j(5) i(3) by (metis not_le option.distinct(1))
        then show ?thesis using time_orderedD [OF assms(2) _ _ i(2) j(3) i(3)] j(1,4) b(2) by simp
      qed
      have "u \<in> set (reader_samples q)" using j b(2) by (auto simp: set)
      then show ?thesis using any Some gt least j(4) by fastforce
    qed
  qed
qed

lemma dropWhile_sorted_le:
  fixes lo :: "'a::linorder"
  assumes "sorted xs"
  shows "dropWhile (\<lambda>t. t \<le> lo) xs = filter (\<lambda>t. lo < t) xs"
  using assms
proof (induction xs)
  case (Cons a xs)
  show ?case
  proof (cases "a \<le> lo")
    case False
    then have "\<forall>x \<in> set xs. lo < x" using Cons.prems by auto
    then show ?thesis using False by (simp add: not_le)
  qed (use Cons in simp)
qed simp

text \<open>The start of a folded record's window.\<close>

definition fold_start :: "u64 \<Rightarrow> sample \<Rightarrow> u64" where
  "fold_start window_ns s =
     (if s_timestamp_nanos s > window_ns then s_timestamp_nanos s - window_ns else 0)"

lemma fold_start_less:
  assumes "window_ns \<noteq> 0" and "s_timestamp_nanos s \<noteq> 0"
  shows "fold_start window_ns s < s_timestamp_nanos s"
proof -
  have "0 < unat window_ns" "0 < unat (s_timestamp_nanos s)" using assms by simp_all
  then show ?thesis by (auto simp: fold_start_def word_less_nat_alt unat_sub word_le_nat_alt)
qed

lemma covered_iff:
  assumes "\<And>q. q \<in> set readers \<Longrightarrow> reader_ok q \<and> time_ordered q" and "window_ns \<noteq> 0" and "sorted seen_ts"
  shows "covered window_ns seen_ts readers s \<longleftrightarrow> s_folded s \<and>
    (\<exists>t \<in> set seen_ts \<union> s_timestamp_nanos ` (\<Union>q \<in> set readers. set (reader_samples q)).
       fold_start window_ns s < t \<and> t \<le> s_timestamp_nanos s)"
proof (cases "s_folded s")
  case True
  let ?lo = "fold_start window_ns s" and ?hi = "s_timestamp_nanos s"
  have rings: "list_ex (\<lambda>q. any_in q ?lo ?hi) readers \<longleftrightarrow>
      (\<exists>t \<in> s_timestamp_nanos ` (\<Union>q \<in> set readers. set (reader_samples q)). ?lo < t \<and> t \<le> ?hi)"
  proof (cases "?hi = 0")
    case True
    then have "?lo = 0" by (simp add: fold_start_def)
    then show ?thesis using True by (auto simp: list_ex_iff any_in_def)
  next
    case False
    then have "any_in q ?lo ?hi \<longleftrightarrow> (\<exists>s \<in> set (reader_samples q). ?lo < s_timestamp_nanos s \<and> s_timestamp_nanos s \<le> ?hi)"
      if "q \<in> set readers" for q
      using any_in_iff assms(1) [OF that] fold_start_less [OF assms(2) False] by blast
    then show ?thesis by (auto simp: list_ex_iff)
  qed
  have seen: "(case filter (\<lambda>t. ?lo < t) seen_ts of [] \<Rightarrow> R | t # _ \<Rightarrow> if t \<le> ?hi then True else R) \<longleftrightarrow>
      (\<exists>t \<in> set seen_ts. ?lo < t \<and> t \<le> ?hi) \<or> R" for R
  proof (cases "filter (\<lambda>t. ?lo < t) seen_ts")
    case Nil
    then show ?thesis by (auto simp: filter_empty_conv)
  next
    case (Cons a as)
    have "sorted (filter (\<lambda>t. ?lo < t) seen_ts)" using assms(3) by (rule sorted_wrt_filter)
    then have least: "\<forall>t \<in> set as. a \<le> t" using Cons by simp
    have "set (filter (\<lambda>t. ?lo < t) seen_ts) = insert a (set as)" using Cons by simp
    then have mem: "t \<in> set seen_ts \<and> ?lo < t \<longleftrightarrow> t = a \<or> t \<in> set as" for t by auto
    have "(\<exists>t \<in> set seen_ts. ?lo < t \<and> t \<le> ?hi) \<longleftrightarrow> a \<le> ?hi"
      using mem least by (metis order_trans)
    then show ?thesis using Cons by simp
  qed
  show ?thesis
    using True unfolding covered_def fold_start_def [symmetric] Let_def
    by (simp add: dropWhile_sorted_le [OF assms(3)] seen rings del: dropWhile_eq_Nil_conv) blast
qed (simp add: covered_def)

section \<open>Thinning\<close>

text \<open>\<open>std::sort\<close> by timestamp: any order that is sorted and a permutation.\<close>

locale time_sort =
  fixes srt :: "sample list \<Rightarrow> sample list"
  assumes srt_mset: "mset (srt xs) = mset xs"
    and srt_sorted: "sorted (map s_timestamp_nanos (srt xs))"
begin

lemma srt_set: "set (srt xs) = set xs"
  by (metis set_mset_mset srt_mset)

lemma srt_length: "length (srt xs) = length xs"
  by (metis size_mset srt_mset)

lemma srt_Nil: "srt [] = []"
  using srt_length [of "[]"] by simp

end

interpretation stable_sort: time_sort "sort_key s_timestamp_nanos"
  by unfold_locales simp_all


lemma thin_set: "set (thin slc lo ls acc ss) \<subseteq> set acc \<union> set ss"
proof (induction ss arbitrary: ls acc)
  case (Cons s ss)
  have "set (butlast acc @ [s]) \<subseteq> set acc \<union> {s}" by (auto dest: in_set_butlastD)
  then show ?case using Cons.IH [of ls "butlast acc @ [s]"] Cons.IH [of "slc (s_timestamp_nanos s - lo)" "acc @ [s]"]
    by (auto simp: Let_def)
qed simp

lemma thin_sorted:
  "sorted (map s_timestamp_nanos (acc @ ss)) \<Longrightarrow> sorted (map s_timestamp_nanos (thin slc lo ls acc ss))"
proof (induction ss arbitrary: ls acc)
  case (Cons s ss)
  have "sorted (map s_timestamp_nanos ((butlast acc @ [s]) @ ss))"
    using Cons.prems by (cases acc rule: rev_cases) (auto simp: sorted_append)
  then show ?case using Cons by (simp add: Let_def)
qed simp

lemma thin_last: "ss \<noteq> [] \<Longrightarrow> thin slc lo ls acc ss \<noteq> [] \<and> last (thin slc lo ls acc ss) = last ss"
proof (induction ss arbitrary: ls acc)
  case (Cons s ss)
  then show ?case by (cases "ss = []") (simp_all add: Let_def)
qed simp

lemma thin_length:
  "acc \<noteq> [] \<Longrightarrow> sorted (map (\<lambda>s. unat (slc (s_timestamp_nanos s - lo))) ss) \<Longrightarrow>
   (\<forall>s \<in> set ss. unat ls \<le> unat (slc (s_timestamp_nanos s - lo)) \<and> unat (slc (s_timestamp_nanos s - lo)) < n) \<Longrightarrow>
   unat ls < n \<Longrightarrow> length (thin slc lo ls acc ss) \<le> length acc + (n - 1 - unat ls)"
proof (induction ss arbitrary: ls acc)
  case (Cons s ss)
  let ?sl = "slc (s_timestamp_nanos s - lo)"
  show ?case
  proof (cases "?sl = ls")
    case True
    have "length (butlast acc @ [s]) = length acc" using Cons.prems(1) by simp
    then show ?thesis using Cons.IH [of "butlast acc @ [s]" ls] Cons.prems True by (simp add: Let_def)
  next
    case False
    then have "unat ls < unat ?sl" using Cons.prems(3) by (simp add: le_neq_implies_less word_unat_eq_iff)
    then show ?thesis using Cons.IH [of "acc @ [s]" ?sl] Cons.prems False by (auto simp: Let_def)
  qed
qed simp

text \<open>What the slice computation guarantees: it grows with the offset and stays below
  \<open>max_records\<close> inside the span.\<close>

definition slices :: "(u64 \<Rightarrow> nat \<Rightarrow> u64 \<Rightarrow> u64) \<Rightarrow> bool" where
  "slices slc \<longleftrightarrow> (\<forall>span mx d. 0 < mx \<and> unat d < unat span \<longrightarrow> unat (slc span mx d) < mx) \<and>
     (\<forall>span mx d d'. unat d \<le> unat d' \<and> unat d' < unat span \<longrightarrow> unat (slc span mx d) \<le> unat (slc span mx d'))"

lemma sub_less_span:
  fixes t lo hi :: u64
  assumes "lo \<le> t" and "t \<le> hi" and "hi - lo \<noteq> -1"
  shows "unat (t - lo) < unat (hi - lo + 1)"
proof -
  have "unat (hi - lo + 1) = Suc (unat (hi - lo))" by (rule unat_Suc [OF not_max [OF assms(3)]])
  moreover have "unat (t - lo) \<le> unat (hi - lo)"
    using assms by (simp add: unat_sub word_le_nat_alt)
  ultimately show ?thesis by simp
qed

context time_sort
begin

lemma merge_subset: "set (query_merge srt slc mx fine l2 l1) \<subseteq> set fine \<union> set l2 \<union> set l1"
proof -
  have "set (thin f lo ls [] (srt (fine @ l2 @ l1))) \<subseteq> set (srt (fine @ l2 @ l1))" for f lo ls
    using thin_set [of f lo ls "[]"] by simp
  then show ?thesis using srt_set [of "fine @ l2 @ l1"] unfolding query_merge_def Let_def by auto
qed

lemma merge_sorted: "sorted (map s_timestamp_nanos (query_merge srt slc mx fine l2 l1))"
  using srt_sorted thin_sorted [of "[]"] by (simp add: query_merge_def Let_def)

lemma merge_length:
  assumes "slices slc" and "0 < mx"
    and "s_timestamp_nanos (last (srt (fine @ l2 @ l1))) - s_timestamp_nanos (hd (srt (fine @ l2 @ l1))) \<noteq> -1"
    and "mx < two64"
  shows "length (query_merge srt slc mx fine l2 l1) \<le> mx"
proof (cases "length (srt (fine @ l2 @ l1)) > mx")
  case True
  then obtain s ss where m: "srt (fine @ l2 @ l1) = s # ss" by (cases "srt (fine @ l2 @ l1)") auto
  let ?lo = "s_timestamp_nanos s" and ?hi = "s_timestamp_nanos (last (s # ss))"
  let ?slc = "slc (?hi - ?lo + 1) mx"
  have sorted: "sorted (map s_timestamp_nanos (s # ss))" using srt_sorted [of "fine @ l2 @ l1"] m by simp
  have range: "?lo \<le> s_timestamp_nanos x \<and> s_timestamp_nanos x \<le> ?hi" if "x \<in> set (s # ss)" for x
  proof
    show "?lo \<le> s_timestamp_nanos x" using sorted that by auto
    have "s # ss = butlast (s # ss) @ [last (s # ss)]" by simp
    then have "sorted (map s_timestamp_nanos (butlast (s # ss) @ [last (s # ss)]))" "x \<in> set (butlast (s # ss) @ [last (s # ss)])"
      using sorted that by (metis, metis)
    then show "s_timestamp_nanos x \<le> ?hi" by (auto simp: sorted_append)
  qed
  have span: "?hi - ?lo \<noteq> -1" using assms(3) m by simp
  have lt: "unat (?slc (s_timestamp_nanos x - ?lo)) < mx" if "x \<in> set (s # ss)" for x
    using assms(1,2) sub_less_span [OF _ _ span, of "s_timestamp_nanos x"] range [OF that] by (simp add: slices_def)
  have mono: "unat (?slc (s_timestamp_nanos x - ?lo)) \<le> unat (?slc (s_timestamp_nanos y - ?lo))"
    if "x \<in> set (s # ss)" "y \<in> set (s # ss)" "s_timestamp_nanos x \<le> s_timestamp_nanos y" for x y
  proof -
    have "unat (s_timestamp_nanos x - ?lo) \<le> unat (s_timestamp_nanos y - ?lo)"
      using range [OF that(1)] that(3) order_trans by (simp add: unat_sub word_le_nat_alt)
    moreover have "unat (s_timestamp_nanos y - ?lo) < unat (?hi - ?lo + 1)"
      using sub_less_span [OF _ _ span] range [OF that(2)] by simp
    ultimately show ?thesis using assms(1) by (simp add: slices_def)
  qed
  have so: "sorted (map (\<lambda>x. unat (?slc (s_timestamp_nanos x - ?lo))) ss)"
    using sorted mono by (auto simp: sorted_map intro: sorted_wrt_mono_rel [rotated])
  have first: "unat (?slc 0) < mx" using lt [of s] by simp
  have "unat (- 1 :: u64) = 18446744073709551615" by (simp add: unsigned_minus_1_eq_mask mask_eq_exp_minus_1)
  then have "?slc 0 \<noteq> -1" using first assms(4) by auto
  then have "query_merge srt slc mx fine l2 l1 = thin ?slc ?lo (?slc 0) [s] ss"
    using True by (simp add: query_merge_def Let_def m)
  moreover have "length (thin ?slc ?lo (?slc 0) [s] ss) \<le> length [s] + (mx - 1 - unat (?slc 0))"
    using so first lt mono [of s] sorted by (intro thin_length) auto
  ultimately show ?thesis using first by simp
qed (simp add: query_merge_def)

end

section \<open>Properties\<close>

lemma query_ring_of_ring:
  assumes "ring_ok r f" and "rf_rs r = record_size_for_sample" and "rf_w r + rf_cap r < two64"
    and "sorted (map s_timestamp_nanos (List.map_filter read_record (ring_records r f)))"
  shows "query_ring (reader_new r f no_errors) (\<lambda>_. write_begun r f) ov since until max_records =
    last_n max_records (map (override_sample ov)
      (filter (in_window since until) (List.map_filter read_record (ring_records r f))))"
proof -
  let ?q = "reader_new r f no_errors"
  have samples: "reader_samples ?q = List.map_filter read_record (ring_records r f)"
    by (rule reader_samples_ring [OF assms(1-3)])
  have "write_begun r f = rr_end ?q"
    using assms(1) by (simp add: write_begun_def reader_new_sel ring_ok_def)
  then show ?thesis
    using query_ring_ok [OF reader_new_ok [OF assms(3,1)], of no_errors ov since until max_records] assms(4) samples
    by (simp add: time_ordered_def)
qed

text \<open>C7: Querying one ring in time order for a window returns exactly the readable records whose
  stamps lie in the window (with no upper bound when \<open>until\<close> is 0), the newest \<open>max_records\<close> of them,
  oldest first, with the level replaced when the ring is a custom level's: the binary search, the
  early stop and the look-back never lose a record.\<close>

theorem query_ring_window:
  assumes "ring_ok r f" and "rf_rs r = record_size_for_sample" and "rf_w r + rf_cap r < two64"
    and "sorted (map s_timestamp_nanos (List.map_filter read_record (ring_records r f)))"
  shows "query_ring (reader_new r f no_errors) (\<lambda>_. write_begun r f) ov since until max_records =
    last_n max_records (map (override_sample ov)
      (filter (in_window since until) (List.map_filter read_record (ring_records r f))))"
  by (rule query_ring_of_ring [OF assms])

theorem query_ring_window_witness:
  "query_ring (reader_new (fst demo_ring1) (snd demo_ring1) no_errors)
     (\<lambda>_. write_begun (fst demo_ring1) (snd demo_ring1)) 0 5 10 3 = [demo_sample]"
proof -
  have rec: "ring_records (fst demo_ring1) (snd demo_ring1) = [slot_bytes 542 (snd demo_ring1) 0]"
    by (simp add: ring_records_def demo_ring1_ok live_def)
  moreover have "read_record (slot_bytes 542 (snd demo_ring1) 0) = Some demo_sample"
    using demo_ring1_ok(6) by (auto simp: slot_sample_def demo_ring1_ok bind_eq_Some_conv split: if_splits)
  ultimately have s: "List.map_filter read_record (ring_records (fst demo_ring1) (snd demo_ring1)) = [demo_sample]"
    by (simp add: map_filter_simps)
  have "in_window 5 10 demo_sample" by (simp add: in_window_def demo_sample_def word_le_nat_alt)
  then show ?thesis
    using query_ring_window [OF demo_ring1_ok(1), of 0 5 10 3] s
    by (simp add: demo_ring1_ok record_size_eq override_sample_def)
qed

text \<open>In a merged query a folded record is left out exactly when some finer data of its fold
  window still exists: a sample already read, or a record in one of the finer rings, stamped after
  the window's start and not after its end. Every record that is not folded stays.\<close>

theorem drop_covered_spec:
  assumes "\<forall>q \<in> set readers. reader_ok q \<and> time_ordered q" and "window_ns \<noteq> 0"
  shows "drop_covered recs window_ns seen readers = filter (\<lambda>s. \<not> (s_folded s \<and>
    (\<exists>t \<in> s_timestamp_nanos ` (set (concat seen) \<union> (\<Union>q \<in> set readers. set (reader_samples q))).
       fold_start window_ns s < t \<and> t \<le> s_timestamp_nanos s))) recs"
proof -
  have "sorted (sort (map s_timestamp_nanos (concat seen)))" by simp
  then show ?thesis
    using assms unfolding drop_covered_def by (simp add: Let_def covered_iff image_Un)
qed

theorem drop_covered_spec_witness:
  "drop_covered [demo_sample\<lparr>s_folded := True\<rparr>] 5 [[demo_sample\<lparr>s_timestamp_nanos := 3\<rparr>]] [] = []"
  using drop_covered_spec [of "[]" 5 "[demo_sample\<lparr>s_folded := True\<rparr>]" "[[demo_sample\<lparr>s_timestamp_nanos := 3\<rparr>]]"]
  by (simp add: fold_start_def demo_sample_def word_less_nat_alt word_le_nat_alt)

text \<open>A merged query returns at most \<open>max_records\<close> samples, in time order, all of them from the
  rings' shares, whatever order the sort gives equal stamps, and whatever rounding the slice
  computation has as long as it grows with the offset and stays below \<open>max_records\<close>.\<close>

theorem query_merge_bounded:
  assumes "time_sort srt" and "slices slc" and "0 < max_records" and "max_records < two64"
    and "s_timestamp_nanos (last (srt (fine @ l2 @ l1))) - s_timestamp_nanos (hd (srt (fine @ l2 @ l1))) \<noteq> -1"
  shows "length (query_merge srt slc max_records fine l2 l1) \<le> max_records \<and>
    sorted (map s_timestamp_nanos (query_merge srt slc max_records fine l2 l1)) \<and>
    set (query_merge srt slc max_records fine l2 l1) \<subseteq> set fine \<union> set l2 \<union> set l1"
  using time_sort.merge_length [OF assms(1-3,5,4)] time_sort.merge_sorted [OF assms(1)]
    time_sort.merge_subset [OF assms(1)] by blast

text \<open>Exact slices, without rounding.\<close>

definition exact_slice :: "u64 \<Rightarrow> nat \<Rightarrow> u64 \<Rightarrow> u64" where
  "exact_slice sp mx d = of_nat (min ((unat d * mx) div unat sp) (two64 - 1))"

lemma unat_exact_slice: "unat (exact_slice sp mx d) = min ((unat d * mx) div unat sp) (two64 - 1)"
proof -
  have "min ((unat d * mx) div unat sp) (two64 - 1) < two64" by (simp add: min_def)
  then show ?thesis unfolding exact_slice_def unat_of_nat by simp
qed

lemma exact_slices: "slices exact_slice"
  unfolding slices_def unat_exact_slice
proof (intro conjI allI impI)
  fix sp d :: u64 and mx :: nat
  assume h: "0 < mx \<and> unat d < unat sp"
  then have "unat d * mx < mx * unat sp" by (simp add: mult.commute)
  then have "(unat d * mx) div unat sp < mx" by (intro less_mult_imp_div_less)
  then show "min ((unat d * mx) div unat sp) (two64 - 1) < mx" by simp
next
  fix sp d d' :: u64 and mx :: nat
  assume "unat d \<le> unat d' \<and> unat d' < unat sp"
  then have "(unat d * mx) div unat sp \<le> (unat d' * mx) div unat sp" by (intro div_le_mono mult_le_mono) auto
  then show "min ((unat d * mx) div unat sp) (two64 - 1) \<le> min ((unat d' * mx) div unat sp) (two64 - 1)" by simp
qed

theorem query_merge_bounded_witness:
  "length (query_merge (sort_key s_timestamp_nanos) exact_slice 1 [demo_sample] [demo_sample] []) \<le> 1"
  using query_merge_bounded [OF stable_sort.time_sort_axioms exact_slices, of 1 "[demo_sample]" "[demo_sample]" "[]"]
  by simp

end
