(* ===== verification/Tier_Aggregator.thy ===== *)
theory Tier_Aggregator
  imports Sample
begin

text \<open>
  Folding a window of finer samples into one summary record (\<open>src/storage/tier_aggregator.h\<close>,
  \<open>src/storage/tier_aggregator.cpp\<close>). The accumulator is a record of the class's members. The
  updates of one \<open>add\<close> touch disjoint members, each under the test of its group, so they are
  written as one record update. Proved here: what each kind of field of a summary is (the largest,
  the smallest, the sum, any, all, the last), which groups it has, that a group nobody collected
  stays zero, and that the summary of a single sample is that sample.
\<close>

section \<open>State\<close>

definition kGroupCount :: nat where
  "kGroupCount = 17"

record aggregator =
  ag_out_level :: level
  ag_n :: nat
  ag_first_ts :: u64
  ag_group_n :: "u32 list"
  ag_cpu_total_percent_sum :: f64
  ag_mem_available_sum :: f64
  ag_mem_available_percent_sum :: f64
  ag_swap_used_sum :: f64
  ag_swap_used_percent_sum :: f64
  ag_load_1m_sum :: f64
  ag_load_5m_sum :: f64
  ag_load_15m_sum :: f64
  ag_disk_read_sum :: f64
  ag_disk_write_sum :: f64
  ag_net_rx_sum :: f64
  ag_net_tx_sum :: f64
  ag_cpu_part_sum :: "f64 list"
  ag_tcp_rate_sum :: "f64 list"
  ag_udp_rate_sum :: "f64 list"
  ag_icmp_rate_sum :: "f64 list"
  ag_proc_total_max :: u32
  ag_proc_running_max :: u32
  ag_thermal_max :: f64
  ag_rss_max :: u64
  ag_entropy_min :: u32
  ag_file_events_sum :: u64
  ag_entropy_present :: bool
  ag_thermal_present :: bool
  ag_file_watch_present :: bool
  ag_proc_max :: process_stats
  ag_tcp :: tcp_stats
  ag_udp_present :: bool
  ag_icmp_present :: bool
  ag_fs_max :: fs_stats
  ag_clock :: clock_stats
  ag_last :: sample

definition aggregator_reset :: "level \<Rightarrow> aggregator" where
  "aggregator_reset out_level = \<lparr>
     ag_out_level = out_level, ag_n = 0, ag_first_ts = 0, ag_group_n = replicate kGroupCount 0,
     ag_cpu_total_percent_sum = 0, ag_mem_available_sum = 0, ag_mem_available_percent_sum = 0,
     ag_swap_used_sum = 0, ag_swap_used_percent_sum = 0, ag_load_1m_sum = 0, ag_load_5m_sum = 0,
     ag_load_15m_sum = 0, ag_disk_read_sum = 0, ag_disk_write_sum = 0, ag_net_rx_sum = 0,
     ag_net_tx_sum = 0, ag_cpu_part_sum = replicate 6 0, ag_tcp_rate_sum = replicate 6 0,
     ag_udp_rate_sum = replicate 4 0, ag_icmp_rate_sum = replicate 4 0, ag_proc_total_max = 0,
     ag_proc_running_max = 0, ag_thermal_max = 0, ag_rss_max = 0, ag_entropy_min = 0xFFFFFFFF,
     ag_file_events_sum = 0, ag_entropy_present = False, ag_thermal_present = False,
     ag_file_watch_present = False, ag_proc_max = proc_zero, ag_tcp = tcp_zero,
     ag_udp_present = False, ag_icmp_present = False, ag_fs_max = fs_zero,
     ag_clock = clock_zero\<lparr>clock_synced := True\<rparr>, ag_last = sample_zero\<rparr>"

section \<open>Adding a sample\<close>

text \<open>\<open>if (b) x = v;\<close>\<close>

definition upd_if :: "bool \<Rightarrow> 'a \<Rightarrow> 'a \<Rightarrow> 'a" where
  "upd_if b v x = (if b then v else x)"

definition sum_rates :: "f64 list \<Rightarrow> f64 list \<Rightarrow> f64 list" where
  "sum_rates acc rates = map2 f64_add acc rates"

definition count_groups :: "u32 \<Rightarrow> u32 list \<Rightarrow> u32 list" where
  "count_groups g ns = map (\<lambda>i. if has_group g (2 ^ i) then ns ! i + 1 else ns ! i) [0..<kGroupCount]"

definition add_proc :: "process_stats \<Rightarrow> process_stats \<Rightarrow> process_stats" where
  "add_proc m p = m\<lparr>
     proc_sleeping := max (proc_sleeping m) (proc_sleeping p),
     proc_blocked := max (proc_blocked m) (proc_blocked p),
     proc_stopped := max (proc_stopped m) (proc_stopped p),
     proc_zombie := max (proc_zombie m) (proc_zombie p),
     proc_threads := max (proc_threads m) (proc_threads p)\<rparr>"

definition add_tcp :: "tcp_stats \<Rightarrow> tcp_stats \<Rightarrow> tcp_stats" where
  "add_tcp m t = m\<lparr>
     tcp_established := max (tcp_established m) (tcp_established t),
     tcp_time_wait := max (tcp_time_wait m) (tcp_time_wait t),
     tcp_present := tcp_present m \<or> tcp_present t\<rparr>"

definition add_fs :: "fs_stats \<Rightarrow> fs_stats \<Rightarrow> fs_stats" where
  "add_fs m f = m\<lparr>
     fs_max_used_percent := f64_max (fs_max_used_percent m) (fs_max_used_percent f),
     fs_max_inodes_used_percent := f64_max (fs_max_inodes_used_percent m) (fs_max_inodes_used_percent f),
     fs_present := fs_present m \<or> fs_present f\<rparr>"

definition add_clock :: "clock_stats \<Rightarrow> clock_stats \<Rightarrow> clock_stats" where
  "add_clock m c = m\<lparr>
     clock_offset_ms := (if \<not> clock_present m \<or> f64_gt (f64_fabs (clock_offset_ms c)) (f64_fabs (clock_offset_ms m))
                         then clock_offset_ms c else clock_offset_ms m),
     clock_max_error_ms := f64_max (clock_max_error_ms m) (clock_max_error_ms c),
     clock_synced := clock_synced m \<and> clock_synced c,
     clock_present := True\<rparr>"

text \<open>The \<open>last_\<close> sample: the stamp always, a group's fields when the sample has the group.\<close>

definition add_last :: "sample \<Rightarrow> sample \<Rightarrow> sample" where
  "add_last l s = (let g = s_groups s in l\<lparr>
     s_timestamp_nanos := s_timestamp_nanos s,
     s_cpu := upd_if (has_group g kGroupCpu) (s_cpu s) (s_cpu l),
     s_mem := upd_if (has_group g kGroupMem) (s_mem s) (s_mem l),
     s_swap := upd_if (has_group g kGroupSwap) (s_swap s) (s_swap l),
     s_disk := upd_if (has_group g kGroupDisk) (s_disk s) (s_disk l),
     s_net := upd_if (has_group g kGroupNet) (s_net s) (s_net l),
     s_self := upd_if (has_group g kGroupSelf) (s_self s) (s_self l),
     s_thermal := upd_if (has_group g kGroupThermal) (s_thermal s) (s_thermal l),
     s_file_watch := upd_if (has_group g kGroupFileWatch) (s_file_watch s) (s_file_watch l),
     s_fs := upd_if (has_group g kGroupFs) (s_fs s) (s_fs l),
     s_uptime_seconds := upd_if (has_group g kGroupUptime) (s_uptime_seconds s) (s_uptime_seconds l)\<rparr>)"

definition cpu_parts :: "cpu_stats \<Rightarrow> f64 list" where
  "cpu_parts c = [cpu_user_percent c, cpu_system_percent c, cpu_iowait_percent c, cpu_irq_percent c,
     cpu_steal_percent c, cpu_idle_percent c]"

definition tcp_rates :: "tcp_stats \<Rightarrow> f64 list" where
  "tcp_rates t = [tcp_active_opens_per_sec t, tcp_passive_opens_per_sec t, tcp_retransmits_per_sec t,
     tcp_in_segments_per_sec t, tcp_out_segments_per_sec t, tcp_in_errors_per_sec t]"

definition udp_rates :: "udp_stats \<Rightarrow> f64 list" where
  "udp_rates u = [udp_in_datagrams_per_sec u, udp_out_datagrams_per_sec u, udp_no_port_per_sec u,
     udp_in_errors_per_sec u]"

definition icmp_rates :: "icmp_stats \<Rightarrow> f64 list" where
  "icmp_rates c = [icmp_in_msgs_per_sec c, icmp_out_msgs_per_sec c, icmp_in_errors_per_sec c,
     icmp_in_dest_unreachs_per_sec c]"

abbreviation f64_of_u64 :: "u64 \<Rightarrow> f64" where
  "f64_of_u64 v \<equiv> f64_of_nat (unat v)"

definition aggregator_add :: "aggregator \<Rightarrow> sample \<Rightarrow> aggregator" where
  "aggregator_add a s = (let g = s_groups s; has = has_group g in a\<lparr>
     ag_first_ts := (if ag_n a = 0 then s_timestamp_nanos s else ag_first_ts a),
     ag_n := ag_n a + 1,
     ag_group_n := count_groups g (ag_group_n a),
     ag_cpu_total_percent_sum := upd_if (has kGroupCpu)
       (f64_add (ag_cpu_total_percent_sum a) (cpu_total_percent (s_cpu s))) (ag_cpu_total_percent_sum a),
     ag_cpu_part_sum := upd_if (has kGroupCpu)
       (sum_rates (ag_cpu_part_sum a) (cpu_parts (s_cpu s))) (ag_cpu_part_sum a),
     ag_mem_available_sum := upd_if (has kGroupMem)
       (f64_add (ag_mem_available_sum a) (f64_of_u64 (mem_available (s_mem s)))) (ag_mem_available_sum a),
     ag_mem_available_percent_sum := upd_if (has kGroupMem)
       (f64_add (ag_mem_available_percent_sum a) (mem_available_percent (s_mem s))) (ag_mem_available_percent_sum a),
     ag_swap_used_sum := upd_if (has kGroupSwap)
       (f64_add (ag_swap_used_sum a) (f64_of_u64 (swap_used (s_swap s)))) (ag_swap_used_sum a),
     ag_swap_used_percent_sum := upd_if (has kGroupSwap)
       (f64_add (ag_swap_used_percent_sum a) (swap_used_percent (s_swap s))) (ag_swap_used_percent_sum a),
     ag_load_1m_sum := upd_if (has kGroupLoad)
       (f64_add (ag_load_1m_sum a) (load_avg_1m (s_load s))) (ag_load_1m_sum a),
     ag_load_5m_sum := upd_if (has kGroupLoad)
       (f64_add (ag_load_5m_sum a) (load_avg_5m (s_load s))) (ag_load_5m_sum a),
     ag_load_15m_sum := upd_if (has kGroupLoad)
       (f64_add (ag_load_15m_sum a) (load_avg_15m (s_load s))) (ag_load_15m_sum a),
     ag_disk_read_sum := upd_if (has kGroupDisk)
       (f64_add (ag_disk_read_sum a) (f64_of_u64 (disk_read_bytes_per_sec (s_disk s)))) (ag_disk_read_sum a),
     ag_disk_write_sum := upd_if (has kGroupDisk)
       (f64_add (ag_disk_write_sum a) (f64_of_u64 (disk_write_bytes_per_sec (s_disk s)))) (ag_disk_write_sum a),
     ag_net_rx_sum := upd_if (has kGroupNet)
       (f64_add (ag_net_rx_sum a) (f64_of_u64 (net_rx_bytes_per_sec (s_net s)))) (ag_net_rx_sum a),
     ag_net_tx_sum := upd_if (has kGroupNet)
       (f64_add (ag_net_tx_sum a) (f64_of_u64 (net_tx_bytes_per_sec (s_net s)))) (ag_net_tx_sum a),
     ag_proc_total_max := upd_if (has kGroupProc)
       (max (ag_proc_total_max a) (proc_total (s_proc s))) (ag_proc_total_max a),
     ag_proc_running_max := upd_if (has kGroupProc)
       (max (ag_proc_running_max a) (proc_running (s_proc s))) (ag_proc_running_max a),
     ag_proc_max := upd_if (has kGroupProc) (add_proc (ag_proc_max a) (s_proc s)) (ag_proc_max a),
     ag_rss_max := upd_if (has kGroupSelf)
       (max (ag_rss_max a) (self_rss_bytes (s_self s))) (ag_rss_max a),
     ag_thermal_max := upd_if (has kGroupThermal \<and> thermal_present (s_thermal s))
       (if ag_thermal_present a then f64_max (ag_thermal_max a) (thermal_max_celsius (s_thermal s))
        else thermal_max_celsius (s_thermal s)) (ag_thermal_max a),
     ag_thermal_present := upd_if (has kGroupThermal \<and> thermal_present (s_thermal s)) True (ag_thermal_present a),
     ag_entropy_min := upd_if (has kGroupEntropy \<and> entropy_present (s_entropy s))
       (min (ag_entropy_min a) (entropy_available_bits (s_entropy s))) (ag_entropy_min a),
     ag_entropy_present := upd_if (has kGroupEntropy \<and> entropy_present (s_entropy s)) True (ag_entropy_present a),
     ag_file_events_sum := upd_if (has kGroupFileWatch)
       (ag_file_events_sum a + ucast (fw_events_this_tick (s_file_watch s))) (ag_file_events_sum a),
     ag_file_watch_present := upd_if (has kGroupFileWatch)
       (ag_file_watch_present a \<or> fw_present (s_file_watch s)) (ag_file_watch_present a),
     ag_tcp_rate_sum := upd_if (has kGroupTcp)
       (sum_rates (ag_tcp_rate_sum a) (tcp_rates (s_tcp s))) (ag_tcp_rate_sum a),
     ag_tcp := upd_if (has kGroupTcp) (add_tcp (ag_tcp a) (s_tcp s)) (ag_tcp a),
     ag_udp_rate_sum := upd_if (has kGroupUdp)
       (sum_rates (ag_udp_rate_sum a) (udp_rates (s_udp s))) (ag_udp_rate_sum a),
     ag_udp_present := upd_if (has kGroupUdp) (ag_udp_present a \<or> udp_present (s_udp s)) (ag_udp_present a),
     ag_icmp_rate_sum := upd_if (has kGroupIcmp)
       (sum_rates (ag_icmp_rate_sum a) (icmp_rates (s_icmp s))) (ag_icmp_rate_sum a),
     ag_icmp_present := upd_if (has kGroupIcmp) (ag_icmp_present a \<or> icmp_present (s_icmp s)) (ag_icmp_present a),
     ag_fs_max := upd_if (has kGroupFs) (add_fs (ag_fs_max a) (s_fs s)) (ag_fs_max a),
     ag_clock := upd_if (has kGroupClock \<and> clock_present (s_clock s))
       (add_clock (ag_clock a) (s_clock s)) (ag_clock a),
     ag_last := add_last (ag_last a) s\<rparr>)"

section \<open>The summary\<close>

definition mean_u64 :: "f64 \<Rightarrow> f64 \<Rightarrow> u64" where
  "mean_u64 s i = f64_llround (f64_mul s i)"

definition fold_inv :: "u32 list \<Rightarrow> f64 list" where
  "fold_inv ns = map (\<lambda>i. if ns ! i > 0 then f64_div f64_one (f64_of_nat (unat (ns ! i))) else 0) [0..<kGroupCount]"

definition fold_groups :: "u32 list \<Rightarrow> u32" where
  "fold_groups ns = foldl (\<lambda>g i. if ns ! i > 0 then g OR 2 ^ i else g) 0 [0..<kGroupCount]"

text \<open>The \<open>inv_n\<close> lambda: the position of the group's bit, then the table.\<close>

fun group_index_from :: "u32 \<Rightarrow> nat \<Rightarrow> nat \<Rightarrow> nat" where
  "group_index_from b i 0 = i"
| "group_index_from b i (Suc fuel) = (if drop_bit i b \<noteq> 1 then group_index_from b (i + 1) fuel else i)"

definition inv_n :: "u32 list \<Rightarrow> u32 \<Rightarrow> f64" where
  "inv_n ns b = fold_inv ns ! group_index_from b 0 32"

definition aggregator_result :: "aggregator \<Rightarrow> sample" where
  "aggregator_result a =
     (let l = ag_last a; inv = inv_n (ag_group_n a) in l\<lparr>
        s_level := ag_out_level a,
        s_folded := True,
        s_cpu := (s_cpu l)\<lparr>
          cpu_total_percent := f64_mul (ag_cpu_total_percent_sum a) (inv kGroupCpu),
          cpu_user_percent := f64_mul (ag_cpu_part_sum a ! 0) (inv kGroupCpu),
          cpu_system_percent := f64_mul (ag_cpu_part_sum a ! 1) (inv kGroupCpu),
          cpu_iowait_percent := f64_mul (ag_cpu_part_sum a ! 2) (inv kGroupCpu),
          cpu_irq_percent := f64_mul (ag_cpu_part_sum a ! 3) (inv kGroupCpu),
          cpu_steal_percent := f64_mul (ag_cpu_part_sum a ! 4) (inv kGroupCpu),
          cpu_idle_percent := f64_mul (ag_cpu_part_sum a ! 5) (inv kGroupCpu)\<rparr>,
        s_mem := (s_mem l)\<lparr>
          mem_available := mean_u64 (ag_mem_available_sum a) (inv kGroupMem),
          mem_available_percent := f64_mul (ag_mem_available_percent_sum a) (inv kGroupMem)\<rparr>,
        s_swap := (s_swap l)\<lparr>
          swap_used := mean_u64 (ag_swap_used_sum a) (inv kGroupSwap),
          swap_used_percent := f64_mul (ag_swap_used_percent_sum a) (inv kGroupSwap)\<rparr>,
        s_load := (s_load l)\<lparr>
          load_avg_1m := f64_mul (ag_load_1m_sum a) (inv kGroupLoad),
          load_avg_5m := f64_mul (ag_load_5m_sum a) (inv kGroupLoad),
          load_avg_15m := f64_mul (ag_load_15m_sum a) (inv kGroupLoad)\<rparr>,
        s_disk := (s_disk l)\<lparr>
          disk_read_bytes_per_sec := mean_u64 (ag_disk_read_sum a) (inv kGroupDisk),
          disk_write_bytes_per_sec := mean_u64 (ag_disk_write_sum a) (inv kGroupDisk)\<rparr>,
        s_net := (s_net l)\<lparr>
          net_rx_bytes_per_sec := mean_u64 (ag_net_rx_sum a) (inv kGroupNet),
          net_tx_bytes_per_sec := mean_u64 (ag_net_tx_sum a) (inv kGroupNet)\<rparr>,
        s_proc := (s_proc l)\<lparr>
          proc_total := ag_proc_total_max a, proc_running := ag_proc_running_max a,
          proc_sleeping := proc_sleeping (ag_proc_max a), proc_blocked := proc_blocked (ag_proc_max a),
          proc_stopped := proc_stopped (ag_proc_max a), proc_zombie := proc_zombie (ag_proc_max a),
          proc_threads := proc_threads (ag_proc_max a)\<rparr>,
        s_self := (s_self l)\<lparr>self_rss_bytes := ag_rss_max a\<rparr>,
        s_thermal := (s_thermal l)\<lparr>
          thermal_present := ag_thermal_present a,
          thermal_max_celsius := (if ag_thermal_present a then ag_thermal_max a else 0)\<rparr>,
        s_entropy := (s_entropy l)\<lparr>
          entropy_present := ag_entropy_present a,
          entropy_available_bits := (if ag_entropy_present a then ag_entropy_min a else 0)\<rparr>,
        s_file_watch := (s_file_watch l)\<lparr>
          fw_present := ag_file_watch_present a,
          fw_events_this_tick := ucast (min (ag_file_events_sum a) 0xFFFFFFFF)\<rparr>,
        s_tcp := (s_tcp l)\<lparr>
          tcp_established := tcp_established (ag_tcp a), tcp_time_wait := tcp_time_wait (ag_tcp a),
          tcp_active_opens_per_sec := f64_mul (ag_tcp_rate_sum a ! 0) (inv kGroupTcp),
          tcp_passive_opens_per_sec := f64_mul (ag_tcp_rate_sum a ! 1) (inv kGroupTcp),
          tcp_retransmits_per_sec := f64_mul (ag_tcp_rate_sum a ! 2) (inv kGroupTcp),
          tcp_in_segments_per_sec := f64_mul (ag_tcp_rate_sum a ! 3) (inv kGroupTcp),
          tcp_out_segments_per_sec := f64_mul (ag_tcp_rate_sum a ! 4) (inv kGroupTcp),
          tcp_in_errors_per_sec := f64_mul (ag_tcp_rate_sum a ! 5) (inv kGroupTcp),
          tcp_present := tcp_present (ag_tcp a)\<rparr>,
        s_udp := (s_udp l)\<lparr>
          udp_in_datagrams_per_sec := f64_mul (ag_udp_rate_sum a ! 0) (inv kGroupUdp),
          udp_out_datagrams_per_sec := f64_mul (ag_udp_rate_sum a ! 1) (inv kGroupUdp),
          udp_no_port_per_sec := f64_mul (ag_udp_rate_sum a ! 2) (inv kGroupUdp),
          udp_in_errors_per_sec := f64_mul (ag_udp_rate_sum a ! 3) (inv kGroupUdp),
          udp_present := ag_udp_present a\<rparr>,
        s_icmp := (s_icmp l)\<lparr>
          icmp_in_msgs_per_sec := f64_mul (ag_icmp_rate_sum a ! 0) (inv kGroupIcmp),
          icmp_out_msgs_per_sec := f64_mul (ag_icmp_rate_sum a ! 1) (inv kGroupIcmp),
          icmp_in_errors_per_sec := f64_mul (ag_icmp_rate_sum a ! 2) (inv kGroupIcmp),
          icmp_in_dest_unreachs_per_sec := f64_mul (ag_icmp_rate_sum a ! 3) (inv kGroupIcmp),
          icmp_present := ag_icmp_present a\<rparr>,
        s_fs := (s_fs l)\<lparr>
          fs_max_used_percent := fs_max_used_percent (ag_fs_max a),
          fs_max_inodes_used_percent := fs_max_inodes_used_percent (ag_fs_max a),
          fs_present := fs_present (ag_fs_max a)\<rparr>,
        s_clock := (if clock_present (ag_clock a) then ag_clock a
                    else (ag_clock a)\<lparr>clock_synced := False\<rparr>),
        s_groups := fold_groups (ag_group_n a)\<rparr>)"

text \<open>\<open>out\<close> is null or not; the result says whether \<open>*out\<close> was written.\<close>

definition aggregator_fold :: "aggregator \<Rightarrow> bool \<Rightarrow> bool \<times> sample option \<times> aggregator" where
  "aggregator_fold a out_null =
     (if out_null then (False, None, aggregator_reset (ag_out_level a))
      else if ag_n a = 0 then (False, None, aggregator_reset (ag_out_level a))
      else (True, Some (aggregator_result a), aggregator_reset (ag_out_level a)))"

definition aggregator_size :: "aggregator \<Rightarrow> nat" where
  "aggregator_size a = ag_n a"

definition first_timestamp :: "aggregator \<Rightarrow> u64" where
  "first_timestamp a = ag_first_ts a"

section \<open>A window, member by member\<close>

abbreviation window :: "level \<Rightarrow> sample list \<Rightarrow> aggregator" where
  "window lv xs \<equiv> foldl aggregator_add (aggregator_reset lv) xs"

text \<open>A member updated under a test is the fold over the samples that pass it.\<close>

lemma window_member:
  assumes "\<And>a s. sel (aggregator_add a s) = upd_if (P s) (step (sel a) s) (sel a)"
  shows "sel (foldl aggregator_add a xs) = foldl step (sel a) (filter P xs)"
  by (induction xs arbitrary: a) (simp_all add: assms upd_if_def)

text \<open>So a member no sample of the window has is as \<open>reset\<close> left it.\<close>

lemma foldl_max: "foldl (\<lambda>m s. max m (v s)) (a :: 'b::linorder) ys = Max (insert a (v ` set ys))"
proof (induction ys arbitrary: a)
  case (Cons y ys)
  have "Max (insert (max a (v y)) (v ` set ys)) = Max (insert a (insert (v y) (v ` set ys)))"
    by (cases "ys = []") (simp_all add: max.assoc)
  then show ?case using Cons.IH [of "max a (v y)"] by simp
qed simp

lemma foldl_min: "foldl (\<lambda>m s. min m (v s)) (a :: 'b::linorder) ys = Min (insert a (v ` set ys))"
proof (induction ys arbitrary: a)
  case (Cons y ys)
  have "Min (insert (min a (v y)) (v ` set ys)) = Min (insert a (insert (v y) (v ` set ys)))"
    by (cases "ys = []") (simp_all add: min.assoc)
  then show ?case using Cons.IH [of "min a (v y)"] by simp
qed simp

lemma foldl_or: "foldl (\<lambda>b s. b \<or> v s) a ys \<longleftrightarrow> a \<or> (\<exists>s \<in> set ys. v s)"
  by (induction ys arbitrary: a) auto

lemma foldl_True: "foldl (\<lambda>b s. True) a ys \<longleftrightarrow> a \<or> ys \<noteq> []"
  by (induction ys arbitrary: a) auto

lemma foldl_sum: "foldl (\<lambda>m s. m + v s) (a :: 'b::comm_monoid_add) ys = a + sum_list (map v ys)"
  by (induction ys arbitrary: a) (simp_all add: add.assoc)

lemma aggregator_add_sel:
  "ag_out_level (aggregator_add a s) = ag_out_level a"
  "ag_n (aggregator_add a s) = Suc (ag_n a)"
  "ag_group_n (aggregator_add a s) = count_groups (s_groups s) (ag_group_n a)"
  "ag_last (aggregator_add a s) = add_last (ag_last a) s"
  by (simp_all add: aggregator_add_def Let_def)

lemma aggregator_add_max:
  "ag_proc_total_max (aggregator_add a s) = upd_if (has_group (s_groups s) kGroupProc)
     (max (ag_proc_total_max a) (proc_total (s_proc s))) (ag_proc_total_max a)"
  "ag_proc_running_max (aggregator_add a s) = upd_if (has_group (s_groups s) kGroupProc)
     (max (ag_proc_running_max a) (proc_running (s_proc s))) (ag_proc_running_max a)"
  "ag_rss_max (aggregator_add a s) = upd_if (has_group (s_groups s) kGroupSelf)
     (max (ag_rss_max a) (self_rss_bytes (s_self s))) (ag_rss_max a)"
  "proc_blocked (ag_proc_max (aggregator_add a s)) = upd_if (has_group (s_groups s) kGroupProc)
     (max (proc_blocked (ag_proc_max a)) (proc_blocked (s_proc s))) (proc_blocked (ag_proc_max a))"
  "proc_zombie (ag_proc_max (aggregator_add a s)) = upd_if (has_group (s_groups s) kGroupProc)
     (max (proc_zombie (ag_proc_max a)) (proc_zombie (s_proc s))) (proc_zombie (ag_proc_max a))"
  "proc_threads (ag_proc_max (aggregator_add a s)) = upd_if (has_group (s_groups s) kGroupProc)
     (max (proc_threads (ag_proc_max a)) (proc_threads (s_proc s))) (proc_threads (ag_proc_max a))"
  "tcp_established (ag_tcp (aggregator_add a s)) = upd_if (has_group (s_groups s) kGroupTcp)
     (max (tcp_established (ag_tcp a)) (tcp_established (s_tcp s))) (tcp_established (ag_tcp a))"
  "tcp_time_wait (ag_tcp (aggregator_add a s)) = upd_if (has_group (s_groups s) kGroupTcp)
     (max (tcp_time_wait (ag_tcp a)) (tcp_time_wait (s_tcp s))) (tcp_time_wait (ag_tcp a))"
  by (simp_all add: aggregator_add_def Let_def upd_if_def add_proc_def add_tcp_def)

lemma aggregator_add_flags:
  "ag_entropy_min (aggregator_add a s) =
     upd_if (has_group (s_groups s) kGroupEntropy \<and> entropy_present (s_entropy s))
       (min (ag_entropy_min a) (entropy_available_bits (s_entropy s))) (ag_entropy_min a)"
  "ag_entropy_present (aggregator_add a s) =
     upd_if (has_group (s_groups s) kGroupEntropy \<and> entropy_present (s_entropy s)) True (ag_entropy_present a)"
  "ag_thermal_present (aggregator_add a s) =
     upd_if (has_group (s_groups s) kGroupThermal \<and> thermal_present (s_thermal s)) True (ag_thermal_present a)"
  "ag_file_events_sum (aggregator_add a s) = upd_if (has_group (s_groups s) kGroupFileWatch)
     (ag_file_events_sum a + ucast (fw_events_this_tick (s_file_watch s))) (ag_file_events_sum a)"
  "ag_file_watch_present (aggregator_add a s) = upd_if (has_group (s_groups s) kGroupFileWatch)
     (ag_file_watch_present a \<or> fw_present (s_file_watch s)) (ag_file_watch_present a)"
  "ag_udp_present (aggregator_add a s) = upd_if (has_group (s_groups s) kGroupUdp)
     (ag_udp_present a \<or> udp_present (s_udp s)) (ag_udp_present a)"
  "ag_icmp_present (aggregator_add a s) = upd_if (has_group (s_groups s) kGroupIcmp)
     (ag_icmp_present a \<or> icmp_present (s_icmp s)) (ag_icmp_present a)"
  "tcp_present (ag_tcp (aggregator_add a s)) = upd_if (has_group (s_groups s) kGroupTcp)
     (tcp_present (ag_tcp a) \<or> tcp_present (s_tcp s)) (tcp_present (ag_tcp a))"
  "fs_present (ag_fs_max (aggregator_add a s)) = upd_if (has_group (s_groups s) kGroupFs)
     (fs_present (ag_fs_max a) \<or> fs_present (s_fs s)) (fs_present (ag_fs_max a))"
  by (simp_all add: aggregator_add_def Let_def upd_if_def add_tcp_def add_fs_def)

lemmas window_max = aggregator_add_max [THEN window_member]
lemmas window_flags = aggregator_add_flags [THEN window_member]

lemma reset_sel [simp]:
  "ag_out_level (aggregator_reset lv) = lv" "ag_n (aggregator_reset lv) = 0"
  "ag_group_n (aggregator_reset lv) = replicate kGroupCount 0" "ag_last (aggregator_reset lv) = sample_zero"
  "ag_proc_total_max (aggregator_reset lv) = 0" "ag_proc_running_max (aggregator_reset lv) = 0"
  "ag_rss_max (aggregator_reset lv) = 0" "ag_proc_max (aggregator_reset lv) = proc_zero"
  "ag_tcp (aggregator_reset lv) = tcp_zero" "ag_entropy_min (aggregator_reset lv) = 0xFFFFFFFF"
  "ag_entropy_present (aggregator_reset lv) = False" "ag_thermal_present (aggregator_reset lv) = False"
  "ag_file_events_sum (aggregator_reset lv) = 0" "ag_file_watch_present (aggregator_reset lv) = False"
  "ag_udp_present (aggregator_reset lv) = False" "ag_icmp_present (aggregator_reset lv) = False"
  "ag_fs_max (aggregator_reset lv) = fs_zero"
  "ag_cpu_total_percent_sum (aggregator_reset lv) = 0" "ag_mem_available_sum (aggregator_reset lv) = 0"
  "ag_mem_available_percent_sum (aggregator_reset lv) = 0" "ag_swap_used_sum (aggregator_reset lv) = 0"
  "ag_swap_used_percent_sum (aggregator_reset lv) = 0" "ag_load_1m_sum (aggregator_reset lv) = 0"
  "ag_load_5m_sum (aggregator_reset lv) = 0" "ag_load_15m_sum (aggregator_reset lv) = 0"
  "ag_disk_read_sum (aggregator_reset lv) = 0" "ag_disk_write_sum (aggregator_reset lv) = 0"
  "ag_net_rx_sum (aggregator_reset lv) = 0" "ag_net_tx_sum (aggregator_reset lv) = 0"
  "ag_cpu_part_sum (aggregator_reset lv) = replicate 6 0" "ag_tcp_rate_sum (aggregator_reset lv) = replicate 6 0"
  "ag_udp_rate_sum (aggregator_reset lv) = replicate 4 0" "ag_icmp_rate_sum (aggregator_reset lv) = replicate 4 0"
  "ag_thermal_max (aggregator_reset lv) = 0"
  "ag_clock (aggregator_reset lv) = clock_zero\<lparr>clock_synced := True\<rparr>"
  by (simp_all add: aggregator_reset_def)

lemma window_n: "ag_n (window lv xs) = length xs" "ag_out_level (window lv xs) = lv"
proof -
  have "ag_n (foldl aggregator_add a xs) = ag_n a + length xs"
    "ag_out_level (foldl aggregator_add a xs) = ag_out_level a" for a
    by (induction xs arbitrary: a) (simp_all add: aggregator_add_sel)
  then show "ag_n (window lv xs) = length xs" "ag_out_level (window lv xs) = lv" by simp_all
qed

section \<open>Groups\<close>

lemma group_index:
  "group_index_from kGroupCpu 0 32 = 0" "group_index_from kGroupMem 0 32 = 1"
  "group_index_from kGroupSwap 0 32 = 2" "group_index_from kGroupLoad 0 32 = 3"
  "group_index_from kGroupDisk 0 32 = 4" "group_index_from kGroupNet 0 32 = 5"
  "group_index_from kGroupTcp 0 32 = 12" "group_index_from kGroupUdp 0 32 = 13"
  "group_index_from kGroupIcmp 0 32 = 16"
  by code_simp+

lemma window_group_n:
  assumes "i < kGroupCount"
  shows "ag_group_n (window lv xs) ! i = of_nat (length (filter (\<lambda>s. bit (s_groups s) i) xs))"
proof -
  have "length (ag_group_n a) = kGroupCount \<Longrightarrow>
      ag_group_n (foldl aggregator_add a xs) ! i = ag_group_n a ! i + of_nat (length (filter (\<lambda>s. bit (s_groups s) i) xs))"
    for a
  proof (induction xs arbitrary: a)
    case (Cons x xs)
    have "length (ag_group_n (aggregator_add a x)) = kGroupCount"
      by (simp add: aggregator_add_sel count_groups_def)
    then show ?case using Cons.IH [of "aggregator_add a x"] assms
      by (simp add: aggregator_add_sel count_groups_def has_group_bit kGroupCount_def)
  qed simp
  from this [of "aggregator_reset lv"] show ?thesis using assms by simp
qed

lemma window_group_pos:
  assumes "i < kGroupCount" and "length xs < 2 ^ 32"
  shows "0 < ag_group_n (window lv xs) ! i \<longleftrightarrow> (\<exists>s \<in> set xs. bit (s_groups s) i)"
proof -
  let ?n = "length (filter (\<lambda>s. bit (s_groups s) i) xs)"
  have "?n < 2 ^ 32" using length_filter_le assms(2) by (rule le_less_trans)
  then have "unat (of_nat ?n :: u32) = ?n" by (simp add: unat_of_nat)
  moreover have "0 < ?n \<longleftrightarrow> (\<exists>s \<in> set xs. bit (s_groups s) i)" by (auto simp: filter_empty_conv)
  ultimately show ?thesis using window_group_n [OF assms(1), of lv xs] by (simp add: word_less_nat_alt)
qed

lemma fold_groups_bit: "bit (fold_groups ns) i \<longleftrightarrow> i < kGroupCount \<and> ns ! i > 0"
proof -
  have "bit (foldl (\<lambda>g i. if P i then g OR 2 ^ i else g) g0 is) n
      \<longleftrightarrow> bit g0 n \<or> n \<in> set is \<and> P n \<and> n < 32" for g0 :: u32 and "is" n P
    by (induction "is" arbitrary: g0) (auto simp: bit_simps)
  then show ?thesis by (auto simp: fold_groups_def kGroupCount_def)
qed

lemma inv_absent: "i < kGroupCount \<Longrightarrow> ns ! i = 0 \<Longrightarrow> fold_inv ns ! i = 0"
  by (simp add: fold_inv_def)

text \<open>A member whose group no sample of the window has is as \<open>reset\<close> left it.\<close>

lemma window_absent:
  assumes "\<And>a s. \<not> has_group (s_groups s) b \<Longrightarrow> sel (aggregator_add a s) = sel a"
    and "\<forall>s \<in> set xs. \<not> has_group (s_groups s) b"
  shows "sel (window lv xs) = sel (aggregator_reset lv)"
proof -
  have "sel (foldl aggregator_add a xs) = sel a" for a
    using assms(2) by (induction xs arbitrary: a) (simp_all add: assms(1))
  then show ?thesis .
qed

lemma absent_cpu:
  assumes "\<forall>s \<in> set xs. \<not> has_group (s_groups s) kGroupCpu"
  shows "ag_cpu_total_percent_sum (window lv xs) = 0"
    "ag_cpu_part_sum (window lv xs) = replicate 6 0"
    "s_cpu (ag_last (window lv xs)) = cpu_zero"
  using window_absent [of kGroupCpu "\<lambda>a. (ag_cpu_total_percent_sum a, ag_cpu_part_sum a, s_cpu (ag_last a))" xs lv] assms
  by (simp_all add: aggregator_add_def Let_def upd_if_def add_last_def sample_zero_def)

lemma absent_mem:
  assumes "\<forall>s \<in> set xs. \<not> has_group (s_groups s) kGroupMem"
  shows "ag_mem_available_sum (window lv xs) = 0"
    "ag_mem_available_percent_sum (window lv xs) = 0"
    "s_mem (ag_last (window lv xs)) = mem_zero"
  using window_absent [of kGroupMem "\<lambda>a. (ag_mem_available_sum a, ag_mem_available_percent_sum a, s_mem (ag_last a))" xs lv] assms
  by (simp_all add: aggregator_add_def Let_def upd_if_def add_last_def sample_zero_def)

lemma absent_swap:
  assumes "\<forall>s \<in> set xs. \<not> has_group (s_groups s) kGroupSwap"
  shows "ag_swap_used_sum (window lv xs) = 0"
    "ag_swap_used_percent_sum (window lv xs) = 0"
    "s_swap (ag_last (window lv xs)) = swap_zero"
  using window_absent [of kGroupSwap "\<lambda>a. (ag_swap_used_sum a, ag_swap_used_percent_sum a, s_swap (ag_last a))" xs lv] assms
  by (simp_all add: aggregator_add_def Let_def upd_if_def add_last_def sample_zero_def)

lemma absent_load:
  assumes "\<forall>s \<in> set xs. \<not> has_group (s_groups s) kGroupLoad"
  shows "ag_load_1m_sum (window lv xs) = 0"
    "ag_load_5m_sum (window lv xs) = 0"
    "ag_load_15m_sum (window lv xs) = 0"
  using window_absent [of kGroupLoad "\<lambda>a. (ag_load_1m_sum a, ag_load_5m_sum a, ag_load_15m_sum a)" xs lv] assms
  by (simp_all add: aggregator_add_def Let_def upd_if_def add_last_def sample_zero_def)

lemma absent_disk:
  assumes "\<forall>s \<in> set xs. \<not> has_group (s_groups s) kGroupDisk"
  shows "ag_disk_read_sum (window lv xs) = 0"
    "ag_disk_write_sum (window lv xs) = 0"
    "s_disk (ag_last (window lv xs)) = disk_zero"
  using window_absent [of kGroupDisk "\<lambda>a. (ag_disk_read_sum a, ag_disk_write_sum a, s_disk (ag_last a))" xs lv] assms
  by (simp_all add: aggregator_add_def Let_def upd_if_def add_last_def sample_zero_def)

lemma absent_net:
  assumes "\<forall>s \<in> set xs. \<not> has_group (s_groups s) kGroupNet"
  shows "ag_net_rx_sum (window lv xs) = 0"
    "ag_net_tx_sum (window lv xs) = 0"
    "s_net (ag_last (window lv xs)) = net_zero"
  using window_absent [of kGroupNet "\<lambda>a. (ag_net_rx_sum a, ag_net_tx_sum a, s_net (ag_last a))" xs lv] assms
  by (simp_all add: aggregator_add_def Let_def upd_if_def add_last_def sample_zero_def)

lemma absent_proc:
  assumes "\<forall>s \<in> set xs. \<not> has_group (s_groups s) kGroupProc"
  shows "ag_proc_total_max (window lv xs) = 0"
    "ag_proc_running_max (window lv xs) = 0"
    "ag_proc_max (window lv xs) = proc_zero"
  using window_absent [of kGroupProc "\<lambda>a. (ag_proc_total_max a, ag_proc_running_max a, ag_proc_max a)" xs lv] assms
  by (simp_all add: aggregator_add_def Let_def upd_if_def add_last_def sample_zero_def)

lemma absent_self:
  assumes "\<forall>s \<in> set xs. \<not> has_group (s_groups s) kGroupSelf"
  shows "ag_rss_max (window lv xs) = 0"
    "s_self (ag_last (window lv xs)) = self_zero"
  using window_absent [of kGroupSelf "\<lambda>a. (ag_rss_max a, s_self (ag_last a))" xs lv] assms
  by (simp_all add: aggregator_add_def Let_def upd_if_def add_last_def sample_zero_def)

lemma absent_thermal:
  assumes "\<forall>s \<in> set xs. \<not> has_group (s_groups s) kGroupThermal"
  shows "ag_thermal_max (window lv xs) = 0"
    "ag_thermal_present (window lv xs) = False"
    "s_thermal (ag_last (window lv xs)) = thermal_zero"
  using window_absent [of kGroupThermal "\<lambda>a. (ag_thermal_max a, ag_thermal_present a, s_thermal (ag_last a))" xs lv] assms
  by (simp_all add: aggregator_add_def Let_def upd_if_def add_last_def sample_zero_def)

lemma absent_entropy:
  assumes "\<forall>s \<in> set xs. \<not> has_group (s_groups s) kGroupEntropy"
  shows "ag_entropy_min (window lv xs) = 0xFFFFFFFF"
    "ag_entropy_present (window lv xs) = False"
  using window_absent [of kGroupEntropy "\<lambda>a. (ag_entropy_min a, ag_entropy_present a)" xs lv] assms
  by (simp_all add: aggregator_add_def Let_def upd_if_def add_last_def sample_zero_def)

lemma absent_file_watch:
  assumes "\<forall>s \<in> set xs. \<not> has_group (s_groups s) kGroupFileWatch"
  shows "ag_file_events_sum (window lv xs) = 0"
    "ag_file_watch_present (window lv xs) = False"
    "s_file_watch (ag_last (window lv xs)) = file_watch_zero"
  using window_absent [of kGroupFileWatch "\<lambda>a. (ag_file_events_sum a, ag_file_watch_present a, s_file_watch (ag_last a))" xs lv] assms
  by (simp_all add: aggregator_add_def Let_def upd_if_def add_last_def sample_zero_def)

lemma absent_uptime:
  assumes "\<forall>s \<in> set xs. \<not> has_group (s_groups s) kGroupUptime"
  shows "s_uptime_seconds (ag_last (window lv xs)) = 0"
  using window_absent [of kGroupUptime "\<lambda>a. (s_uptime_seconds (ag_last a))" xs lv] assms
  by (simp_all add: aggregator_add_def Let_def upd_if_def add_last_def sample_zero_def)

lemma absent_tcp:
  assumes "\<forall>s \<in> set xs. \<not> has_group (s_groups s) kGroupTcp"
  shows "ag_tcp_rate_sum (window lv xs) = replicate 6 0"
    "ag_tcp (window lv xs) = tcp_zero"
  using window_absent [of kGroupTcp "\<lambda>a. (ag_tcp_rate_sum a, ag_tcp a)" xs lv] assms
  by (simp_all add: aggregator_add_def Let_def upd_if_def add_last_def sample_zero_def)

lemma absent_udp:
  assumes "\<forall>s \<in> set xs. \<not> has_group (s_groups s) kGroupUdp"
  shows "ag_udp_rate_sum (window lv xs) = replicate 4 0"
    "ag_udp_present (window lv xs) = False"
  using window_absent [of kGroupUdp "\<lambda>a. (ag_udp_rate_sum a, ag_udp_present a)" xs lv] assms
  by (simp_all add: aggregator_add_def Let_def upd_if_def add_last_def sample_zero_def)

lemma absent_icmp:
  assumes "\<forall>s \<in> set xs. \<not> has_group (s_groups s) kGroupIcmp"
  shows "ag_icmp_rate_sum (window lv xs) = replicate 4 0"
    "ag_icmp_present (window lv xs) = False"
  using window_absent [of kGroupIcmp "\<lambda>a. (ag_icmp_rate_sum a, ag_icmp_present a)" xs lv] assms
  by (simp_all add: aggregator_add_def Let_def upd_if_def add_last_def sample_zero_def)

lemma absent_fs:
  assumes "\<forall>s \<in> set xs. \<not> has_group (s_groups s) kGroupFs"
  shows "ag_fs_max (window lv xs) = fs_zero"
    "s_fs (ag_last (window lv xs)) = fs_zero"
  using window_absent [of kGroupFs "\<lambda>a. (ag_fs_max a, s_fs (ag_last a))" xs lv] assms
  by (simp_all add: aggregator_add_def Let_def upd_if_def add_last_def sample_zero_def)

lemma absent_clock:
  assumes "\<forall>s \<in> set xs. \<not> has_group (s_groups s) kGroupClock"
  shows "ag_clock (window lv xs) = clock_zero\<lparr>clock_synced := True\<rparr>"
  using window_absent [of kGroupClock "\<lambda>a. (ag_clock a)" xs lv] assms
  by (simp_all add: aggregator_add_def Let_def upd_if_def add_last_def sample_zero_def)

lemma f64_zero_products [simp]: "f64_mul 0 0 = 0" "mean_u64 0 0 = 0"
proof -
  show "f64_mul 0 0 = 0" by (simp add: f64_mul_def f64_round_def f64_pack_def floorlog_def)
  moreover have "f64_finite 0" by (simp add: f64_finite_def)
  ultimately show "mean_u64 0 0 = 0" by (simp add: mean_u64_def f64_llround_def)
qed

lemma window_inv_absent:
  assumes "i < kGroupCount" and "\<forall>s \<in> set xs. \<not> bit (s_groups s) i"
  shows "fold_inv (ag_group_n (window lv xs)) ! i = 0"
proof (rule inv_absent [OF assms(1)])
  have "filter (\<lambda>s. bit (s_groups s) i) xs = []" using assms(2) by (simp add: filter_empty_conv)
  then show "ag_group_n (window lv xs) ! i = 0" using window_group_n [OF assms(1)] by simp
qed

lemma nth_zeros: "replicate 6 (0 :: f64) = [0, 0, 0, 0, 0, 0]" "replicate 4 (0 :: f64) = [0, 0, 0, 0]"
  by (simp_all add: eval_nat_numeral)

text \<open>Members of \<open>last_\<close> that \<open>add\<close> never sets.\<close>

lemma window_last_untouched:
  "s_load (ag_last (window lv xs)) = load_zero" "s_proc (ag_last (window lv xs)) = proc_zero"
  "s_entropy (ag_last (window lv xs)) = entropy_zero" "s_tcp (ag_last (window lv xs)) = tcp_zero"
  "s_udp (ag_last (window lv xs)) = udp_zero" "s_icmp (ag_last (window lv xs)) = icmp_zero"
  "s_baseline (ag_last (window lv xs)) = 0"
proof -
  have "(\<lambda>l. (s_load l, s_proc l, s_entropy l, s_tcp l, s_udp l, s_icmp l, s_baseline l)) (ag_last (foldl aggregator_add a xs))
      = (\<lambda>l. (s_load l, s_proc l, s_entropy l, s_tcp l, s_udp l, s_icmp l, s_baseline l)) (ag_last a)" for a
    by (induction xs arbitrary: a) (simp_all add: aggregator_add_sel add_last_def Let_def)
  from this [of "aggregator_reset lv"] show
    "s_load (ag_last (window lv xs)) = load_zero" "s_proc (ag_last (window lv xs)) = proc_zero"
    "s_entropy (ag_last (window lv xs)) = entropy_zero" "s_tcp (ag_last (window lv xs)) = tcp_zero"
    "s_udp (ag_last (window lv xs)) = udp_zero" "s_icmp (ag_last (window lv xs)) = icmp_zero"
    "s_baseline (ag_last (window lv xs)) = 0"
    by (simp_all add: sample_zero_def)
qed

lemma result_absent:
  fixes xs lv
  defines "r \<equiv> aggregator_result (window lv xs)" and "has \<equiv> (\<lambda>b. \<exists>s \<in> set xs. has_group (s_groups s) b)"
  shows "has kGroupCpu \<or> s_cpu r = cpu_zero" "has kGroupMem \<or> s_mem r = mem_zero"
    "has kGroupSwap \<or> s_swap r = swap_zero" "has kGroupLoad \<or> s_load r = load_zero"
    "has kGroupDisk \<or> s_disk r = disk_zero" "has kGroupNet \<or> s_net r = net_zero"
    "has kGroupProc \<or> s_proc r = proc_zero" "has kGroupEntropy \<or> s_entropy r = entropy_zero"
    "has kGroupSelf \<or> s_self r = self_zero" "has kGroupThermal \<or> s_thermal r = thermal_zero"
    "has kGroupFileWatch \<or> s_file_watch r = file_watch_zero"
    "has kGroupUptime \<or> s_uptime_seconds r = 0" "has kGroupTcp \<or> s_tcp r = tcp_zero"
    "has kGroupUdp \<or> s_udp r = udp_zero" "has kGroupIcmp \<or> s_icmp r = icmp_zero"
    "has kGroupFs \<or> s_fs r = fs_zero" "has kGroupClock \<or> s_clock r = clock_zero"
proof -
  have or_else: "(\<not> P \<Longrightarrow> Q) \<Longrightarrow> P \<or> Q" for P Q by blast
  have inv: "inv_n (ag_group_n (window lv xs)) b = 0"
    if "group_index_from b 0 32 = i" "i < kGroupCount" "\<forall>s \<in> set xs. \<not> bit (s_groups s) i" for b i
    using that window_inv_absent by (simp add: inv_n_def)
  note res = r_def has_def aggregator_result_def Let_def zero_defs nth_zeros kGroupCount_def window_last_untouched
  show "has kGroupCpu \<or> s_cpu r = cpu_zero"
    by (rule or_else) (simp add: res group_bit absent_cpu [unfolded group_bit] inv [OF group_index(1)])
  show "has kGroupMem \<or> s_mem r = mem_zero"
    by (rule or_else) (simp add: res group_bit absent_mem [unfolded group_bit] inv [OF group_index(2)])
  show "has kGroupSwap \<or> s_swap r = swap_zero"
    by (rule or_else) (simp add: res group_bit absent_swap [unfolded group_bit] inv [OF group_index(3)])
  show "has kGroupDisk \<or> s_disk r = disk_zero"
    by (rule or_else) (simp add: res group_bit absent_disk [unfolded group_bit] inv [OF group_index(5)])
  show "has kGroupNet \<or> s_net r = net_zero"
    by (rule or_else) (simp add: res group_bit absent_net [unfolded group_bit] inv [OF group_index(6)])
  show "has kGroupSelf \<or> s_self r = self_zero"
    by (rule or_else) (simp add: res absent_self)
  show "has kGroupThermal \<or> s_thermal r = thermal_zero"
    by (rule or_else) (simp add: res absent_thermal)
  show "has kGroupFileWatch \<or> s_file_watch r = file_watch_zero"
    by (rule or_else) (simp add: res absent_file_watch)
  show "has kGroupUptime \<or> s_uptime_seconds r = 0"
    by (rule or_else) (simp add: res absent_uptime)
  show "has kGroupFs \<or> s_fs r = fs_zero"
    by (rule or_else) (simp add: res absent_fs)
  show "has kGroupClock \<or> s_clock r = clock_zero"
    by (rule or_else) (simp add: res absent_clock)
  show "has kGroupLoad \<or> s_load r = load_zero"
    by (rule or_else) (simp add: res group_bit absent_load [unfolded group_bit] inv [OF group_index(4)])
  show "has kGroupProc \<or> s_proc r = proc_zero"
    by (rule or_else) (simp add: res absent_proc)
  show "has kGroupEntropy \<or> s_entropy r = entropy_zero"
    by (rule or_else) (simp add: res absent_entropy)
  show "has kGroupTcp \<or> s_tcp r = tcp_zero"
    by (rule or_else) (simp add: res group_bit absent_tcp [unfolded group_bit] inv [OF group_index(7)])
  show "has kGroupUdp \<or> s_udp r = udp_zero"
    by (rule or_else) (simp add: res group_bit absent_udp [unfolded group_bit] inv [OF group_index(8)])
  show "has kGroupIcmp \<or> s_icmp r = icmp_zero"
    by (rule or_else) (simp add: res group_bit absent_icmp [unfolded group_bit] inv [OF group_index(9)])
qed

lemma result_groups:
  assumes "length xs < 2 ^ 32" and "i < kGroupCount"
  shows "bit (s_groups (aggregator_result (window lv xs))) i \<longleftrightarrow> (\<exists>s \<in> set xs. bit (s_groups s) i)"
  using window_group_pos [OF assms(2,1)] assms(2)
  by (simp add: aggregator_result_def Let_def fold_groups_bit)

lemma result_absent_zero:
  assumes "length xs < 2 ^ 32"
  shows "absent_zero (aggregator_result (window lv xs))"
proof -
  have iff: "(\<exists>s \<in> set xs. bit (s_groups s) i) \<longleftrightarrow> bit (s_groups (aggregator_result (window lv xs))) i" if "i < 17" for i
    using result_groups [OF assms] that by (simp add: kGroupCount_def)
  show ?thesis
    using result_absent [of xs lv] unfolding absent_zero_def group_bit
    by (simp only: iff zero_less_numeral one_less_numeral_iff numeral_less_iff semiring_norm simp_thms)
qed

section \<open>Properties\<close>

text \<open>A summary has exactly the metric groups some sample of its window had, and every group none
  of them had is all zeros; it carries the output level, the folded mark and the last sample's
  timestamp, and the aggregator starts a new window.\<close>

theorem fold_groups_and_zeros:
  assumes "xs \<noteq> []" and "length xs < 2 ^ 32"
  shows "\<exists>r. aggregator_fold (window lv xs) False = (True, Some r, aggregator_reset lv) \<and>
    (\<forall>i < kGroupCount. bit (s_groups r) i \<longleftrightarrow> (\<exists>s \<in> set xs. bit (s_groups s) i)) \<and>
    absent_zero r \<and> s_level r = lv \<and> s_folded r \<and>
    s_timestamp_nanos r = s_timestamp_nanos (last xs)"
proof -
  have "s_timestamp_nanos (ag_last (foldl aggregator_add a ys)) = s_timestamp_nanos (last ys)" if "ys \<noteq> []" for a ys
    using that by (induction ys rule: rev_induct) (simp_all add: aggregator_add_sel add_last_def Let_def)
  then have "s_timestamp_nanos (aggregator_result (window lv xs)) = s_timestamp_nanos (last xs)"
    using assms(1) by (simp add: aggregator_result_def Let_def)
  moreover have "aggregator_fold (window lv xs) False
      = (True, Some (aggregator_result (window lv xs)), aggregator_reset lv)"
    using assms(1) by (simp add: aggregator_fold_def window_n)
  moreover have "s_level (aggregator_result (window lv xs)) = lv" "s_folded (aggregator_result (window lv xs))"
    by (simp_all add: aggregator_result_def Let_def window_n)
  ultimately show ?thesis using result_groups [OF assms(2)] result_absent_zero [OF assms(2)] by blast
qed

theorem fold_groups_and_zeros_witness:
  "\<exists>r. aggregator_fold (window L2 [sample_zero]) False = (True, Some r, aggregator_reset L2) \<and>
    absent_zero r \<and> s_level r = L2 \<and> s_folded r"
  using fold_groups_and_zeros [of "[sample_zero]" L2] by auto

text \<open>The samples of a window that have a group.\<close>

abbreviation having :: "u32 \<Rightarrow> sample list \<Rightarrow> sample set" where
  "having b xs \<equiv> {s \<in> set xs. has_group (s_groups s) b}"

text \<open>A spike inside a window stays visible in its summary: process counts by state, threads,
  established and time-wait sockets and the resident size are the largest of the samples that have
  the group, the entropy pool the smallest reading, file events their (saturated) sum, and a
  present flag is set exactly when some sample set it.\<close>

theorem fold_keeps_extremes:
  fixes xs lv
  defines "r \<equiv> aggregator_result (window lv xs)"
    and "E \<equiv> {s \<in> set xs. has_group (s_groups s) kGroupEntropy \<and> entropy_present (s_entropy s)}"
  shows "proc_total (s_proc r) = Max (insert 0 ((\<lambda>s. proc_total (s_proc s)) ` having kGroupProc xs)) \<and>
    proc_running (s_proc r) = Max (insert 0 ((\<lambda>s. proc_running (s_proc s)) ` having kGroupProc xs)) \<and>
    proc_blocked (s_proc r) = Max (insert 0 ((\<lambda>s. proc_blocked (s_proc s)) ` having kGroupProc xs)) \<and>
    proc_zombie (s_proc r) = Max (insert 0 ((\<lambda>s. proc_zombie (s_proc s)) ` having kGroupProc xs)) \<and>
    proc_threads (s_proc r) = Max (insert 0 ((\<lambda>s. proc_threads (s_proc s)) ` having kGroupProc xs)) \<and>
    tcp_established (s_tcp r) = Max (insert 0 ((\<lambda>s. tcp_established (s_tcp s)) ` having kGroupTcp xs)) \<and>
    tcp_time_wait (s_tcp r) = Max (insert 0 ((\<lambda>s. tcp_time_wait (s_tcp s)) ` having kGroupTcp xs)) \<and>
    self_rss_bytes (s_self r) = Max (insert 0 ((\<lambda>s. self_rss_bytes (s_self s)) ` having kGroupSelf xs)) \<and>
    s_entropy r = (if E = {} then entropy_zero
       else \<lparr>entropy_available_bits = Min (insert 0xFFFFFFFF ((\<lambda>s. entropy_available_bits (s_entropy s)) ` E)),
             entropy_present = True\<rparr>) \<and>
    fw_events_this_tick (s_file_watch r) = ucast (min (sum_list (map (\<lambda>s. ucast (fw_events_this_tick (s_file_watch s)))
       (filter (\<lambda>s. has_group (s_groups s) kGroupFileWatch) xs))) (0xFFFFFFFF :: u64)) \<and>
    thermal_present (s_thermal r) = (\<exists>s \<in> having kGroupThermal xs. thermal_present (s_thermal s)) \<and>
    fw_present (s_file_watch r) = (\<exists>s \<in> having kGroupFileWatch xs. fw_present (s_file_watch s)) \<and>
    tcp_present (s_tcp r) = (\<exists>s \<in> having kGroupTcp xs. tcp_present (s_tcp s)) \<and>
    udp_present (s_udp r) = (\<exists>s \<in> having kGroupUdp xs. udp_present (s_udp s)) \<and>
    icmp_present (s_icmp r) = (\<exists>s \<in> having kGroupIcmp xs. icmp_present (s_icmp s)) \<and>
    fs_present (s_fs r) = (\<exists>s \<in> having kGroupFs xs. fs_present (s_fs s))"
proof (intro conjI, goal_cases)
  case 9
  show ?case
    by (auto simp: r_def E_def aggregator_result_def Let_def window_flags window_last_untouched foldl_min foldl_True
        entropy_zero_def filter_empty_conv)
qed (auto simp: r_def aggregator_result_def Let_def window_max window_flags foldl_max foldl_or foldl_sum foldl_True
      zero_defs filter_empty_conv)

end
