(* ===== verification/Text.thy ===== *)
theory Text
  imports Prelude
begin

text \<open>
  Text as the sources handle it: C strings, decimal numbers as \<open>printf\<close> writes them and \<open>strtol\<close>
  and \<open>strtoull\<close> read them (in the C locale, with \<open>long\<close> and \<open>long long\<close> of 64 bits), and
  \<open>parse_int_full\<close> (\<open>src/core/parse_int.h\<close>). Proved: a printed number reads back, by
  \<open>strtoull\<close> and, when it is in range, by \<open>parse_int_full\<close>.
\<close>

section \<open>Characters and C strings\<close>

text \<open>\<open>std::string::c_str\<close> read as a C string: what stands before the first NUL.\<close>

definition c_str :: "string \<Rightarrow> string" where
  "c_str n = takeWhile (\<lambda>c. c \<noteq> CHR 0x00) n"

lemma takeWhile_until: "c \<notin> set xs \<Longrightarrow> ys = [] \<or> hd ys = c \<Longrightarrow> takeWhile (\<lambda>x. x \<noteq> c) (xs @ ys) = xs"
  by (induction xs) (auto, cases ys, auto)

lemma dropWhile_until: "c \<notin> set xs \<Longrightarrow> ys = [] \<or> hd ys = c \<Longrightarrow> dropWhile (\<lambda>x. x \<noteq> c) (xs @ ys) = ys"
  by (induction xs) (auto, cases ys, auto)

lemma c_str_id: "CHR 0x00 \<notin> set s \<Longrightarrow> c_str s = s"
  using takeWhile_until [of "CHR 0x00" s "[]"] by (simp add: c_str_def)

text \<open>The bytes of a string.\<close>

definition bytes_of :: "string \<Rightarrow> byte list" where
  "bytes_of s = map (\<lambda>c. of_nat (of_char c)) s"

definition to_lower :: "char \<Rightarrow> char" where
  "to_lower c = (let n = of_char c :: nat in if 65 \<le> n \<and> n \<le> 90 then char_of (n + 32) else c)"

definition is_digit :: "char \<Rightarrow> bool" where
  "is_digit c \<longleftrightarrow> (let n = of_char c :: nat in 48 \<le> n \<and> n \<le> 57)"

definition is_space :: "char \<Rightarrow> bool" where
  "is_space c \<longleftrightarrow> (let n = of_char c :: nat in n = 32 \<or> (9 \<le> n \<and> n \<le> 13))"

definition digit_value :: "char \<Rightarrow> nat" where
  "digit_value c = of_char c - 48"

section \<open>Decimal numbers\<close>

fun digits :: "nat \<Rightarrow> string" where
  "digits n = (if n < 10 then [char_of (48 + n)] else digits (n div 10) @ [char_of (48 + n mod 10)])"

declare digits.simps [simp del]

definition nat_of_digits :: "string \<Rightarrow> nat" where
  "nat_of_digits s = foldl (\<lambda>n c. n * 10 + digit_value c) 0 s"

text \<open>
  What \<open>strtol\<close> and \<open>strtoull\<close> take off the front of a string: blanks, a sign, digits. The
  result is the sign, the digits and what follows them; no digits is no conversion.
\<close>

definition scan_number :: "string \<Rightarrow> (bool \<times> string \<times> string) option" where
  "scan_number s =
     (let s = dropWhile is_space s;
          (neg, s) = (case s of c # r \<Rightarrow> if c = CHR ''-'' then (True, r) else if c = CHR ''+'' then (False, r) else (False, s)
                      | [] \<Rightarrow> (False, []));
          ds = takeWhile is_digit s
      in if ds = [] then None else Some (neg, ds, dropWhile is_digit s))"

text \<open>\<open>strtoull(s, &end, 10)\<close>: \<open>None\<close> when \<open>end == s\<close>; saturates, and a minus sign negates.\<close>

definition strtoull :: "string \<Rightarrow> (u64 \<times> string) option" where
  "strtoull s = map_option (\<lambda>(neg, ds, rest).
     (let n = nat_of_digits ds in if n \<ge> two64 then -1 else if neg then - of_nat n else of_nat n, rest)) (scan_number s)"

text \<open>\<open>strtol(s, &end, 10)\<close> and whether it set \<open>ERANGE\<close>.\<close>

definition strtol :: "string \<Rightarrow> (int \<times> bool \<times> string) option" where
  "strtol s = map_option (\<lambda>(neg, ds, rest).
     (let n = (if neg then - int (nat_of_digits ds) else int (nat_of_digits ds))
      in if n < - (2 ^ 63) then (- (2 ^ 63), True, rest) else if n \<ge> 2 ^ 63 then (2 ^ 63 - 1, True, rest)
         else (n, False, rest))) (scan_number s)"

text \<open>The result is the value stored in \<open>*out\<close>, \<open>None\<close> false with \<open>*out\<close> untouched.\<close>

definition parse_int_full :: "string option \<Rightarrow> int \<Rightarrow> int \<Rightarrow> int option" where
  "parse_int_full so lo hi =
     (case so of None \<Rightarrow> None
      | Some s0 \<Rightarrow>
          let s = c_str s0; first = (case s of [] \<Rightarrow> CHR 0x00 | c # _ \<Rightarrow> c)
          in if \<not> is_digit first \<and> first \<noteq> CHR ''-'' \<and> first \<noteq> CHR ''+'' then None
             else case strtol s of None \<Rightarrow> None
                  | Some (n, erange, rest) \<Rightarrow> if rest \<noteq> [] \<or> erange \<or> n < lo \<or> n > hi then None else Some n)"

section \<open>A printed number reads back\<close>

lemma of_char_digit: "n < 10 \<Longrightarrow> of_char (char_of (48 + n) :: char) = (48 + n :: nat)"
  by (simp add: of_char_of)

lemma digit_char [simp]: "n < 10 \<Longrightarrow> is_digit (char_of (48 + n))" "n < 10 \<Longrightarrow> digit_value (char_of (48 + n)) = n"
  by (simp_all add: is_digit_def digit_value_def of_char_digit Let_def)

lemma digits_all: "list_all is_digit (digits n)" "digits n \<noteq> []"
proof (induction n rule: digits.induct)
  case (1 n)
  {
    case 1
    then show ?case using "1.IH" by (subst digits.simps) simp
  next
    case 2
    then show ?case by (subst digits.simps) simp
  }
qed

lemma nat_of_digits_snoc: "nat_of_digits (s @ [c]) = nat_of_digits s * 10 + digit_value c"
  by (simp add: nat_of_digits_def)

lemma nat_of_digits_digits: "nat_of_digits (digits n) = n"
proof (induction n rule: digits.induct)
  case (1 n)
  show ?case
  proof (cases "n < 10")
    case True
    then show ?thesis by (subst digits.simps) (simp add: nat_of_digits_def)
  next
    case False
    then show ?thesis using 1 by (subst digits.simps) (simp add: nat_of_digits_snoc)
  qed
qed

lemma digit_not_space: "is_digit c \<Longrightarrow> \<not> is_space c \<and> c \<noteq> CHR ''-'' \<and> c \<noteq> CHR ''+'' \<and> c \<noteq> CHR 0x00"
  by (auto simp: is_digit_def is_space_def Let_def)

lemma takeWhile_digits: "list_all is_digit ds \<Longrightarrow> (rest = [] \<or> \<not> is_digit (hd rest)) \<Longrightarrow>
   takeWhile is_digit (ds @ rest) = ds \<and> dropWhile is_digit (ds @ rest) = rest"
  by (induction ds) (auto, (cases rest; simp)+)

lemma scan_digits:
  assumes "list_all is_digit ds" and "ds \<noteq> []" and "rest = [] \<or> \<not> is_digit (hd rest)"
  shows "scan_number (ds @ rest) = Some (False, ds, rest)"
proof -
  obtain c ds' where ds: "ds = c # ds'" using assms(2) by (cases ds) auto
  then have c: "is_digit c" using assms(1) by simp
  then have "dropWhile is_space (ds @ rest) = ds @ rest" using digit_not_space by (simp add: ds)
  then show ?thesis
    using takeWhile_digits [OF assms(1,3)] digit_not_space [OF c] ds by (simp add: scan_number_def Let_def)
qed

lemma strtoull_digits: "rest = [] \<or> \<not> is_digit (hd rest) \<Longrightarrow> strtoull (digits (unat (n :: u64)) @ rest) = Some (n, rest)"
  using unat_lt_two64 [of n]
  by (simp add: strtoull_def scan_digits [OF digits_all] nat_of_digits_digits Let_def)

lemma parse_int_full_digits:
  assumes "lo \<le> int n" and "int n \<le> hi" and "hi < 2 ^ 63"
  shows "parse_int_full (Some (digits n)) lo hi = Some (int n)"
proof -
  have all: "c \<in> set (digits n) \<Longrightarrow> is_digit c" for c using digits_all(1) [of n] by (simp add: list_all_iff)
  then have c: "c_str (digits n) = digits n" using digit_not_space by (intro c_str_id) blast
  obtain d ds where ds: "digits n = d # ds" using digits_all(2) [of n] by (cases "digits n") auto
  have "strtol (digits n) = Some (int n, False, [])"
    using scan_digits [OF digits_all(1,2), of "[]" n] assms by (simp add: strtol_def nat_of_digits_digits Let_def)
  then show ?thesis using assms all [of d] by (simp add: parse_int_full_def c [unfolded ds] Let_def ds)
qed

end
