(* ===== verification/Tier_Manager.thy ===== *)
theory Tier_Manager
  imports Tier_Query Tier_Aggregator Text
begin

text \<open>
  The multi-tier store (\<open>src/storage/tier_manager.h\<close>, \<open>src/storage/tier_manager.cpp\<close>): three rings,
  one ring per custom level and two fold windows. The files of the data directory are a map from
  leaf name to contents; what the system calls answer is an argument. \<open>strerror\<close> is a parameter.
  Proved here: \<open>init\<close> on an empty directory gives an empty store, every \<open>store\<close> keeps the invariant
  of all rings whatever the disk does, a sample reaches exactly its own ring when folding is off,
  and, for samples in time order, every ring stays in time order, summaries included, which is
  what the queries rely on.
\<close>

section \<open>Helpers\<close>

definition records_from_mb :: "int \<Rightarrow> nat \<Rightarrow> u64" where
  "records_from_mb mb record_size =
     (if mb \<le> 0 \<or> record_size = 0 then 1
      else let bytes = word_of_int mb * (1024 * 1024) :: u64;
               cap = bytes div of_nat record_size
           in if cap = 0 then 1 else cap)"

text \<open>\<open>snprintf\<close> of \<open>dir/leaf\<close> into a buffer of \<open>cap\<close> bytes fits.\<close>

definition join_path :: "nat \<Rightarrow> string \<Rightarrow> string \<Rightarrow> bool" where
  "join_path cap dir leaf \<longleftrightarrow> length dir + 1 + length leaf < cap"

section \<open>State\<close>

record level_ring_spec =
  lr_level_id :: u8
  lr_name :: string
  lr_max_mb :: int

record custom_ring =
  cr_level_id :: u8
  cr_ring :: ring_file
  cr_leaf :: string

record tier_manager =
  tm_last_error :: string
  tm_recovered :: "(string \<times> u64) list"
  tm_converted :: "(string \<times> u32 \<times> u64 \<times> u64) list"
  tm_tier1 :: ring_file
  tm_tier2 :: ring_file
  tm_tier3 :: ring_file
  tm_custom :: "custom_ring list"
  tm_ready :: bool
  tm_store_error :: string
  tm_fold_l2_ns :: u64
  tm_fold_l1_ns :: u64
  tm_fold_l2 :: aggregator
  tm_fold_l1 :: aggregator

definition tier_manager_new :: tier_manager where
  "tier_manager_new = \<lparr>tm_last_error = '''', tm_recovered = [], tm_converted = [],
     tm_tier1 = ring_file_new, tm_tier2 = ring_file_new, tm_tier3 = ring_file_new, tm_custom = [],
     tm_ready = False, tm_store_error = '''', tm_fold_l2_ns = 0, tm_fold_l1_ns = 0,
     tm_fold_l2 = aggregator_reset L2, tm_fold_l1 = aggregator_reset L1\<rparr>"

type_synonym disk = "string \<Rightarrow> byte list option"

text \<open>What the system calls on one ring answer while it is opened.\<close>

record ring_io =
  ri_header :: open_io
  ri_convert :: convert_io
  ri_open :: open_io
  ri_read :: "u64 \<Rightarrow> errno option"

section \<open>Opening\<close>

definition ring_failed :: "(errno \<Rightarrow> string) \<Rightarrow> string \<Rightarrow> ring_file \<Rightarrow> rc \<Rightarrow> string" where
  "ring_failed strerror leaf ring rc =
     leaf @ '': '' @ describe rc @
     (if rf_last_errno ring \<noteq> 0 then '': '' @ strerror (rf_last_errno ring) else '''') @
     (if rc = -6 \<or> rc = -11 \<or> rc = -12
      then '' (storage_mb / tierN_max_mb changed? move the file aside or restore the old size)'' else '''')"

definition path_failed :: "string \<Rightarrow> string" where
  "path_failed leaf = leaf @ '': data_dir path too long''"

definition convert_if_older ::
  "(errno \<Rightarrow> string) \<Rightarrow> ring_io \<Rightarrow> u64 \<Rightarrow> tier_manager \<times> disk \<Rightarrow> string \<Rightarrow> u8 \<Rightarrow> u32 \<Rightarrow> u64 \<Rightarrow> bool \<times> tier_manager \<times> disk" where
  "convert_if_older strerror io realtime = (\<lambda>(tm, d) leaf tier record_size capacity.
     case read_header (d leaf) (ri_header io) ring_header_zero of (hrc, h, err) \<Rightarrow>
       if hrc \<noteq> 0 \<or> rh_tier h \<noteq> tier \<or> rh_record_size h = record_size then (True, tm, d)
       else if rh_record_size h > record_size
       then (False, tm\<lparr>tm_last_error := leaf @ '': '' @ digits (unat (rh_record_size h)) @
               ''-byte records, written by a newer budyk (this one writes '' @
               digits (unat record_size) @ ''): move the file aside, or run the newer budyk''\<rparr>, d)
       else case convert_ring \<lparr>fs_path = d leaf, fs_tmp = d (leaf @ ''.convert'')\<rparr> (ri_convert io)
                    realtime tier record_size capacity of
         (rc, fs, kept, dropped) \<Rightarrow>
           let d = d(leaf := fs_path fs, leaf @ ''.convert'' := fs_tmp fs)
           in if rc \<noteq> 0
              then (False, tm\<lparr>tm_last_error := leaf @ '': converting it from '' @
                      digits (unat (rh_record_size h)) @ ''-byte records (an older budyk) failed: '' @
                      strerror (- rc)\<rparr>, d)
              else (True, tm\<lparr>tm_converted := tm_converted tm @ [(leaf, rh_record_size h, kept, dropped)]\<rparr>, d))"

definition recover :: "ring_io \<Rightarrow> u64 \<Rightarrow> tier_manager \<times> disk \<Rightarrow> string \<Rightarrow> ring_file \<Rightarrow> tier_manager \<times> ring_file \<times> disk" where
  "recover io realtime = (\<lambda>(tm, d) leaf ring.
     let f = the (d leaf); n = count_unindexed ring f (ri_read io) realtime 0
     in if n > 0
        then (case advance_write_index ring f n of (rc, ring, f) \<Rightarrow>
                if rc = 0 then (tm\<lparr>tm_recovered := tm_recovered tm @ [(leaf, n)]\<rparr>, ring, d(leaf \<mapsto> f))
                else (tm, ring, d(leaf \<mapsto> f)))
        else (tm, ring, d))"

text \<open>Which step of opening a ring failed.\<close>

datatype open_step = PathTooLong | ConvertFailed | OpenFailed

text \<open>Path, conversion, open, recovery: what \<open>init\<close> does for each ring.\<close>

definition open_ring ::
  "(errno \<Rightarrow> string) \<Rightarrow> ring_io \<Rightarrow> u64 \<Rightarrow> string \<Rightarrow> tier_manager \<times> disk \<Rightarrow> ring_file \<Rightarrow> string \<Rightarrow> u8 \<Rightarrow> u64
   \<Rightarrow> open_step option \<times> ring_file \<times> tier_manager \<times> disk" where
  "open_ring strerror io realtime dir = (\<lambda>(tm, d) ring leaf tier cap.
     let record_size = of_nat record_size_for_sample
     in if \<not> join_path 1024 dir leaf
        then (Some PathTooLong, ring, tm\<lparr>tm_last_error := path_failed leaf\<rparr>, d)
        else case convert_if_older strerror io realtime (tm, d) leaf tier record_size cap of
          (False, tm, d) \<Rightarrow> (Some ConvertFailed, ring, tm, d)
        | (True, tm, d) \<Rightarrow>
            (case ring_open ring (d leaf) (ri_open io) tier record_size cap of
               (rc, ring, fs) \<Rightarrow>
                 let d = d(leaf := fs)
                 in if rc \<noteq> 0 then (Some OpenFailed, ring, tm\<lparr>tm_last_error := ring_failed strerror leaf ring rc\<rparr>, d)
                    else (case recover io realtime (tm, d) leaf ring of (tm, ring, d) \<Rightarrow> (None, ring, tm, d))))"

text \<open>Every code of a failing built-in ring: the path's, or the one of convert and open.\<close>

definition step_code :: "open_step \<Rightarrow> rc \<Rightarrow> rc \<Rightarrow> rc" where
  "step_code e path other = (case e of PathTooLong \<Rightarrow> path | _ \<Rightarrow> other)"

fun init_custom ::
  "(errno \<Rightarrow> string) \<Rightarrow> (string \<Rightarrow> ring_io) \<Rightarrow> u64 \<Rightarrow> string \<Rightarrow> tier_manager \<times> disk \<Rightarrow> level_ring_spec list
   \<Rightarrow> rc \<times> tier_manager \<times> disk" where
  "init_custom strerror io realtime dir (tm, d) [] = (0, tm, d)"
| "init_custom strerror io realtime dir (tm, d) (spec # specs) =
     (let leaf = ''level-'' @ lr_name spec @ ''.ring''
      in case open_ring strerror (io leaf) realtime dir (tm, d) ring_file_new leaf kCustomRingTier
                (records_from_mb (lr_max_mb spec) record_size_for_sample) of
           (Some e, ring, tm, d) \<Rightarrow>
             (-9, tm\<lparr>tm_custom := [], tm_tier3 := ring_close (tm_tier3 tm),
                     tm_tier2 := ring_close (tm_tier2 tm), tm_tier1 := ring_close (tm_tier1 tm)\<rparr>, d)
         | (None, ring, tm, d) \<Rightarrow>
             init_custom strerror io realtime dir
               (tm\<lparr>tm_custom := tm_custom tm @ [\<lparr>cr_level_id = lr_level_id spec, cr_ring = ring, cr_leaf = leaf\<rparr>]\<rparr>, d) specs)"

definition tm_init ::
  "(errno \<Rightarrow> string) \<Rightarrow> (string \<Rightarrow> ring_io) \<Rightarrow> u64 \<Rightarrow> tier_manager \<times> disk \<Rightarrow> string option \<Rightarrow> int \<Rightarrow> int \<Rightarrow> int
   \<Rightarrow> level_ring_spec list \<Rightarrow> rc \<times> tier_manager \<times> disk" where
  "tm_init strerror io realtime = (\<lambda>(tm, d) diro mb1 mb2 mb3 custom.
     let tm = tm\<lparr>tm_last_error := '''', tm_recovered := [], tm_converted := []\<rparr>
     in case diro of
          None \<Rightarrow> (-1, tm\<lparr>tm_last_error := ''data_dir is null''\<rparr>, d)
        | Some dir \<Rightarrow>
          if tm_ready tm then (-2, tm\<lparr>tm_last_error := ''already initialised''\<rparr>, d)
          else
            let cap1 = records_from_mb mb1 record_size_for_sample;
                cap2 = records_from_mb mb2 record_size_for_sample;
                cap3 = records_from_mb mb3 record_size_for_sample
            in case open_ring strerror (io ''tier1.ring'') realtime dir (tm, d) (tm_tier1 tm) ''tier1.ring'' 1 cap1 of
                 (Some e, r1, tm, d) \<Rightarrow> (step_code e (-3) (-4), tm\<lparr>tm_tier1 := r1\<rparr>, d)
               | (None, r1, tm, d) \<Rightarrow>
                 (case open_ring strerror (io ''tier2.ring'') realtime dir (tm\<lparr>tm_tier1 := r1\<rparr>, d) (tm_tier2 tm) ''tier2.ring'' 2 cap2 of
                    (Some e, r2, tm, d) \<Rightarrow> (step_code e (-5) (-6),
                       tm\<lparr>tm_tier2 := r2, tm_tier1 := ring_close (tm_tier1 tm)\<rparr>, d)
                  | (None, r2, tm, d) \<Rightarrow>
                    (case open_ring strerror (io ''tier3.ring'') realtime dir (tm\<lparr>tm_tier2 := r2\<rparr>, d) (tm_tier3 tm) ''tier3.ring'' 3 cap3 of
                       (Some e, r3, tm, d) \<Rightarrow> (step_code e (-7) (-8),
                          tm\<lparr>tm_tier3 := r3, tm_tier2 := ring_close (tm_tier2 tm), tm_tier1 := ring_close (tm_tier1 tm)\<rparr>, d)
                     | (None, r3, tm, d) \<Rightarrow>
                       (case init_custom strerror io realtime dir (tm\<lparr>tm_tier3 := r3\<rparr>, d) custom of
                          (rc, tm, d) \<Rightarrow> if rc \<noteq> 0 then (rc, tm, d) else (0, tm\<lparr>tm_ready := True\<rparr>, d)))))"

definition set_fold_windows :: "tier_manager \<Rightarrow> u64 \<Rightarrow> u64 \<Rightarrow> tier_manager" where
  "set_fold_windows tm l2_ns l1_ns = tm\<lparr>tm_fold_l2_ns := l2_ns, tm_fold_l1_ns := l1_ns\<rparr>"

section \<open>Which ring\<close>

text \<open>The ring a pointer in the code points at.\<close>

datatype ring_id = Tier1 | Tier2 | Tier3 | Custom nat

definition the_ring :: "tier_manager \<Rightarrow> ring_id \<Rightarrow> ring_file" where
  "the_ring tm i = (case i of Tier1 \<Rightarrow> tm_tier1 tm | Tier2 \<Rightarrow> tm_tier2 tm | Tier3 \<Rightarrow> tm_tier3 tm
     | Custom n \<Rightarrow> cr_ring (tm_custom tm ! n))"

definition the_leaf :: "tier_manager \<Rightarrow> ring_id \<Rightarrow> string" where
  "the_leaf tm i = (case i of Tier1 \<Rightarrow> ''tier1.ring'' | Tier2 \<Rightarrow> ''tier2.ring'' | Tier3 \<Rightarrow> ''tier3.ring''
     | Custom n \<Rightarrow> cr_leaf (tm_custom tm ! n))"

definition put_ring :: "tier_manager \<Rightarrow> ring_id \<Rightarrow> ring_file \<Rightarrow> tier_manager" where
  "put_ring tm i r = (case i of Tier1 \<Rightarrow> tm\<lparr>tm_tier1 := r\<rparr> | Tier2 \<Rightarrow> tm\<lparr>tm_tier2 := r\<rparr> | Tier3 \<Rightarrow> tm\<lparr>tm_tier3 := r\<rparr>
     | Custom n \<Rightarrow> tm\<lparr>tm_custom := (tm_custom tm)[n := (tm_custom tm ! n)\<lparr>cr_ring := r\<rparr>]\<rparr>)"

fun find_custom_ring :: "custom_ring list \<Rightarrow> level \<Rightarrow> nat \<Rightarrow> ring_id option" where
  "find_custom_ring [] level n = None"
| "find_custom_ring (c # cs) level n =
     (if cr_level_id c = level then Some (Custom n) else find_custom_ring cs level (Suc n))"

definition ring_for :: "tier_manager \<Rightarrow> level \<Rightarrow> ring_id option" where
  "ring_for tm level =
     (if level = L3 then Some Tier1 else if level = L2 then Some Tier2 else if level = L1 then Some Tier3
      else find_custom_ring (tm_custom tm) level 0)"

section \<open>Storing\<close>

definition tm_append ::
  "(errno \<Rightarrow> string) \<Rightarrow> tier_manager \<times> disk \<Rightarrow> write_io \<Rightarrow> ring_id \<Rightarrow> sample \<Rightarrow> rc \<times> tier_manager \<times> disk" where
  "tm_append strerror = (\<lambda>(tm, d) io i s.
     case record_encode s (Some (replicate 1024 0)) 1024 (Some 0) of
       (rc, Some buf, Some len) \<Rightarrow>
         if rc \<noteq> 0 then (-3, tm, d)
         else (case ring_append (the_ring tm i) (the (d (the_leaf tm i))) io (Some buf) len of
                 (rc, ring, f) \<Rightarrow>
                   let d' = d(the_leaf tm i \<mapsto> f); tm' = put_ring tm i ring
                   in if rc \<noteq> 0
                      then (-4, tm'\<lparr>tm_store_error := the_leaf tm i @ '': writing a record failed: '' @
                              strerror (if rf_last_errno ring \<noteq> 0 then rf_last_errno ring else EIO)\<rparr>, d')
                      else (0, tm', d'))
     | _ \<Rightarrow> (-3, tm, d))"

definition tm_flush_l2 ::
  "(errno \<Rightarrow> string) \<Rightarrow> tier_manager \<times> disk \<Rightarrow> write_io \<Rightarrow> rc \<times> tier_manager \<times> disk" where
  "tm_flush_l2 strerror = (\<lambda>(tm, d) io.
     case aggregator_fold (tm_fold_l2 tm) False of
       (True, Some folded, agg) \<Rightarrow> tm_append strerror (tm\<lparr>tm_fold_l2 := agg\<rparr>, d) io Tier2 folded
     | (_, _, agg) \<Rightarrow> (0, tm\<lparr>tm_fold_l2 := agg\<rparr>, d))"

definition tm_flush_l1 ::
  "(errno \<Rightarrow> string) \<Rightarrow> tier_manager \<times> disk \<Rightarrow> write_io \<Rightarrow> rc \<times> tier_manager \<times> disk" where
  "tm_flush_l1 strerror = (\<lambda>(tm, d) io.
     case aggregator_fold (tm_fold_l1 tm) False of
       (True, Some folded, agg) \<Rightarrow> tm_append strerror (tm\<lparr>tm_fold_l1 := agg\<rparr>, d) io Tier3 folded
     | (_, _, agg) \<Rightarrow> (0, tm\<lparr>tm_fold_l1 := agg\<rparr>, d))"

text \<open>The sample falls outside the window: past its end, or before its start.\<close>

definition window_over :: "aggregator \<Rightarrow> u64 \<Rightarrow> sample \<Rightarrow> bool" where
  "window_over agg window_ns s \<longleftrightarrow> aggregator_size agg > 0 \<and>
     (s_timestamp_nanos s < first_timestamp agg \<or> s_timestamp_nanos s - first_timestamp agg \<ge> window_ns)"

definition tm_feed_l2 ::
  "(errno \<Rightarrow> string) \<Rightarrow> tier_manager \<times> disk \<Rightarrow> write_io \<Rightarrow> sample \<Rightarrow> rc \<times> tier_manager \<times> disk" where
  "tm_feed_l2 strerror = (\<lambda>(tm, d) io s.
     if tm_fold_l2_ns tm = 0 then (0, tm, d)
     else case (if window_over (tm_fold_l2 tm) (tm_fold_l2_ns tm) s then tm_flush_l2 strerror (tm, d) io else (0, tm, d)) of
            (rc, tm, d) \<Rightarrow> (rc, tm\<lparr>tm_fold_l2 := aggregator_add (tm_fold_l2 tm) s\<rparr>, d))"

definition tm_feed_l1 ::
  "(errno \<Rightarrow> string) \<Rightarrow> tier_manager \<times> disk \<Rightarrow> write_io \<Rightarrow> sample \<Rightarrow> rc \<times> tier_manager \<times> disk" where
  "tm_feed_l1 strerror = (\<lambda>(tm, d) io s.
     if tm_fold_l1_ns tm = 0 then (0, tm, d)
     else case (if window_over (tm_fold_l1 tm) (tm_fold_l1_ns tm) s then tm_flush_l1 strerror (tm, d) io else (0, tm, d)) of
            (rc, tm, d) \<Rightarrow> (rc, tm\<lparr>tm_fold_l1 := aggregator_add (tm_fold_l1 tm) s\<rparr>, d))"

text \<open>\<open>io 0\<close>, \<open>io 1\<close>, \<open>io 2\<close>: the writes of the L2 window, the L1 window and the sample.\<close>

definition tm_fold ::
  "(errno \<Rightarrow> string) \<Rightarrow> tier_manager \<times> disk \<Rightarrow> (nat \<Rightarrow> write_io) \<Rightarrow> sample \<Rightarrow> rc \<times> tier_manager \<times> disk" where
  "tm_fold strerror td io s =
     (case (if s_level s = L1 \<or> s_level s = L2 then tm_flush_l2 strerror td (io 0) else tm_feed_l2 strerror td (io 0) s) of
        (rc2, td) \<Rightarrow>
          (case (if s_level s = L1 then tm_flush_l1 strerror td (io 1) else tm_feed_l1 strerror td (io 1) s) of
             (rc1, td) \<Rightarrow> (if rc2 = 0 then rc1 else rc2, td)))"

definition tm_store ::
  "(errno \<Rightarrow> string) \<Rightarrow> tier_manager \<times> disk \<Rightarrow> (nat \<Rightarrow> write_io) \<Rightarrow> sample \<Rightarrow> rc \<times> tier_manager \<times> disk" where
  "tm_store strerror td io s =
     (if \<not> tm_ready (fst td) then (-1, td)
      else case ring_for (fst td) (s_level s) of
        None \<Rightarrow> (-2, td)
      | Some i \<Rightarrow>
          (case tm_fold strerror td io s of (rc, td) \<Rightarrow>
             (case tm_append strerror td (io 2) i s of (direct, td) \<Rightarrow>
                (if direct \<noteq> 0 then direct else rc, td))))"

definition tm_close :: "(errno \<Rightarrow> string) \<Rightarrow> tier_manager \<times> disk \<Rightarrow> (nat \<Rightarrow> write_io) \<Rightarrow> tier_manager \<times> disk" where
  "tm_close strerror td io =
     (if \<not> tm_ready (fst td) then td
      else case tm_flush_l2 strerror td (io 0) of (_, td) \<Rightarrow>
           case tm_flush_l1 strerror td (io 1) of (_, tm, d) \<Rightarrow>
             (tm\<lparr>tm_custom := [], tm_tier3 := ring_close (tm_tier3 tm), tm_tier2 := ring_close (tm_tier2 tm),
                 tm_tier1 := ring_close (tm_tier1 tm), tm_ready := False\<rparr>, d))"

section \<open>Querying\<close>

definition tm_reader :: "tier_manager \<times> disk \<Rightarrow> (string \<Rightarrow> u64 \<Rightarrow> errno option) \<Rightarrow> ring_id \<Rightarrow> ring_reader" where
  "tm_reader = (\<lambda>(tm, d) io i. reader_new (the_ring tm i) (the (d (the_leaf tm i))) (io (the_leaf tm i)))"

text \<open>\<open>None\<close> is the -1 of a bad call; a result is the samples appended, their number the code.\<close>

definition tm_query ::
  "tier_manager \<times> disk \<Rightarrow> (string \<Rightarrow> u64 \<Rightarrow> errno option) \<Rightarrow> (u64 \<Rightarrow> u64) \<Rightarrow> int \<Rightarrow> u64 \<Rightarrow> u64 \<Rightarrow> nat \<Rightarrow> bool \<Rightarrow> sample list option" where
  "tm_query td io begun tier since_ns until_ns max_records out_null =
     (if \<not> tm_ready (fst td) \<or> out_null \<or> max_records = 0 then None
      else if tier = 1 then Some (query_ring (tm_reader td io Tier1) begun (-1) since_ns until_ns max_records)
      else if tier = 2 then Some (query_ring (tm_reader td io Tier2) begun (-1) since_ns until_ns max_records)
      else if tier = 3 then Some (query_ring (tm_reader td io Tier3) begun (-1) since_ns until_ns max_records)
      else None)"

definition tm_query_level ::
  "tier_manager \<times> disk \<Rightarrow> (string \<Rightarrow> u64 \<Rightarrow> errno option) \<Rightarrow> (u64 \<Rightarrow> u64) \<Rightarrow> level \<Rightarrow> u64 \<Rightarrow> u64 \<Rightarrow> nat \<Rightarrow> bool \<Rightarrow> sample list option" where
  "tm_query_level td io begun level since_ns until_ns max_records out_null =
     (if \<not> tm_ready (fst td) \<or> out_null \<or> max_records = 0 then None
      else case ring_for (fst td) level of
        None \<Rightarrow> None
      | Some i \<Rightarrow> Some (query_ring (tm_reader td io i) begun
                    (if level \<ge> kFirstCustomLevel then uint level else -1) since_ns until_ns max_records))"

definition tm_query_all ::
  "(sample list \<Rightarrow> sample list) \<Rightarrow> (u64 \<Rightarrow> nat \<Rightarrow> u64 \<Rightarrow> u64) \<Rightarrow> tier_manager \<times> disk \<Rightarrow> (string \<Rightarrow> u64 \<Rightarrow> errno option)
   \<Rightarrow> u64 \<Rightarrow> u64 \<Rightarrow> nat \<Rightarrow> bool \<Rightarrow> sample list option" where
  "tm_query_all srt slc td io since_ns until_ns max_records out_null =
     (if \<not> tm_ready (fst td) \<or> out_null \<or> max_records = 0 then None
      else
        let spread = (\<lambda>i ov. query_ring_spread (tm_reader td io i) ov since_ns until_ns (of_nat max_records));
            customs = [0..<length (tm_custom (fst td))];
            fine = spread Tier1 (-1) @
                   concat (map (\<lambda>n. spread (Custom n) (uint (cr_level_id (tm_custom (fst td) ! n)))) customs);
            l2 = spread Tier2 (-1);
            l1 = spread Tier3 (-1);
            finer_than_l2 = tm_reader td io Tier1 # map (\<lambda>n. tm_reader td io (Custom n)) customs;
            finer_than_l1 = finer_than_l2 @ [tm_reader td io Tier2];
            l1' = drop_covered l1 (tm_fold_l1_ns (fst td)) [fine, l2] finer_than_l1;
            l2' = drop_covered l2 (tm_fold_l2_ns (fst td)) [fine] finer_than_l2
        in Some (query_merge srt slc max_records fine l2' l1'))"

section \<open>The invariant\<close>

definition ring_ids :: "tier_manager \<Rightarrow> ring_id list" where
  "ring_ids tm = [Tier1, Tier2, Tier3] @ map Custom [0..<length (tm_custom tm)]"

definition ring_file_of :: "tier_manager \<times> disk \<Rightarrow> ring_id \<Rightarrow> byte list" where
  "ring_file_of = (\<lambda>(tm, d) i. the (d (the_leaf tm i)))"

definition tm_ok :: "tier_manager \<times> disk \<Rightarrow> bool" where
  "tm_ok = (\<lambda>(tm, d). tm_ready tm \<and> distinct (map (the_leaf tm) (ring_ids tm)) \<and>
     (\<forall>i \<in> set (ring_ids tm). d (the_leaf tm i) \<noteq> None \<and>
        ring_ok (the_ring tm i) (ring_file_of (tm, d) i) \<and> rf_rs (the_ring tm i) = record_size_for_sample))"

lemma update_field: "x < length xs \<Longrightarrow> g y = g (xs ! n) \<Longrightarrow> g (xs[n := y] ! x) = g (xs ! x)"
  by (cases "x = n") auto

lemma put_ring_sel [simp]:
  "tm_ready (put_ring tm i r) = tm_ready tm" "tm_fold_l2 (put_ring tm i r) = tm_fold_l2 tm"
  "tm_fold_l1 (put_ring tm i r) = tm_fold_l1 tm" "tm_fold_l2_ns (put_ring tm i r) = tm_fold_l2_ns tm"
  "tm_fold_l1_ns (put_ring tm i r) = tm_fold_l1_ns tm"
  "length (tm_custom (put_ring tm i r)) = length (tm_custom tm)"
  "map cr_level_id (tm_custom (put_ring tm i r)) = map cr_level_id (tm_custom tm)"
proof -
  show "map cr_level_id (tm_custom (put_ring tm i r)) = map cr_level_id (tm_custom tm)"
    by (cases i) (auto simp: put_ring_def update_field intro!: nth_equalityI)
qed (simp_all add: put_ring_def split: ring_id.split)

lemma ring_ids_put [simp]: "ring_ids (put_ring tm i r) = ring_ids tm"
  by (simp add: ring_ids_def)

lemma the_leaf_put [simp]: "j \<in> set (ring_ids tm) \<Longrightarrow> the_leaf (put_ring tm i r) j = the_leaf tm j"
  by (cases i; cases j) (auto simp: put_ring_def the_leaf_def update_field ring_ids_def)

lemma the_ring_put:
  "i \<in> set (ring_ids tm) \<Longrightarrow> j \<in> set (ring_ids tm) \<Longrightarrow>
   the_ring (put_ring tm i r) j = (if i = j then r else the_ring tm j)"
  by (cases i; cases j) (auto simp: put_ring_def the_ring_def nth_list_update ring_ids_def)

lemma leaf_inj:
  "tm_ok (tm, d) \<Longrightarrow> i \<in> set (ring_ids tm) \<Longrightarrow> j \<in> set (ring_ids tm) \<Longrightarrow> the_leaf tm i = the_leaf tm j \<Longrightarrow> i = j"
  by (auto simp: tm_ok_def distinct_map dest: inj_onD)

lemma the_ring_more [simp]:
  "the_ring (tm\<lparr>tm_store_error := e\<rparr>) = the_ring tm" "the_leaf (tm\<lparr>tm_store_error := e\<rparr>) = the_leaf tm"
  "ring_ids (tm\<lparr>tm_store_error := e\<rparr>) = ring_ids tm"
  "the_ring (tm\<lparr>tm_fold_l2 := a\<rparr>) = the_ring tm" "the_leaf (tm\<lparr>tm_fold_l2 := a\<rparr>) = the_leaf tm"
  "ring_ids (tm\<lparr>tm_fold_l2 := a\<rparr>) = ring_ids tm"
  "the_ring (tm\<lparr>tm_fold_l1 := a\<rparr>) = the_ring tm" "the_leaf (tm\<lparr>tm_fold_l1 := a\<rparr>) = the_leaf tm"
  "ring_ids (tm\<lparr>tm_fold_l1 := a\<rparr>) = ring_ids tm"
  by (simp_all add: the_ring_def the_leaf_def ring_ids_def fun_eq_iff split: ring_id.split)

lemma tm_ok_fold [simp]:
  "tm_ok (tm\<lparr>tm_fold_l2 := a\<rparr>, d) = tm_ok (tm, d)" "tm_ok (tm\<lparr>tm_fold_l1 := a\<rparr>, d) = tm_ok (tm, d)"
  "tm_ok (tm\<lparr>tm_store_error := e\<rparr>, d) = tm_ok (tm, d)"
  "ring_file_of (tm\<lparr>tm_fold_l2 := a\<rparr>, d) i = ring_file_of (tm, d) i"
  "ring_file_of (tm\<lparr>tm_fold_l1 := a\<rparr>, d) i = ring_file_of (tm, d) i"
  "ring_file_of (tm\<lparr>tm_store_error := e\<rparr>, d) i = ring_file_of (tm, d) i"
  by (simp_all add: tm_ok_def ring_file_of_def)

text \<open>One append: the ring and the file it writes, and nothing else of the store.\<close>

lemma tm_append_eq:
  "tm_append strerror (tm, d) io i s =
     (case ring_append (the_ring tm i) (ring_file_of (tm, d) i) io (Some (record_bytes s)) record_size_for_sample of
        (rc, ring, f) \<Rightarrow>
          if rc \<noteq> 0
          then (-4, (put_ring tm i ring)\<lparr>tm_store_error := the_leaf tm i @ '': writing a record failed: '' @
                      strerror (if rf_last_errno ring \<noteq> 0 then rf_last_errno ring else EIO)\<rparr>, d(the_leaf tm i \<mapsto> f))
          else (0, put_ring tm i ring, d(the_leaf tm i \<mapsto> f)))"
proof -
  have enc: "record_encode s (Some (replicate 1024 0)) 1024 (Some 0)
      = (0, Some (write_at 0 (record_bytes s) (replicate 1024 0)), Some record_size_for_sample)"
    by (rule record_encode_writes) (simp_all add: record_size_eq)
  show ?thesis
    unfolding tm_append_def by (simp add: enc append_encoded ring_file_of_def Let_def split: prod.split)
qed

lemma tm_ok_ring:
  assumes "tm_ok (tm, d)" and "i \<in> set (ring_ids tm)" and "ring_ok r f" and "rf_rs r = record_size_for_sample"
  shows "tm_ok (put_ring tm i r, d(the_leaf tm i \<mapsto> f))"
    and "j \<in> set (ring_ids tm) \<Longrightarrow> j \<noteq> i \<Longrightarrow> ring_file_of (put_ring tm i r, d(the_leaf tm i \<mapsto> f)) j = ring_file_of (tm, d) j"
    and "ring_file_of (put_ring tm i r, d(the_leaf tm i \<mapsto> f)) i = f"
proof -
  have other: "the_leaf tm j \<noteq> the_leaf tm i" if "j \<in> set (ring_ids tm)" "j \<noteq> i" for j
    using leaf_inj [OF assms(1) that(1) assms(2)] that(2) by blast
  show files: "ring_file_of (put_ring tm i r, d(the_leaf tm i \<mapsto> f)) j = ring_file_of (tm, d) j"
    if "j \<in> set (ring_ids tm)" "j \<noteq> i" for j
    using that other [OF that] by (simp add: ring_file_of_def)
  show self: "ring_file_of (put_ring tm i r, d(the_leaf tm i \<mapsto> f)) i = f"
    using assms(2) by (simp add: ring_file_of_def)
  have leaves: "map (the_leaf (put_ring tm i r)) (ring_ids tm) = map (the_leaf tm) (ring_ids tm)" by simp
  show "tm_ok (put_ring tm i r, d(the_leaf tm i \<mapsto> f))"
    unfolding tm_ok_def prod.case ring_ids_put leaves
    using assms files self other by (auto simp: the_ring_put ring_file_of_def tm_ok_def)
qed

lemma tm_append_ok:
  assumes "tm_ok (tm, d)" and "i \<in> set (ring_ids tm)" and "tm_append strerror (tm, d) io i s = (rc, tm', d')"
  shows "tm_ok (tm', d') \<and> ring_ids tm' = ring_ids tm \<and> tm_fold_l2 tm' = tm_fold_l2 tm \<and> tm_fold_l1 tm' = tm_fold_l1 tm
    \<and> tm_fold_l2_ns tm' = tm_fold_l2_ns tm \<and> tm_fold_l1_ns tm' = tm_fold_l1_ns tm
    \<and> map cr_level_id (tm_custom tm') = map cr_level_id (tm_custom tm)
    \<and> (\<forall>j \<in> set (ring_ids tm). j \<noteq> i \<longrightarrow> the_ring tm' j = the_ring tm j \<and> ring_file_of (tm', d') j = ring_file_of (tm, d) j)
    \<and> (\<exists>arc. ring_append (the_ring tm i) (ring_file_of (tm, d) i) io (Some (record_bytes s)) record_size_for_sample
         = (arc, the_ring tm' i, ring_file_of (tm', d') i) \<and> (rc = 0 \<longleftrightarrow> arc = 0))"
proof -
  obtain arc ring f where app: "ring_append (the_ring tm i) (ring_file_of (tm, d) i) io (Some (record_bytes s)) record_size_for_sample
      = (arc, ring, f)" by (metis prod_cases3)
  have r: "ring_ok (the_ring tm i) (ring_file_of (tm, d) i)" "rf_rs (the_ring tm i) = record_size_for_sample"
    using assms(1,2) by (auto simp: tm_ok_def)
  have ok: "ring_ok ring f" using ring_ok_append [OF r(1), of "record_bytes s" io arc ring f] r(2) app by simp
  have rs: "rf_rs ring = record_size_for_sample"
    using app r(2) by (auto simp: ring_append_def Let_def split: if_splits prod.splits)
  note after = tm_ok_ring [OF assms(1,2) ok rs]
  show ?thesis
    using assms(2,3) app after unfolding tm_append_eq
    by (auto simp: the_ring_put split: if_splits)
qed

section \<open>Storing, step by step\<close>

text \<open>What every step of a store keeps: the invariant, the set of rings and the settings.\<close>

definition same_store :: "tier_manager \<Rightarrow> tier_manager \<Rightarrow> bool" where
  "same_store tm tm' \<longleftrightarrow> ring_ids tm' = ring_ids tm \<and> tm_fold_l2_ns tm' = tm_fold_l2_ns tm \<and>
     tm_fold_l1_ns tm' = tm_fold_l1_ns tm \<and> map cr_level_id (tm_custom tm') = map cr_level_id (tm_custom tm)"

lemma same_store_refl [simp]: "same_store tm tm"
  by (simp add: same_store_def)

lemma same_store_trans: "same_store a b \<Longrightarrow> same_store b c \<Longrightarrow> same_store a c"
  by (simp add: same_store_def)

lemma same_store_fold [simp]:
  "same_store tm (tm'\<lparr>tm_fold_l2 := a\<rparr>) = same_store tm tm'" "same_store (tm\<lparr>tm_fold_l2 := a\<rparr>) tm' = same_store tm tm'"
  "same_store tm (tm'\<lparr>tm_fold_l1 := a\<rparr>) = same_store tm tm'" "same_store (tm\<lparr>tm_fold_l1 := a\<rparr>) tm' = same_store tm tm'"
  by (simp_all add: same_store_def)

lemma tiers_in_ids [simp]: "Tier1 \<in> set (ring_ids tm)" "Tier2 \<in> set (ring_ids tm)" "Tier3 \<in> set (ring_ids tm)"
  by (simp_all add: ring_ids_def)

lemma find_custom_ring_eq:
  "find_custom_ring cs level n = Some i \<Longrightarrow> \<exists>k < length cs. i = Custom (n + k) \<and> cr_level_id (cs ! k) = level"
proof (induction cs level n rule: find_custom_ring.induct)
  case (2 c cs level n)
  show ?case
  proof (cases "cr_level_id c = level")
    case True
    then show ?thesis using "2.prems" by (intro exI [of _ 0]) auto
  next
    case False
    then obtain k where "k < length cs" "i = Custom (Suc n + k)" "cr_level_id (cs ! k) = level" using 2 by auto
    then show ?thesis by (intro exI [of _ "Suc k"]) auto
  qed
qed simp

lemma ring_for_in_ids: "ring_for tm level = Some i \<Longrightarrow> i \<in> set (ring_ids tm)"
  by (auto simp: ring_for_def ring_ids_def split: if_splits dest: find_custom_ring_eq)

text \<open>A flush is nothing on an empty window, and one append of its summary otherwise.\<close>

lemma tm_flush_l2_eq:
  "tm_flush_l2 strerror (tm, d) io =
     (if ag_n (tm_fold_l2 tm) = 0 then (0, tm\<lparr>tm_fold_l2 := aggregator_reset (ag_out_level (tm_fold_l2 tm))\<rparr>, d)
      else tm_append strerror (tm\<lparr>tm_fold_l2 := aggregator_reset (ag_out_level (tm_fold_l2 tm))\<rparr>, d) io Tier2
             (aggregator_result (tm_fold_l2 tm)))"
  by (simp add: tm_flush_l2_def aggregator_fold_def)

lemma tm_flush_l1_eq:
  "tm_flush_l1 strerror (tm, d) io =
     (if ag_n (tm_fold_l1 tm) = 0 then (0, tm\<lparr>tm_fold_l1 := aggregator_reset (ag_out_level (tm_fold_l1 tm))\<rparr>, d)
      else tm_append strerror (tm\<lparr>tm_fold_l1 := aggregator_reset (ag_out_level (tm_fold_l1 tm))\<rparr>, d) io Tier3
             (aggregator_result (tm_fold_l1 tm)))"
  by (simp add: tm_flush_l1_def aggregator_fold_def)

lemma tm_append_same:
  assumes "tm_ok (tm, d)" and "i \<in> set (ring_ids tm)" and "tm_append strerror (tm, d) io i s = (rc, tm', d')"
  shows "tm_ok (tm', d') \<and> same_store tm tm'"
  using tm_append_ok [OF assms] by (simp add: same_store_def)

lemma tm_flush_l2_same:
  "tm_ok (tm, d) \<Longrightarrow> tm_flush_l2 strerror (tm, d) io = (rc, tm', d') \<Longrightarrow> tm_ok (tm', d') \<and> same_store tm tm'"
  using tm_append_same [of "tm\<lparr>tm_fold_l2 := aggregator_reset (ag_out_level (tm_fold_l2 tm))\<rparr>" d Tier2]
  by (auto simp: tm_flush_l2_eq split: if_splits)

lemma tm_flush_l1_same:
  "tm_ok (tm, d) \<Longrightarrow> tm_flush_l1 strerror (tm, d) io = (rc, tm', d') \<Longrightarrow> tm_ok (tm', d') \<and> same_store tm tm'"
  using tm_append_same [of "tm\<lparr>tm_fold_l1 := aggregator_reset (ag_out_level (tm_fold_l1 tm))\<rparr>" d Tier3]
  by (auto simp: tm_flush_l1_eq split: if_splits)

lemma tm_feed_l2_same:
  assumes "tm_ok (tm, d)" and "tm_feed_l2 strerror (tm, d) io s = (rc, tm', d')"
  shows "tm_ok (tm', d') \<and> same_store tm tm'"
  using assms tm_flush_l2_same [OF assms(1), of strerror io]
  by (auto simp: tm_feed_l2_def split: if_splits prod.splits)

lemma tm_feed_l1_same:
  assumes "tm_ok (tm, d)" and "tm_feed_l1 strerror (tm, d) io s = (rc, tm', d')"
  shows "tm_ok (tm', d') \<and> same_store tm tm'"
  using assms tm_flush_l1_same [OF assms(1), of strerror io]
  by (auto simp: tm_feed_l1_def split: if_splits prod.splits)

lemma tm_fold_same:
  assumes "tm_ok (tm, d)" and "tm_fold strerror (tm, d) io s = (rc, tm', d')"
  shows "tm_ok (tm', d') \<and> same_store tm tm'"
proof -
  obtain rc2 tm2 d2 where two: "(if s_level s = L1 \<or> s_level s = L2 then tm_flush_l2 strerror (tm, d) (io 0)
      else tm_feed_l2 strerror (tm, d) (io 0) s) = (rc2, tm2, d2)" by (metis prod_cases3)
  have ok2: "tm_ok (tm2, d2) \<and> same_store tm tm2"
    using tm_flush_l2_same [OF assms(1), of strerror "io 0" rc2 tm2 d2] tm_feed_l2_same [OF assms(1), of strerror "io 0" s rc2 tm2 d2] two
    by argo
  obtain rc1 where one: "(if s_level s = L1 then tm_flush_l1 strerror (tm2, d2) (io 1)
      else tm_feed_l1 strerror (tm2, d2) (io 1) s) = (rc1, tm', d')"
    using assms(2) two by (auto simp: tm_fold_def split: prod.splits)
  have "tm_ok (tm', d') \<and> same_store tm2 tm'"
    using tm_flush_l1_same [OF conjunct1 [OF ok2], of strerror "io 1" rc1 tm' d']
      tm_feed_l1_same [OF conjunct1 [OF ok2], of strerror "io 1" s rc1 tm' d'] one
    by argo
  then show ?thesis using ok2 same_store_trans by blast
qed

lemma tm_store_same:
  assumes "tm_ok (tm, d)" and "tm_store strerror (tm, d) io s = (rc, tm', d')"
  shows "tm_ok (tm', d') \<and> same_store tm tm'"
proof (cases "ring_for tm (s_level s)")
  case None
  then show ?thesis using assms by (simp add: tm_store_def tm_ok_def)
next
  case (Some i)
  obtain rcf tmf df where f: "tm_fold strerror (tm, d) io s = (rcf, tmf, df)" by (metis prod_cases3)
  note fok = tm_fold_same [OF assms(1) f]
  then have i: "i \<in> set (ring_ids tmf)" using ring_for_in_ids [OF Some] by (simp add: same_store_def)
  have "tm_ready tm" using assms(1) by (simp add: tm_ok_def)
  then obtain direct where "tm_append strerror (tmf, df) (io 2) i s = (direct, tm', d')"
    using assms(2) f Some by (auto simp: tm_store_def split: prod.splits)
  then show ?thesis using tm_append_same [OF _ i] fok same_store_trans by blast
qed

section \<open>Time order\<close>

text \<open>A ring holds whole records of these samples, in time order, none newer than \<open>T\<close>.\<close>

definition ring_in :: "tier_manager \<times> disk \<Rightarrow> ring_id \<Rightarrow> u64 \<Rightarrow> bool" where
  "ring_in td i T \<longleftrightarrow> (\<exists>xs. ring_records (the_ring (fst td) i) (ring_file_of td i) = map record_bytes xs \<and>
     sorted (map s_timestamp_nanos xs) \<and> (\<forall>x \<in> set xs. s_timestamp_nanos x \<le> T))"

text \<open>A ring with a fold window: the window, once it has samples, is at least as new as the ring.\<close>

definition window_in :: "tier_manager \<times> disk \<Rightarrow> ring_id \<Rightarrow> aggregator \<Rightarrow> u64 \<Rightarrow> bool" where
  "window_in td i ag T =
     (if ag_n ag = 0 then ring_in td i T
      else ring_in td i (s_timestamp_nanos (ag_last ag)) \<and> s_timestamp_nanos (ag_last ag) \<le> T)"

definition in_order :: "tier_manager \<times> disk \<Rightarrow> u64 \<Rightarrow> bool" where
  "in_order td T \<longleftrightarrow> (\<forall>i \<in> set (ring_ids (fst td)). i \<noteq> Tier2 \<and> i \<noteq> Tier3 \<longrightarrow> ring_in td i T) \<and>
     window_in td Tier2 (tm_fold_l2 (fst td)) T \<and> window_in td Tier3 (tm_fold_l1 (fst td)) T"

text \<open>Room for \<open>n\<close> more writes before a write index would wrap round.\<close>

definition room :: "tier_manager \<times> disk \<Rightarrow> nat \<Rightarrow> bool" where
  "room td n \<longleftrightarrow> (\<forall>i \<in> set (ring_ids (fst td)). rf_w (the_ring (fst td) i) + n < two64)"

definition store_inv :: "tier_manager \<times> disk \<Rightarrow> u64 \<Rightarrow> nat \<Rightarrow> bool" where
  "store_inv td T n \<longleftrightarrow> tm_ok td \<and> in_order td T \<and> room td n"

text \<open>The disk either takes a record whole or not at all.\<close>

definition whole :: "write_io \<Rightarrow> bool" where
  "whole io \<longleftrightarrow> (case io of Short _ \<Rightarrow> False | _ \<Rightarrow> True)"

lemma ring_in_mono: "ring_in td i T \<Longrightarrow> T \<le> T' \<Longrightarrow> ring_in td i T'"
  unfolding ring_in_def by (meson order_trans)

lemma window_in_mono: "window_in td i ag T \<Longrightarrow> T \<le> T' \<Longrightarrow> window_in td i ag T'"
  by (auto simp: window_in_def split: if_splits intro: ring_in_mono order_trans)

lemma in_order_mono: "in_order td T \<Longrightarrow> T \<le> T' \<Longrightarrow> in_order td T'"
  by (auto simp: in_order_def intro: ring_in_mono window_in_mono)

lemma window_in_ring: "window_in td i ag T \<Longrightarrow> ring_in td i T"
  by (auto simp: window_in_def split: if_splits intro: ring_in_mono)

lemma ring_in_fold [simp]:
  "ring_in (tm\<lparr>tm_fold_l2 := a\<rparr>, d) i T = ring_in (tm, d) i T" "ring_in (tm\<lparr>tm_fold_l1 := a\<rparr>, d) i T = ring_in (tm, d) i T"
  "window_in (tm\<lparr>tm_fold_l2 := a\<rparr>, d) i ag T = window_in (tm, d) i ag T"
  "window_in (tm\<lparr>tm_fold_l1 := a\<rparr>, d) i ag T = window_in (tm, d) i ag T"
  "room (tm\<lparr>tm_fold_l2 := a\<rparr>, d) n = room (tm, d) n" "room (tm\<lparr>tm_fold_l1 := a\<rparr>, d) n = room (tm, d) n"
  by (simp_all add: ring_in_def window_in_def room_def)

lemma room_le: "room td n \<Longrightarrow> m \<le> n \<Longrightarrow> room td m"
  by (fastforce simp: room_def)

text \<open>One append in time order.\<close>

lemma tm_append_in_order:
  assumes ok: "tm_ok (tm, d)" and i: "i \<in> set (ring_ids tm)" and app: "tm_append strerror (tm, d) io i s = (rc, tm', d')"
    and io: "whole io" and room: "room (tm, d) (Suc n)" and ring: "ring_in (tm, d) i (s_timestamp_nanos s)"
  shows "ring_in (tm', d') i (s_timestamp_nanos s)" and "room (tm', d') n"
    and "\<And>j B. j \<in> set (ring_ids tm) \<Longrightarrow> j \<noteq> i \<Longrightarrow> ring_in (tm', d') j B = ring_in (tm, d) j B"
proof -
  note after = tm_append_ok [OF ok i app]
  have r: "ring_ok (the_ring tm i) (ring_file_of (tm, d) i)" "rf_rs (the_ring tm i) = record_size_for_sample"
    using ok i by (auto simp: tm_ok_def)
  have w: "rf_w (the_ring tm i) + 1 < two64" using room i by (auto simp: room_def)
  show other: "ring_in (tm', d') j B = ring_in (tm, d) j B" if "j \<in> set (ring_ids tm)" "j \<noteq> i" for j B
    using after that by (simp add: ring_in_def)
  obtain arc where a: "ring_append (the_ring tm i) (ring_file_of (tm, d) i) io (Some (record_bytes s)) record_size_for_sample
      = (arc, the_ring tm' i, ring_file_of (tm', d') i)" using after by blast
  obtain xs where xs: "ring_records (the_ring tm i) (ring_file_of (tm, d) i) = map record_bytes xs"
    "sorted (map s_timestamp_nanos xs)" "\<forall>x \<in> set xs. s_timestamp_nanos x \<le> s_timestamp_nanos s"
    using ring by (auto simp: ring_in_def)
  have "ring_in (tm', d') i (s_timestamp_nanos s) \<and> rf_w (the_ring tm' i) \<le> Suc (rf_w (the_ring tm i))"
  proof (cases io)
    case Full
    let ?c = "rf_cap (the_ring tm i)"
    have "ring_records (the_ring tm' i) (ring_file_of (tm', d') i) = last_n ?c (map record_bytes xs @ [record_bytes s])"
      using ring_records_append [OF r(1) _ w, of "record_bytes s"] a Full r(2) xs(1) by simp
    then have "ring_records (the_ring tm' i) (ring_file_of (tm', d') i) = map record_bytes (last_n ?c (xs @ [s]))"
      using last_n_map [of ?c record_bytes "xs @ [s]"] by simp
    moreover have "sorted (map s_timestamp_nanos (last_n ?c (xs @ [s])))"
      using xs(2,3) sorted_wrt_last_n [of "(\<le>)" "map s_timestamp_nanos (xs @ [s])" ?c]
      unfolding last_n_map by (simp add: sorted_append)
    moreover have "\<forall>x \<in> set (last_n ?c (xs @ [s])). s_timestamp_nanos x \<le> s_timestamp_nanos s"
      using xs(3) set_last_n_subset [of ?c "xs @ [s]"] by auto
    moreover have "the_ring tm' i = (the_ring tm i)\<lparr>rf_begun := rf_widx (the_ring tm i) + 1, rf_widx := rf_widx (the_ring tm i) + 1\<rparr>"
      using ring_append_full [OF r(1), of "record_bytes s"] a Full r(2) by simp
    ultimately show ?thesis using w by (auto simp: ring_in_def unat_Suc)
  next
    case (Fail e)
    then have "the_ring tm' i = (the_ring tm i)\<lparr>rf_last_errno := e\<rparr>" "ring_file_of (tm', d') i = ring_file_of (tm, d) i"
      using ring_append_fail [OF r(1), of "record_bytes s" e] a r(2) by simp_all
    then show ?thesis using xs by (auto simp: ring_in_def ring_records_def)
  qed (use io in \<open>simp add: whole_def\<close>)
  note result = this
  then show "ring_in (tm', d') i (s_timestamp_nanos s)" by blast
  have "rf_w (the_ring tm' j) + n < two64" if "j \<in> set (ring_ids tm)" for j
  proof (cases "j = i")
    case True
    then show ?thesis using result room i by (auto simp: room_def)
  next
    case False
    then show ?thesis using after room that by (auto simp: room_def)
  qed
  then show "room (tm', d') n" using after by (simp add: room_def)
qed

lemma result_timestamp: "s_timestamp_nanos (aggregator_result a) = s_timestamp_nanos (ag_last a)"
  by (simp add: aggregator_result_def Let_def)

lemma add_timestamp: "s_timestamp_nanos (ag_last (aggregator_add a s)) = s_timestamp_nanos s"
  by (simp add: aggregator_add_sel add_last_def Let_def)

text \<open>Which ring an append goes to decides which window must be empty.\<close>

lemma append_store_inv:
  assumes inv: "store_inv (tm, d) T (Suc n)" and i: "i \<in> set (ring_ids tm)" and le: "T \<le> s_timestamp_nanos s"
    and win: "i = Tier2 \<Longrightarrow> ag_n (tm_fold_l2 tm) = 0" "i = Tier3 \<Longrightarrow> ag_n (tm_fold_l1 tm) = 0"
    and io: "whole io" and app: "tm_append strerror (tm, d) io i s = (rc, tm', d')"
  shows "store_inv (tm', d') (s_timestamp_nanos s) n"
proof -
  have ok: "tm_ok (tm, d)" and ord: "in_order (tm, d) T" and room: "room (tm, d) (Suc n)"
    using inv by (auto simp: store_inv_def)
  have rings: "ring_in (tm, d) j T" if "j \<in> set (ring_ids tm)" for j
    using ord that window_in_ring by (cases "j = Tier2 \<or> j = Tier3") (auto simp: in_order_def)
  have ring: "ring_in (tm, d) i (s_timestamp_nanos s)" by (rule ring_in_mono [OF rings [OF i] le])
  note after = tm_append_ok [OF ok i app] and order = tm_append_in_order [OF ok i app io room ring]
  have each: "ring_in (tm', d') j (s_timestamp_nanos s)" if "j \<in> set (ring_ids tm)" for j
    using order that rings [OF that, THEN ring_in_mono, OF le] by (cases "j = i") auto
  have w2: "window_in (tm', d') Tier2 (tm_fold_l2 tm') (s_timestamp_nanos s)"
  proof (cases "ag_n (tm_fold_l2 tm) = 0")
    case True
    then show ?thesis using after each by (simp add: window_in_def)
  next
    case False
    then have "i \<noteq> Tier2" using win by blast
    then show ?thesis using False after order(3) [of Tier2] ord le
      by (auto simp: window_in_def in_order_def)
  qed
  have w3: "window_in (tm', d') Tier3 (tm_fold_l1 tm') (s_timestamp_nanos s)"
  proof (cases "ag_n (tm_fold_l1 tm) = 0")
    case True
    then show ?thesis using after each by (simp add: window_in_def)
  next
    case False
    then have "i \<noteq> Tier3" using win by blast
    then show ?thesis using False after order(3) [of Tier3] ord le
      by (auto simp: window_in_def in_order_def)
  qed
  show ?thesis using after each w2 w3 order(2) by (simp add: store_inv_def in_order_def)
qed

lemma store_inv_reset:
  assumes "store_inv (tm, d) T n"
  shows "ag_n (tm_fold_l2 tm) = 0 \<Longrightarrow> ag_n a = 0 \<Longrightarrow> store_inv (tm\<lparr>tm_fold_l2 := a\<rparr>, d) T n"
    and "ag_n (tm_fold_l1 tm) = 0 \<Longrightarrow> ag_n a = 0 \<Longrightarrow> store_inv (tm\<lparr>tm_fold_l1 := a\<rparr>, d) T n"
  using assms by (auto simp: store_inv_def in_order_def window_in_def)

lemma store_inv_le: "store_inv td T n \<Longrightarrow> T \<le> T' \<Longrightarrow> m \<le> n \<Longrightarrow> store_inv td T' m"
  by (auto simp: store_inv_def intro: in_order_mono room_le)

text \<open>Writing out a window: the ring behind it takes its summary, which is not newer than \<open>T\<close>.\<close>

lemma flush_l2_inv:
  assumes inv: "store_inv (tm, d) T (Suc n)" and io: "whole io" and fl: "tm_flush_l2 strerror (tm, d) io = (rc, tm', d')"
  shows "store_inv (tm', d') T n" and "ag_n (tm_fold_l2 tm') = 0" and "tm_fold_l1 tm' = tm_fold_l1 tm"
proof -
  let ?tm = "tm\<lparr>tm_fold_l2 := aggregator_reset (ag_out_level (tm_fold_l2 tm))\<rparr>"
  have "store_inv (tm', d') T n \<and> ag_n (tm_fold_l2 tm') = 0 \<and> tm_fold_l1 tm' = tm_fold_l1 tm"
  proof (cases "ag_n (tm_fold_l2 tm) = 0")
    case True
    then show ?thesis using fl store_inv_reset(1) [OF store_inv_le [OF inv order_refl, of n] True] by (auto simp: tm_flush_l2_eq)
  next
    case False
    let ?s = "aggregator_result (tm_fold_l2 tm)"
    have app: "tm_append strerror (?tm, d) io Tier2 ?s = (rc, tm', d')" using fl False by (simp add: tm_flush_l2_eq)
    have ok: "tm_ok (?tm, d)" "room (?tm, d) (Suc n)" using inv by (simp_all add: store_inv_def)
    have win: "ring_in (tm, d) Tier2 (s_timestamp_nanos ?s)" "s_timestamp_nanos ?s \<le> T"
      using inv False by (auto simp: store_inv_def in_order_def window_in_def result_timestamp)
    then have ring: "ring_in (?tm, d) Tier2 (s_timestamp_nanos ?s)" by simp
    note order = tm_append_in_order [OF ok(1) _ app io ok(2) ring, simplified]
    note after = tm_append_ok [OF ok(1) _ app, simplified]
    have "in_order (tm', d') T"
      using inv after order win(2) ring_in_mono [OF order(1) win(2)]
      by (auto simp: store_inv_def in_order_def window_in_def)
    then show ?thesis using after order(2) by (simp add: store_inv_def)
  qed
  then show "store_inv (tm', d') T n" and "ag_n (tm_fold_l2 tm') = 0" and "tm_fold_l1 tm' = tm_fold_l1 tm" by blast+
qed

lemma flush_l1_inv:
  assumes inv: "store_inv (tm, d) T (Suc n)" and io: "whole io" and fl: "tm_flush_l1 strerror (tm, d) io = (rc, tm', d')"
  shows "store_inv (tm', d') T n" and "ag_n (tm_fold_l1 tm') = 0" and "tm_fold_l2 tm' = tm_fold_l2 tm"
proof -
  let ?tm = "tm\<lparr>tm_fold_l1 := aggregator_reset (ag_out_level (tm_fold_l1 tm))\<rparr>"
  have "store_inv (tm', d') T n \<and> ag_n (tm_fold_l1 tm') = 0 \<and> tm_fold_l2 tm' = tm_fold_l2 tm"
  proof (cases "ag_n (tm_fold_l1 tm) = 0")
    case True
    then show ?thesis using fl store_inv_reset(2) [OF store_inv_le [OF inv order_refl, of n] True] by (auto simp: tm_flush_l1_eq)
  next
    case False
    let ?s = "aggregator_result (tm_fold_l1 tm)"
    have app: "tm_append strerror (?tm, d) io Tier3 ?s = (rc, tm', d')" using fl False by (simp add: tm_flush_l1_eq)
    have ok: "tm_ok (?tm, d)" "room (?tm, d) (Suc n)" using inv by (simp_all add: store_inv_def)
    have win: "ring_in (tm, d) Tier3 (s_timestamp_nanos ?s)" "s_timestamp_nanos ?s \<le> T"
      using inv False by (auto simp: store_inv_def in_order_def window_in_def result_timestamp)
    then have ring: "ring_in (?tm, d) Tier3 (s_timestamp_nanos ?s)" by simp
    note order = tm_append_in_order [OF ok(1) _ app io ok(2) ring, simplified]
    note after = tm_append_ok [OF ok(1) _ app, simplified]
    have "in_order (tm', d') T"
      using inv after order win(2) ring_in_mono [OF order(1) win(2)]
      by (auto simp: store_inv_def in_order_def window_in_def)
    then show ?thesis using after order(2) by (simp add: store_inv_def)
  qed
  then show "store_inv (tm', d') T n" and "ag_n (tm_fold_l1 tm') = 0" and "tm_fold_l2 tm' = tm_fold_l2 tm" by blast+
qed

text \<open>Adding to a window: it becomes the newest thing its ring knows of.\<close>

lemma add_l2_inv:
  assumes "store_inv (tm, d) T n" and "T \<le> s_timestamp_nanos s"
  shows "store_inv (tm\<lparr>tm_fold_l2 := aggregator_add (tm_fold_l2 tm) s\<rparr>, d) (s_timestamp_nanos s) n"
  using store_inv_le [OF assms order_refl] assms
  by (auto simp: store_inv_def in_order_def window_in_def aggregator_add_sel(2) add_timestamp
      split: if_splits intro: ring_in_mono)

lemma add_l1_inv:
  assumes "store_inv (tm, d) T n" and "T \<le> s_timestamp_nanos s"
  shows "store_inv (tm\<lparr>tm_fold_l1 := aggregator_add (tm_fold_l1 tm) s\<rparr>, d) (s_timestamp_nanos s) n"
  using store_inv_le [OF assms order_refl] assms
  by (auto simp: store_inv_def in_order_def window_in_def aggregator_add_sel(2) add_timestamp
      split: if_splits intro: ring_in_mono)

lemma feed_l2_inv:
  assumes inv: "store_inv (tm, d) T (Suc n)" and le: "T \<le> s_timestamp_nanos s" and io: "whole io"
    and fd: "tm_feed_l2 strerror (tm, d) io s = (rc, tm', d')"
  shows "store_inv (tm', d') (s_timestamp_nanos s) n"
proof (cases "tm_fold_l2_ns tm = 0")
  case True
  then show ?thesis using fd store_inv_le [OF inv le] by (auto simp: tm_feed_l2_def)
next
  case False
  obtain tm1 d1 where one: "(if window_over (tm_fold_l2 tm) (tm_fold_l2_ns tm) s then tm_flush_l2 strerror (tm, d) io
      else (0, tm, d)) = (rc, tm1, d1)" and tm': "tm' = tm1\<lparr>tm_fold_l2 := aggregator_add (tm_fold_l2 tm1) s\<rparr>" "d' = d1"
    using fd False by (auto simp: tm_feed_l2_def split: prod.splits)
  have "store_inv (tm1, d1) T n"
  proof (cases "window_over (tm_fold_l2 tm) (tm_fold_l2_ns tm) s")
    case True
    then show ?thesis using one flush_l2_inv(1) [OF inv io] by simp
  next
    case False
    then show ?thesis using one store_inv_le [OF inv order_refl] by simp
  qed
  then show ?thesis unfolding tm' by (rule add_l2_inv [OF _ le])
qed

lemma feed_l1_inv:
  assumes inv: "store_inv (tm, d) T (Suc n)" and le: "T \<le> s_timestamp_nanos s" and io: "whole io"
    and fd: "tm_feed_l1 strerror (tm, d) io s = (rc, tm', d')"
  shows "store_inv (tm', d') (s_timestamp_nanos s) n \<and> tm_fold_l2 tm' = tm_fold_l2 tm"
proof (cases "tm_fold_l1_ns tm = 0")
  case True
  then show ?thesis using fd store_inv_le [OF inv le] by (auto simp: tm_feed_l1_def)
next
  case False
  obtain tm1 d1 where one: "(if window_over (tm_fold_l1 tm) (tm_fold_l1_ns tm) s then tm_flush_l1 strerror (tm, d) io
      else (0, tm, d)) = (rc, tm1, d1)" and tm': "tm' = tm1\<lparr>tm_fold_l1 := aggregator_add (tm_fold_l1 tm1) s\<rparr>" "d' = d1"
    using fd False by (auto simp: tm_feed_l1_def split: prod.splits)
  have "store_inv (tm1, d1) T n \<and> tm_fold_l2 tm1 = tm_fold_l2 tm"
  proof (cases "window_over (tm_fold_l1 tm) (tm_fold_l1_ns tm) s")
    case True
    then show ?thesis using one flush_l1_inv [OF inv io] by simp
  next
    case False
    then show ?thesis using one store_inv_le [OF inv order_refl] by simp
  qed
  then show ?thesis unfolding tm' using add_l1_inv [OF _ le] by simp
qed

text \<open>Both windows, whatever the level: afterwards the window behind the sample's own ring is
  empty.\<close>

lemma tm_fold_inv:
  assumes inv: "store_inv (tm, d) T (Suc (Suc n))" and le: "T \<le> s_timestamp_nanos s" and io: "\<forall>k. whole (io k)"
    and fo: "tm_fold strerror (tm, d) io s = (rc, tm', d')"
  shows "store_inv (tm', d') (s_timestamp_nanos s) n \<and> (s_level s = L2 \<longrightarrow> ag_n (tm_fold_l2 tm') = 0)
    \<and> (s_level s = L1 \<longrightarrow> ag_n (tm_fold_l1 tm') = 0)"
proof -
  have io': "whole (io 0)" "whole (io 1)" using io by auto
  obtain rc2 tm2 d2 where two: "(if s_level s = L1 \<or> s_level s = L2 then tm_flush_l2 strerror (tm, d) (io 0)
      else tm_feed_l2 strerror (tm, d) (io 0) s) = (rc2, tm2, d2)" by (metis prod_cases3)
  obtain rc1 where one: "(if s_level s = L1 then tm_flush_l1 strerror (tm2, d2) (io 1)
      else tm_feed_l1 strerror (tm2, d2) (io 1) s) = (rc1, tm', d')"
    using fo two by (auto simp: tm_fold_def split: prod.splits)
  consider "s_level s = L1" | "s_level s = L2" | "s_level s \<noteq> L1" "s_level s \<noteq> L2" by blast
  then show ?thesis
  proof cases
    case 1
    then have "store_inv (tm2, d2) T (Suc n)" using two flush_l2_inv [OF inv io'(1)] by simp
    then show ?thesis using 1 one flush_l1_inv [OF _ io'(2)] store_inv_le [OF _ le, of "(tm', d')" n n] by fastforce
  next
    case 2
    then have "store_inv (tm2, d2) T (Suc n)" "ag_n (tm_fold_l2 tm2) = 0" using two flush_l2_inv [OF inv io'(1)] by simp_all
    then show ?thesis using 2 one feed_l1_inv [OF _ le io'(2)] by fastforce
  next
    case 3
    then have "store_inv (tm2, d2) (s_timestamp_nanos s) (Suc n)" using two feed_l2_inv [OF inv le io'(1)] by simp
    then show ?thesis using 3 one feed_l1_inv [OF _ order_refl io'(2)] by fastforce
  qed
qed

lemma store_inv_step:
  assumes inv: "store_inv (tm, d) T (n + 3)" and le: "T \<le> s_timestamp_nanos s" and io: "\<forall>k. whole (io k)"
    and st: "tm_store strerror (tm, d) io s = (rc, tm', d')"
  shows "store_inv (tm', d') (s_timestamp_nanos s) n"
proof (cases "ring_for tm (s_level s)")
  case None
  then show ?thesis using st store_inv_le [OF inv le] inv by (auto simp: tm_store_def store_inv_def tm_ok_def)
next
  case (Some i)
  have ok: "tm_ok (tm, d)" using inv by (simp add: store_inv_def)
  then have ready: "tm_ready tm" by (simp add: tm_ok_def)
  obtain rcf tmf df where f: "tm_fold strerror (tm, d) io s = (rcf, tmf, df)" by (metis prod_cases3)
  have fi: "store_inv (tmf, df) (s_timestamp_nanos s) (Suc n)"
    "s_level s = L2 \<longrightarrow> ag_n (tm_fold_l2 tmf) = 0" "s_level s = L1 \<longrightarrow> ag_n (tm_fold_l1 tmf) = 0"
    using tm_fold_inv [OF _ le io f, of "Suc n"] inv by (auto simp: numeral_3_eq_3)
  have i: "i \<in> set (ring_ids tmf)"
    using tm_fold_same [OF ok f] ring_for_in_ids [OF Some] by (simp add: same_store_def)
  have lv: "i = Tier2 \<Longrightarrow> s_level s = L2" "i = Tier3 \<Longrightarrow> s_level s = L1"
    using Some by (auto simp: ring_for_def split: if_splits dest: find_custom_ring_eq)
  obtain direct where "tm_append strerror (tmf, df) (io 2) i s = (direct, tm', d')"
    using st f Some ready by (auto simp: tm_store_def split: prod.splits)
  from append_store_inv [OF fi(1) i order_refl _ _ _ this] show ?thesis using lv fi(2,3) io by blast
qed

section \<open>A sequence of stores\<close>

fun tm_run :: "(errno \<Rightarrow> string) \<Rightarrow> tier_manager \<times> disk \<Rightarrow> ((nat \<Rightarrow> write_io) \<times> sample) list \<Rightarrow> tier_manager \<times> disk" where
  "tm_run strerror td [] = td"
| "tm_run strerror td ((io, s) # xs) = tm_run strerror (snd (tm_store strerror td io s)) xs"

lemma tm_run_inv:
  assumes "store_inv td T (3 * length xs + n)" and "sorted (T # map (s_timestamp_nanos \<circ> snd) xs)"
    and "\<forall>(io, s) \<in> set xs. \<forall>k. whole (io k)"
  shows "\<exists>T'. store_inv (tm_run strerror td xs) T' n"
  using assms
proof (induction xs arbitrary: td T)
  case Nil
  then show ?case by auto
next
  case (Cons x xs)
  obtain io s where x: "x = (io, s)" by (cases x)
  obtain tm d where td: "td = (tm, d)" by (cases td)
  obtain rc tm' d' where st: "tm_store strerror td io s = (rc, tm', d')" by (metis prod_cases3)
  have "store_inv (tm', d') (s_timestamp_nanos s) (3 * length xs + n)"
    using store_inv_step [of tm d T "3 * length xs + n" s io strerror rc tm' d'] Cons.prems st
    by (auto simp: x td algebra_simps)
  from Cons.IH [OF this] show ?case using Cons.prems by (simp add: x st)
qed

lemma tm_run_same:
  assumes "tm_ok td"
  shows "tm_ok (tm_run strerror td xs) \<and> same_store (fst td) (fst (tm_run strerror td xs))"
  using assms
proof (induction strerror td xs rule: tm_run.induct)
  case (2 strerror td io s xs)
  obtain rc tm' d' where st: "tm_store strerror td io s = (rc, tm', d')" by (metis prod_cases3)
  have "tm_ok (tm', d') \<and> same_store (fst td) tm'"
    using tm_store_same [of "fst td" "snd td" strerror io s rc tm' d'] st "2.prems" by simp
  then show ?case using 2 st same_store_trans by auto
qed simp

text \<open>A record that decodes gives back the stamp it was written with.\<close>

lemma read_record_timestamp: "read_record (record_bytes s) = Some t \<Longrightarrow> s_timestamp_nanos t = s_timestamp_nanos s"
proof -
  have ts: "le_get_u64 (record_bytes s) = Some (s_timestamp_nanos s)"
    by (simp add: record_bytes_def record_prefix_def get_put)
  assume "read_record (record_bytes s) = Some t"
  then show ?thesis
    by (auto simp: read_record_def record_decode_into_def ts Let_def split: option.splits if_splits bind_splits prod.splits)
qed

lemma sorted_map_filter:
  assumes stamp: "\<And>x y. g x = Some y \<Longrightarrow> h y = f x"
  shows "sorted (map f xs) \<Longrightarrow> sorted (map h (List.map_filter g xs)) \<and> (\<forall>y \<in> set (List.map_filter g xs). \<exists>x \<in> set xs. h y = f x)"
proof (induction xs)
  case (Cons x xs)
  then show ?case using stamp [of x] by (cases "g x") (fastforce simp: List.map_filter_def)+
qed (simp add: List.map_filter_def)

lemma sorted_read_records:
  assumes "sorted (map s_timestamp_nanos xs)"
  shows "sorted (map s_timestamp_nanos (List.map_filter read_record (map record_bytes xs)))"
proof -
  have "List.map_filter read_record (map record_bytes xs) = List.map_filter (\<lambda>x. read_record (record_bytes x)) xs"
    by (induction xs) (simp_all add: List.map_filter_def comp_def)
  then show ?thesis
    using sorted_map_filter [of "\<lambda>x. read_record (record_bytes x)" s_timestamp_nanos s_timestamp_nanos, OF read_record_timestamp assms]
    by simp
qed

section \<open>Starting on an empty directory\<close>

lemma fresh_unindexed:
  assumes ok: "ring_ok r f" and w: "rf_widx r = 0" and z: "drop kHeaderSize f = replicate m 0"
  shows "count_unindexed r f no_errors realtime now = 0"
proof -
  have "slot_bytes (rf_rs r) f 0 = take (rf_rs r) (replicate m 0)" using z by (simp add: slot_bytes_def)
  then have "read_record (slot_bytes (rf_rs r) f 0) = None" by (intro read_record_blank) (simp add: list_all_iff)
  then have none: "unindexed_read r f no_errors 0 = None"
    using unindexed_read_ok [OF ring_ok_shape [OF ok], of 0] by (simp add: slot_sample_def)
  have "newer_run (unindexed_read r f no_errors) k 0 p n = 0" for k p n
    using none by (cases n) simp_all
  moreover have "write_index r f = 0" using ok w by (simp add: write_index_def ring_ok_def)
  ultimately show ?thesis by (simp add: count_unindexed_def Let_def)
qed

definition ring_io_ok :: ring_io where
  "ring_io_ok = \<lparr>ri_header = open_io_ok, ri_convert = convert_io_ok, ri_open = open_io_ok, ri_read = (\<lambda>_. None)\<rparr>"

lemma unat_of_nat_record_size: "unat (of_nat record_size_for_sample :: u32) = record_size_for_sample"
  by (simp add: record_size_eq)

lemma open_ring_fresh:
  assumes "\<not> rf_open ring" and "join_path 1024 dir leaf" and "d leaf = None" and "cap \<noteq> 0"
    and "kHeaderSize + record_size_for_sample * unat cap < 2 ^ 63"
  shows "\<exists>r f. open_ring strerror ring_io_ok realtime dir (tm, d) ring leaf tier cap = (None, r, tm, d(leaf \<mapsto> f))
    \<and> ring_ok r f \<and> rf_rs r = record_size_for_sample \<and> rf_widx r = 0 \<and> rf_capacity r = cap"
proof -
  let ?rs = "of_nat record_size_for_sample :: u32"
  have rs: "unat ?rs = record_size_for_sample" by (rule unat_of_nat_record_size)
  then have "?rs \<noteq> 0" by (auto simp: record_size_eq)
  then obtain r f where o: "ring_open ring None open_io_ok tier ?rs cap = (0, r, Some f)" and r: "ring_ok r f"
    "rf_record_size r = ?rs" "rf_capacity r = cap" "rf_widx r = 0" "drop kHeaderSize f = replicate (unat ?rs * unat cap) 0"
    using ring_create [OF assms(1) _ assms(4), of ?rs None tier] assms(5) rs by auto
  have conv: "convert_if_older strerror ring_io_ok realtime (tm, d) leaf tier ?rs cap = (True, tm, d)"
    using assms(3) by (simp add: convert_if_older_def read_header_def ring_io_ok_def open_io_ok_def)
  have rec: "recover ring_io_ok realtime (tm, d(leaf \<mapsto> f)) leaf r = (tm, r, d(leaf \<mapsto> f))"
    using fresh_unindexed [OF r(1,4,5)] by (simp add: recover_def ring_io_ok_def)
  have "open_ring strerror ring_io_ok realtime dir (tm, d) ring leaf tier cap = (None, r, tm, d(leaf \<mapsto> f))"
    using assms(2) conv rec o assms(3) by (simp add: open_ring_def Let_def) (simp add: ring_io_ok_def)
  then show ?thesis using r rs by auto
qed

lemma unat_word_of_int_nat:
  assumes "0 < mb" and "nat mb < 2 ^ 31"
  shows "unat (word_of_int mb :: u64) = nat mb"
proof -
  obtain n where n: "mb = int n" using assms(1) by (metis int_nat_eq less_imp_le)
  then show ?thesis using assms by (simp add: unat_of_nat)
qed

lemma records_from_mb_ok:
  assumes "mb < 2 ^ 31"
  shows "records_from_mb mb record_size_for_sample \<noteq> 0"
    and "kHeaderSize + record_size_for_sample * unat (records_from_mb mb record_size_for_sample) < 2 ^ 63"
proof -
  let ?b = "word_of_int mb * (1024 * 1024) :: u64"
  have "unat ?b \<le> 2 ^ 51" if "0 < mb"
  proof -
    have m: "nat mb < 2 ^ 31" using assms that by simp
    then have "unat (word_of_int mb :: u64) = nat mb"
      using that by (simp add: unat_word_of_int_nat)
    moreover have "nat mb * 1048576 < two64" using m by simp
    moreover have "unat (1024 * 1024 :: u64) = 1048576" by simp
    ultimately have "unat ?b = nat mb * 1048576" by (simp only: unat_word_ariths) (simp del: unat_eq_nat_uint)
    then show ?thesis using m by simp
  qed
  moreover have "unat (of_nat record_size_for_sample :: u64) = record_size_for_sample" by (simp add: record_size_eq)
  ultimately have cap: "record_size_for_sample * unat (?b div of_nat record_size_for_sample) \<le> 2 ^ 51" if "0 < mb"
    using that order_trans [OF times_div_less_eq_dividend [of record_size_for_sample "unat ?b"]] by (simp only: unat_div)
  show "records_from_mb mb record_size_for_sample \<noteq> 0" by (simp add: records_from_mb_def Let_def)
  show "kHeaderSize + record_size_for_sample * unat (records_from_mb mb record_size_for_sample) < 2 ^ 63"
    using cap by (auto simp: records_from_mb_def Let_def kHeaderSize_def record_size_eq)
qed

text \<open>A store that was just opened on an empty directory: ready, no custom rings, the requested
  capacities, nothing written, both windows empty.\<close>

definition fresh_store :: "tier_manager \<times> disk \<Rightarrow> u64 \<Rightarrow> u64 \<Rightarrow> u64 \<Rightarrow> bool" where
  "fresh_store = (\<lambda>(tm, d) cap1 cap2 cap3. tm_ok (tm, d) \<and> tm_custom tm = [] \<and>
     rf_capacity (tm_tier1 tm) = cap1 \<and> rf_capacity (tm_tier2 tm) = cap2 \<and> rf_capacity (tm_tier3 tm) = cap3 \<and>
     (\<forall>i \<in> set (ring_ids tm). rf_widx (the_ring tm i) = 0) \<and>
     tm_fold_l2_ns tm = 0 \<and> tm_fold_l1_ns tm = 0 \<and> ag_n (tm_fold_l2 tm) = 0 \<and> ag_n (tm_fold_l1 tm) = 0)"

lemma tm_init_fresh:
  assumes dir: "length dir < 1000" and mb: "mb1 < 2 ^ 31" "mb2 < 2 ^ 31" "mb3 < 2 ^ 31"
  shows "\<exists>tm d. tm_init strerror (\<lambda>_. ring_io_ok) realtime (tier_manager_new, \<lambda>_. None) (Some dir) mb1 mb2 mb3 [] = (0, tm, d) \<and>
    fresh_store (tm, d) (records_from_mb mb1 record_size_for_sample) (records_from_mb mb2 record_size_for_sample)
      (records_from_mb mb3 record_size_for_sample)"
proof -
  let ?c1 = "records_from_mb mb1 record_size_for_sample" and ?c2 = "records_from_mb mb2 record_size_for_sample"
    and ?c3 = "records_from_mb mb3 record_size_for_sample"
  have new: "\<not> rf_open ring_file_new" by (simp add: ring_file_new_def)
  have jp: "join_path 1024 dir ''tier1.ring''" "join_path 1024 dir ''tier2.ring''" "join_path 1024 dir ''tier3.ring''"
    using dir by (simp_all add: join_path_def)
  let ?tm = tier_manager_new
  have r0: "tm_tier1 ?tm = ring_file_new" "tm_tier2 ?tm = ring_file_new" "tm_tier3 ?tm = ring_file_new" "\<not> tm_ready ?tm"
    by (simp_all add: tier_manager_new_def)
  let ?tma = "?tm\<lparr>tm_last_error := '''', tm_recovered := [], tm_converted := []\<rparr>"
  obtain r1 f1 where o1: "open_ring strerror ring_io_ok realtime dir (?tma, \<lambda>_. None) ring_file_new ''tier1.ring'' 1 ?c1
        = (None, r1, ?tma, (\<lambda>_. None)(''tier1.ring'' \<mapsto> f1))"
    and r1: "ring_ok r1 f1" "rf_rs r1 = record_size_for_sample" "rf_widx r1 = 0" "rf_capacity r1 = ?c1"
    using open_ring_fresh [OF new jp(1) _ records_from_mb_ok [OF mb(1)], of "\<lambda>_. None" strerror realtime ?tma 1] by auto
  let ?tm1 = "?tma\<lparr>tm_tier1 := r1\<rparr>" and ?d1 = "(\<lambda>_. None)(''tier1.ring'' \<mapsto> f1)"
  obtain r2 f2 where o2: "open_ring strerror ring_io_ok realtime dir (?tm1, ?d1) ring_file_new ''tier2.ring'' 2 ?c2
        = (None, r2, ?tm1, ?d1(''tier2.ring'' \<mapsto> f2))"
    and r2: "ring_ok r2 f2" "rf_rs r2 = record_size_for_sample" "rf_widx r2 = 0" "rf_capacity r2 = ?c2"
    using open_ring_fresh [OF new jp(2) _ records_from_mb_ok [OF mb(2)], of ?d1 strerror realtime ?tm1 2] by auto
  let ?tm2 = "?tm1\<lparr>tm_tier2 := r2\<rparr>" and ?d2 = "?d1(''tier2.ring'' \<mapsto> f2)"
  obtain r3 f3 where o3: "open_ring strerror ring_io_ok realtime dir (?tm2, ?d2) ring_file_new ''tier3.ring'' 3 ?c3
        = (None, r3, ?tm2, ?d2(''tier3.ring'' \<mapsto> f3))"
    and r3: "ring_ok r3 f3" "rf_rs r3 = record_size_for_sample" "rf_widx r3 = 0" "rf_capacity r3 = ?c3"
    using open_ring_fresh [OF new jp(3) _ records_from_mb_ok [OF mb(3)], of ?d2 strerror realtime ?tm2 3] by auto
  let ?tm3 = "?tm2\<lparr>tm_tier3 := r3, tm_ready := True\<rparr>" and ?d3 = "?d2(''tier3.ring'' \<mapsto> f3)"
  have "tm_init strerror (\<lambda>_. ring_io_ok) realtime (?tm, \<lambda>_. None) (Some dir) mb1 mb2 mb3 [] = (0, ?tm3, ?d3)"
    unfolding tm_init_def prod.case Let_def option.case using o1 o2 o3 r0 by simp
  moreover have "fresh_store (?tm3, ?d3) ?c1 ?c2 ?c3"
    using r1 r2 r3
    by (auto simp: fresh_store_def tm_ok_def ring_ids_def the_leaf_def the_ring_def ring_file_of_def tier_manager_new_def)
  ultimately show ?thesis by blast
qed

lemma ring_in_empty: "rf_widx (the_ring tm i) = 0 \<Longrightarrow> ring_in (tm, d) i T"
  by (simp add: ring_in_def ring_records_def live_def)

lemma set_fold_windows_inv [simp]:
  "store_inv (set_fold_windows tm a b, d) T n = store_inv (tm, d) T n"
  "tm_ok (set_fold_windows tm a b, d) = tm_ok (tm, d)"
proof -
  have [simp]: "the_ring (set_fold_windows tm a b) = the_ring tm" "the_leaf (set_fold_windows tm a b) = the_leaf tm"
    "ring_ids (set_fold_windows tm a b) = ring_ids tm"
    by (simp_all add: fun_eq_iff set_fold_windows_def the_ring_def the_leaf_def ring_ids_def split: ring_id.split)
  have [simp]: "ring_file_of (set_fold_windows tm a b, d) = ring_file_of (tm, d)"
    by (simp add: fun_eq_iff ring_file_of_def)
  show ok: "tm_ok (set_fold_windows tm a b, d) = tm_ok (tm, d)"
    by (simp add: tm_ok_def) (simp add: set_fold_windows_def)
  show "store_inv (set_fold_windows tm a b, d) T n = store_inv (tm, d) T n"
    by (simp add: store_inv_def ok in_order_def window_in_def ring_in_def room_def) (simp add: set_fold_windows_def)
qed

lemma fresh_store_inv: "fresh_store (tm, d) c1 c2 c3 \<Longrightarrow> n < two64 \<Longrightarrow> store_inv (tm, d) 0 n"
  by (auto simp: fresh_store_def store_inv_def in_order_def window_in_def room_def ring_in_empty)

section \<open>Storing with folding off\<close>

definition folding_off :: "tier_manager \<Rightarrow> bool" where
  "folding_off tm \<longleftrightarrow> tm_fold_l2_ns tm = 0 \<and> tm_fold_l1_ns tm = 0 \<and> ag_n (tm_fold_l2 tm) = 0 \<and> ag_n (tm_fold_l1 tm) = 0"

lemma tm_fold_off:
  assumes "folding_off tm"
  shows "\<exists>a b. tm_fold strerror (tm, d) io s = (0, tm\<lparr>tm_fold_l2 := a, tm_fold_l1 := b\<rparr>, d) \<and> ag_n a = 0 \<and> ag_n b = 0"
proof -
  let ?a = "if s_level s = L1 \<or> s_level s = L2 then aggregator_reset (ag_out_level (tm_fold_l2 tm)) else tm_fold_l2 tm"
  let ?b = "if s_level s = L1 then aggregator_reset (ag_out_level (tm_fold_l1 tm)) else tm_fold_l1 tm"
  have "tm_fold strerror (tm, d) io s = (0, tm\<lparr>tm_fold_l2 := ?a, tm_fold_l1 := ?b\<rparr>, d)"
    using assms by (cases tm) (simp add: tm_fold_def tm_flush_l2_eq tm_flush_l1_eq tm_feed_l2_def tm_feed_l1_def folding_off_def)
  moreover have "ag_n ?a = 0" "ag_n ?b = 0" using assms by (auto simp: folding_off_def)
  ultimately show ?thesis by blast
qed

lemma find_custom_ring_cong:
  "map cr_level_id cs = map cr_level_id cs' \<Longrightarrow> find_custom_ring cs level n = find_custom_ring cs' level n"
proof (induction cs arbitrary: cs' n)
  case (Cons c cs)
  then show ?case by (cases cs') auto
qed simp

lemma ring_for_same: "same_store tm tm' \<Longrightarrow> ring_for tm' level = ring_for tm level"
  using find_custom_ring_cong [of "tm_custom tm'" "tm_custom tm" level 0] by (simp add: ring_for_def same_store_def)

lemma tm_store_off:
  assumes ok: "tm_ok (tm, d)" and off: "folding_off tm" and i: "ring_for tm (s_level s) = Some i" and io: "io 2 = Full"
    and w: "rf_w (the_ring tm i) + 1 < two64" and st: "tm_store strerror (tm, d) io s = (rc, tm', d')"
  shows "rc = 0 \<and> folding_off tm' \<and> rf_widx (the_ring tm' i) = rf_widx (the_ring tm i) + 1 \<and>
    rf_capacity (the_ring tm' i) = rf_capacity (the_ring tm i) \<and>
    ring_records (the_ring tm' i) (ring_file_of (tm', d') i)
      = last_n (rf_cap (the_ring tm i)) (ring_records (the_ring tm i) (ring_file_of (tm, d) i) @ [record_bytes s]) \<and>
    (\<forall>j \<in> set (ring_ids tm). j \<noteq> i \<longrightarrow> the_ring tm' j = the_ring tm j \<and> ring_file_of (tm', d') j = ring_file_of (tm, d) j)"
proof -
  obtain a b where f: "tm_fold strerror (tm, d) io s = (0, tm\<lparr>tm_fold_l2 := a, tm_fold_l1 := b\<rparr>, d)" "ag_n a = 0" "ag_n b = 0"
    using tm_fold_off [OF off] by blast
  let ?tm = "tm\<lparr>tm_fold_l2 := a, tm_fold_l1 := b\<rparr>"
  have ready: "tm_ready tm" using ok by (simp add: tm_ok_def)
  obtain direct where app: "tm_append strerror (?tm, d) Full i s = (direct, tm', d')" and rc: "rc = direct"
    using st f i io ready by (auto simp: tm_store_def split: prod.splits if_splits)
  have ii: "i \<in> set (ring_ids tm)" by (rule ring_for_in_ids [OF i])
  note after = tm_append_ok [OF _ _ app, simplified, OF ok ii]
  have r: "ring_ok (the_ring tm i) (ring_file_of (tm, d) i)" "length (record_bytes s) = rf_rs (the_ring tm i)"
    using ok ii by (auto simp: tm_ok_def)
  obtain arc where a: "ring_append (the_ring tm i) (ring_file_of (tm, d) i) Full (Some (record_bytes s)) (length (record_bytes s))
      = (arc, the_ring tm' i, ring_file_of (tm', d') i)" and z: "direct = 0 \<longleftrightarrow> arc = 0" using after by auto
  then have "arc = 0" "rf_widx (the_ring tm' i) = rf_widx (the_ring tm i) + 1" "rf_capacity (the_ring tm' i) = rf_capacity (the_ring tm i)"
    using ring_append_full [OF r] by auto
  then show ?thesis
    using ring_records_append [OF r w a] after z rc f(2,3) off by (auto simp: folding_off_def)
qed

lemma tm_run_off:
  assumes "tm_ok td" and "folding_off (fst td)" and "room td (length xs)" and "\<forall>(io, s) \<in> set xs. io 2 = Full"
    and "i \<in> set (ring_ids (fst td))"
  shows "ring_records (the_ring (fst (tm_run strerror td xs)) i) (ring_file_of (tm_run strerror td xs) i) =
      last_n (rf_cap (the_ring (fst td) i)) (ring_records (the_ring (fst td) i) (ring_file_of td i) @
        map record_bytes (filter (\<lambda>s. ring_for (fst td) (s_level s) = Some i) (map snd xs))) \<and>
    rf_capacity (the_ring (fst (tm_run strerror td xs)) i) = rf_capacity (the_ring (fst td) i) \<and>
    rf_w (the_ring (fst (tm_run strerror td xs)) i) \<le> rf_w (the_ring (fst td) i) + length xs"
  using assms
proof (induction xs arbitrary: td)
  case Nil
  have "0 < rf_cap (the_ring (fst td) i)" using Nil by (cases td) (auto simp: tm_ok_def ring_ok_def)
  then show ?case by (simp add: length_ring_records)
next
  case (Cons x xs)
  obtain io s where x: "x = (io, s)" by (cases x)
  obtain tm d where td: "td = (tm, d)" by (cases td)
  obtain rc tm' d' where st: "tm_store strerror (tm, d) io s = (rc, tm', d')" by (metis prod_cases3)
  have ok: "tm_ok (tm, d)" and off: "folding_off tm" and io: "io 2 = Full" and i: "i \<in> set (ring_ids tm)"
    using Cons.prems by (auto simp: x td)
  note same = tm_store_same [OF ok st]
  let ?recs = "\<lambda>tm d. ring_records (the_ring tm i) (ring_file_of (tm, d) i)"
  have step: "?recs tm' d' = last_n (rf_cap (the_ring tm i)) (?recs tm d @
        (if ring_for tm (s_level s) = Some i then [record_bytes s] else [])) \<and> folding_off tm' \<and>
      rf_capacity (the_ring tm' i) = rf_capacity (the_ring tm i) \<and> room (tm', d') (length xs) \<and>
      rf_w (the_ring tm' i) \<le> Suc (rf_w (the_ring tm i))"
  proof (cases "ring_for tm (s_level s)")
    case None
    then have "tm' = tm" "d' = d" using st ok by (simp_all add: tm_store_def tm_ok_def)
    then show ?thesis using None off Cons.prems(3) room_le [of "(tm, d)" "Suc (length xs)" "length xs"]
      by (simp add: length_ring_records td)
  next
    case (Some j)
    have j: "j \<in> set (ring_ids tm)" by (rule ring_for_in_ids [OF Some])
    have w: "rf_w (the_ring tm k) + Suc (length xs) < two64" if "k \<in> set (ring_ids tm)" for k
      using Cons.prems(3) that by (auto simp: room_def td)
    note s = tm_store_off [OF ok off Some io _ st]
    have up: "rf_w (the_ring tm' k) \<le> Suc (rf_w (the_ring tm k))" if "k \<in> set (ring_ids tm)" for k
      using s w [OF j] w [OF that] that unat_Suc [of "rf_widx (the_ring tm j)"] by (cases "k = j") auto
    have "room (tm', d') (length xs)"
      using w up same unfolding room_def same_store_def by fastforce
    then show ?thesis using s w [OF j] up [OF i] i Some by (auto simp: length_ring_records)
  qed
  have "ring_ids tm' = ring_ids tm" using same by (simp add: same_store_def)
  then have ih: "?recs (fst (tm_run strerror (tm', d') xs)) (snd (tm_run strerror (tm', d') xs)) = last_n (rf_cap (the_ring tm' i))
      (?recs tm' d' @ map record_bytes (filter (\<lambda>s. ring_for tm' (s_level s) = Some i) (map snd xs)))
    \<and> rf_capacity (the_ring (fst (tm_run strerror (tm', d') xs)) i) = rf_capacity (the_ring tm' i)
    \<and> rf_w (the_ring (fst (tm_run strerror (tm', d') xs)) i) \<le> rf_w (the_ring tm' i) + length xs"
    using Cons.IH [of "(tm', d')"] Cons.prems same step i by auto
  have rf: "ring_for tm' lv = ring_for tm lv" for lv using ring_for_same same by blast
  show ?case using ih step by (auto simp: x td st rf last_n_last_n_append)
qed

section \<open>Properties\<close>

definition demo_store :: "tier_manager \<times> disk" where
  "demo_store = snd (tm_init (\<lambda>_. '''') (\<lambda>_. ring_io_ok) 0 (tier_manager_new, \<lambda>_. None) (Some ''/var'') 1 1 1 [])"

lemma demo_store_fresh: "fresh_store demo_store 1934 1934 1934"
  using tm_init_fresh [of "''/var''" 1 1 1 "\<lambda>_. ''''" 0]
  by (auto simp: demo_store_def records_from_mb_def Let_def record_size_eq)

lemma demo_store_inv: "store_inv demo_store 0 100" "tm_ok demo_store" "folding_off (fst demo_store)" "tm_custom (fst demo_store) = []"
  "rf_capacity (tm_tier1 (fst demo_store)) = 1934" "rf_widx (tm_tier1 (fst demo_store)) = 0"
  using demo_store_fresh fresh_store_inv [of "fst demo_store" "snd demo_store" 1934 1934 1934 100]
  by (simp_all add: fresh_store_def folding_off_def ring_ids_def the_ring_def case_prod_unfold)

text \<open>Opening the store on an empty data directory succeeds: three rings with the capacities the
  configured megabytes give (at least one record each), all of them well formed and empty, both
  fold windows empty and folding off.\<close>

theorem init_fresh:
  assumes "length dir < 1000" and "mb1 < 2 ^ 31" and "mb2 < 2 ^ 31" and "mb3 < 2 ^ 31"
  shows "\<exists>tm d. tm_init strerror (\<lambda>_. ring_io_ok) realtime (tier_manager_new, \<lambda>_. None) (Some dir) mb1 mb2 mb3 [] = (0, tm, d) \<and>
    fresh_store (tm, d) (records_from_mb mb1 record_size_for_sample) (records_from_mb mb2 record_size_for_sample)
      (records_from_mb mb3 record_size_for_sample)"
  by (rule tm_init_fresh [OF assms])

theorem init_fresh_witness:
  "\<exists>tm d. tm_init (\<lambda>_. '''') (\<lambda>_. ring_io_ok) 0 (tier_manager_new, \<lambda>_. None) (Some ''/var'') 1 0 2 [] = (0, tm, d) \<and>
    fresh_store (tm, d) 1934 1 3869"
  using init_fresh [of "''/var''" 1 0 2 "\<lambda>_. ''''" 0] by (auto simp: records_from_mb_def Let_def record_size_eq)

text \<open>C4: Whatever the disk answers to each write, short or failed ones included, every sequence of
  stores keeps every ring of the store well formed, its capacity and files apart from the others,
  and the set of rings and the fold settings as they were.\<close>

theorem store_keeps_rings_ok:
  assumes "tm_ok td"
  shows "tm_ok (tm_run strerror td xs) \<and> same_store (fst td) (fst (tm_run strerror td xs))"
  by (rule tm_run_same [OF assms])

theorem store_keeps_rings_ok_witness:
  "tm_ok (tm_run (\<lambda>_. ''io'') demo_store [((\<lambda>_. Fail 5), demo_sample), ((\<lambda>_. Short 3), demo_sample)])"
  using store_keeps_rings_ok [OF demo_store_inv(2)] by blast

text \<open>C5: Samples stored in time order leave every ring in time order, the fold summaries written
  between them included, for any fold windows, as long as the disk takes a record whole or not at
  all: what the binary search and the early stop of a query rely on.\<close>

theorem store_time_order:
  assumes "store_inv (tm, d) T (3 * length xs)" and "sorted (T # map (s_timestamp_nanos \<circ> snd) xs)"
    and "\<forall>(io, s) \<in> set xs. \<forall>k. whole (io k)"
    and "tm_run strerror (set_fold_windows tm l2_ns l1_ns, d) xs = td'" and "i \<in> set (ring_ids (fst td'))"
  shows "sorted (map s_timestamp_nanos (List.map_filter read_record (ring_records (the_ring (fst td') i) (ring_file_of td' i))))"
proof -
  obtain T' where inv: "store_inv td' T' 0"
    using tm_run_inv [of "(set_fold_windows tm l2_ns l1_ns, d)" T xs 0 strerror] assms by auto
  have "ring_in td' i T'"
    using inv assms(5) by (cases "i = Tier2 \<or> i = Tier3") (auto simp: store_inv_def in_order_def intro: window_in_ring)
  then show ?thesis using sorted_read_records by (auto simp: ring_in_def)
qed

theorem store_time_order_witness:
  "sorted (map s_timestamp_nanos (List.map_filter read_record (let td = tm_run (\<lambda>_. '''') (set_fold_windows (fst demo_store) 5 9, snd demo_store)
     [((\<lambda>_. Full), demo_sample), ((\<lambda>_. Fail 28), demo_sample)] in ring_records (the_ring (fst td) Tier2) (ring_file_of td Tier2))))"
  unfolding Let_def
  by (rule store_time_order [where T = 0, OF _ _ _ refl])
    (use store_inv_le [OF demo_store_inv(1)] in \<open>auto simp: whole_def demo_sample_def\<close>)

text \<open>With folding off, a store whose level has a ring returns 0 and appends the record to
  that ring alone, the oldest record giving way when it is full; no other ring changes. A level
  without a ring is refused with -2 and a store that is not open with -1, nothing changed.\<close>

theorem store_routes:
  assumes "tm_ok (tm, d)" and "folding_off tm" and "io 2 = Full" and "room (tm, d) 1"
    and "tm_store strerror (tm, d) io s = (rc, tm', d')"
  shows "case ring_for tm (s_level s) of
      None \<Rightarrow> rc = -2 \<and> tm' = tm \<and> d' = d
    | Some i \<Rightarrow> rc = 0 \<and>
        ring_records (the_ring tm' i) (ring_file_of (tm', d') i)
          = last_n (rf_cap (the_ring tm i)) (ring_records (the_ring tm i) (ring_file_of (tm, d) i) @ [record_bytes s]) \<and>
        (\<forall>j \<in> set (ring_ids tm). j \<noteq> i \<longrightarrow> the_ring tm' j = the_ring tm j \<and> ring_file_of (tm', d') j = ring_file_of (tm, d) j)"
proof (cases "ring_for tm (s_level s)")
  case None
  then show ?thesis using assms(1,5) by (simp add: tm_store_def tm_ok_def)
next
  case (Some i)
  have "rf_w (the_ring tm i) + 1 < two64" using assms(4) ring_for_in_ids [OF Some] by (auto simp: room_def)
  from tm_store_off [OF assms(1,2) Some assms(3) this assms(5)] show ?thesis using Some by simp
qed

theorem store_routes_witness:
  "fst (tm_store (\<lambda>_. '''') demo_store (\<lambda>_. Full) demo_sample) = 0 \<and>
   fst (tm_store (\<lambda>_. '''') demo_store (\<lambda>_. Full) (demo_sample\<lparr>s_level := 9\<rparr>)) = -2"
proof -
  have room: "room (fst demo_store, snd demo_store) 1"
    using demo_store_inv(1) by (auto simp: store_inv_def intro: room_le)
  have ok: "tm_ok (fst demo_store, snd demo_store)" using demo_store_inv(2) by simp
  show ?thesis
    using store_routes [OF ok demo_store_inv(3) _ room, of "\<lambda>_. Full" "\<lambda>_. ''''" demo_sample]
      store_routes [OF ok demo_store_inv(3) _ room, of "\<lambda>_. Full" "\<lambda>_. ''''" "demo_sample\<lparr>s_level := 9\<rparr>"]
    by (cases "tm_store (\<lambda>_. '''') demo_store (\<lambda>_. Full) demo_sample";
        cases "tm_store (\<lambda>_. '''') demo_store (\<lambda>_. Full) (demo_sample\<lparr>s_level := 9\<rparr>)")
      (auto simp: ring_for_def demo_sample_def demo_store_inv(4))
qed

lemma map_filter_records:
  assumes "\<forall>s \<in> set ss. 1 \<le> s_level s \<and> s_level s \<le> kMaxLevelId \<and> s_baseline s = 0"
  shows "List.map_filter read_record (map record_bytes ss) = ss"
  using assms by (induction ss) (simp_all add: List.map_filter_def read_record_bytes)

text \<open>C1: From store to query: after samples in time order were stored with folding off and a
  working disk on a store opened on an empty directory, a query of tier 1 returns, of the L3
  samples the ring still holds, those stamped inside the window, the newest \<open>max_records\<close> of
  them, in time order and field by field as they were stored.\<close>

theorem store_then_query:
  assumes "fresh_store (tm, d) cap1 cap2 cap3" and "4 * length xs + unat cap1 < two64"
    and "sorted (map (s_timestamp_nanos \<circ> snd) xs)" and "\<forall>(io, s) \<in> set xs. \<forall>k. io k = Full"
    and "\<forall>(io, s) \<in> set xs. 1 \<le> s_level s \<and> s_level s \<le> kMaxLevelId \<and> s_baseline s = 0"
    and "tm_run strerror (tm, d) xs = td" and "0 < max_records"
  shows "tm_query td (\<lambda>_. no_errors) (\<lambda>_. write_begun (tm_tier1 (fst td)) (ring_file_of td Tier1)) 1 since_ns until_ns max_records False
    = Some (last_n max_records (filter (in_window since_ns until_ns)
        (last_n (unat cap1) (filter (\<lambda>s. s_level s = L3) (map snd xs)))))"
proof -
  have ok: "tm_ok (tm, d)" and off: "folding_off tm" and cap: "rf_capacity (tm_tier1 tm) = cap1" and w: "rf_widx (tm_tier1 tm) = 0"
    using assms(1) by (auto simp: fresh_store_def folding_off_def ring_ids_def the_ring_def)
  have inv: "store_inv (tm, d) 0 (3 * length xs + length xs)" using fresh_store_inv [OF assms(1)] assms(2) by simp
  then have room: "room (tm, d) (length xs)" by (auto simp: store_inv_def intro: room_le)
  have io: "\<forall>(io, s) \<in> set xs. io 2 = Full" "\<forall>(io, s) \<in> set xs. \<forall>k. whole (io k)"
    using assms(4) by (auto simp: whole_def)
  let ?ss = "filter (\<lambda>s. ring_for tm (s_level s) = Some Tier1) (map snd xs)" and ?r = "tm_tier1 (fst td)" and ?f = "ring_file_of td Tier1"
  have ss: "?ss = filter (\<lambda>s. s_level s = L3) (map snd xs)"
    by (rule filter_cong) (auto simp: ring_for_def dest: find_custom_ring_eq)
  note run = tm_run_off [OF ok _ room io(1), of Tier1 strerror]
  have recs: "ring_records ?r ?f = map record_bytes (last_n (unat cap1) ?ss)" "rf_capacity ?r = cap1" "rf_w ?r \<le> length xs"
    using run assms(6) off cap w by (auto simp: the_ring_def ring_records_def [of "tm_tier1 tm"] live_def last_n_map)
  have r: "tm_ready (fst td)" "ring_ok ?r ?f" "rf_rs ?r = record_size_for_sample"
    using tm_run_same [OF ok, of strerror xs] assms(6) by (auto simp: tm_ok_def ring_ids_def the_ring_def split: prod.splits)
  have samples: "List.map_filter read_record (ring_records ?r ?f) = last_n (unat cap1) ?ss"
    unfolding recs(1) using assms(5) set_last_n_subset [of "unat cap1" ?ss] by (intro map_filter_records) fastforce
  have "sorted (map s_timestamp_nanos (filter (\<lambda>s. s_level s = L3) (map snd xs)))"
    using assms(3) by (intro sorted_filter) (simp add: comp_def)
  then have srt: "sorted (map s_timestamp_nanos (List.map_filter read_record (ring_records ?r ?f)))"
    unfolding samples ss last_n_map [symmetric] by (rule sorted_wrt_last_n)
  have "override_sample (-1) = (\<lambda>s. s)" by (simp add: fun_eq_iff override_sample_def)
  then have "query_ring (tm_reader td (\<lambda>_. no_errors) Tier1) (\<lambda>_. write_begun ?r ?f) (-1) since_ns until_ns max_records
      = last_n max_records (filter (in_window since_ns until_ns) (last_n (unat cap1) ?ss))"
    using query_ring_of_ring [OF r(2,3) _ srt, of "-1" since_ns until_ns max_records, unfolded samples] recs(2,3) assms(2)
    by (simp add: tm_reader_def case_prod_unfold the_ring_def ring_file_of_def)
  then show ?thesis using r(1) assms(7) by (simp add: tm_query_def ss)
qed

theorem store_then_query_witness:
  "tm_query (tm_run (\<lambda>_. '''') demo_store [((\<lambda>_. Full), demo_sample)]) (\<lambda>_. no_errors)
     (\<lambda>_. write_begun (tm_tier1 (fst (tm_run (\<lambda>_. '''') demo_store [((\<lambda>_. Full), demo_sample)])))
        (ring_file_of (tm_run (\<lambda>_. '''') demo_store [((\<lambda>_. Full), demo_sample)]) Tier1)) 1 5 10 3 False = Some [demo_sample]"
  using store_then_query [of "fst demo_store" "snd demo_store" 1934 1934 1934 "[((\<lambda>_. Full), demo_sample)]" "\<lambda>_. ''''" _ 3 5 10]
    demo_store_fresh demo_sample_level
  by (simp add: demo_sample_def sample_zero_def in_window_def)

end
