(* ===== verification/Metric_Set.thy ===== *)
theory Metric_Set
  imports Sample Text
begin

text \<open>
  The metric sets a collection level reads (\<open>src/core/metric_set.h\<close>, \<open>src/core/metric_set.cpp\<close>):
  the tables of group and collection names, the parser of \<open>collection.<level>.metrics\<close> and the
  printer. Proved: every set the parser accepts is valid (it has the minimal groups the anomaly
  check needs, never the file watch, and each collection comes with its group), an unknown name
  changes nothing, and printing a valid set and parsing the names back gives the same set.
\<close>

section \<open>Names and bits\<close>

abbreviation (input) kDetailCores :: u32 where "kDetailCores \<equiv> 1"
abbreviation (input) kDetailDisks :: u32 where "kDetailDisks \<equiv> 2"
abbreviation (input) kDetailInterfaces :: u32 where "kDetailInterfaces \<equiv> 4"
abbreviation (input) kDetailMounts :: u32 where "kDetailMounts \<equiv> 8"
abbreviation (input) kDetailProcesses :: u32 where "kDetailProcesses \<equiv> 16"

definition kDetailAll :: u32 where
  "kDetailAll = push_bit 5 1 - 1"

definition kGroupsMinimal :: u32 where
  "kGroupsMinimal = kGroupCpu OR kGroupMem OR kGroupSwap OR kGroupLoad OR kGroupUptime"

definition kGroupsSelectable :: u32 where
  "kGroupsSelectable = kGroupsAll AND NOT kGroupFileWatch"

definition kGroupNames :: "(string \<times> u32) list" where
  "kGroupNames = [(''cpu'', kGroupCpu), (''mem'', kGroupMem), (''swap'', kGroupSwap), (''load'', kGroupLoad),
     (''disk'', kGroupDisk), (''net'', kGroupNet), (''proc'', kGroupProc), (''entropy'', kGroupEntropy),
     (''self'', kGroupSelf), (''thermal'', kGroupThermal), (''file_watch'', kGroupFileWatch),
     (''uptime'', kGroupUptime), (''tcp'', kGroupTcp), (''udp'', kGroupUdp), (''fs'', kGroupFs),
     (''clock'', kGroupClock), (''icmp'', kGroupIcmp)]"

definition kCollections :: "(string \<times> u32 \<times> u32) list" where
  "kCollections = [(''cpu.cores'', kDetailCores, kGroupCpu), (''disk.devices'', kDetailDisks, kGroupDisk),
     (''net.interfaces'', kDetailInterfaces, kGroupNet), (''fs.mounts'', kDetailMounts, kGroupFs),
     (''proc.top'', kDetailProcesses, kGroupProc)]"

record metric_set =
  ms_groups :: u32
  ms_detail :: u32

definition metric_set_minimal :: metric_set where
  "metric_set_minimal = \<lparr>ms_groups = kGroupsMinimal, ms_detail = 0\<rparr>"

definition metric_set_standard :: metric_set where
  "metric_set_standard = \<lparr>ms_groups = kGroupsSelectable, ms_detail = 0\<rparr>"

definition metric_set_full :: metric_set where
  "metric_set_full = \<lparr>ms_groups = kGroupsSelectable, ms_detail = kDetailAll\<rparr>"

section \<open>Lookups\<close>

fun find_name :: "('a \<Rightarrow> bool) \<Rightarrow> 'a list \<Rightarrow> 'a option" where
  "find_name p [] = None"
| "find_name p (x # xs) = (if p x then Some x else find_name p xs)"

definition metric_group_name :: "u32 \<Rightarrow> string option" where
  "metric_group_name group_bit = map_option fst (find_name (\<lambda>g. snd g = group_bit) kGroupNames)"

definition metric_detail_name :: "u32 \<Rightarrow> string option" where
  "metric_detail_name detail_bit = map_option fst (find_name (\<lambda>c. fst (snd c) = detail_bit) kCollections)"

text \<open>The argument is a C string, \<open>None\<close> the null pointer.\<close>

definition metric_group_bit :: "string option \<Rightarrow> u32" where
  "metric_group_bit name = (case find_name (\<lambda>g. name = Some (fst g)) kGroupNames of Some g \<Rightarrow> snd g | None \<Rightarrow> 0)"

definition metric_detail_bit :: "string option \<Rightarrow> u32" where
  "metric_detail_bit name = (case find_name (\<lambda>c. name = Some (fst c)) kCollections of Some c \<Rightarrow> fst (snd c) | None \<Rightarrow> 0)"

section \<open>Parsing and printing\<close>

definition collection_groups :: "u32 \<Rightarrow> u32 \<Rightarrow> u32" where
  "collection_groups bit_of groups =
     foldl (\<lambda>g c. if fst (snd c) = bit_of then g OR snd (snd c) else g) groups kCollections"

text \<open>One name: the set with it, or the message of the failure.\<close>

definition parse_metric_name :: "metric_set \<Rightarrow> string \<Rightarrow> string + metric_set" where
  "parse_metric_name r n =
     (if n = ''minimal'' then Inr r
      else if n = ''standard'' then Inr (r\<lparr>ms_groups := ms_groups r OR kGroupsSelectable\<rparr>)
      else if n = ''full'' then Inr (r\<lparr>ms_groups := ms_groups r OR kGroupsSelectable, ms_detail := ms_detail r OR kDetailAll\<rparr>)
      else
        let group = metric_group_bit (Some (c_str n)); lst = metric_detail_bit (Some (c_str n))
        in if group \<noteq> 0 \<and> group \<noteq> kGroupFileWatch then Inr (r\<lparr>ms_groups := ms_groups r OR group\<rparr>)
           else if lst \<noteq> 0
           then Inr (r\<lparr>ms_groups := collection_groups lst (ms_groups r), ms_detail := ms_detail r OR lst\<rparr>)
           else if group = kGroupFileWatch
           then Inl (CHR 0x27 # ''file_watch'' @ CHR 0x27 # '' is not a metric a level reads (security.file_watch runs at every level)'')
           else Inl (''unknown metric '' @ CHR 0x27 # n @ [CHR 0x27]))"

fun parse_metric_names :: "metric_set \<Rightarrow> string list \<Rightarrow> string + metric_set" where
  "parse_metric_names r [] = Inr r"
| "parse_metric_names r (n # ns) = (case parse_metric_name r n of Inl e \<Rightarrow> Inl e | Inr r \<Rightarrow> parse_metric_names r ns)"

text \<open>\<open>out\<close> and \<open>error\<close> are the pointees, \<open>None\<close> a null pointer.\<close>

definition parse_metric_set ::
  "string list \<Rightarrow> metric_set option \<Rightarrow> string option \<Rightarrow> rc \<times> metric_set option \<times> string option" where
  "parse_metric_set names out err =
     (case parse_metric_names metric_set_minimal names of
        Inl e \<Rightarrow> (- EINVAL, out, map_option (\<lambda>_. e) err)
      | Inr r \<Rightarrow> (0, map_option (\<lambda>_. r) out, err))"

definition metric_set_names :: "metric_set \<Rightarrow> string list" where
  "metric_set_names s =
     map fst (filter (\<lambda>g. ms_groups s AND snd g \<noteq> 0) kGroupNames) @
     map fst (filter (\<lambda>c. ms_detail s AND fst (snd c) \<noteq> 0) kCollections)"

section \<open>Valid sets\<close>

text \<open>At least the minimal groups, no file watch, every collection with its group.\<close>

definition valid_set :: "metric_set \<Rightarrow> bool" where
  "valid_set s \<longleftrightarrow> kGroupsMinimal AND NOT (ms_groups s) = 0 \<and> ms_groups s AND NOT kGroupsSelectable = 0 \<and>
     ms_detail s AND NOT kDetailAll = 0 \<and>
     list_all (\<lambda>(_, b, g). ms_detail s AND b \<noteq> 0 \<longrightarrow> ms_groups s AND g \<noteq> 0) kCollections"

lemma subset_bits: "(a :: u32) AND NOT b = 0 \<longleftrightarrow> (\<forall>i. bit a i \<longrightarrow> bit b i)"
  using bit_imp_le_length [of a] by (auto simp: bit_eq_iff bit_and_iff bit_not_iff)

lemma bit_minimal: "bit kGroupsMinimal i \<longleftrightarrow> i = 0 \<or> i = 1 \<or> i = 2 \<or> i = 3 \<or> i = 11"
proof -
  have eq: "kGroupsMinimal = 2 ^ 0 OR 2 ^ 1 OR 2 ^ 2 OR 2 ^ 3 OR 2 ^ 11" by (simp add: kGroupsMinimal_def)
  show ?thesis unfolding eq bit_or_iff bit_exp_iff by auto
qed

lemma bit_selectable: "bit kGroupsSelectable i \<longleftrightarrow> i \<le> 16 \<and> i \<noteq> 10"
proof -
  have eq: "kGroupsSelectable = mask 17 AND NOT (2 ^ 10)" by (simp add: kGroupsSelectable_def mask_eq_exp_minus_1)
  show ?thesis unfolding eq bit_and_iff bit_not_iff bit_exp_iff bit_mask_iff by auto
qed

lemma bit_detail_all: "bit kDetailAll i \<longleftrightarrow> i < 5"
proof -
  have eq: "kDetailAll = mask 5" by (simp add: kDetailAll_def mask_eq_exp_minus_1)
  show ?thesis unfolding eq bit_mask_iff by auto
qed

lemma valid_set_bits:
  "valid_set s \<longleftrightarrow> (bit (ms_groups s) 0 \<and> bit (ms_groups s) 1 \<and> bit (ms_groups s) 2 \<and> bit (ms_groups s) 3 \<and> bit (ms_groups s) 11) \<and>
     (\<forall>i. bit (ms_groups s) i \<longrightarrow> i \<le> 16 \<and> i \<noteq> 10) \<and> (\<forall>i. bit (ms_detail s) i \<longrightarrow> i < 5) \<and>
     (bit (ms_detail s) 1 \<longrightarrow> bit (ms_groups s) 4) \<and> (bit (ms_detail s) 2 \<longrightarrow> bit (ms_groups s) 5) \<and>
     (bit (ms_detail s) 3 \<longrightarrow> bit (ms_groups s) 14) \<and> (bit (ms_detail s) 4 \<longrightarrow> bit (ms_groups s) 6)"
  unfolding valid_set_def subset_bits bit_minimal bit_selectable bit_detail_all kCollections_def
    has_group_def [symmetric] list.pred_inject prod.case group_bit
  by auto

section \<open>The tables\<close>

lemma kGroupNames_bits: "map snd kGroupNames = map (\<lambda>k. 2 ^ k) [0..<17]"
  by (simp add: kGroupNames_def upt_rec)

lemma group_entry: "g \<in> set kGroupNames \<Longrightarrow> \<exists>k < 17. snd g = 2 ^ k"
proof -
  assume "g \<in> set kGroupNames"
  then have "snd g \<in> set (map snd kGroupNames)" by simp
  then show ?thesis unfolding kGroupNames_bits by auto
qed

lemma group_entries: "(\<exists>g \<in> set kGroupNames. P (snd g)) \<longleftrightarrow> (\<exists>k < 17. P (2 ^ k))"
proof -
  have "(\<exists>g \<in> set kGroupNames. P (snd g)) \<longleftrightarrow> (\<exists>b \<in> set (map snd kGroupNames). P b)" by simp
  then show ?thesis unfolding kGroupNames_bits by auto
qed

lemma kCollections_bits: "map (fst \<circ> snd) kCollections = map (\<lambda>k. 2 ^ k) [0..<5]"
  by (simp add: kCollections_def upt_rec)

lemma collection_entries: "(\<exists>c \<in> set kCollections. P (fst (snd c))) \<longleftrightarrow> (\<exists>k < 5. P (2 ^ k))"
proof -
  have "(\<exists>c \<in> set kCollections. P (fst (snd c))) \<longleftrightarrow> (\<exists>b \<in> set (map (fst \<circ> snd) kCollections). P b)" by simp
  then show ?thesis unfolding kCollections_bits by auto
qed

lemma find_name_SomeD: "find_name p xs = Some x \<Longrightarrow> x \<in> set xs \<and> p x"
  by (induction xs) (auto split: if_splits)

lemma metric_group_bit_cases: "metric_group_bit n = 0 \<or> (\<exists>k < 17. metric_group_bit n = 2 ^ k)"
  using group_entry by (auto simp: metric_group_bit_def split: option.split dest: find_name_SomeD)

lemma metric_detail_bit_cases:
  "metric_detail_bit n = 0 \<or> metric_detail_bit n = 1 \<or> metric_detail_bit n = 2 \<or> metric_detail_bit n = 4 \<or>
   metric_detail_bit n = 8 \<or> metric_detail_bit n = 16"
  by (simp add: metric_detail_bit_def kCollections_def)

lemma collection_groups_eq:
  "collection_groups kDetailCores g = g OR kGroupCpu" "collection_groups kDetailDisks g = g OR kGroupDisk"
  "collection_groups kDetailInterfaces g = g OR kGroupNet" "collection_groups kDetailMounts g = g OR kGroupFs"
  "collection_groups kDetailProcesses g = g OR kGroupProc"
  by (simp_all add: collection_groups_def kCollections_def)

section \<open>Parsing keeps a set valid\<close>

lemma bit_pow: "bit (2 ^ k :: u32) i \<longleftrightarrow> k < 32 \<and> i = k"
  by (auto simp: bit_exp_iff)

lemmas group_pow = bit_pow [of 0] bit_pow [of 1] bit_pow [of 2] bit_pow [of 3] bit_pow [of 4] bit_pow [of 5] bit_pow [of 6]
  bit_pow [of 14]

lemma valid_minimal: "valid_set metric_set_minimal"
  unfolding valid_set_bits metric_set_minimal_def by (auto simp: bit_minimal)

lemma parse_metric_name_valid:
  assumes v: "valid_set r" and p: "parse_metric_name r n = Inr r'"
  shows "valid_set r'"
proof -
  let ?g = "metric_group_bit (Some (c_str n))" and ?l = "metric_detail_bit (Some (c_str n))"
  consider "r' = r" | "r' = r\<lparr>ms_groups := ms_groups r OR kGroupsSelectable\<rparr>"
    | "r' = r\<lparr>ms_groups := ms_groups r OR kGroupsSelectable, ms_detail := ms_detail r OR kDetailAll\<rparr>"
    | (group) "?g \<noteq> 0" "?g \<noteq> kGroupFileWatch" "r' = r\<lparr>ms_groups := ms_groups r OR ?g\<rparr>"
    | (list) "?l \<noteq> 0" "r' = r\<lparr>ms_groups := collection_groups ?l (ms_groups r), ms_detail := ms_detail r OR ?l\<rparr>"
    using p by (auto simp: parse_metric_name_def Let_def split: if_splits)
  then show ?thesis
  proof cases
    case group
    then obtain k where k: "k < 17" "?g = 2 ^ k" using metric_group_bit_cases by blast
    then have "k \<noteq> 10" using group(2) by auto
    then show ?thesis using v k group(3) unfolding valid_set_bits by (auto simp: bit_or_iff bit_pow)
  next
    case list
    have "valid_set (r\<lparr>ms_groups := collection_groups ?l (ms_groups r), ms_detail := ms_detail r OR ?l\<rparr>)"
      using metric_detail_bit_cases [of "Some (c_str n)"] list(1) v unfolding valid_set_bits
      by (elim disjE) (auto simp: collection_groups_eq bit_or_iff group_pow [simplified])
    then show ?thesis using list(2) by simp
  qed (use v in \<open>auto simp: valid_set_bits bit_or_iff bit_selectable bit_detail_all\<close>)
qed

lemma parse_metric_names_valid: "valid_set r \<Longrightarrow> parse_metric_names r ns = Inr r' \<Longrightarrow> valid_set r'"
  by (induction r ns rule: parse_metric_names.induct) (auto split: sum.splits dest: parse_metric_name_valid)

section \<open>Printing and parsing back\<close>

definition all_of :: "u32 \<Rightarrow> u32 list \<Rightarrow> u32" where
  "all_of = foldl (OR)"

lemma bit_all_of: "bit (all_of a bs) i \<longleftrightarrow> bit a i \<or> (\<exists>b \<in> set bs. bit b i)"
  unfolding all_of_def by (induction bs arbitrary: a) (auto simp: bit_or_iff)

lemma group_table:
  "list_all (\<lambda>g. metric_group_bit (Some (c_str (fst g))) = snd g \<and> snd g \<noteq> 0 \<and> fst g \<noteq> ''minimal'' \<and>
     fst g \<noteq> ''standard'' \<and> fst g \<noteq> ''full'') kGroupNames"
  by code_simp

lemma collection_table:
  "list_all (\<lambda>c. metric_group_bit (Some (c_str (fst c))) = 0 \<and> metric_detail_bit (Some (c_str (fst c))) = fst (snd c) \<and>
     fst (snd c) \<noteq> 0 \<and> fst c \<noteq> ''minimal'' \<and> fst c \<noteq> ''standard'' \<and> fst c \<noteq> ''full'') kCollections"
  by code_simp

lemma group_name_parses:
  assumes "g \<in> set kGroupNames" and "snd g \<noteq> kGroupFileWatch"
  shows "parse_metric_name r (fst g) = Inr (r\<lparr>ms_groups := ms_groups r OR snd g\<rparr>)"
  using group_table assms by (auto simp: parse_metric_name_def Let_def list_all_iff)

lemma collection_name_parses:
  assumes "c \<in> set kCollections"
  shows "parse_metric_name r (fst c) = Inr (r\<lparr>ms_groups := ms_groups r OR snd (snd c), ms_detail := ms_detail r OR fst (snd c)\<rparr>)"
proof -
  have "collection_groups (fst (snd c)) g = g OR snd (snd c)" for g
    using assms by (auto simp: kCollections_def collection_groups_def)
  moreover have "metric_group_bit (Some (c_str (fst c))) = 0" "metric_detail_bit (Some (c_str (fst c))) = fst (snd c)"
    "fst (snd c) \<noteq> 0" "fst c \<noteq> ''minimal''" "fst c \<noteq> ''standard''" "fst c \<noteq> ''full''"
    using collection_table assms by (auto simp only: list_all_iff)
  ultimately show ?thesis unfolding parse_metric_name_def Let_def by simp
qed

lemma parse_groups:
  "\<forall>g \<in> set gs. g \<in> set kGroupNames \<and> snd g \<noteq> kGroupFileWatch \<Longrightarrow>
   parse_metric_names r (map fst gs @ ns) = parse_metric_names (r\<lparr>ms_groups := all_of (ms_groups r) (map snd gs)\<rparr>) ns"
  by (induction gs arbitrary: r) (simp_all add: group_name_parses all_of_def)

lemma parse_collections:
  "\<forall>c \<in> set cs. c \<in> set kCollections \<Longrightarrow>
   parse_metric_names r (map fst cs) = Inr (r\<lparr>ms_groups := all_of (ms_groups r) (map (snd \<circ> snd) cs),
     ms_detail := all_of (ms_detail r) (map (fst \<circ> snd) cs)\<rparr>)"
  by (induction cs arbitrary: r) (simp_all add: collection_name_parses all_of_def)

lemma parse_names_valid:
  assumes v: "valid_set s"
  shows "parse_metric_names metric_set_minimal (metric_set_names s) = Inr s"
proof -
  let ?gs = "filter (\<lambda>g. ms_groups s AND snd g \<noteq> 0) kGroupNames" and ?cs = "filter (\<lambda>c. ms_detail s AND fst (snd c) \<noteq> 0) kCollections"
  have fw: "\<not> has_group (ms_groups s) kGroupFileWatch" using v by (auto simp: group_bit valid_set_bits)
  have gs: "\<forall>g \<in> set ?gs. g \<in> set kGroupNames \<and> snd g \<noteq> kGroupFileWatch" using fw by (auto simp: has_group_def)
  have groups: "bit (all_of kGroupsMinimal (map snd ?gs)) i = bit (ms_groups s) i" for i
  proof -
    have "(\<exists>b \<in> set (map snd ?gs). bit b i) \<longleftrightarrow> (\<exists>g \<in> set kGroupNames. has_group (ms_groups s) (snd g) \<and> bit (snd g) i)"
      by (force simp: has_group_def)
    also have "\<dots> \<longleftrightarrow> (\<exists>k < 17. bit (ms_groups s) k \<and> i = k)"
      unfolding group_entries [of "\<lambda>b. has_group (ms_groups s) b \<and> bit b i"] using has_group_bit by (auto simp: bit_pow)
    finally show ?thesis using v unfolding bit_all_of valid_set_bits by (auto simp: bit_minimal)
  qed
  have detail: "bit (all_of 0 (map (fst \<circ> snd) ?cs)) i = bit (ms_detail s) i" for i
  proof -
    have "(\<exists>b \<in> set (map (fst \<circ> snd) ?cs). bit b i) \<longleftrightarrow> (\<exists>c \<in> set kCollections. has_group (ms_detail s) (fst (snd c)) \<and> bit (fst (snd c)) i)"
      by (force simp: has_group_def)
    also have "\<dots> \<longleftrightarrow> (\<exists>k < 5. bit (ms_detail s) k \<and> i = k)"
      unfolding collection_entries [of "\<lambda>b. has_group (ms_detail s) b \<and> bit b i"] using has_group_bit by (auto simp: bit_pow)
    finally show ?thesis using v unfolding bit_all_of valid_set_bits by auto
  qed
  have "bit (all_of (ms_groups s) (map (snd \<circ> snd) ?cs)) i = bit (ms_groups s) i" for i
  proof -
    have "bit (ms_groups s) i" if c: "c \<in> set ?cs" "bit (snd (snd c)) i" for c
      using v c unfolding valid_set_bits kCollections_def
      by (auto simp: has_group_def [symmetric] group_bit group_pow [simplified] split: if_splits)
    then show ?thesis unfolding bit_all_of by auto
  qed
  then have "all_of kGroupsMinimal (map snd ?gs) = ms_groups s" "all_of 0 (map (fst \<circ> snd) ?cs) = ms_detail s"
    "all_of (ms_groups s) (map (snd \<circ> snd) ?cs) = ms_groups s"
    using groups detail by (simp_all add: bit_eq_iff)
  then show ?thesis
    unfolding metric_set_names_def parse_groups [OF gs]
    using parse_collections [of ?cs] by (simp add: metric_set_minimal_def)
qed

section \<open>Properties\<close>

text \<open>Every metric set the parser accepts has the groups the anomaly check reads, never the file
  watch, no unknown bit, and the group of each collection it lists; a name it does not accept is
  reported with -EINVAL and leaves the caller's set as it was.\<close>

theorem parse_metric_set_valid:
  "case parse_metric_set names (Some s) (Some e) of (rc, out, err) \<Rightarrow>
     if rc = 0 then err = Some e \<and> (\<exists>r. out = Some r \<and> valid_set r) else rc = - EINVAL \<and> out = Some s"
proof (cases "parse_metric_names metric_set_minimal names")
  case (Inl m)
  then show ?thesis by (simp add: parse_metric_set_def EINVAL_def)
next
  case (Inr r)
  then show ?thesis using parse_metric_names_valid [OF valid_minimal] by (simp add: parse_metric_set_def)
qed

text \<open>Printing a valid metric set and parsing the names gives the set back.\<close>

theorem metric_set_roundtrip:
  assumes "valid_set s"
  shows "parse_metric_set (metric_set_names s) (Some out) err = (0, Some s, err)"
  using parse_names_valid [OF assms] by (simp add: parse_metric_set_def)

theorem metric_set_roundtrip_witness:
  "parse_metric_set (metric_set_names metric_set_full) (Some metric_set_minimal) None = (0, Some metric_set_full, None)"
  by (rule metric_set_roundtrip) (auto simp: valid_set_bits metric_set_full_def bit_selectable bit_detail_all)

end
