(* ===== verification/Scheduler.thy ===== *)
theory Scheduler
  imports Metric_Set Float64
begin

text \<open>
  The adaptive level scheduler (\<open>src/scheduler/scheduler.h\<close>, \<open>src/scheduler/scheduler.cpp\<close>): the
  anomaly check, the timers of the client grace, the hysteresis and the escalation, requests with
  a deadline and the choice of a level. Times are the samples' 64-bit stamps, thresholds are
  doubles, and the configuration's seconds become nanoseconds with the conversions of the code.
  Proved: the level chosen is an active one that no active level beats, what each reason for L2
  and L3 needs and how long it lasts, that a step of the clock in either direction moves every
  timer and deadline along, and that a request is never shortened.
\<close>

section \<open>Configuration\<close>

datatype anomaly_state = NORMAL | ELEVATED | CRITICAL

datatype collection_mode = Adaptive | Always | OnDemand

record custom_level =
  cl_id :: u8
  cl_name :: string
  cl_interval_ms :: int
  cl_priority :: int
  cl_when :: string
  cl_hold_sec :: int
  cl_storage_mb :: int
  cl_metrics :: metric_set

record scheduler_config =
  sc_mode :: collection_mode
  sc_l1_interval_sec :: int
  sc_l2_interval_sec :: int
  sc_l3_interval_sec :: int
  sc_hysteresis_sec :: int
  sc_grace_period_sec :: int
  sc_l2_always_on :: bool
  sc_escalate_after_sec :: int
  sc_escalation_load_1m :: f64
  sc_escalation_cpu_percent :: f64
  sc_escalation_swap_percent :: f64
  sc_critical_load_1m :: f64
  sc_critical_cpu_percent :: f64
  sc_critical_swap_percent :: f64
  sc_l1_metrics :: metric_set
  sc_l2_metrics :: metric_set
  sc_l3_metrics :: metric_set
  sc_custom_levels :: "custom_level list"

definition scheduler_config_default :: scheduler_config where
  "scheduler_config_default = \<lparr>sc_mode = Adaptive, sc_l1_interval_sec = 300, sc_l2_interval_sec = 30,
     sc_l3_interval_sec = 1, sc_hysteresis_sec = 300, sc_grace_period_sec = 60, sc_l2_always_on = False,
     sc_escalate_after_sec = 300,
     sc_escalation_load_1m = f64_of_nat 4, sc_escalation_cpu_percent = f64_of_nat 85, sc_escalation_swap_percent = f64_of_nat 50,
     sc_critical_load_1m = f64_of_nat 8, sc_critical_cpu_percent = f64_of_nat 95, sc_critical_swap_percent = f64_of_nat 80,
     sc_l1_metrics = metric_set_standard, sc_l2_metrics = metric_set_full, sc_l3_metrics = metric_set_full,
     sc_custom_levels = []\<rparr>"

section \<open>State\<close>

record scheduler =
  sd_cfg :: scheduler_config
  sd_level :: level
  sd_anomaly :: anomaly_state
  sd_client_count :: int
  sd_last_anomaly_ns :: u64
  sd_last_client_active_ns :: u64
  sd_had_anomaly :: bool
  sd_had_clients :: bool
  sd_in_anomaly_run :: bool
  sd_anomaly_run_start_ns :: u64
  sd_escalated :: bool
  sd_requested :: "bool list"
  sd_requested_until_ns :: "u64 list"
  sd_requested_made_ns :: "u64 list"
  sd_last_tick_ns :: u64

definition scheduler_new :: "scheduler_config \<Rightarrow> scheduler" where
  "scheduler_new cfg = \<lparr>sd_cfg = cfg, sd_level = L1, sd_anomaly = NORMAL, sd_client_count = 0,
     sd_last_anomaly_ns = 0, sd_last_client_active_ns = 0, sd_had_anomaly = False, sd_had_clients = False,
     sd_in_anomaly_run = False, sd_anomaly_run_start_ns = 0, sd_escalated = False,
     sd_requested = replicate 20 False, sd_requested_until_ns = replicate 20 0, sd_requested_made_ns = replicate 20 0,
     sd_last_tick_ns = 0\<rparr>"

abbreviation (input) kPriorityL1 :: int where "kPriorityL1 \<equiv> 0"
abbreviation (input) kPriorityL2 :: int where "kPriorityL2 \<equiv> 20"
abbreviation (input) kPriorityL3 :: int where "kPriorityL3 \<equiv> 30"

definition seconds_ns :: "int \<Rightarrow> u64" where
  "seconds_ns sec = word_of_int sec * 1000000000"

section \<open>The level table\<close>

fun find_level :: "custom_level list \<Rightarrow> level \<Rightarrow> custom_level option" where
  "find_level [] lv = None"
| "find_level (c # cs) lv = (if cl_id c = lv then Some c else find_level cs lv)"

definition find_custom :: "scheduler \<Rightarrow> level \<Rightarrow> custom_level option" where
  "find_custom sd lv = find_level (sc_custom_levels (sd_cfg sd)) lv"

definition interval_ms :: "scheduler \<Rightarrow> level \<Rightarrow> int" where
  "interval_ms sd lv =
     (if lv = L1 then sc_l1_interval_sec (sd_cfg sd) * 1000
      else if lv = L2 then sc_l2_interval_sec (sd_cfg sd) * 1000
      else if lv = L3 then sc_l3_interval_sec (sd_cfg sd) * 1000
      else case find_custom sd lv of Some c \<Rightarrow> cl_interval_ms c | None \<Rightarrow> sc_l1_interval_sec (sd_cfg sd) * 1000)"

definition level_priority :: "scheduler \<Rightarrow> level \<Rightarrow> int" where
  "level_priority sd lv =
     (if lv = L1 then kPriorityL1 else if lv = L2 then kPriorityL2 else if lv = L3 then kPriorityL3
      else case find_custom sd lv of Some c \<Rightarrow> cl_priority c | None \<Rightarrow> kPriorityL1)"

definition level_name :: "scheduler \<Rightarrow> level \<Rightarrow> string" where
  "level_name sd lv =
     (if lv = L1 then ''L1'' else if lv = L2 then ''L2'' else if lv = L3 then ''L3''
      else case find_custom sd lv of Some c \<Rightarrow> c_str (cl_name c) | None \<Rightarrow> ''?'')"

definition level_metrics :: "scheduler \<Rightarrow> level \<Rightarrow> metric_set" where
  "level_metrics sd lv =
     (if lv = L1 then sc_l1_metrics (sd_cfg sd) else if lv = L2 then sc_l2_metrics (sd_cfg sd)
      else if lv = L3 then sc_l3_metrics (sd_cfg sd)
      else case find_custom sd lv of Some c \<Rightarrow> cl_metrics c | None \<Rightarrow> sc_l1_metrics (sd_cfg sd))"

definition collects :: "scheduler \<Rightarrow> level \<Rightarrow> bool" where
  "collects sd lv \<longleftrightarrow> sc_mode (sd_cfg sd) \<noteq> OnDemand \<or> (lv \<noteq> L1 \<and> lv \<noteq> L2)"

text \<open>\<open>strcasecmp\<close> in the C locale.\<close>

definition strcaseeq :: "string \<Rightarrow> string \<Rightarrow> bool" where
  "strcaseeq a b \<longleftrightarrow> map to_lower a = map to_lower b"

fun level_named :: "custom_level list \<Rightarrow> string \<Rightarrow> level option" where
  "level_named [] n = None"
| "level_named (c # cs) n = (if cl_name c = n then Some (cl_id c) else level_named cs n)"

definition level_by_name :: "scheduler \<Rightarrow> string \<Rightarrow> level option" where
  "level_by_name sd n =
     (if strcaseeq (c_str n) ''L1'' then Some L1 else if strcaseeq (c_str n) ''L2'' then Some L2
      else if strcaseeq (c_str n) ''L3'' then Some L3 else level_named (sc_custom_levels (sd_cfg sd)) n)"

section \<open>Requests and clients\<close>

definition request :: "scheduler \<Rightarrow> level \<Rightarrow> u64 \<Rightarrow> u64 \<Rightarrow> scheduler" where
  "request sd level until_ns made_at_ns =
     (let i = unat level
      in if level < 1 \<or> level > kMaxLevelId then sd
         else if level \<ge> kFirstCustomLevel \<and> find_custom sd level = None then sd
         else
           let stale = made_at_ns \<noteq> 0 \<and> sd_requested_made_ns sd ! i > made_at_ns
           in if sd_requested sd ! i \<and> \<not> stale \<and> sd_requested_until_ns sd ! i \<ge> until_ns then sd
              else sd\<lparr>sd_requested := (sd_requested sd)[i := True],
                      sd_requested_until_ns := (sd_requested_until_ns sd)[i := until_ns],
                      sd_requested_made_ns := (sd_requested_made_ns sd)[i := made_at_ns]\<rparr>)"

definition request_by_name :: "scheduler \<Rightarrow> string \<Rightarrow> u64 \<Rightarrow> u64 \<Rightarrow> bool \<times> scheduler" where
  "request_by_name sd n until_ns made_at_ns =
     (case level_by_name sd n of None \<Rightarrow> (False, sd) | Some lv \<Rightarrow> (True, request sd lv until_ns made_at_ns))"

definition client_connected :: "scheduler \<Rightarrow> scheduler" where
  "client_connected sd = sd\<lparr>sd_client_count := sd_client_count sd + 1\<rparr>"

definition client_disconnected :: "scheduler \<Rightarrow> scheduler" where
  "client_disconnected sd = (if sd_client_count sd > 0 then sd\<lparr>sd_client_count := sd_client_count sd - 1\<rparr> else sd)"

definition set_client_count :: "scheduler \<Rightarrow> int \<Rightarrow> scheduler" where
  "set_client_count sd n = sd\<lparr>sd_client_count := (if n > 0 then n else 0)\<rparr>"

section \<open>Clock steps\<close>

definition move_if :: "bool \<Rightarrow> (u64 \<Rightarrow> u64) \<Rightarrow> u64 \<Rightarrow> u64" where
  "move_if b f t = (if b then f t else t)"

definition clock_stepped_forward :: "scheduler \<Rightarrow> u64 \<Rightarrow> scheduler" where
  "clock_stepped_forward sd by_ns =
     (let move = (\<lambda>t. t + by_ns)
      in sd\<lparr>sd_requested_until_ns := map (\<lambda>(r, t). move_if r move t) (zip (sd_requested sd) (sd_requested_until_ns sd)),
            sd_requested_made_ns := map (\<lambda>(r, t). move_if (r \<and> t \<noteq> 0) move t) (zip (sd_requested sd) (sd_requested_made_ns sd)),
            sd_last_client_active_ns := move_if (sd_had_clients sd) move (sd_last_client_active_ns sd),
            sd_last_anomaly_ns := move_if (sd_had_anomaly sd) move (sd_last_anomaly_ns sd),
            sd_anomaly_run_start_ns := move_if (sd_in_anomaly_run sd) move (sd_anomaly_run_start_ns sd),
            sd_last_tick_ns := move_if (sd_last_tick_ns sd \<noteq> 0) move (sd_last_tick_ns sd)\<rparr>)"

text \<open>The first part of \<open>tick\<close>: the clock is behind the last tick's.\<close>

definition move_back :: "u64 \<Rightarrow> u64 \<Rightarrow> u64" where
  "move_back back t = (if t > back then t - back else 0)"

definition tick_step_back :: "scheduler \<Rightarrow> u64 \<Rightarrow> scheduler" where
  "tick_step_back sd now =
     (if sd_last_tick_ns sd \<noteq> 0 \<and> now < sd_last_tick_ns sd
      then let move = move_back (sd_last_tick_ns sd - now)
           in sd\<lparr>sd_requested_until_ns := map (\<lambda>(r, made, t). move_if (r \<and> (made = 0 \<or> made > now)) move t)
                   (zip (sd_requested sd) (zip (sd_requested_made_ns sd) (sd_requested_until_ns sd))),
                 sd_last_client_active_ns := move_if (sd_had_clients sd) move (sd_last_client_active_ns sd),
                 sd_last_anomaly_ns := move_if (sd_had_anomaly sd) move (sd_last_anomaly_ns sd),
                 sd_anomaly_run_start_ns := move_if (sd_in_anomaly_run sd) move (sd_anomaly_run_start_ns sd)\<rparr>
      else sd)"

section \<open>The tick\<close>

definition check_anomaly :: "scheduler \<Rightarrow> sample \<Rightarrow> anomaly_state" where
  "check_anomaly sd s =
     (let cfg = sd_cfg sd;
          load = has_group (s_groups s) kGroupLoad;
          cpu = has_group (s_groups s) kGroupCpu;
          swap = has_group (s_groups s) kGroupSwap;
          avg_1m = load_avg_1m (s_load s);
          total = cpu_total_percent (s_cpu s);
          used = swap_used_percent (s_swap s)
      in if load \<and> f64_less (sc_critical_load_1m cfg) avg_1m then CRITICAL
         else if cpu \<and> f64_less (sc_critical_cpu_percent cfg) total then CRITICAL
         else if swap \<and> f64_less (sc_critical_swap_percent cfg) used then CRITICAL
         else if load \<and> f64_less (sc_escalation_load_1m cfg) avg_1m then ELEVATED
         else if cpu \<and> f64_less (sc_escalation_cpu_percent cfg) total then ELEVATED
         else if swap \<and> f64_less (sc_escalation_swap_percent cfg) used then ELEVATED
         else if \<not> load \<or> \<not> cpu \<or> \<not> swap then sd_anomaly sd
         else NORMAL)"

text \<open>The anomaly run and the escalation, \<open>anomaly_\<close> already set.\<close>

definition tick_anomaly :: "scheduler \<Rightarrow> u64 \<Rightarrow> scheduler" where
  "tick_anomaly sd now =
     (let escalate_ns = seconds_ns (sc_escalate_after_sec (sd_cfg sd))
      in if sc_mode (sd_cfg sd) = OnDemand then sd
         else if sd_anomaly sd \<noteq> NORMAL
         then let sd = (if \<not> sd_in_anomaly_run sd then sd\<lparr>sd_in_anomaly_run := True, sd_anomaly_run_start_ns := now\<rparr> else sd);
                  sd = sd\<lparr>sd_last_anomaly_ns := now, sd_had_anomaly := True\<rparr>
              in if escalate_ns > 0 \<and> now - sd_anomaly_run_start_ns sd \<ge> escalate_ns then sd\<lparr>sd_escalated := True\<rparr> else sd
         else if \<not> sd_escalated sd then sd\<lparr>sd_in_anomaly_run := False\<rparr>
         else sd)"

definition tick_escalation_end :: "scheduler \<Rightarrow> u64 \<Rightarrow> scheduler" where
  "tick_escalation_end sd now =
     (let grace_ns = seconds_ns (sc_grace_period_sec (sd_cfg sd))
      in if sd_escalated sd \<and> sd_anomaly sd = NORMAL \<and>
            (now < sd_last_anomaly_ns sd \<or> now - sd_last_anomaly_ns sd \<ge> grace_ns)
         then sd\<lparr>sd_escalated := False, sd_in_anomaly_run := False\<rparr> else sd)"

definition tick_clients :: "scheduler \<Rightarrow> u64 \<Rightarrow> scheduler" where
  "tick_clients sd now =
     (if sd_client_count sd > 0 then sd\<lparr>sd_last_client_active_ns := now, sd_had_clients := True\<rparr> else sd)"

definition requested :: "scheduler \<Rightarrow> u64 \<Rightarrow> level \<Rightarrow> bool" where
  "requested sd now lv \<longleftrightarrow> sd_requested sd ! unat lv \<and> sd_requested_until_ns sd ! unat lv \<ge> now"

definition wants_l3 :: "scheduler \<Rightarrow> u64 \<Rightarrow> bool" where
  "wants_l3 sd now \<longleftrightarrow>
     (let grace_ns = seconds_ns (sc_grace_period_sec (sd_cfg sd))
      in sc_mode (sd_cfg sd) = Always \<or> sd_client_count sd > 0 \<or>
         (sd_had_clients sd \<and> now \<ge> sd_last_client_active_ns sd \<and> now - sd_last_client_active_ns sd < grace_ns) \<or>
         (sd_escalated sd \<and> (sd_anomaly sd \<noteq> NORMAL \<or>
            (now \<ge> sd_last_anomaly_ns sd \<and> now - sd_last_anomaly_ns sd < grace_ns))) \<or>
         requested sd now L3)"

definition wants_l2 :: "scheduler \<Rightarrow> u64 \<Rightarrow> bool" where
  "wants_l2 sd now \<longleftrightarrow>
     (let hysteresis_ns = seconds_ns (sc_hysteresis_sec (sd_cfg sd)); adaptive = (sc_mode (sd_cfg sd) \<noteq> OnDemand)
      in (adaptive \<and> sd_anomaly sd \<noteq> NORMAL) \<or>
         (sd_had_anomaly sd \<and> now \<ge> sd_last_anomaly_ns sd \<and> now - sd_last_anomaly_ns sd < hysteresis_ns) \<or>
         (adaptive \<and> sc_l2_always_on (sd_cfg sd)) \<or> requested sd now L2)"

lemma requested_level [simp]: "requested (sd\<lparr>sd_level := lv\<rparr>) now l = requested sd now l"
  by (simp add: requested_def)

text \<open>The best level so far, its priority and its interval.\<close>

definition consider_level :: "scheduler \<Rightarrow> level \<times> int \<times> int \<Rightarrow> level \<Rightarrow> int \<Rightarrow> level \<times> int \<times> int" where
  "consider_level sd = (\<lambda>(best, best_prio, best_ivl) lv prio.
     let ivl = interval_ms sd lv
     in if prio > best_prio \<or> (prio = best_prio \<and> ivl < best_ivl) then (lv, prio, ivl) else (best, best_prio, best_ivl))"

fun consider_custom :: "scheduler \<Rightarrow> u64 \<Rightarrow> level \<times> int \<times> int \<Rightarrow> custom_level list \<Rightarrow> level \<times> int \<times> int" where
  "consider_custom sd now b [] = b"
| "consider_custom sd now b (c # cs) =
     consider_custom sd now (if requested sd now (cl_id c) then consider_level sd b (cl_id c) (cl_priority c) else b) cs"

definition select_level :: "scheduler \<Rightarrow> u64 \<Rightarrow> level" where
  "select_level sd now =
     (let b = (L1, kPriorityL1, interval_ms sd L1);
          b = (if wants_l2 sd now then consider_level sd b L2 kPriorityL2 else b);
          b = (if wants_l3 sd now then consider_level sd b L3 kPriorityL3 else b)
      in fst (consider_custom sd now b (sc_custom_levels (sd_cfg sd))))"

definition higher :: "scheduler \<Rightarrow> level \<Rightarrow> level \<Rightarrow> level" where
  "higher sd a b =
     (let pa = level_priority sd a; pb = level_priority sd b
      in if pa \<noteq> pb then (if pa > pb then a else b)
         else if interval_ms sd b < interval_ms sd a then b else a)"

definition tick :: "scheduler \<Rightarrow> sample \<Rightarrow> level \<times> scheduler" where
  "tick sd current =
     (let now = s_timestamp_nanos current;
          sd = tick_step_back sd now;
          sd = sd\<lparr>sd_last_tick_ns := now\<rparr>;
          sd = sd\<lparr>sd_anomaly := check_anomaly sd current\<rparr>;
          sd = tick_anomaly sd now;
          sd = tick_escalation_end sd now;
          sd = tick_clients sd now;
          lv = select_level sd now
      in (lv, sd\<lparr>sd_level := lv\<rparr>))"

section \<open>The configuration the loader gives\<close>

text \<open>Custom levels have the ids 4 to 19, each once, and the arrays of requests one entry per id.\<close>

definition sched_ok :: "scheduler \<Rightarrow> bool" where
  "sched_ok sd \<longleftrightarrow> distinct (map cl_id (sc_custom_levels (sd_cfg sd))) \<and>
     (\<forall>c \<in> set (sc_custom_levels (sd_cfg sd)). kFirstCustomLevel \<le> cl_id c \<and> cl_id c \<le> kMaxLevelId) \<and>
     length (sd_requested sd) = 20 \<and> length (sd_requested_until_ns sd) = 20 \<and> length (sd_requested_made_ns sd) = 20"

text \<open>The levels in force at \<open>now\<close>, and which of two wins.\<close>

definition active :: "scheduler \<Rightarrow> u64 \<Rightarrow> level \<Rightarrow> bool" where
  "active sd now lv \<longleftrightarrow> lv = L1 \<or> (lv = L2 \<and> wants_l2 sd now) \<or> (lv = L3 \<and> wants_l3 sd now) \<or>
     (lv \<in> cl_id ` set (sc_custom_levels (sd_cfg sd)) \<and> requested sd now lv)"

definition beats :: "scheduler \<Rightarrow> level \<Rightarrow> level \<Rightarrow> bool" where
  "beats sd a b \<longleftrightarrow> level_priority sd a > level_priority sd b \<or>
     (level_priority sd a = level_priority sd b \<and> interval_ms sd a < interval_ms sd b)"

section \<open>The choice of a level\<close>

text \<open>A candidate: a level with its own priority and interval, \<open>beats\<close> on such triples.\<close>

definition entry :: "scheduler \<Rightarrow> level \<Rightarrow> level \<times> int \<times> int" where
  "entry sd lv = (lv, level_priority sd lv, interval_ms sd lv)"

lemma consider_entry:
  "level_priority sd lv = prio \<Longrightarrow>
   consider_level sd (entry sd b) lv prio = (if beats sd lv b then entry sd lv else entry sd b)"
  by (auto simp: consider_level_def entry_def beats_def Let_def)

lemma beats_trans: "beats sd a b \<Longrightarrow> beats sd b c \<Longrightarrow> beats sd a c"
  by (auto simp: beats_def)

lemma not_beats_trans: "\<not> beats sd a b \<Longrightarrow> \<not> beats sd b c \<Longrightarrow> \<not> beats sd a c"
  by (auto simp: beats_def)

lemma not_beats_refl [simp]: "\<not> beats sd a a"
  by (simp add: beats_def)

lemma find_level_mem:
  "distinct (map cl_id cs) \<Longrightarrow> c \<in> set cs \<Longrightarrow> find_level cs (cl_id c) = Some c"
  by (induction cs) (auto simp: image_iff)

lemma find_level_SomeD: "find_level cs lv = Some c \<Longrightarrow> c \<in> set cs \<and> cl_id c = lv"
  by (induction cs lv rule: find_level.induct) (auto split: if_splits)

lemma custom_priority:
  assumes "sched_ok sd" and "c \<in> set (sc_custom_levels (sd_cfg sd))"
  shows "level_priority sd (cl_id c) = cl_priority c"
proof -
  have "find_custom sd (cl_id c) = Some c" "4 \<le> cl_id c"
    using assms find_level_mem by (auto simp: sched_ok_def find_custom_def)
  then show ?thesis by (auto simp: level_priority_def word_le_nat_alt)
qed

lemma consider_custom_best:
  assumes "\<forall>c \<in> set cs. level_priority sd (cl_id c) = cl_priority c"
  shows "\<exists>r. consider_custom sd now (entry sd b) cs = entry sd r \<and> \<not> beats sd b r \<and>
    (r = b \<or> (r \<in> cl_id ` set cs \<and> requested sd now r)) \<and>
    (\<forall>c \<in> set cs. requested sd now (cl_id c) \<longrightarrow> \<not> beats sd (cl_id c) r)"
  using assms
proof (induction cs arbitrary: b)
  case Nil
  then show ?case by (intro exI [of _ b]) simp
next
  case (Cons c cs)
  let ?b = "if requested sd now (cl_id c) \<and> beats sd (cl_id c) b then cl_id c else b"
  have step: "consider_custom sd now (entry sd b) (c # cs) = consider_custom sd now (entry sd ?b) cs"
    using Cons.prems by (simp add: consider_entry)
  obtain r where r: "consider_custom sd now (entry sd ?b) cs = entry sd r" "\<not> beats sd ?b r"
    "r = ?b \<or> (r \<in> cl_id ` set cs \<and> requested sd now r)"
    "\<forall>c \<in> set cs. requested sd now (cl_id c) \<longrightarrow> \<not> beats sd (cl_id c) r"
    using Cons.IH [of ?b] Cons.prems by auto
  have "\<not> beats sd b ?b" by (auto simp: beats_def)
  then have "\<not> beats sd b r" using r(2) not_beats_trans by blast
  moreover have "\<not> beats sd (cl_id c) r" if "requested sd now (cl_id c)"
  proof -
    have "\<not> beats sd (cl_id c) ?b" using that by auto
    then show ?thesis using r(2) not_beats_trans by blast
  qed
  ultimately show ?case using r step by (intro exI [of _ r]) (auto split: if_splits)
qed

lemma select_best:
  assumes ok: "sched_ok sd"
  shows "active sd now (select_level sd now) \<and> (\<forall>lv. active sd now lv \<longrightarrow> \<not> beats sd lv (select_level sd now))"
proof -
  let ?b2 = "if wants_l2 sd now \<and> beats sd L2 L1 then L2 else L1"
  let ?b3 = "if wants_l3 sd now \<and> beats sd L3 ?b2 then L3 else ?b2"
  have prio: "level_priority sd L1 = kPriorityL1" "level_priority sd L2 = kPriorityL2" "level_priority sd L3 = kPriorityL3"
    by (simp_all add: level_priority_def)
  have "(L1, kPriorityL1, interval_ms sd L1) = entry sd L1" by (simp add: entry_def prio)
  then have sel: "select_level sd now = fst (consider_custom sd now (entry sd ?b3) (sc_custom_levels (sd_cfg sd)))"
    by (simp add: select_level_def Let_def consider_entry prio)
  obtain r where r: "consider_custom sd now (entry sd ?b3) (sc_custom_levels (sd_cfg sd)) = entry sd r" "\<not> beats sd ?b3 r"
    "r = ?b3 \<or> (r \<in> cl_id ` set (sc_custom_levels (sd_cfg sd)) \<and> requested sd now r)"
    "\<forall>c \<in> set (sc_custom_levels (sd_cfg sd)). requested sd now (cl_id c) \<longrightarrow> \<not> beats sd (cl_id c) r"
    using consider_custom_best [of "sc_custom_levels (sd_cfg sd)" sd now ?b3] custom_priority [OF ok] by blast
  have "select_level sd now = r" by (simp add: sel r(1)) (simp add: entry_def)
  moreover have "active sd now r" using r(3) by (auto simp: active_def split: if_splits)
  moreover have "\<not> beats sd lv r" if "active sd now lv" for lv
  proof -
    have "\<not> beats sd L1 ?b3" "wants_l2 sd now \<Longrightarrow> \<not> beats sd L2 ?b3" "wants_l3 sd now \<Longrightarrow> \<not> beats sd L3 ?b3"
      by (simp_all add: beats_def prio)
    then have "lv = L1 \<or> lv = L2 \<or> lv = L3 \<Longrightarrow> \<not> beats sd lv ?b3" using that ok
      by (auto simp: active_def sched_ok_def word_le_nat_alt)
    then show ?thesis using that r(4) not_beats_trans [OF _ r(2)] by (auto simp: active_def)
  qed
  ultimately show ?thesis by blast
qed

section \<open>Reachable states\<close>

text \<open>What the serve loop does to a scheduler: a tick, a request, the client count, a clock step.\<close>

inductive sched_step :: "scheduler \<Rightarrow> scheduler \<Rightarrow> bool" where
  ticked: "tick sd s = (lv, sd') \<Longrightarrow> sched_step sd sd'"
| asked: "sched_step sd (request sd lv until_ns made_at_ns)"
| stepped: "sched_step sd (clock_stepped_forward sd by_ns)"
| counted: "sched_step sd (set_client_count sd n)"
| joined: "sched_step sd (client_connected sd)"
| left: "sched_step sd (client_disconnected sd)"

inductive sched_reachable :: "scheduler_config \<Rightarrow> scheduler \<Rightarrow> bool" for cfg where
  start: "sched_reachable cfg (scheduler_new cfg)"
| step: "sched_reachable cfg sd \<Longrightarrow> sched_step sd sd' \<Longrightarrow> sched_reachable cfg sd'"

definition config_ok :: "scheduler_config \<Rightarrow> bool" where
  "config_ok cfg \<longleftrightarrow> distinct (map cl_id (sc_custom_levels cfg)) \<and>
     (\<forall>c \<in> set (sc_custom_levels cfg). kFirstCustomLevel \<le> cl_id c \<and> cl_id c \<le> kMaxLevelId)"

text \<open>An escalation belongs to an anomaly run, a run to an anomaly, and in on-demand mode there is
  none of them.\<close>

definition sched_inv :: "scheduler \<Rightarrow> bool" where
  "sched_inv sd \<longleftrightarrow> sched_ok sd \<and> 0 \<le> sd_client_count sd \<and>
     (sd_escalated sd \<longrightarrow> sd_in_anomaly_run sd) \<and> (sd_in_anomaly_run sd \<longrightarrow> sd_had_anomaly sd) \<and>
     (sc_mode (sd_cfg sd) = OnDemand \<longrightarrow> \<not> sd_had_anomaly sd)"

lemma sched_ok_def2:
  "sched_ok sd \<longleftrightarrow> config_ok (sd_cfg sd) \<and>
     length (sd_requested sd) = 20 \<and> length (sd_requested_until_ns sd) = 20 \<and> length (sd_requested_made_ns sd) = 20"
  by (simp add: sched_ok_def config_ok_def)

lemma sched_inv_new: "config_ok cfg \<Longrightarrow> sched_inv (scheduler_new cfg)"
  by (simp add: sched_inv_def sched_ok_def2 scheduler_new_def)

text \<open>What each part of a tick leaves alone.\<close>

lemma tick_step_back_sel [simp]:
  "sd_cfg (tick_step_back sd now) = sd_cfg sd" "sd_client_count (tick_step_back sd now) = sd_client_count sd"
  "sd_escalated (tick_step_back sd now) = sd_escalated sd" "sd_in_anomaly_run (tick_step_back sd now) = sd_in_anomaly_run sd"
  "sd_had_anomaly (tick_step_back sd now) = sd_had_anomaly sd" "sd_had_clients (tick_step_back sd now) = sd_had_clients sd"
  "sd_anomaly (tick_step_back sd now) = sd_anomaly sd" "sd_requested (tick_step_back sd now) = sd_requested sd"
  "sd_requested_made_ns (tick_step_back sd now) = sd_requested_made_ns sd" "sd_level (tick_step_back sd now) = sd_level sd"
  "sd_last_tick_ns (tick_step_back sd now) = sd_last_tick_ns sd"
  by (simp_all add: tick_step_back_def Let_def)

lemma tick_anomaly_sel [simp]:
  "sd_cfg (tick_anomaly sd now) = sd_cfg sd" "sd_client_count (tick_anomaly sd now) = sd_client_count sd"
  "sd_had_clients (tick_anomaly sd now) = sd_had_clients sd" "sd_anomaly (tick_anomaly sd now) = sd_anomaly sd"
  "sd_requested (tick_anomaly sd now) = sd_requested sd" "sd_requested_made_ns (tick_anomaly sd now) = sd_requested_made_ns sd"
  "sd_requested_until_ns (tick_anomaly sd now) = sd_requested_until_ns sd" "sd_level (tick_anomaly sd now) = sd_level sd"
  "sd_last_client_active_ns (tick_anomaly sd now) = sd_last_client_active_ns sd" "sd_last_tick_ns (tick_anomaly sd now) = sd_last_tick_ns sd"
  by (simp_all add: tick_anomaly_def Let_def)

lemma tick_escalation_end_sel [simp]:
  "sd_cfg (tick_escalation_end sd now) = sd_cfg sd" "sd_client_count (tick_escalation_end sd now) = sd_client_count sd"
  "sd_had_clients (tick_escalation_end sd now) = sd_had_clients sd" "sd_anomaly (tick_escalation_end sd now) = sd_anomaly sd"
  "sd_requested (tick_escalation_end sd now) = sd_requested sd" "sd_had_anomaly (tick_escalation_end sd now) = sd_had_anomaly sd"
  "sd_requested_made_ns (tick_escalation_end sd now) = sd_requested_made_ns sd"
  "sd_requested_until_ns (tick_escalation_end sd now) = sd_requested_until_ns sd"
  "sd_last_client_active_ns (tick_escalation_end sd now) = sd_last_client_active_ns sd"
  "sd_last_anomaly_ns (tick_escalation_end sd now) = sd_last_anomaly_ns sd"
  "sd_anomaly_run_start_ns (tick_escalation_end sd now) = sd_anomaly_run_start_ns sd"
  "sd_last_tick_ns (tick_escalation_end sd now) = sd_last_tick_ns sd" "sd_level (tick_escalation_end sd now) = sd_level sd"
  by (simp_all add: tick_escalation_end_def Let_def)

lemma tick_clients_sel [simp]:
  "sd_cfg (tick_clients sd now) = sd_cfg sd" "sd_client_count (tick_clients sd now) = sd_client_count sd"
  "sd_escalated (tick_clients sd now) = sd_escalated sd" "sd_in_anomaly_run (tick_clients sd now) = sd_in_anomaly_run sd"
  "sd_had_anomaly (tick_clients sd now) = sd_had_anomaly sd" "sd_anomaly (tick_clients sd now) = sd_anomaly sd"
  "sd_requested (tick_clients sd now) = sd_requested sd" "sd_requested_made_ns (tick_clients sd now) = sd_requested_made_ns sd"
  "sd_requested_until_ns (tick_clients sd now) = sd_requested_until_ns sd" "sd_level (tick_clients sd now) = sd_level sd"
  "sd_last_anomaly_ns (tick_clients sd now) = sd_last_anomaly_ns sd"
  "sd_anomaly_run_start_ns (tick_clients sd now) = sd_anomaly_run_start_ns sd" "sd_last_tick_ns (tick_clients sd now) = sd_last_tick_ns sd"
  by (simp_all add: tick_clients_def)

text \<open>A tick up to the choice of the level.\<close>

definition before_select :: "scheduler \<Rightarrow> sample \<Rightarrow> scheduler" where
  "before_select sd s =
     (let now = s_timestamp_nanos s; sd = (tick_step_back sd now)\<lparr>sd_last_tick_ns := now\<rparr>
      in tick_clients (tick_escalation_end (tick_anomaly (sd\<lparr>sd_anomaly := check_anomaly sd s\<rparr>) now) now) now)"

lemma tick_eq:
  "tick sd s = (select_level (before_select sd s) (s_timestamp_nanos s),
     (before_select sd s)\<lparr>sd_level := select_level (before_select sd s) (s_timestamp_nanos s)\<rparr>)"
  by (simp add: tick_def before_select_def Let_def)

lemma before_select_sel [simp]:
  "sd_cfg (before_select sd s) = sd_cfg sd" "sd_client_count (before_select sd s) = sd_client_count sd"
  "sd_requested (before_select sd s) = sd_requested sd" "sd_requested_made_ns (before_select sd s) = sd_requested_made_ns sd"
  "sd_last_tick_ns (before_select sd s) = s_timestamp_nanos s" "sd_level (before_select sd s) = sd_level sd"
  by (simp_all add: before_select_def Let_def)

lemma sched_ok_level [simp]: "sched_ok (sd\<lparr>sd_level := lv\<rparr>) = sched_ok sd" "sched_inv (sd\<lparr>sd_level := lv\<rparr>) = sched_inv sd"
  by (simp_all add: sched_inv_def sched_ok_def)

lemma before_select_inv: "sched_inv sd \<Longrightarrow> sched_inv (before_select sd s)"
proof -
  assume inv: "sched_inv sd"
  have "length (sd_requested_until_ns (tick_step_back sd now)) = 20" for now
    using inv by (simp add: sched_inv_def sched_ok_def2 tick_step_back_def Let_def)
  then have "sched_ok (before_select sd s)"
    using inv by (simp add: sched_inv_def sched_ok_def2) (simp add: before_select_def Let_def)
  then show ?thesis
    using inv by (auto simp: sched_inv_def before_select_def tick_anomaly_def tick_escalation_end_def Let_def)
qed

lemma sched_step_cfg: "sched_step sd sd' \<Longrightarrow> sd_cfg sd' = sd_cfg sd"
  by (auto elim!: sched_step.cases simp: tick_eq request_def Let_def clock_stepped_forward_def set_client_count_def
      client_connected_def client_disconnected_def)

lemma sched_step_inv: "sched_step sd sd' \<Longrightarrow> sched_inv sd \<Longrightarrow> sched_inv sd'"
proof (induction rule: sched_step.induct)
  case (ticked sd s lv sd')
  then show ?case using before_select_inv [of sd s] by (auto simp: tick_eq)
qed (auto simp: sched_inv_def sched_ok_def2 request_def Let_def clock_stepped_forward_def set_client_count_def
      client_connected_def client_disconnected_def)

lemma sched_reachable_inv: "sched_reachable cfg sd \<Longrightarrow> config_ok cfg \<Longrightarrow> sched_inv sd \<and> sd_cfg sd = cfg"
proof (induction rule: sched_reachable.induct)
  case start
  then show ?case by (simp add: sched_inv_new) (simp add: scheduler_new_def)
next
  case (step sd sd')
  then show ?case using sched_step_inv sched_step_cfg by auto
qed

section \<open>Moving the clock\<close>

text \<open>\<open>t'\<close> is \<open>t\<close> moved on by \<open>by\<close>, without passing the end of the clock.\<close>

definition moved :: "u64 \<Rightarrow> u64 \<Rightarrow> u64 \<Rightarrow> bool" where
  "moved by_ns t t' \<longleftrightarrow> unat t + unat by_ns < two64 \<and> t' = t + by_ns"

lemma moved_diff: "moved b t t' \<Longrightarrow> moved b n n' \<Longrightarrow> n' - t' = n - t"
  by (simp add: moved_def)

lemma moved_le: "moved b t t' \<Longrightarrow> moved b n n' \<Longrightarrow> t' \<le> n' \<longleftrightarrow> t \<le> n"
  by (simp add: moved_def word_le_nat_alt unat_word_ariths)

lemma moved_less: "moved b t t' \<Longrightarrow> moved b n n' \<Longrightarrow> t' < n' \<longleftrightarrow> t < n"
  by (simp add: moved_def word_less_nat_alt unat_word_ariths)

text \<open>Two schedulers that differ in the clock alone: every live instant of the second is one of the
  first, moved on. Instants no flag vouches for do not matter.\<close>

definition shifted :: "u64 \<Rightarrow> scheduler \<Rightarrow> scheduler \<Rightarrow> bool" where
  "shifted by_ns a b \<longleftrightarrow> sd_cfg b = sd_cfg a \<and> sd_level b = sd_level a \<and> sd_anomaly b = sd_anomaly a \<and>
     sd_client_count b = sd_client_count a \<and> sd_had_anomaly b = sd_had_anomaly a \<and> sd_had_clients b = sd_had_clients a \<and>
     sd_in_anomaly_run b = sd_in_anomaly_run a \<and> sd_escalated b = sd_escalated a \<and> sd_requested b = sd_requested a \<and>
     (sd_had_anomaly a \<longrightarrow> moved by_ns (sd_last_anomaly_ns a) (sd_last_anomaly_ns b)) \<and>
     (sd_had_clients a \<longrightarrow> moved by_ns (sd_last_client_active_ns a) (sd_last_client_active_ns b)) \<and>
     (sd_in_anomaly_run a \<longrightarrow> moved by_ns (sd_anomaly_run_start_ns a) (sd_anomaly_run_start_ns b)) \<and>
     (\<forall>i < 20. sd_requested a ! i \<longrightarrow> moved by_ns (sd_requested_until_ns a ! i) (sd_requested_until_ns b ! i)) \<and>
     (sd_last_tick_ns a = 0 \<and> sd_last_tick_ns b = 0 \<or> moved by_ns (sd_last_tick_ns a) (sd_last_tick_ns b))"

abbreviation later :: "u64 \<Rightarrow> sample \<Rightarrow> sample" where
  "later by_ns s \<equiv> s\<lparr>s_timestamp_nanos := s_timestamp_nanos s + by_ns\<rparr>"

lemma custom_id_small: "config_ok cfg \<Longrightarrow> c \<in> set (sc_custom_levels cfg) \<Longrightarrow> unat (cl_id c) < 20"
  by (auto simp: config_ok_def word_le_nat_alt)

lemma requested_shifted:
  assumes "shifted b x y" and "moved b now now'" and "unat lv < 20"
  shows "requested y now' lv = requested x now lv"
  using assms moved_le [OF assms(2)] by (auto simp: shifted_def requested_def)

lemma interval_cong: "sd_cfg y = sd_cfg x \<Longrightarrow> interval_ms y lv = interval_ms x lv"
  by (simp add: interval_ms_def find_custom_def cong: option.case_cong)

lemma consider_custom_cong:
  assumes "sd_cfg y = sd_cfg x" and "\<forall>c \<in> set cs. requested y now' (cl_id c) = requested x now (cl_id c)"
  shows "consider_custom y now' p cs = consider_custom x now p cs"
proof -
  have "consider_level y = consider_level x" using interval_cong [OF assms(1)] by (simp add: consider_level_def fun_eq_iff)
  then show ?thesis using assms(2) by (induction cs arbitrary: p) auto
qed

lemma select_shifted:
  assumes sh: "shifted b x y" and n: "moved b now now'" and inv: "sched_inv x"
  shows "select_level y now' = select_level x now"
proof -
  have cfg: "sd_cfg y = sd_cfg x" using sh by (simp add: shifted_def)
  note req = requested_shifted [OF sh n]
  have an: "sd_last_anomaly_ns y \<le> now' \<longleftrightarrow> sd_last_anomaly_ns x \<le> now" "now' - sd_last_anomaly_ns y = now - sd_last_anomaly_ns x"
    if "sd_had_anomaly x" using sh that moved_le [OF _ n] moved_diff [OF _ n] by (simp_all add: shifted_def)
  have cl: "sd_last_client_active_ns y \<le> now' \<longleftrightarrow> sd_last_client_active_ns x \<le> now"
    "now' - sd_last_client_active_ns y = now - sd_last_client_active_ns x"
    if "sd_had_clients x" using sh that moved_le [OF _ n] moved_diff [OF _ n] by (simp_all add: shifted_def)
  have flags: "sd_client_count y = sd_client_count x" "sd_had_clients y = sd_had_clients x" "sd_escalated y = sd_escalated x"
    "sd_anomaly y = sd_anomaly x" "sd_had_anomaly y = sd_had_anomaly x" using sh by (simp_all add: shifted_def)
  have esc: "sd_escalated x \<Longrightarrow> sd_had_anomaly x" using inv by (simp add: sched_inv_def)
  have l3: "wants_l3 y now' = wants_l3 x now"
    using esc req [of L3] by (simp add: wants_l3_def Let_def cfg flags an cl cong: conj_cong)
  have l2: "wants_l2 y now' = wants_l2 x now"
    using req [of L2] by (simp add: wants_l2_def Let_def cfg flags an cong: conj_cong)
  have "consider_level y = consider_level x" using interval_cong [OF cfg] by (simp add: consider_level_def fun_eq_iff)
  moreover have "\<forall>c \<in> set (sc_custom_levels (sd_cfg x)). requested y now' (cl_id c) = requested x now (cl_id c)"
    using req custom_id_small inv by (auto simp: sched_inv_def sched_ok_def2)
  note consider_custom_cong [OF cfg this]
  ultimately show ?thesis
    using l2 l3 cfg interval_cong [OF cfg] by (simp add: select_level_def Let_def)
qed

lemma check_anomaly_cong:
  "sd_cfg y = sd_cfg x \<Longrightarrow> sd_anomaly y = sd_anomaly x \<Longrightarrow> s_groups t = s_groups s \<Longrightarrow> s_load t = s_load s \<Longrightarrow>
   s_cpu t = s_cpu s \<Longrightarrow> s_swap t = s_swap s \<Longrightarrow> check_anomaly y t = check_anomaly x s"
  by (simp only: check_anomaly_def)

lemma tick_anomaly_shifted:
  assumes sh: "shifted b x y" and n: "moved b now now'"
  shows "shifted b (tick_anomaly x now) (tick_anomaly y now')"
proof (cases "sc_mode (sd_cfg x) = OnDemand \<or> sd_anomaly x = NORMAL")
  case True
  then show ?thesis using sh by (auto simp: shifted_def tick_anomaly_def Let_def)
next
  case False
  have run: "now' - sd_anomaly_run_start_ns y = now - sd_anomaly_run_start_ns x" if "sd_in_anomaly_run x"
    using sh that moved_diff [OF _ n] by (simp add: shifted_def)
  have flags: "sd_cfg y = sd_cfg x" "sd_anomaly y = sd_anomaly x" "sd_in_anomaly_run y = sd_in_anomaly_run x"
    using sh by (simp_all add: shifted_def)
  show ?thesis
  proof (cases "sd_in_anomaly_run x")
    case True
    then show ?thesis using False sh n flags run by (simp add: tick_anomaly_def Let_def) (simp add: shifted_def)
  next
    case no: False
    then show ?thesis using False sh n flags by (simp add: tick_anomaly_def Let_def) (auto simp: shifted_def)
  qed
qed

lemma tick_escalation_end_shifted:
  assumes sh: "shifted b x y" and n: "moved b now now'" and inv: "sd_escalated x \<longrightarrow> sd_had_anomaly x"
  shows "shifted b (tick_escalation_end x now) (tick_escalation_end y now')"
proof (cases "sd_escalated x \<and> sd_anomaly x = NORMAL")
  case True
  then have "moved b (sd_last_anomaly_ns x) (sd_last_anomaly_ns y)" using sh inv by (simp add: shifted_def)
  then have "now' - sd_last_anomaly_ns y = now - sd_last_anomaly_ns x" "now' < sd_last_anomaly_ns y \<longleftrightarrow> now < sd_last_anomaly_ns x"
    using moved_diff [OF _ n] moved_less [OF n] by blast+
  moreover have "sd_cfg y = sd_cfg x" "sd_anomaly y = sd_anomaly x" "sd_escalated y = sd_escalated x"
    using sh by (simp_all add: shifted_def)
  ultimately show ?thesis using sh by (simp add: tick_escalation_end_def Let_def) (simp add: shifted_def)
next
  case False
  then show ?thesis using sh by (auto simp: shifted_def tick_escalation_end_def Let_def)
qed

lemma before_select_shifted:
  assumes sh: "shifted b x y" and inv: "sched_inv x" and now: "unat (s_timestamp_nanos s) + unat b < two64"
    and le: "sd_last_tick_ns x \<le> s_timestamp_nanos s"
  shows "shifted b (before_select x s) (before_select y (later b s))"
proof -
  let ?now = "s_timestamp_nanos s"
  have n: "moved b ?now (?now + b)" using now by (simp add: moved_def)
  have x0: "tick_step_back x ?now = x" using le by (auto simp: tick_step_back_def)
  have "\<not> (sd_last_tick_ns y \<noteq> 0 \<and> ?now + b < sd_last_tick_ns y)"
    using sh le moved_less [OF n] by (auto simp: shifted_def)
  then have y0: "tick_step_back y (?now + b) = y" by (auto simp: tick_step_back_def)
  define x1 where "x1 = x\<lparr>sd_last_tick_ns := ?now, sd_anomaly := check_anomaly x s\<rparr>"
  define y1 where "y1 = y\<lparr>sd_last_tick_ns := ?now + b, sd_anomaly := check_anomaly x s\<rparr>"
  have ck: "check_anomaly (y\<lparr>sd_last_tick_ns := t\<rparr>) (later b s) = check_anomaly x s" "check_anomaly (x\<lparr>sd_last_tick_ns := t\<rparr>) s = check_anomaly x s" for t
    by (rule check_anomaly_cong; use sh in \<open>simp add: shifted_def\<close>)+
  have bx: "before_select x s = tick_clients (tick_escalation_end (tick_anomaly x1 ?now) ?now) ?now"
    by (simp add: before_select_def Let_def x0 ck x1_def)
  have b_y: "before_select y (later b s) = tick_clients (tick_escalation_end (tick_anomaly y1 (?now + b)) (?now + b)) (?now + b)"
    by (simp add: before_select_def Let_def y0 ck y1_def)
  have s1: "shifted b x1 y1" using sh n by (simp add: shifted_def x1_def y1_def)
  have inv1: "sd_escalated x1 \<longrightarrow> sd_in_anomaly_run x1" "sd_in_anomaly_run x1 \<longrightarrow> sd_had_anomaly x1"
    using inv by (simp_all add: x1_def sched_inv_def)
  have "sd_escalated (tick_anomaly x1 ?now) \<longrightarrow> sd_had_anomaly (tick_anomaly x1 ?now)"
    using inv1 by (auto simp: tick_anomaly_def Let_def)
  from tick_escalation_end_shifted [OF tick_anomaly_shifted [OF s1 n] n this]
  show ?thesis unfolding bx b_y using n by (simp add: shifted_def tick_clients_def)
qed

lemma tick_shifted:
  assumes "shifted b x y" and "sched_inv x" and "unat (s_timestamp_nanos s) + unat b < two64"
    and "sd_last_tick_ns x \<le> s_timestamp_nanos s"
  shows "fst (tick y (later b s)) = fst (tick x s) \<and> shifted b (snd (tick x s)) (snd (tick y (later b s)))"
proof -
  have n: "moved b (s_timestamp_nanos s) (s_timestamp_nanos s + b)" using assms(3) by (simp add: moved_def)
  note sh = before_select_shifted [OF assms]
  have "select_level (before_select y (later b s)) (s_timestamp_nanos s + b) = select_level (before_select x s) (s_timestamp_nanos s)"
    by (rule select_shifted [OF sh n before_select_inv [OF assms(2)]])
  then show ?thesis using sh by (simp add: tick_eq) (simp add: shifted_def)
qed

section \<open>Runs\<close>

fun run_levels :: "scheduler \<Rightarrow> sample list \<Rightarrow> level list" where
  "run_levels sd [] = []"
| "run_levels sd (s # ss) = fst (tick sd s) # run_levels (snd (tick sd s)) ss"

fun run_state :: "scheduler \<Rightarrow> sample list \<Rightarrow> scheduler" where
  "run_state sd [] = sd"
| "run_state sd (s # ss) = run_state (snd (tick sd s)) ss"

lemma run_shifted:
  assumes "shifted b x y" and "sched_inv x" and "\<forall>s \<in> set ss. unat (s_timestamp_nanos s) + unat b < two64"
    and "sorted (sd_last_tick_ns x # map s_timestamp_nanos ss)"
  shows "run_levels y (map (later b) ss) = run_levels x ss"
  using assms
proof (induction ss arbitrary: x y)
  case (Cons s ss)
  note t = tick_shifted [OF Cons.prems(1,2), of s]
  have "sched_inv (snd (tick x s))" "sd_last_tick_ns (snd (tick x s)) = s_timestamp_nanos s"
    using before_select_inv [OF Cons.prems(2)] by (simp_all add: tick_eq)
  then show ?case using Cons t by auto
qed simp

text \<open>Every live instant can move on by \<open>by_ns\<close> without passing the end of the clock.\<close>

definition can_move :: "u64 \<Rightarrow> scheduler \<Rightarrow> bool" where
  "can_move by_ns sd \<longleftrightarrow>
     (sd_had_anomaly sd \<longrightarrow> unat (sd_last_anomaly_ns sd) + unat by_ns < two64) \<and>
     (sd_had_clients sd \<longrightarrow> unat (sd_last_client_active_ns sd) + unat by_ns < two64) \<and>
     (sd_in_anomaly_run sd \<longrightarrow> unat (sd_anomaly_run_start_ns sd) + unat by_ns < two64) \<and>
     (\<forall>i < 20. sd_requested sd ! i \<longrightarrow> unat (sd_requested_until_ns sd ! i) + unat by_ns < two64) \<and>
     unat (sd_last_tick_ns sd) + unat by_ns < two64"

lemma forward_shifted:
  assumes "sched_ok sd" and "can_move b sd"
  shows "shifted b sd (clock_stepped_forward sd b)"
  using assms by (auto simp: shifted_def clock_stepped_forward_def Let_def can_move_def moved_def move_if_def sched_ok_def2)

text \<open>A request stamped at or before \<open>now\<close>, which \<open>tick\<close> takes for one made on the new clock and leaves where it is.\<close>

abbreviation on_new_clock :: "u64 \<Rightarrow> u64 \<Rightarrow> bool" where
  "on_new_clock now made \<equiv> made \<noteq> 0 \<and> made \<le> now"

text \<open>Every instant that is moved lies at or after \<open>back\<close>; the deadlines that are left are \<open>back\<close> away from the end of the clock.\<close>

definition can_move_back :: "u64 \<Rightarrow> u64 \<Rightarrow> scheduler \<Rightarrow> bool" where
  "can_move_back back now sd \<longleftrightarrow>
     (sd_had_anomaly sd \<longrightarrow> back \<le> sd_last_anomaly_ns sd) \<and>
     (sd_had_clients sd \<longrightarrow> back \<le> sd_last_client_active_ns sd) \<and>
     (sd_in_anomaly_run sd \<longrightarrow> back \<le> sd_anomaly_run_start_ns sd) \<and>
     (\<forall>i < 20. sd_requested sd ! i \<longrightarrow>
        (if on_new_clock now (sd_requested_made_ns sd ! i) then unat (sd_requested_until_ns sd ! i) + unat back < two64
         else back \<le> sd_requested_until_ns sd ! i))"

text \<open>The same scheduler, with the deadlines of the requests on the new clock \<open>back\<close> later: on the old clock that is when they end.\<close>

definition ends_on_old_clock :: "u64 \<Rightarrow> u64 \<Rightarrow> scheduler \<Rightarrow> scheduler" where
  "ends_on_old_clock back now sd = sd\<lparr>sd_requested_until_ns :=
     map (\<lambda>(made, t). if on_new_clock now made then t + back else t) (zip (sd_requested_made_ns sd) (sd_requested_until_ns sd))\<rparr>"

lemma moved_back: "back \<le> t \<Longrightarrow> moved back (move_back back t) t"
proof -
  assume le: "back \<le> t"
  then have "move_back back t = t - back" by (auto simp: move_back_def)
  then show ?thesis using le unat_lt_two64 [of t] by (simp add: moved_def unat_sub word_le_nat_alt)
qed

lemma back_shifted:
  assumes ok: "sched_ok sd" and now: "now < sd_last_tick_ns sd" and live: "can_move_back (sd_last_tick_ns sd - now) now sd"
  shows "shifted (sd_last_tick_ns sd - now) ((tick_step_back sd now)\<lparr>sd_last_tick_ns := now\<rparr>) (ends_on_old_clock (sd_last_tick_ns sd - now) now sd)"
proof -
  let ?b = "sd_last_tick_ns sd - now"
  have last: "sd_last_tick_ns sd \<noteq> 0" using now by auto
  have "now = sd_last_tick_ns sd - ?b" "?b \<le> sd_last_tick_ns sd" using now by (simp_all add: word_sub_le)
  then have tick: "moved ?b now (sd_last_tick_ns sd)" using now unat_lt_two64 [of "sd_last_tick_ns sd"]
    by (simp add: moved_def unat_sub less_imp_le word_less_nat_alt)
  have until: "moved ?b (sd_requested_until_ns (tick_step_back sd now) ! i) (sd_requested_until_ns (ends_on_old_clock ?b now sd) ! i)"
    if i: "i < 20" "sd_requested sd ! i" for i
  proof (cases "on_new_clock now (sd_requested_made_ns sd ! i)")
    case True
    then show ?thesis using i ok live now last
      by (auto simp: tick_step_back_def ends_on_old_clock_def Let_def can_move_back_def sched_ok_def2 move_if_def moved_def)
  next
    case False
    then have "?b \<le> sd_requested_until_ns sd ! i" using live i by (auto simp: can_move_back_def split: if_splits)
    then show ?thesis using False i ok now last moved_back
      by (auto simp: tick_step_back_def ends_on_old_clock_def Let_def sched_ok_def2 move_if_def)
  qed
  show ?thesis
    using until tick live now last moved_back
    by (simp add: shifted_def can_move_back_def) (simp add: ends_on_old_clock_def tick_step_back_def Let_def move_if_def)
qed

lemma tick_after_step_back:
  "s_timestamp_nanos s = now \<Longrightarrow> tick sd s = tick ((tick_step_back sd now)\<lparr>sd_last_tick_ns := now\<rparr>) s"
proof -
  assume n: "s_timestamp_nanos s = now"
  have "tick_step_back ((tick_step_back sd now)\<lparr>sd_last_tick_ns := now\<rparr>) now = (tick_step_back sd now)\<lparr>sd_last_tick_ns := now\<rparr>"
    by (simp add: tick_step_back_def [of "_ \<lparr>sd_last_tick_ns := now\<rparr>"])
  then show ?thesis using n by (simp add: tick_def Let_def)
qed

abbreviation earlier :: "u64 \<Rightarrow> sample \<Rightarrow> sample" where
  "earlier by_ns s \<equiv> s\<lparr>s_timestamp_nanos := s_timestamp_nanos s - by_ns\<rparr>"

lemma run_back:
  assumes inv: "sched_inv sd" and now: "now < sd_last_tick_ns sd" and live: "can_move_back (sd_last_tick_ns sd - now) now sd"
    and first: "s_timestamp_nanos s = sd_last_tick_ns sd" and srt: "sorted (map s_timestamp_nanos (s # ss))"
  shows "run_levels sd (map (earlier (sd_last_tick_ns sd - now)) (s # ss)) =
    run_levels (ends_on_old_clock (sd_last_tick_ns sd - now) now sd) (s # ss)"
proof -
  let ?b = "sd_last_tick_ns sd - now" and ?x = "(tick_step_back sd now)\<lparr>sd_last_tick_ns := now\<rparr>"
  let ?ss = "map (earlier (sd_last_tick_ns sd - now)) (s # ss)"
  have ok: "sched_ok sd" using inv by (simp add: sched_inv_def)
  have len: "length (sd_requested_until_ns (tick_step_back sd now)) = 20"
    using ok by (simp add: sched_ok_def2 tick_step_back_def Let_def)
  then have xinv: "sched_inv ?x" using inv by (simp add: sched_inv_def sched_ok_def2)
  have b: "?b \<le> sd_last_tick_ns sd" "sd_last_tick_ns sd - ?b = now" using now by (simp_all add: word_sub_le)
  have ge: "?b \<le> s_timestamp_nanos t" if "t \<in> set (s # ss)" for t
    using that srt first b(1) by auto
  have mono: "sorted (now # map s_timestamp_nanos ?ss)"
  proof -
    have "sorted (map (\<lambda>t. t - ?b) (map s_timestamp_nanos (s # ss)))"
      using srt ge by (intro sorted_map_mono) (auto simp: mono_on_def word_le_nat_alt unat_sub)
    then show ?thesis using first b(2) by (auto simp: comp_def)
  qed
  have "map (later ?b) ?ss = s # ss" by (simp add: comp_def)
  moreover have "\<forall>t \<in> set ?ss. unat (s_timestamp_nanos t) + unat ?b < two64"
    using ge unat_lt_two64 by (auto simp: unat_sub word_le_nat_alt)
  ultimately have "run_levels (ends_on_old_clock ?b now sd) (s # ss) = run_levels ?x ?ss"
    using run_shifted [OF back_shifted [OF ok now live] xinv, of ?ss] mono by simp
  moreover have "run_levels ?x ?ss = run_levels sd ?ss"
    using tick_after_step_back [of "earlier ?b s" now sd] first b(2) by simp
  ultimately show ?thesis by simp
qed

section \<open>A sustained anomaly\<close>

text \<open>Some reading of the sample is above its threshold, whatever the others say.\<close>

definition over_threshold :: "scheduler_config \<Rightarrow> sample \<Rightarrow> bool" where
  "over_threshold cfg s \<longleftrightarrow>
     (has_group (s_groups s) kGroupLoad \<and> (f64_less (sc_escalation_load_1m cfg) (load_avg_1m (s_load s)) \<or>
        f64_less (sc_critical_load_1m cfg) (load_avg_1m (s_load s)))) \<or>
     (has_group (s_groups s) kGroupCpu \<and> (f64_less (sc_escalation_cpu_percent cfg) (cpu_total_percent (s_cpu s)) \<or>
        f64_less (sc_critical_cpu_percent cfg) (cpu_total_percent (s_cpu s)))) \<or>
     (has_group (s_groups s) kGroupSwap \<and> (f64_less (sc_escalation_swap_percent cfg) (swap_used_percent (s_swap s)) \<or>
        f64_less (sc_critical_swap_percent cfg) (swap_used_percent (s_swap s))))"

lemma check_over_threshold: "over_threshold (sd_cfg sd) s \<Longrightarrow> check_anomaly sd s \<noteq> NORMAL"
  unfolding over_threshold_def check_anomaly_def Let_def by (elim disjE conjE) simp_all

lemma tick_over_threshold:
  assumes over: "over_threshold (sd_cfg sd) s" and mode: "sc_mode (sd_cfg sd) \<noteq> OnDemand"
    and le: "sd_last_tick_ns sd \<le> s_timestamp_nanos s" and esc: "0 < seconds_ns (sc_escalate_after_sec (sd_cfg sd))"
    and t0: "t0 = (if sd_in_anomaly_run sd then sd_anomaly_run_start_ns sd else s_timestamp_nanos s)"
  shows "sd_in_anomaly_run (before_select sd s) \<and> sd_anomaly_run_start_ns (before_select sd s) = t0 \<and>
    sd_anomaly (before_select sd s) \<noteq> NORMAL \<and>
    (seconds_ns (sc_escalate_after_sec (sd_cfg sd)) \<le> s_timestamp_nanos s - t0 \<longrightarrow> sd_escalated (before_select sd s))"
proof -
  let ?now = "s_timestamp_nanos s"
  define x where "x = sd\<lparr>sd_last_tick_ns := ?now, sd_anomaly := check_anomaly (sd\<lparr>sd_last_tick_ns := ?now\<rparr>) s\<rparr>"
  have "tick_step_back sd ?now = sd" using le by (auto simp: tick_step_back_def)
  then have bs: "before_select sd s = tick_clients (tick_escalation_end (tick_anomaly x ?now) ?now) ?now"
    by (simp add: before_select_def Let_def x_def)
  have an: "sd_anomaly x \<noteq> NORMAL" using check_over_threshold [of "sd\<lparr>sd_last_tick_ns := ?now\<rparr>" s] over by (simp add: x_def)
  then have "tick_escalation_end (tick_anomaly x ?now) ?now = tick_anomaly x ?now" by (simp add: tick_escalation_end_def Let_def)
  moreover have "sd_in_anomaly_run (tick_anomaly x ?now)" "sd_anomaly_run_start_ns (tick_anomaly x ?now) = t0"
    "seconds_ns (sc_escalate_after_sec (sd_cfg sd)) \<le> ?now - t0 \<Longrightarrow> sd_escalated (tick_anomaly x ?now)"
    using an mode t0 esc by (cases "sd_in_anomaly_run sd"; simp add: tick_anomaly_def Let_def x_def)+
  ultimately show ?thesis using an by (simp add: bs)
qed

lemma l3_priority:
  assumes "sched_ok sd" and "wants_l3 sd now"
  shows "kPriorityL3 \<le> level_priority sd (select_level sd now)"
  using select_best [OF assms(1), of now] assms(2) by (auto simp: active_def beats_def level_priority_def [of sd L3])

lemma run_over_threshold:
  assumes "ss \<noteq> []" and "\<forall>s \<in> set ss. over_threshold (sd_cfg sd) s" and "sc_mode (sd_cfg sd) \<noteq> OnDemand" and "sched_inv sd"
    and "sorted (sd_last_tick_ns sd # map s_timestamp_nanos ss)" and "0 < seconds_ns (sc_escalate_after_sec (sd_cfg sd))"
    and "t0 = (if sd_in_anomaly_run sd then sd_anomaly_run_start_ns sd else s_timestamp_nanos (hd ss))"
    and "seconds_ns (sc_escalate_after_sec (sd_cfg sd)) \<le> s_timestamp_nanos (last ss) - t0"
  shows "sd_escalated (run_state sd ss) \<and> kPriorityL3 \<le> level_priority sd (last (run_levels sd ss))"
  using assms
proof (induction ss arbitrary: sd)
  case (Cons s ss)
  have "t0 = (if sd_in_anomaly_run sd then sd_anomaly_run_start_ns sd else s_timestamp_nanos s)" using Cons.prems(7) by simp
  from tick_over_threshold [OF _ _ _ _ this]
  have step: "sd_in_anomaly_run (before_select sd s)" "sd_anomaly_run_start_ns (before_select sd s) = t0"
    "sd_anomaly (before_select sd s) \<noteq> NORMAL"
    "seconds_ns (sc_escalate_after_sec (sd_cfg sd)) \<le> s_timestamp_nanos s - t0 \<Longrightarrow> sd_escalated (before_select sd s)"
    using Cons.prems by simp_all
  have pr: "level_priority (snd (tick sd s)) lv = level_priority sd lv" "level_priority (before_select sd s) lv = level_priority sd lv" for lv
    by (simp_all add: tick_eq level_priority_def find_custom_def)
  have inv: "sched_inv (before_select sd s)" by (rule before_select_inv) (rule Cons.prems)
  show ?case
  proof (cases "ss = []")
    case True
    then have "sd_escalated (before_select sd s)" "sd_anomaly (before_select sd s) \<noteq> NORMAL"
      using Cons.prems(8) step(3,4) by simp_all
    then have "kPriorityL3 \<le> level_priority (before_select sd s) (select_level (before_select sd s) (s_timestamp_nanos s))"
      using inv by (intro l3_priority) (auto simp: sched_inv_def wants_l3_def Let_def)
    then show ?thesis using True \<open>sd_escalated (before_select sd s)\<close> by (simp add: tick_eq pr)
  next
    case False
    have tick: "sd_cfg (snd (tick sd s)) = sd_cfg sd" "sched_inv (snd (tick sd s))" "sd_last_tick_ns (snd (tick sd s)) = s_timestamp_nanos s"
      "sd_in_anomaly_run (snd (tick sd s))" "sd_anomaly_run_start_ns (snd (tick sd s)) = t0"
      using Cons.prems step inv by (simp_all add: tick_eq)
    have "run_levels (snd (tick sd s)) ss \<noteq> []" using False by (cases ss) auto
    then show ?thesis using Cons.IH [of "snd (tick sd s)"] Cons.prems False tick pr by simp
  qed
qed simp

section \<open>Properties\<close>

definition demo_sched :: scheduler where
  "demo_sched = scheduler_new (scheduler_config_default\<lparr>sc_escalation_load_1m := 0, sc_custom_levels :=
     [\<lparr>cl_id = 4, cl_name = ''burst'', cl_interval_ms = 100, cl_priority = 40, cl_when = '''', cl_hold_sec = 5,
       cl_storage_mb = 50, cl_metrics = metric_set_full\<rparr>]\<rparr>)"

lemma demo_sched_ok: "config_ok (sd_cfg demo_sched)" "sched_reachable (sd_cfg demo_sched) demo_sched" "sched_inv demo_sched"
proof -
  show c: "config_ok (sd_cfg demo_sched)"
    by (simp add: demo_sched_def scheduler_new_def scheduler_config_default_def config_ok_def word_le_nat_alt)
  show "sched_reachable (sd_cfg demo_sched) demo_sched"
    using sched_reachable.start [of "sd_cfg demo_sched"] by (simp add: demo_sched_def scheduler_new_def)
  then show "sched_inv demo_sched" using sched_reachable_inv c by blast
qed

text \<open>C6: In every state the serve loop can bring the scheduler to, the level it selects is one that
  is in force (always L1; L2, L3 or a custom level with a reason), and no level in force has a
  higher priority, or the same priority and a shorter interval.\<close>

theorem selects_best_level:
  assumes "sched_reachable cfg sd" and "config_ok cfg"
  shows "active sd now (select_level sd now) \<and> (\<forall>lv. active sd now lv \<longrightarrow> \<not> beats sd lv (select_level sd now))"
  using select_best sched_reachable_inv [OF assms] by (simp add: sched_inv_def)

theorem selects_best_level_witness:
  "active demo_sched 5 (select_level demo_sched 5) \<and> \<not> (active demo_sched 5 L3 \<and> beats demo_sched L3 (select_level demo_sched 5))"
  using selects_best_level [OF demo_sched_ok(2,1)] by blast

text \<open>A state with a client and a request, and its instants.\<close>

definition demo_sched2 :: scheduler where
  "demo_sched2 = demo_sched\<lparr>sd_client_count := 1, sd_had_clients := True, sd_last_client_active_ns := 100,
     sd_requested := (replicate 20 False)[3 := True], sd_requested_until_ns := (replicate 20 0)[3 := 500],
     sd_requested_made_ns := (replicate 20 0)[3 := 100], sd_last_tick_ns := 100\<rparr>"

lemma demo_sched2_eq:
  "sd_last_tick_ns demo_sched2 = 100" "sd_had_anomaly demo_sched2 = False" "sd_in_anomaly_run demo_sched2 = False"
  "sd_last_client_active_ns demo_sched2 = 100" "sd_requested demo_sched2 = (replicate 20 False)[3 := True]"
  "sd_requested_until_ns demo_sched2 = (replicate 20 0)[3 := 500]" "sd_requested_made_ns demo_sched2 = (replicate 20 0)[3 := 100]"
  "sd_cfg demo_sched2 = sd_cfg demo_sched"
  by (simp_all add: demo_sched2_def demo_sched_def scheduler_new_def)

lemma demo_sched2_inv: "sched_inv demo_sched2" "can_move_back 40 60 demo_sched2" "can_move 40 demo_sched2"
proof -
  show "sched_inv demo_sched2" using demo_sched_ok(3) by (simp add: sched_inv_def sched_ok_def2 demo_sched2_def)
  show "can_move_back 40 60 demo_sched2" "can_move 40 demo_sched2"
    by (auto simp: can_move_back_def can_move_def demo_sched2_eq nth_list_update word_le_nat_alt word_less_nat_alt split: if_splits)
qed

text \<open>A wall clock that steps forward does not change what is collected: with
  \<open>clock_stepped_forward\<close> called for the step, the levels of all later ticks, stamped by the new
  clock, are the levels the same samples would have got without it.\<close>

theorem clock_forward_invisible:
  assumes "sched_inv sd" and "can_move by_ns sd" and "sorted (sd_last_tick_ns sd # map s_timestamp_nanos ss)"
    and "\<forall>s \<in> set ss. unat (s_timestamp_nanos s) + unat by_ns < two64"
  shows "run_levels (clock_stepped_forward sd by_ns) (map (later by_ns) ss) = run_levels sd ss"
  using run_shifted [OF forward_shifted assms(1,4,3)] assms(1,2) by (simp add: sched_inv_def)

theorem clock_forward_invisible_witness:
  "run_levels (clock_stepped_forward demo_sched2 40) [sample_zero\<lparr>s_timestamp_nanos := 340\<rparr>]
     = run_levels demo_sched2 [sample_zero\<lparr>s_timestamp_nanos := 300\<rparr>]"
  using clock_forward_invisible [OF demo_sched2_inv(1,3), of "[sample_zero\<lparr>s_timestamp_nanos := 300\<rparr>]"]
  by (simp add: demo_sched2_eq word_le_nat_alt)


text \<open>A state with a request on each side of a step back from 100 to 60.\<close>

definition demo_sched3 :: scheduler where
  "demo_sched3 = demo_sched2\<lparr>sd_requested := (replicate 20 False)[3 := True, 2 := True],
     sd_requested_until_ns := (replicate 20 0)[3 := 500, 2 := 480], sd_requested_made_ns := (replicate 20 0)[3 := 100, 2 := 20]\<rparr>"

lemma demo_sched3_inv: "sched_inv demo_sched3" "can_move_back 40 60 demo_sched3" "sd_last_tick_ns demo_sched3 = 100"
proof -
  show "sched_inv demo_sched3" using demo_sched2_inv(1) by (simp add: sched_inv_def sched_ok_def2 demo_sched3_def)
  show "can_move_back 40 60 demo_sched3" "sd_last_tick_ns demo_sched3 = 100"
    by (auto simp: can_move_back_def demo_sched3_def demo_sched2_eq nth_list_update word_le_nat_alt word_less_nat_alt split: if_splits)
qed


text \<open>C16: Outside on-demand mode, an anomaly that is there on every tick for at least
  \<open>escalate_after\<close> (when that is not 0) escalates, and the level of that tick has at least the
  priority of L3.\<close>

theorem sustained_anomaly_escalates:
  assumes "sched_reachable cfg sd" and "config_ok cfg" and "sc_mode cfg \<noteq> OnDemand" and "\<not> sd_in_anomaly_run sd"
    and "ss \<noteq> []" and "\<forall>s \<in> set ss. over_threshold cfg s" and "sorted (sd_last_tick_ns sd # map s_timestamp_nanos ss)"
    and "0 < seconds_ns (sc_escalate_after_sec cfg)"
    and "seconds_ns (sc_escalate_after_sec cfg) \<le> s_timestamp_nanos (last ss) - s_timestamp_nanos (hd ss)"
  shows "sd_escalated (run_state sd ss) \<and> kPriorityL3 \<le> level_priority sd (last (run_levels sd ss))"
proof -
  have "sched_inv sd" "sd_cfg sd = cfg" using sched_reachable_inv [OF assms(1,2)] by blast+
  then show ?thesis using run_over_threshold [OF assms(5), of sd] assms(3-9) by simp
qed

definition demo_hot :: "u64 \<Rightarrow> sample" where
  "demo_hot t = sample_zero\<lparr>s_timestamp_nanos := t, s_groups := kGroupLoad, s_load := load_zero\<lparr>load_avg_1m := f64_one\<rparr>\<rparr>"

theorem sustained_anomaly_escalates_witness:
  "sd_escalated (run_state demo_sched [demo_hot 1000000000, demo_hot 301000000000]) \<and>
   30 \<le> level_priority demo_sched (last (run_levels demo_sched [demo_hot 1000000000, demo_hot 301000000000]))"
proof (rule sustained_anomaly_escalates [OF demo_sched_ok(2,1)])
  have "f64_less 0 f64_one" by (simp add: f64_less_def f64_key_def f64_one_def f64_nan_def f64_mag_def f64_sign_def f64_exp_def f64_frac_def)
  then show "\<forall>s \<in> set [demo_hot 1000000000, demo_hot 301000000000]. over_threshold (sd_cfg demo_sched) s"
    by (simp add: over_threshold_def demo_hot_def demo_sched_def scheduler_new_def has_group_def)
qed (simp_all add: demo_sched_def scheduler_new_def scheduler_config_default_def demo_hot_def seconds_ns_def word_le_nat_alt)

text \<open>In on-demand mode thresholds raise nothing: in any reachable state a tick gives L2 only to
  a request for it, and L3 only to a client, the grace after one, or a request.\<close>

theorem on_demand_quiet:
  assumes "sched_reachable cfg sd" and "config_ok cfg" and "sc_mode cfg = OnDemand" and "tick sd s = (lv, sd')"
  shows "(lv = L2 \<longrightarrow> requested sd' (s_timestamp_nanos s) L2) \<and>
    (lv = L3 \<longrightarrow> 0 < sd_client_count sd' \<or> requested sd' (s_timestamp_nanos s) L3 \<or>
       (sd_had_clients sd' \<and> s_timestamp_nanos s - sd_last_client_active_ns sd' < seconds_ns (sc_grace_period_sec cfg)))"
proof -
  let ?x = "before_select sd s" and ?now = "s_timestamp_nanos s"
  have x: "sched_inv ?x" "sd_cfg ?x = cfg"
    using sched_reachable_inv [OF assms(1,2)] before_select_inv by simp_all
  have sd': "sd' = ?x\<lparr>sd_level := lv\<rparr>" "lv = select_level ?x ?now" using assms(4) by (auto simp: tick_eq)
  have "active ?x ?now lv" using select_best [of ?x ?now] x sd'(2) by (simp add: sched_inv_def)
  moreover have "\<not> sd_had_anomaly ?x" "\<not> sd_escalated ?x" using x assms(3) by (auto simp: sched_inv_def)
  moreover have "2 \<notin> cl_id ` set (sc_custom_levels cfg)" "3 \<notin> cl_id ` set (sc_custom_levels cfg)"
    using assms(2) by (auto simp: config_ok_def word_le_nat_alt)
  ultimately show ?thesis
    using x assms(3) by (auto simp: sd'(1) active_def wants_l2_def wants_l3_def Let_def)
qed

theorem on_demand_quiet_witness:
  "fst (tick (scheduler_new (scheduler_config_default\<lparr>sc_mode := OnDemand\<rparr>)) (demo_hot 5)) \<noteq> L2"
  using on_demand_quiet [OF sched_reachable.start, of "scheduler_config_default\<lparr>sc_mode := OnDemand\<rparr>" "demo_hot 5"]
  by (simp add: tick_eq config_ok_def scheduler_config_default_def)
    (simp add: requested_def scheduler_new_def)

text \<open>A request holds its level through its deadline and never shortens an earlier one, unless
  that one was made on a clock since stepped back; no other level's request changes.\<close>

theorem request_extends:
  assumes "sched_ok sd" and "1 \<le> lv" and "lv \<le> L3 \<or> find_custom sd lv \<noteq> None"
  shows "(requested (request sd lv until_ns made_at_ns) now lv \<longleftrightarrow>
      now \<le> until_ns \<or> (requested sd now lv \<and> \<not> (made_at_ns \<noteq> 0 \<and> made_at_ns < sd_requested_made_ns sd ! unat lv))) \<and>
    (\<forall>lv'. lv' \<noteq> lv \<longrightarrow> requested (request sd lv until_ns made_at_ns) now lv' = requested sd now lv')"
proof -
  have "lv \<le> kMaxLevelId" "unat lv < 20"
  proof -
    have "unat lv < 20 \<and> lv \<le> kMaxLevelId" if "find_custom sd lv \<noteq> None"
    proof -
      from that obtain c where "c \<in> set (sc_custom_levels (sd_cfg sd))" "cl_id c = lv"
        unfolding find_custom_def using find_level_SomeD by blast
      then show ?thesis using assms(1) by (auto simp: sched_ok_def word_le_nat_alt)
    qed
    then show "lv \<le> kMaxLevelId" "unat lv < 20" using assms(3) by (auto simp: word_le_nat_alt)
  qed
  then have c1: "\<not> (lv < 1 \<or> kMaxLevelId < lv)" using assms(2) by (simp only: not_less de_Morgan_disj)
  have c2: "\<not> (kFirstCustomLevel \<le> lv \<and> find_custom sd lv = None)" using assms(3) by (auto simp: word_le_nat_alt)
  have eq: "request sd lv until_ns made_at_ns =
      (if sd_requested sd ! unat lv \<and> \<not> (made_at_ns \<noteq> 0 \<and> made_at_ns < sd_requested_made_ns sd ! unat lv) \<and>
          until_ns \<le> sd_requested_until_ns sd ! unat lv then sd
       else sd\<lparr>sd_requested := (sd_requested sd)[unat lv := True], sd_requested_until_ns := (sd_requested_until_ns sd)[unat lv := until_ns],
              sd_requested_made_ns := (sd_requested_made_ns sd)[unat lv := made_at_ns]\<rparr>)"
    unfolding request_def Let_def if_not_P [OF c1] if_not_P [OF c2] by (rule refl)
  show ?thesis
    using \<open>unat lv < 20\<close> assms(1) unfolding eq by (auto simp: requested_def sched_ok_def nth_list_update word_unat_eq_iff)
qed

theorem request_extends_witness:
  "requested (request demo_sched2 L3 450 100) 500 L3 \<and> requested (request demo_sched2 4 600 100) 550 4"
  using request_extends [of demo_sched2 L3 450 100 500] request_extends [of demo_sched2 4 600 100 550] demo_sched2_inv(1)
  by (simp add: sched_inv_def demo_sched2_eq requested_def word_le_nat_alt find_custom_def)
    (simp add: demo_sched_def scheduler_new_def)

text \<open>After a step back a request keeps the stamp it was made at on the old clock, while its deadline moved: any later request of that level, stamped by
  the new clock before the old stamp is reached again, counts it as stale and, with an earlier deadline, cuts it short.\<close>

lemma step_back_request_cut_short:
  assumes ok: "sched_ok sd" and lv: "1 \<le> lv" "lv \<le> L3 \<or> find_custom sd lv \<noteq> None" "unat lv < 20" and held: "sd_requested sd ! unat lv"
    and stepped: "now < sd_last_tick_ns sd" and made: "now < sd_requested_made_ns sd ! unat lv" "m \<noteq> 0" "m < sd_requested_made_ns sd ! unat lv"
    and until: "until_ns < t" "t = move_back (sd_last_tick_ns sd - now) (sd_requested_until_ns sd ! unat lv)"
  shows "requested (tick_step_back sd now) t lv \<and> \<not> requested (request (tick_step_back sd now) lv until_ns m) t lv"
proof -
  let ?x = "tick_step_back sd now"
  have "sd_last_tick_ns sd \<noteq> 0" using stepped by auto
  then have t: "sd_requested_until_ns ?x ! unat lv = t"
    using ok lv(3) held stepped made(1) until(2) by (auto simp: tick_step_back_def Let_def sched_ok_def2 move_if_def)
  moreover have "length (sd_requested_until_ns ?x) = 20" using ok by (simp add: sched_ok_def2 tick_step_back_def Let_def)
  then have "sched_ok ?x" using ok by (simp add: sched_ok_def2)
  from request_extends [OF this lv(1), of until_ns m t] have
    "requested (request ?x lv until_ns m) t lv \<longleftrightarrow> t \<le> until_ns \<or> (requested ?x t lv \<and> \<not> (m \<noteq> 0 \<and> m < sd_requested_made_ns ?x ! unat lv))"
    using lv(2) by (simp add: find_custom_def)
  ultimately show ?thesis using made(2,3) until(1) held by (auto simp: requested_def not_less)
qed

end
