(* ===== verification/Hot_Buffer.thy ===== *)
theory Hot_Buffer
  imports Sample
begin

text \<open>
  The in-memory buffer of the newest samples (\<open>src/hot_buffer/hot_buffer.h\<close>,
  \<open>src/hot_buffer/hot_buffer.cpp\<close>), the warm grace that empties it once nobody watches, and the
  pacing helper \<open>sleep_left_ms\<close> (\<open>src/core/clock.h\<close>). Slot numbers are natural numbers: an array of
  samples is far smaller than half the address space, so the sums of slot numbers in the code
  never wrap. Stamps are 64-bit words. Proved: the buffer is a bounded log (the interface of the
  prelude, shared with the ring file), both dumps return its newest entries oldest first, and the
  warm grace empties it exactly once per idle spell, when its sleep cap says it will.
\<close>

section \<open>The buffer\<close>

record hot_buffer =
  hb_ring :: "sample list"
  hb_capacity :: nat
  hb_head :: nat
  hb_count :: nat

definition hot_buffer_new :: "nat \<Rightarrow> hot_buffer" where
  "hot_buffer_new capacity =
     (let capacity = (if capacity > 0 then capacity else 1)
      in \<lparr>hb_ring = replicate capacity sample_zero, hb_capacity = capacity, hb_head = 0, hb_count = 0\<rparr>)"

definition hb_push :: "hot_buffer \<Rightarrow> sample \<Rightarrow> hot_buffer" where
  "hb_push b s =
     (let b = b\<lparr>hb_ring := (hb_ring b)[hb_head b := s]\<rparr>;
          b = b\<lparr>hb_head := (hb_head b + 1) mod hb_capacity b\<rparr>
      in if hb_count b < hb_capacity b then b\<lparr>hb_count := hb_count b + 1\<rparr> else b)"

text \<open>The copy loop of both dumps: \<open>n\<close> samples from slot \<open>start\<close> on. \<open>None\<close> is a null pointer.\<close>

fun hb_copy :: "hot_buffer \<Rightarrow> nat \<Rightarrow> nat \<Rightarrow> nat \<Rightarrow> sample list \<Rightarrow> sample list" where
  "hb_copy b start i 0 out = out"
| "hb_copy b start i (Suc n) out =
     hb_copy b start (Suc i) n (out[i := hb_ring b ! ((start + i) mod hb_capacity b)])"

definition hb_dump :: "hot_buffer \<Rightarrow> sample list option \<Rightarrow> nat \<Rightarrow> nat \<times> sample list option" where
  "hb_dump b out out_cap =
     (case out of None \<Rightarrow> (0, None)
      | Some o' \<Rightarrow>
          if out_cap = 0 \<or> hb_count b = 0 then (0, Some o')
          else let n = (if hb_count b < out_cap then hb_count b else out_cap);
                   start = (hb_head b + hb_capacity b - hb_count b) mod hb_capacity b
               in (n, Some (hb_copy b start 0 n o')))"

definition hb_dump_last :: "hot_buffer \<Rightarrow> sample list option \<Rightarrow> nat \<Rightarrow> nat \<times> sample list option" where
  "hb_dump_last b out n =
     (case out of None \<Rightarrow> (0, None)
      | Some o' \<Rightarrow>
          if n = 0 \<or> hb_count b = 0 then (0, Some o')
          else let n = (if n > hb_count b then hb_count b else n);
                   start = (hb_head b + hb_capacity b - n) mod hb_capacity b
               in (n, Some (hb_copy b start 0 n o')))"

definition hb_reset :: "hot_buffer \<Rightarrow> hot_buffer" where
  "hb_reset b = b\<lparr>hb_head := 0, hb_count := 0\<rparr>"

definition hb_size :: "hot_buffer \<Rightarrow> nat" where
  "hb_size b = hb_count b"

section \<open>The warm grace\<close>

record warm_grace =
  wg_grace_ns :: u64
  wg_last_client_ns :: u64
  wg_pending :: bool
  wg_connected :: bool

definition warm_grace_new :: "u64 \<Rightarrow> warm_grace" where
  "warm_grace_new grace_ns = \<lparr>wg_grace_ns = grace_ns, wg_last_client_ns = 0, wg_pending = False, wg_connected = False\<rparr>"

definition should_reset :: "warm_grace \<Rightarrow> int \<Rightarrow> u64 \<Rightarrow> bool \<Rightarrow> bool \<times> warm_grace" where
  "should_reset w clients now_ns fast =
     (let w = w\<lparr>wg_connected := clients > 0\<rparr>
      in if wg_connected w \<or> fast then (False, w\<lparr>wg_last_client_ns := now_ns, wg_pending := True\<rparr>)
         else if \<not> wg_pending w then (False, w)
         else if now_ns < wg_last_client_ns w then (False, w\<lparr>wg_last_client_ns := now_ns\<rparr>)
         else if now_ns - wg_last_client_ns w < wg_grace_ns w then (False, w)
         else (True, w\<lparr>wg_pending := False\<rparr>))"

definition UINT64_MAX :: u64 where
  "UINT64_MAX = -1"

definition ns_until_due :: "warm_grace \<Rightarrow> u64 \<Rightarrow> u64" where
  "ns_until_due w now_ns =
     (if \<not> wg_pending w \<or> wg_connected w then UINT64_MAX
      else if now_ns < wg_last_client_ns w then wg_grace_ns w
      else let idle = now_ns - wg_last_client_ns w
           in if idle \<ge> wg_grace_ns w then 0 else wg_grace_ns w - idle)"

definition cap_sleep_ms :: "warm_grace \<Rightarrow> int \<Rightarrow> u64 \<Rightarrow> int \<Rightarrow> int" where
  "cap_sleep_ms w sleep_ms now_ns floor_ms =
     (let due_ns = ns_until_due w now_ns
      in if due_ns = UINT64_MAX then sleep_ms
         else let due_ms = due_ns div 1000000 + 1;
                  due_ms = (if floor_ms > 0 \<and> due_ms < word_of_int floor_ms then word_of_int floor_ms else due_ms)
              in if sleep_ms > 0 \<and> due_ms < word_of_int sleep_ms then uint due_ms else sleep_ms)"

definition sleep_left_ms :: "int \<Rightarrow> u64 \<Rightarrow> int" where
  "sleep_left_ms interval_ms elapsed_ns =
     (if interval_ms \<le> 0 then 0
      else let elapsed_ms = elapsed_ns div 1000000
           in if elapsed_ms \<ge> word_of_int interval_ms then 0 else interval_ms - uint elapsed_ms)"

section \<open>The buffer as a bounded log\<close>

text \<open>After \<open>w\<close> pushes since the last reset.\<close>

definition hb_ok :: "hot_buffer \<Rightarrow> bool" where
  "hb_ok b \<longleftrightarrow> 0 < hb_capacity b \<and> length (hb_ring b) = hb_capacity b \<and>
     hb_count b \<le> hb_capacity b \<and> hb_head b < hb_capacity b \<and>
     (hb_count b < hb_capacity b \<longrightarrow> hb_head b = hb_count b)"

text \<open>What the buffer holds, oldest first.\<close>

definition hb_entries :: "hot_buffer \<Rightarrow> sample list" where
  "hb_entries b = map (\<lambda>i. hb_ring b ! ((hb_head b + hb_capacity b - hb_count b + i) mod hb_capacity b)) [0..<hb_count b]"

text \<open>A writer index with this head and count: the number of pushes, up to whole turns.\<close>

definition hb_w :: "hot_buffer \<Rightarrow> nat" where
  "hb_w b = (if hb_count b < hb_capacity b then hb_count b else hb_head b + hb_capacity b)"

lemma hb_w_mod: "hb_ok b \<Longrightarrow> hb_w b mod hb_capacity b = hb_head b"
  by (auto simp: hb_ok_def hb_w_def)

lemma hb_entries_live:
  assumes "hb_ok b"
  shows "hb_entries b = map (\<lambda>i. hb_ring b ! (i mod hb_capacity b)) (live (hb_capacity b) (hb_w b))"
proof -
  have "live (hb_capacity b) (hb_w b) = map (\<lambda>i. hb_w b - hb_count b + i) [0..<hb_count b]"
    using assms by (auto simp: live_def hb_w_def hb_ok_def map_add_upt min_def add.commute intro!: nth_equalityI)
  moreover have "(hb_w b - hb_count b + i) mod hb_capacity b = (hb_head b + hb_capacity b - hb_count b + i) mod hb_capacity b" for i
  proof (cases "hb_count b < hb_capacity b")
    case True
    then show ?thesis using assms by (simp add: hb_w_def hb_ok_def add.commute)
  next
    case False
    then show ?thesis using assms by (simp add: hb_w_def hb_ok_def)
  qed
  ultimately show ?thesis by (simp add: hb_entries_def)
qed

lemma hb_push_eq:
  assumes "hb_ok b"
  shows "hb_push b s = b\<lparr>hb_ring := (hb_ring b)[hb_w b mod hb_capacity b := s],
    hb_head := (hb_head b + 1) mod hb_capacity b, hb_count := min (hb_capacity b) (Suc (hb_count b))\<rparr>"
  using assms hb_w_mod [OF assms] by (auto simp: hb_push_def Let_def hb_ok_def)

lemma hb_push_ok: "hb_ok b \<Longrightarrow> hb_ok (hb_push b s)"
  by (auto simp: hb_push_eq) (auto simp: hb_ok_def mod_Suc)

lemma hb_entries_push:
  assumes ok: "hb_ok b"
  shows "hb_entries (hb_push b s) = last_n (hb_capacity b) (hb_entries b @ [s])"
proof -
  let ?c = "hb_capacity b"
  have c: "0 < ?c" "length (hb_ring b) = ?c" using ok by (auto simp: hb_ok_def)
  have ring: "hb_ring (hb_push b s) = (hb_ring b)[hb_w b mod ?c := s]" "hb_capacity (hb_push b s) = ?c"
    by (simp_all add: hb_push_eq [OF ok])
  have w: "hb_w (hb_push b s) = Suc (hb_w b) \<or> (Suc (hb_w b) = 2 * ?c \<and> hb_w (hb_push b s) = ?c)"
    using ok by (auto simp: hb_push_eq [OF ok] hb_w_def hb_ok_def mod_Suc min_def)
  have "map (\<lambda>i. r ! (i mod ?c)) (live ?c ?c) = map (\<lambda>i. r ! (i mod ?c)) (live ?c (2 * ?c))" for r :: "sample list"
    using c(1) by (auto simp: live_def intro!: nth_equalityI)
  then have "hb_entries (hb_push b s) = map (\<lambda>i. (hb_ring b)[hb_w b mod ?c := s] ! (i mod ?c)) (live ?c (Suc (hb_w b)))"
    using w hb_entries_live [OF hb_push_ok [OF ok]] by (auto simp: ring)
  then show ?thesis using live_window_push [OF c, of "hb_w b" s] hb_entries_live [OF ok] by simp
qed

interpretation hot_log: bounded_log hb_push hb_entries hb_capacity "\<lambda>_ _. True" hb_ok
proof unfold_locales
  fix b s
  assume ok: "hb_ok b"
  show "hb_ok (hb_push b s)" by (rule hb_push_ok [OF ok])
  show "hb_capacity (hb_push b s) = hb_capacity b" by (simp add: hb_push_eq [OF ok])
  show "0 < hb_capacity b" "length (hb_entries b) \<le> hb_capacity b" using ok by (auto simp: hb_ok_def hb_entries_def)
  show "hb_entries (hb_push b s) = last_n (hb_capacity b) (hb_entries b @ [s])" by (rule hb_entries_push [OF ok])
qed

section \<open>The dumps\<close>

lemma hb_copy_eq:
  "i + n \<le> length out \<Longrightarrow>
   hb_copy b start i n out = take i out @ map (\<lambda>j. hb_ring b ! ((start + j) mod hb_capacity b)) [i..<i + n] @ drop (i + n) out"
proof (induction b start i n out rule: hb_copy.induct)
  case (2 b start i n out)
  then show ?case by (simp add: take_Suc_conv_app_nth upt_rec [of i])
qed simp

lemma hb_dump_eq:
  assumes ok: "hb_ok b" and len: "out_cap \<le> length out"
  shows "hb_dump b (Some out) out_cap
    = (min (hb_count b) out_cap, Some (take out_cap (hb_entries b) @ drop (min (hb_count b) out_cap) out))"
proof -
  let ?n = "min (hb_count b) out_cap" and ?s = "hb_head b + hb_capacity b - hb_count b"
  have "take out_cap (hb_entries b) = map (\<lambda>j. hb_ring b ! ((?s mod hb_capacity b + j) mod hb_capacity b)) [0..<?n]"
    by (auto simp: hb_entries_def mod_add_left_eq intro!: nth_equalityI)
  then show ?thesis
    using len hb_copy_eq [of 0 ?n out b "?s mod hb_capacity b"] by (auto simp: hb_dump_def Let_def min_def hb_entries_def)
qed

lemma hb_dump_last_eq:
  assumes ok: "hb_ok b" and len: "n \<le> length out"
  shows "hb_dump_last b (Some out) n
    = (min n (hb_count b), Some (last_n n (hb_entries b) @ drop (min n (hb_count b)) out))"
proof -
  let ?n = "min n (hb_count b)"
  have entry: "hb_entries b ! (hb_count b - ?n + i) = hb_ring b ! ((hb_head b + hb_capacity b - ?n + i) mod hb_capacity b)" if "i < ?n" for i
  proof -
    have "hb_head b + hb_capacity b - hb_count b + (hb_count b - ?n + i) = hb_head b + hb_capacity b - ?n + i"
      using ok by (auto simp: hb_ok_def min_def)
    moreover have "hb_count b - ?n + i < hb_count b" using that by auto
    ultimately show ?thesis by (simp only: hb_entries_def nth_map_upt diff_zero add_0)
  qed
  have "last_n n (hb_entries b) = map (\<lambda>i. hb_entries b ! (hb_count b - ?n + i)) [0..<?n]"
    by (auto simp: last_n_def hb_entries_def min_def intro!: nth_equalityI)
  also have "\<dots> = map (\<lambda>j. hb_ring b ! (((hb_head b + hb_capacity b - ?n) mod hb_capacity b + j) mod hb_capacity b)) [0..<?n]"
    by (rule map_cong [OF refl]) (simp only: mod_add_left_eq entry set_upt atLeastLessThan_iff)
  finally have "last_n n (hb_entries b)
      = map (\<lambda>j. hb_ring b ! (((hb_head b + hb_capacity b - ?n) mod hb_capacity b + j) mod hb_capacity b)) [0..<?n]" .
  then show ?thesis
    using len hb_copy_eq [of 0 ?n out b "(hb_head b + hb_capacity b - ?n) mod hb_capacity b"]
    by (auto simp: hb_dump_last_def Let_def min_def hb_entries_def)
qed

lemma hb_new_ok: "hb_ok (hot_buffer_new cap)" "hb_entries (hot_buffer_new cap) = []" "hb_capacity (hot_buffer_new cap) = max 1 cap"
  by (auto simp: hb_ok_def hot_buffer_new_def hb_entries_def Let_def)

lemma hb_reset_ok: "hb_ok b \<Longrightarrow> hb_ok (hb_reset b)" "hb_entries (hb_reset b) = []"
  by (auto simp: hb_ok_def hb_reset_def hb_entries_def)

lemma always_admissible [simp]: "admissible (\<lambda>_ _. True) push b xs"
  by (induction xs arbitrary: b) auto

lemma hb_pushed:
  assumes "hb_ok b" and "hb_entries b = []"
  shows "hb_ok (foldl hb_push b xs)" "hb_entries (foldl hb_push b xs) = last_n (hb_capacity b) xs"
    "hb_count (foldl hb_push b xs) = min (hb_capacity b) (length xs)"
proof -
  show ok: "hb_ok (foldl hb_push b xs)" using hot_log.run_inv [OF assms(1)] by simp
  show e: "hb_entries (foldl hb_push b xs) = last_n (hb_capacity b) xs"
    using hot_log.run_entries [OF assms(1)] assms(2) by simp
  have "hb_count (foldl hb_push b xs) = length (hb_entries (foldl hb_push b xs))" by (simp add: hb_entries_def)
  then show "hb_count (foldl hb_push b xs) = min (hb_capacity b) (length xs)" by (simp add: e)
qed

section \<open>Idle spells\<close>

text \<open>Ticks with no client and none of them fast.\<close>

fun idle_ticks :: "warm_grace \<Rightarrow> u64 list \<Rightarrow> bool list" where
  "idle_ticks w [] = []"
| "idle_ticks w (t # ts) = fst (should_reset w 0 t False) # idle_ticks (snd (should_reset w 0 t False)) ts"

lemma idle_not_pending: "\<not> wg_pending w \<Longrightarrow> \<forall>r \<in> set (idle_ticks w ts). \<not> r"
proof (induction ts arbitrary: w)
  case (Cons t ts)
  then have "\<not> fst (should_reset w 0 t False)" "\<not> wg_pending (snd (should_reset w 0 t False))"
    by (simp_all add: should_reset_def Let_def)
  then show ?case using Cons.IH by simp
qed simp

lemma idle_once: "length (filter (\<lambda>r. r) (idle_ticks w ts)) \<le> 1"
proof (induction ts arbitrary: w)
  case (Cons t ts)
  show ?case
  proof (cases "fst (should_reset w 0 t False)")
    case True
    then have "\<not> wg_pending (snd (should_reset w 0 t False))" by (auto simp: should_reset_def Let_def split: if_splits)
    then have "filter (\<lambda>r. r) (idle_ticks (snd (should_reset w 0 t False)) ts) = []"
      using idle_not_pending by (auto simp: filter_empty_conv)
    then show ?thesis using True by simp
  next
    case False
    then show ?thesis using Cons by simp
  qed
qed simp

section \<open>Properties\<close>

text \<open>C39: After any pushes on an empty buffer (new, or just reset), \<open>dump\<close> returns the oldest of
  the samples it keeps and \<open>dump_last\<close> the newest, both oldest first: the buffer keeps the newest
  \<open>capacity\<close> of what was pushed, and entries of the caller's array past the returned count are
  left as they were.\<close>

theorem hot_buffer_keeps_newest:
  assumes "b = hot_buffer_new cap \<or> (b = hb_reset b0 \<and> hb_ok b0)" and "n \<le> length out"
  shows "hb_dump (foldl hb_push b xs) (Some out) n =
      (min (min (hb_capacity b) (length xs)) n,
       Some (take n (last_n (hb_capacity b) xs) @ drop (min (min (hb_capacity b) (length xs)) n) out)) \<and>
    hb_dump_last (foldl hb_push b xs) (Some out) n =
      (min n (min (hb_capacity b) (length xs)),
       Some (last_n (min n (hb_capacity b)) xs @ drop (min n (min (hb_capacity b) (length xs))) out))"
proof -
  have "hb_ok b" "hb_entries b = []" using assms(1) hb_new_ok hb_reset_ok by auto
  note p = hb_pushed [OF this]
  show ?thesis
    using hb_dump_eq [OF p(1) assms(2)] hb_dump_last_eq [OF p(1) assms(2)] p(2,3) by (simp add: last_n_min)
qed

theorem hot_buffer_keeps_newest_witness:
  "hb_dump_last (foldl hb_push (hot_buffer_new 2) [sample_zero\<lparr>s_level := 1\<rparr>, sample_zero\<lparr>s_level := 2\<rparr>, sample_zero\<lparr>s_level := 3\<rparr>])
     (Some [sample_zero]) 1 = (1, Some [sample_zero\<lparr>s_level := 3\<rparr>])"
  using hot_buffer_keeps_newest [of "hot_buffer_new 2" 2 undefined 1 "[sample_zero]"
      "[sample_zero\<lparr>s_level := 1\<rparr>, sample_zero\<lparr>s_level := 2\<rparr>, sample_zero\<lparr>s_level := 3\<rparr>]"]
  by (simp add: hb_new_ok last_n_def)

text \<open>Once a session is over, \<open>should_reset\<close> empties the buffer at the instant \<open>ns_until_due\<close>
  names and at no tick before it, and at most once in any run of idle ticks, whatever their
  stamps.\<close>

theorem warm_grace_exact:
  assumes "wg_pending w" and "\<not> wg_connected w" and "wg_last_client_ns w \<le> now"
    and "unat now + unat (ns_until_due w now) < two64"
  shows "fst (should_reset w 0 (now + ns_until_due w now) False) \<and>
    (\<forall>t. now \<le> t \<and> t < now + ns_until_due w now \<longrightarrow> \<not> fst (should_reset w 0 t False)) \<and>
    (\<forall>ts. length (filter (\<lambda>r. r) (idle_ticks w ts)) \<le> 1)"
proof -
  let ?l = "wg_last_client_ns w" and ?g = "wg_grace_ns w"
  have due: "ns_until_due w now = (if ?g \<le> now - ?l then 0 else ?g - (now - ?l))"
    using assms(1-3) by (auto simp: ns_until_due_def Let_def)
  have sub: "unat (t - ?l) = unat t - unat ?l" if "now \<le> t" for t
    using that assms(3) by (simp add: unat_sub)
  have at: "fst (should_reset w 0 t False) \<longleftrightarrow> ?g \<le> t - ?l" if "now \<le> t" for t
    using assms(1,3) that by (auto simp: should_reset_def Let_def not_less)
  have "unat (now + ns_until_due w now) = unat now + unat (ns_until_due w now)"
    using assms(4) by (simp add: unat_word_ariths)
  moreover have "unat (ns_until_due w now) = unat ?g - (unat now - unat ?l)"
    using due sub [of now] by (auto simp: word_le_nat_alt unat_sub)
  moreover have "unat ?l \<le> unat now" using assms(3) by (simp add: word_le_nat_alt)
  ultimately show ?thesis
    using at sub idle_once by (auto simp: word_le_nat_alt word_less_nat_alt)
qed

theorem warm_grace_exact_witness:
  "fst (should_reset \<lparr>wg_grace_ns = 50, wg_last_client_ns = 10, wg_pending = True, wg_connected = False\<rparr> 0 60 False)"
  using warm_grace_exact [of "\<lparr>wg_grace_ns = 50, wg_last_client_ns = 10, wg_pending = True, wg_connected = False\<rparr>" 20]
  by (simp add: ns_until_due_def Let_def word_le_nat_alt word_less_nat_alt)

end
