(* ===== verification/Table.thy ===== *)
theory Table
  imports Prelude "HOL-Library.List_Lexorder" "HOL-Library.Char_ord"
begin

text \<open>
  Lookup tables. The interface (a locale) is what the clients of \<open>std::map\<close> and
  \<open>std::unordered_map\<close> use: find, assign to a key, erase a key. The provider is an association
  list in key order, as \<open>std::map\<close> iterates (keys are compared as unsigned bytes); for an
  \<open>unordered_map\<close> the order plays no role. Clients' lemmas about many assignments are proved once
  in the locale.
\<close>

section \<open>The interface\<close>

locale table =
  fixes find :: "'t \<Rightarrow> 'k \<Rightarrow> 'v option"
    and put :: "'t \<Rightarrow> 'k \<Rightarrow> 'v \<Rightarrow> 't"
    and erase :: "'t \<Rightarrow> 'k \<Rightarrow> 't"
    and inv :: "'t \<Rightarrow> bool"
  assumes find_put: "inv t \<Longrightarrow> find (put t k v) = (find t)(k \<mapsto> v)"
    and find_erase: "inv t \<Longrightarrow> find (erase t k) = (find t)(k := None)"
    and inv_put: "inv t \<Longrightarrow> inv (put t k v)"
    and inv_erase: "inv t \<Longrightarrow> inv (erase t k)"
begin

lemma inv_puts: "inv t \<Longrightarrow> inv (foldl (\<lambda>t (k, v). put t k v) t kvs)"
  by (induction kvs arbitrary: t) (auto simp: inv_put)

lemma find_puts: "inv t \<Longrightarrow> find (foldl (\<lambda>t (k, v). put t k v) t kvs) = find t ++ map_of (rev kvs)"
proof (induction kvs arbitrary: t)
  case (Cons kv kvs)
  then show ?case by (cases kv) (auto simp: inv_put find_put map_add_def fun_eq_iff split: option.split)
qed simp

end

section \<open>Association lists in key order\<close>

type_synonym ('k, 'v) smap = "('k \<times> 'v) list"

fun smap_put :: "('k::linorder, 'v) smap \<Rightarrow> 'k \<Rightarrow> 'v \<Rightarrow> ('k, 'v) smap" where
  "smap_put [] k v = [(k, v)]"
| "smap_put ((k', v') # t) k v =
     (if k = k' then (k, v) # t else if k < k' then (k, v) # (k', v') # t else (k', v') # smap_put t k v)"

definition smap_erase :: "('k, 'v) smap \<Rightarrow> 'k \<Rightarrow> ('k, 'v) smap" where
  "smap_erase t k = filter (\<lambda>kv. fst kv \<noteq> k) t"

definition smap_ok :: "('k::linorder, 'v) smap \<Rightarrow> bool" where
  "smap_ok t \<longleftrightarrow> sorted_wrt (<) (map fst t)"

lemma smap_keys: "fst ` set (smap_put t k v) = insert k (fst ` set t)"
  by (induction t k v rule: smap_put.induct) auto

lemma smap_ok_put: "smap_ok t \<Longrightarrow> smap_ok (smap_put t k v)"
proof (induction t k v rule: smap_put.induct)
  case (2 k' v' t k v)
  consider "k = k'" | "k < k'" | "k' < k" by (rule linorder_cases [of k k']) auto
  then show ?case
  proof cases
    case 3
    then have "\<forall>x \<in> fst ` set (smap_put t k v). k' < x" using 2 by (auto simp: smap_keys smap_ok_def)
    then show ?thesis using 2 3 by (auto simp: smap_ok_def)
  qed (use 2 in \<open>auto simp: smap_ok_def\<close>)
qed (simp add: smap_ok_def)

lemma smap_find_put: "map_of (smap_put t k v) = (map_of t)(k \<mapsto> v)"
  by (induction t k v rule: smap_put.induct) (auto simp: fun_eq_iff)

lemma smap_find_erase: "map_of (smap_erase t k) = (map_of t)(k := None)"
  by (induction t) (auto simp: smap_erase_def fun_eq_iff)

lemma smap_ok_erase: "smap_ok t \<Longrightarrow> smap_ok (smap_erase t k)"
  by (induction t) (auto simp: smap_ok_def smap_erase_def)

interpretation smap: table map_of smap_put smap_erase smap_ok
  by unfold_locales (simp_all add: smap_find_put smap_find_erase smap_ok_put smap_ok_erase)

text \<open>Two tables in order with the same entries are the same table.\<close>

lemma smap_ok_distinct: "smap_ok t \<Longrightarrow> distinct (map fst t)"
  by (auto simp: smap_ok_def strict_sorted_iff)

lemma smap_ext:
  assumes "smap_ok t" and "smap_ok u" and "map_of t = map_of u"
  shows "t = u"
proof -
  have d: "distinct (map fst t)" "distinct (map fst u)" using assms smap_ok_distinct by blast+
  have "set t = set u" using map_of_inject_set [OF d] assms(3) by blast
  moreover have "sorted (map fst t)" "sorted (map fst u)" using assms by (auto simp: smap_ok_def strict_sorted_iff)
  moreover have "inj_on fst (set t \<union> set u)" using d(1) \<open>set t = set u\<close> by (simp add: distinct_map)
  ultimately show ?thesis using d by (intro map_sorted_distinct_set_unique [of fst]) auto
qed

text \<open>Filling an empty table with the entries of a table gives the table.\<close>

lemma smap_rebuild: "smap_ok t \<Longrightarrow> foldl (\<lambda>t (k, v). smap_put t k v) [] t = t"
proof (rule smap_ext)
  assume ok: "smap_ok t"
  show "smap_ok (foldl (\<lambda>t (k, v). smap_put t k v) [] t)" by (rule smap.inv_puts) (simp add: smap_ok_def)
  show "map_of (foldl (\<lambda>t (k, v). smap_put t k v) [] t) = map_of t"
    using smap.find_puts [of "[]" t] map_of_inject_set [of "rev t" t] smap_ok_distinct [OF ok]
    by (simp add: smap_ok_def rev_map [symmetric])
qed

end
