(* ===== verification/Sha1_Base64.thy ===== *)
theory Sha1_Base64
  imports Endian
begin

text \<open>
  The digest and the text encoding of the WebSocket handshake and of the session fingerprint
  (\<open>src/web/sha1_base64.h\<close>, \<open>src/web/sha1_base64.cpp\<close>). The message schedule and the rounds are
  the code's on 32-bit words, the context keeps its 64-byte buffer. Proved: feeding a message in
  any pieces gives the digest of the padded message processed block by block (the standard's
  definition of SHA-1), and Base64 text decodes to the bytes it was made from.
\<close>

section \<open>SHA-1\<close>

definition rol :: "u32 \<Rightarrow> nat \<Rightarrow> u32" where
  "rol v n = push_bit n v OR drop_bit (32 - n) v"

text \<open>The first 16 words of the schedule are the block, big-endian.\<close>

definition sha1_word :: "byte list \<Rightarrow> nat \<Rightarrow> u32" where
  "sha1_word block i =
     push_bit 24 (ucast (block ! (i * 4))) OR push_bit 16 (ucast (block ! (i * 4 + 1))) OR
     push_bit 8 (ucast (block ! (i * 4 + 2))) OR ucast (block ! (i * 4 + 3))"

fun sha1_extend :: "nat \<Rightarrow> u32 list \<Rightarrow> u32 list" where
  "sha1_extend 0 w = w"
| "sha1_extend (Suc n) w =
     (let i = length w
      in sha1_extend n (w @ [rol (w ! (i - 3) XOR w ! (i - 8) XOR w ! (i - 14) XOR w ! (i - 16)) 1]))"

definition sha1_round :: "u32 list \<Rightarrow> u32 \<times> u32 \<times> u32 \<times> u32 \<times> u32 \<Rightarrow> nat \<Rightarrow> u32 \<times> u32 \<times> u32 \<times> u32 \<times> u32" where
  "sha1_round w = (\<lambda>(a, b, c, d, e) i.
     let (f, k) =
           (if i < 20 then ((b AND c) OR (NOT b AND d), 0x5A827999)
            else if i < 40 then (b XOR c XOR d, 0x6ED9EBA1)
            else if i < 60 then ((b AND c) OR (b AND d) OR (c AND d), 0x8F1BBCDC)
            else (b XOR c XOR d, 0xCA62C1D6));
         t = rol a 5 + f + e + k + w ! i
     in (t, a, rol b 30, c, d))"

definition sha1_block :: "u32 list \<Rightarrow> byte list \<Rightarrow> u32 list" where
  "sha1_block state block =
     (let w = sha1_extend 64 (map (sha1_word block) [0..<16])
      in case foldl (sha1_round w) (state ! 0, state ! 1, state ! 2, state ! 3, state ! 4) [0..<80] of
           (a, b, c, d, e) \<Rightarrow> [state ! 0 + a, state ! 1 + b, state ! 2 + c, state ! 3 + d, state ! 4 + e])"

record sha1_ctx =
  sh_state :: "u32 list"
  sh_bits :: u64
  sh_buf :: "byte list"
  sh_buflen :: nat

definition sha1_h0 :: "u32 list" where
  "sha1_h0 = [0x67452301, 0xEFCDAB89, 0x98BADCFE, 0x10325476, 0xC3D2E1F0]"

text \<open>The buffer is not set by \<open>sha1_init\<close>; its 64 bytes are an argument.\<close>

definition sha1_init :: "byte list \<Rightarrow> sha1_ctx" where
  "sha1_init buf = \<lparr>sh_state = sha1_h0, sh_bits = 0, sh_buf = buf, sh_buflen = 0\<rparr>"

text \<open>The loop over whole blocks: the state and what is left.\<close>

function sha1_blocks :: "u32 list \<Rightarrow> byte list \<Rightarrow> u32 list \<times> byte list" where
  "sha1_blocks state p =
     (if length p \<ge> 64 then sha1_blocks (sha1_block state (take 64 p)) (drop 64 p) else (state, p))"
  by pat_completeness auto
termination by (relation "measure (length \<circ> snd)") auto

declare sha1_blocks.simps [simp del]

definition sha1_update :: "sha1_ctx \<Rightarrow> byte list \<Rightarrow> sha1_ctx" where
  "sha1_update s p =
     (let s = s\<lparr>sh_bits := sh_bits s + of_nat (length p) * 8\<rparr>;
          (s, p) = (if sh_buflen s > 0
            then let want = 64 - sh_buflen s;
                     tk = (if length p < want then length p else want);
                     s = s\<lparr>sh_buf := write_at (sh_buflen s) (take tk p) (sh_buf s), sh_buflen := sh_buflen s + tk\<rparr>;
                     p = drop tk p
                 in if sh_buflen s = 64 then (s\<lparr>sh_state := sha1_block (sh_state s) (sh_buf s), sh_buflen := 0\<rparr>, p)
                    else (s, p)
            else (s, p));
          (st, p) = sha1_blocks (sh_state s) p;
          s = s\<lparr>sh_state := st\<rparr>
      in if length p > 0 then s\<lparr>sh_buf := write_at 0 p (sh_buf s), sh_buflen := length p\<rparr> else s)"

definition be_u64 :: "u64 \<Rightarrow> byte list" where
  "be_u64 n = map (\<lambda>i. ucast (drop_bit (56 - i * 8) n AND 0xFF)) [0..<8]"

definition sha1_digest :: "u32 list \<Rightarrow> byte list" where
  "sha1_digest state = concat (map (\<lambda>i.
     [ucast (drop_bit 24 (state ! i) AND 0xFF), ucast (drop_bit 16 (state ! i) AND 0xFF),
      ucast (drop_bit 8 (state ! i) AND 0xFF), ucast (state ! i AND 0xFF)]) [0..<5])"

definition sha1_final :: "sha1_ctx \<Rightarrow> byte list" where
  "sha1_final s =
     (let pad = 0x80 # replicate 63 0;
          total_bits = sh_bits s;
          pad_len = (if sh_buflen s < 56 then 56 - sh_buflen s else 120 - sh_buflen s);
          s = sha1_update s (take pad_len pad);
          s = sha1_update s (be_u64 total_bits)
      in sha1_digest (sh_state s))"

definition sha1 :: "byte list \<Rightarrow> byte list \<Rightarrow> byte list" where
  "sha1 buf data = sha1_final (sha1_update (sha1_init buf) data)"

section \<open>Base64\<close>

definition kB64Alphabet :: string where
  "kB64Alphabet = ''ABCDEFGHIJKLMNOPQRSTUVWXYZ'' @ ''abcdefghijklmnopqrstuvwxyz'' @ ''0123456789+/''"

definition b64_char :: "u32 \<Rightarrow> nat \<Rightarrow> char" where
  "b64_char triple n = kB64Alphabet ! unat (drop_bit n triple AND 0x3F)"

fun base64_encode :: "byte list \<Rightarrow> string" where
  "base64_encode (a # b # c # rest) =
     (let triple = push_bit 16 (ucast a) OR push_bit 8 (ucast b) OR ucast c
      in [b64_char triple 18, b64_char triple 12, b64_char triple 6, b64_char triple 0] @ base64_encode rest)"
| "base64_encode [a, b] =
     (let triple = push_bit 16 (ucast a) OR push_bit 8 (ucast b)
      in [b64_char triple 18, b64_char triple 12, b64_char triple 6, CHR ''=''])"
| "base64_encode [a] =
     (let triple = push_bit 16 (ucast a) OR push_bit 8 0
      in [b64_char triple 18, b64_char triple 12, CHR ''='', CHR ''=''])"
| "base64_encode [] = []"

section \<open>Feeding a message in pieces\<close>

text \<open>The standard: the whole blocks of a message, one after the other.\<close>

definition whole_blocks :: "byte list \<Rightarrow> byte list" where
  "whole_blocks m = take (64 * (length m div 64)) m"

definition rest_block :: "byte list \<Rightarrow> byte list" where
  "rest_block m = drop (64 * (length m div 64)) m"

abbreviation process :: "u32 list \<Rightarrow> byte list \<Rightarrow> u32 list" where
  "process st m \<equiv> fst (sha1_blocks st m)"

lemma sha1_blocks_step: "64 \<le> length p \<Longrightarrow> sha1_blocks st p = sha1_blocks (sha1_block st (take 64 p)) (drop 64 p)"
  by (subst sha1_blocks.simps) simp

lemma sha1_blocks_short [simp]: "length p < 64 \<Longrightarrow> sha1_blocks st p = (st, p)"
  by (subst sha1_blocks.simps) simp

lemma sha1_blocks_rest: "snd (sha1_blocks st p) = rest_block p"
proof (induction st p rule: sha1_blocks.induct)
  case (1 st p)
  show ?case
  proof (cases "64 \<le> length p")
    case True
    then have "64 * ((length p - 64) div 64) + 64 = 64 * (length p div 64)" by (simp add: le_div_geq)
    then show ?thesis using 1 True by (simp add: sha1_blocks_step rest_block_def add.commute)
  next
    case False
    then show ?thesis by (simp add: rest_block_def)
  qed
qed

lemma sha1_blocks_append:
  "sha1_blocks st (m @ p) = sha1_blocks (process st m) (rest_block m @ p)"
proof (induction st m rule: sha1_blocks.induct)
  case (1 st m)
  show ?case
  proof (cases "64 \<le> length m")
    case True
    have "rest_block (drop 64 m) = rest_block m"
      using True sha1_blocks_rest [of st m] sha1_blocks_rest [of "sha1_block st (take 64 m)" "drop 64 m"]
      by (simp add: sha1_blocks_step)
    then show ?thesis using 1 True by (simp add: sha1_blocks_step)
  next
    case False
    then show ?thesis by (simp add: rest_block_def)
  qed
qed

lemma rest_block_append: "rest_block (m @ p) = rest_block (rest_block m @ p)"
  using sha1_blocks_append [of st m p] sha1_blocks_rest [of st "m @ p"] sha1_blocks_rest [of "process st m" "rest_block m @ p"]
  by simp

lemma length_rest: "length (rest_block m) = length m mod 64"
  by (simp add: rest_block_def minus_mult_div_eq_mod)

text \<open>The context after feeding the message \<open>m\<close>.\<close>

definition fed :: "sha1_ctx \<Rightarrow> byte list \<Rightarrow> bool" where
  "fed s m \<longleftrightarrow> length (sh_buf s) = 64 \<and> sh_state s = process sha1_h0 m \<and>
     sh_buflen s = length (rest_block m) \<and> take (sh_buflen s) (sh_buf s) = rest_block m \<and> sh_bits s = of_nat (8 * length m)"

lemma fed_init: "length buf = 64 \<Longrightarrow> fed (sha1_init buf) []"
  by (simp add: fed_def sha1_init_def rest_block_def)

text \<open>The first branch of an update: the buffer is filled up to a block, or the data ran out.\<close>

lemma write_fill: "length a = off \<Longrightarrow> take off buf = a \<Longrightarrow> off + length p \<le> length buf \<Longrightarrow> take (off + length p) (write_at off p buf) = a @ p"
  by (auto simp: write_at_def)

lemma fed_update:
  assumes "fed s m"
  shows "fed (sha1_update s p) (m @ p)"
proof -
  let ?r = "rest_block m" and ?b = "sh_buflen s"
  have buf: "length (sh_buf s) = 64" "?b = length ?r" "take ?b (sh_buf s) = ?r" "?b < 64"
    and st: "sh_state s = process sha1_h0 m" and bits: "sh_bits s = of_nat (8 * length m)"
    using assms by (auto simp: fed_def length_rest)
  have goal: "process sha1_h0 (m @ p) = process (sh_state s) (?r @ p)" "rest_block (m @ p) = rest_block (?r @ p)"
    using sha1_blocks_append [of sha1_h0 m p] rest_block_append [of m p] st by simp_all
  have nb: "sh_bits s + of_nat (length p) * 8 = of_nat (8 * length (m @ p))" using bits by (simp add: algebra_simps)
  have finish: "fed ((let (st, p') = sha1_blocks (sh_state t) q; t = t\<lparr>sh_state := st\<rparr>
        in if length p' > 0 then t\<lparr>sh_buf := write_at 0 p' (sh_buf t), sh_buflen := length p'\<rparr> else t)) (m @ p)"
    if "length (sh_buf t) = 64" "sh_buflen t = 0" "sh_bits t = of_nat (8 * length (m @ p))"
      "sha1_blocks (sh_state s) (?r @ p) = sha1_blocks (sh_state t) q" for t q
  proof -
    have "rest_block q = rest_block (?r @ p)"
      using that(4) sha1_blocks_rest [of "sh_state t" q] sha1_blocks_rest [of "sh_state s" "?r @ p"] by simp
    moreover have "length (rest_block q) < 64" by (simp add: length_rest)
    ultimately show ?thesis
      using that goal sha1_blocks_rest [of "sh_state t" q]
      by (auto simp: fed_def Let_def write_at_def split: prod.splits)
  qed
  show ?thesis
  proof (cases "?b = 0")
    case True
    then have "?r = []" using buf by simp
    then show ?thesis using True nb buf finish [of "s\<lparr>sh_bits := sh_bits s + of_nat (length p) * 8\<rparr>" p]
      by (simp add: sha1_update_def Let_def)
  next
    case False
    show ?thesis
    proof (cases "?b + length p < 64")
      case True
      then have "take (?b + length p) (write_at ?b p (sh_buf s)) = ?r @ p" using buf by (intro write_fill) auto
      moreover have "process (sh_state s) (?r @ p) = sh_state s" "rest_block (?r @ p) = ?r @ p"
        using True buf by (simp_all add: rest_block_def)
      moreover have "length p < 64 - length ?r" using True buf by simp
      ultimately show ?thesis
        using True False nb goal buf by (simp add: fed_def sha1_update_def Let_def)
    next
      case full: False
      let ?w = "64 - ?b"
      have "take 64 (write_at ?b (take ?w p) (sh_buf s)) = ?r @ take ?w p"
        using write_fill [of ?r ?b "sh_buf s" "take ?w p"] full buf by simp
      then have blk: "write_at ?b (take ?w p) (sh_buf s) = ?r @ take ?w p"
        using full buf by simp
      have "take 64 (?r @ p) = ?r @ take ?w p" "drop 64 (?r @ p) = drop ?w p" using buf by simp_all
      then have "sha1_blocks (sh_state s) (?r @ p) = sha1_blocks (sha1_block (sh_state s) (?r @ take ?w p)) (drop ?w p)"
        using full buf sha1_blocks_step [of "?r @ p"] by simp
      then show ?thesis
        using full False nb buf blk
          finish [of "s\<lparr>sh_bits := sh_bits s + of_nat (length p) * 8, sh_buf := ?r @ take ?w p, sh_state := sha1_block (sh_state s) (?r @ take ?w p), sh_buflen := 0\<rparr>" "drop ?w p"]
        by (cases "sha1_blocks (sha1_block (sh_state s) (?r @ take ?w p)) (drop ?w p)") (auto simp: sha1_update_def Let_def not_less)
    qed
  qed
qed

text \<open>The padding of the standard: a one bit, zeros up to 56 bytes of a block, the length.\<close>

definition sha1_zeros :: "nat \<Rightarrow> nat" where
  "sha1_zeros n = (if n mod 64 < 56 then 55 - n mod 64 else 119 - n mod 64)"

definition sha1_padding :: "nat \<Rightarrow> byte list" where
  "sha1_padding n = 0x80 # replicate (sha1_zeros n) 0 @ be_u64 (of_nat (8 * n))"

lemma length_be_u64 [simp]: "length (be_u64 n) = 8"
  by (simp add: be_u64_def)

lemma padding_whole: "length (m @ sha1_padding (length m)) mod 64 = 0"
proof -
  let ?n = "length m"
  have "?n + 1 + sha1_zeros ?n + 8 = 64 * (?n div 64 + (if ?n mod 64 < 56 then 1 else 2))"
  proof -
    have "64 * (?n div 64) = ?n - ?n mod 64" "?n mod 64 < 64" "?n mod 64 \<le> ?n" by (simp_all add: minus_mod_eq_mult_div)
    then show ?thesis unfolding sha1_zeros_def by (auto simp: add_mult_distrib2)
  qed
  then have "length (m @ sha1_padding ?n) = 64 * (?n div 64 + (if ?n mod 64 < 56 then 1 else 2))"
    by (simp add: sha1_padding_def)
  then show ?thesis by (simp only: mod_mult_self1_is_0)
qed

text \<open>SHA-1 as the standard defines it.\<close>

definition sha1_reference :: "byte list \<Rightarrow> byte list" where
  "sha1_reference m = sha1_digest (process sha1_h0 (m @ sha1_padding (length m)))"

lemma sha1_final_reference:
  assumes "fed s m"
  shows "sha1_final s = sha1_reference m"
proof -
  let ?pl = "if sh_buflen s < 56 then 56 - sh_buflen s else 120 - sh_buflen s"
  have b: "sh_buflen s = length m mod 64" and bits: "sh_bits s = of_nat (8 * length m)"
    using assms by (auto simp: fed_def length_rest)
  have "sh_buflen s < 64" by (simp add: b)
  then have "?pl = Suc (sha1_zeros (length m))" "?pl \<le> 64" by (auto simp: b sha1_zeros_def)
  then have pad: "take ?pl (0x80 # replicate 63 0) @ be_u64 (sh_bits s) = sha1_padding (length m)"
    by (simp add: sha1_padding_def bits min_def)
  from fed_update [OF fed_update [OF assms], of "take ?pl (0x80 # replicate 63 0)" "be_u64 (sh_bits s)"]
  show ?thesis using pad by (simp add: fed_def sha1_final_def sha1_reference_def Let_def)
qed

section \<open>Base64 decodes back\<close>

text \<open>A reader of the standard alphabet, the inverse the encoder is checked against.\<close>

definition b64_value :: "char \<Rightarrow> u32" where
  "b64_value c = of_nat (length (takeWhile (\<lambda>x. x \<noteq> c) kB64Alphabet))"

definition b64_join :: "u32 \<Rightarrow> u32 \<Rightarrow> u32 \<Rightarrow> u32 \<Rightarrow> u32" where
  "b64_join w x y z = push_bit 18 w OR push_bit 12 x OR push_bit 6 y OR z"

fun base64_decode :: "string \<Rightarrow> byte list option" where
  "base64_decode [] = Some []"
| "base64_decode (w # x # y # z # rest) =
     (if z = CHR ''='' then
        if y = CHR ''='' then Some [ucast (drop_bit 16 (b64_join (b64_value w) (b64_value x) 0 0))]
        else (let t = b64_join (b64_value w) (b64_value x) (b64_value y) 0
              in Some [ucast (drop_bit 16 t), ucast (drop_bit 8 t)])
      else let t = b64_join (b64_value w) (b64_value x) (b64_value y) (b64_value z)
           in map_option (\<lambda>bs. ucast (drop_bit 16 t) # ucast (drop_bit 8 t) # ucast t # bs) (base64_decode rest))"
| "base64_decode _ = None"

lemma takeWhile_nth: "distinct xs \<Longrightarrow> k < length xs \<Longrightarrow> length (takeWhile (\<lambda>x. x \<noteq> xs ! k) xs) = k"
proof (induction xs arbitrary: k)
  case (Cons a xs)
  then show ?case by (cases k) auto
qed simp

lemma alphabet: "distinct kB64Alphabet" "length kB64Alphabet = 64" "CHR ''='' \<notin> set kB64Alphabet"
  by (simp_all add: kB64Alphabet_def)

lemma six_bits: "unat (v AND 0x3F :: u32) < 64"
proof -
  have "v AND 0x3F = take_bit 6 v" by (simp add: take_bit_eq_mask mask_eq_exp_minus_1)
  then show ?thesis using take_bit_nat_less_exp [of 6 "unat v"] by (simp add: unsigned_take_bit_eq)
qed

lemma b64_value_char: "b64_value (b64_char t n) = drop_bit n t AND 0x3F"
  using takeWhile_nth [OF alphabet(1), of "unat (drop_bit n t AND 0x3F)"] six_bits [of "drop_bit n t"] alphabet(2)
  by (simp add: b64_value_def b64_char_def)

lemma b64_char_not_pad: "b64_char t n \<noteq> CHR ''=''"
  using alphabet six_bits [of "drop_bit n t"] by (metis b64_char_def nth_mem)

lemma b64_join_char:
  assumes "take_bit 24 t = t"
  shows "b64_join (drop_bit 18 t AND 0x3F) (drop_bit 12 t AND 0x3F) (drop_bit 6 t AND 0x3F) (t AND 0x3F) = t"
proof -
  have m: "(0x3F :: u32) = mask 6" by (simp add: mask_eq_exp_minus_1)
  have "\<not> bit t n" if "24 \<le> n" for n
    using that assms by (metis bit_take_bit_iff not_less)
  note high = this
  show ?thesis
    unfolding b64_join_def m
  proof (rule bit_word_eqI)
    fix n :: nat
    assume "n < LENGTH(32)"
    consider "n < 6" | "6 \<le> n" "n < 12" | "12 \<le> n" "n < 18" | "18 \<le> n" "n < 24" | "24 \<le> n" by linarith
    then show "bit (push_bit 18 (drop_bit 18 t AND mask 6) OR push_bit 12 (drop_bit 12 t AND mask 6) OR
        push_bit 6 (drop_bit 6 t AND mask 6) OR t AND mask 6) n = bit t n"
      by cases (use \<open>n < LENGTH(32)\<close> high in \<open>auto simp: bit_simps\<close>)
  qed
qed

definition b64_triple :: "byte \<Rightarrow> byte \<Rightarrow> byte \<Rightarrow> u32" where
  "b64_triple a b c = push_bit 16 (ucast a) OR push_bit 8 (ucast b) OR ucast c"

lemma triple_bytes:
  "take_bit 24 (b64_triple a b c) = b64_triple a b c" "ucast (drop_bit 16 (b64_triple a b c)) = a"
  "ucast (drop_bit 8 (b64_triple a b c)) = b" "ucast (b64_triple a b c) = c"
proof -
  have high: "\<not> bit x n" if "8 \<le> n" for x :: byte and n using that bit_imp_le_length [of x n] by auto
  show "take_bit 24 (b64_triple a b c) = b64_triple a b c" "ucast (drop_bit 16 (b64_triple a b c)) = a"
    "ucast (drop_bit 8 (b64_triple a b c)) = b" "ucast (b64_triple a b c) = c"
    unfolding b64_triple_def
    by (auto intro!: bit_word_eqI simp: bit_simps high not_le not_less less_diff_conv)
qed

lemma triple_pads:
  "push_bit 16 (ucast a) OR push_bit 8 (ucast b) = b64_triple a b 0" "push_bit 16 (ucast a) OR push_bit 8 0 = b64_triple a 0 0"
  by (simp_all add: b64_triple_def)

text \<open>The sextets a short group leaves out are zero.\<close>

lemma triple_low: "b64_triple a b 0 AND 0x3F = 0" "drop_bit 6 (b64_triple a 0 0) AND 0x3F = 0"
proof -
  have m: "(0x3F :: u32) = mask 6" by (simp add: mask_eq_exp_minus_1)
  show "b64_triple a b 0 AND 0x3F = 0" "drop_bit 6 (b64_triple a 0 0) AND 0x3F = 0"
    unfolding b64_triple_def m by (auto intro!: bit_word_eqI simp: bit_simps)
qed

lemma base64_decode_encode: "base64_decode (base64_encode bs) = Some bs"
proof (induction bs rule: base64_encode.induct)
  case (1 a b c rest)
  have "base64_encode (a # b # c # rest) = [b64_char (b64_triple a b c) 18, b64_char (b64_triple a b c) 12,
      b64_char (b64_triple a b c) 6, b64_char (b64_triple a b c) 0] @ base64_encode rest"
    by (simp add: b64_triple_def Let_def)
  then show ?case
    using 1 b64_join_char [OF triple_bytes(1), of a b c] by (simp add: b64_char_not_pad b64_value_char triple_bytes Let_def)
next
  case (2 a b)
  then show ?case
    using b64_join_char [OF triple_bytes(1), of a b 0]
    by (simp add: b64_char_not_pad b64_value_char triple_bytes triple_low Let_def triple_pads(1))
next
  case (3 a)
  have "b64_triple a 0 0 AND 0x3F = 0" by (rule triple_low)
  then show ?case
    using b64_join_char [OF triple_bytes(1), of a 0 0]
    by (simp add: b64_value_char triple_bytes triple_low Let_def triple_pads(2) [simplified])
qed simp

lemma length_base64_encode: "length (base64_encode bs) = 4 * ((length bs + 2) div 3)"
proof (induction bs rule: base64_encode.induct)
  case (1 a b c rest)
  have "(length rest + 5) div 3 = Suc ((length rest + 2) div 3)" by presburger
  then show ?case using 1 by (simp add: Let_def add.commute)
qed (simp_all add: Let_def)

section \<open>Properties\<close>

text \<open>C13: However a message is cut into pieces for \<open>sha1_update\<close>, and whatever the context's buffer
  held before, \<open>sha1_final\<close> gives the SHA-1 of the standard: the padded message run block by block
  through the compression function.\<close>

theorem sha1_streaming:
  assumes "length buf = 64"
  shows "sha1_final (foldl sha1_update (sha1_init buf) pieces) = sha1_reference (concat pieces)"
proof -
  have "fed (foldl sha1_update s pieces) (m @ concat pieces)" if "fed s m" for s m
    using that fed_update by (induction pieces arbitrary: s m) (auto simp flip: append_assoc)
  from this [OF fed_init [OF assms]] show ?thesis by (simp add: sha1_final_reference)
qed

theorem sha1_streaming_witness:
  "sha1_final (foldl sha1_update (sha1_init (replicate 64 7)) [[97], [98, 99]]) = sha1_reference [97, 98, 99]"
  using sha1_streaming [of "replicate 64 7" "[[97], [98, 99]]"] by simp

text \<open>The Base64 text of any bytes decodes to them, and is a multiple of four characters long.\<close>

theorem base64_roundtrip:
  "base64_decode (base64_encode bs) = Some bs \<and> length (base64_encode bs) = 4 * ((length bs + 2) div 3)"
  by (simp add: base64_decode_encode length_base64_encode)

end
