(* ===== verification/Session.thy ===== *)
theory Session
  imports Table Text Sha1_Base64 "HOL-Library.Sublist"
begin

text \<open>
  The session table of the web interface (\<open>src/web/session.h\<close>, \<open>src/web/session.cpp\<close>): tokens with
  deadlines, sliding expiry, and the file that keeps them over a restart. Tokens come from
  \<open>new_session_token\<close>, which is an argument of \<open>create\<close>, as are the wall clock and the answers of
  the system calls; the locks make each operation one step. Files are a map from path to contents,
  read by \<open>fgets\<close> in pieces of 255 characters as the code does. Proved: a token is accepted only
  when it was issued, not revoked since, and used since with no gap of the TTL, a deadline is never
  further away than the TTL, what \<open>save\<close> writes \<open>load\<close> reads back, and a file made under another
  password contributes no session.
\<close>

section \<open>State\<close>

record session_store =
  ss_ttl_ns :: u64
  ss_deadline :: "(string, u64) smap"
  ss_persist_path :: string
  ss_credential :: string
  ss_last_save_rc :: int

definition session_store_new :: "u64 \<Rightarrow> session_store" where
  "session_store_new ttl_seconds = \<lparr>ss_ttl_ns = ttl_seconds * 1000000000, ss_deadline = [], ss_persist_path = '''',
     ss_credential = '''', ss_last_save_rc = 0\<rparr>"

text \<open>The files and what was printed to \<open>stderr\<close>.\<close>

record world =
  w_disk :: "string \<Rightarrow> string option"
  w_log :: "string list"

definition set_persist_path :: "session_store \<Rightarrow> string \<Rightarrow> session_store" where
  "set_persist_path st path = st\<lparr>ss_persist_path := path\<rparr>"

definition set_credential :: "byte list \<Rightarrow> session_store \<Rightarrow> string \<Rightarrow> session_store" where
  "set_credential buf st password_hash =
     (if password_hash = '''' then st\<lparr>ss_credential := ''''\<rparr>
      else st\<lparr>ss_credential := base64_encode (sha1 buf (bytes_of password_hash))\<rparr>)"

section \<open>Saving\<close>

definition nl :: char where "nl = CHR 0x0A"
definition tab :: char where "tab = CHR 0x09"

definition kCredentialLine :: string where
  "kCredentialLine = ''# credential ''"

definition session_line :: "string \<times> u64 \<Rightarrow> string" where
  "session_line = (\<lambda>(tok, d). c_str tok @ tab # digits (unat d) @ [nl])"

definition session_text :: "string \<Rightarrow> (string, u64) smap \<Rightarrow> string" where
  "session_text credential snap =
     ''# budyk sessions v2'' @ [nl] @
     (if credential \<noteq> '''' then kCredentialLine @ c_str credential @ [nl] else '''') @
     ''# token'' @ tab # ''deadline_ns'' @ [nl] @ concat (map session_line snap)"

text \<open>Which system call of a save fails, and its errno.\<close>

datatype save_io = SaveOk | OpenFails errno | FdopenFails errno | WriteFails errno | RenameFails errno

definition save :: "session_store \<Rightarrow> (string \<Rightarrow> string option) \<Rightarrow> save_io \<Rightarrow> string option \<Rightarrow> rc \<times> (string \<Rightarrow> string option)" where
  "save st disk io path =
     (case path of None \<Rightarrow> (- EINVAL, disk)
      | Some p \<Rightarrow>
          let tmp = p @ ''.tmp''
          in case io of
               OpenFails e \<Rightarrow> (- e, disk)
             | FdopenFails e \<Rightarrow> (- e, disk(tmp := None))
             | WriteFails e \<Rightarrow> (- (if e \<noteq> 0 then e else EIO), disk(tmp := None))
             | RenameFails e \<Rightarrow> (- e, disk(tmp := None))
             | SaveOk \<Rightarrow> (0, disk(tmp := None, p \<mapsto> session_text (ss_credential st) (ss_deadline st))))"

definition autosave :: "(errno \<Rightarrow> string) \<Rightarrow> session_store \<Rightarrow> world \<Rightarrow> save_io \<Rightarrow> session_store \<times> world" where
  "autosave strerror st w io =
     (let path = ss_persist_path st
      in if path = '''' then (st, w)
         else case save st (w_disk w) io (Some (c_str path)) of (rc, disk) \<Rightarrow>
           let before = ss_last_save_rc st; st = st\<lparr>ss_last_save_rc := rc\<rparr>; w = w\<lparr>w_disk := disk\<rparr>
           in if rc = before then (st, w)
              else if rc \<noteq> 0
              then (st, w\<lparr>w_log := w_log w @ [''budyk serve: cannot save the sessions to '' @ CHR 0x27 # c_str path @ CHR 0x27 #
                        '': '' @ strerror (- rc) @ [nl]]\<rparr>)
              else (st, w\<lparr>w_log := w_log w @ [''budyk serve: the sessions are saved to '' @ CHR 0x27 # c_str path @ CHR 0x27 #
                        '' again'' @ [nl]]\<rparr>))"

section \<open>Operations\<close>

definition sess_create :: "(errno \<Rightarrow> string) \<Rightarrow> session_store \<Rightarrow> world \<Rightarrow> save_io \<Rightarrow> string \<Rightarrow> u64 \<Rightarrow> string \<times> session_store \<times> world" where
  "sess_create strerror st w io tok now =
     (if tok = '''' then (tok, st, w)
      else let deadline = now + ss_ttl_ns st; st = st\<lparr>ss_deadline := smap_put (ss_deadline st) tok deadline\<rparr>
           in (tok, autosave strerror st w io))"

definition sess_verify :: "(errno \<Rightarrow> string) \<Rightarrow> session_store \<Rightarrow> world \<Rightarrow> save_io \<Rightarrow> string \<Rightarrow> u64 \<Rightarrow> bool \<times> session_store \<times> world" where
  "sess_verify strerror st w io token now =
     (if token = '''' then (False, st, w)
      else case map_of (ss_deadline st) token of
        None \<Rightarrow> (False, st, w)
      | Some d \<Rightarrow>
          if d \<le> now
          then (False, autosave strerror (st\<lparr>ss_deadline := smap_erase (ss_deadline st) token\<rparr>) w io)
          else (True, (if d > now + ss_ttl_ns st then st\<lparr>ss_deadline := smap_put (ss_deadline st) token (now + ss_ttl_ns st)\<rparr> else st), w))"

definition sess_touch :: "(errno \<Rightarrow> string) \<Rightarrow> session_store \<Rightarrow> world \<Rightarrow> save_io \<Rightarrow> string \<Rightarrow> u64 \<Rightarrow> bool \<times> session_store \<times> world" where
  "sess_touch strerror st w io token now =
     (if token = '''' then (False, st, w)
      else case map_of (ss_deadline st) token of
        None \<Rightarrow> (False, st, w)
      | Some d \<Rightarrow>
          if d \<le> now
          then (False, autosave strerror (st\<lparr>ss_deadline := smap_erase (ss_deadline st) token\<rparr>) w io)
          else
            let fresh = now + ss_ttl_ns st
            in if (fresh > d \<and> fresh - d \<ge> ss_ttl_ns st div 8) \<or> d > fresh
               then (True, autosave strerror (st\<lparr>ss_deadline := smap_put (ss_deadline st) token fresh\<rparr>) w io)
               else (True, st, w))"

definition sess_revoke :: "(errno \<Rightarrow> string) \<Rightarrow> session_store \<Rightarrow> world \<Rightarrow> save_io \<Rightarrow> string \<Rightarrow> session_store \<times> world" where
  "sess_revoke strerror st w io token =
     (let removed = (map_of (ss_deadline st) token \<noteq> None); st = st\<lparr>ss_deadline := smap_erase (ss_deadline st) token\<rparr>
      in if removed then autosave strerror st w io else (st, w))"

definition purge_expired :: "session_store \<Rightarrow> u64 \<Rightarrow> nat \<times> session_store" where
  "purge_expired st now =
     (length (filter (\<lambda>kv. snd kv \<le> now) (ss_deadline st)),
      st\<lparr>ss_deadline := filter (\<lambda>kv. \<not> snd kv \<le> now) (ss_deadline st)\<rparr>)"

definition sess_size :: "session_store \<Rightarrow> nat" where
  "sess_size st = length (ss_deadline st)"

section \<open>Loading\<close>

text \<open>\<open>fgets\<close> into a buffer of \<open>n + 1\<close> characters: up to a newline, or \<open>n\<close> characters.\<close>

fun fgets_line :: "nat \<Rightarrow> string \<Rightarrow> string \<times> string" where
  "fgets_line 0 s = ([], s)"
| "fgets_line (Suc n) [] = ([], [])"
| "fgets_line (Suc n) (c # s) = (if c = nl then ([c], s) else case fgets_line n s of (l, r) \<Rightarrow> (c # l, r))"

lemma fgets_line_length: "length (snd (fgets_line n s)) + length (fst (fgets_line n s)) = length s"
  by (induction n s rule: fgets_line.induct) (auto split: prod.splits)

lemma fgets_line_progress: "s \<noteq> [] \<Longrightarrow> length (snd (fgets_line (Suc n) s)) < length s"
  using fgets_line_length [of n "tl s"] by (cases s) (auto split: prod.splits)

function fgets_lines :: "string \<Rightarrow> string list" where
  "fgets_lines s = (if s = [] then [] else case fgets_line 255 s of (l, r) \<Rightarrow> l # fgets_lines r)"
  by pat_completeness auto
termination
proof (relation "measure length")
  fix s l r
  assume "s \<noteq> []" "(l, r) = fgets_line 255 s"
  then show "(r, s) \<in> measure length" using fgets_line_progress [of s 254] by (cases "fgets_line 255 s") (auto simp: numeral_eq_Suc)
qed simp

declare fgets_lines.simps [simp del]

fun strip_eol :: "string \<Rightarrow> string" where
  "strip_eol s = (if s \<noteq> [] \<and> (last s = nl \<or> last s = CHR 0x0D) then strip_eol (butlast s) else s)"

declare strip_eol.simps [simp del]

definition load_line :: "u64 \<Rightarrow> u64 \<Rightarrow> string \<times> (string, u64) smap \<Rightarrow> string \<Rightarrow> string \<times> (string, u64) smap" where
  "load_line now ttl_ns = (\<lambda>(cred, got) line0.
     let line = c_str line0
     in if line = [] then (cred, got)
        else if hd line = CHR ''#''
        then (if take (length kCredentialLine) line = kCredentialLine
              then (strip_eol (drop (length kCredentialLine) line), got) else (cred, got))
        else if hd line = nl then (cred, got)
        else if tab \<notin> set line then (cred, got)
        else
          let tok_str = takeWhile (\<lambda>c. c \<noteq> tab) line; rest = tl (dropWhile (\<lambda>c. c \<noteq> tab) line)
          in case strtoull rest of None \<Rightarrow> (cred, got)
             | Some (dl, _) \<Rightarrow>
                 if tok_str = [] then (cred, got)
                 else if dl \<le> now then (cred, got)
                 else let dl = (if dl > now + ttl_ns then now + ttl_ns else dl)
                      in (cred, smap_put got tok_str dl))"

text \<open>How \<open>fopen\<close> and reading answer; a reading error is the errno (0 gives \<open>EIO\<close>).\<close>

datatype load_io = FopenFails errno | ReadOk | ReadFails errno

definition load ::
  "session_store \<Rightarrow> (string \<Rightarrow> string option) \<Rightarrow> load_io \<Rightarrow> string option \<Rightarrow> u64 \<Rightarrow> rc \<times> bool \<times> session_store" where
  "load st disk io path now =
     (case path of None \<Rightarrow> (- EINVAL, False, st)
      | Some p \<Rightarrow>
          (case io of
             FopenFails e \<Rightarrow> ((if e = ENOENT then 0 else - e), False, st)
           | ReadFails e \<Rightarrow> (- (if e \<noteq> 0 then e else EIO), False, st)
           | ReadOk \<Rightarrow>
               (case disk p of None \<Rightarrow> (0, False, st)
                | Some text \<Rightarrow>
                    (case foldl (load_line now (ss_ttl_ns st)) ('''', []) (fgets_lines text) of (file_credential, got) \<Rightarrow>
                       if ss_credential st \<noteq> '''' \<and> file_credential \<noteq> ss_credential st
                       then (0, got \<noteq> [], st)
                       else (0, False, st\<lparr>ss_deadline := foldl (\<lambda>t (k, v). smap_put t k v) (ss_deadline st) got\<rparr>)))))"

section \<open>A history of operations\<close>

datatype sess_event = Created string | Verified string | Touched string | Revoked string | Purged

fun sess_apply :: "(errno \<Rightarrow> string) \<Rightarrow> session_store \<times> world \<Rightarrow> save_io \<times> u64 \<times> sess_event \<Rightarrow> session_store \<times> world" where
  "sess_apply strerror (st, w) (io, now, Created tok) = snd (sess_create strerror st w io tok now)"
| "sess_apply strerror (st, w) (io, now, Verified tok) = snd (sess_verify strerror st w io tok now)"
| "sess_apply strerror (st, w) (io, now, Touched tok) = snd (sess_touch strerror st w io tok now)"
| "sess_apply strerror (st, w) (io, now, Revoked tok) = sess_revoke strerror st w io tok"
| "sess_apply strerror (st, w) (io, now, Purged) = (snd (purge_expired st now), w)"

definition sess_run :: "(errno \<Rightarrow> string) \<Rightarrow> session_store \<times> world \<Rightarrow> (save_io \<times> u64 \<times> sess_event) list \<Rightarrow> session_store \<times> world" where
  "sess_run strerror = foldl (sess_apply strerror)"

lemma autosave_sel [simp]:
  "ss_deadline (fst (autosave strerror st w io)) = ss_deadline st" "ss_ttl_ns (fst (autosave strerror st w io)) = ss_ttl_ns st"
  "ss_credential (fst (autosave strerror st w io)) = ss_credential st"
  by (simp_all add: autosave_def Let_def split: prod.split)

text \<open>What each operation does to the table of deadlines.\<close>

fun table_step :: "u64 \<Rightarrow> (string, u64) smap \<Rightarrow> u64 \<Rightarrow> sess_event \<Rightarrow> (string, u64) smap" where
  "table_step ttl t now (Created tok) = (if tok = '''' then t else smap_put t tok (now + ttl))"
| "table_step ttl t now (Verified tok) =
     (if tok = '''' then t else case map_of t tok of None \<Rightarrow> t
      | Some d \<Rightarrow> if d \<le> now then smap_erase t tok else if d > now + ttl then smap_put t tok (now + ttl) else t)"
| "table_step ttl t now (Touched tok) =
     (if tok = '''' then t else case map_of t tok of None \<Rightarrow> t
      | Some d \<Rightarrow> if d \<le> now then smap_erase t tok
          else if (now + ttl > d \<and> now + ttl - d \<ge> ttl div 8) \<or> d > now + ttl then smap_put t tok (now + ttl) else t)"
| "table_step ttl t now (Revoked tok) = smap_erase t tok"
| "table_step ttl t now Purged = filter (\<lambda>kv. \<not> snd kv \<le> now) t"

lemma sess_apply_table:
  "ss_deadline (fst (sess_apply strerror (st, w) (io, now, e))) = table_step (ss_ttl_ns st) (ss_deadline st) now e"
  "ss_ttl_ns (fst (sess_apply strerror (st, w) (io, now, e))) = ss_ttl_ns st"
  by (cases e; simp add: sess_create_def sess_verify_def sess_touch_def sess_revoke_def purge_expired_def Let_def
      split: option.split)+

text \<open>
  Every deadline goes back to the issue of its token, not revoked since, by a chain of touches of it, each of them before the deadline set by the one
  before: \<open>since\<close> is the moment of the issue or of the last of these touches.
\<close>

abbreviation in_time :: "u64 \<Rightarrow> u64 \<Rightarrow> u64 \<Rightarrow> bool" where
  "in_time ttl a b \<equiv> a \<le> b \<and> b < a + ttl"

abbreviation touches :: "string \<Rightarrow> (save_io \<times> u64 \<times> sess_event) list \<Rightarrow> u64 list" where
  "touches tok evs \<equiv> map (\<lambda>x. fst (snd x)) (filter (\<lambda>x. snd (snd x) = Touched tok) evs)"

definition alive_since :: "u64 \<Rightarrow> (save_io \<times> u64 \<times> sess_event) list \<Rightarrow> string \<Rightarrow> u64 \<Rightarrow> bool" where
  "alive_since ttl evs tok since \<longleftrightarrow>
     (\<exists>pre io born post ts. evs = pre @ (io, born, Created tok) # post \<and> (\<forall>x \<in> set post. snd (snd x) \<noteq> Revoked tok) \<and>
        subseq ts (touches tok post) \<and> successively (in_time ttl) (born # ts) \<and> since = last (born # ts))"

definition issued :: "u64 \<Rightarrow> (save_io \<times> u64 \<times> sess_event) list \<Rightarrow> (string, u64) smap \<Rightarrow> bool" where
  "issued ttl evs t \<longleftrightarrow> smap_ok t \<and> (\<forall>tok d. map_of t tok = Some d \<longrightarrow> (\<exists>since. alive_since ttl evs tok since \<and> d = since + ttl))"

lemma issuedD: "issued ttl evs t \<Longrightarrow> map_of t tok = Some d \<Longrightarrow> \<exists>since. alive_since ttl evs tok since \<and> d = since + ttl"
  unfolding issued_def by blast

lemma subseq_set: "subseq xs ys \<Longrightarrow> x \<in> set xs \<Longrightarrow> x \<in> set ys"
  by (induction rule: list_emb.induct) auto

lemma alive_past:
  assumes "alive_since ttl evs tok since" and "\<forall>x \<in> set evs. fst (snd x) \<le> now"
  shows "since \<le> now"
proof -
  obtain pre io born post ts where h: "evs = pre @ (io, born, Created tok) # post" "subseq ts (touches tok post)" "since = last (born # ts)"
    using assms(1) unfolding alive_since_def by blast
  have "set ts \<subseteq> set (touches tok post)" using h(2) by (auto dest: subseq_set)
  moreover have "since \<in> insert born (set ts)" using h(3) last_in_set [of "born # ts"] by simp
  ultimately have "since \<in> insert born (set (touches tok post))" by blast
  then show ?thesis using assms(2) h(1) by auto
qed

lemma alive_extend:
  assumes "alive_since ttl evs tok since" and "e' \<noteq> Revoked tok"
  shows "alive_since ttl (evs @ [(io', now, e')]) tok since"
proof -
  obtain pre io born post ts where h: "evs = pre @ (io, born, Created tok) # post" "\<forall>x \<in> set post. snd (snd x) \<noteq> Revoked tok"
    "subseq ts (touches tok post)" "successively (in_time ttl) (born # ts)" "since = last (born # ts)"
    using assms(1) unfolding alive_since_def by blast
  moreover have "evs @ [(io', now, e')] = pre @ (io, born, Created tok) # (post @ [(io', now, e')])"
    "\<forall>x \<in> set (post @ [(io', now, e')]). snd (snd x) \<noteq> Revoked tok" "subseq ts (touches tok (post @ [(io', now, e')]))"
    using h(1-3) assms(2) by (auto intro: list_emb_append2)
  ultimately show ?thesis unfolding alive_since_def by blast
qed

lemma alive_touch:
  assumes "alive_since ttl evs tok since" and "in_time ttl since now"
  shows "alive_since ttl (evs @ [(io', now, Touched tok)]) tok now"
proof -
  obtain pre io born post ts where h: "evs = pre @ (io, born, Created tok) # post" "\<forall>x \<in> set post. snd (snd x) \<noteq> Revoked tok"
    "subseq ts (touches tok post)" "successively (in_time ttl) (born # ts)" "since = last (born # ts)"
    using assms(1) unfolding alive_since_def by blast
  let ?post = "post @ [(io', now, Touched tok)]"
  have "evs @ [(io', now, Touched tok)] = pre @ (io, born, Created tok) # ?post" "\<forall>x \<in> set ?post. snd (snd x) \<noteq> Revoked tok"
    "subseq (ts @ [now]) (touches tok ?post)" "now = last (born # (ts @ [now]))"
    using h(1-3) by (auto intro: list_emb_append_mono)
  moreover have "successively (in_time ttl) (born # (ts @ [now]))"
    using h(4,5) assms(2) successively_append_iff [of "in_time ttl" "born # ts" "[now]"] by simp
  ultimately show ?thesis unfolding alive_since_def by blast
qed

lemma alive_created: "alive_since ttl (evs @ [(io', now, Created tok)]) tok now"
  unfolding alive_since_def by (intro exI [of _ evs] exI [of _ io'] exI [of _ now] exI [of _ "[]"]) simp

lemma issued_sub:
  assumes "issued ttl evs t" and "smap_ok u" and "\<And>tok d. map_of u tok = Some d \<Longrightarrow> map_of t tok = Some d \<and> e' \<noteq> Revoked tok"
  shows "issued ttl (evs @ [(io', now, e')]) u"
  unfolding issued_def
proof (intro conjI allI impI)
  fix tok d
  assume held: "map_of u tok = Some d"
  then obtain since where "alive_since ttl evs tok since" "d = since + ttl" using issuedD [OF assms(1)] assms(3) by blast
  then show "\<exists>since. alive_since ttl (evs @ [(io', now, e')]) tok since \<and> d = since + ttl" using alive_extend assms(3) [OF held] by blast
qed (rule assms(2))

lemma issued_put:
  assumes "issued ttl evs t" and "e' = Created tok \<or> e' = Touched tok" and "alive_since ttl (evs @ [(io', now, e')]) tok now"
  shows "issued ttl (evs @ [(io', now, e')]) (smap_put t tok (now + ttl))"
  unfolding issued_def
proof (intro conjI allI impI)
  show "smap_ok (smap_put t tok (now + ttl))" using assms(1) by (simp add: issued_def smap_ok_put)
  fix tok' d
  assume d: "map_of (smap_put t tok (now + ttl)) tok' = Some d"
  show "\<exists>since. alive_since ttl (evs @ [(io', now, e')]) tok' since \<and> d = since + ttl"
  proof (cases "tok' = tok")
    case True
    then show ?thesis using d assms(3) by (auto simp: smap_find_put)
  next
    case False
    then have held: "map_of t tok' = Some d" and "e' \<noteq> Revoked tok'" using d assms(2) by (auto simp: smap_find_put)
    then show ?thesis using issuedD [OF assms(1) held] alive_extend by blast
  qed
qed

lemma map_of_filter_value:
  "distinct (map fst t) \<Longrightarrow> map_of (filter (\<lambda>kv. P (snd kv)) t) k = Some d \<Longrightarrow> map_of t k = Some d"
  by (induction t) (auto simp: image_iff dest: map_of_SomeD split: if_splits)

lemma smap_ok_filter: "smap_ok t \<Longrightarrow> smap_ok (filter P t)"
  unfolding smap_ok_def by (induction t) auto

lemma issued_step:
  assumes iss: "issued ttl evs t" and past: "\<forall>x \<in> set evs. fst (snd x) \<le> now" and room: "unat now + unat ttl < two64"
  shows "issued ttl (evs @ [(io, now, e)]) (table_step ttl t now e)"
proof -
  have ok: "smap_ok t" using iss by (simp add: issued_def)
  have keep: "issued ttl (evs @ [(io, now, e)]) t" if "\<And>tok. e \<noteq> Revoked tok"
    by (rule issued_sub [OF iss ok]) (use that in auto)
  have gone: "issued ttl (evs @ [(io, now, e)]) (smap_erase t tok)" if "\<And>tok'. e = Revoked tok' \<Longrightarrow> tok' = tok" for tok
    by (rule issued_sub [OF iss smap_ok_erase [OF ok]]) (use that in \<open>auto simp: smap_find_erase split: if_splits\<close>)
  have near: "since \<le> now \<and> \<not> now + ttl < since + ttl" if "alive_since ttl evs tok since" for tok since
  proof -
    have "since \<le> now" using alive_past [OF that past] .
    then show ?thesis using room by (simp add: not_less word_le_nat_alt unat_word_ariths)
  qed
  have near_held: "\<not> now + ttl < d" if "map_of t tok = Some d" for tok d
    using issuedD [OF iss that] near by blast
  have slid: "issued ttl (evs @ [(io, now, Touched tok)]) (smap_put t tok (now + ttl))" if held: "map_of t tok = Some d" "\<not> d \<le> now" for tok d
  proof -
    obtain since where s: "alive_since ttl evs tok since" "d = since + ttl" using issuedD [OF iss held(1)] by blast
    then have "in_time ttl since now" using near [OF s(1)] held(2) by simp
    then show ?thesis using issued_put [OF iss _ alive_touch [OF s(1)]] by blast
  qed
  show ?thesis
  proof (cases e)
    case (Created tok)
    then show ?thesis using keep issued_put [OF iss _ alive_created] by auto
  next
    case (Verified tok)
    then show ?thesis using keep gone near_held by (auto split: option.split)
  next
    case (Touched tok)
    then show ?thesis using keep gone slid by (auto split: option.split)
  next
    case (Revoked tok)
    then show ?thesis using gone by auto
  next
    case Purged
    then show ?thesis
      using issued_sub [OF iss smap_ok_filter [OF ok]] map_of_filter_value [OF smap_ok_distinct [OF ok], of "\<lambda>d. \<not> d \<le> now"] by auto
  qed
qed

lemma issued_run:
  assumes "ss_deadline st = []" and "sorted (map (fst \<circ> snd) evs)" and "\<forall>x \<in> set evs. unat (fst (snd x)) + unat (ss_ttl_ns st) < two64"
  shows "issued (ss_ttl_ns st) evs (ss_deadline (fst (sess_run strerror (st, w) evs))) \<and>
    ss_ttl_ns (fst (sess_run strerror (st, w) evs)) = ss_ttl_ns st"
  using assms(2,3)
proof (induction evs rule: rev_induct)
  case Nil
  then show ?case using assms(1) by (simp add: sess_run_def issued_def smap_ok_def)
next
  case (snoc x evs)
  obtain io now e where x: "x = (io, now, e)" by (cases x) auto
  obtain st' w' where run: "sess_run strerror (st, w) evs = (st', w')" by (cases "sess_run strerror (st, w) evs")
  have ih: "issued (ss_ttl_ns st) evs (ss_deadline st')" "ss_ttl_ns st' = ss_ttl_ns st"
    using snoc run by (auto simp: sorted_append)
  have "issued (ss_ttl_ns st) (evs @ [(io, now, e)]) (table_step (ss_ttl_ns st) (ss_deadline st') now e)"
    using snoc.prems by (intro issued_step [OF ih(1)]) (auto simp: x sorted_append)
  moreover have "sess_run strerror (st, w) (evs @ [x]) = sess_apply strerror (st', w') (io, now, e)"
    using run by (simp add: sess_run_def x)
  ultimately show ?case using ih(2) by (simp add: sess_apply_table x)
qed

text \<open>C8: A token is accepted only if it was issued, was not revoked since, and has been in use since with no gap of the TTL: after any history of
  operations on a fresh table, with the clock not running back and no deadline past the range of the clock, \<open>verify\<close> says yes only when the history holds a
  \<open>create\<close> of that token, no \<open>revoke\<close> of it later, and touches of it after the \<open>create\<close>, each at a moment before the TTL from the one before
  had run out, the first within the TTL of the \<open>create\<close> and the last within the TTL of now. A touch of a token that is unknown or has expired brings nothing
  back. What the saves of the file answered plays no role.\<close>

theorem session_needs_recent_use:
  assumes "ss_deadline st = []" and "sorted (map (fst \<circ> snd) evs @ [now])" and "unat now + unat (ss_ttl_ns st) < two64"
    and "sess_run strerror (st, w) evs = (st', w')" and "fst (sess_verify strerror st' w' io tok now)"
  shows "\<exists>pre io born post ts. evs = pre @ (io, born, Created tok) # post \<and> (\<forall>x \<in> set post. snd (snd x) \<noteq> Revoked tok) \<and>
    subseq ts (map (\<lambda>x. fst (snd x)) (filter (\<lambda>x. snd (snd x) = Touched tok) post)) \<and>
    successively (\<lambda>a b. a \<le> b \<and> b < a + ss_ttl_ns st) (born # ts @ [now])"
proof -
  have past: "\<forall>x \<in> set evs. fst (snd x) \<le> now" using assms(2) by (auto simp: sorted_append)
  then have "\<forall>x \<in> set evs. unat (fst (snd x)) + unat (ss_ttl_ns st) < two64"
    using assms(3) by (fastforce simp: word_le_nat_alt)
  then have iss: "issued (ss_ttl_ns st) evs (ss_deadline st')"
    using issued_run [OF assms(1), of evs strerror w] assms(2,4) by (simp add: sorted_append)
  obtain d where d: "map_of (ss_deadline st') tok = Some d" "now < d"
    using assms(5) by (auto simp: sess_verify_def Let_def split: if_splits option.splits)
  obtain since where since: "alive_since (ss_ttl_ns st) evs tok since" "d = since + ss_ttl_ns st" using issuedD [OF iss d(1)] by blast
  then obtain pre io born post ts where h: "evs = pre @ (io, born, Created tok) # post" "\<forall>x \<in> set post. snd (snd x) \<noteq> Revoked tok"
    "subseq ts (touches tok post)" "successively (in_time (ss_ttl_ns st)) (born # ts)" "since = last (born # ts)"
    unfolding alive_since_def by blast
  have "in_time (ss_ttl_ns st) since now" using alive_past [OF since(1) past] since(2) d(2) by simp
  then have "successively (in_time (ss_ttl_ns st)) (born # ts @ [now])"
    using h(4,5) successively_append_iff [of "in_time (ss_ttl_ns st)" "born # ts" "[now]"] by simp
  then show ?thesis using h(1-3) by blast
qed

text \<open>The witness: issued at 5, used at 800 000 000, still accepted at 1 500 000 000 with a TTL of a second.\<close>

lemma session_needs_recent_use_witness:
  "\<exists>pre io born post ts. [(SaveOk, 5, Created ''k''), (SaveOk, 800000000, Touched ''k''), (SaveOk, 800000001, Revoked ''j'')] = pre @ (io, born, Created ''k'') # post \<and>
     list_all (\<lambda>x. snd (snd x) \<noteq> Revoked ''k'') post \<and>
     subseq ts (map (\<lambda>x. fst (snd x)) (filter (\<lambda>x. snd (snd x) = Touched ''k'') post)) \<and>
     successively (\<lambda>a b. a \<le> b \<and> b < a + ss_ttl_ns (session_store_new 1)) (born # ts @ [1500000000])"
  unfolding list_all_iff
  by (rule session_needs_recent_use [of "session_store_new 1" "[(SaveOk, 5, Created ''k''), (SaveOk, 800000000, Touched ''k''), (SaveOk, 800000001, Revoked ''j'')]" 1500000000
        "\<lambda>_. ''error''" "\<lparr>w_disk = \<lambda>_. None, w_log = []\<rparr>" _ _ SaveOk "''k''", OF _ _ _ prod.collapse [symmetric]])
    (simp_all add: session_store_new_def sess_run_def sess_create_def sess_touch_def sess_revoke_def sess_verify_def autosave_def smap_erase_def Let_def)

section \<open>The file\<close>

lemma fgets_line_nl: "nl \<notin> set l \<Longrightarrow> length l < n \<Longrightarrow> fgets_line n (l @ nl # rest) = (l @ [nl], rest)"
proof (induction l arbitrary: n)
  case Nil
  then show ?case by (cases n) auto
next
  case (Cons c l)
  then show ?case by (cases n) auto
qed

lemma fgets_lines_nl: "nl \<notin> set l \<Longrightarrow> length l < 255 \<Longrightarrow> fgets_lines (l @ nl # rest) = (l @ [nl]) # fgets_lines rest"
  by (subst fgets_lines.simps) (simp add: fgets_line_nl)

lemma digits_length: "n < 10 ^ Suc k \<Longrightarrow> length (digits n) \<le> Suc k"
proof (induction k arbitrary: n)
  case 0
  then show ?case by (subst digits.simps) simp
next
  case (Suc k)
  then have "length (digits (n div 10)) \<le> Suc k" by (intro Suc.IH) (simp add: less_mult_imp_div_less)
  then show ?case by (subst digits.simps) simp
qed

lemma digits_length_u64: "length (digits (unat (d :: u64))) \<le> 20"
  using digits_length [of "unat d" 19] unat_lt_two64 [of d] by simp

lemma digits_chars: "c \<in> set (digits n) \<Longrightarrow> is_digit c"
  using digits_all(1) [of n] by (simp add: list_all_iff)

text \<open>Tokens and credentials that stand in the file as they are: every token of \<open>new_session_token\<close> and
  every fingerprint of \<open>set_credential\<close> is a short run of letters, digits and signs.\<close>

definition token_ok :: "string \<Rightarrow> bool" where
  "token_ok tok \<longleftrightarrow> tok \<noteq> [] \<and> hd tok \<noteq> CHR ''#'' \<and> length tok \<le> 233 \<and> (\<forall>c \<in> set tok. c \<noteq> tab \<and> c \<noteq> nl \<and> c \<noteq> CHR 0x00)"

definition credential_ok :: "string \<Rightarrow> bool" where
  "credential_ok cred \<longleftrightarrow> length cred \<le> 241 \<and> (\<forall>c \<in> set cred. c \<noteq> CHR 0x0D \<and> c \<noteq> nl \<and> c \<noteq> CHR 0x00)"

lemma nl_tab [simp]: "nl \<noteq> tab" "tab \<noteq> nl" "nl \<noteq> CHR 0x00" "tab \<noteq> CHR 0x00" "\<not> is_digit nl" "\<not> is_digit tab" "nl \<noteq> CHR ''#''"
  "\<not> is_digit (CHR 0x00)" "CHR 0x00 \<noteq> nl" "CHR 0x00 \<noteq> tab" "CHR 0x0D \<noteq> nl"
  by (simp_all add: nl_def tab_def is_digit_def)

lemma digits_free [simp]: "nl \<notin> set (digits n)" "tab \<notin> set (digits n)" "CHR 0x00 \<notin> set (digits n)"
  using digits_chars [of nl n] digits_chars [of tab n] digits_chars [of "CHR 0x00" n] nl_tab by blast+

lemma token_okD:
  assumes "token_ok tok"
  shows "tok \<noteq> []" "hd tok \<noteq> CHR ''#''" "hd tok \<noteq> nl" "length tok \<le> 233" "tab \<notin> set tok" "nl \<notin> set tok" "CHR 0x00 \<notin> set tok"
  using assms hd_in_set [of tok] unfolding token_ok_def by blast+

lemma session_line_shape:
  assumes "token_ok tok"
  shows "session_line (tok, d) = (tok @ tab # digits (unat d)) @ [nl]" and "nl \<notin> set (tok @ tab # digits (unat d))"
    and "length (tok @ tab # digits (unat d)) < 255"
  using token_okD [OF assms] digits_length_u64 [of d] by (simp_all add: session_line_def c_str_id)

lemma load_session_line:
  assumes "token_ok tok" and "now < d" and "d \<le> now + ttl"
  shows "load_line now ttl (cred, got) (session_line (tok, d)) = (cred, smap_put got tok d)"
proof -
  note tok = token_okD [OF assms(1)]
  let ?l = "tok @ tab # digits (unat d) @ [nl]"
  have l: "c_str (session_line (tok, d)) = ?l" "?l \<noteq> []" "hd ?l = hd tok" "tab \<in> set ?l"
    using tok session_line_shape(1) [OF assms(1), of d] by (simp_all add: c_str_id)
  have parts: "takeWhile (\<lambda>c. c \<noteq> tab) ?l = tok" "dropWhile (\<lambda>c. c \<noteq> tab) ?l = tab # digits (unat d) @ [nl]"
    using tok(5) by (simp_all add: takeWhile_until dropWhile_until)
  have "strtoull (digits (unat d) @ [nl]) = Some (d, [nl])" by (rule strtoull_digits) simp
  then show ?thesis
    unfolding load_line_def Let_def prod.case l(1) parts using l tok assms(2,3) by (simp add: linorder_not_le [THEN iffD2] linorder_not_less [THEN iffD2])
qed

lemma fgets_session_lines:
  "(\<forall>kv \<in> set snap. token_ok (fst kv)) \<Longrightarrow> fgets_lines (concat (map session_line snap)) = map session_line snap"
proof (induction snap)
  case Nil
  then show ?case by (simp add: fgets_lines.simps)
next
  case (Cons kv snap)
  obtain tok d where kv: "kv = (tok, d)" by (cases kv)
  then have "token_ok tok" using Cons.prems by simp
  from session_line_shape [OF this, of d] fgets_lines_nl [OF session_line_shape(2,3) [OF this, of d]] Cons
  show ?case by (simp add: kv)
qed

lemma load_session_lines:
  "(\<forall>(tok, d) \<in> set snap. token_ok tok \<and> now < d \<and> d \<le> now + ttl) \<Longrightarrow>
   foldl (load_line now ttl) (cred, got) (map session_line snap) = (cred, foldl (\<lambda>t (k, v). smap_put t k v) got snap)"
  by (induction snap arbitrary: got) (auto simp: load_session_line)

text \<open>The lines before the sessions: only the credential line leaves something.\<close>

definition head_lines :: "string \<Rightarrow> string list" where
  "head_lines cred = [''# budyk sessions v2'' @ [nl]] @ (if cred \<noteq> '''' then [kCredentialLine @ cred @ [nl]] else []) @
     [''# token'' @ tab # ''deadline_ns'' @ [nl]]"

lemma fgets_session_text:
  assumes "credential_ok cred"
  shows "fgets_lines (session_text cred snap) = head_lines cred @ fgets_lines (concat (map session_line snap))"
proof -
  have cred: "c_str cred = cred" "nl \<notin> set (kCredentialLine @ cred)" "length (kCredentialLine @ cred) < 255"
    using assms by (auto simp: credential_ok_def kCredentialLine_def nl_def intro!: c_str_id)
  have first: "fgets_lines (''# budyk sessions v2'' @ nl # r) = (''# budyk sessions v2'' @ [nl]) # fgets_lines r" for r
    by (rule fgets_lines_nl) (simp_all add: nl_def)
  have third: "fgets_lines ((''# token'' @ tab # ''deadline_ns'') @ nl # r) = ((''# token'' @ tab # ''deadline_ns'') @ [nl]) # fgets_lines r" for r
    by (rule fgets_lines_nl) (simp_all add: nl_def tab_def)
  have second: "fgets_lines ((kCredentialLine @ cred) @ nl # r) = ((kCredentialLine @ cred) @ [nl]) # fgets_lines r" for r
    by (rule fgets_lines_nl [OF cred(2,3)])
  show ?thesis
    using first second third unfolding session_text_def head_lines_def cred(1) by simp
qed

lemma strip_eol_nl:
  assumes "credential_ok cred"
  shows "strip_eol (cred @ [nl]) = cred"
proof -
  have "cred = [] \<or> last cred \<noteq> nl \<and> last cred \<noteq> CHR 0x0D"
    using assms last_in_set [of cred] unfolding credential_ok_def by metis
  then have "strip_eol cred = cred" by (subst strip_eol.simps) auto
  then show ?thesis by (subst strip_eol.simps) simp
qed

lemma load_head_lines:
  assumes "credential_ok cred"
  shows "foldl (load_line now ttl) ('''', got) (head_lines cred) = (cred, got)"
proof -
  have "CHR 0x00 \<notin> set (kCredentialLine @ cred @ [nl])" using assms by (auto simp: credential_ok_def kCredentialLine_def)
  then have c: "c_str (kCredentialLine @ cred @ [nl]) = kCredentialLine @ cred @ [nl]" by (rule c_str_id)
  have credline: "load_line now ttl ('''', got) (kCredentialLine @ cred @ [nl]) = (cred, got)"
    unfolding load_line_def Let_def prod.case c using strip_eol_nl [OF assms] by (simp add: kCredentialLine_def)
  have first: "load_line now ttl (x, got) (''# budyk sessions v2'' @ [nl]) = (x, got)" for x
    by (simp add: load_line_def c_str_def kCredentialLine_def nl_def)
  have third: "load_line now ttl (x, got) (''# token'' @ tab # ''deadline_ns'' @ [nl]) = (x, got)" for x
    by (simp add: load_line_def c_str_def kCredentialLine_def nl_def tab_def)
  show ?thesis using first third credline by (auto simp: head_lines_def)
qed

text \<open>C19: What \<open>save\<close> wrote, \<open>load\<close> reads back. A fresh store with the same credential (or none), at a time when
  every session is still alive, holds the same sessions with the same deadlines as the store that
  was saved; a store with another credential takes none of them, and reports that there were some.\<close>

theorem session_file_roundtrip:
  assumes "smap_ok (ss_deadline st)" and "credential_ok (ss_credential st)"
    and "\<forall>(tok, d) \<in> set (ss_deadline st). token_ok tok \<and> now < d \<and> d \<le> now + ss_ttl_ns st2"
    and "save st disk SaveOk (Some path) = (0, disk')" and "ss_deadline st2 = []"
  shows "load st2 disk' ReadOk (Some path) now =
    (if ss_credential st2 = '''' \<or> ss_credential st2 = ss_credential st
     then (0, False, st2\<lparr>ss_deadline := ss_deadline st\<rparr>) else (0, ss_deadline st \<noteq> [], st2))"
proof -
  have stored: "disk' path = Some (session_text (ss_credential st) (ss_deadline st))"
    using assms(4) by (auto simp: save_def Let_def)
  have toks: "\<forall>kv \<in> set (ss_deadline st). token_ok (fst kv)" using assms(3) by auto
  have "foldl (load_line now (ss_ttl_ns st2)) ('''', []) (fgets_lines (session_text (ss_credential st) (ss_deadline st))) =
      (ss_credential st, ss_deadline st)"
    using fgets_session_text [OF assms(2)] fgets_session_lines [OF toks] load_head_lines [OF assms(2)]
      load_session_lines [OF assms(3)] smap_rebuild [OF assms(1)] by simp
  then show ?thesis using stored assms(5) smap_rebuild [OF assms(1)] by (simp add: load_def)
qed

lemma session_file_roundtrip_witness:
  "let st = (session_store_new 2)\<lparr>ss_deadline := [(''a1'', 3000000000), (''b2'', 3500000000)], ss_credential := ''Zm9v''\<rparr>;
       st2 = (session_store_new 2)\<lparr>ss_credential := ''YmFy''\<rparr>
   in load st2 (snd (save st (\<lambda>_. None) SaveOk (Some ''f''))) ReadOk (Some ''f'') 2000000000 = (0, True, st2)"
  unfolding Let_def
  by (subst session_file_roundtrip [where st = "(session_store_new 2)\<lparr>ss_deadline := [(''a1'', 3000000000), (''b2'', 3500000000)], ss_credential := ''Zm9v''\<rparr>"
        and disk = "\<lambda>_. None"])
    (simp_all add: session_store_new_def smap_ok_def credential_ok_def token_ok_def save_def Let_def tab_def nl_def)

end
