(* ===== verification/Login_Limiter.thy ===== *)
theory Login_Limiter
  imports Table
begin

text \<open>
  The throttle of failed logins (\<open>src/web/login_limiter.h\<close>, \<open>src/web/login_limiter.cpp\<close>): a window
  with a count of failures per address, and one for all addresses together. Times are seconds of
  the monotonic clock. The counts are unbounded here; that a count never passes its limit when
  every attempt asks first, so that the code's \<open>int\<close> does not overflow, is proved. Proved too: what
  \<open>retry_after\<close> answers in every state, and a bound on the number of passwords that can be tried in
  any span of the length of a window, over any history of attempts from any addresses.
\<close>

section \<open>State and operations\<close>

record limiter_entry =
  en_failures :: int
  en_window_start :: u64

definition entry_new :: limiter_entry where
  "entry_new = \<lparr>en_failures = 0, en_window_start = 0\<rparr>"

record login_limiter =
  li_max_failures :: int
  li_window_sec :: int
  li_global_max :: int
  li_peers :: "(string, limiter_entry) smap"
  li_global :: limiter_entry

definition kSweepAt :: nat where "kSweepAt = 256"
definition kMaxTracked :: nat where "kMaxTracked = 4096"

definition login_limiter_new :: "int \<Rightarrow> int \<Rightarrow> int \<Rightarrow> login_limiter" where
  "login_limiter_new max_failures window_sec global_max =
     \<lparr>li_max_failures = (if max_failures > 0 then max_failures else 1),
      li_window_sec = (if window_sec > 0 then window_sec else 1),
      li_global_max = (if global_max > 0 then global_max else 1),
      li_peers = [], li_global = entry_new\<rparr>"

definition window_end :: "login_limiter \<Rightarrow> limiter_entry \<Rightarrow> u64" where
  "window_end l e = en_window_start e + of_int (li_window_sec l)"

definition expired :: "login_limiter \<Rightarrow> limiter_entry \<Rightarrow> u64 \<Rightarrow> bool" where
  "expired l e now \<longleftrightarrow> en_failures e = 0 \<or> now \<ge> window_end l e"

definition sweep :: "login_limiter \<Rightarrow> u64 \<Rightarrow> login_limiter" where
  "sweep l now =
     (if length (li_peers l) < kSweepAt then l
      else let peers = filter (\<lambda>pe. \<not> expired l (snd pe) now) (li_peers l)
           in l\<lparr>li_peers := (if length peers > kMaxTracked then [] else peers)\<rparr>)"

text \<open>The conversion of the wait to \<open>int\<close> keeps the low 32 bits.\<close>

definition retry_after :: "login_limiter \<Rightarrow> string \<Rightarrow> u64 \<Rightarrow> int \<times> login_limiter" where
  "retry_after l0 peer now_sec =
     (let l = sweep l0 now_sec;
          blocking = (if \<not> expired l (li_global l) now_sec \<and> en_failures (li_global l) \<ge> li_global_max l
                      then Some (li_global l) else None);
          (blocking, l) =
            (case map_of (li_peers l) peer of None \<Rightarrow> (blocking, l)
             | Some e \<Rightarrow>
                 if expired l e now_sec then (blocking, l\<lparr>li_peers := smap_erase (li_peers l) peer\<rparr>)
                 else if en_failures e \<ge> li_max_failures l
                 then ((case blocking of None \<Rightarrow> Some e
                        | Some b \<Rightarrow> if en_window_start e > en_window_start b then Some e else Some b), l)
                 else (blocking, l))
      in case blocking of None \<Rightarrow> (0, l)
         | Some b \<Rightarrow>
             let until = window_end l b
             in ((if until > now_sec then sint (ucast (until - now_sec) :: 32 word) else 1), l))"

definition bump :: "login_limiter \<Rightarrow> u64 \<Rightarrow> limiter_entry \<Rightarrow> limiter_entry" where
  "bump l now_sec e =
     (let e = (if expired l e now_sec then e\<lparr>en_failures := 0, en_window_start := now_sec\<rparr> else e)
      in e\<lparr>en_failures := en_failures e + 1\<rparr>)"

definition record_failure :: "login_limiter \<Rightarrow> string \<Rightarrow> u64 \<Rightarrow> bool \<times> login_limiter" where
  "record_failure l peer now_sec =
     (let l = l\<lparr>li_global := bump l now_sec (li_global l)\<rparr>;
          e = bump l now_sec (case map_of (li_peers l) peer of None \<Rightarrow> entry_new | Some e \<Rightarrow> e)
      in (en_failures e = li_max_failures l, l\<lparr>li_peers := smap_put (li_peers l) peer e\<rparr>))"

definition record_success :: "login_limiter \<Rightarrow> string \<Rightarrow> login_limiter" where
  "record_success l peer = l\<lparr>li_peers := smap_erase (li_peers l) peer\<rparr>"

definition tracked :: "login_limiter \<Rightarrow> nat" where
  "tracked l = length (li_peers l)"

section \<open>One attempt\<close>

text \<open>
  How the login route uses the limiter: ask; when refused, no password is looked at; else the
  password is checked and the outcome recorded. A login without a password (\<open>None\<close>) is not checked.
\<close>

datatype verdict = Refused int | Wrong | Right | Missing

definition login_attempt :: "login_limiter \<Rightarrow> string \<Rightarrow> bool option \<Rightarrow> u64 \<Rightarrow> verdict \<times> login_limiter" where
  "login_attempt l peer pw_ok now_s =
     (case retry_after l peer now_s of (wait, l) \<Rightarrow>
        if wait > 0 then (Refused wait, l)
        else case pw_ok of None \<Rightarrow> (Missing, l)
             | Some ok \<Rightarrow> if \<not> ok then (Wrong, snd (record_failure l peer now_s)) else (Right, record_success l peer))"

text \<open>A history of attempts: the limiter after it, and the times of the wrong passwords that were checked.\<close>

definition attempt_step :: "login_limiter \<times> u64 list \<Rightarrow> string \<times> bool option \<times> u64 \<Rightarrow> login_limiter \<times> u64 list" where
  "attempt_step = (\<lambda>(l, wrong) (peer, pw_ok, now).
     case login_attempt l peer pw_ok now of (v, l') \<Rightarrow> (l', if v = Wrong then wrong @ [now] else wrong))"

definition attempts :: "login_limiter \<Rightarrow> (string \<times> bool option \<times> u64) list \<Rightarrow> login_limiter \<times> u64 list" where
  "attempts l as = foldl attempt_step (l, []) as"

section \<open>What \<open>retry_after\<close> answers\<close>

lemma sweep_fields [simp]:
  "li_max_failures (sweep l now) = li_max_failures l" "li_window_sec (sweep l now) = li_window_sec l"
  "li_global_max (sweep l now) = li_global_max l" "li_global (sweep l now) = li_global l"
  by (simp_all add: sweep_def Let_def)

lemma retry_fields [simp]:
  "li_max_failures (snd (retry_after l p now)) = li_max_failures l" "li_window_sec (snd (retry_after l p now)) = li_window_sec l"
  "li_global_max (snd (retry_after l p now)) = li_global_max l" "li_global (snd (retry_after l p now)) = li_global l"
  by (auto simp: retry_after_def Let_def split: option.splits)

text \<open>A window whose end is in range, and the seconds it has left.\<close>

definition window_ok :: "login_limiter \<Rightarrow> limiter_entry \<Rightarrow> bool" where
  "window_ok l e \<longleftrightarrow> unat (en_window_start e) + nat (li_window_sec l) < two64"

lemma window_end_unat: "0 < li_window_sec l \<Longrightarrow> window_ok l e \<Longrightarrow> unat (window_end l e) = unat (en_window_start e) + nat (li_window_sec l)"
proof -
  assume a: "0 < li_window_sec l" "window_ok l e"
  have "(of_int (li_window_sec l) :: u64) = of_nat (nat (li_window_sec l))" using a(1) by simp
  then show ?thesis using a(2) by (simp add: window_end_def window_ok_def unat_word_ariths unat_of_nat)
qed

definition blocks :: "login_limiter \<Rightarrow> int \<Rightarrow> limiter_entry \<Rightarrow> u64 \<Rightarrow> bool" where
  "blocks l limit e now \<longleftrightarrow> \<not> expired l e now \<and> en_failures e \<ge> limit"

lemma sint_small: "0 < k \<Longrightarrow> k < 2 ^ 31 \<Longrightarrow> unat (w :: u64) = k \<Longrightarrow> sint (ucast w :: 32 word) = int k"
proof -
  assume a: "0 < k" "k < 2 ^ 31" "unat w = k"
  have "uint (ucast w :: 32 word) = int k" using a by (simp add: unsigned_ucast_eq take_bit_eq_mod uint_nat)
  then show ?thesis using a(2) by (simp add: sint_uint signed_take_bit_int_eq_self)
qed

text \<open>The state at a time: the limits positive, every window begun by then, no end out of range.\<close>

definition limiter_ok :: "login_limiter \<Rightarrow> u64 \<Rightarrow> bool" where
  "limiter_ok l now \<longleftrightarrow> 0 < li_window_sec l \<and> li_window_sec l < 2 ^ 31 \<and> 0 < li_max_failures l \<and> 0 < li_global_max l \<and>
     unat now + nat (li_window_sec l) < two64 \<and>
     (\<forall>e \<in> insert (li_global l) (snd ` set (li_peers l)). en_window_start e \<le> now)"

lemma window_left:
  assumes "limiter_ok l now" and "en_window_start e \<le> now" and "\<not> expired l e now"
  shows "sint (ucast (window_end l e - now) :: 32 word) = int (unat (en_window_start e)) + li_window_sec l - int (unat now)"
    and "now < window_end l e" and "int (unat now) < int (unat (en_window_start e)) + li_window_sec l"
proof -
  have W: "0 < li_window_sec l" "li_window_sec l < 2 ^ 31" using assms(1) by (simp_all add: limiter_ok_def)
  have st: "unat (en_window_start e) \<le> unat now" using assms(2) by (simp add: word_le_nat_alt)
  then have "window_ok l e" using assms(1) by (simp add: window_ok_def limiter_ok_def)
  from window_end_unat [OF W(1) this] have we: "unat (window_end l e) = unat (en_window_start e) + nat (li_window_sec l)" .
  show lt: "now < window_end l e" using assms(3) by (simp add: expired_def not_le)
  then have lt': "unat now < unat (window_end l e)" by (simp add: word_less_nat_alt)
  then show "int (unat now) < int (unat (en_window_start e)) + li_window_sec l" using we W by arith
  have d: "unat (window_end l e - now) = unat (window_end l e) - unat now" using lt by (simp add: unat_sub)
  have small: "0 < unat (window_end l e) - unat now" "unat (window_end l e) - unat now < 2 ^ 31"
    using lt' we W st by simp_all
  have "sint (ucast (window_end l e - now) :: 32 word) = int (unat (window_end l e) - unat now)"
    by (rule sint_small [OF small d])
  also have "\<dots> = int (unat (en_window_start e)) + li_window_sec l - int (unat now)" using lt' we W by simp
  finally show "sint (ucast (window_end l e - now) :: 32 word) = int (unat (en_window_start e)) + li_window_sec l - int (unat now)" .
qed

lemma expired_sweep [simp]: "expired (sweep l now) = expired l" "window_end (sweep l now) = window_end l"
  by (simp_all add: expired_def window_end_def fun_eq_iff)

lemma sweep_peers: "set (li_peers (sweep l now)) \<subseteq> set (li_peers l)"
  by (auto simp: sweep_def Let_def)

lemma limiter_ok_sweep: "limiter_ok l now \<Longrightarrow> limiter_ok (sweep l now) now"
  using sweep_peers [of l now] by (auto simp: limiter_ok_def)

lemma window_end_peers [simp]: "window_end (l\<lparr>li_peers := t\<rparr>) e = window_end l e" "expired (l\<lparr>li_peers := t\<rparr>) e now = expired l e now"
  by (simp_all add: window_end_def expired_def)

lemma window_end_global [simp]: "window_end (l\<lparr>li_global := g\<rparr>) e = window_end l e" "expired (l\<lparr>li_global := g\<rparr>) e now = expired l e now"
  by (simp_all add: window_end_def expired_def)

text \<open>The seconds a window with a full count has left.\<close>

definition wait_of :: "login_limiter \<Rightarrow> int \<Rightarrow> limiter_entry \<Rightarrow> u64 \<Rightarrow> int" where
  "wait_of l limit e now = (if blocks l limit e now then int (unat (en_window_start e)) + li_window_sec l - int (unat now) else 0)"

lemma wait_of_pos: "limiter_ok l now \<Longrightarrow> en_window_start e \<le> now \<Longrightarrow> blocks l limit e now \<Longrightarrow> 0 < wait_of l limit e now"
  using window_left(3) [of l now e] by (simp add: wait_of_def blocks_def)

lemma wait_of_nonneg: "limiter_ok l now \<Longrightarrow> en_window_start e \<le> now \<Longrightarrow> 0 \<le> wait_of l limit e now"
  using wait_of_pos [of l now e limit] by (cases "blocks l limit e now") (auto simp: wait_of_def)

lemma retry_after_wait:
  assumes ok: "limiter_ok l now"
  shows "fst (retry_after l peer now) =
    max (wait_of l (li_global_max l) (li_global l) now)
        (case map_of (li_peers (sweep l now)) peer of None \<Rightarrow> 0 | Some e \<Rightarrow> wait_of l (li_max_failures l) e now)"
proof -
  have g: "en_window_start (li_global l) \<le> now" using ok by (simp add: limiter_ok_def)
  note gw = window_left [OF ok g] and g0 = wait_of_nonneg [OF ok g, of "li_global_max l"]
  show ?thesis
  proof (cases "map_of (li_peers (sweep l now)) peer")
    case None
    then show ?thesis using gw g0 by (auto simp: retry_after_def Let_def wait_of_def blocks_def max_def)
  next
    case (Some e)
    then have "en_window_start e \<le> now" using ok sweep_peers [of l now] by (force simp: limiter_ok_def dest: map_of_SomeD)
    note ew = window_left [OF ok this] and e0 = wait_of_nonneg [OF ok this, of "li_max_failures l"]
    have le: "en_window_start e > en_window_start (li_global l) \<longleftrightarrow> uint (en_window_start e) > uint (en_window_start (li_global l))"
      by (simp add: word_less_def)
    show ?thesis
      using Some gw g0 ew e0
      by (cases "blocks l (li_global_max l) (li_global l) now"; cases "blocks l (li_max_failures l) e now"; cases "expired l e now")
        (auto simp: retry_after_def Let_def wait_of_def blocks_def max_def le)
  qed
qed

section \<open>How many passwords can be tried\<close>

text \<open>The times in \<open>ts\<close> from \<open>t\<close> on, and those of the span of length \<open>w\<close> that begins at \<open>t\<close>.\<close>

definition since :: "nat \<Rightarrow> u64 list \<Rightarrow> nat" where
  "since t ts = length (filter (\<lambda>x. t \<le> unat x) ts)"

definition in_span :: "nat \<Rightarrow> nat \<Rightarrow> u64 list \<Rightarrow> nat" where
  "in_span t w ts = length (filter (\<lambda>x. t \<le> unat x \<and> unat x < t + w) ts)"

lemma since_snoc: "since t (ts @ [x]) = since t ts + (if t \<le> unat x then 1 else 0)"
  by (simp add: since_def)

lemma in_span_snoc: "in_span t w (ts @ [x]) = in_span t w ts + (if t \<le> unat x \<and> unat x < t + w then 1 else 0)"
  by (simp add: in_span_def)

lemma length_filter_mono: "(\<And>x. x \<in> set xs \<Longrightarrow> P x \<Longrightarrow> Q x) \<Longrightarrow> length (filter P xs) \<le> length (filter Q xs)"
  by (induction xs) (auto intro: le_SucI)

lemma length_filter_split: "(\<And>x. x \<in> set xs \<Longrightarrow> P x \<Longrightarrow> Q x \<or> R x) \<Longrightarrow> length (filter P xs) \<le> length (filter Q xs) + length (filter R xs)"
proof (induction xs)
  case (Cons x xs)
  then have "length (filter P xs) \<le> length (filter Q xs) + length (filter R xs)" by simp
  then show ?case using Cons.prems [of x] by auto
qed simp

text \<open>The wrong passwords so far and the window of all addresses: \<open>s\<close> its start, \<open>n\<close> its count, \<open>w\<close> its length.\<close>

definition windowed :: "nat \<Rightarrow> nat \<Rightarrow> nat \<Rightarrow> nat \<Rightarrow> u64 list \<Rightarrow> bool" where
  "windowed g w s n ts \<longleftrightarrow> n \<le> g \<and> (n = 0 \<longrightarrow> ts = []) \<and> (\<forall>x \<in> set ts. unat x < s + w) \<and> since s ts = n \<and>
     (\<forall>t. s < t + w \<longrightarrow> since t ts \<le> g + n) \<and> (\<forall>t. in_span t w ts \<le> 2 * g)"

lemma in_span_since: "in_span t w ts \<le> since t ts"
  unfolding in_span_def since_def by (rule length_filter_mono) simp

lemma windowed_start: "1 \<le> g \<Longrightarrow> 0 < w \<Longrightarrow> windowed g w (unat x) 1 [x]"
  by (auto simp: windowed_def since_def in_span_def)

lemma windowed_in_window:
  assumes "windowed g w s n ts" and "n < g" and "s \<le> unat x" and "unat x < s + w"
  shows "windowed g w s (Suc n) (ts @ [x])"
proof -
  have "in_span t w (ts @ [x]) \<le> 2 * g" for t
  proof (cases "t \<le> unat x \<and> unat x < t + w")
    case True
    then have "s < t + w" using assms(3) by simp
    then have "since t ts \<le> g + n" using assms(1) by (simp add: windowed_def)
    then show ?thesis using True assms(2) in_span_since [of t w ts] by (simp add: in_span_snoc)
  next
    case False
    then show ?thesis using assms(1) by (auto simp: in_span_snoc windowed_def)
  qed
  moreover have "since t (ts @ [x]) \<le> g + Suc n" if "s < t + w" for t
  proof -
    have "since t ts \<le> g + n" using that assms(1) by (simp add: windowed_def)
    then show ?thesis by (simp add: since_snoc)
  qed
  ultimately show ?thesis using assms by (auto simp: windowed_def since_snoc)
qed

lemma windowed_new_window:
  assumes "windowed g w s n ts" and "1 \<le> g" and "0 < w" and "s + w \<le> unat x"
  shows "windowed g w (unat x) 1 (ts @ [x])"
proof -
  have past: "\<forall>y \<in> set ts. unat y < unat x" using assms(1,4) by (auto simp: windowed_def)
  have none: "since (unat x) ts = 0" using past by (auto simp: since_def filter_empty_conv)
  have near: "since t ts \<le> g" if "unat x < t + w" for t
  proof -
    have "since t ts \<le> since s ts" unfolding since_def using that assms(4) by (intro length_filter_mono) simp
    then show ?thesis using assms(1) by (simp add: windowed_def)
  qed
  have span: "in_span t w (ts @ [x]) \<le> 2 * g" for t
  proof (cases "t \<le> unat x \<and> unat x < t + w")
    case True
    then show ?thesis using near [of t] in_span_since [of t w ts] assms(2) by (simp add: in_span_snoc)
  next
    case False
    then show ?thesis using assms(1) by (auto simp: in_span_snoc windowed_def)
  qed
  have "since t (ts @ [x]) \<le> g + 1" if "unat x < t + w" for t
    using near [OF that] by (simp add: since_snoc)
  then show ?thesis using assms none span past by (auto simp: windowed_def since_snoc)
qed

text \<open>The invariant of a history of attempts.\<close>

definition counted :: "login_limiter \<Rightarrow> u64 list \<Rightarrow> bool" where
  "counted l wrong \<longleftrightarrow> 0 \<le> en_failures (li_global l) \<and>
     windowed (nat (li_global_max l)) (nat (li_window_sec l)) (unat (en_window_start (li_global l))) (nat (en_failures (li_global l))) wrong \<and>
     (\<forall>e \<in> snd ` set (li_peers l). 0 \<le> en_failures e \<and> en_failures e \<le> li_max_failures l)"

lemma limiter_ok_later:
  "limiter_ok l now \<Longrightarrow> now \<le> later \<Longrightarrow> unat later + nat (li_window_sec l) < two64 \<Longrightarrow> limiter_ok l later"
  unfolding limiter_ok_def using order_trans by blast

lemma smap_put_values: "snd ` set (smap_put t k v) \<subseteq> insert v (snd ` set t)"
  by (induction t k v rule: smap_put.induct) auto

lemma retry_peers: "set (li_peers (snd (retry_after l p now))) \<subseteq> set (li_peers l)"
  using sweep_peers [of l now] by (auto simp: retry_after_def Let_def smap_erase_def split: option.splits if_splits)

lemma retry_keeps:
  assumes "limiter_ok l now" and "counted l wrong"
  shows "limiter_ok (snd (retry_after l p now)) now" "counted (snd (retry_after l p now)) wrong"
  using assms retry_peers [of l p now] by (auto simp: limiter_ok_def counted_def)

lemma bump_count:
  assumes "limiter_ok l now" and "0 \<le> en_failures e" and "en_failures e \<le> m" and "0 < m" and "\<not> blocks l m e now"
  shows "0 < en_failures (bump l now e)" "en_failures (bump l now e) \<le> m"
    "en_window_start e \<le> now \<Longrightarrow> en_window_start (bump l now e) \<le> now"
  using assms by (auto simp: bump_def Let_def blocks_def)

lemma unexpired_in_window:
  assumes "limiter_ok l now" and "en_window_start e \<le> now"
  shows "expired l e now \<longleftrightarrow> en_failures e = 0 \<or> unat (en_window_start e) + nat (li_window_sec l) \<le> unat now"
proof -
  have "0 < li_window_sec l" "window_ok l e" using assms by (auto simp: limiter_ok_def window_ok_def word_le_nat_alt)
  from window_end_unat [OF this] show ?thesis by (simp add: expired_def word_le_nat_alt)
qed

lemma bump_windowed:
  assumes ok: "limiter_ok l now" and st: "en_window_start e \<le> now" and f: "0 \<le> en_failures e" and g: "0 < g"
    and nb: "\<not> blocks l g e now"
    and w: "windowed (nat g) (nat (li_window_sec l)) (unat (en_window_start e)) (nat (en_failures e)) ts"
  shows "windowed (nat g) (nat (li_window_sec l)) (unat (en_window_start (bump l now e))) (nat (en_failures (bump l now e))) (ts @ [now])"
proof -
  have W: "0 < nat (li_window_sec l)" "1 \<le> nat g" using ok g by (simp_all add: limiter_ok_def)
  note ex = unexpired_in_window [OF ok st]
  show ?thesis
  proof (cases "expired l e now")
    case True
    then have b: "en_window_start (bump l now e) = now" "en_failures (bump l now e) = 1" by (simp_all add: bump_def)
    show ?thesis
    proof (cases "en_failures e = 0")
      case True
      then have "ts = []" using w by (simp add: windowed_def)
      then show ?thesis using windowed_start [OF W(2,1), of now] by (simp add: b)
    next
      case False
      then have "unat (en_window_start e) + nat (li_window_sec l) \<le> unat now" using ex True by simp
      from windowed_new_window [OF w W(2,1) this] show ?thesis by (simp add: b)
    qed
  next
    case False
    then have b: "en_window_start (bump l now e) = en_window_start e" "nat (en_failures (bump l now e)) = Suc (nat (en_failures e))"
      using f by (simp_all add: bump_def)
    have "nat (en_failures e) < nat g" using False nb g f by (simp add: blocks_def)
    from windowed_in_window [OF w this] show ?thesis using False ex st by (simp add: b word_le_nat_alt)
  qed
qed

lemma retry_zero:
  assumes ok: "limiter_ok l now" and z: "\<not> 0 < fst (retry_after l peer now)"
  shows "\<not> blocks l (li_global_max l) (li_global l) now"
    and "map_of (li_peers (snd (retry_after l peer now))) peer = Some e \<Longrightarrow> \<not> blocks l (li_max_failures l) e now"
proof -
  have g: "en_window_start (li_global l) \<le> now" using ok by (simp add: limiter_ok_def)
  show "\<not> blocks l (li_global_max l) (li_global l) now"
    using wait_of_pos [OF ok g, of "li_global_max l"] z by (auto simp: retry_after_wait [OF ok] less_max_iff_disj)
  assume e: "map_of (li_peers (snd (retry_after l peer now))) peer = Some e"
  then have sw: "map_of (li_peers (sweep l now)) peer = Some e"
    by (auto simp: retry_after_def Let_def smap_find_erase split: option.splits if_splits)
  then have "en_window_start e \<le> now" using ok sweep_peers [of l now] by (force simp: limiter_ok_def dest: map_of_SomeD)
  then show "\<not> blocks l (li_max_failures l) e now"
    using wait_of_pos [OF ok, of e "li_max_failures l"] z sw by (auto simp: retry_after_wait [OF ok] less_max_iff_disj)
qed

lemma failure_keeps:
  assumes ok: "limiter_ok l now" and c: "counted l wrong"
    and g: "\<not> blocks l (li_global_max l) (li_global l) now"
    and p: "\<And>e. map_of (li_peers l) peer = Some e \<Longrightarrow> \<not> blocks l (li_max_failures l) e now"
  shows "limiter_ok (snd (record_failure l peer now)) now" and "counted (snd (record_failure l peer now)) (wrong @ [now])"
proof -
  define e0 where "e0 = (case map_of (li_peers l) peer of None \<Rightarrow> entry_new | Some e \<Rightarrow> e)"
  have same: "bump (l\<lparr>li_global := x\<rparr>) = bump l" for x by (simp add: bump_def fun_eq_iff)
  have rf: "snd (record_failure l peer now) =
      l\<lparr>li_global := bump l now (li_global l), li_peers := smap_put (li_peers l) peer (bump l now e0)\<rparr>"
    by (simp add: record_failure_def Let_def e0_def same)
  have e0: "0 \<le> en_failures e0" "en_failures e0 \<le> li_max_failures l" "\<not> blocks l (li_max_failures l) e0 now" "en_window_start e0 \<le> now"
    using ok c p by (force simp: e0_def entry_new_def limiter_ok_def counted_def blocks_def expired_def split: option.splits dest!: map_of_SomeD)+
  have m: "0 < li_max_failures l" "0 < li_global_max l" "en_window_start (li_global l) \<le> now" using ok by (simp_all add: limiter_ok_def)
  have gf: "0 \<le> en_failures (li_global l)" "en_failures (li_global l) \<le> li_global_max l"
    using c m(2) unfolding counted_def windowed_def by linarith+
  note be = bump_count [OF ok e0(1,2) m(1) e0(3)] and bg = bump_count [OF ok gf m(2) g]
  have vals: "\<forall>e \<in> snd ` set (smap_put (li_peers l) peer (bump l now e0)). P e"
    if "P (bump l now e0)" "\<forall>e \<in> snd ` set (li_peers l). P e" for P
  proof
    fix e
    assume "e \<in> snd ` set (smap_put (li_peers l) peer (bump l now e0))"
    then have "e \<in> insert (bump l now e0) (snd ` set (li_peers l))" by (rule subsetD [OF smap_put_values])
    then show "P e" using that(1) bspec [OF that(2)] by (elim insertE) simp_all
  qed
  have starts: "\<forall>e \<in> snd ` set (smap_put (li_peers l) peer (bump l now e0)). en_window_start e \<le> now"
    by (rule vals) (use be(3) [OF e0(4)] ok in \<open>simp_all add: limiter_ok_def\<close>)
  have counts: "\<forall>e \<in> snd ` set (smap_put (li_peers l) peer (bump l now e0)). 0 \<le> en_failures e \<and> en_failures e \<le> li_max_failures l"
    by (rule vals) (use be(1,2) c in \<open>simp_all add: counted_def\<close>)
  have gl: "en_window_start (bump l now (li_global l)) \<le> now" "0 \<le> en_failures (bump l now (li_global l))"
    using bg(3) [OF m(3)] bg(1) by simp_all
  show "limiter_ok (snd (record_failure l peer now)) now"
    using ok starts gl(1) unfolding rf limiter_ok_def by simp
  have "windowed (nat (li_global_max l)) (nat (li_window_sec l)) (unat (en_window_start (bump l now (li_global l))))
      (nat (en_failures (bump l now (li_global l)))) (wrong @ [now])"
    using c by (intro bump_windowed [OF ok m(3) gf(1) m(2) g]) (simp add: counted_def)
  then show "counted (snd (record_failure l peer now)) (wrong @ [now])"
    using gl(2) counts unfolding rf counted_def by simp
qed

lemma attempt_keeps:
  assumes ok: "limiter_ok l now" and c: "counted l wrong" and st: "attempt_step (l, wrong) (peer, pw, now) = (l', wrong')"
  shows "limiter_ok l' now \<and> counted l' wrong' \<and> li_window_sec l' = li_window_sec l \<and> li_global_max l' = li_global_max l \<and>
    li_max_failures l' = li_max_failures l"
proof -
  obtain wait lr where r: "retry_after l peer now = (wait, lr)" by (cases "retry_after l peer now")
  have lr: "limiter_ok lr now" "counted lr wrong" using retry_keeps [OF ok c, of peer] r by simp_all
  have fields: "li_window_sec lr = li_window_sec l" "li_global_max lr = li_global_max l" "li_max_failures lr = li_max_failures l"
    "li_global lr = li_global l" using retry_fields [of l peer now] r by simp_all
  have bl: "blocks lr = blocks l" using fields by (simp add: blocks_def expired_def window_end_def fun_eq_iff)
  show ?thesis
  proof (cases "0 < wait \<or> pw \<noteq> Some False")
    case True
    then have "(l' = lr \<or> l' = record_success lr peer) \<and> wrong' = wrong"
      using st r by (auto simp: attempt_step_def login_attempt_def split: option.splits if_splits prod.splits)
    then show ?thesis using lr fields by (fastforce simp: record_success_def limiter_ok_def counted_def smap_erase_def)
  next
    case False
    then have l': "l' = snd (record_failure lr peer now)" "wrong' = wrong @ [now]"
      using st r by (auto simp: attempt_step_def login_attempt_def)
    have "\<not> blocks lr (li_global_max lr) (li_global lr) now"
      and "\<And>e. map_of (li_peers lr) peer = Some e \<Longrightarrow> \<not> blocks lr (li_max_failures lr) e now"
      using retry_zero [OF ok, of peer] False r by (simp_all add: bl fields)
    from failure_keeps [OF lr this] show ?thesis using fields by (simp add: l' record_failure_def Let_def)
  qed
qed

lemma attempts_keep:
  assumes "limiter_ok l t0" and "counted l []" and "sorted (t0 # map (snd \<circ> snd) as)"
    and "\<forall>a \<in> set as. unat (snd (snd a)) + nat (li_window_sec l) < two64"
  shows "counted (fst (attempts l as)) (snd (attempts l as)) \<and>
    limiter_ok (fst (attempts l as)) (last (t0 # map (snd \<circ> snd) as)) \<and>
    li_window_sec (fst (attempts l as)) = li_window_sec l \<and> li_global_max (fst (attempts l as)) = li_global_max l \<and>
    li_max_failures (fst (attempts l as)) = li_max_failures l"
  using assms(3,4)
proof (induction as rule: rev_induct)
  case Nil
  then show ?case using assms(1,2) by (simp add: attempts_def)
next
  case (snoc a as)
  obtain peer pw now where a: "a = (peer, pw, now)" by (cases a) auto
  let ?L = "fst (attempts l as)" and ?W = "snd (attempts l as)"
  have srt0: "sorted ((t0 # map (snd \<circ> snd) as) @ [now])" using snoc.prems(1) by (simp add: a comp_def)
  then have srt: "sorted (t0 # map (snd \<circ> snd) as)" unfolding sorted_append by blast
  have late: "last (t0 # map (snd \<circ> snd) as) \<le> now"
    using srt0 last_in_set [of "t0 # map (snd \<circ> snd) as"] unfolding sorted_append by (metis list.distinct(1) list.set_intros(1))
  have ih: "counted ?L ?W" "limiter_ok ?L (last (t0 # map (snd \<circ> snd) as))" "li_window_sec ?L = li_window_sec l"
    "li_global_max ?L = li_global_max l" "li_max_failures ?L = li_max_failures l"
    using snoc.IH [OF srt] snoc.prems(2) by (simp_all add: comp_def)
  have ok: "limiter_ok ?L now" using limiter_ok_later [OF ih(2) late] snoc.prems(2) ih(3) by (simp add: a)
  obtain l' wrong' where st: "attempt_step (?L, ?W) (peer, pw, now) = (l', wrong')" by (cases "attempt_step (?L, ?W) (peer, pw, now)")
  have "attempts l (as @ [a]) = (l', wrong')" using st by (simp add: attempts_def a)
  then show ?case using attempt_keeps [OF ok ih(1) st] ih by (simp add: a)
qed

text \<open>C11: However many addresses take part, at most \<open>2 * global_max\<close> wrong passwords are checked in any span
  of \<open>window_sec\<close> seconds: over every history of login attempts on a fresh limiter, from any
  addresses, in the order of a clock that stays in range. And no count of an address passes
  \<open>max_failures\<close>, so the counters never overflow.\<close>

theorem login_guesses_bounded:
  assumes "w < 2 ^ 31" and "sorted (map (snd \<circ> snd) as)" and "\<forall>a \<in> set as. unat (snd (snd a)) < 2 ^ 63"
    and "attempts (login_limiter_new m w g) as = (l, wrong)"
  shows "in_span t (nat (max 1 w)) wrong \<le> 2 * nat (max 1 g) \<and>
    (\<forall>e \<in> snd ` set (li_peers l). 0 \<le> en_failures e \<and> en_failures e \<le> max 1 m)"
proof -
  let ?l = "login_limiter_new m w g"
  have ok: "limiter_ok ?l 0" "counted ?l []" using assms(1)
    by (auto simp: limiter_ok_def login_limiter_new_def entry_new_def counted_def windowed_def since_def in_span_def)
  have f: "li_window_sec ?l = max 1 w" "li_global_max ?l = max 1 g" "li_max_failures ?l = max 1 m"
    by (auto simp: login_limiter_new_def)
  have "\<forall>a \<in> set as. unat (snd (snd a)) + nat (li_window_sec ?l) < two64" using assms(1,3) by (fastforce simp: f)
  from attempts_keep [OF ok _ this] assms(2,4)
  have "counted l wrong" "li_window_sec l = max 1 w" "li_global_max l = max 1 g" "li_max_failures l = max 1 m" by (simp_all add: f)
  then show ?thesis
    by (auto simp: counted_def windowed_def)
qed

lemma login_guesses_bounded_witness:
  "in_span 5 (nat (max 1 10)) (snd (attempts (login_limiter_new 1 10 2) [(''a'', Some False, 5), (''b'', Some False, 6), (''c'', Some False, 7)]))
     \<le> 2 * nat (max 1 2) \<and>
   snd (attempts (login_limiter_new 1 10 2) [(''a'', Some False, 5), (''b'', Some False, 6), (''c'', Some False, 7)]) = [5, 6]"
  using login_guesses_bounded [of 10 "[(''a'', Some False, 5), (''b'', Some False, 6), (''c'', Some False, 7)]" 1 2 _ _ 5, OF _ _ _ prod.collapse [symmetric]]
  by (simp add: attempts_def attempt_step_def login_attempt_def retry_after_def record_failure_def bump_def sweep_def expired_def window_end_def
      login_limiter_new_def entry_new_def kSweepAt_def Let_def)

end
