(* ===== verification/Http_Util.thy ===== *)
theory Http_Util
  imports Text "HOL-Library.Sublist"
begin

text \<open>
  The small parsers of request data (\<open>src/web/http_util.cpp\<close>), and the request they work on
  (\<open>HttpRequest\<close> of \<open>src/web/server.h\<close>): one cookie of a \<open>Cookie\<close> line, the
  path and query of a request target, one value of a query, and comparison of header text without
  regard to case. The loops over positions are recursions over what is left of the string. Proved:
  on the text of a list of pairs, \<open>query_find\<close> and \<open>cookie_value\<close> are lookup in that list;
  \<open>query_u64\<close> is the number of the digits, cut off at the largest \<open>uint64_t\<close>; and the two
  comparisons are equality and substring of the lower-case texts.
\<close>

section \<open>Definitions\<close>

definition is_blank :: "char \<Rightarrow> bool" where
  "is_blank c \<longleftrightarrow> c = CHR '' '' \<or> c = CHR 0x09"

text \<open>
  \<open>cookie_scan needle s\<close>: the loop with \<open>s\<close> what stands from position \<open>p\<close> on. The length given to
  \<open>substr\<close> wraps below zero when the needle reaches past the end of the entry, and then everything
  to the end of the line is taken.
\<close>

function cookie_scan :: "string \<Rightarrow> string \<Rightarrow> string" where
  "cookie_scan needle s =
     (if s = [] then []
      else let entry = dropWhile is_blank (takeWhile (\<lambda>c. c \<noteq> CHR '';'') s); tail = dropWhile (\<lambda>c. c \<noteq> CHR '';'') s
           in if take (length needle) (entry @ tail) = needle
              then (if length needle \<le> length entry then drop (length needle) entry else drop (length needle) (entry @ tail))
              else cookie_scan needle (tl tail))"
  by pat_completeness auto
termination
proof (relation "measure (length \<circ> snd)")
  fix needle s :: string and entry tail
  assume "s \<noteq> []" "tail = dropWhile (\<lambda>c. c \<noteq> CHR '';'') s"
  then show "((needle, tl tail), (needle, s)) \<in> measure (length \<circ> snd)"
    using length_dropWhile_le [of "\<lambda>c. c \<noteq> CHR '';''" s] by (cases s) (auto simp: less_eq_Suc_le [symmetric])
qed simp

declare cookie_scan.simps [simp del]

definition cookie_value :: "string \<Rightarrow> string \<Rightarrow> string" where
  "cookie_value cookie_header name = cookie_scan (c_str name @ ''='') cookie_header"

definition split_target :: "string \<Rightarrow> string \<times> string" where
  "split_target target =
     (let path = takeWhile (\<lambda>c. c \<noteq> CHR ''?'') target; q = dropWhile (\<lambda>c. c \<noteq> CHR ''?'') target
      in if q = [] then (target, []) else (path, tl q))"

function query_scan :: "string \<Rightarrow> string \<Rightarrow> string option" where
  "query_scan needle s =
     (if s = [] then None
      else let entry = takeWhile (\<lambda>c. c \<noteq> CHR ''&'') s; tail = dropWhile (\<lambda>c. c \<noteq> CHR ''&'') s
           in if take (length needle) s = needle
              then Some (if length needle \<le> length entry then drop (length needle) entry else drop (length needle) s)
              else query_scan needle (tl tail))"
  by pat_completeness auto
termination
proof (relation "measure (length \<circ> snd)")
  fix needle s :: string and entry tail
  assume "s \<noteq> []" "tail = dropWhile (\<lambda>c. c \<noteq> CHR ''&'') s"
  then show "((needle, tl tail), (needle, s)) \<in> measure (length \<circ> snd)"
    using length_dropWhile_le [of "\<lambda>c. c \<noteq> CHR ''&''" s] by (cases s) (auto simp: less_eq_Suc_le [symmetric])
qed simp

declare query_scan.simps [simp del]

definition query_find :: "string \<Rightarrow> string \<Rightarrow> string option" where
  "query_find query key = query_scan (c_str key @ ''='') query"

text \<open>The digits of \<open>query_u64\<close>: \<open>None\<close> for a character that is not one.\<close>

fun query_digits :: "u64 \<Rightarrow> string \<Rightarrow> u64 option" where
  "query_digits out [] = Some out"
| "query_digits out (c # s) =
     (if \<not> is_digit c then None
      else let digit = of_nat (digit_value c)
           in if out > (- 1 - digit) div 10 then Some (- 1) else query_digits (out * 10 + digit) s)"

definition query_u64 :: "string \<Rightarrow> string \<Rightarrow> u64 \<Rightarrow> u64" where
  "query_u64 query key fallback =
     (case query_find query key of None \<Rightarrow> fallback
      | Some val \<Rightarrow> if val = [] then fallback else (case query_digits 0 val of None \<Rightarrow> fallback | Some n \<Rightarrow> n))"

definition query_str :: "string \<Rightarrow> string \<Rightarrow> string" where
  "query_str query key = (case query_find query key of None \<Rightarrow> [] | Some val \<Rightarrow> val)"

definition same_lower :: "char \<Rightarrow> char \<Rightarrow> bool" where
  "same_lower x y \<longleftrightarrow> to_lower x = to_lower y"

definition ascii_ieq :: "string \<Rightarrow> string \<Rightarrow> bool" where
  "ascii_ieq a b0 = (let b = c_str b0 in if length a \<noteq> length b then False else list_all2 same_lower a b)"

fun icontains_from :: "string \<Rightarrow> string \<Rightarrow> bool" where
  "icontains_from needle [] = False"
| "icontains_from needle (c # hay) =
     (length needle \<le> length (c # hay) \<and>
      (list_all2 same_lower (take (length needle) (c # hay)) needle \<or> icontains_from needle hay))"

definition ascii_icontains :: "string \<Rightarrow> string \<Rightarrow> bool" where
  "ascii_icontains hay needle0 = (let needle = c_str needle0 in if needle = [] then True else icontains_from needle hay)"

section \<open>Requests and responses\<close>

text \<open>\<open>HttpRequest\<close> of \<open>src/web/server.h\<close> and its lookup of a header.\<close>

record http_request =
  rq_method :: string
  rq_path :: string
  rq_query :: string
  rq_peer :: string
  rq_headers :: "(string \<times> string) list"
  rq_body :: string

fun find_header :: "(string \<times> string) list \<Rightarrow> string \<Rightarrow> string" where
  "find_header [] name = []"
| "find_header (kv # kvs) name = (if ascii_ieq (fst kv) name then snd kv else find_header kvs name)"

definition header :: "http_request \<Rightarrow> string \<Rightarrow> string" where
  "header req name = find_header (rq_headers req) name"

section \<open>Lookup in the text of a list of pairs\<close>

text \<open>A key with no equals sign, in front of \<open>k = v\<close>: only the same key matches.\<close>

lemma key_prefix:
  assumes "CHR ''='' \<notin> set key" and "CHR ''='' \<notin> set k"
  shows "take (Suc (length key)) (k @ CHR ''='' # v) = key @ ''='' \<longleftrightarrow> k = key"
proof
  assume t: "take (Suc (length key)) (k @ CHR ''='' # v) = key @ ''=''"
  then have "k @ CHR ''='' # v = key @ CHR ''='' # drop (Suc (length key)) (k @ CHR ''='' # v)"
    using append_take_drop_id [of "Suc (length key)" "k @ CHR ''='' # v"] by simp
  from arg_cong [OF this, of "takeWhile (\<lambda>c. c \<noteq> CHR ''='')"] show "k = key"
    using assms by (simp only: takeWhile_until list.sel simp_thms)
qed simp

text \<open>The text of a list of pairs, joined by a separator.\<close>

fun joined :: "string \<Rightarrow> (string \<times> string) list \<Rightarrow> string" where
  "joined sep [] = []"
| "joined sep ((k, v) # kvs) = k @ CHR ''='' # v @ (if kvs = [] then [] else sep @ joined sep kvs)"

definition pair_ok :: "char \<Rightarrow> string \<times> string \<Rightarrow> bool" where
  "pair_ok sep = (\<lambda>(k, v). CHR ''='' \<notin> set k \<and> sep \<notin> set k \<and> sep \<notin> set v \<and> (k = [] \<or> \<not> is_blank (hd k)))"

lemma query_scan_pair:
  assumes "CHR ''='' \<notin> set key" and "pair_ok (CHR ''&'') (k, v)" and "t = [] \<or> hd t = CHR ''&''"
  shows "query_scan (key @ ''='') (k @ CHR ''='' # v @ t) = (if k = key then Some v else query_scan (key @ ''='') (tl t))"
proof -
  let ?e = "k @ CHR ''='' # v"
  have e: "CHR ''&'' \<notin> set ?e" "CHR ''='' \<notin> set k" using assms(2) by (auto simp: pair_ok_def)
  have seg: "takeWhile (\<lambda>c. c \<noteq> CHR ''&'') (?e @ t) = ?e" "dropWhile (\<lambda>c. c \<noteq> CHR ''&'') (?e @ t) = t"
    using takeWhile_until [OF e(1) assms(3)] dropWhile_until [OF e(1) assms(3)] by simp_all
  have "query_scan (key @ ''='') (?e @ t) = (if k = key then Some v else query_scan (key @ ''='') (tl t))"
    using key_prefix [OF assms(1) e(2), of "v @ t"] by (subst query_scan.simps) (simp only: seg Let_def, simp)
  then show ?thesis by simp
qed

lemma cookie_scan_pair:
  assumes "CHR ''='' \<notin> set key" and "pair_ok (CHR '';'') (k, v)" and "t = [] \<or> hd t = CHR '';''" and "b = [] \<or> b = '' ''"
  shows "cookie_scan (key @ ''='') (b @ k @ CHR ''='' # v @ t) = (if k = key then v else cookie_scan (key @ ''='') (tl t))"
proof -
  let ?e = "b @ k @ CHR ''='' # v"
  have e: "CHR '';'' \<notin> set ?e" "CHR ''='' \<notin> set k" using assms(2,4) by (auto simp: pair_ok_def)
  have seg: "takeWhile (\<lambda>c. c \<noteq> CHR '';'') (?e @ t) = ?e" "dropWhile (\<lambda>c. c \<noteq> CHR '';'') (?e @ t) = t"
    using takeWhile_until [OF e(1) assms(3)] dropWhile_until [OF e(1) assms(3)] by simp_all
  have skip: "dropWhile is_blank ?e = k @ CHR ''='' # v"
    using assms(2,4) by (cases k) (auto simp: pair_ok_def is_blank_def)
  have "cookie_scan (key @ ''='') (?e @ t) = (if k = key then v else cookie_scan (key @ ''='') (tl t))"
    using key_prefix [OF assms(1) e(2), of "v @ t"] by (subst cookie_scan.simps) (simp only: seg skip Let_def, simp)
  then show ?thesis by simp
qed

lemma query_scan_joined:
  "CHR ''='' \<notin> set key \<Longrightarrow> list_all (pair_ok (CHR ''&'')) kvs \<Longrightarrow> query_scan (key @ ''='') (joined ''&'' kvs) = map_of kvs key"
proof (induction kvs)
  case Nil
  then show ?case by (simp add: query_scan.simps)
next
  case (Cons kv kvs)
  obtain k v where kv: "kv = (k, v)" by (cases kv)
  show ?case
    using Cons query_scan_pair [of key k v "if kvs = [] then [] else ''&'' @ joined ''&'' kvs"] by (auto simp: kv query_scan.simps [of _ "[]"])
qed

lemma cookie_scan_joined:
  "CHR ''='' \<notin> set key \<Longrightarrow> list_all (pair_ok (CHR '';'')) kvs \<Longrightarrow> b = [] \<or> b = '' '' \<Longrightarrow> kvs \<noteq> [] \<Longrightarrow>
   cookie_scan (key @ ''='') (b @ joined ''; '' kvs) = (case map_of kvs key of None \<Rightarrow> [] | Some v \<Rightarrow> v)"
proof (induction kvs arbitrary: b)
  case (Cons kv kvs)
  obtain k v where kv: "kv = (k, v)" by (cases kv)
  show ?case
    using Cons.prems Cons.IH [of "'' ''"] cookie_scan_pair [of key k v "if kvs = [] then [] else ''; '' @ joined ''; '' kvs" b]
    by (auto simp: kv cookie_scan.simps [of _ "[]"])
qed simp

text \<open>On the text of a list of pairs, the parsers are lookup in the list: \<open>query_find\<close> on the pairs joined by
  an ampersand, \<open>cookie_value\<close> on the pairs joined by a semicolon and a blank, the first pair of a
  key counting. The keys hold no equals sign and no separator, the values no separator.\<close>

theorem parsers_are_lookup:
  assumes "CHR ''='' \<notin> set key" and "CHR 0x00 \<notin> set key"
  shows "(list_all (pair_ok (CHR ''&'')) qs \<longrightarrow> query_find (joined ''&'' qs) key = map_of qs key) \<and>
    (list_all (pair_ok (CHR '';'')) cs \<longrightarrow>
       cookie_value (joined ''; '' cs) key = (case map_of cs key of None \<Rightarrow> '''' | Some v \<Rightarrow> v))"
  using query_scan_joined [OF assms(1), of qs] cookie_scan_joined [OF assms(1), of cs "[]"]
  by (cases "cs = []") (auto simp: query_find_def cookie_value_def c_str_id [OF assms(2)] cookie_scan.simps [of _ "[]"])

lemma parsers_are_lookup_witness:
  "query_find ''since=5&level=L2&limit=9'' ''level'' = Some ''L2'' \<and> cookie_value ''a=1; sid=xyz; b='' ''sid'' = ''xyz''"
  using parsers_are_lookup [of "''level''" "[(''since'', ''5''), (''level'', ''L2''), (''limit'', ''9'')]" "[]"]
    parsers_are_lookup [of "''sid''" "[]" "[(''a'', ''1''), (''sid'', ''xyz''), (''b'', [])]"]
  by (simp add: pair_ok_def is_blank_def)

section \<open>Numbers\<close>

lemma digit_value_lt: "is_digit c \<Longrightarrow> digit_value c < 10"
  by (auto simp: is_digit_def digit_value_def Let_def)

lemma nat_of_digits_from: "m \<le> foldl (\<lambda>n c. n * 10 + digit_value c) m s"
proof (induction s arbitrary: m)
  case (Cons c s)
  from Cons [of "m * 10 + digit_value c"] show ?case by simp
qed simp

lemma unat_u64_max: "unat (- 1 :: u64) = two64 - 1"
  by (simp add: unsigned_minus_1_eq_mask mask_eq_exp_minus_1)

lemma overflow_test:
  assumes "d < 10"
  shows "(- 1 - of_nat d :: u64) div 10 < out \<longleftrightarrow> two64 \<le> unat out * 10 + d"
proof -
  have d: "unat (of_nat d :: u64) = d" using assms by (simp add: unat_of_nat)
  have "unat (- 1 - of_nat d :: u64) = two64 - 1 - d" using assms by (subst unat_sub) (simp_all add: d word_le_nat_alt unat_u64_max)
  then have "unat ((- 1 - of_nat d :: u64) div 10) = (two64 - 1 - d) div 10" by (simp add: unat_div)
  then show ?thesis using assms by (simp add: word_less_nat_alt) linarith
qed

lemma query_digits_value:
  "list_all is_digit s \<Longrightarrow> \<exists>n. query_digits out s = Some n \<and> unat n = min (foldl (\<lambda>n c. n * 10 + digit_value c) (unat out) s) (two64 - 1)"
proof (induction s arbitrary: out)
  case Nil
  then show ?case using unat_lt_two64 [of out] by simp
next
  case (Cons c s)
  let ?d = "digit_value c"
  have d: "?d < 10" using Cons.prems digit_value_lt by simp
  show ?case
  proof (cases "two64 \<le> unat out * 10 + ?d")
    case True
    then have "two64 \<le> foldl (\<lambda>n c. n * 10 + digit_value c) (unat out * 10 + ?d) s"
      using nat_of_digits_from [of "unat out * 10 + ?d" s] by linarith
    then show ?thesis using True overflow_test [OF d, of out] Cons.prems by (simp add: Let_def unat_u64_max)
  next
    case False
    then have "unat (out * 10 + of_nat ?d) = unat out * 10 + ?d" using d by (simp add: unat_word_ariths unat_of_nat)
    then show ?thesis using False overflow_test [OF d, of out] Cons.IH [of "out * 10 + of_nat ?d"] Cons.prems by (simp add: Let_def)
  qed
qed

text \<open>A number in a query: the value of \<open>key\<close>, when it is digits only, is read as the number they write, cut off
  at the largest \<open>uint64_t\<close>; without the key, or with no value, the fallback is given.\<close>

theorem query_u64_value:
  shows "(query_find query key = Some val \<and> val \<noteq> [] \<and> list_all is_digit val \<longrightarrow>
      unat (query_u64 query key fallback) = min (nat_of_digits val) (two64 - 1)) \<and>
    (query_find query key = None \<or> query_find query key = Some [] \<longrightarrow> query_u64 query key fallback = fallback)"
  using query_digits_value [of val 0] by (auto simp: query_u64_def nat_of_digits_def)

theorem query_u64_value_witness:
  "unat (query_u64 ''a=1&limit=99999999999999999999'' ''limit'' 7) = two64 - 1"
  using query_u64_value [of "''a=1&limit=99999999999999999999''" "''limit''" "''99999999999999999999''" 7]
  by (simp add: query_find_def query_scan.simps c_str_def is_digit_def nat_of_digits_def digit_value_def)

section \<open>Comparison without regard to case\<close>

lemma same_lower_lists: "list_all2 same_lower a b \<longleftrightarrow> map to_lower a = map to_lower b"
proof (induction a arbitrary: b)
  case (Cons x a)
  then show ?case by (cases b) (auto simp: same_lower_def)
qed simp

lemma ascii_ieq_iff: "ascii_ieq a b \<longleftrightarrow> map to_lower a = map to_lower (c_str b)"
  by (auto simp: ascii_ieq_def Let_def same_lower_lists dest: map_eq_imp_length_eq)

lemma prefix_take: "prefix xs ys \<longleftrightarrow> take (length xs) ys = xs"
  by (metis append_eq_conv_conj prefix_def take_is_prefix)

lemma icontains_from_iff: "needle \<noteq> [] \<Longrightarrow> icontains_from needle hay \<longleftrightarrow> sublist (map to_lower needle) (map to_lower hay)"
proof (induction hay)
  case (Cons c hay)
  have "sublist (map to_lower needle) (map to_lower (c # hay)) \<Longrightarrow> length needle \<le> length (c # hay)"
    by (drule sublist_length_le) simp
  then show ?case
    using Cons by (auto simp: same_lower_lists prefix_take take_map sublist_Cons_right take_Cons')
qed simp

lemma ascii_icontains_iff: "ascii_icontains hay needle \<longleftrightarrow> sublist (map to_lower (c_str needle)) (map to_lower hay)"
  by (simp add: ascii_icontains_def icontains_from_iff Let_def)

end
