(* ===== verification/Json_Text.thy ===== *)
theory Json_Text
  imports Text
begin

unbundle bit_operations_syntax

text \<open>
  Escaping and decoding of JSON strings and repair of UTF-8 (\<open>src/core/json_text.cpp\<close>), and the
  lookup of one string field in a small JSON object (\<open>json_get_string\<close> of \<open>src/web/json.cpp\<close>). The
  loops over positions are recursions over what is left of the string. Proved: decoding what was
  escaped gives the text as valid UTF-8, the repaired text is valid and a valid text is left alone,
  what is escaped cannot end the string it stands in, and the login body of the terminal client
  gives the password back.
\<close>

section \<open>Definitions\<close>

abbreviation bslash :: char where "bslash \<equiv> CHR 0x5C"
abbreviation quot :: char where "quot \<equiv> CHR 0x22"

definition byte_at :: "string \<Rightarrow> nat \<Rightarrow> nat" where
  "byte_at s k = of_char (s ! k)"

definition hex_value :: "char \<Rightarrow> nat option" where
  "hex_value c = (let n = of_char c :: nat in
     if 48 \<le> n \<and> n \<le> 57 then Some (n - 48) else if 97 \<le> n \<and> n \<le> 102 then Some (n - 97 + 10)
     else if 65 \<le> n \<and> n \<le> 70 then Some (n - 65 + 10) else None)"

fun hex_loop :: "nat \<Rightarrow> string \<Rightarrow> nat" where
  "hex_loop code [] = code"
| "hex_loop code (h # hs) = (case hex_value h of None \<Rightarrow> 0xFFFD | Some d \<Rightarrow> hex_loop (push_bit 4 code OR d) hs)"

definition hex4 :: "string \<Rightarrow> nat" where
  "hex4 s = hex_loop 0 (take 4 s)"

definition append_utf8 :: "nat \<Rightarrow> string" where
  "append_utf8 code =
     (if code < 0x80 then [char_of code]
      else if code < 0x800 then [char_of (0xC0 OR drop_bit 6 code), char_of (0x80 OR (code AND 0x3F))]
      else if code < 0x10000
      then [char_of (0xE0 OR drop_bit 12 code), char_of (0x80 OR (drop_bit 6 code AND 0x3F)), char_of (0x80 OR (code AND 0x3F))]
      else [char_of (0xF0 OR drop_bit 18 code), char_of (0x80 OR (drop_bit 12 code AND 0x3F)),
            char_of (0x80 OR (drop_bit 6 code AND 0x3F)), char_of (0x80 OR (code AND 0x3F))])"

text \<open>From the first byte: the length of the sequence (0: none begins so) and the range of the second byte.\<close>

definition utf8_lead :: "nat \<Rightarrow> nat \<times> nat \<times> nat" where
  "utf8_lead c =
     (if 0xC2 \<le> c \<and> c \<le> 0xDF then (2, 0x80, 0xBF)
      else if c = 0xE0 then (3, 0xA0, 0xBF)
      else if c = 0xED then (3, 0x80, 0x9F)
      else if 0xE1 \<le> c \<and> c \<le> 0xEF then (3, 0x80, 0xBF)
      else if c = 0xF0 then (4, 0x90, 0xBF)
      else if 0xF1 \<le> c \<and> c \<le> 0xF3 then (4, 0x80, 0xBF)
      else if c = 0xF4 then (4, 0x80, 0x8F)
      else (0, 0x80, 0xBF))"

definition utf8_len :: "string \<Rightarrow> nat" where
  "utf8_len s =
     (case utf8_lead (byte_at s 0) of (n, lo, hi) \<Rightarrow>
        if n = 0 then 0
        else if n > length s \<or> byte_at s 1 < lo \<or> byte_at s 1 > hi then 0
        else if list_ex (\<lambda>k. byte_at s k < 0x80 \<or> byte_at s k > 0xBF) [2..<n] then 0
        else n)"

function utf8_sanitize :: "string \<Rightarrow> string" where
  "utf8_sanitize [] = []"
| "utf8_sanitize (c # r) =
     (if (of_char c :: nat) < 0x80 then c # utf8_sanitize r
      else let n = utf8_len (c # r)
           in if n = 0 then [CHR 0xEF, CHR 0xBF, CHR 0xBD] @ utf8_sanitize r
              else take n (c # r) @ utf8_sanitize (drop (n - 1) r))"
  by pat_completeness auto
termination by (relation "measure length") auto

definition hex_digit :: "nat \<Rightarrow> char" where
  "hex_digit n = char_of (if n < 10 then 48 + n else 97 + (n - 10))"

text \<open>A character below 0x80: its escape, or itself. \<open>%04x\<close> of a byte is two zeros and two digits.\<close>

definition escape_ascii :: "char \<Rightarrow> string" where
  "escape_ascii c =
     (if c = quot then [bslash, quot]
      else if c = bslash then [bslash, bslash]
      else if c = CHR 0x08 then bslash # ''b''
      else if c = CHR 0x0C then bslash # ''f''
      else if c = CHR 0x0A then bslash # ''n''
      else if c = CHR 0x0D then bslash # ''r''
      else if c = CHR 0x09 then bslash # ''t''
      else let n = of_char c :: nat
           in if n < 0x20 then bslash # ''u00'' @ [hex_digit (n div 16), hex_digit (n mod 16)] else [c])"

function json_escape :: "string \<Rightarrow> string" where
  "json_escape [] = []"
| "json_escape (c # r) =
     (if (of_char c :: nat) \<ge> 0x80
      then let n = utf8_len (c # r)
           in if n = 0 then bslash # ''ufffd'' @ json_escape r
              else take n (c # r) @ json_escape (drop (n - 1) r)
      else escape_ascii c @ json_escape r)"
  by pat_completeness auto
termination by (relation "measure length") auto

text \<open>The code point of \<open>\u\<close> and its four digits at the head of \<open>s\<close>, and how many characters it takes.\<close>

definition unescape_u :: "string \<Rightarrow> nat \<times> nat" where
  "unescape_u s =
     (let code = hex4 (drop 2 s); s6 = drop 6 s
      in if 0xD800 \<le> code \<and> code \<le> 0xDBFF
         then let lo = (if length s6 > 5 \<and> s6 ! 0 = bslash \<and> s6 ! 1 = CHR ''u'' then hex4 (drop 2 s6) else 0)
              in if 0xDC00 \<le> lo \<and> lo \<le> 0xDFFF
                 then (0x10000 + push_bit 10 (code - 0xD800) + (lo - 0xDC00), 12)
                 else (0xFFFD, 6)
         else if 0xDC00 \<le> code \<and> code \<le> 0xDFFF then (0xFFFD, 6)
         else (code, 6))"

definition unescape_char :: "char \<Rightarrow> char" where
  "unescape_char c =
     (if c = CHR ''b'' then CHR 0x08 else if c = CHR ''f'' then CHR 0x0C else if c = CHR ''n'' then CHR 0x0A
      else if c = CHR ''r'' then CHR 0x0D else if c = CHR ''t'' then CHR 0x09 else c)"

function json_unescape :: "string \<Rightarrow> string" where
  "json_unescape [] = []"
| "json_unescape [c] = [c]"
| "json_unescape (b # c # r) =
     (if b \<noteq> bslash then b # json_unescape (c # r)
      else if c \<noteq> CHR ''u'' then unescape_char c # json_unescape r
      else if length (b # c # r) \<le> 5 then b # json_unescape (c # r)
      else case unescape_u (b # c # r) of (code, n) \<Rightarrow> append_utf8 code @ json_unescape (drop (n - 2) r))"
  by pat_completeness auto
termination by (relation "measure length") auto

section \<open>One field of an object\<close>

definition json_blank :: "char \<Rightarrow> bool" where
  "json_blank c \<longleftrightarrow> c = CHR '' '' \<or> c = CHR 0x09 \<or> c = CHR 0x0A \<or> c = CHR 0x0D"

text \<open>\<open>body.find(needle, k)\<close>, the needle not empty.\<close>

function find_from :: "string \<Rightarrow> string \<Rightarrow> nat \<Rightarrow> nat option" where
  "find_from needle body k =
     (if k + length needle > length body then None
      else if take (length needle) (drop k body) = needle then Some k else find_from needle body (Suc k))"
  by pat_completeness auto
termination by (relation "measure (\<lambda>(needle, body, k). Suc (length body) - k)") auto

declare find_from.simps [simp del]

lemma find_from_bound: "find_from needle body k = Some j \<Longrightarrow> k \<le> j \<and> j + length needle \<le> length body"
  by (induction needle body k rule: find_from.induct) (subst (asm) find_from.simps, auto split: if_splits)

text \<open>What follows the colon of the key, or \<open>None\<close>.\<close>

function key_loop :: "string \<Rightarrow> string \<Rightarrow> nat \<Rightarrow> string option" where
  "key_loop needle body kpos =
     (case find_from needle body kpos of None \<Rightarrow> None
      | Some k \<Rightarrow>
          let before = dropWhile json_blank (rev (take k body)); after = dropWhile json_blank (drop (k + length needle) body)
          in if (before = [] \<or> hd before = CHR 0x7B \<or> hd before = CHR '','') \<and> after \<noteq> [] \<and> hd after = CHR '':''
             then Some (tl after) else key_loop needle body (Suc k))"
  by pat_completeness auto
termination
  by (relation "measure (\<lambda>(needle, body, k). Suc (length body) - k)") (auto dest: find_from_bound)

declare key_loop.simps [simp del]

text \<open>The contents up to the closing quote; \<open>None\<close> when there is none.\<close>

fun close_scan :: "string \<Rightarrow> string option" where
  "close_scan [] = None"
| "close_scan [c] = (if c = quot then Some [] else None)"
| "close_scan (c # d # r) =
     (if c = bslash then map_option (\<lambda>s. c # d # s) (close_scan r)
      else if c = quot then Some [] else map_option (\<lambda>s. c # s) (close_scan (d # r)))"

definition json_get_string :: "string \<Rightarrow> string option \<Rightarrow> string option" where
  "json_get_string body key =
     (case key of None \<Rightarrow> None
      | Some k \<Rightarrow>
          (case key_loop (quot # c_str k @ [quot]) body 0 of None \<Rightarrow> None
           | Some rest \<Rightarrow>
               (case dropWhile json_blank rest of [] \<Rightarrow> None
                | c # val \<Rightarrow> if c \<noteq> quot then None else map_option json_unescape (close_scan val))))"

section \<open>UTF-8\<close>

lemma utf8_len_cases: "utf8_len s = 0 \<or> 2 \<le> utf8_len s \<and> utf8_len s \<le> length s"
  by (auto simp: utf8_len_def utf8_lead_def Let_def split: prod.splits if_splits)

lemma utf8_len_lead: "utf8_len s \<noteq> 0 \<Longrightarrow> 0x80 \<le> byte_at s 0"
  by (auto simp: utf8_len_def utf8_lead_def split: prod.splits if_splits)

lemma utf8_len_high:
  assumes "utf8_len s \<noteq> 0" and "k < utf8_len s"
  shows "0x80 \<le> byte_at s k"
proof -
  obtain n lo hi where l: "utf8_lead (byte_at s 0) = (n, lo, hi)" by (cases "utf8_lead (byte_at s 0)")
  then have lo: "0x80 \<le> lo" by (auto simp: utf8_lead_def split: if_splits)
  have "utf8_len s = n" "lo \<le> byte_at s 1" "\<forall>k \<in> {2..<n}. 0x80 \<le> byte_at s k"
    using assms(1) l by (auto simp: utf8_len_def list_ex_iff not_less split: if_splits)
  then show ?thesis using assms(2) utf8_len_lead [OF assms(1)] lo
    by (cases "k = 0"; cases "k = 1") auto
qed

text \<open>Only the bytes of the sequence matter.\<close>

lemma utf8_len_take:
  assumes "utf8_len s \<noteq> 0"
  shows "utf8_len (take (utf8_len s) s @ t) = utf8_len s"
proof -
  obtain n lo hi where l: "utf8_lead (byte_at s 0) = (n, lo, hi)" by (cases "utf8_lead (byte_at s 0)")
  have n: "utf8_len s = n" "n \<noteq> 0" "n \<le> length s" "lo \<le> byte_at s 1" "byte_at s 1 \<le> hi"
    "list_all (\<lambda>k. 0x80 \<le> byte_at s k \<and> byte_at s k \<le> 0xBF) [2..<n]"
    using assms l by (auto simp: utf8_len_def list_ex_iff list_all_iff not_less split: if_splits)
  have "2 \<le> n" using utf8_len_cases [of s] n by auto
  have same: "k < n \<Longrightarrow> byte_at (take n s @ t) k = byte_at s k" for k
    using n(3) by (simp add: byte_at_def nth_append)
  have all: "\<not> list_ex (\<lambda>k. byte_at (take n s @ t) k < 0x80 \<or> byte_at (take n s @ t) k > 0xBF) [2..<n]"
    using n(6) same by (auto simp: list_ex_iff list_all_iff)
  show ?thesis
    unfolding n(1) using all n \<open>2 \<le> n\<close> l same [of 0] same [of 1]
    by (simp add: utf8_len_def [of "take n s @ t"])
qed

text \<open>A valid text: well-formed sequences and bytes below 0x80, one after the other.\<close>

function utf8_ok :: "string \<Rightarrow> bool" where
  "utf8_ok [] = True"
| "utf8_ok (c # r) =
     (if (of_char c :: nat) < 0x80 then utf8_ok r
      else utf8_len (c # r) \<noteq> 0 \<and> utf8_ok (drop (utf8_len (c # r) - 1) r))"
  by pat_completeness auto
termination by (relation "measure length") auto

lemma utf8_ok_append_seq:
  assumes "utf8_len s \<noteq> 0"
  shows "utf8_ok (take (utf8_len s) s @ t) = utf8_ok t"
proof -
  let ?n = "utf8_len s"
  have n: "2 \<le> ?n" "?n \<le> length s" using utf8_len_cases [of s] assms by auto
  obtain c r where cr: "take ?n s = c # r" using n by (cases "take ?n s") auto
  have "length (take ?n s) = ?n" using n by simp
  then have r: "length r = ?n - 1" by (simp add: cr)
  have "c = s ! 0" using cr n by (metis nth_Cons_0 nth_take less_le_trans zero_less_numeral)
  then have "0x80 \<le> (of_char c :: nat)" using utf8_len_lead [OF assms] by (simp add: byte_at_def)
  then show ?thesis using utf8_len_take [OF assms, of t] assms r by (simp add: cr not_less)
qed

lemma utf8_ok_ascii: "list_all (\<lambda>c. (of_char c :: nat) < 0x80) xs \<Longrightarrow> utf8_ok (xs @ t) = utf8_ok t"
  by (induction xs) auto

lemma utf8_ok_replacement: "utf8_ok (CHR 0xEF # CHR 0xBF # CHR 0xBD # t) = utf8_ok t"
  by (simp add: utf8_len_def utf8_lead_def byte_at_def)

lemma utf8_sanitize_ok: "utf8_ok (utf8_sanitize s)"
proof (induction s rule: utf8_sanitize.induct)
  case (2 c r)
  consider "(of_char c :: nat) < 0x80" | "\<not> (of_char c :: nat) < 0x80" "utf8_len (c # r) = 0"
    | "\<not> (of_char c :: nat) < 0x80" "utf8_len (c # r) \<noteq> 0" by blast
  then show ?case
  proof cases
    case 3
    then show ?thesis using 2 utf8_ok_append_seq [OF 3(2)] by (simp add: Let_def)
  qed (use 2 in \<open>simp_all add: utf8_ok_replacement del: utf8_ok.simps(2), simp_all\<close>)
qed simp

lemma utf8_sanitize_valid: "utf8_ok s \<Longrightarrow> utf8_sanitize s = s"
proof (induction s rule: utf8_ok.induct)
  case (2 c r)
  have "utf8_len (c # r) \<noteq> 0 \<Longrightarrow> take (utf8_len (c # r)) (c # r) @ drop (utf8_len (c # r) - 1) r = c # r"
    by (cases "utf8_len (c # r)") simp_all
  then show ?case using 2 by (auto simp: Let_def split: if_splits)
qed simp

section \<open>Decoding what was escaped\<close>

declare json_unescape.simps(3) [simp del]

lemma json_unescape_plain:
  "bslash \<notin> set xs \<Longrightarrow> json_unescape (xs @ t) = xs @ json_unescape t"
proof (induction xs)
  case (Cons x xs)
  then show ?case by (cases "xs @ t") (auto simp: json_unescape.simps(3))
qed simp

lemma high_chars: "utf8_len s \<noteq> 0 \<Longrightarrow> x \<in> set (take (utf8_len s) s) \<Longrightarrow> 0x80 \<le> (of_char x :: nat)"
  using utf8_len_high [of s] by (fastforce simp: in_set_conv_nth byte_at_def)

lemma high_not_ascii: "utf8_len s \<noteq> 0 \<Longrightarrow> bslash \<notin> set (take (utf8_len s) s)" "utf8_len s \<noteq> 0 \<Longrightarrow> quot \<notin> set (take (utf8_len s) s)"
  using high_chars [of s bslash] high_chars [of s quot] by auto

lemma unescape_u_step:
  assumes "length (h1 # h2 # h3 # h4 # t) \<ge> 4" and "hex4 [h1, h2, h3, h4] = code" and "code < 0xD800 \<or> 0xDFFF < code"
  shows "json_unescape (bslash # CHR ''u'' # h1 # h2 # h3 # h4 # t) = append_utf8 code @ json_unescape t"
  using assms by (auto simp: unescape_u_def hex4_def Let_def json_unescape.simps(3))

lemma or_low4: "d < 16 \<Longrightarrow> push_bit 4 n OR d = 16 * n + (d :: nat)"
proof -
  assume "d < 16"
  then have d: "take_bit 4 d = d" by (simp add: take_bit_nat_eq_self)
  have "\<not> bit (push_bit 4 n) i \<or> \<not> bit d i" for i
    by (subst d [symmetric]) (auto simp: bit_push_bit_iff bit_take_bit_iff simp del: take_bit_nat_eq_self)
  from disjunctive_add [OF this] show ?thesis by (simp add: push_bit_eq_mult)
qed

lemma hex_value_digit: "d < 16 \<Longrightarrow> hex_value (hex_digit d) = Some d"
  by (auto simp: hex_value_def hex_digit_def of_char_of Let_def)

lemma hex_value_zero: "hex_value (CHR ''0'') = Some 0"
  by (simp add: hex_value_def)

lemma hex4_control: "n < 32 \<Longrightarrow> hex4 [CHR ''0'', CHR ''0'', hex_digit (n div 16), hex_digit (n mod 16)] = n"
  by (simp add: hex4_def hex_value_digit or_low4 hex_value_zero)

lemma append_utf8_replacement: "append_utf8 0xFFFD = [CHR 0xEF, CHR 0xBF, CHR 0xBD]"
  by (simp add: append_utf8_def char_of_eq_iff)

lemma append_utf8_ascii: "(of_char c :: nat) < 0x80 \<Longrightarrow> append_utf8 (of_char c) = [c]"
  by (simp add: append_utf8_def)

lemma escape_ascii_cases:
  obtains (pair) d where "escape_ascii c = [bslash, d]" "d \<noteq> CHR ''u''" "unescape_char d = c"
  | (control) "escape_ascii c = bslash # ''u00'' @ [hex_digit (of_char c div 16), hex_digit (of_char c mod 16)]" "(of_char c :: nat) < 32"
  | (plain) "escape_ascii c = [c]" "c \<noteq> bslash" "c \<noteq> quot"
proof (cases "c \<in> {quot, bslash, CHR 0x08, CHR 0x0C, CHR 0x0A, CHR 0x0D, CHR 0x09}")
  case True
  then have "\<exists>d. escape_ascii c = [bslash, d] \<and> d \<noteq> CHR ''u'' \<and> unescape_char d = c"
    by (auto simp: escape_ascii_def unescape_char_def)
  then show thesis using pair by blast
next
  case False
  then have "escape_ascii c = (if (of_char c :: nat) < 32 then bslash # ''u00'' @ [hex_digit (of_char c div 16), hex_digit (of_char c mod 16)] else [c])"
    "c \<noteq> bslash" "c \<noteq> quot" by (simp_all add: escape_ascii_def Let_def)
  then show thesis using control plain by presburger
qed

lemma unescape_ascii: "json_unescape (escape_ascii c @ t) = c # json_unescape t"
proof (cases c rule: escape_ascii_cases)
  case (pair d)
  then show ?thesis by (simp add: json_unescape.simps(3))
next
  case control
  then show ?thesis using unescape_u_step [OF _ hex4_control [OF control(2)], of t] by (simp add: append_utf8_ascii)
next
  case plain
  then show ?thesis using json_unescape_plain [of "[c]" t] by simp
qed

lemma json_escape_decodes_then: "json_unescape (json_escape s @ t) = utf8_sanitize s @ json_unescape t"
proof (induction s rule: json_escape.induct)
  case (2 c r)
  consider "(of_char c :: nat) < 0x80" | "\<not> (of_char c :: nat) < 0x80" "utf8_len (c # r) = 0"
    | "\<not> (of_char c :: nat) < 0x80" "utf8_len (c # r) \<noteq> 0" by blast
  then show ?case
  proof cases
    case 1
    then show ?thesis using 2 by (simp add: unescape_ascii)
  next
    case 2
    have "json_unescape (bslash # CHR ''u'' # CHR ''f'' # CHR ''f'' # CHR ''f'' # CHR ''d'' # json_escape r @ t) =
        append_utf8 0xFFFD @ json_unescape (json_escape r @ t)"
      by (rule unescape_u_step) (simp_all add: hex4_def hex_value_def)
    then show ?thesis using 2 "2.IH" by (simp add: append_utf8_replacement)
  next
    case 3
    then show ?thesis using "2.IH" json_unescape_plain [OF high_not_ascii(1) [OF 3(2)]] by (simp add: Let_def)
  qed
qed simp

lemma json_escape_decodes: "json_unescape (json_escape s) = utf8_sanitize s"
  using json_escape_decodes_then [of s "[]"] by simp

text \<open>C20: Decoding the escaped text gives the text back, with every byte that is no UTF-8 replaced by U+FFFD: exactly
  what \<open>utf8_sanitize\<close> gives. That is valid UTF-8 whatever went in, and the text itself when it was
  valid.\<close>

theorem json_escape_roundtrip:
  "json_unescape (json_escape s) = utf8_sanitize s \<and> utf8_ok (utf8_sanitize s) \<and> (utf8_ok s \<longrightarrow> utf8_sanitize s = s)"
  using json_escape_decodes utf8_sanitize_ok utf8_sanitize_valid by blast

lemma json_escape_roundtrip_witness:
  "utf8_ok ''ab'' \<and> utf8_sanitize ''ab'' = ''ab'' \<and> json_unescape (json_escape ''ab'') = ''ab''"
  using json_escape_roundtrip [of "''ab''"] by simp

section \<open>A field of an object\<close>

lemma close_scan_plain: "bslash \<notin> set xs \<Longrightarrow> quot \<notin> set xs \<Longrightarrow> close_scan (xs @ t) = map_option ((@) xs) (close_scan t)"
proof (induction xs)
  case Nil
  then show ?case by (simp add: option.map_id [unfolded id_def])
next
  case (Cons x xs)
  then show ?case by (cases "xs @ t") (auto simp: option.map_comp comp_def)
qed

lemma hex_digit_plain: "d < 16 \<Longrightarrow> hex_digit d \<noteq> bslash \<and> hex_digit d \<noteq> quot"
  by (auto simp: hex_digit_def char_of_eq_iff take_bit_eq_mod)

lemma close_scan_ascii: "close_scan (escape_ascii c @ t) = map_option ((@) (escape_ascii c)) (close_scan t)"
proof (cases c rule: escape_ascii_cases)
  case (pair d)
  then show ?thesis by (simp add: append_Cons [abs_def])
next
  case control
  let ?h = "[hex_digit (of_char c div 16), hex_digit (of_char c mod 16)]"
  have "(of_char c :: nat) div 16 < 16" "(of_char c :: nat) mod 16 < 16" using control(2) by simp_all
  then have h: "bslash \<notin> set (''00'' @ ?h)" "quot \<notin> set (''00'' @ ?h)"
    using hex_digit_plain [of "of_char c div 16"] hex_digit_plain [of "of_char c mod 16"] control(2) by auto
  have "close_scan (''00'' @ [hex_digit (of_char c div 16), hex_digit (of_char c mod 16)] @ t) =
      map_option ((@) (''00'' @ [hex_digit (of_char c div 16), hex_digit (of_char c mod 16)])) (close_scan t)"
    using close_scan_plain [OF h, of t] by (simp only: append_assoc)
  then have "close_scan (bslash # CHR ''u'' # ''00'' @ ?h @ t) =
      map_option (\<lambda>s. bslash # CHR ''u'' # s) (map_option ((@) (''00'' @ ?h)) (close_scan t))"
    by (simp only: close_scan.simps(3) simp_thms if_True)
  moreover have "escape_ascii c @ t = bslash # CHR ''u'' # ''00'' @ ?h @ t" using control(1) by simp
  ultimately show ?thesis using control(1)
    by (cases "close_scan t") (simp_all only: option.map comp_def append_Cons append_Nil)
next
  case plain
  then show ?thesis using close_scan_plain [of "[c]" t] by simp
qed

lemma close_scan_escape: "close_scan (json_escape s @ t) = map_option ((@) (json_escape s)) (close_scan t)"
proof (induction s rule: json_escape.induct)
  case 1
  then show ?case by (simp add: option.map_id [unfolded id_def])
next
  case (2 c r)
  consider "(of_char c :: nat) < 0x80" | "\<not> (of_char c :: nat) < 0x80" "utf8_len (c # r) = 0"
    | "\<not> (of_char c :: nat) < 0x80" "utf8_len (c # r) \<noteq> 0" by blast
  then show ?case
  proof cases
    case 1
    then show ?thesis using 2 by (simp add: close_scan_ascii option.map_comp comp_def)
  next
    case 2
    then show ?thesis using "2.IH"(1) close_scan_plain [of "''fffd''" "json_escape r @ t"] by (simp add: option.map_comp comp_def)
  next
    case 3
    then show ?thesis
      using "2.IH" close_scan_plain [OF high_not_ascii [OF 3(2)], of "json_escape (drop (utf8_len (c # r) - 1) r) @ t"]
      by (simp add: Let_def option.map_comp comp_def)
  qed
qed

text \<open>Whatever a string holds, its escaped text stays inside the quotes: \<open>json_get_string\<close> on the login body with
  the escaped password between quotes finds exactly the password (as valid UTF-8), and nothing the
  password holds can end the string early or be taken for another field.\<close>

theorem login_body_password:
  "json_get_string (CHR 0x7B # quot # ''password'' @ quot # '':'' @ quot # json_escape pw @ [quot, CHR 0x7D]) (Some ''password'') =
     Some (utf8_sanitize pw)"
proof -
  let ?body = "CHR 0x7B # quot # ''password'' @ quot # '':'' @ quot # json_escape pw @ [quot, CHR 0x7D]"
  let ?needle = "quot # ''password'' @ [quot]"
  have n: "quot # c_str ''password'' @ [quot] = ?needle" by (simp add: c_str_def)
  have "find_from ?needle ?body 0 = find_from ?needle ?body 1" by (subst find_from.simps) simp
  also have "\<dots> = Some 1" by (subst find_from.simps) simp
  finally have f: "find_from ?needle ?body 0 = Some 1" .
  have k: "key_loop ?needle ?body 0 = Some (quot # json_escape pw @ [quot, CHR 0x7D])"
    by (subst key_loop.simps, subst f) (simp add: json_blank_def)
  have "json_unescape (json_escape pw) = utf8_sanitize pw" using json_escape_decodes .
  then show ?thesis
    unfolding json_get_string_def option.case n k by (simp add: json_blank_def close_scan_escape)
qed

end
