(* ===== verification/Printf.thy ===== *)
theory Printf
  imports Float64 Text
begin

text \<open>
  Doubles as \<open>printf\<close> writes them: \<open>%.Pg\<close> and \<open>%.0f\<close> of the C standard, the decimal value rounded
  exactly, half to even, as the C libraries of the supported systems do. A finite double is an
  integer number of units of \<open>2^-1074\<close>, so the conversion is integer arithmetic. Proved: what is
  printed of a finite double is a number of the JSON grammar, and the digits \<open>%g\<close> takes are exactly as many as the
  precision says.
\<close>

section \<open>Decimal rounding of a fraction\<close>

definition round_half_even :: "nat \<Rightarrow> nat \<Rightarrow> nat" where
  "round_half_even a b = (let n = a div b; r = a mod b in if b < 2 * r \<or> (2 * r = b \<and> odd n) then n + 1 else n)"

text \<open>For \<open>0 < a < b\<close>: how often \<open>a\<close> is to be multiplied by ten to reach \<open>b\<close>.\<close>

function lead_zeros :: "nat \<Rightarrow> nat \<Rightarrow> nat" where
  "lead_zeros a b = (if a = 0 \<or> b \<le> a then 0 else Suc (lead_zeros (a * 10) b))"
  by pat_completeness auto
termination by (relation "measure (\<lambda>(a, b). b - a)") auto

declare lead_zeros.simps [simp del]

text \<open>The exponent of the leading decimal digit of \<open>a / b\<close>.\<close>

definition dec_exp :: "nat \<Rightarrow> nat \<Rightarrow> int" where
  "dec_exp a b = (if b \<le> a then int (length (digits (a div b))) - 1 else - int (lead_zeros a b))"

text \<open>\<open>p\<close> significant digits as a number, and the exponent of the first of them.\<close>

definition dec_round :: "nat \<Rightarrow> nat \<Rightarrow> nat \<Rightarrow> nat \<times> int" where
  "dec_round p a b =
     (let x = dec_exp a b; k = int p - 1 - x;
          m = (if 0 \<le> k then round_half_even (a * 10 ^ nat k) b else round_half_even a (b * 10 ^ nat (- k)))
      in if 10 ^ p \<le> m then (m div 10, x + 1) else (m, x))"

section \<open>The conversions\<close>

definition strip_zeros :: "string \<Rightarrow> string" where
  "strip_zeros ds = rev (dropWhile (\<lambda>c. c = CHR ''0'') (rev ds))"

definition with_fraction :: "string \<Rightarrow> string \<Rightarrow> string" where
  "with_fraction i f = i @ (if f = [] then [] else CHR ''.'' # f)"

definition exponent_part :: "int \<Rightarrow> string" where
  "exponent_part x = CHR ''e'' # (if x < 0 then ''-'' else ''+'') @
     (let ds = digits (nat \<bar>x\<bar>) in if length ds < 2 then CHR ''0'' # ds else ds)"

definition g_digits :: "nat \<Rightarrow> nat \<Rightarrow> int \<Rightarrow> string" where
  "g_digits p m x =
     (let ds = digits m
      in if - 4 \<le> x \<and> x < int p
         then (if 0 \<le> x then with_fraction (take (nat x + 1) ds) (strip_zeros (drop (nat x + 1) ds))
               else with_fraction ''0'' (replicate (nat (- x) - 1) (CHR ''0'') @ strip_zeros ds))
         else with_fraction (take 1 ds) (strip_zeros (drop 1 ds)) @ exponent_part x)"

text \<open>What both conversions print for a double that is not finite.\<close>

definition printf_special :: "f64 \<Rightarrow> string" where
  "printf_special v = (if f64_sign v then ''-'' else []) @ (if f64_nan v then ''nan'' else ''inf'')"

text \<open>\<open>%.pg\<close> and \<open>%.0f\<close>.\<close>

definition printf_g :: "nat \<Rightarrow> f64 \<Rightarrow> string" where
  "printf_g p v =
     (if \<not> f64_finite v then printf_special v
      else (if f64_sign v then ''-'' else []) @
        (if f64_units v = 0 then ''0'' else case dec_round p (f64_units v) (2 ^ 1074) of (m, x) \<Rightarrow> g_digits p m x))"

definition printf_f0 :: "f64 \<Rightarrow> string" where
  "printf_f0 v =
     (if \<not> f64_finite v then printf_special v
      else (if f64_sign v then ''-'' else []) @ digits (round_half_even (f64_units v) (2 ^ 1074)))"

section \<open>The digits\<close>

lemma round_half_even_pos: "0 < b \<Longrightarrow> b \<le> a \<Longrightarrow> 0 < round_half_even a b"
  using div_le_mono [of b a b] by (simp add: round_half_even_def Let_def)

lemma lead_zeros_reaches: "0 < a \<Longrightarrow> b \<le> a * 10 ^ lead_zeros a b"
proof (induction a b rule: lead_zeros.induct)
  case (1 a b)
  show ?case
  proof (cases "b \<le> a")
    case True
    then show ?thesis by (subst lead_zeros.simps) simp
  next
    case False
    then show ?thesis using 1 by (subst lead_zeros.simps) (simp add: mult.assoc)
  qed
qed

lemma lead_zeros_least: "0 < a \<Longrightarrow> a < b \<Longrightarrow> a * 10 ^ lead_zeros a b < 10 * b"
proof (induction a b rule: lead_zeros.induct)
  case (1 a b)
  show ?case
  proof (cases "b \<le> a * 10")
    case True
    then have "lead_zeros (a * 10) b = 0" by (subst lead_zeros.simps) simp
    then show ?thesis using 1 by (subst lead_zeros.simps) simp
  next
    case False
    then show ?thesis using 1 by (subst lead_zeros.simps) (simp add: mult.assoc)
  qed
qed

lemma digits_bounds: "0 < n \<Longrightarrow> 10 ^ (length (digits n) - 1) \<le> n \<and> n < 10 ^ length (digits n)"
proof (induction n rule: digits.induct)
  case (1 n)
  show ?case
  proof (cases "n < 10")
    case True
    then show ?thesis using 1 by (subst (1 2) digits.simps) simp
  next
    case False
    then have ih: "10 ^ (length (digits (n div 10)) - 1) \<le> n div 10" "n div 10 < 10 ^ length (digits (n div 10))" using 1 by simp_all
    have l: "length (digits n) = Suc (length (digits (n div 10)))" using False by (subst digits.simps) simp
    have "0 < length (digits (n div 10))" using digits_all(2) by simp
    then have "(10 :: nat) ^ length (digits (n div 10)) = 10 * 10 ^ (length (digits (n div 10)) - 1)" by (cases "length (digits (n div 10))") simp_all
    then show ?thesis using ih unfolding l power_Suc diff_Suc_1 by linarith
  qed
qed

lemma dec_exp_large:
  assumes "0 < b" and "b \<le> a"
  obtains x where "dec_exp a b = int x" and "b * 10 ^ x \<le> a" and "a < b * 10 ^ Suc x"
proof -
  define L where "L = length (digits (a div b))"
  have "0 < a div b" using assms by (simp add: div_greater_zero_iff)
  from digits_bounds [OF this] have d: "10 ^ (L - 1) \<le> a div b" "a div b < 10 ^ L" by (simp_all add: L_def)
  have L: "0 < L" using digits_all(2) by (simp add: L_def)
  have "b * 10 ^ (L - 1) \<le> b * (a div b)" using d(1) by simp
  then have lo: "b * 10 ^ (L - 1) \<le> a" using times_div_less_eq_dividend [of b a] by linarith
  have "a < b * 10 ^ L" using d(2) assms(1) by (simp add: less_mult_imp_div_less div_less_iff_less_mult mult.commute)
  then have "a < b * 10 ^ Suc (L - 1)" using L by simp
  moreover have "dec_exp a b = int (L - 1)" using assms(2) L unfolding dec_exp_def L_def [symmetric] by simp
  ultimately show thesis using lo that by blast
qed

lemma scaled_bounds:
  assumes "0 < a" and "0 < b" and "0 < p" and k: "k = int p - 1 - dec_exp a b"
  shows "0 \<le> k \<Longrightarrow> b * 10 ^ (p - 1) \<le> a * 10 ^ nat k \<and> a * 10 ^ nat k < b * 10 ^ p"
    and "k < 0 \<Longrightarrow> b * 10 ^ nat (- k) * 10 ^ (p - 1) \<le> a \<and> a < b * 10 ^ nat (- k) * 10 ^ p"
proof -
  show "b * 10 ^ (p - 1) \<le> a * 10 ^ nat k \<and> a * 10 ^ nat k < b * 10 ^ p" if "0 \<le> k"
  proof (cases "b \<le> a")
    case True
    then obtain x where x: "dec_exp a b = int x" "b * 10 ^ x \<le> a" "a < b * 10 ^ Suc x" using dec_exp_large assms(2) by blast
    then have e: "p - 1 = x + nat k" "p = Suc x + nat k" using k that assms(3) by auto
    have "b * 10 ^ x * 10 ^ nat k \<le> a * 10 ^ nat k" "a * 10 ^ nat k < b * 10 ^ Suc x * 10 ^ nat k"
      using x by simp_all
    moreover have "b * 10 ^ (p - 1) = b * 10 ^ x * 10 ^ nat k" unfolding e(1) power_add by simp
    moreover have "b * 10 ^ p = b * 10 ^ Suc x * 10 ^ nat k" unfolding e(2) power_add by simp
    ultimately show ?thesis by presburger
  next
    case False
    define z where "z = lead_zeros a b"
    have z: "b \<le> a * 10 ^ z" "a * 10 ^ z < 10 * b" using lead_zeros_reaches lead_zeros_least assms(1) False by (simp_all add: z_def)
    have "nat k = z + (p - 1)" using k False assms(3) by (simp add: dec_exp_def z_def)
    then have e: "a * 10 ^ nat k = a * 10 ^ z * 10 ^ (p - 1)" by (simp add: power_add)
    have "b * 10 ^ (p - 1) \<le> a * 10 ^ z * 10 ^ (p - 1)" "a * 10 ^ z * 10 ^ (p - 1) < 10 * b * 10 ^ (p - 1)" using z by simp_all
    moreover have "10 * b * 10 ^ (p - 1) = b * 10 ^ p" using assms(3) by (cases p) simp_all
    ultimately show ?thesis unfolding e by presburger
  qed
  show "b * 10 ^ nat (- k) * 10 ^ (p - 1) \<le> a \<and> a < b * 10 ^ nat (- k) * 10 ^ p" if "k < 0"
  proof -
    have "b \<le> a" using that k assms(3) by (auto simp: dec_exp_def split: if_splits)
    then obtain x where x: "dec_exp a b = int x" "b * 10 ^ x \<le> a" "a < b * 10 ^ Suc x" using dec_exp_large assms(2) by blast
    then have e: "x = nat (- k) + (p - 1)" "Suc x = nat (- k) + p" using k that assms(3) by auto
    have "b * 10 ^ x = b * 10 ^ nat (- k) * 10 ^ (p - 1)" unfolding e(1) power_add by simp
    moreover have "b * 10 ^ Suc x = b * 10 ^ nat (- k) * 10 ^ p" unfolding e(2) power_add by simp
    ultimately show ?thesis using x by presburger
  qed
qed

lemma round_between:
  assumes "0 < b" and "b * lo \<le> a" and "a < b * hi"
  shows "lo \<le> round_half_even a b \<and> round_half_even a b \<le> hi"
proof -
  have "lo \<le> a div b" using assms by (simp add: less_eq_div_iff_mult_less_eq mult.commute)
  moreover have "a div b < hi" using assms by (simp add: div_less_iff_less_mult mult.commute)
  ultimately show ?thesis by (auto simp: round_half_even_def Let_def)
qed

text \<open>Exactly \<open>p\<close> significant digits.\<close>

lemma dec_round_digits:
  assumes "0 < a" and "0 < b" and "0 < p" and "dec_round p a b = (m, x)"
  shows "10 ^ (p - 1) \<le> m" and "m < 10 ^ p"
proof -
  define k where k: "k = int p - 1 - dec_exp a b"
  define m0 where "m0 = (if 0 \<le> k then round_half_even (a * 10 ^ nat k) b else round_half_even a (b * 10 ^ nat (- k)))"
  have m0: "10 ^ (p - 1) \<le> m0 \<and> m0 \<le> 10 ^ p"
  proof (cases "0 \<le> k")
    case True
    then show ?thesis using round_between [OF assms(2), of "10 ^ (p - 1)" "a * 10 ^ nat k" "10 ^ p"] scaled_bounds(1) [OF assms(1-3) k]
      by (simp add: m0_def)
  next
    case False
    then show ?thesis using round_between [of "b * 10 ^ nat (- k)" "10 ^ (p - 1)" a "10 ^ p"] scaled_bounds(2) [OF assms(1-3) k] assms(2)
      by (simp add: m0_def)
  qed
  have pp: "(10 :: nat) ^ p = 10 * 10 ^ (p - 1)" using assms(3) by (cases p) simp_all
  have "m = (if 10 ^ p \<le> m0 then m0 div 10 else m0)" using assms(4) by (auto simp: dec_round_def Let_def k m0_def split: if_splits)
  then show "10 ^ (p - 1) \<le> m" and "m < 10 ^ p" using m0 pp by (auto split: if_splits)
qed

lemma strip_zeros_digits: "list_all is_digit ds \<Longrightarrow> list_all is_digit (strip_zeros ds)"
  unfolding strip_zeros_def list_all_iff by (auto dest: set_dropWhileD)

lemma strip_zeros_nonempty: "ds \<noteq> [] \<Longrightarrow> hd ds \<noteq> CHR ''0'' \<Longrightarrow> strip_zeros ds \<noteq> []"
  unfolding strip_zeros_def by (cases ds) (auto simp: dropWhile_eq_Nil_conv)

lemma digits_hd: "0 < n \<Longrightarrow> hd (digits n) \<noteq> CHR ''0''"
proof (induction n rule: digits.induct)
  case (1 n)
  show ?case
  proof (cases "n < 10")
    case True
    then have "digits n = [char_of (48 + n)]" by (subst digits.simps) simp
    then show ?thesis using 1(2) True by (simp add: char_of_eq_iff take_bit_eq_mod)
  next
    case False
    then have "digits n = digits (n div 10) @ [char_of (48 + n mod 10)]" by (subst digits.simps) simp
    then show ?thesis using False 1 digits_all(2) [of "n div 10"] by simp
  qed
qed

lemma digits_zero: "digits 0 = ''0''"
  by (subst digits.simps) (simp add: char_of_eq_iff)

section \<open>Numbers of the JSON grammar\<close>

definition json_int :: "string \<Rightarrow> bool" where
  "json_int i \<longleftrightarrow> i = ''0'' \<or> i \<noteq> [] \<and> list_all is_digit i \<and> hd i \<noteq> CHR ''0''"

definition json_frac :: "string \<Rightarrow> bool" where
  "json_frac f \<longleftrightarrow> f = [] \<or> (\<exists>ds. f = CHR ''.'' # ds \<and> ds \<noteq> [] \<and> list_all is_digit ds)"

definition json_exp :: "string \<Rightarrow> bool" where
  "json_exp e \<longleftrightarrow> e = [] \<or> (\<exists>sg ds. e = CHR ''e'' # sg @ ds \<and> sg \<in> {[], ''+'', ''-''} \<and> ds \<noteq> [] \<and> list_all is_digit ds)"

definition json_number :: "string \<Rightarrow> bool" where
  "json_number s \<longleftrightarrow> (\<exists>sg i f e. s = sg @ i @ f @ e \<and> sg \<in> {[], ''-''} \<and> json_int i \<and> json_frac f \<and> json_exp e)"

lemma json_numberI: "sg \<in> {[], ''-''} \<Longrightarrow> json_int i \<Longrightarrow> json_frac f \<Longrightarrow> json_exp e \<Longrightarrow> json_number (sg @ i @ f @ e)"
  unfolding json_number_def by blast

lemma json_int_digits: "json_int (digits n)"
  using digits_all [of n] digits_hd [of n] digits_zero by (cases "n = 0") (auto simp: json_int_def)

lemma json_empty [simp]: "json_frac []" "json_exp []"
  by (simp_all add: json_frac_def json_exp_def)

lemma json_number_digits: "json_number (digits n)"
  using json_numberI [of "[]" "digits n" "[]" "[]"] by (simp add: json_int_digits)

lemma json_number_f0: "f64_finite v \<Longrightarrow> json_number (printf_f0 v)"
  using json_numberI [of "if f64_sign v then ''-'' else []" "digits (round_half_even (f64_units v) (2 ^ 1074))" "[]" "[]"]
  by (simp add: printf_f0_def json_int_digits)

lemma with_fraction_shape:
  assumes "list_all is_digit f"
  obtains f' where "with_fraction i f = i @ f'" and "json_frac f'"
  using that [of "if f = [] then [] else CHR ''.'' # f"] assms by (auto simp: with_fraction_def json_frac_def)

lemma exponent_part_ok: "json_exp (exponent_part x)"
proof -
  define ds where "ds = (let ds = digits (nat \<bar>x\<bar>) in if length ds < 2 then CHR ''0'' # ds else ds)"
  have "ds \<noteq> []" "list_all is_digit ds" using digits_all [of "nat \<bar>x\<bar>"] by (auto simp: ds_def Let_def is_digit_def)
  moreover have "exponent_part x = CHR ''e'' # (if x < 0 then ''-'' else ''+'') @ ds" by (simp add: exponent_part_def ds_def)
  moreover have "(if x < 0 then ''-'' else ''+'') \<in> {[], ''+'', ''-''}" by simp
  ultimately show ?thesis unfolding json_exp_def by blast
qed

lemma g_digits_shape:
  assumes "0 < m"
  obtains i f e where "g_digits p m x = i @ f @ e" "json_int i" "json_frac f" "json_exp e"
proof -
  let ?ds = "digits m"
  have d: "?ds \<noteq> []" "list_all is_digit ?ds" "hd ?ds \<noteq> CHR ''0''" using digits_all digits_hd assms by simp_all
  have front: "json_int (take (Suc n) ?ds)" for n
    using d by (cases ?ds) (auto simp: json_int_def list_all_iff dest: in_set_takeD)
  have tail: "list_all is_digit (strip_zeros (drop n ?ds))" for n
    using d(2) by (intro strip_zeros_digits) (auto simp: list_all_iff dest: in_set_dropD)
  have small: "list_all is_digit (replicate n (CHR ''0'') @ strip_zeros ?ds)" for n
    using tail [of 0] by (induction n) (simp_all add: is_digit_def)
  consider "- 4 \<le> x" "x < int p" "0 \<le> x" | "- 4 \<le> x" "x < int p" "x < 0" | "\<not> (- 4 \<le> x \<and> x < int p)" by linarith
  then show thesis
  proof cases
    case 1
    obtain f where "with_fraction (take (nat x + 1) ?ds) (strip_zeros (drop (nat x + 1) ?ds)) = take (nat x + 1) ?ds @ f" "json_frac f"
      using with_fraction_shape [OF tail] by blast
    then show ?thesis using 1 front [of "nat x"] that [of "take (nat x + 1) ?ds" f "[]"] by (simp add: g_digits_def Let_def)
  next
    case 2
    obtain f where "with_fraction ''0'' (replicate (nat (- x) - 1) (CHR ''0'') @ strip_zeros ?ds) = ''0'' @ f" "json_frac f"
      using with_fraction_shape [OF small] by blast
    then show ?thesis using 2 that [of "''0''" f "[]"] by (simp add: g_digits_def Let_def json_int_def)
  next
    case 3
    obtain f where "with_fraction (take 1 ?ds) (strip_zeros (drop 1 ?ds)) = take 1 ?ds @ f" "json_frac f"
      using with_fraction_shape [OF tail] by blast
    then show ?thesis using 3 front [of 0] that [of "take 1 ?ds" f "exponent_part x"] exponent_part_ok by (auto simp: g_digits_def Let_def)
  qed
qed

lemma f64_finite_zero: "f64_finite 0"
  by (simp add: f64_finite_def f64_mag_def)

lemma json_number_g: "f64_finite v \<Longrightarrow> 0 < p \<Longrightarrow> json_number (printf_g p v)"
proof (cases "f64_units v = 0")
  case True
  assume "f64_finite v"
  then show ?thesis using True
      json_numberI [of "if f64_sign v then ''-'' else []" "''0''" "[]" "[]"] by (simp add: printf_g_def json_int_def)
next
  case False
  assume p: "0 < p" and fin: "f64_finite v"
  obtain m x where r: "dec_round p (f64_units v) (2 ^ 1074) = (m, x)" by (cases "dec_round p (f64_units v) (2 ^ 1074)")
  have "(10 :: nat) ^ (p - 1) \<le> m" using dec_round_digits(1) [OF _ _ p r] False by simp
  then have "0 < m" using zero_less_power [of "10 :: nat" "p - 1"] by linarith
  then obtain i f e where "g_digits p m x = i @ f @ e" "json_int i" "json_frac f" "json_exp e" by (rule g_digits_shape)
  then show ?thesis
    using json_numberI [of "if f64_sign v then ''-'' else []" i f e] False r fin by (simp add: printf_g_def)
qed

lemma printf_examples:
  "printf_g 6 0x3FF8000000000000 = ''1.5''" "printf_f0 0x4170A3D700000000 = ''17448304''"
  by (simp_all add: printf_g_def printf_f0_def f64_units_def f64_sign_def f64_exp_def f64_frac_def f64_mag_def f64_finite_def dec_round_def dec_exp_def
      digits.simps lead_zeros.simps round_half_even_def g_digits_def with_fraction_def strip_zeros_def char_of_eq_iff Let_def)

end
