(* ===== verification/Web_Socket.thy ===== *)
theory Web_Socket
  imports Http_Util Sha1_Base64 Endian
begin

unbundle bit_operations_syntax

text \<open>
  The WebSocket side of the web interface (\<open>src/web/ws_hub.cpp\<close>): frames, the handshake, and the hub
  of connected clients. A client carries the kernel's side of its socket: what each \<open>send\<close> and
  \<open>recv\<close> to come will answer, and the bytes the socket has taken so far. The hub's lock makes every
  operation one step. Proved: frames decode to what went in; a client's input may arrive in pieces
  of any size; every ping is answered once and in order; what a peer receives is at any moment the
  beginning of a sequence of whole frames, however the socket takes the bytes, and nothing owed is
  lost or reordered; and the buffers stay within their bounds.
\<close>

section \<open>Frames and the handshake\<close>

definition kWsMagic :: string where
  "kWsMagic = ''258EAFA5-E914-47DA-95CA-C5AB0DC85B11''"

definition kOpClose :: byte where "kOpClose = 0x8"
definition kOpPing :: byte where "kOpPing = 0x9"
definition kMaxInbuf :: nat where "kMaxInbuf = 1024"
definition kMaxClients :: nat where "kMaxClients = 64"
definition kMaxBacklog :: nat where "kMaxBacklog = 1024 * 1024"
definition kServiceReadBudget :: nat where "kServiceReadBudget = 4096"

definition ws_control_frame :: "byte \<Rightarrow> byte list \<Rightarrow> byte list" where
  "ws_control_frame opcode payload =
     (let len = (if length payload < 125 then length payload else 125)
      in [0x80 OR (opcode AND 0x0F), of_nat len] @ take len payload)"

definition ws_accept_key :: "byte list \<Rightarrow> string \<Rightarrow> string" where
  "ws_accept_key buf key = base64_encode (sha1 buf (bytes_of (key @ kWsMagic)))"

definition ws_text_frame :: "byte list \<Rightarrow> byte list" where
  "ws_text_frame payload =
     (let n = length payload
      in [0x81] @
         (if n < 126 then [of_nat n]
          else if n \<le> 0xFFFF then [126, of_nat (n div 256 mod 256), of_nat (n mod 256)]
          else 127 # be_u64 (of_nat n)) @
         payload)"

definition crlf :: string where "crlf = [CHR 0x0D, CHR 0x0A]"

definition ws_handshake_response :: "byte list \<Rightarrow> string \<Rightarrow> string" where
  "ws_handshake_response buf sec_websocket_key =
     ''HTTP/1.1 101 Switching Protocols'' @ crlf @ ''Upgrade: websocket'' @ crlf @ ''Connection: Upgrade'' @ crlf @
     ''Sec-WebSocket-Accept: '' @ ws_accept_key buf sec_websocket_key @ crlf @ crlf"

definition is_websocket_upgrade :: "http_request \<Rightarrow> bool" where
  "is_websocket_upgrade req =
     (if rq_method req \<noteq> ''GET'' then False
      else if \<not> ascii_ieq (header req ''Upgrade'') ''websocket'' then False
      else if \<not> ascii_icontains (header req ''Connection'') ''upgrade'' then False
      else if header req ''Sec-WebSocket-Version'' \<noteq> ''13'' then False
      else if header req ''Sec-WebSocket-Key'' = [] then False
      else True)"

section \<open>A client and its socket\<close>

text \<open>
  What \<open>send\<close> answers: a number of bytes taken, \<open>EINTR\<close>, \<open>EAGAIN\<close> or \<open>EWOULDBLOCK\<close>, another error.
  What \<open>recv\<close> answers: bytes that have arrived (the kernel keeps those the buffer has no room for),
  the end of the stream, \<open>EINTR\<close>, another error; when nothing is left it would block.
\<close>

datatype send_answer = Sent nat | SendIntr | SendAgain | SendError
datatype recv_answer = Got "byte list" | RecvIntr | RecvEnd | RecvError

record ws_client =
  wc_fd :: int
  wc_inbuf :: "byte list"
  wc_skip :: u64
  wc_session :: string
  wc_outbuf :: "byte list"
  wc_answers :: "send_answer list"
  wc_arriving :: "recv_answer list"
  wc_sent :: "byte list"

fun send_answered :: "send_answer list \<Rightarrow> nat \<Rightarrow> int \<times> send_answer list" where
  "send_answered [] len = (0, [])"
| "send_answered (SendIntr # as) len = send_answered as len"
| "send_answered (SendAgain # as) len = (0, as)"
| "send_answered (SendError # as) len = (- 1, as)"
| "send_answered (Sent n # as) len = (int (min n len), as)"

definition send_some :: "ws_client \<Rightarrow> byte list \<Rightarrow> int \<times> ws_client" where
  "send_some c data =
     (case send_answered (wc_answers c) (length data) of
        (n, as) \<Rightarrow> (n, c\<lparr>wc_answers := as, wc_sent := wc_sent c @ take (nat n) data\<rparr>))"

lemma send_answered_range: "- 1 \<le> fst (send_answered as len) \<and> fst (send_answered as len) \<le> int len"
  by (induction as len rule: send_answered.induct) auto

function flush_out :: "ws_client \<Rightarrow> bool \<times> ws_client" where
  "flush_out c =
     (if wc_outbuf c = [] then (True, c)
      else case send_some c (wc_outbuf c) of
        (n, c') \<Rightarrow>
          if n < 0 then (False, c')
          else if n = 0 then (True, c')
          else flush_out (c'\<lparr>wc_outbuf := drop (nat n) (wc_outbuf c)\<rparr>))"
  by pat_completeness auto
termination by (relation "measure (\<lambda>c. length (wc_outbuf c))") auto

declare flush_out.simps [simp del]

definition queue_out :: "ws_client \<Rightarrow> byte list \<Rightarrow> bool \<times> ws_client" where
  "queue_out c0 frame =
     (case flush_out c0 of
        (ok, c) \<Rightarrow>
          if \<not> ok then (False, c)
          else
            (case (if wc_outbuf c = [] then send_some c frame else (0, c)) of
               (n, c) \<Rightarrow>
                 if n < 0 then (False, c)
                 else
                   let sent = nat n; c = (if sent < length frame then c\<lparr>wc_outbuf := wc_outbuf c @ drop sent frame\<rparr> else c)
                   in (length (wc_outbuf c) \<le> kMaxBacklog, c)))"

section \<open>Frames from a client\<close>

text \<open>
  The head of the input: more bytes are needed; it is no frame of a client; a control frame with
  its unmasked payload and its length in all; a data frame with the length of its head and of its
  payload.
\<close>

datatype ws_head = NeedMore | Malformed | Control byte "byte list" nat | Data nat u64

definition unmask :: "byte list \<Rightarrow> byte list \<Rightarrow> byte list" where
  "unmask key payload = map (\<lambda>i. (payload ! i) XOR (key ! (i mod 4))) [0..<length payload]"

definition be_number :: "byte list \<Rightarrow> u64" where
  "be_number bs = foldl (\<lambda>len b. push_bit 8 len OR ucast b) 0 bs"

definition ws_head_of :: "byte list \<Rightarrow> ws_head" where
  "ws_head_of b =
     (if length b < 2 then NeedMore
      else
        let b0 = b ! 0; b1 = b ! 1; opcode = b0 AND 0x0F; masked = (b1 AND 0x80 \<noteq> 0); len7 = b1 AND 0x7F
        in if b0 AND 0x70 \<noteq> 0 \<or> \<not> masked then Malformed
           else if opcode > 0x2 \<and> (opcode < 0x8 \<or> opcode > 0xA) then Malformed
           else
             let ext = (if len7 = 126 then 2 else if len7 = 127 then 8 else 0)
             in if length b < 2 + ext then NeedMore
                else
                  let len = (if ext = 0 then ucast len7 else be_number (take ext (drop 2 b))); hdr = 2 + ext + 4
                  in if length b < hdr then NeedMore
                     else if opcode \<ge> 0x8
                     then (if len > 125 \<or> b0 AND 0x80 = 0 then Malformed
                           else if length b < hdr + unat len then NeedMore
                           else Control opcode (unmask (take 4 (drop (2 + ext) b)) (take (unat len) (drop hdr b))) (hdr + unat len))
                     else Data hdr len)"

text \<open>What is left of the payload of a data frame is dropped first.\<close>

definition skip_payload :: "u64 \<times> byte list \<Rightarrow> u64 \<times> byte list" where
  "skip_payload = (\<lambda>(sk, b). let n = (if length b < unat sk then length b else unat sk) in (sk - of_nat n, drop n b))"

lemma ws_head_consumes:
  "ws_head_of b = Control op pl n \<Longrightarrow> 6 \<le> n \<and> n \<le> length b" "ws_head_of b = Data n len \<Longrightarrow> 6 \<le> n \<and> n \<le> length b"
  by (auto simp: ws_head_of_def Let_def split: if_splits)

lemma skip_payload_shorter: "length (snd (skip_payload sb)) \<le> length (snd sb)"
  by (cases sb) (simp add: skip_payload_def Let_def)

lemma skip_payload_le: "(sk, b) = skip_payload (i, j) \<Longrightarrow> length b \<le> length j"
  using skip_payload_shorter [of "(i, j)"] by (metis snd_conv)

definition close_reply :: "byte list \<Rightarrow> byte list" where
  "close_reply payload = ws_control_frame kOpClose (if length payload \<ge> 2 then take 2 payload else [])"

text \<open>Sending never touches what was received.\<close>

lemma flush_out_input: "wc_inbuf (snd (flush_out c)) = wc_inbuf c \<and> wc_skip (snd (flush_out c)) = wc_skip c \<and>
  wc_fd (snd (flush_out c)) = wc_fd c \<and> wc_session (snd (flush_out c)) = wc_session c \<and> wc_arriving (snd (flush_out c)) = wc_arriving c"
proof (induction c rule: flush_out.induct)
  case (1 c)
  show ?case
    by (subst (1 2 3 4 5) flush_out.simps) (use 1 in \<open>auto simp: send_some_def split: prod.splits\<close>)
qed

lemma queue_out_input: "wc_inbuf (snd (queue_out c f)) = wc_inbuf c \<and> wc_skip (snd (queue_out c f)) = wc_skip c \<and>
  wc_fd (snd (queue_out c f)) = wc_fd c \<and> wc_session (snd (queue_out c f)) = wc_session c \<and> wc_arriving (snd (queue_out c f)) = wc_arriving c"
  using flush_out_input [of c] by (auto simp: queue_out_def send_some_def Let_def split: prod.splits if_splits)

lemma queue_out_inbuf: "(ok, c2) = queue_out c1 f \<Longrightarrow> wc_inbuf c2 = wc_inbuf c1"
  using queue_out_input [of c1 f] by (metis snd_conv)

function consume_frames :: "ws_client \<Rightarrow> bool \<times> ws_client" where
  "consume_frames c0 =
     (case skip_payload (wc_skip c0, wc_inbuf c0) of
        (sk, b) \<Rightarrow>
          let c = c0\<lparr>wc_skip := sk, wc_inbuf := b\<rparr>
          in if sk > 0 then (True, c)
             else
               (case ws_head_of b of
                  NeedMore \<Rightarrow> (True, c)
                | Malformed \<Rightarrow> (False, c)
                | Data hdr len \<Rightarrow> consume_frames (c\<lparr>wc_inbuf := drop hdr b, wc_skip := len\<rparr>)
                | Control opcode payload n \<Rightarrow>
                    let c = c\<lparr>wc_inbuf := drop n b\<rparr>
                    in if opcode = kOpClose
                       then (False, if wc_outbuf c = [] then snd (send_some c (close_reply payload)) else c)
                       else if opcode = kOpPing
                       then (case queue_out c (ws_control_frame 0xA payload) of
                               (ok, c) \<Rightarrow> if \<not> ok then (False, c) else consume_frames c)
                       else consume_frames c))"
  by pat_completeness auto
termination
  by (relation "measure (\<lambda>c. length (wc_inbuf c))") (auto dest!: ws_head_consumes skip_payload_le queue_out_inbuf)

declare consume_frames.simps [simp del]

section \<open>The hub\<close>

text \<open>
  \<open>wh_closed\<close> are the clients whose socket was closed, kept to speak of what their peers received.
\<close>

record ws_hub =
  wh_clients :: "ws_client list"
  wh_closed :: "ws_client list"

definition hub_new :: ws_hub where
  "hub_new = \<lparr>wh_clients = [], wh_closed = []\<rparr>"

definition client_new :: "int \<Rightarrow> string \<Rightarrow> byte list \<Rightarrow> send_answer list \<Rightarrow> recv_answer list \<Rightarrow> ws_client" where
  "client_new fd session out answers arriving =
     \<lparr>wc_fd = fd, wc_inbuf = [], wc_skip = 0, wc_session = session, wc_outbuf = out, wc_answers = answers, wc_arriving = arriving, wc_sent = []\<rparr>"

definition hub_add :: "ws_hub \<Rightarrow> ws_client \<Rightarrow> ws_hub" where
  "hub_add h c = h\<lparr>wh_clients := wh_clients h @ [c]\<rparr>"

definition hub_add_first :: "ws_hub \<Rightarrow> ws_client \<Rightarrow> ws_hub" where
  "hub_add_first h c0 =
     (case flush_out c0 of
        (ok, c) \<Rightarrow> if \<not> ok then h\<lparr>wh_closed := wh_closed h @ [c]\<rparr> else h\<lparr>wh_clients := wh_clients h @ [c]\<rparr>)"

text \<open>A pass over the clients: those to keep stay, the others are closed.\<close>

definition each_client :: "(ws_client \<Rightarrow> bool \<times> ws_client) \<Rightarrow> ws_hub \<Rightarrow> ws_hub" where
  "each_client f h =
     (let rs = map f (wh_clients h)
      in h\<lparr>wh_clients := map snd (filter fst rs), wh_closed := wh_closed h @ map snd (filter (\<lambda>r. \<not> fst r) rs)\<rparr>)"

definition broadcast :: "ws_hub \<Rightarrow> byte list \<Rightarrow> ws_hub" where
  "broadcast h payload = (let frame = ws_text_frame payload in each_client (\<lambda>c. queue_out c frame) h)"

definition hub_size :: "ws_hub \<Rightarrow> nat" where
  "hub_size h = length (wh_clients h)"

text \<open>One client of \<open>service\<close>: reading, at most \<open>budget\<close> bytes in pieces of 512.\<close>

function read_loop :: "nat \<Rightarrow> ws_client \<Rightarrow> bool \<times> ws_client" where
  "read_loop budget c =
     (if budget = 0 then (True, c)
      else case wc_arriving c of
        [] \<Rightarrow> (True, c)
      | RecvIntr # as \<Rightarrow> read_loop budget (c\<lparr>wc_arriving := as\<rparr>)
      | RecvEnd # as \<Rightarrow> (False, c\<lparr>wc_arriving := as\<rparr>)
      | RecvError # as \<Rightarrow> (False, c\<lparr>wc_arriving := as\<rparr>)
      | Got bs # as \<Rightarrow>
          let want = (if budget < 512 then budget else 512); got = take want bs; rest = drop want bs;
              c = c\<lparr>wc_arriving := (if rest = [] then as else Got rest # as), wc_inbuf := wc_inbuf c @ got\<rparr>
          in if got = [] then (False, c)
             else (case consume_frames c of
                     (ok, c) \<Rightarrow> if \<not> ok \<or> length (wc_inbuf c) > kMaxInbuf then (False, c)
                                else read_loop (budget - length got) c))"
  by pat_completeness auto
termination by (relation "measures [fst, \<lambda>(b, c). length (wc_arriving c)]") auto

declare read_loop.simps [simp del]

definition service_client :: "ws_client \<Rightarrow> bool \<times> ws_client" where
  "service_client c0 = (case flush_out c0 of (keep, c) \<Rightarrow> if keep then read_loop kServiceReadBudget c else (False, c))"

definition service :: "ws_hub \<Rightarrow> nat \<times> ws_hub" where
  "service h = (let h' = each_client service_client h in (length (wh_closed h') - length (wh_closed h), h'))"

text \<open>\<open>drop_sessions\<close>: the tokens are taken, judged without the lock, and then the clients that still hold them are closed.\<close>

definition session_tokens :: "ws_hub \<Rightarrow> (int \<times> string) list" where
  "session_tokens h = map (\<lambda>c. (wc_fd c, wc_session c)) (filter (\<lambda>c. wc_session c \<noteq> []) (wh_clients h))"

definition drop_client :: "(int \<times> string) list \<Rightarrow> ws_client \<Rightarrow> bool \<times> ws_client" where
  "drop_client gone c =
     (if (wc_fd c, wc_session c) \<in> set gone
      then (False, if wc_outbuf c = [] then snd (send_some c (ws_control_frame kOpClose [0x03, 0xF0])) else c)
      else (True, c))"

definition drop_gone :: "ws_hub \<Rightarrow> (int \<times> string) list \<Rightarrow> nat \<times> ws_hub" where
  "drop_gone h gone =
     (if gone = [] then (0, h)
      else let h' = each_client (drop_client gone) h in (length (wh_closed h') - length (wh_closed h), h'))"

definition drop_sessions :: "ws_hub \<Rightarrow> (string \<Rightarrow> bool) \<Rightarrow> nat \<times> ws_hub" where
  "drop_sessions h valid = drop_gone h (filter (\<lambda>t. \<not> valid (snd t)) (session_tokens h))"

definition close_all :: "ws_hub \<Rightarrow> ws_hub" where
  "close_all h = h\<lparr>wh_clients := [], wh_closed := wh_closed h @ wh_clients h\<rparr>"

text \<open>
  \<open>flush_owed\<close>: on each turn the clock is read (in nanoseconds) and, before the deadline, \<open>poll\<close> answers: room,
  \<open>EINTR\<close>, or no more (a timeout or an error). The first client with that socket is the one served.
\<close>

datatype poll_answer = PollRoom | PollIntr | PollOver

fun flush_first :: "int \<Rightarrow> ws_client list \<Rightarrow> ws_client list \<times> ws_client list" where
  "flush_first fd [] = ([], [])"
| "flush_first fd (c # cs) =
     (if wc_fd c = fd then (case flush_out c of (ok, c') \<Rightarrow> if \<not> ok then (cs, [c']) else (c' # cs, []))
      else (case flush_first fd cs of (ks, ds) \<Rightarrow> (c # ks, ds)))"

definition owed_to :: "ws_hub \<Rightarrow> int \<Rightarrow> nat" where
  "owed_to h fd = (case filter (\<lambda>c. wc_fd c = fd) (wh_clients h) of [] \<Rightarrow> 0 | c # _ \<Rightarrow> length (wc_outbuf c))"

definition flush_turn :: "ws_hub \<Rightarrow> int \<Rightarrow> nat \<times> ws_hub" where
  "flush_turn h fd =
     (case flush_first fd (wh_clients h) of
        (ks, ds) \<Rightarrow> let h' = h\<lparr>wh_clients := ks, wh_closed := wh_closed h @ ds\<rparr>
                    in if ds \<noteq> [] then (0, h') else (owed_to h' fd, h'))"

fun flush_owed_loop :: "int \<Rightarrow> ws_hub \<Rightarrow> int \<Rightarrow> nat \<Rightarrow> (int \<times> poll_answer) list \<Rightarrow> nat \<times> ws_hub" where
  "flush_owed_loop deadline h fd owed [] = (owed, h)"
| "flush_owed_loop deadline h fd owed ((now, p) # ps) =
     (if deadline - now < 1000000 then (owed, h)
      else
        (case p of
           PollIntr \<Rightarrow> flush_owed_loop deadline h fd owed ps
         | PollOver \<Rightarrow> (owed, h)
         | PollRoom \<Rightarrow> (case flush_turn h fd of (owed, h) \<Rightarrow> if owed = 0 then (0, h) else flush_owed_loop deadline h fd owed ps)))"

definition flush_owed :: "ws_hub \<Rightarrow> int \<Rightarrow> int \<Rightarrow> nat \<Rightarrow> int \<Rightarrow> (int \<times> poll_answer) list \<Rightarrow> nat \<times> ws_hub" where
  "flush_owed h fd timeout_ms min_rate start ps =
     (let owed = owed_to h fd; extra = (if min_rate > 0 then owed * 1000 div min_rate else 0);
          deadline = start + (timeout_ms + int extra) * 1000000
      in if owed = 0 then (0, h) else flush_owed_loop deadline h fd owed ps)"

section \<open>Frames decode\<close>

text \<open>A frame of a server as a client reads it (RFC 6455, section 5.2): the first byte, the payload, what follows.\<close>

definition read_frame :: "byte list \<Rightarrow> (byte \<times> byte list \<times> byte list) option" where
  "read_frame b =
     (if length b < 2 \<or> b ! 1 AND 0x80 \<noteq> 0 then None
      else
        let ext = (if b ! 1 = 126 then 2 else if b ! 1 = 127 then 8 else 0);
            len = (if ext = 0 then unat (b ! 1) else unat (be_number (take ext (drop 2 b))))
        in if length b < 2 + ext + len then None
           else Some (b ! 0, take len (drop (2 + ext) b), drop len (drop (2 + ext) b)))"

lemma byte_mask: "(ucast (x AND 0xFF) :: byte) = ucast (x :: u64)"
proof (rule bit_word_eqI)
  fix n assume "n < LENGTH(8)"
  then have "bit (0xFF :: u64) n" using bit_mask_iff [of 8 n, where ?'a = u64] by (simp add: mask_eq_exp_minus_1)
  then show "bit (ucast (x AND 0xFF) :: byte) n = bit (ucast x :: byte) n" by (simp add: bit_simps)
qed

lemma be_u64_bytes: "be_u64 n = [ucast (drop_bit 56 n), ucast (drop_bit 48 n), ucast (drop_bit 40 n), ucast (drop_bit 32 n),
   ucast (drop_bit 24 n), ucast (drop_bit 16 n), ucast (drop_bit 8 n), ucast n]"
  by (simp add: be_u64_def byte_mask upt_rec)

lemma be_number_8: "be_number [h, g, f, e, d, c, b, a] =
   ucast a OR push_bit 8 (ucast b) OR push_bit 16 (ucast c) OR push_bit 24 (ucast d) OR push_bit 32 (ucast e) OR
   push_bit 40 (ucast f) OR push_bit 48 (ucast g) OR push_bit 56 (ucast h)"
  unfolding be_number_def by (simp only: foldl.simps push_bit_or push_bit_push_bit) (simp add: ac_simps)

lemma be_number_be_u64: "be_number (be_u64 n) = n"
  unfolding be_u64_bytes be_number_8 by (rule u64_bytes)

lemma be_number_2: "n \<le> 0xFFFF \<Longrightarrow> unat (be_number [of_nat (n div 256 mod 256), of_nat (n mod 256)]) = n"
proof -
  assume n: "n \<le> 0xFFFF"
  let ?hi = "of_nat (n div 256 mod 256) :: byte" and ?lo = "of_nat (n mod 256) :: byte"
  have b: "unat ?hi = n div 256" "unat ?lo = n mod 256" using n by (simp_all add: unat_of_nat)
  have "push_bit 8 (ucast ?hi) OR ucast ?lo = (push_bit 8 (ucast ?hi) + ucast ?lo :: u64)"
    by (rule disjunctive_add [symmetric]) (auto simp: bit_simps dest: bit_imp_le_length)
  then have "be_number [?hi, ?lo] = push_bit 8 (ucast ?hi) + ucast ?lo" by (simp add: be_number_def)
  moreover have "unat (push_bit 8 (ucast ?hi) + ucast ?lo :: u64) = n div 256 * 256 + n mod 256"
    using n b by (simp add: push_bit_eq_mult unat_word_ariths unsigned_ucast_eq take_bit_nat_eq_self)
  ultimately show ?thesis by simp
qed

lemma low_byte: "n < 128 \<Longrightarrow> (of_nat n :: byte) AND 0x80 = 0"
proof (rule bit_word_eqI)
  fix k assume "n < 128" "k < LENGTH(8)"
  have "bit (0x80 :: byte) k \<longleftrightarrow> k = 7" using bit_push_bit_iff [of 7 "1 :: byte" k] \<open>k < LENGTH(8)\<close>
    by (auto simp: push_bit_eq_mult)
  moreover have "\<not> bit n 7" using \<open>n < 128\<close> by (simp add: bit_iff_odd)
  then have "\<not> bit (of_nat n :: byte) 7" by (simp add: bit_of_nat_iff)
  ultimately show "bit ((of_nat n :: byte) AND 0x80) k = bit (0 :: byte) k" by (auto simp: bit_and_iff)
qed

lemma small_byte: "n < 126 \<Longrightarrow> unat (of_nat n :: byte) = n \<and> (of_nat n :: byte) \<noteq> 126 \<and> (of_nat n :: byte) \<noteq> 127 \<and> (of_nat n :: byte) AND 0x80 = 0"
  using low_byte [of n] by (auto simp: unat_of_nat word_unat_eq_iff)

lemma frame_decodes:
  "length payload < two64 \<Longrightarrow> read_frame (ws_text_frame payload @ rest) = Some (0x81, payload, rest)"
  "length payload \<le> 125 \<Longrightarrow> read_frame (ws_control_frame op payload @ rest) = Some (0x80 OR (op AND 0x0F), payload, rest)"
proof -
  let ?n = "length payload"
  assume lt: "?n < two64"
  consider "?n < 126" | "126 \<le> ?n" "?n \<le> 0xFFFF" | "0xFFFF < ?n" by linarith
  then show "read_frame (ws_text_frame payload @ rest) = Some (0x81, payload, rest)"
  proof cases
    case 1
    then show ?thesis using small_byte [OF 1] by (simp add: read_frame_def ws_text_frame_def Let_def)
  next
    case 2
    then show ?thesis using be_number_2 [of ?n] by (simp add: read_frame_def ws_text_frame_def Let_def)
  next
    case 3
    then have "unat (be_number (be_u64 (of_nat ?n))) = ?n" using lt by (simp add: be_number_be_u64 unat_of_nat)
    then show ?thesis using 3 by (simp add: read_frame_def ws_text_frame_def Let_def)
  qed
next
  let ?n = "length payload"
  assume "?n \<le> 125"
  then show "read_frame (ws_control_frame op payload @ rest) = Some (0x80 OR (op AND 0x0F), payload, rest)"
    using small_byte [of ?n] by (cases "?n < 125") (auto simp: read_frame_def ws_control_frame_def Let_def)
qed

text \<open>The frames of the hub decode: a reader following RFC 6455 gets the opcode with the final bit and exactly the
  payload, whatever follows the frame, for text frames of any length below \<open>2^64\<close> and for control
  frames of at most 125 bytes.\<close>

theorem frames_decode:
  "(length payload < two64 \<longrightarrow> read_frame (ws_text_frame payload @ rest) = Some (0x81, payload, rest)) \<and>
   (length payload \<le> 125 \<longrightarrow> read_frame (ws_control_frame op payload @ rest) = Some (0x80 OR (op AND 0x0F), payload, rest))"
  using frame_decodes by blast

theorem frames_decode_witness: "read_frame (ws_text_frame [7, 8] @ [9]) = Some (0x81, [7, 8], [9])"
  using frames_decode [of "[7, 8]" "[9]" 0] by simp

section \<open>Input in pieces\<close>

text \<open>
  What the bytes from a client say, without the sockets: the control frames in order, and the
  state the reader is left in (\<open>None\<close> when the client is to be dropped).
\<close>

datatype ws_event = Ping "byte list" | Pong | Close "byte list"

function ws_parse :: "u64 \<times> byte list \<Rightarrow> ws_event list \<times> (u64 \<times> byte list) option" where
  "ws_parse sb =
     (case skip_payload sb of
        (sk, b) \<Rightarrow>
          if sk > 0 then ([], Some (sk, b))
          else
            (case ws_head_of b of
               NeedMore \<Rightarrow> ([], Some (sk, b))
             | Malformed \<Rightarrow> ([], None)
             | Data hdr len \<Rightarrow> ws_parse (len, drop hdr b)
             | Control opcode payload n \<Rightarrow>
                 if opcode = kOpClose then ([Close payload], None)
                 else (case ws_parse (0, drop n b) of
                         (es, r) \<Rightarrow> ((if opcode = kOpPing then Ping payload else Pong) # es, r))))"
  by pat_completeness auto
termination
  by (relation "measure (\<lambda>sb. length (snd sb))") (auto dest!: ws_head_consumes skip_payload_le)

declare ws_parse.simps [simp del]

text \<open>More bytes do not change the head once it is complete.\<close>

lemma ws_head_more:
  assumes "ws_head_of b \<noteq> NeedMore"
  shows "ws_head_of (b @ t) = ws_head_of b"
proof -
  define e :: nat where "e = (if b ! 1 AND 0x7F = 126 then 2 else if b ! 1 AND 0x7F = 127 then 8 else 0)"
  have l2: "\<not> length b < 2" using assms by (auto simp: ws_head_of_def)
  then have n01: "(b @ t) ! 0 = b ! 0" "(b @ t) ! 1 = b ! 1" by (cases b; simp add: nth_append)+
  have l2t: "\<not> length (b @ t) < 2" using l2 by simp
  consider (one) "b ! 0 AND 0x70 \<noteq> 0 \<or> \<not> b ! 1 AND 0x80 \<noteq> 0"
    | (two) "\<not> (b ! 0 AND 0x70 \<noteq> 0 \<or> \<not> b ! 1 AND 0x80 \<noteq> 0)" "b ! 0 AND 0x0F > 0x2 \<and> (b ! 0 AND 0x0F < 0x8 \<or> b ! 0 AND 0x0F > 0xA)"
    | (three) "\<not> (b ! 0 AND 0x70 \<noteq> 0 \<or> \<not> b ! 1 AND 0x80 \<noteq> 0)" "\<not> (b ! 0 AND 0x0F > 0x2 \<and> (b ! 0 AND 0x0F < 0x8 \<or> b ! 0 AND 0x0F > 0xA))"
    by blast
  then show ?thesis
  proof cases
    case one
    show ?thesis unfolding ws_head_of_def Let_def n01 by (simp only: l2 l2t one if_True if_False)
  next
    case two
    show ?thesis unfolding ws_head_of_def Let_def n01 by (simp only: l2 l2t two simp_thms if_True if_False)
  next
    case three
    define len :: u64 where "len = (if e = 0 then ucast (b ! 1 AND 0x7F) else be_number (take e (drop 2 b)))"
    have head: "ws_head_of b = (if length b < 2 + e then NeedMore else if length b < 2 + e + 4 then NeedMore
       else if b ! 0 AND 0x0F \<ge> 0x8
       then (if len > 125 \<or> b ! 0 AND 0x80 = 0 then Malformed
             else if length b < 2 + e + 4 + unat len then NeedMore
             else Control (b ! 0 AND 0x0F) (unmask (take 4 (drop (2 + e) b)) (take (unat len) (drop (2 + e + 4) b))) (2 + e + 4 + unat len))
       else Data (2 + e + 4) len)"
      unfolding ws_head_of_def Let_def e_def [symmetric] len_def [symmetric] by (simp only: three l2 if_False)
    then have le: "\<not> length b < 2 + e + 4" using assms by (auto split: if_splits)
    then have same: "take e (drop 2 (b @ t)) = take e (drop 2 b)" "take 4 (drop (2 + e) (b @ t)) = take 4 (drop (2 + e) b)" by auto
    have head': "ws_head_of (b @ t) = (if length (b @ t) < 2 + e then NeedMore else if length (b @ t) < 2 + e + 4 then NeedMore
       else if b ! 0 AND 0x0F \<ge> 0x8
       then (if len > 125 \<or> b ! 0 AND 0x80 = 0 then Malformed
             else if length (b @ t) < 2 + e + 4 + unat len then NeedMore
             else Control (b ! 0 AND 0x0F) (unmask (take 4 (drop (2 + e) b)) (take (unat len) (drop (2 + e + 4) (b @ t)))) (2 + e + 4 + unat len))
       else Data (2 + e + 4) len)"
      unfolding ws_head_of_def Let_def n01 e_def [symmetric] same len_def [symmetric] by (simp only: three l2t if_False)
    show ?thesis unfolding head' using head le assms by (auto split: if_splits)
  qed
qed

lemma skip_payload_more:
  assumes "skip_payload (s, b) = (sk, r)"
  shows "skip_payload (s, b @ t) = skip_payload (sk, r @ t)" and "sk = 0 \<or> r = []"
proof -
  show "sk = 0 \<or> r = []" using assms by (auto simp: skip_payload_def Let_def split: if_splits)
  show "skip_payload (s, b @ t) = skip_payload (sk, r @ t)"
  proof (cases "length b < unat s")
    case True
    then have r: "r = []" "sk = s - of_nat (length b)" using assms by (auto simp: skip_payload_def Let_def)
    have "unat (of_nat (length b) :: u64) = length b" using True unat_lt_two64 [of s] by (simp add: unat_of_nat)
    then have "unat sk = unat s - length b" using True by (simp add: r unat_sub word_le_nat_alt)
    then show ?thesis using True r by (auto simp: skip_payload_def Let_def)
  next
    case False
    then have "r = drop (unat s) b" "sk = 0" using assms by (auto simp: skip_payload_def Let_def)
    then show ?thesis using False by (auto simp: skip_payload_def Let_def)
  qed
qed

text \<open>How the bytes of a client are cut into reads does not matter: parsing one piece and then, from the state it left,
  the next one gives the frames of both pieces at once.\<close>

lemma ws_input_pieces:
  "ws_parse (s, b @ t) =
     (case ws_parse (s, b) of
        (es, None) \<Rightarrow> (es, None)
      | (es, Some (sk, r)) \<Rightarrow> (case ws_parse (sk, r @ t) of (es', st) \<Rightarrow> (es @ es', st)))"
proof (induction "(s, b)" arbitrary: s b rule: ws_parse.induct)
  case (1 s b)
  obtain sk r where sp: "skip_payload (s, b) = (sk, r)" by (cases "skip_payload (s, b)")
  note more = skip_payload_more(1) [OF sp, of t] skip_payload_more(2) [OF sp]
  show ?case
  proof (cases "sk > 0")
    case True
    then show ?thesis using sp more(1) by (subst (1 2 3) ws_parse.simps) simp
  next
    case False
    then have sk: "sk = 0" by (simp add: word_gt_0)
    have st: "skip_payload (s, b @ t) = (0, r @ t)" using more(1) sk by (simp add: skip_payload_def)
    show ?thesis
    proof (cases "ws_head_of r")
      case NeedMore
      then have "ws_parse (s, b) = ([], Some (0, r))" using sp sk by (subst ws_parse.simps) simp
      moreover have "ws_parse (s, b @ t) = ws_parse (0, r @ t)"
        using st more(1) sk by (subst (1 2) ws_parse.simps) simp
      ultimately show ?thesis by (simp split: prod.split)
    next
      case Malformed
      then show ?thesis using sp sk st ws_head_more [of r t] by (subst (1 2) ws_parse.simps) simp
    next
      case (Control op pl n)
      then have n: "n \<le> length r" using ws_head_consumes(1) by blast
      have hm: "ws_head_of (r @ t) = Control op pl n" using ws_head_more [of r t] Control by simp
      show ?thesis
      proof (cases "op = kOpClose")
        case True
        then show ?thesis using sp sk st hm Control by (subst (1 2) ws_parse.simps) simp
      next
        case f: False
        have ih: "ws_parse (0, drop n r @ t) = (case ws_parse (0, drop n r) of (es, None) \<Rightarrow> (es, None)
            | (es, Some (sk, r)) \<Rightarrow> (case ws_parse (sk, r @ t) of (es', st) \<Rightarrow> (es @ es', st)))"
          using 1(1) [OF sp [symmetric] _ Control f] sk by simp
        show ?thesis
          using sp sk st hm Control f ih n by (subst (1 2) ws_parse.simps) (auto split: prod.splits option.splits)
      qed
    next
      case (Data hdr len)
      then have n: "hdr \<le> length r" using ws_head_consumes(2) by blast
      have hm: "ws_head_of (r @ t) = Data hdr len" using ws_head_more [of r t] Data by simp
      have ih: "ws_parse (len, drop hdr r @ t) = (case ws_parse (len, drop hdr r) of (es, None) \<Rightarrow> (es, None)
          | (es, Some (sk, r)) \<Rightarrow> (case ws_parse (sk, r @ t) of (es', st) \<Rightarrow> (es @ es', st)))"
        using 1(2) [OF sp [symmetric] _ Data] sk by simp
      show ?thesis
        using sp sk st hm Data ih n by (subst (1 2) ws_parse.simps) simp
    qed
  qed
qed

section \<open>What the peer receives\<close>

text \<open>The bytes the socket has taken and those it still has to take.\<close>

definition stream :: "ws_client \<Rightarrow> byte list" where
  "stream c = wc_sent c @ wc_outbuf c"

lemma flush_stream: "stream (snd (flush_out c)) = stream c"
proof (induction c rule: flush_out.induct)
  case (1 c)
  show ?case
  proof (cases "wc_outbuf c = []")
    case True
    then show ?thesis by (subst flush_out.simps) simp
  next
    case False
    obtain n c' where sc: "send_some c (wc_outbuf c) = (n, c')" by (cases "send_some c (wc_outbuf c)")
    then have c': "wc_sent c' = wc_sent c @ take (nat n) (wc_outbuf c)" "wc_outbuf c' = wc_outbuf c"
      by (auto simp: send_some_def split: prod.splits)
    show ?thesis
    proof (cases "n > 0")
      case True
      then show ?thesis using False sc c' 1 [OF False sc [symmetric]] by (subst flush_out.simps) (simp add: stream_def)
    next
      case f: False
      then show ?thesis using False sc c' by (subst flush_out.simps) (auto simp: stream_def)
    qed
  qed
qed

lemma queue_stream:
  "fst (queue_out c f) \<Longrightarrow> stream (snd (queue_out c f)) = stream c @ f"
  "stream (snd (queue_out c f)) = stream c \<or> stream (snd (queue_out c f)) = stream c @ f"
proof -
  obtain ok c1 where fl: "flush_out c = (ok, c1)" by (cases "flush_out c")
  then have s1: "stream c1 = stream c" using flush_stream [of c] by simp
  have part: "wc_sent (snd (send_some c1 f)) = wc_sent c1 @ take (nat (fst (send_some c1 f))) f"
    "wc_outbuf (snd (send_some c1 f)) = wc_outbuf c1" "fst (send_some c1 f) \<le> int (length f)"
    using send_answered_range [of "wc_answers c1" "length f"] by (auto simp: send_some_def split: prod.splits)
  show "fst (queue_out c f) \<Longrightarrow> stream (snd (queue_out c f)) = stream c @ f"
    "stream (snd (queue_out c f)) = stream c \<or> stream (snd (queue_out c f)) = stream c @ f"
    using fl s1 part by (auto simp: queue_out_def Let_def stream_def split: prod.splits if_splits)
qed

text \<open>The answers to the pings.\<close>

fun answer_of :: "ws_event \<Rightarrow> byte list" where
  "answer_of (Ping p) = ws_control_frame 0xA p"
| "answer_of Pong = []"
| "answer_of (Close p) = []"

definition answers_to :: "ws_event list \<Rightarrow> byte list" where
  "answers_to es = concat (map answer_of es)"

lemma consume_answers:
  "consume_frames c = (True, c') \<Longrightarrow> \<exists>es. ws_parse (wc_skip c, wc_inbuf c) = (es, Some (wc_skip c', wc_inbuf c')) \<and> stream c' = stream c @ answers_to es"
proof (induction c arbitrary: c' rule: consume_frames.induct)
  case (1 c)
  obtain sk b where sp: "skip_payload (wc_skip c, wc_inbuf c) = (sk, b)" by (cases "skip_payload (wc_skip c, wc_inbuf c)")
  let ?c = "c\<lparr>wc_skip := sk, wc_inbuf := b\<rparr>"
  have st: "stream ?c = stream c" "\<And>x y. stream (c\<lparr>wc_skip := x, wc_inbuf := y\<rparr>) = stream c" by (simp_all add: stream_def)
  note un = "1.prems" [unfolded consume_frames.simps [of c] sp Let_def prod.case]
  show ?case
  proof (cases "sk > 0 \<or> ws_head_of b = NeedMore")
    case True
    then have "c' = ?c" using un by (cases "sk > 0") simp_all
    moreover have "ws_parse (wc_skip c, wc_inbuf c) = ([], Some (sk, b))" using True sp by (subst ws_parse.simps) auto
    ultimately show ?thesis by (simp add: answers_to_def stream_def)
  next
    case False
    then have sk: "\<not> sk > 0" "sk = 0" by (simp_all add: word_gt_0)
    show ?thesis
    proof (cases "ws_head_of b")
      case (Data hdr len)
      from 1(3) [OF sp [symmetric] refl sk(1) Data] un Data sk obtain es where
        "ws_parse (len, drop hdr b) = (es, Some (wc_skip c', wc_inbuf c'))" "stream c' = stream c @ answers_to es"
        by (auto simp: stream_def)
      then show ?thesis using sp sk Data by (subst ws_parse.simps) simp
    next
      case (Control op pl n)
      then have op: "op \<noteq> kOpClose" using un sk by auto
      let ?c2 = "c\<lparr>wc_skip := sk, wc_inbuf := drop n b\<rparr>"
      have pp: "ws_parse (wc_skip c, wc_inbuf c) = (case ws_parse (0, drop n b) of (es, r) \<Rightarrow> ((if op = kOpPing then Ping pl else Pong) # es, r))"
        using sp sk Control op by (subst ws_parse.simps) simp
      show ?thesis
      proof (cases "op = kOpPing")
        case True
        obtain ok c3 where q: "queue_out ?c2 (ws_control_frame 0xA pl) = (ok, c3)" by (cases "queue_out ?c2 (ws_control_frame 0xA pl)")
        then have ok: "ok" "consume_frames c3 = (True, c')" using un sk Control op True by (auto split: if_splits)
        have s3: "stream c3 = stream c @ ws_control_frame 0xA pl" "wc_inbuf c3 = drop n b" "wc_skip c3 = 0"
          using queue_stream(1) [of ?c2 "ws_control_frame 0xA pl"] queue_out_input [of ?c2 "ws_control_frame 0xA pl"] q ok sk
          by (simp_all add: stream_def)
        from 1(1) [OF sp [symmetric] refl sk(1) Control refl op True _ _ ok(2)] q ok sk obtain es where
          "ws_parse (wc_skip c3, wc_inbuf c3) = (es, Some (wc_skip c', wc_inbuf c'))" "stream c' = stream c3 @ answers_to es"
          by auto
        then show ?thesis using pp True s3 by (simp add: answers_to_def)
      next
        case f: False
        then have "consume_frames ?c2 = (True, c')" using un sk Control op by auto
        from 1(2) [OF sp [symmetric] refl sk(1) Control refl op f _] this obtain es where
          "ws_parse (sk, drop n b) = (es, Some (wc_skip c', wc_inbuf c'))" "stream c' = stream c @ answers_to es"
          by (auto simp: stream_def)
        then show ?thesis using pp f sk by (simp add: answers_to_def)
      qed
    qed (use un False in auto)
  qed
qed

text \<open>The bytes of a client in pieces, one read each.\<close>

fun feed :: "ws_client \<Rightarrow> byte list list \<Rightarrow> bool \<times> ws_client" where
  "feed c [] = (True, c)"
| "feed c (p # ps) =
     (case consume_frames (c\<lparr>wc_inbuf := wc_inbuf c @ p\<rparr>) of (ok, c') \<Rightarrow> if ok then feed c' ps else (False, c'))"

lemma answers_to_append [simp]: "answers_to (xs @ ys) = answers_to xs @ answers_to ys"
  by (simp add: answers_to_def)

lemma ws_parse_stops: "ws_parse sb = (es, Some (sk, b)) \<Longrightarrow> ws_parse (sk, b) = ([], Some (sk, b)) \<and> length b < 139"
proof (induction sb arbitrary: es sk b rule: ws_parse.induct)
  case (1 sb)
  obtain sk' b' where sp: "skip_payload sb = (sk', b')" by (cases "skip_payload sb")
  note un = "1.prems" [unfolded ws_parse.simps [of sb] sp prod.case]
  show ?case
  proof (cases "sk' > 0")
    case True
    then have "b' = []" using skip_payload_more(2) [of "fst sb" "snd sb" sk' b'] sp by auto
    then show ?thesis using un True by (subst ws_parse.simps) (auto simp: skip_payload_def Let_def)
  next
    case f: False
    then have z: "sk' = 0" by (simp add: word_gt_0)
    show ?thesis
    proof (cases "ws_head_of b'")
      case NeedMore
      then have e: "sk = 0" "b = b'" using un f z by auto
      have "length b' < 139"
      proof (rule ccontr)
        assume l: "\<not> length b' < 139"
        then show False using NeedMore by (auto simp: ws_head_of_def Let_def word_less_nat_alt not_less split: if_splits)
      qed
      then show ?thesis using e NeedMore by (subst ws_parse.simps) (simp add: skip_payload_def)
    next
      case (Control op pl n)
      then show ?thesis using un f 1(1) [OF sp [symmetric] f Control] by (auto split: if_splits prod.splits)
    next
      case (Data hdr len)
      then show ?thesis using un f 1(2) [OF sp [symmetric] f Data] by auto
    qed (use un f in auto)
  qed
qed

lemma feed_answers:
  "feed c ps = (True, c') \<Longrightarrow> ps \<noteq> [] \<Longrightarrow>
   \<exists>es. ws_parse (wc_skip c, wc_inbuf c @ concat ps) = (es, Some (wc_skip c', wc_inbuf c')) \<and> stream c' = stream c @ answers_to es"
proof (induction ps arbitrary: c)
  case (Cons p ps)
  obtain c1 where c1: "consume_frames (c\<lparr>wc_inbuf := wc_inbuf c @ p\<rparr>) = (True, c1)" "feed c1 ps = (True, c')"
    using Cons.prems by (auto split: prod.splits if_splits)
  from consume_answers [OF c1(1)] obtain es where
    es: "ws_parse (wc_skip c, wc_inbuf c @ p) = (es, Some (wc_skip c1, wc_inbuf c1))" "stream c1 = stream c @ answers_to es"
    by (auto simp: stream_def)
  show ?case
  proof (cases "ps = []")
    case True
    then show ?thesis using c1 es by auto
  next
    case False
    from Cons.IH [OF c1(2) False] obtain es' where
      es': "ws_parse (wc_skip c1, wc_inbuf c1 @ concat ps) = (es', Some (wc_skip c', wc_inbuf c'))" "stream c' = stream c1 @ answers_to es'"
      by auto
    then show ?thesis using ws_input_pieces [of "wc_skip c" "wc_inbuf c @ p" "concat ps"] es by simp
  qed
qed simp

text \<open>
  A frame as a client sends it (RFC 6455): the first byte, the length with the mask bit, the masking key, the masked
  payload. \<open>client_message\<close>: a ping, a pong or a data frame, whole or fragmented.
\<close>

definition client_frame :: "byte \<times> byte list \<times> byte list \<Rightarrow> byte list" where
  "client_frame = (\<lambda>(b0, key, payload).
     let n = length payload
     in [b0] @
        (if n < 126 then [0x80 OR of_nat n]
         else if n \<le> 0xFFFF then [0xFE, of_nat (n div 256 mod 256), of_nat (n mod 256)]
         else 0xFF # be_u64 (of_nat n)) @
        key @ unmask key payload)"

definition client_message :: "byte \<times> byte list \<times> byte list \<Rightarrow> bool" where
  "client_message = (\<lambda>(b0, key, payload).
     length key = 4 \<and>
     (b0 \<in> {0x89, 0x8A} \<and> length payload \<le> 125 \<or> b0 \<in> {0x00, 0x01, 0x02, 0x80, 0x81, 0x82} \<and> length payload < two64))"

definition pong_for :: "byte \<times> byte list \<times> byte list \<Rightarrow> byte list" where
  "pong_for = (\<lambda>(b0, key, payload). if b0 = 0x89 then ws_control_frame 0xA payload else [])"

lemma unmask_length [simp]: "length (unmask key payload) = length payload"
  by (simp add: unmask_def)

lemma unmask_unmask: "unmask key (unmask key payload) = payload"
  by (rule nth_equalityI) (simp_all add: unmask_def xor.assoc)

lemma mask_bit: "n < 128 \<Longrightarrow> ((0x80 :: byte) OR of_nat n) AND 0x80 \<noteq> 0 \<and> ((0x80 :: byte) OR of_nat n) AND 0x7F = of_nat n"
proof (rule conjI)
  assume n: "n < 128"
  have "((0x80 :: byte) OR of_nat n) AND 0x80 = 0x80 AND 0x80 OR of_nat n AND 0x80" by (rule bit.conj_disj_distrib2)
  then show "((0x80 :: byte) OR of_nat n) AND 0x80 \<noteq> 0" using low_byte [OF n] by simp
  have m: "(0x7F :: byte) = mask 7" by (simp add: mask_eq_exp_minus_1)
  have "((0x80 :: byte) OR of_nat n) AND 0x7F = 0x80 AND 0x7F OR of_nat n AND 0x7F" by (rule bit.conj_disj_distrib2)
  also have "of_nat n AND (0x7F :: byte) = of_nat n"
    using n by (simp add: m take_bit_eq_mask [symmetric] word_unat_eq_iff unsigned_take_bit_eq take_bit_nat_eq_self unat_of_nat)
  finally show "((0x80 :: byte) OR of_nat n) AND 0x7F = of_nat n" by simp
qed

lemma byte_length: "n < 126 \<Longrightarrow> unat (ucast (of_nat n :: byte) :: u64) = n"
  using small_byte [of n] by (simp add: unsigned_ucast_eq take_bit_nat_eq_self)

lemma client_control_head:
  assumes "b0 = 0x89 \<or> b0 = 0x8A" "length key = 4" "length payload \<le> 125"
  shows "ws_head_of (client_frame (b0, key, payload) @ rest) = Control (b0 AND 0x0F) payload (length (client_frame (b0, key, payload)))"
proof -
  let ?n = "length payload"
  have b: "client_frame (b0, key, payload) = [b0, 0x80 OR of_nat ?n] @ key @ unmask key payload" "?n < 126"
    using assms by (simp_all add: client_frame_def Let_def)
  note sm = small_byte [OF b(2)] and mb = mask_bit [of ?n]
  have u: "unat (ucast (of_nat ?n :: byte) :: u64) = ?n" using byte_length [OF b(2)] .
  have lt: "\<not> 125 < (ucast (of_nat ?n :: byte) :: u64)" using u assms by (simp add: word_less_nat_alt)
  show ?thesis
    using assms sm mb b u lt unmask_unmask [of key payload] by (auto simp: ws_head_of_def Let_def)
qed

lemma client_data_head:
  assumes "b0 \<in> {0x00, 0x01, 0x02, 0x80, 0x81, 0x82}" "length key = 4" "length payload < two64"
  shows "\<exists>hdr len. ws_head_of (client_frame (b0, key, payload) @ rest) = Data hdr len \<and> unat len = length payload \<and>
    drop hdr (client_frame (b0, key, payload) @ rest) = unmask key payload @ rest"
proof -
  let ?n = "length payload"
  have op: "b0 AND 0x70 = 0" "\<not> b0 AND 0x0F > 0x2" "\<not> b0 AND 0x0F \<ge> 0x8" using assms(1) by (auto simp: word_le_nat_alt)
  consider "?n < 126" | "126 \<le> ?n" "?n \<le> 0xFFFF" | "0xFFFF < ?n" by linarith
  then show ?thesis
  proof cases
    case 1
    have "unat (ucast (of_nat ?n :: byte) :: u64) = ?n" using byte_length [OF 1] .
    then show ?thesis using 1 op small_byte [OF 1] mask_bit [of ?n] assms(2) by (auto simp: ws_head_of_def client_frame_def Let_def)
  next
    case 2
    then show ?thesis using op be_number_2 [of ?n] assms(2) by (simp add: ws_head_of_def client_frame_def Let_def)
  next
    case 3
    then have "unat (be_number (be_u64 (of_nat ?n))) = ?n" using assms(3) by (simp add: be_number_be_u64 unat_of_nat)
    moreover have "length (be_u64 (of_nat ?n)) = 8" by (simp add: be_u64_bytes)
    ultimately show ?thesis using 3 op assms(2) by (simp add: ws_head_of_def client_frame_def Let_def)
  qed
qed

lemma ws_parse_message:
  assumes "client_message (b0, key, payload)"
  shows "ws_parse (0, client_frame (b0, key, payload) @ rest) =
    (case ws_parse (0, rest) of (es, r) \<Rightarrow> ((if b0 = 0x89 then [Ping payload] else if b0 = 0x8A then [Pong] else []) @ es, r))"
proof (cases "b0 \<in> {0x89, 0x8A}")
  case True
  then have "b0 = 0x89 \<or> b0 = 0x8A" "length key = 4" "length payload \<le> 125"
    using assms by (auto simp: client_message_def)
  note h = client_control_head [OF this, of rest]
  show ?thesis using h True
    by (subst ws_parse.simps) (auto simp: skip_payload_def kOpClose_def kOpPing_def split: prod.splits)
next
  case False
  then have "b0 \<in> {0x00, 0x01, 0x02, 0x80, 0x81, 0x82}" "length key = 4" "length payload < two64"
    using assms by (auto simp: client_message_def)
  from client_data_head [OF this, of rest] obtain hdr len where
    h: "ws_head_of (client_frame (b0, key, payload) @ rest) = Data hdr len" "unat len = length payload"
      "drop hdr (client_frame (b0, key, payload) @ rest) = unmask key payload @ rest"
    by blast
  have "skip_payload (len, unmask key payload @ rest) = (0, rest)" 
    by (simp add: skip_payload_def Let_def h(2) flip: h(2))
  moreover have "skip_payload (0, rest) = (0, rest)" by (simp add: skip_payload_def)
  ultimately have "ws_parse (len, unmask key payload @ rest) = ws_parse (0, rest)"
    by (subst (1 2) ws_parse.simps) simp
  then show ?thesis using h False by (subst ws_parse.simps) (simp add: skip_payload_def split: prod.splits)
qed

lemma ws_parse_messages:
  "list_all client_message ms \<Longrightarrow> \<exists>es. ws_parse (0, concat (map client_frame ms)) = (es, Some (0, [])) \<and> answers_to es = concat (map pong_for ms)"
proof (induction ms)
  case Nil
  then show ?case by (simp add: answers_to_def ws_parse.simps skip_payload_def ws_head_of_def)
next
  case (Cons m ms)
  obtain b0 key payload where m: "m = (b0, key, payload)" by (cases m)
  from Cons obtain es where es: "ws_parse (0, concat (map client_frame ms)) = (es, Some (0, []))" "answers_to es = concat (map pong_for ms)"
    by auto
  show ?case
    using ws_parse_message [of b0 key payload "concat (map client_frame ms)"] Cons.prems m es
    by (auto simp: answers_to_def pong_for_def)
qed

text \<open>A client's pings are answered, once each and in order, however the connection cuts its bytes into reads: when the
  reads together are a sequence of pings, pongs and data frames (of any length, whole or fragmented, masked with any keys),
  and no read ends with the client dropped (its socket failed, or it is too far behind), what the client is sent grows by exactly the
  pongs carrying the payloads of its pings, and no byte of the input is left over.\<close>

theorem ws_pings_answered:
  assumes "wc_skip c = 0" "wc_inbuf c = []" "list_all client_message ms" "concat ps = concat (map client_frame ms)"
    and "feed c ps = (True, c')"
  shows "stream c' = stream c @ concat (map pong_for ms) \<and> wc_inbuf c' = [] \<and> wc_skip c' = 0"
proof (cases "ps = []")
  case True
  have "client_frame m \<noteq> []" for m by (simp add: client_frame_def Let_def split: prod.splits)
  then have "ms = []" using assms(4) True by (cases ms) auto
  then show ?thesis using assms True by simp
next
  case False
  from feed_answers [OF assms(5) False] ws_parse_messages [OF assms(3)] show ?thesis using assms by auto
qed

theorem ws_pings_answered_witness:
  "\<exists>c'. feed (client_new 3 [] [] [Sent 3, SendAgain] []) [[0x89, 0x81, 1], [2, 3, 4, 8]] = (True, c') \<and> stream c' = [0x8A, 1, 9]"
proof -
  let ?c = "client_new 3 [] [] [Sent 3, SendAgain] []"
  obtain c' where f: "feed ?c [[0x89, 0x81, 1], [2, 3, 4, 8]] = (True, c')"
    by (simp add: client_new_def consume_frames.simps skip_payload_def ws_head_of_def kOpClose_def kOpPing_def queue_out_def
        flush_out.simps send_some_def ws_control_frame_def kMaxBacklog_def unmask_def)
  from ws_pings_answered [OF _ _ _ _ f, of "[(0x89, [1, 2, 3, 4], [9])]"] have "stream c' = [0x8A, 1, 9]"
    by (simp add: client_new_def client_message_def client_frame_def unmask_def pong_for_def ws_control_frame_def stream_def)
  with f show ?thesis by blast
qed

section \<open>Whole frames\<close>

text \<open>The frames a peer reads from a sequence of bytes that ends with a whole frame.\<close>

inductive reads :: "byte list \<Rightarrow> (byte \<times> byte list) list \<Rightarrow> bool" where
  none: "reads [] []"
| one: "read_frame s = Some (b, p, rest) \<Longrightarrow> reads rest fs \<Longrightarrow> reads s ((b, p) # fs)"

lemma read_frame_more: "read_frame s = Some (b, p, rest) \<Longrightarrow> read_frame (s @ t) = Some (b, p, rest @ t)"
proof -
  assume r: "read_frame s = Some (b, p, rest)"
  then have n: "(s @ t) ! 0 = s ! 0" "(s @ t) ! 1 = s ! 1" by (auto simp: read_frame_def nth_append split: if_splits)
  define e :: nat where "e = (if s ! 1 = 126 then 2 else if s ! 1 = 127 then 8 else 0)"
  define len where "len = (if e = 0 then unat (s ! 1) else unat (be_number (take e (drop 2 s))))"
  have rs: "read_frame s = (if length s < 2 \<or> s ! 1 AND 0x80 \<noteq> 0 then None else if length s < 2 + e + len then None
      else Some (s ! 0, take len (drop (2 + e) s), drop len (drop (2 + e) s)))"
    unfolding read_frame_def Let_def e_def [symmetric] len_def [symmetric] ..
  then have l: "\<not> length s < 2 + e + len" using r by (auto split: if_splits)
  then have "take e (drop 2 (s @ t)) = take e (drop 2 s)" by simp
  then have "read_frame (s @ t) = (if length (s @ t) < 2 \<or> s ! 1 AND 0x80 \<noteq> 0 then None else if length (s @ t) < 2 + e + len then None
      else Some (s ! 0, take len (drop (2 + e) (s @ t)), drop len (drop (2 + e) (s @ t))))"
    unfolding read_frame_def Let_def n e_def [symmetric] by (simp only: len_def [symmetric])
  then show ?thesis using rs r l by (auto split: if_splits)
qed

lemma reads_append: "reads s fs \<Longrightarrow> reads t gs \<Longrightarrow> reads (s @ t) (fs @ gs)"
  by (induction rule: reads.induct) (auto intro: reads.intros read_frame_more)

lemma reads_text: "length payload < two64 \<Longrightarrow> reads (ws_text_frame payload) [(0x81, payload)]"
  using frame_decodes(1) [of payload "[]"] by (auto intro: reads.intros)

lemma reads_control: "length payload \<le> 125 \<Longrightarrow> reads (ws_control_frame op payload) [(0x80 OR (op AND 0x0F), payload)]"
  using frame_decodes(2) [of payload op "[]"] by (auto intro: reads.intros)

text \<open>
  \<open>whole\<close>: what a client has been sent, with what it is still owed, is a sequence of whole frames.
  \<open>unbroken\<close>: what it has been sent is the beginning of one. \<open>sound\<close>: what a pass leaves of a client, kept or closed.
\<close>

definition whole :: "ws_client \<Rightarrow> bool" where
  "whole c = (\<exists>fs. reads (stream c) fs)"

definition unbroken :: "ws_client \<Rightarrow> bool" where
  "unbroken c = (\<exists>s fs. reads s fs \<and> prefix (wc_sent c) s)"

definition sound :: "bool \<times> ws_client \<Rightarrow> bool" where
  "sound r = (unbroken (snd r) \<and> (fst r \<longrightarrow> whole (snd r)))"

lemma whole_unbroken: "whole c \<Longrightarrow> unbroken c"
  by (auto simp: whole_def unbroken_def stream_def intro: prefixI)

lemma sound_whole: "whole c \<Longrightarrow> sound (ok, c)"
  by (simp add: sound_def whole_unbroken)

lemma whole_same_stream: "whole c \<Longrightarrow> stream c' = stream c \<Longrightarrow> whole c'"
  by (simp add: whole_def)

lemma flush_sound: "whole c \<Longrightarrow> whole (snd (flush_out c))"
  by (rule whole_same_stream) (simp_all add: flush_stream)

lemma queue_whole:
  assumes "whole c" "reads f gs"
  shows "whole (snd (queue_out c f))"
  using assms queue_stream(2) [of c f] reads_append [of "stream c" _ f gs] unfolding whole_def by metis

lemma send_some_unbroken:
  assumes "whole c" "wc_outbuf c = []" "reads f gs"
  shows "unbroken (snd (send_some c f))"
proof -
  from assms obtain fs where "reads (wc_sent c) fs" by (auto simp: whole_def stream_def)
  then have "reads (wc_sent c @ f) (fs @ gs)" using assms(3) by (rule reads_append)
  moreover have "prefix (wc_sent (snd (send_some c f))) (wc_sent c @ f)"
    by (auto simp: send_some_def take_is_prefix split: prod.split)
  ultimately show ?thesis by (auto simp: unbroken_def)
qed

lemma ws_head_payload: "ws_head_of b = Control op pl n \<Longrightarrow> length pl \<le> 125"
  by (auto simp: ws_head_of_def Let_def word_less_nat_alt unmask_def split: if_splits)

lemma reads_close: "\<exists>gs. reads (close_reply pl) gs"
  unfolding close_reply_def by (rule exI, rule reads_control) simp

lemma consume_sound: "whole c \<Longrightarrow> sound (consume_frames c)"
proof (induction c rule: consume_frames.induct)
  case (1 c)
  obtain sk b where sp: "skip_payload (wc_skip c, wc_inbuf c) = (sk, b)" by (cases "skip_payload (wc_skip c, wc_inbuf c)")
  have wh: "whole (c\<lparr>wc_skip := x, wc_inbuf := y\<rparr>)" for x y using "1.prems" by (rule whole_same_stream) (simp add: stream_def)
  have wh2: "whole (c\<lparr>wc_inbuf := y, wc_skip := x\<rparr>)" for x y using "1.prems" by (rule whole_same_stream) (simp add: stream_def)
  show ?case
  proof (cases "sk > 0")
    case True
    then show ?thesis using sp wh by (subst consume_frames.simps) (simp add: sound_whole)
  next
    case f: False
    show ?thesis
    proof (cases "ws_head_of b")
      case (Data hdr len)
      then show ?thesis using 1(3) [OF sp [symmetric] refl f Data] sp f wh2 by (subst consume_frames.simps) simp
    next
      case (Control op pl n)
      let ?c2 = "c\<lparr>wc_skip := sk, wc_inbuf := drop n b\<rparr>"
      have un: "consume_frames c =
         (if op = kOpClose then (False, if wc_outbuf ?c2 = [] then snd (send_some ?c2 (close_reply pl)) else ?c2)
          else if op = kOpPing then (case queue_out ?c2 (ws_control_frame 0xA pl) of (ok, c) \<Rightarrow> if \<not> ok then (False, c) else consume_frames c)
          else consume_frames ?c2)"
        using sp f Control by (subst consume_frames.simps) simp
      consider (close) "op = kOpClose" | (ping) "op \<noteq> kOpClose" "op = kOpPing" | (pong) "op \<noteq> kOpClose" "op \<noteq> kOpPing" by blast
      then show ?thesis
      proof cases
        case close
        obtain gs where "reads (close_reply pl) gs" using reads_close by blast
        then show ?thesis using close wh send_some_unbroken [of ?c2 "close_reply pl" gs] by (auto simp: un sound_def whole_unbroken)
      next
        case ping
        obtain ok c3 where q: "queue_out ?c2 (ws_control_frame 0xA pl) = (ok, c3)" by (cases "queue_out ?c2 (ws_control_frame 0xA pl)")
        have w3: "whole c3" using queue_whole [OF wh reads_control [OF ws_head_payload [OF Control], of "0xA"], of "drop n b" sk] q by simp
        show ?thesis
        proof (cases ok)
          case True
          then show ?thesis using 1(1) [OF sp [symmetric] refl f Control refl ping(1) ping(2), of ok c3] q w3 ping(1) by (simp add: un ping(2))
        next
          case False
          then show ?thesis using q w3 ping(1) by (simp add: un ping(2) sound_whole)
        qed
      next
        case pong
        then show ?thesis using 1(2) [OF sp [symmetric] refl f Control refl pong] wh by (simp add: un)
      qed
    qed (use sp f wh in \<open>subst consume_frames.simps, simp add: sound_whole\<close>)+
  qed
qed

lemma consume_inbuf: "consume_frames c = (True, c') \<Longrightarrow> length (wc_inbuf c') < 139"
  using consume_answers [of c c'] ws_parse_stops by blast

lemma read_loop_sound: "whole c \<Longrightarrow> length (wc_inbuf c) < 139 \<Longrightarrow> sound (read_loop budget c) \<and> (fst (read_loop budget c) \<longrightarrow> length (wc_inbuf (snd (read_loop budget c))) < 139)"
proof (induction budget c rule: read_loop.induct)
  case (1 budget c)
  have wh: "whole (c\<lparr>wc_arriving := x\<rparr>)" "whole (c\<lparr>wc_arriving := x, wc_inbuf := y\<rparr>)" for x y
    using "1.prems"(1) by (auto elim!: whole_same_stream simp: stream_def)
  show ?case
  proof (cases "budget = 0 \<or> wc_arriving c = []")
    case True
    then show ?thesis using "1.prems" by (subst (1 2 3) read_loop.simps) (auto simp: sound_whole)
  next
    case False
    then obtain a as where a: "wc_arriving c = a # as" by (cases "wc_arriving c") auto
    show ?thesis
    proof (cases a)
      case RecvIntr
      then show ?thesis using a False 1(2) [OF _ a RecvIntr] wh(1) "1.prems" by (subst (1 2 3) read_loop.simps) simp
    next
      case (Got bs)
      let ?want = "if budget < 512 then budget else 512"
      let ?c = "c\<lparr>wc_arriving := (if drop ?want bs = [] then as else Got (drop ?want bs) # as), wc_inbuf := wc_inbuf c @ take ?want bs\<rparr>"
      obtain ok c2 where cf: "consume_frames ?c = (ok, c2)" by (cases "consume_frames ?c")
      have so: "sound (ok, c2)" using consume_sound [OF wh(2)] cf by metis
      have un: "read_loop budget c = (if take ?want bs = [] then (False, ?c)
          else if \<not> ok \<or> length (wc_inbuf c2) > kMaxInbuf then (False, c2) else read_loop (budget - length (take ?want bs)) c2)"
        using a Got False cf by (subst read_loop.simps) (simp add: Let_def)
      show ?thesis
      proof (cases "take ?want bs = [] \<or> \<not> ok \<or> length (wc_inbuf c2) > kMaxInbuf")
        case True
        then show ?thesis using so wh(2) unfolding un by (auto simp: sound_def whole_unbroken)
      next
        case ok: False
        then have "whole c2" "length (wc_inbuf c2) < 139" using so consume_inbuf cf by (auto simp: sound_def)
        then have "sound (read_loop (budget - length (take ?want bs)) c2) \<and> (fst (read_loop (budget - length (take ?want bs)) c2) \<longrightarrow>
            length (wc_inbuf (snd (read_loop (budget - length (take ?want bs)) c2))) < 139)"
          using 1(1) [OF _ a Got refl refl refl refl _ cf [symmetric]] False ok by (simp add: Let_def)
        then show ?thesis using ok unfolding un by simp
      qed
    qed (use a False wh "1.prems" in \<open>subst (1 2 3) read_loop.simps, simp add: sound_whole\<close>)+
  qed
qed

text \<open>A pass over the clients keeps what every step on a client keeps.\<close>

definition client_ok :: "ws_client \<Rightarrow> bool" where
  "client_ok c = (whole c \<and> length (wc_inbuf c) < 139)"

definition hub_ok :: "ws_hub \<Rightarrow> bool" where
  "hub_ok h = (list_all client_ok (wh_clients h) \<and> list_all unbroken (wh_closed h))"

definition step_ok :: "bool \<times> ws_client \<Rightarrow> bool" where
  "step_ok r = (unbroken (snd r) \<and> (fst r \<longrightarrow> client_ok (snd r)))"

lemma each_client_ok: "hub_ok h \<Longrightarrow> (\<And>c. client_ok c \<Longrightarrow> step_ok (f c)) \<Longrightarrow> hub_ok (each_client f h)"
  unfolding hub_ok_def each_client_def Let_def list_all_iff step_ok_def by auto (metis fst_conv snd_conv)+

lemma flush_step_ok: "client_ok c \<Longrightarrow> step_ok (flush_out c)"
  using flush_sound [of c] flush_out_input [of c] by (simp add: step_ok_def client_ok_def whole_unbroken)

lemma queue_step_ok: "client_ok c \<Longrightarrow> reads f gs \<Longrightarrow> step_ok (queue_out c f)"
  using queue_whole [of c f gs] queue_out_input [of c f] by (simp add: step_ok_def client_ok_def whole_unbroken)

lemma service_step_ok: "client_ok c \<Longrightarrow> step_ok (service_client c)"
  using flush_step_ok [of c] read_loop_sound [of "snd (flush_out c)" kServiceReadBudget]
  by (auto simp: service_client_def step_ok_def client_ok_def sound_def split: prod.splits)

lemma drop_step_ok: "client_ok c \<Longrightarrow> step_ok (drop_client gone c)"
  using send_some_unbroken [OF _ _ reads_control, of c "[0x03, 0xF0]" kOpClose]
  by (auto simp: drop_client_def step_ok_def client_ok_def whole_unbroken)

lemma flush_first_ok:
  "flush_first fd cs = (ks, ds) \<Longrightarrow> list_all client_ok cs \<Longrightarrow> list_all client_ok ks \<and> list_all unbroken ds"
proof (induction cs arbitrary: ks)
  case (Cons c cs)
  then show ?case using flush_step_ok [of c] by (auto simp: step_ok_def split: if_splits prod.splits)
qed simp

lemma flush_turn_ok: "hub_ok h \<Longrightarrow> hub_ok (snd (flush_turn h fd))"
  using flush_first_ok [of fd "wh_clients h"] by (auto simp: flush_turn_def hub_ok_def Let_def split: prod.splits)

lemma flush_loop_ok: "hub_ok h \<Longrightarrow> hub_ok (snd (flush_owed_loop deadline h fd owed ps))"
proof (induction deadline h fd owed ps rule: flush_owed_loop.induct)
  case (2 deadline h fd owed now p ps)
  then show ?case using flush_turn_ok [of h fd] by (cases p) (auto split: prod.splits)
qed simp

text \<open>
  What happens to a hub, in any order: each operation runs under its lock. A new client starts with a socket that
  will answer in its own way; the first frame is a text frame, as the router makes it.
\<close>

datatype hub_event =
    Add int string "send_answer list" "recv_answer list"
  | AddFirst int string "byte list" "send_answer list" "recv_answer list"
  | Broadcast "byte list"
  | Service
  | DropGone "(int \<times> string) list"
  | FlushOwed int int nat int "(int \<times> poll_answer) list"
  | CloseAll

fun hub_step :: "ws_hub \<Rightarrow> hub_event \<Rightarrow> ws_hub" where
  "hub_step h (Add fd session answers arriving) = hub_add h (client_new fd session [] answers arriving)"
| "hub_step h (AddFirst fd session payload answers arriving) =
     hub_add_first h (client_new fd session (ws_text_frame payload) answers arriving)"
| "hub_step h (Broadcast payload) = broadcast h payload"
| "hub_step h Service = snd (service h)"
| "hub_step h (DropGone gone) = snd (drop_gone h gone)"
| "hub_step h (FlushOwed fd timeout_ms min_rate start ps) = snd (flush_owed h fd timeout_ms min_rate start ps)"
| "hub_step h CloseAll = close_all h"

fun fits :: "hub_event \<Rightarrow> bool" where
  "fits (AddFirst fd session payload answers arriving) = (length payload < two64)"
| "fits (Broadcast payload) = (length payload < two64)"
| "fits e = True"

lemma client_new_ok: "reads out fs \<Longrightarrow> client_ok (client_new fd session out answers arriving)"
  by (auto simp: client_ok_def whole_def stream_def client_new_def)

lemma hub_step_ok:
  assumes "hub_ok h" "fits e"
  shows "hub_ok (hub_step h e)"
proof (cases e)
  case (Add fd session answers arriving)
  then show ?thesis using assms client_new_ok [OF reads.none] by (simp add: hub_ok_def hub_add_def)
next
  case (AddFirst fd session payload answers arriving)
  then have "step_ok (flush_out (client_new fd session (ws_text_frame payload) answers arriving))"
    using assms by (intro flush_step_ok client_new_ok [OF reads_text]) simp
  then show ?thesis using assms AddFirst by (auto simp: hub_ok_def hub_add_first_def step_ok_def split: prod.splits)
next
  case (Broadcast payload)
  then show ?thesis using assms by (auto simp: broadcast_def intro!: each_client_ok queue_step_ok reads_text)
next
  case Service
  then show ?thesis using assms by (auto simp: service_def Let_def intro!: each_client_ok service_step_ok)
next
  case (DropGone gone)
  then show ?thesis using assms by (auto simp: drop_gone_def Let_def intro!: each_client_ok drop_step_ok)
next
  case (FlushOwed fd timeout_ms min_rate start ps)
  then show ?thesis using assms by (auto simp: flush_owed_def Let_def intro!: flush_loop_ok)
next
  case CloseAll
  then show ?thesis using assms by (auto simp: close_all_def hub_ok_def list_all_iff client_ok_def whole_unbroken)
qed

lemma hub_run_ok: "hub_ok h \<Longrightarrow> list_all fits es \<Longrightarrow> hub_ok (foldl hub_step h es)"
  by (induction es arbitrary: h) (auto simp: hub_step_ok)

text \<open>C36: No peer ever sees a broken frame: after any sequence of additions, broadcasts, service passes, session drops and
  flushes, whatever part of each write the sockets took and whatever the clients sent, what every connected
  client has been sent together with what it is owed is a sequence of whole frames, at most 138 bytes of its input
  wait to be understood (below the bound at which it would be dropped), and what a client whose connection was closed had been
  sent is the beginning of a sequence of whole frames.\<close>

theorem hub_streams_whole:
  assumes "list_all fits es"
  defines "h \<equiv> foldl hub_step hub_new es"
  shows "list_all (\<lambda>c. (\<exists>fs. reads (wc_sent c @ wc_outbuf c) fs) \<and> length (wc_inbuf c) \<le> 138) (wh_clients h) \<and>
    list_all (\<lambda>c. \<exists>s fs. reads s fs \<and> prefix (wc_sent c) s) (wh_closed h)"
proof -
  have "hub_ok hub_new" by (simp add: hub_ok_def hub_new_def)
  then have "hub_ok h" unfolding h_def using assms(1) by (rule hub_run_ok)
  then show ?thesis by (auto simp: hub_ok_def client_ok_def whole_def unbroken_def stream_def list_all_iff)
qed

theorem hub_streams_whole_witness:
  "\<exists>fs. reads (concat (map (\<lambda>c. wc_sent c @ wc_outbuf c)
     (wh_clients (foldl hub_step hub_new [Add 5 [] [Sent 1, SendAgain] [], Broadcast [7], DropGone [], Service])))) fs"
proof -
  let ?es = "[Add 5 [] [Sent 1, SendAgain] [], Broadcast [7], DropGone [], Service]"
  have "length (wh_clients (foldl hub_step hub_new ?es)) = 1"
    by (simp add: hub_new_def hub_add_def client_new_def broadcast_def each_client_def queue_out_def flush_out.simps send_some_def
        ws_text_frame_def kMaxBacklog_def drop_gone_def service_def service_client_def read_loop.simps)
  then obtain c where c: "wh_clients (foldl hub_step hub_new ?es) = [c]" by (auto simp: length_Suc_conv)
  then show ?thesis using hub_streams_whole [of ?es] by simp
qed

text \<open>A broadcast reaches every client that stays, behind what it was already owed: the clients after it are, in order,
  those the socket did not fail and whose backlog fits, each with the text frame appended to its stream, and none of
  them is owed more than \<open>kMaxBacklog\<close>; all the others are closed.\<close>

theorem broadcast_delivers:
  "map stream (wh_clients (broadcast h payload)) =
     map (\<lambda>c. stream c @ ws_text_frame payload) (filter (\<lambda>c. fst (queue_out c (ws_text_frame payload))) (wh_clients h)) \<and>
   list_all (\<lambda>c. length (wc_outbuf c) \<le> kMaxBacklog) (wh_clients (broadcast h payload)) \<and>
   hub_size (broadcast h payload) + length (wh_closed (broadcast h payload)) = hub_size h + length (wh_closed h)"
proof -
  let ?f = "\<lambda>c. queue_out c (ws_text_frame payload)"
  have kept: "map stream (map snd (filter fst (map ?f cs))) = map (\<lambda>c. stream c @ ws_text_frame payload) (filter (\<lambda>c. fst (?f c)) cs)" for cs
    by (induction cs) (auto simp: queue_stream(1))
  have owed: "list_all (\<lambda>c. length (wc_outbuf c) \<le> kMaxBacklog) (map snd (filter fst (map ?f cs)))" for cs
    by (induction cs) (auto simp: queue_out_def Let_def split: prod.splits if_splits)
  have count: "length (filter fst (map ?f cs)) + length (filter (\<lambda>r. \<not> fst r) (map ?f cs)) = length cs" for cs
    by (induction cs) auto
  show ?thesis using kept [of "wh_clients h"] owed [of "wh_clients h"] count [of "wh_clients h"]
    by (simp add: broadcast_def each_client_def Let_def hub_size_def)
qed

end
