(* ===== verification/Router.thy ===== *)
theory Router
  imports Web_Socket Session Login_Limiter Json_Body Hot_Buffer Scheduler Tier_Manager
begin

text \<open>
  The HTTP routes (\<open>src/daemon/router.cpp\<close>): which names and origins a request may come from, the
  session cookie, and every route, over the parts they use. The check of a password, the session
  token that is drawn, the clocks, the answers of the disk and of the sockets are given with each
  request. Proved: without a session nothing of the host's data shows in an answer; a session
  comes only from the right password, sent by a page of this site; a page of another site gets neither a
  login nor a live stream; a login is a session until its time is over; and the end of a session
  closes the live streams it opened.
\<close>

section \<open>Requests\<close>

definition kCatchupSamples :: nat where "kCatchupSamples = 300"

definition strip_back :: "string \<Rightarrow> string" where
  "strip_back s = rev (dropWhile is_blank (rev s))"

definition media_type :: "http_request \<Rightarrow> string" where
  "media_type req = map to_lower (strip_back (takeWhile (\<lambda>c. c \<noteq> CHR '';'') (header req ''Content-Type'')))"

definition first_entry :: "string \<Rightarrow> string" where
  "first_entry v = dropWhile is_blank (strip_back (takeWhile (\<lambda>c. c \<noteq> CHR '','') v))"

definition via_https :: "http_request \<Rightarrow> bool" where
  "via_https req = ascii_ieq (first_entry (header req ''X-Forwarded-Proto'')) ''https''"

definition same_origin :: "http_request \<Rightarrow> bool" where
  "same_origin req =
     (let origin = header req ''Origin''
      in if origin = [] then True
         else case find_from ''://'' origin 0 of
           None \<Rightarrow> False
         | Some sep \<Rightarrow>
             let authority = takeWhile (\<lambda>c. c \<noteq> CHR ''/'') (drop (sep + 3) origin)
             in if authority = [] then False
                else list_ex (\<lambda>h. let v = first_entry (header req h) in v \<noteq> [] \<and> ascii_ieq v authority) [''Host'', ''X-Forwarded-Host''])"

definition host_name :: "string \<Rightarrow> string" where
  "host_name h =
     (if h \<noteq> [] \<and> hd h = CHR ''['' then (if CHR '']'' \<in> set h then takeWhile (\<lambda>c. c \<noteq> CHR '']'') (tl h) else [])
      else let h = takeWhile (\<lambda>c. c \<noteq> CHR '':'') h in if h \<noteq> [] \<and> last h = CHR ''.'' then butlast h else h)"

text \<open>
  \<open>inet_pton\<close>: a dotted quad of numbers up to 255 without leading zeros; an IPv6 address of eight groups of at most four
  hexadecimal digits, one run of groups left out by two colons, the last two groups possibly a dotted quad. \<open>tp\<close> is
  the number of bytes stored, \<open>seen\<close> that of the digits of the group, \<open>curtok\<close> where the group starts, \<open>colon\<close> that
  the two colons were seen.
\<close>

fun inet_pton4_loop :: "nat \<Rightarrow> nat \<Rightarrow> bool \<Rightarrow> string \<Rightarrow> bool" where
  "inet_pton4_loop octets val saw [] = (octets = 4 \<and> saw)"
| "inet_pton4_loop octets val saw (c # cs) =
     (if is_digit c
      then (if saw \<and> val = 0 then False
            else let n = val * 10 + digit_value c; octets = (if saw then octets else octets + 1)
                 in if n > 255 \<or> octets > 4 then False else inet_pton4_loop octets n True cs)
      else if c = CHR ''.'' \<and> saw then (if octets = 4 then False else inet_pton4_loop octets 0 False cs)
      else False)"

definition inet_pton4 :: "string \<Rightarrow> bool" where
  "inet_pton4 s = inet_pton4_loop 0 0 False s"

definition is_xdigit :: "char \<Rightarrow> bool" where
  "is_xdigit c = (let n = of_char c :: nat in (48 \<le> n \<and> n \<le> 57) \<or> (65 \<le> n \<and> n \<le> 70) \<or> (97 \<le> n \<and> n \<le> 102))"

definition inet_pton6_end :: "nat \<Rightarrow> nat \<Rightarrow> bool \<Rightarrow> bool" where
  "inet_pton6_end tp seen colon =
     (let tp' = (if seen > 0 then tp + 2 else tp) in tp' \<le> 16 \<and> (if colon then tp' < 16 else tp' = 16))"

fun inet_pton6_loop :: "nat \<Rightarrow> nat \<Rightarrow> bool \<Rightarrow> string \<Rightarrow> string \<Rightarrow> bool" where
  "inet_pton6_loop tp seen colon curtok [] = inet_pton6_end tp seen colon"
| "inet_pton6_loop tp seen colon curtok (c # cs) =
     (if is_xdigit c then (if seen = 4 then False else inet_pton6_loop tp (seen + 1) colon curtok cs)
      else if c = CHR '':''
      then (if seen = 0 then (if colon then False else inet_pton6_loop tp 0 True cs cs)
            else if cs = [] \<or> tp + 2 > 16 then False else inet_pton6_loop (tp + 2) 0 colon cs cs)
      else if c = CHR ''.'' \<and> tp + 4 \<le> 16 \<and> inet_pton4 curtok then inet_pton6_end (tp + 4) 0 colon
      else False)"

definition inet_pton6 :: "string \<Rightarrow> bool" where
  "inet_pton6 s =
     (if s \<noteq> [] \<and> hd s = CHR '':'' then (if take 1 (tl s) = '':'' then inet_pton6_loop 0 0 False (tl s) (tl s) else False)
      else inet_pton6_loop 0 0 False s s)"

text \<open>What the routes read of the configuration.\<close>

record web_config =
  wf_listen_addr :: string
  wf_listen_port :: int
  wf_auth_enabled :: bool
  wf_password_hash :: string
  wf_allowed_hosts :: "string list"

definition own_host :: "http_request \<Rightarrow> web_config \<Rightarrow> string \<Rightarrow> bool \<Rightarrow> bool" where
  "own_host req cfg hostname login =
     (if take 4 (wf_listen_addr cfg) \<noteq> ''127.'' then True
      else if wf_auth_enabled cfg \<and> \<not> login then True
      else let raw = header req ''Host''
           in if raw = [] then True
              else let h = host_name raw
                   in if h = [] then False
                      else if inet_pton4 (c_str h) \<or> inet_pton6 (c_str h) then True
                      else if ascii_ieq h ''localhost'' then True
                      else if length h > 10 \<and> ascii_ieq (drop (length h - 10) h) ''.localhost'' then True
                      else if hostname \<noteq> [] \<and> ascii_ieq h hostname then True
                      else list_ex (ascii_ieq h) (wf_allowed_hosts cfg))"

definition path_char :: "char \<Rightarrow> bool" where
  "path_char c =
     (let n = of_char c :: nat
      in (97 \<le> n \<and> n \<le> 122) \<or> (65 \<le> n \<and> n \<le> 90) \<or> (48 \<le> n \<and> n \<le> 57) \<or> c \<in> set ''/-_.~'')"

definition cookie_path :: "http_request \<Rightarrow> string" where
  "cookie_path req =
     (let p = first_entry (header req ''X-Forwarded-Prefix'')
      in if p = [] \<or> hd p \<noteq> CHR ''/'' \<or> length p > 200 then ''/''
         else if \<not> list_all path_char p then ''/''
         else if length p > 1 \<and> last p = CHR ''/'' then butlast p else p)"

definition cookie_attrs :: "http_request \<Rightarrow> string" where
  "cookie_attrs req =
     ''; HttpOnly; Path='' @ cookie_path req @ ''; SameSite=Strict'' @ (if via_https req then ''; Secure'' else [])"

definition to_string :: "int \<Rightarrow> string" where
  "to_string v = (if v < 0 then ''-'' else []) @ digits (nat \<bar>v\<bar>)"

definition fnv1a :: "string \<Rightarrow> u32" where
  "fnv1a key = foldl (\<lambda>h b. (h XOR ucast b) * 16777619) 2166136261 (bytes_of key)"

definition hex8 :: "u32 \<Rightarrow> string" where
  "hex8 h = map (\<lambda>i. hex_digit (unat h div 16 ^ i mod 16)) [7, 6, 5, 4, 3, 2, 1, 0]"

definition session_cookie_name :: "string \<Rightarrow> int \<Rightarrow> string" where
  "session_cookie_name hostname port = ''budyk_session_'' @ hex8 (fnv1a (hostname @ '':'' @ to_string port))"

section \<open>The parts a route touches\<close>

text \<open>
  \<open>RouterDeps\<close>. \<open>rd_wake\<close>: whether there is a wake callback; \<open>rd_wakes\<close>: how often it was called. \<open>rd_world\<close> holds the
  sessions file and what was printed.
\<close>

record router_deps =
  rd_cfg :: web_config
  rd_hot :: hot_buffer
  rd_latest_detail :: "string option"
  rd_recent_alerts :: "alert_event list option"
  rd_tm :: "tier_manager \<times> disk"
  rd_sessions :: session_store
  rd_world :: world
  rd_limiter :: login_limiter
  rd_ws :: ws_hub
  rd_sched :: scheduler
  rd_last_poll_ns :: u64
  rd_poller_window_ns :: u64
  rd_wake :: bool
  rd_wakes :: nat
  rd_version :: string
  rd_hostname :: string
  rd_io_timeout_ms :: int
  rd_min_send_rate :: nat

text \<open>
  What a request finds around it: the clocks, the check of a password against its hash (a third-party library), the token drawn, the
  answers of the system calls, the page, the sort and the slice arithmetic of a merged query, and the
  unused bytes of the hash buffer.
\<close>

record request_env =
  re_monotonic_ns :: u64
  re_realtime_ns :: u64
  re_argon2_verify :: "string \<Rightarrow> string \<Rightarrow> int"
  re_token :: string
  re_strerror :: "errno \<Rightarrow> string"
  re_save_io :: save_io
  re_read_io :: "string \<Rightarrow> u64 \<Rightarrow> errno option"
  re_begun :: "u64 \<Rightarrow> u64"
  re_sort :: "sample list \<Rightarrow> sample list"
  re_slice :: "u64 \<Rightarrow> nat \<Rightarrow> u64 \<Rightarrow> u64"
  re_buf :: "byte list"
  re_index_html :: string

text \<open>\<open>rs_hijack\<close>: the handshake and the session the closure of an upgrade carries.\<close>

record http_response =
  rs_status :: int
  rs_content_type :: string
  rs_body :: string
  rs_extra_headers :: "(string \<times> string) list"
  rs_hijack :: "(string \<times> string) option"

definition response :: "int \<Rightarrow> string \<Rightarrow> string \<Rightarrow> http_response" where
  "response s type txt = \<lparr>rs_status = s, rs_content_type = type, rs_body = txt, rs_extra_headers = [], rs_hijack = None\<rparr>"

definition eol :: string where "eol = [CHR 0x0A]"

text \<open>A text of the source with its quotes written as grave accents, and its newline.\<close>

definition json_line :: "string \<Rightarrow> string" where
  "json_line s = map (\<lambda>c. if c = CHR 0x60 then CHR 0x22 else c) s @ eol"

definition unauthenticated :: http_response where
  "unauthenticated = response 401 ''application/json'' (json_line ''{`error`:`unauthenticated`}'')"

definition authed :: "request_env \<Rightarrow> router_deps \<Rightarrow> http_request \<Rightarrow> bool \<times> router_deps" where
  "authed env d req =
     (if \<not> wf_auth_enabled (rd_cfg d) then (True, d)
      else let c = header req ''Cookie''
           in if c = [] then (False, d)
              else let tok = cookie_value c (session_cookie_name (rd_hostname d) (wf_listen_port (rd_cfg d)))
                   in if tok = [] then (False, d)
                      else (case sess_touch (re_strerror env) (rd_sessions d) (rd_world d) (re_save_io env) tok (re_realtime_ns env) of
                              (ok, st, w) \<Rightarrow> (ok, d\<lparr>rd_sessions := st, rd_world := w\<rparr>)))"

section \<open>The routes\<close>

definition in_quotes :: "string \<Rightarrow> string" where
  "in_quotes s = quot # s @ [quot]"

definition route_index :: "request_env \<Rightarrow> http_response" where
  "route_index env = response 200 ''text/html; charset=utf-8'' (re_index_html env)"

definition route_health :: "router_deps \<Rightarrow> http_response" where
  "route_health d = response 200 ''application/json''
     (json_object [json_key ''status'' @ in_quotes ''ok'', json_key ''version'' @ in_quotes (c_str (rd_version d)),
        json_key ''hostname'' @ in_quotes (json_escape (rd_hostname d)),
        json_key ''auth'' @ (if wf_auth_enabled (rd_cfg d) then ''true'' else ''false'')] @ eol)"

definition add_header :: "string \<Rightarrow> string \<Rightarrow> http_response \<Rightarrow> http_response" where
  "add_header k v r = r\<lparr>rs_extra_headers := rs_extra_headers r @ [(k, v)]\<rparr>"

definition blocked_line :: "login_limiter \<Rightarrow> string \<Rightarrow> string" where
  "blocked_line l peer =
     ''budyk serve: '' @ to_string (li_max_failures l) @ '' failed logins from '' @ c_str peer @ ''; refusing attempts for '' @
     to_string (li_window_sec l) @ '' s'' @ eol"

definition login_checked :: "request_env \<Rightarrow> router_deps \<Rightarrow> http_request \<Rightarrow> u64 \<Rightarrow> http_response \<times> router_deps" where
  "login_checked env d req now_s =
     (case json_get_string (rq_body req) (Some ''password'') of
        None \<Rightarrow> (response 400 ''application/json'' (json_line ''{`error`:`missing password`}''), d)
      | Some pw \<Rightarrow>
          if pw = [] then (response 400 ''application/json'' (json_line ''{`error`:`missing password`}''), d)
          else if re_argon2_verify env pw (wf_password_hash (rd_cfg d)) \<noteq> 0
          then (case record_failure (rd_limiter d) (rq_peer req) now_s of
                  (full, l) \<Rightarrow>
                    (response 401 ''application/json'' (json_line ''{`error`:`invalid credentials`}''),
                     d\<lparr>rd_limiter := l,
                       rd_world := (if full then (rd_world d)\<lparr>w_log := w_log (rd_world d) @ [blocked_line l (rq_peer req)]\<rparr> else rd_world d)\<rparr>))
          else
            let d = d\<lparr>rd_limiter := record_success (rd_limiter d) (rq_peer req)\<rparr>
            in case sess_create (re_strerror env) (rd_sessions d) (rd_world d) (re_save_io env) (re_token env) (re_realtime_ns env) of
                 (tok, st, w) \<Rightarrow>
                   let d = d\<lparr>rd_sessions := st, rd_world := w\<rparr>
                   in if tok = [] then (response 500 ''application/json'' (json_line ''{`error`:`entropy unavailable`}''), d)
                      else (add_header ''Set-Cookie'' (session_cookie_name (rd_hostname d) (wf_listen_port (rd_cfg d)) @ ''='' @ tok @ cookie_attrs req)
                              (response 200 ''application/json'' (json_line ''{`ok`:true}'')), d))"

definition route_login :: "request_env \<Rightarrow> router_deps \<Rightarrow> http_request \<Rightarrow> http_response \<times> router_deps" where
  "route_login env d req =
     (if \<not> wf_auth_enabled (rd_cfg d) \<or> wf_password_hash (rd_cfg d) = [] then (response 403 ''text/plain'' (''auth disabled'' @ eol), d)
      else if \<not> same_origin req then (response 403 ''application/json'' (json_line ''{`error`:`cross-origin login`}''), d)
      else if media_type req \<noteq> ''application/json''
      then (response 415 ''application/json'' (json_line ''{`error`:`the login wants a JSON body (Content-Type: application/json)`}''), d)
      else
        let now_s = re_monotonic_ns env div 1000000000
        in case retry_after (rd_limiter d) (rq_peer req) now_s of
             (wait, l) \<Rightarrow>
               let d = d\<lparr>rd_limiter := l\<rparr>
               in if wait > 0
                  then (add_header ''Retry-After'' (to_string wait)
                          (response 429 ''application/json'' (json_line (''{`error`:`too many attempts`,`retry_after`:'' @ to_string wait @ ''}''))), d)
                  else login_checked env d req now_s)"

definition route_logout :: "request_env \<Rightarrow> router_deps \<Rightarrow> http_request \<Rightarrow> http_response \<times> router_deps" where
  "route_logout env d req =
     (let name = session_cookie_name (rd_hostname d) (wf_listen_port (rd_cfg d)); c = header req ''Cookie'';
          tok = (if c = [] then [] else cookie_value c name);
          d' = (if tok = [] then d
                else (case sess_revoke (re_strerror env) (rd_sessions d) (rd_world d) (re_save_io env) tok of
                        (st, w) \<Rightarrow> d\<lparr>rd_sessions := st, rd_world := w\<rparr>))
      in (add_header ''Set-Cookie'' (name @ ''='' @ cookie_attrs req @ ''; Max-Age=0'') (response 200 ''application/json'' (json_line ''{`ok`:true}'')), d'))"

definition call_wake :: "router_deps \<Rightarrow> router_deps" where
  "call_wake d = (if rd_wake d then d\<lparr>rd_wakes := rd_wakes d + 1\<rparr> else d)"

definition newest :: "hot_buffer \<Rightarrow> nat \<Rightarrow> sample list" where
  "newest hot n = (if n > 0 then the (snd (hb_dump_last hot (Some (replicate n sample_zero)) n)) else [])"

definition poll_seen :: "u64 \<Rightarrow> router_deps \<Rightarrow> router_deps" where
  "poll_seen now d =
     (let prev = rd_last_poll_ns d; d = d\<lparr>rd_last_poll_ns := now\<rparr>
      in if prev = 0 \<or> now < prev \<or> now - prev > rd_poller_window_ns d then call_wake d else d)"

definition route_samples :: "request_env \<Rightarrow> router_deps \<Rightarrow> http_request \<Rightarrow> http_response \<times> router_deps" where
  "route_samples env d req =
     (let d = poll_seen (re_realtime_ns env) d;
          last = query_u64 (rq_query req) ''last'' 0;
          last = (if last = 0 then of_nat kCatchupSamples else last);
          have = hb_size (rd_hot d);
          snap = newest (rd_hot d) (if unat last < have then unat last else have);
          detail = (case rd_latest_detail d of None \<Rightarrow> [] | Some t \<Rightarrow> t)
      in (response 200 ''application/json'' (samples_to_json (Some snap) (length snap) (Some detail)), d))"

definition kMaxLimit :: u64 where "kMaxLimit = 5000"

definition range_query :: "request_env \<Rightarrow> router_deps \<Rightarrow> string \<Rightarrow> string + sample list option" where
  "range_query env d rquery =
     (let since = query_u64 rquery ''since'' 0; until = query_u64 rquery ''until'' 0;
          tier = query_u64 rquery ''tier'' 1; limit = query_u64 rquery ''limit'' kMaxLimit;
          tier = (if tier < 1 \<or> tier > 3 then 1 else tier);
          limit = (if limit = 0 \<or> limit > kMaxLimit then kMaxLimit else limit);
          name = query_str rquery ''level''
      in if name = ''all'' then Inr (tm_query_all (re_sort env) (re_slice env) (rd_tm d) (re_read_io env) since until (unat limit) False)
         else if name \<noteq> []
         then (case level_by_name (rd_sched d) name of
                 None \<Rightarrow> Inl ''unknown level''
               | Some lv \<Rightarrow> Inr (tm_query_level (rd_tm d) (re_read_io env) (re_begun env) lv since until (unat limit) False))
         else Inr (tm_query (rd_tm d) (re_read_io env) (re_begun env) (uint tier) since until (unat limit) False))"

definition route_range :: "request_env \<Rightarrow> router_deps \<Rightarrow> http_request \<Rightarrow> http_response" where
  "route_range env d req =
     (case range_query env d (rq_query req) of
        Inl err \<Rightarrow> response 404 ''application/json'' (json_line (''{`error`:`'' @ err @ ''`}''))
      | Inr None \<Rightarrow> response 400 ''application/json'' (json_line ''{`error`:`bad range query`}'')
      | Inr (Some out) \<Rightarrow> response 200 ''application/json'' (samples_to_json (Some out) (length out) None))"

definition route_alerts :: "router_deps \<Rightarrow> http_response" where
  "route_alerts d =
     (let snap = (case rd_recent_alerts d of None \<Rightarrow> [] | Some as \<Rightarrow> as)
      in response 200 ''application/json'' (alerts_to_json (Some snap) (length snap)))"

text \<open>One level of the table; \<open>snprintf\<close> cuts its first part to 255 characters.\<close>

definition level_json :: "scheduler \<Rightarrow> level \<Rightarrow> bool \<Rightarrow> string" where
  "level_json sd lv builtin =
     take 255 (CHR 0x7B # commas [append_kv_uint ''id'' (unat lv), json_key ''name'' @ in_quotes (level_name sd lv),
        append_kv_int ''interval_ms'' (interval_ms sd lv), append_kv_int ''priority'' (level_priority sd lv),
        append_kv_bool ''builtin'' builtin, append_kv_bool ''collects'' (collects sd lv), json_key ''metrics'' @ ''['']) @
     commas (map in_quotes (metric_set_names (level_metrics sd lv))) @ '']}''"

definition route_levels :: "router_deps \<Rightarrow> http_response" where
  "route_levels d =
     (let sd = rd_sched d
      in response 200 ''application/json''
           (''['' @ commas (map (\<lambda>lv. level_json sd lv True) [L1, L2, L3] @
              map (\<lambda>c. level_json sd (cl_id c) False) (sc_custom_levels (sd_cfg sd))) @ '']'' @ eol))"

definition route_ws :: "request_env \<Rightarrow> router_deps \<Rightarrow> http_request \<Rightarrow> http_response \<times> router_deps" where
  "route_ws env d req =
     (if \<not> is_websocket_upgrade req then (response 400 ''text/plain'' (''expected websocket upgrade'' @ eol), d)
      else if \<not> same_origin req then (response 403 ''text/plain'' (''cross-origin websocket refused'' @ eol), d)
      else (case authed env d req of
              (ok, d) \<Rightarrow>
                if \<not> ok then (response 401 ''text/plain'' (''unauthenticated'' @ eol), d)
                else if hub_size (rd_ws d) \<ge> kMaxClients then (response 503 ''text/plain'' (''too many websocket clients'' @ eol), d)
                else
                  let session = (if wf_auth_enabled (rd_cfg d)
                                 then cookie_value (header req ''Cookie'') (session_cookie_name (rd_hostname d) (wf_listen_port (rd_cfg d)))
                                 else []);
                      handshake = ws_handshake_response (re_buf env) (header req ''Sec-WebSocket-Key'')
                  in ((response 200 [] [])\<lparr>rs_hijack := Some (handshake, session)\<rparr>, d)))"

text \<open>A route for those with a session.\<close>

definition with_session ::
  "request_env \<Rightarrow> router_deps \<Rightarrow> http_request \<Rightarrow> (router_deps \<Rightarrow> http_response \<times> router_deps) \<Rightarrow> http_response \<times> router_deps" where
  "with_session env d req f = (case authed env d req of (ok, d) \<Rightarrow> if \<not> ok then (unauthenticated, d) else f d)"

definition make_router :: "request_env \<Rightarrow> router_deps \<Rightarrow> http_request \<Rightarrow> http_response \<times> router_deps" where
  "make_router env d req =
     (let get = (rq_method req = ''GET''); post = (rq_method req = ''POST''); path = rq_path req;
          login = (post \<and> path = ''/api/auth/login'')
      in if \<not> own_host req (rd_cfg d) (rd_hostname d) login
         then (response 403 ''text/plain''
                 (''budyk: this Host is not one of budyk'' @ CHR 0x27 # ''s names; add it to web.allowed_hosts'' @ eol), d)
         else if get \<and> (path = ''/'' \<or> path = ''/index.html'') then (route_index env, d)
         else if get \<and> path = ''/api/health'' then (route_health d, d)
         else if login then route_login env d req
         else if post \<and> path = ''/api/auth/logout'' then route_logout env d req
         else if get \<and> path = ''/api/samples'' then with_session env d req (\<lambda>d. route_samples env d req)
         else if get \<and> path = ''/api/range'' then with_session env d req (\<lambda>d. (route_range env d req, d))
         else if get \<and> path = ''/api/alerts'' then with_session env d req (\<lambda>d. (route_alerts d, d))
         else if get \<and> path = ''/api/levels'' then with_session env d req (\<lambda>d. (route_levels d, d))
         else if path = ''/api/ws'' then route_ws env d req
         else (response 404 ''text/plain'' (''not found'' @ eol), d))"

text \<open>
  The closure of an upgrade: the handshake is sent (\<open>sent\<close>: within its bound), the client is registered with the catch-up
  frame, the collection loop is woken, and what the socket did not take is sent as far as it goes.
\<close>

definition run_hijack ::
  "router_deps \<Rightarrow> string \<Rightarrow> int \<Rightarrow> bool \<Rightarrow> send_answer list \<Rightarrow> recv_answer list \<Rightarrow> int \<Rightarrow> (int \<times> poll_answer) list \<Rightarrow> router_deps" where
  "run_hijack d session fd sent answers arriving start turns =
     (if \<not> sent then d
      else
        let hot = rd_hot d; n = (if hb_size hot < kCatchupSamples then hb_size hot else kCatchupSamples); snap = newest hot n;
            frame = ws_text_frame (bytes_of (samples_to_json (Some snap) (length snap) None));
            d = d\<lparr>rd_ws := hub_add_first (rd_ws d) (client_new fd session frame answers arriving)\<rparr>;
            d = call_wake d
        in d\<lparr>rd_ws := snd (flush_owed (rd_ws d) fd (rd_io_timeout_ms d) (rd_min_send_rate d) start turns)\<rparr>)"

text \<open>The routes of a request, for proofs about all of them.\<close>

lemma make_router_cases:
  assumes plain: "\<And>st ty txt. CHR 0x0A \<notin> set ty \<Longrightarrow> P (response st ty txt, d)"
    and login: "rq_method req = ''POST'' \<Longrightarrow> rq_path req = ''/api/auth/login'' \<Longrightarrow> own_host req (rd_cfg d) (rd_hostname d) True \<Longrightarrow> P (route_login env d req)"
    and logout: "P (route_logout env d req)"
    and samples: "P (with_session env d req (\<lambda>d. route_samples env d req))"
    and reads: "\<And>f. (\<And>d. \<exists>st txt. f d = response st ''application/json'' txt) \<Longrightarrow> P (with_session env d req (\<lambda>d. (f d, d)))"
    and ws: "P (route_ws env d req)"
  shows "P (make_router env d req)"
proof -
  have lg: "own_host req (rd_cfg d) (rd_hostname d) (rq_method req = ''POST'' \<and> rq_path req = ''/api/auth/login'') \<Longrightarrow>
      rq_method req = ''POST'' \<and> rq_path req = ''/api/auth/login'' \<Longrightarrow> P (route_login env d req)"
    using login by simp
  have none: "\<exists>st txt. route_range env d req = response st ''application/json'' txt" "\<exists>st txt. route_alerts d = response st ''application/json'' txt"
    "\<exists>st txt. route_levels d = response st ''application/json'' txt" for d
    by (auto simp: route_range_def route_alerts_def route_levels_def Let_def split: sum.split option.split)
  have ty: "CHR 0x0A \<notin> set ''text/plain''" "CHR 0x0A \<notin> set ''text/html; charset=utf-8''" "CHR 0x0A \<notin> set ''application/json''"
    by simp_all
  have cond: "P (if b then x else y)" if "b \<Longrightarrow> P x" "\<not> b \<Longrightarrow> P y" for b x y using that by simp
  show ?thesis
    unfolding make_router_def Let_def route_index_def route_health_def
    by (intro cond plain logout samples reads ws none ty) (rule lg, simp_all only: not_not)
qed

text \<open>
  What the daemon's tick does about ended sessions (\<open>src/daemon/serve.cpp\<close>): every live stream's token is verified, which
  may itself forget an expired session, and the streams of those refused are dropped.
\<close>

fun verify_tokens ::
  "(errno \<Rightarrow> string) \<Rightarrow> save_io \<Rightarrow> u64 \<Rightarrow> session_store \<times> world \<Rightarrow> (int \<times> string) list \<Rightarrow> (int \<times> string) list \<times> session_store \<times> world" where
  "verify_tokens se io now (st, w) [] = ([], st, w)"
| "verify_tokens se io now (st, w) (t # ts) =
     (case sess_verify se st w io (snd t) now of
        (ok, sw) \<Rightarrow> case verify_tokens se io now sw ts of (gone, sw') \<Rightarrow> (if ok then gone else t # gone, sw'))"

definition drop_ended :: "request_env \<Rightarrow> router_deps \<Rightarrow> router_deps" where
  "drop_ended env d =
     (if wf_auth_enabled (rd_cfg d)
      then case verify_tokens (re_strerror env) (re_save_io env) (re_realtime_ns env) (rd_sessions d, rd_world d) (session_tokens (rd_ws d)) of
             (gone, st, w) \<Rightarrow> d\<lparr>rd_sessions := st, rd_world := w, rd_ws := snd (drop_gone (rd_ws d) gone)\<rparr>
      else d)"

section \<open>Without a session\<close>

text \<open>
  What a request without a session may depend on, and what it may not touch: the hot buffer, the latest detail, the alerts,
  the store, the live streams, the scheduler, the last poll and the wake-ups.
\<close>

definition public_part :: "router_deps \<Rightarrow> web_config \<times> string \<times> string \<times> session_store \<times> world \<times> login_limiter" where
  "public_part d = (rd_cfg d, rd_hostname d, rd_version d, rd_sessions d, rd_world d, rd_limiter d)"

definition private_part where
  "private_part d = (rd_hot d, rd_latest_detail d, rd_recent_alerts d, rd_tm d, rd_ws d, rd_sched d, rd_last_poll_ns d, rd_wakes d)"

definition cookie_token :: "router_deps \<Rightarrow> http_request \<Rightarrow> string" where
  "cookie_token d req =
     (let c = header req ''Cookie''
      in if c = [] then [] else cookie_value c (session_cookie_name (rd_hostname d) (wf_listen_port (rd_cfg d))))"

definition touched :: "request_env \<Rightarrow> router_deps \<Rightarrow> http_request \<Rightarrow> bool \<times> session_store \<times> world" where
  "touched env d req =
     sess_touch (re_strerror env) (rd_sessions d) (rd_world d) (re_save_io env) (cookie_token d req) (re_realtime_ns env)"

lemma authed_touched:
  "authed env d req =
     (if \<not> wf_auth_enabled (rd_cfg d) then (True, d)
      else (case touched env d req of (ok, st, w) \<Rightarrow> (ok, d\<lparr>rd_sessions := st, rd_world := w\<rparr>)))"
  by (auto simp: authed_def touched_def cookie_token_def sess_touch_def Let_def)

text \<open>Two runs of a route that nobody outside can tell apart, and that leave the private parts alone.\<close>

definition same_seen :: "router_deps \<Rightarrow> http_response \<times> router_deps \<Rightarrow> http_response \<times> router_deps \<Rightarrow> bool" where
  "same_seen d r r' = (fst r = fst r' \<and> public_part (snd r) = public_part (snd r') \<and> rs_hijack (fst r) = None \<and>
     private_part (snd r) = private_part d)"

lemma same_seen_if:
  "(b \<Longrightarrow> same_seen d x y) \<Longrightarrow> (\<not> b \<Longrightarrow> same_seen d u v) \<Longrightarrow> same_seen d (if b then x else u) (if b then y else v)"
  by simp

lemma same_seen_plain: "public_part d = public_part e \<Longrightarrow> same_seen d (response st ty txt, d) (response st ty txt, e)"
  by (simp add: same_seen_def response_def)

lemma public_parts:
  "public_part d = public_part e \<longleftrightarrow> rd_cfg d = rd_cfg e \<and> rd_hostname d = rd_hostname e \<and> rd_version d = rd_version e \<and>
     rd_sessions d = rd_sessions e \<and> rd_world d = rd_world e \<and> rd_limiter d = rd_limiter e"
  by (simp add: public_part_def)

lemma checked_public:
  assumes "public_part d = public_part e"
  shows "same_seen d (login_checked env d req now) (login_checked env e req now)"
proof -
  note eqs = assms [unfolded public_parts]
  obtain full l where rf: "record_failure (rd_limiter e) (rq_peer req) now = (full, l)" by fastforce
  obtain tok st w where sc: "sess_create (re_strerror env) (rd_sessions e) (rd_world e) (re_save_io env) (re_token env) (re_realtime_ns env) = (tok, st, w)"
    by (metis prod_cases3)
  show ?thesis
    unfolding login_checked_def
    by (cases "json_get_string (rq_body req) (Some ''password'')")
      (simp_all add: same_seen_def eqs rf sc Let_def add_header_def response_def public_part_def private_part_def)
qed

lemma same_seen_private: "private_part d = private_part e \<Longrightarrow> same_seen d = same_seen e"
  by (simp add: same_seen_def fun_eq_iff)

lemma login_public:
  assumes "public_part d = public_part e"
  shows "same_seen d (route_login env d req) (route_login env e req)"
proof -
  note eqs = assms [unfolded public_parts]
  let ?now = "re_monotonic_ns env div 1000000000"
  obtain wt l where ra: "retry_after (rd_limiter e) (rq_peer req) ?now = (wt, l)" by fastforce
  have pl: "public_part (d\<lparr>rd_limiter := l\<rparr>) = public_part (e\<lparr>rd_limiter := l\<rparr>)" using eqs by (simp add: public_part_def)
  have pr: "private_part (d\<lparr>rd_limiter := l\<rparr>) = private_part d" by (simp add: private_part_def)
  from checked_public [OF pl, of env req ?now] have
    "same_seen d (login_checked env (d\<lparr>rd_limiter := l\<rparr>) req ?now) (login_checked env (e\<lparr>rd_limiter := l\<rparr>) req ?now)"
    by (simp only: same_seen_private [OF pr])
  moreover have "same_seen d (add_header k v (response c t x), d\<lparr>rd_limiter := l\<rparr>) (add_header k v (response c t x), e\<lparr>rd_limiter := l\<rparr>)" for k v c t x
    using pl pr by (simp add: same_seen_def add_header_def response_def)
  ultimately show ?thesis
    unfolding route_login_def Let_def
    by (simp add: eqs ra same_seen_plain [OF assms])
qed

lemma logout_public:
  assumes "public_part d = public_part e"
  shows "same_seen d (route_logout env d req) (route_logout env e req)"
proof -
  note eqs = assms [unfolded public_parts]
  obtain st w where sr: "sess_revoke (re_strerror env) (rd_sessions e) (rd_world e) (re_save_io env)
      (cookie_value (header req ''Cookie'') (session_cookie_name (rd_hostname e) (wf_listen_port (rd_cfg e)))) = (st, w)"
    by fastforce
  show ?thesis
    by (simp add: same_seen_def public_part_def private_part_def route_logout_def add_header_def response_def Let_def eqs sr)
qed

lemma touched_public: "public_part d = public_part e \<Longrightarrow> touched env d req = touched env e req"
  by (simp add: public_parts touched_def cookie_token_def Let_def)

lemma refused_public:
  assumes "public_part d = public_part e" "wf_auth_enabled (rd_cfg d)" "\<not> fst (authed env d req)"
  shows "same_seen d (with_session env d req f) (with_session env e req g)" "same_seen d (route_ws env d req) (route_ws env e req)"
proof -
  note eqs = assms(1) [unfolded public_parts]
  obtain ok st w where tc: "touched env d req = (ok, st, w)" by (metis prod_cases3)
  have au: "authed env d req = (False, d\<lparr>rd_sessions := st, rd_world := w\<rparr>)" "authed env e req = (False, e\<lparr>rd_sessions := st, rd_world := w\<rparr>)"
    using assms tc eqs touched_public [OF assms(1), of env req] by (auto simp: authed_touched)
  show "same_seen d (with_session env d req f) (with_session env e req g)" "same_seen d (route_ws env d req) (route_ws env e req)"
    by (simp_all add: same_seen_def with_session_def route_ws_def au eqs public_part_def private_part_def unauthenticated_def response_def)
qed

lemma without_session:
  assumes "public_part d = public_part e" "wf_auth_enabled (rd_cfg d)" "\<not> fst (authed env d req)"
  shows "same_seen d (make_router env d req) (make_router env e req)"
proof -
  have same: "rd_cfg e = rd_cfg d" "rd_hostname e = rd_hostname d" "route_health e = route_health d"
    using assms(1) by (simp_all add: public_part_def route_health_def)
  have plain: "same_seen d (route_index env, d) (route_index env, e)" "same_seen d (route_health d, d) (route_health d, e)"
    using same_seen_plain [OF assms(1)] by (simp_all add: route_index_def route_health_def)
  show ?thesis
    unfolding make_router_def Let_def same
    by (intro same_seen_if plain login_public logout_public refused_public same_seen_plain assms)
qed

text \<open>A sequence of requests, and that none of them comes with a session.\<close>

fun serve_all :: "router_deps \<Rightarrow> (request_env \<times> http_request) list \<Rightarrow> http_response list \<times> router_deps" where
  "serve_all d [] = ([], d)"
| "serve_all d ((env, req) # rs) =
     (case make_router env d req of (r, d') \<Rightarrow> case serve_all d' rs of (out, d'') \<Rightarrow> (r # out, d''))"

fun never_authed :: "router_deps \<Rightarrow> (request_env \<times> http_request) list \<Rightarrow> bool" where
  "never_authed d [] = True"
| "never_authed d ((env, req) # rs) = (\<not> fst (authed env d req) \<and> never_authed (snd (make_router env d req)) rs)"

lemma private_same: "private_part d = private_part e \<Longrightarrow> rd_ws d = rd_ws e \<and> rd_wakes d = rd_wakes e \<and> rd_last_poll_ns d = rd_last_poll_ns e"
  by (simp add: private_part_def)

lemma router_cfg: "rd_cfg (snd (make_router env d req)) = rd_cfg d"
proof (rule make_router_cases)
  have a: "rd_cfg (snd (authed env d req)) = rd_cfg d" by (auto simp: authed_touched split: prod.split)
  have "rd_cfg (snd (with_session env d req f)) = rd_cfg d" if "\<And>d. rd_cfg (snd (f d)) = rd_cfg d" for f
    using a that by (auto simp: with_session_def split: prod.splits)
  then show "rd_cfg (snd (with_session env d req (\<lambda>d. route_samples env d req))) = rd_cfg d"
    "\<And>f. rd_cfg (snd (with_session env d req (\<lambda>d. (f d, d)))) = rd_cfg d"
    by (simp_all add: route_samples_def poll_seen_def call_wake_def Let_def)
  show "rd_cfg (snd (route_ws env d req)) = rd_cfg d" using a by (auto simp: route_ws_def Let_def split: prod.split)
qed (auto simp: route_login_def login_checked_def route_logout_def Let_def split: prod.split option.split)

lemma without_session_run:
  "public_part d = public_part e \<Longrightarrow> wf_auth_enabled (rd_cfg d) \<Longrightarrow> never_authed d rs \<Longrightarrow>
   fst (serve_all d rs) = fst (serve_all e rs) \<and> list_all (\<lambda>r. rs_hijack r = None) (fst (serve_all d rs)) \<and>
   private_part (snd (serve_all d rs)) = private_part d"
proof (induction rs arbitrary: d e)
  case (Cons er rs)
  obtain env req where er: "er = (env, req)" by (cases er)
  obtain r d' where r: "make_router env d req = (r, d')" by (cases "make_router env d req")
  obtain r2 e' where r2: "make_router env e req = (r2, e')" by (cases "make_router env e req")
  have na: "\<not> fst (authed env d req)" "never_authed d' rs" using Cons.prems(3) er r by simp_all
  from without_session [OF Cons.prems(1,2) na(1)] r r2 have st: "r2 = r" "public_part d' = public_part e'" "rs_hijack r = None" "private_part d' = private_part d"
    by (auto simp: same_seen_def)
  have "wf_auth_enabled (rd_cfg d')" using Cons.prems(2) router_cfg [of env d req] r by simp
  from Cons.IH [OF st(2) this na(2)] show ?case using er r r2 st by (auto split: prod.splits)
qed simp

text \<open>C9: With a password set, nothing of the host shows without a session: of two daemons that differ in anything but their
  configuration, names, sessions and login limiter (other samples in memory and on disk, other details, alerts, levels and live streams), every
  sequence of requests of which none carries a valid session gets the same answers, no live stream is handed out, and
  the live streams, the wake-ups and the poll stamp stay as they were.\<close>

theorem unauthenticated_sees_nothing:
  assumes "wf_auth_enabled (rd_cfg d)" "public_part d = public_part e" "never_authed d rs"
  shows "fst (serve_all d rs) = fst (serve_all e rs) \<and> list_all (\<lambda>r. rs_hijack r = None) (fst (serve_all d rs)) \<and>
    rd_ws (snd (serve_all d rs)) = rd_ws d \<and> rd_wakes (snd (serve_all d rs)) = rd_wakes d \<and>
    rd_last_poll_ns (snd (serve_all d rs)) = rd_last_poll_ns d"
  using without_session_run [OF assms(2,1,3)] private_same by blast

section \<open>How a session comes about\<close>

lemma touch_no_new:
  "map_of (ss_deadline (fst (snd (sess_touch se st w io tok now)))) t \<noteq> None \<Longrightarrow> map_of (ss_deadline st) t \<noteq> None"
  by (auto simp: sess_touch_def Let_def smap_find_put smap_find_erase split: option.splits if_splits)

lemma revoke_no_new:
  "map_of (ss_deadline (fst (sess_revoke se st w io tok))) t \<noteq> None \<Longrightarrow> map_of (ss_deadline st) t \<noteq> None"
  by (auto simp: sess_revoke_def Let_def smap_find_erase split: if_splits)

abbreviation has_token :: "router_deps \<Rightarrow> string \<Rightarrow> bool" where
  "has_token d t \<equiv> map_of (ss_deadline (rd_sessions d)) t \<noteq> None"

lemma authed_no_new: "has_token (snd (authed env d req)) t \<Longrightarrow> has_token d t"
  using touch_no_new [of "re_strerror env" "rd_sessions d" "rd_world d" "re_save_io env" "cookie_token d req" "re_realtime_ns env" t]
  by (auto simp: authed_touched touched_def split: prod.splits if_splits)

lemma with_session_no_new:
  "(\<And>d. rd_sessions (snd (f d)) = rd_sessions d) \<Longrightarrow> has_token (snd (with_session env d req f)) t \<Longrightarrow> has_token d t"
  using authed_no_new [of env d req t] by (auto simp: with_session_def split: prod.splits if_splits)

lemma ws_no_new: "has_token (snd (route_ws env d req)) t \<Longrightarrow> has_token d t"
  using authed_no_new [of env d req t] by (auto simp: route_ws_def Let_def split: prod.splits if_splits)

lemma logout_no_new: "has_token (snd (route_logout env d req)) t \<Longrightarrow> has_token d t"
  using revoke_no_new [of "re_strerror env" "rd_sessions d" "rd_world d" "re_save_io env" "cookie_token d req" t]
  by (auto simp: route_logout_def cookie_token_def Let_def split: prod.splits if_splits)

lemma autosave_table: "autosave se st w io = (st', w') \<Longrightarrow> ss_deadline st' = ss_deadline st"
  by (metis autosave_sel(1) fst_conv)

lemma login_new:
  assumes "has_token (snd (route_login env d req)) t" "\<not> has_token d t"
  shows "wf_auth_enabled (rd_cfg d) \<and> same_origin req \<and> media_type req = ''application/json'' \<and>
    fst (retry_after (rd_limiter d) (rq_peer req) (re_monotonic_ns env div 1000000000)) \<le> 0 \<and> t = re_token env \<and>
    (\<exists>pw. json_get_string (rq_body req) (Some ''password'') = Some pw \<and> pw \<noteq> [] \<and> re_argon2_verify env pw (wf_password_hash (rd_cfg d)) = 0)"
  using assms
  by (auto simp: route_login_def login_checked_def sess_create_def Let_def smap_find_put dest!: autosave_table
      split: prod.splits option.splits if_splits)

lemma samples_sessions: "rd_sessions (snd (route_samples env d req)) = rd_sessions d"
  by (simp add: route_samples_def poll_seen_def call_wake_def Let_def)

lemma router_new_token:
  assumes "has_token (snd (make_router env d req)) t" "\<not> has_token d t"
  shows "rq_method req = ''POST'' \<and> rq_path req = ''/api/auth/login'' \<and> own_host req (rd_cfg d) (rd_hostname d) True \<and>
    has_token (snd (route_login env d req)) t" (is ?login)
proof -
  have "has_token (snd (make_router env d req)) t \<longrightarrow> ?login"
  proof (rule make_router_cases [where P = "\<lambda>r. has_token (snd r) t \<longrightarrow> ?login"])
    show "has_token (snd (response st ty x, d)) t \<longrightarrow> ?login" for st ty x using assms(2) by simp
    show "has_token (snd (route_logout env d req)) t \<longrightarrow> ?login" using assms(2) logout_no_new by blast
    show "has_token (snd (route_ws env d req)) t \<longrightarrow> ?login" using assms(2) ws_no_new by blast
    show "has_token (snd (with_session env d req (\<lambda>d. route_samples env d req))) t \<longrightarrow> ?login"
      using assms(2) with_session_no_new [of "\<lambda>d. route_samples env d req" env d req t] samples_sessions by blast
    show "has_token (snd (with_session env d req (\<lambda>d. (f d, d)))) t \<longrightarrow> ?login" for f
      using assms(2) with_session_no_new [of "\<lambda>d. (f d, d)" env d req t] by auto
  qed blast
  then show ?thesis using assms(1) by blast
qed

text \<open>C10: A session comes about in one way only: when a request leaves a token that was not there, it was a login posted to one of the daemon's own names, with a
  JSON body, by a page of this site (or no browser), from an address the limiter lets through, with a password the stored hash
  accepts, and the token is the one drawn for it.\<close>

theorem session_needs_password:
  assumes "map_of (ss_deadline (rd_sessions (snd (make_router env d req)))) tok \<noteq> None" "map_of (ss_deadline (rd_sessions d)) tok = None"
  shows "rq_method req = ''POST'' \<and> rq_path req = ''/api/auth/login'' \<and> own_host req (rd_cfg d) (rd_hostname d) True \<and>
    wf_auth_enabled (rd_cfg d) \<and> same_origin req \<and> media_type req = ''application/json'' \<and>
    fst (retry_after (rd_limiter d) (rq_peer req) (re_monotonic_ns env div 1000000000)) \<le> 0 \<and> tok = re_token env \<and>
    (\<exists>pw. json_get_string (rq_body req) (Some ''password'') = Some pw \<and> pw \<noteq> [] \<and>
       re_argon2_verify env pw (wf_password_hash (rd_cfg d)) = 0)"
  using router_new_token [of env d req tok] login_new [of env d req tok] assms by simp

text \<open>The login route as the limiter sees it: one attempt, with what its password turned out to be.\<close>

lemma route_login_attempt:
  assumes "wf_auth_enabled (rd_cfg d)" "wf_password_hash (rd_cfg d) \<noteq> []" "same_origin req" "media_type req = ''application/json''"
  shows "rd_limiter (snd (route_login env d req)) = snd (login_attempt (rd_limiter d) (rq_peer req)
     (case json_get_string (rq_body req) (Some ''password'') of None \<Rightarrow> None
      | Some pw \<Rightarrow> if pw = [] then None else Some (re_argon2_verify env pw (wf_password_hash (rd_cfg d)) = 0))
     (re_monotonic_ns env div 1000000000))"
  using assms by (auto simp: route_login_def login_checked_def login_attempt_def Let_def split: prod.split option.split)

text \<open>What a page of another site can do: its requests carry an Origin that is not this site's.\<close>

lemma ws_needs_origin: "rs_hijack (fst (route_ws env d req)) \<noteq> None \<Longrightarrow> same_origin req \<and> is_websocket_upgrade req \<and> fst (authed env d req)"
  by (auto simp: route_ws_def response_def Let_def split: prod.splits if_splits)

lemma with_session_plain:
  "(\<And>d. rs_hijack (fst (f d)) = None \<and> rd_limiter (snd (f d)) = rd_limiter d) \<Longrightarrow>
   rs_hijack (fst (with_session env d req f)) = None \<and> rd_limiter (snd (with_session env d req f)) = rd_limiter d"
  by (auto simp: with_session_def authed_touched unauthenticated_def response_def split: prod.splits)

text \<open>A page of another site gets nothing that counts: a request whose Origin is not the host it was sent to is handed no live stream,
  leaves no session behind and does not touch the login limiter (so it cannot lock the administrator out), whatever cookies it carries.\<close>

theorem cross_site_refused:
  assumes "\<not> same_origin req"
  shows "rs_hijack (fst (make_router env d req)) = None \<and> rd_limiter (snd (make_router env d req)) = rd_limiter d \<and>
    (map_of (ss_deadline (rd_sessions d)) tok = None \<longrightarrow> map_of (ss_deadline (rd_sessions (snd (make_router env d req)))) tok = None)"
proof -
  have "rs_hijack (fst (make_router env d req)) = None \<and> rd_limiter (snd (make_router env d req)) = rd_limiter d"
  proof (rule make_router_cases [where P = "\<lambda>r. rs_hijack (fst r) = None \<and> rd_limiter (snd r) = rd_limiter d"])
    show "rs_hijack (fst (route_login env d req)) = None \<and> rd_limiter (snd (route_login env d req)) = rd_limiter d"
      using assms by (simp add: route_login_def response_def)
    show "rs_hijack (fst (route_logout env d req)) = None \<and> rd_limiter (snd (route_logout env d req)) = rd_limiter d"
      by (auto simp: route_logout_def add_header_def response_def Let_def split: prod.split)
    show "rs_hijack (fst (route_ws env d req)) = None \<and> rd_limiter (snd (route_ws env d req)) = rd_limiter d"
      using assms by (simp add: route_ws_def response_def)
    show "rs_hijack (fst (with_session env d req (\<lambda>d. route_samples env d req))) = None \<and>
        rd_limiter (snd (with_session env d req (\<lambda>d. route_samples env d req))) = rd_limiter d"
      by (rule with_session_plain) (simp add: route_samples_def poll_seen_def call_wake_def response_def Let_def)
    show "rs_hijack (fst (with_session env d req (\<lambda>d. (f d, d)))) = None \<and> rd_limiter (snd (with_session env d req (\<lambda>d. (f d, d)))) = rd_limiter d"
      if "\<And>d. \<exists>st txt. f d = response st ''application/json'' txt" for f
    proof (rule with_session_plain)
      show "rs_hijack (fst (f d, d)) = None \<and> rd_limiter (snd (f d, d)) = rd_limiter d" for d
        using that [of d] by (auto simp: response_def)
    qed
  qed (simp_all add: response_def)
  then show ?thesis using router_new_token [of env d req tok] login_new [of env d req tok] assms by blast
qed

section \<open>The life of a session\<close>

lemma hex_digit_char: "hex_digit (n mod 16) \<noteq> CHR ''=''" "hex_digit (n mod 16) \<noteq> CHR 0x00" "hex_digit (n mod 16) \<noteq> CHR '';''"
proof -
  have "n mod 16 < 16" by simp
  then show "hex_digit (n mod 16) \<noteq> CHR ''=''" "hex_digit (n mod 16) \<noteq> CHR 0x00" "hex_digit (n mod 16) \<noteq> CHR '';''"
    by (auto simp: hex_digit_def dest: arg_cong [where f = "of_char :: char \<Rightarrow> nat"])
qed

lemma cookie_name_plain:
  "CHR ''='' \<notin> set (session_cookie_name h p)" "CHR 0x00 \<notin> set (session_cookie_name h p)" "CHR '';'' \<notin> set (session_cookie_name h p)"
  by (simp_all add: session_cookie_name_def hex8_def hex_digit_char hex_digit_char [symmetric])

lemma cookie_token_joined:
  assumes "header req ''Cookie'' = joined ''; '' cs" "list_all (pair_ok (CHR '';'')) cs"
    and "map_of cs (session_cookie_name (rd_hostname d) (wf_listen_port (rd_cfg d))) = Some tok"
  shows "cookie_token d req = tok"
proof -
  let ?name = "session_cookie_name (rd_hostname d) (wf_listen_port (rd_cfg d))"
  have ne: "cs \<noteq> []" using assms(3) by auto
  then have "joined ''; '' cs \<noteq> []" by (cases cs; cases "tl cs") auto
  moreover have "cookie_value (joined ''; '' cs) ?name = tok"
    using cookie_scan_joined [of ?name cs "[]"] assms ne by (simp add: cookie_value_def cookie_name_plain c_str_id)
  ultimately show ?thesis using assms(1) by (simp add: cookie_token_def)
qed

lemma login_ok:
  assumes "route_login env d req = (r, d')" "rs_status r = 200"
  shows "re_token env \<noteq> [] \<and> rd_cfg d' = rd_cfg d \<and> rd_hostname d' = rd_hostname d \<and> wf_auth_enabled (rd_cfg d) \<and>
    map_of (ss_deadline (rd_sessions d')) (re_token env) = Some (re_realtime_ns env + ss_ttl_ns (rd_sessions d)) \<and>
    rs_extra_headers r = [(''Set-Cookie'', session_cookie_name (rd_hostname d) (wf_listen_port (rd_cfg d)) @ ''='' @ re_token env @ cookie_attrs req)]"
  using assms
  by (auto simp: route_login_def login_checked_def sess_create_def response_def add_header_def Let_def smap_find_put dest!: autosave_table
      split: prod.splits option.splits if_splits)

lemma login_route: "rq_method req = ''POST'' \<Longrightarrow> rq_path req = ''/api/auth/login'' \<Longrightarrow> rs_status (fst (make_router env d req)) = 200 \<Longrightarrow>
  make_router env d req = route_login env d req"
  by (simp add: make_router_def Let_def response_def split: if_splits)

text \<open>C22: A login is a session: after a login answered with 200, a request that carries the cookie it was given (among
  any other cookies) is taken as authenticated until the session's time is over, and the cookie is the only header the
  login adds.\<close>

theorem login_gives_session:
  assumes "rq_method req = ''POST''" "rq_path req = ''/api/auth/login''" "make_router env d req = (r, d')" "rs_status r = 200"
    and "header req2 ''Cookie'' = joined ''; '' cs" "list_all (pair_ok (CHR '';'')) cs"
    and "map_of cs (session_cookie_name (rd_hostname d) (wf_listen_port (rd_cfg d))) = Some (re_token env)"
    and "re_realtime_ns env2 < re_realtime_ns env + ss_ttl_ns (rd_sessions d)"
  shows "fst (authed env2 d' req2) \<and>
    rs_extra_headers r = [(''Set-Cookie'', session_cookie_name (rd_hostname d) (wf_listen_port (rd_cfg d)) @ ''='' @ re_token env @ cookie_attrs req)]"
proof -
  have "route_login env d req = (r, d')" using login_route [of req env d] assms(1-4) by simp
  note ok = login_ok [OF this assms(4)]
  have "cookie_token d' req2 = re_token env" using cookie_token_joined [OF assms(5,6), of d' "re_token env"] assms(7) ok by simp
  then have "fst (touched env2 d' req2)" using ok assms(8) by (auto simp: touched_def sess_touch_def Let_def)
  then show ?thesis using ok by (auto simp: authed_touched split: prod.split)
qed

text \<open>Which clients a drop of ended sessions leaves: exactly those without a session or with one that is still valid.\<close>

lemma drop_sessions_clients:
  "wh_clients (snd (drop_sessions h valid)) = filter (\<lambda>c. wc_session c = [] \<or> valid (wc_session c)) (wh_clients h)"
proof -
  let ?gone = "filter (\<lambda>t. \<not> valid (snd t)) (session_tokens h)"
  have g: "(wc_fd c, wc_session c) \<in> set ?gone \<longleftrightarrow> \<not> (wc_session c = [] \<or> valid (wc_session c))" if "c \<in> set (wh_clients h)" for c
    using that by (auto simp: session_tokens_def)
  have k: "map snd (filter fst (map (drop_client ?gone) cs)) = filter (\<lambda>c. (wc_fd c, wc_session c) \<notin> set ?gone) cs" for cs
    by (induction cs) (simp_all add: drop_client_def)
  have "filter (\<lambda>c. (wc_fd c, wc_session c) \<notin> set ?gone) (wh_clients h) = filter (\<lambda>c. wc_session c = [] \<or> valid (wc_session c)) (wh_clients h)"
    by (rule filter_cong) (simp_all only: g not_not)
  then show ?thesis using k [of "wh_clients h"]
    by (cases "?gone = []") (auto simp: drop_sessions_def drop_gone_def each_client_def Let_def)
qed

lemma verify_verdict: "fst (sess_verify se st w io tok now) \<longleftrightarrow> tok \<noteq> [] \<and> (\<exists>x. map_of (ss_deadline st) tok = Some x \<and> now < x)"
  by (auto simp: sess_verify_def not_le split: option.split)

lemma verify_keeps:
  assumes "now < now + ss_ttl_ns st" "sess_verify se st w io t now = (ok, st', w')"
  shows "ss_ttl_ns st' = ss_ttl_ns st" "fst (sess_verify se2 st' w2 io2 tok now) = fst (sess_verify se st w io tok now)"
proof -
  have st': "ss_ttl_ns st' = ss_ttl_ns st \<and> ss_deadline st' = table_step (ss_ttl_ns st) (ss_deadline st) now (Verified t)"
    using sess_apply_table [of se st w io now "Verified t"] assms(2) by simp
  then show "ss_ttl_ns st' = ss_ttl_ns st" by simp
  show "fst (sess_verify se2 st' w2 io2 tok now) = fst (sess_verify se st w io tok now)"
    unfolding verify_verdict using st' assms(1) by (auto simp: smap_find_put smap_find_erase split: option.splits if_splits)
qed

lemma verify_tokens_gone:
  "now < now + ss_ttl_ns st \<Longrightarrow> fst (verify_tokens se io now (st, w) ts) = filter (\<lambda>t. \<not> fst (sess_verify se st w io (snd t) now)) ts"
proof (induction ts arbitrary: st w)
  case (Cons t ts)
  obtain ok st' w' where v: "sess_verify se st w io (snd t) now = (ok, st', w')" by (metis prod_cases3)
  note k = verify_keeps [OF Cons.prems v]
  have "fst (verify_tokens se io now (st', w') ts) = filter (\<lambda>t. \<not> fst (sess_verify se st' w' io (snd t) now)) ts"
    using Cons.IH [of st' w'] Cons.prems k(1) by simp
  then show ?case using v k(2) by (auto split: prod.splits)
qed simp

lemma drop_ended_clients:
  assumes "wf_auth_enabled (rd_cfg d)" "re_realtime_ns env < re_realtime_ns env + ss_ttl_ns (rd_sessions d)"
  shows "wh_clients (rd_ws (drop_ended env d)) = filter (\<lambda>c. wc_session c = [] \<or>
     fst (sess_verify (re_strerror env) (rd_sessions d) (rd_world d) (re_save_io env) (wc_session c) (re_realtime_ns env))) (wh_clients (rd_ws d))"
proof -
  let ?v = "\<lambda>t. fst (sess_verify (re_strerror env) (rd_sessions d) (rd_world d) (re_save_io env) t (re_realtime_ns env))"
  have "fst (verify_tokens (re_strerror env) (re_save_io env) (re_realtime_ns env) (rd_sessions d, rd_world d) (session_tokens (rd_ws d))) =
      filter (\<lambda>t. \<not> ?v (snd t)) (session_tokens (rd_ws d))"
    by (rule verify_tokens_gone) (rule assms(2))
  then show ?thesis using drop_sessions_clients [of "rd_ws d" ?v] assms(1) 
    by (auto simp: drop_ended_def drop_sessions_def split: prod.splits)
qed

text \<open>C23: The end of a session closes its live streams: once a logout that carries a token has been served, the tick's pass
  over the live streams leaves none of that token, and keeps every one whose session is still valid.\<close>

theorem logout_closes_streams:
  fixes env :: request_env
  assumes "wf_auth_enabled (rd_cfg d)" "rq_method req = ''POST''" "rq_path req = ''/api/auth/logout''"
    and "header req ''Cookie'' = joined ''; '' cs" "list_all (pair_ok (CHR '';'')) cs"
    and "map_of cs (session_cookie_name (rd_hostname d) (wf_listen_port (rd_cfg d))) = Some tok" "tok \<noteq> []"
    and "re_realtime_ns env2 < re_realtime_ns env2 + ss_ttl_ns (rd_sessions d)"
  defines "d' \<equiv> snd (make_router env d req)"
  shows "list_all (\<lambda>c. wc_session c \<noteq> tok) (wh_clients (rd_ws (drop_ended env2 d'))) \<and>
    filter (\<lambda>c. fst (sess_verify (re_strerror env2) (rd_sessions d') (rd_world d') (re_save_io env2) (wc_session c) (re_realtime_ns env2)))
      (wh_clients (rd_ws (drop_ended env2 d'))) =
    filter (\<lambda>c. fst (sess_verify (re_strerror env2) (rd_sessions d') (rd_world d') (re_save_io env2) (wc_session c) (re_realtime_ns env2)))
      (wh_clients (rd_ws d))"
proof -
  have ct: "cookie_token d req = tok" by (rule cookie_token_joined [OF assms(4-6)])
  have d': "d' = snd (route_logout env d req)" using assms(1-3) by (simp add: d'_def make_router_def own_host_def Let_def)
  obtain st w where rv: "sess_revoke (re_strerror env) (rd_sessions d) (rd_world d) (re_save_io env) tok = (st, w)" by fastforce
  have dd: "d' = d\<lparr>rd_sessions := st, rd_world := w\<rparr>"
    using ct assms(7) rv unfolding d' by (auto simp: route_logout_def cookie_token_def Let_def split: if_splits)
  have st: "map_of (ss_deadline st) tok = None" "ss_ttl_ns st = ss_ttl_ns (rd_sessions d)"
    using rv sess_apply_table [of "re_strerror env" "rd_sessions d" "rd_world d" "re_save_io env" 0 "Revoked tok"] by (simp_all add: smap_find_erase)
  have cl: "wh_clients (rd_ws (drop_ended env2 d')) = filter (\<lambda>c. wc_session c = [] \<or>
     fst (sess_verify (re_strerror env2) (rd_sessions d') (rd_world d') (re_save_io env2) (wc_session c) (re_realtime_ns env2))) (wh_clients (rd_ws d))"
    using drop_ended_clients [of d' env2] assms(1,8) st dd by simp
  have "\<not> fst (sess_verify (re_strerror env2) (rd_sessions d') (rd_world d') (re_save_io env2) tok (re_realtime_ns env2))"
    using st dd by (simp add: verify_verdict)
  then show ?thesis unfolding cl using assms(7) by (auto simp: list_all_iff intro: filter_cong)
qed

section \<open>A small daemon\<close>

definition demo_router :: "sample list \<Rightarrow> string list \<Rightarrow> router_deps" where
  "demo_router samples streams =
     \<lparr>rd_cfg = \<lparr>wf_listen_addr = ''127.0.0.1'', wf_listen_port = 8080, wf_auth_enabled = True, wf_password_hash = ''h'', wf_allowed_hosts = []\<rparr>,
      rd_hot = foldl hb_push (hot_buffer_new 4) samples, rd_latest_detail = None, rd_recent_alerts = None, rd_tm = (tier_manager_new, Map.empty),
      rd_sessions = session_store_new 60, rd_world = \<lparr>w_disk = Map.empty, w_log = []\<rparr>, rd_limiter = login_limiter_new 5 60 50,
      rd_ws = foldl hub_add hub_new (map (\<lambda>t. client_new 7 t [] [] []) streams), rd_sched = scheduler_new scheduler_config_default,
      rd_last_poll_ns = 0, rd_poller_window_ns = 5000000000, rd_wake = True, rd_wakes = 0, rd_version = ''1'', rd_hostname = ''host'',
      rd_io_timeout_ms = 5000, rd_min_send_rate = 262144\<rparr>"

definition demo_env :: "u64 \<Rightarrow> request_env" where
  "demo_env now =
     \<lparr>re_monotonic_ns = now, re_realtime_ns = now, re_argon2_verify = (\<lambda>pw h. if pw = ''pw'' then 0 else 1), re_token = ''t1'',
      re_strerror = (\<lambda>e. []), re_save_io = SaveOk, re_read_io = (\<lambda>p i. None), re_begun = id, re_sort = id,
      re_slice = (\<lambda>a b c. 0), re_buf = [], re_index_html = []\<rparr>"

definition demo_login :: http_request where
  "demo_login = \<lparr>rq_method = ''POST'', rq_path = ''/api/auth/login'', rq_query = [], rq_peer = ''127.0.0.1'',
     rq_headers = [(''Content-Type'', ''application/json'')], rq_body = CHR 0x7B # quot # ''password'' @ quot # '':'' @ quot # ''pw'' @ [quot, CHR 0x7D]\<rparr>"

definition demo_get :: "string \<Rightarrow> (string \<times> string) list \<Rightarrow> http_request" where
  "demo_get path headers = \<lparr>rq_method = ''GET'', rq_path = path, rq_query = [], rq_peer = ''127.0.0.1'', rq_headers = headers, rq_body = []\<rparr>"

theorem unauthenticated_sees_nothing_witness:
  "fst (serve_all (demo_router [sample_zero] [''t1'']) [(demo_env 1, demo_get ''/api/samples'' [])]) =
   fst (serve_all (demo_router [] []) [(demo_env 1, demo_get ''/api/samples'' [])])"
  using unauthenticated_sees_nothing [of "demo_router [sample_zero] [''t1'']" "demo_router [] []" "[(demo_env 1, demo_get ''/api/samples'' [])]"]
  by (simp add: demo_router_def public_part_def authed_def demo_get_def header_def)

lemma demo_login_password: "json_get_string (rq_body demo_login) (Some ''password'') = Some ''pw''"
  by (simp add: demo_login_def json_get_string_def c_str_def find_from.simps key_loop.simps json_blank_def json_unescape.simps)

lemma demo_login_ok:
  "make_router (demo_env 1) (demo_router [] []) demo_login = route_login (demo_env 1) (demo_router [] []) demo_login"
  "rs_status (fst (route_login (demo_env 1) (demo_router [] []) demo_login)) = 200"
  "map_of (ss_deadline (rd_sessions (snd (route_login (demo_env 1) (demo_router [] []) demo_login)))) ''t1'' \<noteq> None"
proof -
  have h: "header demo_login ''Host'' = []" "header demo_login ''Origin'' = []" "header demo_login ''Content-Type'' = ''application/json''"
    by (simp_all add: demo_login_def header_def ascii_ieq_def c_str_def same_lower_def to_lower_def)
  have m: "media_type demo_login = ''application/json''"
    unfolding media_type_def h by (simp add: strip_back_def is_blank_def to_lower_def)
  have so: "same_origin demo_login" by (simp add: same_origin_def h)
  have rq: "rq_method demo_login = ''POST''" "rq_path demo_login = ''/api/auth/login''" by (simp_all add: demo_login_def)
  show "make_router (demo_env 1) (demo_router [] []) demo_login = route_login (demo_env 1) (demo_router [] []) demo_login"
    using h(1) rq by (simp add: make_router_def own_host_def)
  have r: "retry_after (rd_limiter (demo_router [] [])) (rq_peer demo_login) n = (0, login_limiter_new 5 60 50)" for n
    by (simp add: demo_router_def login_limiter_new_def retry_after_def sweep_def kSweepAt_def expired_def entry_new_def)
  show "rs_status (fst (route_login (demo_env 1) (demo_router [] []) demo_login)) = 200"
    "map_of (ss_deadline (rd_sessions (snd (route_login (demo_env 1) (demo_router [] []) demo_login)))) ''t1'' \<noteq> None"
    using m so r demo_login_password
    by (simp_all add: route_login_def login_checked_def demo_router_def demo_env_def sess_create_def session_store_new_def autosave_def
        response_def add_header_def)
qed

theorem session_needs_password_witness:
  "rq_method demo_login = ''POST'' \<and> same_origin demo_login \<and> re_token (demo_env 1) = ''t1''"
  using session_needs_password [of "demo_env 1" "demo_router [] []" demo_login "''t1''"] demo_login_ok
  by (simp add: demo_router_def session_store_new_def)

definition other_site :: http_request where
  "other_site = demo_get ''/api/ws'' [(''Origin'', ''http://evil.example''), (''Host'', ''127.0.0.1:8080'')]"

theorem cross_site_refused_witness:
  "rs_hijack (fst (make_router (demo_env 1) (demo_router [] []) other_site)) = None"
proof -
  have h: "header other_site ''Origin'' = ''http://evil.example''" "header other_site ''Host'' = ''127.0.0.1:8080''" "header other_site ''X-Forwarded-Host'' = []"
    by (simp_all add: other_site_def demo_get_def header_def ascii_ieq_def c_str_def same_lower_def to_lower_def)
  have "\<not> same_origin other_site"
    by (simp add: same_origin_def h find_from.simps first_entry_def strip_back_def is_blank_def ascii_ieq_def c_str_def Let_def)
  from cross_site_refused [OF this, of "demo_env 1" "demo_router [] []" "[]"] show ?thesis by simp
qed

lemma demo_cookie: "list_all (pair_ok (CHR '';'')) [(session_cookie_name h p, ''t1'')]"
  by (simp add: pair_ok_def cookie_name_plain) (simp add: session_cookie_name_def is_blank_def)

lemma header_cookie: "header (demo_get path [(''Cookie'', v)]) ''Cookie'' = v"
  by (simp add: demo_get_def header_def ascii_ieq_def c_str_def same_lower_def to_lower_def)

theorem login_gives_session_witness:
  "fst (authed (demo_env 2) (snd (make_router (demo_env 1) (demo_router [] []) demo_login))
     (demo_get ''/api/samples'' [(''Cookie'', joined ''; '' [(session_cookie_name ''host'' 8080, ''t1'')])]))"
proof -
  obtain r d' where md: "make_router (demo_env 1) (demo_router [] []) demo_login = (r, d')" by fastforce
  have "rs_status r = 200" using md demo_login_ok(1,2) by simp
  from login_gives_session [OF _ _ md this header_cookie demo_cookie, of "''host''" 8080 "demo_env 2" "''/api/samples''"] md show ?thesis
    by (simp add: demo_login_def demo_router_def demo_env_def session_store_new_def)
qed

theorem logout_closes_streams_witness:
  "list_all (\<lambda>c. wc_session c \<noteq> ''t1'') (wh_clients (rd_ws (drop_ended (demo_env 2) (snd (make_router (demo_env 1) (demo_router [] [''t1'', []])
     ((demo_get ''/api/auth/logout'' [(''Cookie'', joined ''; '' [(session_cookie_name ''host'' 8080, ''t1'')])])\<lparr>rq_method := ''POST''\<rparr>))))))"
proof -
  let ?req = "(demo_get ''/api/auth/logout'' [(''Cookie'', joined ''; '' [(session_cookie_name ''host'' 8080, ''t1'')])])\<lparr>rq_method := ''POST''\<rparr>"
  have h: "header ?req ''Cookie'' = joined ''; '' [(session_cookie_name ''host'' 8080, ''t1'')]"
    using header_cookie [of "''/api/auth/logout''"] by (simp add: header_def)
  from logout_closes_streams [OF _ _ _ h demo_cookie, where env = "demo_env 1" and ?env2.0 = "demo_env 2" and d = "demo_router [] [''t1'', []]" and tok = "''t1''"]
  show ?thesis by (simp add: demo_router_def demo_get_def demo_env_def session_store_new_def)
qed

end
