(* ===== verification/Http_Server.thy ===== *)
theory Http_Server
  imports Router
begin

text \<open>
  The embedded HTTP server (\<open>src/web/server.cpp\<close>): how one connection is served. The bytes of a
  request come in pieces, each after a look at the clock and a wait; what the clock says, how the
  waits end and what each \<open>recv\<close> and \<open>send\<close> answers is given with the connection. Proved: the
  request handed to the routes is the one its bytes spell, however they are cut; a printed request is
  parsed back; no request is larger than the caps, and one whose lengths disagree is refused; and what
  the routes answer reaches the client as exactly those headers and that body.
\<close>

section \<open>Receiving\<close>

definition kHeaderReadCap :: nat where "kHeaderReadCap = 16 * 1024"
definition kMaxBodyBytes :: nat where "kMaxBodyBytes = 64 * 1024"
definition kFirstByteMs :: int where "kFirstByteMs = 1000"

abbreviation lf :: char where "lf \<equiv> CHR 0x0A"
abbreviation cr :: char where "cr \<equiv> CHR 0x0D"

text \<open>
  One turn of a wait for bytes: the clock (in nanoseconds), how \<open>poll\<close> ended, what \<open>recv\<close> answered (bytes, of which the
  kernel keeps those there is no room for; nothing now; the end; an error). When no turn is left the deadline has passed.
\<close>

datatype recv_result = RGot string | RNone | REnd | RError

datatype recv_turn = Turn int poll_answer recv_result

definition past :: "int \<Rightarrow> int \<Rightarrow> bool" where
  "past deadline now = (deadline - now < 1000000)"

text \<open>\<open>None\<close> is the -1, the empty string the 0.\<close>

fun recv_bounded :: "int \<Rightarrow> nat \<Rightarrow> recv_turn list \<Rightarrow> string option \<times> recv_turn list" where
  "recv_bounded deadline cap [] = (None, [])"
| "recv_bounded deadline cap (Turn now p r # ts) =
     (if past deadline now then (None, ts)
      else
        (case p of
           PollIntr \<Rightarrow> recv_bounded deadline cap ts
         | PollOver \<Rightarrow> (None, ts)
         | PollRoom \<Rightarrow>
             (case r of
                RNone \<Rightarrow> recv_bounded deadline cap ts
              | RError \<Rightarrow> (None, ts)
              | REnd \<Rightarrow> (Some [], ts)
              | RGot bs \<Rightarrow> (Some (take cap bs), if length bs > cap then Turn now p (RGot (drop cap bs)) # ts else ts))))"

fun header_end_at :: "nat \<Rightarrow> string \<Rightarrow> nat" where
  "header_end_at i (c # d # r) =
     (if c \<noteq> lf then header_end_at (i + 1) (d # r)
      else if d = lf then i + 2
      else if d = cr \<and> r \<noteq> [] \<and> hd r = lf then i + 3
      else header_end_at (i + 1) (d # r))"
| "header_end_at i [c] = 0"
| "header_end_at i [] = 0"

definition find_header_end :: "string \<Rightarrow> nat \<Rightarrow> nat" where
  "find_header_end b from = header_end_at from (drop from b)"

datatype head_result = HeadEnds nat | HeadEof | HeadFailed | HeadTooLarge

function read_until_headers :: "int \<Rightarrow> string \<Rightarrow> recv_turn list \<Rightarrow> head_result \<times> string \<times> recv_turn list" where
  "read_until_headers deadline buf ts =
     (if length buf < kHeaderReadCap
      then
        (case recv_bounded deadline 1024 ts of
           (None, ts) \<Rightarrow> (HeadFailed, buf, ts)
         | (Some n, ts) \<Rightarrow>
             if n = [] then (HeadEof, buf, ts)
             else
               let from = (if length buf > 2 then length buf - 2 else 0); buf = buf @ n; e = find_header_end buf from
               in if e \<noteq> 0 then (HeadEnds e, buf, ts) else read_until_headers deadline buf ts)
      else (HeadTooLarge, buf, ts))"
  by pat_completeness auto
termination by (relation "measure (\<lambda>(d, buf, ts). kHeaderReadCap - length buf)") (auto simp: diff_less_mono2)

declare read_until_headers.simps [simp del]

text \<open>\<open>None\<close> is the -1.\<close>

function read_full :: "int \<Rightarrow> string \<Rightarrow> nat \<Rightarrow> recv_turn list \<Rightarrow> string option \<times> recv_turn list" where
  "read_full deadline got want ts =
     (if length got < want
      then
        (case recv_bounded deadline (want - length got) ts of
           (None, ts) \<Rightarrow> (None, ts)
         | (Some n, ts) \<Rightarrow> if n = [] then (Some got, ts) else read_full deadline (got @ n) want ts)
      else (Some got, ts))"
  by pat_completeness auto
termination by (relation "measure (\<lambda>(d, got, want, ts). want - length got)") (auto simp: diff_less_mono2)

declare read_full.simps [simp del]

section \<open>Parsing\<close>

definition trim_inplace :: "string \<Rightarrow> string" where
  "trim_inplace s = rev (dropWhile is_space (rev (dropWhile is_space s)))"

definition strip_cr :: "string \<Rightarrow> string" where
  "strip_cr l = (if l \<noteq> [] \<and> last l = cr then butlast l else l)"

function split_lines :: "string \<Rightarrow> string list" where
  "split_lines s =
     (if lf \<in> set s then strip_cr (takeWhile (\<lambda>c. c \<noteq> lf) s) # split_lines (tl (dropWhile (\<lambda>c. c \<noteq> lf) s)) else [])"
  by pat_completeness auto
termination
proof (relation "measure length")
  fix s :: string assume "lf \<in> set s"
  then have "dropWhile (\<lambda>c. c \<noteq> lf) s \<noteq> []" by auto
  then show "(tl (dropWhile (\<lambda>c. c \<noteq> lf) s), s) \<in> measure length"
    using length_dropWhile_le [of "\<lambda>c. c \<noteq> lf" s] by (cases "dropWhile (\<lambda>c. c \<noteq> lf) s") auto
qed simp

declare split_lines.simps [simp del]

text \<open>What stands before the first of a character, and behind it.\<close>

definition cut_at :: "char \<Rightarrow> string \<Rightarrow> (string \<times> string) option" where
  "cut_at c s = (if c \<in> set s then Some (takeWhile (\<lambda>x. x \<noteq> c) s, tl (dropWhile (\<lambda>x. x \<noteq> c) s)) else None)"

definition is_upper :: "char \<Rightarrow> bool" where
  "is_upper c = (let n = of_char c :: nat in 65 \<le> n \<and> n \<le> 90)"

definition parse_request_line :: "string \<Rightarrow> (string \<times> string \<times> string) option" where
  "parse_request_line rl =
     (case cut_at (CHR '' '') rl of
        None \<Rightarrow> None
      | Some (meth, rest) \<Rightarrow>
          if meth = [] then None
          else
            (case cut_at (CHR '' '') rest of
               None \<Rightarrow> None
             | Some (target, version) \<Rightarrow>
                 if target = [] then None
                 else if take 7 version \<noteq> ''HTTP/1.'' \<or> length version \<noteq> 8 then None
                 else if \<not> list_all is_upper meth then None
                 else if target = [] \<or> hd target \<noteq> CHR ''/'' then None
                 else Some (meth, split_target target)))"

definition parse_header_line :: "string \<Rightarrow> (string \<times> string) option" where
  "parse_header_line l =
     (if l = [] then None
      else if is_blank (hd l) then None
      else
        (case cut_at (CHR '':'') l of
           None \<Rightarrow> None
         | Some (key, val) \<Rightarrow> if key = [] then None else if list_ex is_blank key then None else Some (key, trim_inplace val)))"

fun parse_header_lines :: "string list \<Rightarrow> (string \<times> string) list option" where
  "parse_header_lines [] = Some []"
| "parse_header_lines (l # ls) =
     (case parse_header_line l of None \<Rightarrow> None
      | Some kv \<Rightarrow> (case parse_header_lines ls of None \<Rightarrow> None | Some kvs \<Rightarrow> Some (kv # kvs)))"

definition parse_headers :: "string \<Rightarrow> string \<Rightarrow> http_request option" where
  "parse_headers peer head =
     (let lines = split_lines head
      in if length lines < 2 \<or> last lines \<noteq> [] then None
         else
           (case parse_request_line (hd lines) of
              None \<Rightarrow> None
            | Some (meth, path, query) \<Rightarrow>
                (case parse_header_lines (tl (butlast lines)) of
                   None \<Rightarrow> None
                 | Some kvs \<Rightarrow>
                     Some \<lparr>rq_method = meth, rq_path = path, rq_query = query, rq_peer = peer, rq_headers = kvs, rq_body = []\<rparr>)))"

definition length_value :: "string \<Rightarrow> int option" where
  "length_value v = (if v = [] \<or> length v > 18 then None else if list_all is_digit v then Some (int (nat_of_digits v)) else None)"

text \<open>The values seen so far: none, or the one they agree on. The result is -1 for a bad or a differing value.\<close>

fun declared_loop :: "int option \<Rightarrow> (string \<times> string) list \<Rightarrow> int" where
  "declared_loop seen [] = (case seen of None \<Rightarrow> 0 | Some n \<Rightarrow> n)"
| "declared_loop seen (kv # kvs) =
     (if \<not> ascii_ieq (fst kv) ''Content-Length'' then declared_loop seen kvs
      else
        (case length_value (snd kv) of
           None \<Rightarrow> - 1
         | Some n \<Rightarrow> if seen \<noteq> None \<and> seen \<noteq> Some n then - 1 else declared_loop (Some n) kvs))"

definition declared_length :: "http_request \<Rightarrow> int" where
  "declared_length req = declared_loop None (rq_headers req)"

section \<open>Sending\<close>

definition status_phrase :: "int \<Rightarrow> string" where
  "status_phrase status =
     (if status = 200 then ''OK'' else if status = 204 then ''No Content'' else if status = 400 then ''Bad Request''
      else if status = 401 then ''Unauthorized'' else if status = 403 then ''Forbidden'' else if status = 404 then ''Not Found''
      else if status = 405 then ''Method Not Allowed'' else if status = 413 then ''Payload Too Large''
      else if status = 431 then ''Request Header Fields Too Large'' else if status = 429 then ''Too Many Requests''
      else if status = 500 then ''Internal Server Error'' else if status = 501 then ''Not Implemented''
      else if status = 503 then ''Service Unavailable'' else ''OK'')"

text \<open>What \<open>send\<close> answers: a number of bytes taken, \<open>EINTR\<close>, no room (then the clock and how \<open>poll\<close> ended), an error.\<close>

datatype out_answer = OSent nat | OIntr | OAgain int poll_answer | OError

fun send_all :: "int \<Rightarrow> out_answer list \<Rightarrow> string \<Rightarrow> bool \<times> string \<times> out_answer list" where
  "send_all deadline as [] = (True, [], as)"
| "send_all deadline [] (c # data) = (False, [], [])"
| "send_all deadline (OSent n # as) (c # data) =
     (if n = 0 then (False, [], as)
      else case send_all deadline as (drop n (c # data)) of (ok, out, as) \<Rightarrow> (ok, take n (c # data) @ out, as))"
| "send_all deadline (OIntr # as) (c # data) = send_all deadline as (c # data)"
| "send_all deadline (OError # as) (c # data) = (False, [], as)"
| "send_all deadline (OAgain now p # as) (c # data) =
     (if past deadline now \<or> p = PollOver then (False, [], as) else send_all deadline as (c # data))"

definition rate_allowance :: "u64 \<Rightarrow> u64 \<Rightarrow> int" where
  "rate_allowance sz min_rate = sint (sz * 1000 div (if min_rate > 0 then min_rate else 1))"

definition header_text :: "string \<times> string \<Rightarrow> string" where
  "header_text = (\<lambda>(k, v). k @ '': '' @ v @ crlf)"

definition response_head :: "http_response \<Rightarrow> string" where
  "response_head r =
     ''HTTP/1.1 '' @ to_string (rs_status r) @ '' '' @ status_phrase (rs_status r) @ crlf @
     ''Content-Type: '' @ (if rs_content_type r = [] then ''text/plain'' else rs_content_type r) @ crlf @
     ''Content-Length: '' @ digits (length (rs_body r)) @ crlf @ ''Connection: close'' @ crlf @
     concat (map header_text (rs_extra_headers r)) @ crlf"

definition send_response ::
  "http_response \<Rightarrow> int \<Rightarrow> u64 \<Rightarrow> int \<Rightarrow> out_answer list \<Rightarrow> bool \<times> string \<times> out_answer list" where
  "send_response r io_timeout_ms min_rate start as =
     (let deadline = start + (io_timeout_ms + rate_allowance (of_nat (length (rs_body r))) min_rate) * 1000000
      in case send_all deadline as (response_head r) of
           (ok, out, as) \<Rightarrow>
             if \<not> ok then (False, out, as)
             else if rs_body r \<noteq> [] then (case send_all deadline as (rs_body r) of (ok, out', as) \<Rightarrow> (ok, out @ out', as))
             else (True, out, as))"

definition send_bounded :: "string \<Rightarrow> int \<Rightarrow> u64 \<Rightarrow> int \<Rightarrow> out_answer list \<Rightarrow> bool \<times> string \<times> out_answer list" where
  "send_bounded data io_timeout_ms min_rate start as =
     send_all (start + (io_timeout_ms + rate_allowance (of_nat (length data)) min_rate) * 1000000) as data"

section \<open>One connection\<close>

text \<open>What came of the bytes of a connection: nothing to answer, an answer of the server's own, a request for the routes.\<close>

datatype received = NoRequest | ReplyWith http_response | Request http_request

definition read_body :: "int \<Rightarrow> http_request \<Rightarrow> string \<Rightarrow> recv_turn list \<Rightarrow> received" where
  "read_body deadline req early ts =
     (if header req ''Transfer-Encoding'' \<noteq> [] then ReplyWith (response 501 ''text/plain'' (''transfer-encoding not supported'' @ eol))
      else
        let want = declared_length req; len = nat want
        in if want < 0 then ReplyWith (response 400 ''text/plain'' (''bad content-length'' @ eol))
           else if len > kMaxBodyBytes then ReplyWith (response 413 ''text/plain'' (''body too large'' @ eol))
           else if length early < len
           then (case read_full deadline [] (len - length early) ts of
                   (None, _) \<Rightarrow> NoRequest
                 | (Some got, _) \<Rightarrow> Request (req\<lparr>rq_body := early @ got\<rparr>))
           else Request (req\<lparr>rq_body := take len early\<rparr>))"

definition read_request :: "int \<Rightarrow> string \<Rightarrow> recv_turn list \<Rightarrow> received" where
  "read_request deadline peer ts =
     (case read_until_headers deadline [] ts of
        (HeadTooLarge, buf, ts) \<Rightarrow> ReplyWith (response 431 ''text/plain'' (''request headers too large'' @ eol))
      | (HeadEof, buf, ts) \<Rightarrow> NoRequest
      | (HeadFailed, buf, ts) \<Rightarrow> NoRequest
      | (HeadEnds e, buf, ts) \<Rightarrow>
          (case parse_headers peer (take e buf) of
             None \<Rightarrow> ReplyWith (response 400 ''text/plain'' (''bad request'' @ eol))
           | Some req \<Rightarrow> read_body deadline req (drop e buf) ts))"

fun first_byte :: "int \<Rightarrow> (int \<times> poll_answer) list \<Rightarrow> bool" where
  "first_byte first [] = False"
| "first_byte first ((now, p) # ts) =
     (if past first now then False else case p of PollRoom \<Rightarrow> True | PollIntr \<Rightarrow> first_byte first ts | PollOver \<Rightarrow> False)"

record http_server =
  hs_io_timeout_ms :: int
  hs_min_send_rate :: u64

definition set_io_timeout_ms :: "http_server \<Rightarrow> int \<Rightarrow> http_server" where
  "set_io_timeout_ms s ms = s\<lparr>hs_io_timeout_ms := (if ms > 0 then ms else 1)\<rparr>"

definition set_min_send_rate :: "http_server \<Rightarrow> u64 \<Rightarrow> http_server" where
  "set_min_send_rate s bytes_per_sec = s\<lparr>hs_min_send_rate := (if bytes_per_sec > 0 then bytes_per_sec else 1)\<rparr>"

text \<open>A connection: the peer, the clock at the start and as the answer is sent, the waits for the first byte, the turns of reading, the answers of \<open>send\<close>.\<close>

record connection =
  cn_peer :: string
  cn_start :: int
  cn_waits :: "(int \<times> poll_answer) list"
  cn_turns :: "recv_turn list"
  cn_reply_start :: int
  cn_answers :: "out_answer list"

text \<open>What a connection came to: the bytes sent, what was handed over with the socket, and the routes' state.\<close>

definition handle_client ::
  "('s \<Rightarrow> http_request \<Rightarrow> http_response \<times> 's) \<Rightarrow> http_server \<Rightarrow> 's \<Rightarrow> connection \<Rightarrow> string \<times> (string \<times> string) option \<times> 's" where
  "handle_client handler s st cn =
     (let deadline = cn_start cn + hs_io_timeout_ms s * 1000000;
          reply = (\<lambda>r. fst (snd (send_response r (hs_io_timeout_ms s) (hs_min_send_rate s) (cn_reply_start cn) (cn_answers cn))))
      in if \<not> first_byte (cn_start cn + kFirstByteMs * 1000000) (cn_waits cn) then ([], None, st)
         else
           (case read_request deadline (cn_peer cn) (cn_turns cn) of
              NoRequest \<Rightarrow> ([], None, st)
            | ReplyWith r \<Rightarrow> (reply r, None, st)
            | Request req \<Rightarrow>
                (case handler st req of
                   (resp, st) \<Rightarrow>
                     (case rs_hijack resp of
                        Some h \<Rightarrow> ([], Some h, st)
                      | None \<Rightarrow> (reply resp, None, st)))))"

section \<open>Listening\<close>

text \<open>
  The members of \<open>HttpServer\<close> that \<open>start\<close>, \<open>stop\<close> and the loop share, with what was printed. What the system calls of a
  start answer: the errno of each that fails, the descriptor and the port it was bound to.
\<close>

record http_listener =
  hl_running :: bool
  hl_listen_fd :: int
  hl_bound_port :: int
  hl_last_errno :: errno
  hl_loop_started :: bool
  hl_last_accept_errno :: errno
  hl_log :: "string list"

definition listener_new :: http_listener where
  "listener_new = \<lparr>hl_running = False, hl_listen_fd = - 1, hl_bound_port = 0, hl_last_errno = 0, hl_loop_started = False,
     hl_last_accept_errno = 0, hl_log = []\<rparr>"

record start_io =
  si_socket :: "errno + int"
  si_bind :: "errno option"
  si_listen :: "errno option"
  si_port :: int
  si_thread :: errno

definition server_start :: "http_listener \<Rightarrow> string option \<Rightarrow> bool \<Rightarrow> start_io \<Rightarrow> int \<times> http_listener" where
  "server_start l0 listen_addr has_handler io =
     (let l = l0\<lparr>hl_last_errno := 0\<rparr>
      in if hl_running l \<or> hl_listen_fd l \<ge> 0 then (- 1, l)
         else
           (case listen_addr of
              None \<Rightarrow> (- 2, l)
            | Some addr \<Rightarrow>
                if \<not> has_handler then (- 2, l)
                else
                  (case si_socket io of
                     Inl e \<Rightarrow> (- 3, l\<lparr>hl_last_errno := e\<rparr>)
                   | Inr fd \<Rightarrow>
                       if \<not> inet_pton4 (c_str addr) then (- 4, l)
                       else
                         (case si_bind io of
                            Some e \<Rightarrow> (- 5, l\<lparr>hl_last_errno := e\<rparr>)
                          | None \<Rightarrow>
                              (case si_listen io of
                                 Some e \<Rightarrow> (- 6, l\<lparr>hl_last_errno := e\<rparr>)
                               | None \<Rightarrow>
                                   let l = l\<lparr>hl_bound_port := si_port io, hl_listen_fd := fd, hl_running := True\<rparr>
                                   in if si_thread io \<noteq> 0
                                      then (- 7, l\<lparr>hl_last_errno := si_thread io, hl_running := False, hl_listen_fd := - 1\<rparr>)
                                      else (0, l\<lparr>hl_loop_started := True\<rparr>))))))"

definition server_stop :: "http_listener \<Rightarrow> http_listener" where
  "server_stop l =
     (let l = (if hl_running l
               then (let l = l\<lparr>hl_running := False\<rparr> in if hl_listen_fd l \<ge> 0 then l\<lparr>hl_listen_fd := - 1\<rparr> else l)
               else l)
      in if hl_loop_started l then l\<lparr>hl_loop_started := False\<rparr> else l)"

definition server_describe :: "int \<Rightarrow> string" where
  "server_describe rc =
     (if rc = 0 then ''ok'' else if rc = - 1 then ''already started'' else if rc = - 2 then ''no address or no handler''
      else if rc = - 3 then ''socket'' else if rc = - 4 then ''not an IPv4 address'' else if rc = - 5 then ''bind''
      else if rc = - 6 then ''listen'' else if rc = - 7 then ''thread'' else ''unknown error'')"

text \<open>
  A failed \<open>accept4\<close>, by kind: the socket is gone (\<open>EBADF\<close>, \<open>EINVAL\<close>, \<open>ENOTSOCK\<close>), an interruption or a client that left
  (\<open>EINTR\<close>, \<open>ECONNABORTED\<close>), a shortage with its errno. The result: whether the loop ends, whether it sleeps, the listener.
\<close>

datatype accept_failure = SocketGone | Passing | Shortage errno

definition accept_failed :: "(errno \<Rightarrow> string) \<Rightarrow> http_listener \<Rightarrow> accept_failure \<Rightarrow> bool \<times> bool \<times> http_listener" where
  "accept_failed strerror l e =
     (if \<not> hl_running l \<or> e = SocketGone then (True, False, l)
      else
        (case e of
           Shortage n \<Rightarrow>
             (False, True,
              if n \<noteq> hl_last_accept_errno l
              then l\<lparr>hl_log := hl_log l @ [''budyk: http: accept failed, retrying: '' @ strerror n @ eol], hl_last_accept_errno := n\<rparr>
              else l)
         | _ \<Rightarrow> (False, False, l)))"

text \<open>A listener is down, with no socket and no thread, or up with both; a failed start leaves it as it was but for the error and the port.\<close>

definition listener_ok :: "http_listener \<Rightarrow> bool" where
  "listener_ok l = (hl_running l = (hl_listen_fd l \<ge> 0) \<and> hl_running l = hl_loop_started l)"

lemma server_start_ok:
  assumes "listener_ok l" "\<And>fd. si_socket io = Inr fd \<Longrightarrow> fd \<ge> 0"
  shows "listener_ok (snd (server_start l addr h io)) \<and> (fst (server_start l addr h io) = 0 \<longleftrightarrow> \<not> hl_running l \<and> hl_running (snd (server_start l addr h io)))
    \<and> (fst (server_start l addr h io) \<noteq> 0 \<longrightarrow> hl_running (snd (server_start l addr h io)) = hl_running l)"
  using assms by (auto simp: server_start_def listener_ok_def Let_def split: option.splits sum.splits)

lemma server_stop_ok: "listener_ok l \<Longrightarrow> listener_ok (server_stop l) \<and> \<not> hl_running (server_stop l)"
  by (auto simp: server_stop_def listener_ok_def Let_def)

lemma accept_failed_ok:
  "listener_ok l \<Longrightarrow> listener_ok (snd (snd (accept_failed se l e)))"
  "fst (accept_failed se l e) \<longleftrightarrow> \<not> hl_running l \<or> e = SocketGone"
  by (auto simp: accept_failed_def listener_ok_def split: accept_failure.splits)

section \<open>However the bytes are cut\<close>

text \<open>A connection that is not disturbed: bytes in time, between interruptions, and what they are together.\<close>

fun good_turn :: "int \<Rightarrow> recv_turn \<Rightarrow> bool" where
  "good_turn deadline (Turn now p r) =
     (\<not> past deadline now \<and> p \<noteq> PollOver \<and> (p = PollRoom \<longrightarrow> r \<noteq> REnd \<and> r \<noteq> RError \<and> r \<noteq> RGot []))"

fun bytes_in :: "recv_turn list \<Rightarrow> string" where
  "bytes_in [] = []"
| "bytes_in (Turn now PollRoom (RGot bs) # ts) = bs @ bytes_in ts"
| "bytes_in (_ # ts) = bytes_in ts"

lemma recv_good:
  "list_all (good_turn deadline) ts \<Longrightarrow> bytes_in ts \<noteq> [] \<Longrightarrow> 0 < cap \<Longrightarrow>
   \<exists>c ts'. recv_bounded deadline cap ts = (Some c, ts') \<and> c \<noteq> [] \<and> length c \<le> cap \<and> list_all (good_turn deadline) ts' \<and> bytes_in ts = c @ bytes_in ts'"
proof (induction deadline cap ts rule: recv_bounded.induct)
  case (2 deadline cap now p r ts)
  then show ?case by (cases p; cases r) auto
qed simp

lemma recv_nothing: "list_all (good_turn deadline) ts \<Longrightarrow> bytes_in ts = [] \<Longrightarrow> fst (recv_bounded deadline cap ts) = None"
proof (induction deadline cap ts rule: recv_bounded.induct)
  case (2 deadline cap now p r ts)
  then show ?case by (cases p; cases r) auto
qed simp

lemma recv_none:
  "list_all (good_turn deadline) ts \<Longrightarrow> recv_bounded deadline cap ts = (None, ts') \<Longrightarrow> bytes_in ts' = [] \<and> list_all (good_turn deadline) ts'"
proof (induction deadline cap ts rule: recv_bounded.induct)
  case (2 deadline cap now p r ts)
  then show ?case by (cases p; cases r) auto
qed simp

lemma header_end_stays: "header_end_at i xs \<noteq> 0 \<Longrightarrow> header_end_at i (xs @ ys) = header_end_at i xs"
proof (induction i xs rule: header_end_at.induct)
  case (1 i c d r)
  then show ?case by (cases r) (auto split: if_splits)
qed simp_all

lemma header_end_le: "header_end_at i xs \<le> i + length xs"
  by (induction i xs rule: header_end_at.induct) (auto simp: neq_Nil_conv)

lemma header_end_pos: "header_end_at i xs \<noteq> 0 \<Longrightarrow> i + 2 \<le> header_end_at i xs"
  by (induction i xs rule: header_end_at.induct) (auto split: if_splits)

lemma header_end_early: "header_end_at i (xs @ ys) \<noteq> 0 \<Longrightarrow> header_end_at i (xs @ ys) \<le> i + length xs \<Longrightarrow> header_end_at i xs = header_end_at i (xs @ ys)"
proof (induction i xs rule: header_end_at.induct)
  case (1 i c d r)
  then show ?case by (cases r) auto
next
  case (2 i c)
  then show ?case using header_end_pos [of "Suc i" ys] by (cases ys) (auto split: if_splits)
next
  case (3 i)
  then show ?case using header_end_pos [of i ys] by simp
qed

text \<open>Two bytes of overlap are enough: when the old bytes hold no end, the search from two bytes before their end finds what a search of everything would.\<close>

lemma header_end_overlap:
  "header_end_at i xs = 0 \<Longrightarrow> header_end_at i (xs @ ys) = header_end_at (i + (length xs - 2)) (drop (length xs - 2) xs @ ys)"
proof (induction i xs rule: header_end_at.induct)
  case (1 i c d r)
  show ?case
  proof (cases r)
    case (Cons x r')
    have z: "header_end_at (i + 1) (d # r) = 0" using "1.prems" by (auto split: if_splits)
    have ih: "header_end_at (i + 1) ((d # r) @ ys) = header_end_at (i + 1 + (length (d # r) - 2)) (drop (length (d # r) - 2) (d # r) @ ys)"
      using 1 z by (cases "c \<noteq> lf") (auto split: if_splits)
    have "header_end_at i ((c # d # r) @ ys) = header_end_at (i + 1) ((d # r) @ ys)"
      using "1.prems" Cons by (auto split: if_splits)
    then show ?thesis using ih Cons by (simp add: Suc_diff_le)
  qed simp
qed simp_all

lemma find_header_end_overlap:
  assumes "find_header_end buf 0 = 0"
  shows "find_header_end (buf @ n) (if length buf > 2 then length buf - 2 else 0) = find_header_end (buf @ n) 0"
proof (cases "length buf > 2")
  case True
  then have "drop (length buf - 2) (buf @ n) = drop (length buf - 2) buf @ n" by simp
  then show ?thesis using header_end_overlap [of 0 buf n, symmetric] assms True by (simp only: find_header_end_def if_True add_0 drop0)
qed simp

text \<open>What the bytes of a connection spell.\<close>

definition request_of :: "string \<Rightarrow> string \<Rightarrow> received" where
  "request_of peer data =
     (let e = find_header_end data 0
      in if e = 0
         then (if length data < kHeaderReadCap then NoRequest else ReplyWith (response 431 ''text/plain'' (''request headers too large'' @ eol)))
         else
           (case parse_headers peer (take e data) of
              None \<Rightarrow> ReplyWith (response 400 ''text/plain'' (''bad request'' @ eol))
            | Some req \<Rightarrow>
                if header req ''Transfer-Encoding'' \<noteq> [] then ReplyWith (response 501 ''text/plain'' (''transfer-encoding not supported'' @ eol))
                else if declared_length req < 0 then ReplyWith (response 400 ''text/plain'' (''bad content-length'' @ eol))
                else if nat (declared_length req) > kMaxBodyBytes then ReplyWith (response 413 ''text/plain'' (''body too large'' @ eol))
                else if length data < e + nat (declared_length req) then NoRequest
                else Request (req\<lparr>rq_body := take (nat (declared_length req)) (drop e data)\<rparr>)))"

definition head_verdict :: "string \<Rightarrow> head_result" where
  "head_verdict data =
     (let e = find_header_end data 0 in if e \<noteq> 0 then HeadEnds e else if length data < kHeaderReadCap then HeadFailed else HeadTooLarge)"

lemma read_headers_good:
  assumes "list_all (good_turn deadline) ts" "find_header_end buf 0 = 0" "find_header_end (buf @ bytes_in ts) 0 \<le> kHeaderReadCap"
  shows "\<exists>n ts'. list_all (good_turn deadline) ts' \<and> n @ bytes_in ts' = buf @ bytes_in ts \<and> find_header_end (buf @ bytes_in ts) 0 \<le> length n \<and>
    read_until_headers deadline buf ts = (head_verdict (buf @ bytes_in ts), n, ts')"
  using assms
proof (induction deadline buf ts rule: read_until_headers.induct)
  case (1 deadline buf ts)
  let ?e = "find_header_end (buf @ bytes_in ts) 0"
  have early: "?e \<le> length buf \<Longrightarrow> ?e = 0"
    using header_end_early [of 0 buf "bytes_in ts"] "1.prems"(2) by (auto simp: find_header_end_def)
  show ?case
  proof (cases "length buf < kHeaderReadCap")
    case False
    then have "?e = 0" using "1.prems"(3) early by simp
    then show ?thesis using False "1.prems" 
      by (intro exI [of _ buf] exI [of _ ts], subst read_until_headers.simps) (simp add: head_verdict_def)
  next
    case lt: True
    show ?thesis
    proof (cases "bytes_in ts = []")
      case True
      then have "?e = 0" using "1.prems"(2) by simp
      moreover obtain ts' where r: "recv_bounded deadline 1024 ts = (None, ts')"
        using recv_nothing [OF "1.prems"(1) True, of 1024] by (metis prod.collapse)
      moreover have "bytes_in ts' = []" "list_all (good_turn deadline) ts'" using recv_none [OF "1.prems"(1) r] by simp_all
      ultimately show ?thesis using lt True "1.prems"
        by (intro exI [of _ buf] exI [of _ ts'], subst read_until_headers.simps) (simp add: head_verdict_def)
    next
      case False
      from recv_good [OF "1.prems"(1) False, of 1024] obtain c ts' where
        c: "recv_bounded deadline 1024 ts = (Some c, ts')" "c \<noteq> []" "list_all (good_turn deadline) ts'" "bytes_in ts = c @ bytes_in ts'" by auto
      let ?f = "find_header_end (buf @ c) 0"
      have fe: "find_header_end (buf @ c) (if length buf > 2 then length buf - 2 else 0) = ?f"
        using find_header_end_overlap [OF "1.prems"(2)] .
      show ?thesis
      proof (cases "?f = 0")
        case f0: True
        have ih: "\<exists>n ts''. list_all (good_turn deadline) ts'' \<and> n @ bytes_in ts'' = (buf @ c) @ bytes_in ts' \<and>
            find_header_end ((buf @ c) @ bytes_in ts') 0 \<le> length n \<and>
            read_until_headers deadline (buf @ c) ts' = (head_verdict ((buf @ c) @ bytes_in ts'), n, ts'')"
          by (rule 1(1) [OF lt c(1) [symmetric] refl c(2) refl refl refl]) (use c f0 fe "1.prems" in simp_all)
        have "read_until_headers deadline buf ts = read_until_headers deadline (buf @ c) ts'"
          using lt c f0 fe by (subst read_until_headers.simps) (simp add: Let_def)
        then show ?thesis using ih c(4) by simp
      next
        case f1: False
        then have "?e = ?f" using header_end_stays [of 0 "buf @ c" "bytes_in ts'"] c(4) by (simp add: find_header_end_def)
        moreover have "read_until_headers deadline buf ts = (HeadEnds ?f, buf @ c, ts')"
          using lt c f1 fe by (subst read_until_headers.simps) (simp add: Let_def)
        moreover have "?f \<le> length (buf @ c)" using header_end_le [of 0 "buf @ c"] by (simp add: find_header_end_def)
        ultimately show ?thesis using c f1 by (intro exI [of _ "buf @ c"] exI [of _ ts']) (simp add: head_verdict_def)
      qed
    qed
  qed
qed

lemma read_full_good:
  "list_all (good_turn deadline) ts \<Longrightarrow> length got \<le> want \<Longrightarrow>
   fst (read_full deadline got want ts) = (if length (got @ bytes_in ts) < want then None else Some (take want (got @ bytes_in ts)))"
proof (induction deadline got want ts rule: read_full.induct)
  case (1 deadline got want ts)
  show ?case
  proof (cases "length got < want")
    case False
    then show ?thesis using "1.prems" by (subst read_full.simps) simp
  next
    case lt: True
    show ?thesis
    proof (cases "bytes_in ts = []")
      case True
      then obtain ts' where "recv_bounded deadline (want - length got) ts = (None, ts')"
        using recv_nothing [OF "1.prems"(1) True, of "want - length got"] by (metis prod.collapse)
      then show ?thesis using lt True by (subst read_full.simps) simp
    next
      case False
      from recv_good [OF "1.prems"(1) False, of "want - length got"] lt obtain c ts' where
        c: "recv_bounded deadline (want - length got) ts = (Some c, ts')" "c \<noteq> []" "length c \<le> want - length got"
          "list_all (good_turn deadline) ts'" "bytes_in ts = c @ bytes_in ts'" by auto
      from 1(1) [OF lt c(1) [symmetric] refl c(2,4)] c lt show ?thesis by (subst read_full.simps) simp
    qed
  qed
qed

lemma read_request_cut:
  assumes "list_all (good_turn deadline) ts" "find_header_end (bytes_in ts) 0 \<le> kHeaderReadCap"
  shows "read_request deadline peer ts = request_of peer (bytes_in ts)"
proof -
  let ?e = "find_header_end (bytes_in ts) 0"
  from read_headers_good [of deadline ts "[]"] assms obtain n ts' where
    r: "read_until_headers deadline [] ts = (head_verdict (bytes_in ts), n, ts')" "list_all (good_turn deadline) ts'" "bytes_in ts = n @ bytes_in ts'" "?e \<le> length n"
    by (auto simp: find_header_end_def)
  show ?thesis
  proof (cases "?e = 0")
    case True
    then show ?thesis using r(1) by (simp add: read_request_def request_of_def head_verdict_def)
  next
    case False
    have hd: "take ?e n = take ?e (bytes_in ts)" "drop ?e n @ bytes_in ts' = drop ?e (bytes_in ts)" using r by auto
    show ?thesis
    proof (cases "parse_headers peer (take ?e (bytes_in ts))")
      case None
      then show ?thesis using r(1) False hd by (simp add: read_request_def request_of_def head_verdict_def)
    next
      case (Some req)
      let ?len = "nat (declared_length req)"
      obtain res ts2 where rf: "read_full deadline [] (?len - length (drop ?e n)) ts' = (res, ts2)" by fastforce
      have res: "res = (if length (bytes_in ts') < ?len - length (drop ?e n) then None else Some (take (?len - length (drop ?e n)) (bytes_in ts')))"
        using read_full_good [OF r(2), of "[]" "?len - length (drop ?e n)"] rf by simp
      have len: "length (bytes_in ts) = length n + length (bytes_in ts')" using r(3) by simp
      have "read_request deadline peer ts = read_body deadline req (drop ?e n) ts'"
        using r(1) False hd Some by (simp add: read_request_def head_verdict_def)
      also have "\<dots> = request_of peer (bytes_in ts)"
        using False Some r(4) rf res len by (auto simp: read_body_def request_of_def Let_def r(3))
      finally show ?thesis .
    qed
  qed
qed

text \<open>C24: The request handed to the routes is the one its bytes spell, however the connection cuts them: as long as the bytes come in time, between any number of interruptions,
  the outcome is that of the whole text: the head up to the first blank line, the body of the declared length, or the
  refusal. (For a head that ends within the cap; beyond it the cut decides whether it is refused.)\<close>

theorem request_any_cut:
  assumes "list_all (good_turn deadline) ts" "find_header_end (bytes_in ts) 0 \<le> kHeaderReadCap"
  shows "read_request deadline peer ts = request_of peer (bytes_in ts)"
  by (rule read_request_cut [OF assms])

section \<open>Texts of lines\<close>

definition text_of_lines :: "string list \<Rightarrow> string" where
  "text_of_lines ls = concat (map (\<lambda>l. l @ crlf) ls) @ crlf"

definition a_line :: "string \<Rightarrow> bool" where
  "a_line l = (l \<noteq> [] \<and> lf \<notin> set l)"

lemma header_end_skip: "lf \<notin> set xs \<Longrightarrow> header_end_at i (xs @ lf # x) = header_end_at (i + length xs) (lf # x)"
proof (induction xs arbitrary: i)
  case (Cons a xs)
  have "header_end_at i ((a # xs) @ lf # x) = header_end_at (i + 1) (xs @ lf # x)" using Cons.prems by (cases xs) auto
  then show ?case using Cons by simp
qed simp

lemma header_end_next: "a_line l \<Longrightarrow> header_end_at i (lf # l @ cr # x) = header_end_at (i + 1) (l @ cr # x)"
  by (cases l; cases "tl l") (auto simp: a_line_def)

lemma header_end_lines:
  "list_all a_line (l # ls) \<Longrightarrow> header_end_at i (text_of_lines (l # ls) @ rest) = i + length (text_of_lines (l # ls))"
proof (induction ls arbitrary: i l)
  case Nil
  then show ?case using header_end_skip [of "l @ [cr]" i "cr # lf # rest"] by (simp add: text_of_lines_def crlf_def a_line_def)
next
  case (Cons m ls)
  have t: "text_of_lines (l # m # ls) @ rest = (l @ [cr]) @ lf # text_of_lines (m # ls) @ rest"
    "text_of_lines (m # ls) @ rest = m @ cr # lf # concat (map (\<lambda>l. l @ crlf) ls) @ crlf @ rest"
    by (simp_all add: text_of_lines_def crlf_def)
  have "header_end_at i (text_of_lines (l # m # ls) @ rest) = header_end_at (i + length (l @ [cr])) (lf # text_of_lines (m # ls) @ rest)"
    unfolding t(1) by (rule header_end_skip) (use Cons.prems in \<open>simp add: a_line_def\<close>)
  also have "\<dots> = header_end_at (i + length (l @ [cr]) + 1) (text_of_lines (m # ls) @ rest)"
    unfolding t(2) by (rule header_end_next) (use Cons.prems in simp)
  also have "\<dots> = i + length (l @ [cr]) + 1 + length (text_of_lines (m # ls))" by (rule Cons.IH) (use Cons.prems in simp)
  finally show ?case by (simp add: text_of_lines_def crlf_def)
qed

lemma split_lines_line: "lf \<notin> set l \<Longrightarrow> split_lines (l @ cr # lf # x) = l # split_lines x"
proof -
  assume l: "lf \<notin> set l"
  have "takeWhile (\<lambda>c. c \<noteq> lf) (l @ cr # lf # x) = l @ [cr]" "dropWhile (\<lambda>c. c \<noteq> lf) (l @ cr # lf # x) = lf # x"
    using takeWhile_until [of lf "l @ [cr]" "lf # x"] dropWhile_until [of lf "l @ [cr]" "lf # x"] l by simp_all
  then show ?thesis by (subst split_lines.simps) (simp add: strip_cr_def)
qed

lemma split_lines_text: "list_all a_line ls \<Longrightarrow> split_lines (text_of_lines ls) = ls @ [[]]"
proof (induction ls)
  case Nil
  then show ?case using split_lines_line [of "[]" "[]"] by (simp add: text_of_lines_def crlf_def split_lines.simps [of "[]"])
next
  case (Cons l ls)
  then show ?case using split_lines_line [of l "text_of_lines ls"] by (simp add: text_of_lines_def crlf_def a_line_def)
qed

lemma text_of_lines_end:
  assumes "list_all a_line ls" "ls \<noteq> []"
  shows "find_header_end (text_of_lines ls @ rest) 0 = length (text_of_lines ls)"
  using header_end_lines [of "hd ls" "tl ls" 0 rest] assms by (cases ls) (simp_all add: find_header_end_def)

section \<open>A printed request is parsed back\<close>

definition header_line :: "string \<times> string \<Rightarrow> string" where
  "header_line = (\<lambda>(k, v). k @ '': '' @ v)"

definition request_lines :: "http_request \<Rightarrow> string list" where
  "request_lines r =
     (rq_method r @ '' '' @ rq_path r @ (if rq_query r = [] then [] else CHR ''?'' # rq_query r) @ '' HTTP/1.1'') # map header_line (rq_headers r)"

definition plain_header :: "string \<times> string \<Rightarrow> bool" where
  "plain_header = (\<lambda>(k, v). k \<noteq> [] \<and> CHR '':'' \<notin> set k \<and> lf \<notin> set k \<and> \<not> list_ex is_blank k \<and> lf \<notin> set v \<and>
     (v = [] \<or> \<not> is_space (hd v) \<and> \<not> is_space (last v)))"

definition plain_request :: "http_request \<Rightarrow> bool" where
  "plain_request r =
     (rq_method r \<noteq> [] \<and> list_all is_upper (rq_method r) \<and> rq_path r \<noteq> [] \<and> hd (rq_path r) = CHR ''/'' \<and>
      set (rq_path r) \<inter> {CHR '' '', CHR ''?'', lf} = {} \<and> set (rq_query r) \<inter> {CHR '' '', lf} = {} \<and>
      list_all plain_header (rq_headers r))"

lemma trim_space: "v = [] \<or> \<not> is_space (hd v) \<and> \<not> is_space (last v) \<Longrightarrow> trim_inplace (CHR '' '' # v) = v"
proof -
  assume v: "v = [] \<or> \<not> is_space (hd v) \<and> \<not> is_space (last v)"
  have sp: "is_space (CHR '' '')" by (simp add: is_space_def)
  show ?thesis
  proof (cases "v = []")
    case False
    then have "dropWhile is_space v = v" "dropWhile is_space (rev v) = rev v"
      using v by (simp_all add: dropWhile_eq_self_iff hd_rev)
    then show ?thesis using sp by (simp add: trim_inplace_def)
  qed (simp add: trim_inplace_def sp)
qed

lemma cut_at_join: "c \<notin> set a \<Longrightarrow> cut_at c (a @ c # b) = Some (a, b)"
  using takeWhile_until [of c a "c # b"] dropWhile_until [of c a "c # b"] by (simp add: cut_at_def)

lemma parse_header_text: "plain_header kv \<Longrightarrow> parse_header_line (header_line kv) = Some kv"
proof (cases kv)
  case (Pair k v)
  moreover assume "plain_header kv"
  ultimately have k: "k \<noteq> []" "CHR '':'' \<notin> set k" "\<not> list_ex is_blank k" "v = [] \<or> \<not> is_space (hd v) \<and> \<not> is_space (last v)"
    by (auto simp: plain_header_def)
  have "\<not> is_blank (hd k)" using k(1,3) by (auto simp: list_ex_iff)
  then show ?thesis using k cut_at_join [of "CHR '':''" k "CHR '' '' # v"] trim_space [OF k(4)] Pair
    by (simp add: parse_header_line_def header_line_def)
qed

lemma parse_headers_text: "list_all plain_header kvs \<Longrightarrow> parse_header_lines (map header_line kvs) = Some kvs"
  by (induction kvs) (simp_all add: parse_header_text)

lemma request_line_text:
  assumes "plain_request r"
  shows "parse_request_line (hd (request_lines r)) = Some (rq_method r, rq_path r, rq_query r)"
proof -
  let ?target = "rq_path r @ (if rq_query r = [] then [] else CHR ''?'' # rq_query r)"
  have m: "CHR '' '' \<notin> set (rq_method r)" "rq_method r \<noteq> []" "list_all is_upper (rq_method r)"
    using assms by (auto simp: plain_request_def list_all_iff is_upper_def Let_def)
  have t: "CHR '' '' \<notin> set ?target" "?target \<noteq> []" "hd ?target = CHR ''/''" using assms by (auto simp: plain_request_def)
  have sp: "split_target ?target = (rq_path r, rq_query r)"
  proof (cases "rq_query r = []")
    case True
    then show ?thesis using assms by (auto simp: split_target_def plain_request_def Let_def)
  next
    case False
    have "CHR ''?'' \<notin> set (rq_path r)" using assms by (auto simp: plain_request_def)
    then show ?thesis using False takeWhile_until [of "CHR ''?''" "rq_path r" "CHR ''?'' # rq_query r"]
        dropWhile_until [of "CHR ''?''" "rq_path r" "CHR ''?'' # rq_query r"]
      by (simp add: split_target_def)
  qed
  have l: "hd (request_lines r) = rq_method r @ CHR '' '' # (?target @ CHR '' '' # ''HTTP/1.1'')" by (simp add: request_lines_def)
  show ?thesis
    unfolding l parse_request_line_def cut_at_join [OF m(1)] option.case prod.case cut_at_join [OF t(1)]
    using m t sp by simp
qed

lemma request_lines_ok: "plain_request r \<Longrightarrow> list_all a_line (request_lines r)"
  by (auto simp: plain_request_def request_lines_def a_line_def list_all_iff plain_header_def header_line_def is_upper_def split: prod.splits)

lemma request_of_text:
  assumes "plain_request r" "header r ''Transfer-Encoding'' = []" "declared_length r = int (length (rq_body r))"
    and "length (rq_body r) \<le> kMaxBodyBytes"
  shows "request_of (rq_peer r) (text_of_lines (request_lines r) @ rq_body r @ rest) = Request r"
proof -
  let ?head = "text_of_lines (request_lines r)" and ?r0 = "r\<lparr>rq_body := []\<rparr>"
  have ne: "request_lines r \<noteq> []" by (simp add: request_lines_def)
  have e: "find_header_end (?head @ rq_body r @ rest) 0 = length ?head" using text_of_lines_end [OF request_lines_ok [OF assms(1)] ne] .
  have "split_lines ?head = request_lines r @ [[]]" by (rule split_lines_text) (rule request_lines_ok [OF assms(1)])
  then have p: "parse_headers (rq_peer r) ?head = Some ?r0"
    using request_line_text [OF assms(1)] parse_headers_text [of "rq_headers r"] assms(1) ne
    by (simp add: parse_headers_def Let_def butlast_append plain_request_def) (simp add: request_lines_def)
  have d: "declared_length ?r0 = declared_length r" "header ?r0 n = header r n" for n by (simp_all add: declared_length_def header_def)
  have "?head \<noteq> []" by (simp add: text_of_lines_def crlf_def)
  then show ?thesis using e p d assms by (simp add: request_of_def Let_def)
qed

text \<open>C27: What a client prints the routes read: the text of any request (its method in capitals, a path and query without blanks, headers
  with plain names and trimmed values, a body of the declared length), cut into reads in any way, is handed to the routes as
  exactly that request, and bytes sent behind it are not taken for part of it.\<close>

theorem request_roundtrip:
  assumes "plain_request r" "header r ''Transfer-Encoding'' = []" "declared_length r = int (length (rq_body r))"
    and "length (rq_body r) \<le> kMaxBodyBytes" "length (text_of_lines (request_lines r)) \<le> kHeaderReadCap"
    and "list_all (good_turn deadline) ts" "bytes_in ts = text_of_lines (request_lines r) @ rq_body r @ rest"
  shows "read_request deadline (rq_peer r) ts = Request r"
proof -
  have "find_header_end (bytes_in ts) 0 = length (text_of_lines (request_lines r))"
    unfolding assms(7) by (rule text_of_lines_end [OF request_lines_ok [OF assms(1)]]) (simp add: request_lines_def)
  then show ?thesis using read_request_cut [OF assms(6)] request_of_text [OF assms(1-4), of rest] assms(5,7) by simp
qed

section \<open>What is never handed to the routes\<close>

lemma declared_loop_agrees:
  "0 \<le> declared_loop seen kvs \<Longrightarrow> (seen = None \<or> seen = Some (declared_loop seen kvs)) \<and>
   list_all (\<lambda>kv. ascii_ieq (fst kv) ''Content-Length'' \<longrightarrow> length_value (snd kv) = Some (declared_loop seen kvs)) kvs"
proof (induction kvs arbitrary: seen)
  case (Cons kv kvs)
  then show ?case
  proof (cases "ascii_ieq (fst kv) ''Content-Length''")
    case True
    then obtain n where n: "length_value (snd kv) = Some n" "seen = None \<or> seen = Some n" "declared_loop seen (kv # kvs) = declared_loop (Some n) kvs"
      using Cons.prems by (auto split: option.splits if_splits)
    have "0 \<le> declared_loop (Some n) kvs" using Cons.prems n(3) by simp
    from Cons.IH [OF this] n True show ?thesis by auto
  qed (use Cons in auto)
qed (auto split: option.splits)

lemma read_full_length: "read_full deadline got want ts = (Some x, ts') \<Longrightarrow> length got \<le> want \<Longrightarrow> length x \<le> want"
proof (induction deadline got want ts arbitrary: ts' rule: read_full.induct)
  case (1 deadline got want ts)
  have cap: "recv_bounded deadline cap ts = (Some c, ts2) \<Longrightarrow> length c \<le> cap" for cap c ts2
    by (induction deadline cap ts rule: recv_bounded.induct) (auto split: if_splits poll_answer.splits recv_result.splits)
  show ?case
  proof (cases "length got < want")
    case False
    then show ?thesis using "1.prems" by (subst (asm) read_full.simps) simp
  next
    case True
    obtain o' ts2 where r: "recv_bounded deadline (want - length got) ts = (o', ts2)" by fastforce
    show ?thesis
    proof (cases o')
      case None
      then show ?thesis using True r "1.prems" by (subst (asm) read_full.simps) simp
    next
      case (Some c)
      show ?thesis
      proof (cases "c = []")
        case True
        then show ?thesis using Some r "1.prems" by (subst (asm) read_full.simps) (simp split: if_splits)
      next
        case False
        have "read_full deadline (got @ c) want ts2 = (Some x, ts')"
          using "1.prems"(1) True r Some False by (subst (asm) read_full.simps) simp
        then show ?thesis using 1(1) [OF True _ _ False] r Some cap [of "want - length got" c ts2] True by auto
      qed
    qed
  qed
qed

lemma find_header_find: "find_header kvs name = (case find (\<lambda>kv. ascii_ieq (fst kv) name) kvs of None \<Rightarrow> [] | Some kv \<Rightarrow> snd kv)"
  by (induction kvs) simp_all

text \<open>C26: Whatever a connection sends, and however it stalls, a request is handed to the routes only when every
  Content-Length it carries is a number and all of them are the same (no two readers of it can disagree on its length), the first Transfer-Encoding header it
  carries, if any, has an empty value, and its body is at most what was declared (shorter when the connection ended early) and at most the cap. Of a second
  Transfer-Encoding header nothing is promised: the code looks at the first alone.\<close>

theorem request_length_agreed:
  assumes "read_request deadline peer ts = Request r"
  shows "list_all (\<lambda>kv. ascii_ieq (fst kv) ''Content-Length'' \<longrightarrow> length_value (snd kv) = Some (declared_length r)) (rq_headers r) \<and>
    (case find (\<lambda>kv. ascii_ieq (fst kv) ''Transfer-Encoding'') (rq_headers r) of None \<Rightarrow> True | Some kv \<Rightarrow> snd kv = []) \<and>
    int (length (rq_body r)) \<le> declared_length r \<and> declared_length r \<le> int kMaxBodyBytes \<and> rq_peer r = peer"
proof -
  from assms obtain e buf ts' req where req: "parse_headers peer (take e buf) = Some req" "read_body deadline req (drop e buf) ts' = Request r"
    by (auto simp: read_request_def split: prod.splits head_result.splits option.splits)
  have peer: "rq_peer req = peer" using req(1) by (auto simp: parse_headers_def Let_def split: if_splits option.splits)
  have b: "header req ''Transfer-Encoding'' = []" "0 \<le> declared_length req" "nat (declared_length req) \<le> kMaxBodyBytes"
    using req(2) by (auto simp: read_body_def Let_def split: if_splits)
  have r: "r = req\<lparr>rq_body := rq_body r\<rparr>" "length (rq_body r) \<le> nat (declared_length req)"
    using req(2) b by (auto simp: read_body_def Let_def dest!: read_full_length split: if_splits prod.splits option.splits)
  have "declared_length r = declared_length req" "header r n = header req n" "rq_headers r = rq_headers req" "rq_peer r = peer" for n
    by (subst r(1), simp add: declared_length_def header_def peer)+
  then show ?thesis using declared_loop_agrees [of None "rq_headers req"] b r peer
    by (auto simp: declared_length_def header_def find_header_find split: option.splits)
qed

text \<open>What the code lets through although it means to refuse every transfer coding: an empty Transfer-Encoding header hides one behind it.\<close>

lemma transfer_coding_hidden:
  assumes "plain_request r" "rq_headers r = [(''Transfer-Encoding'', []), (''Transfer-Encoding'', ''chunked'')]" "rq_body r = []"
  shows "request_of (rq_peer r) (text_of_lines (request_lines r) @ rest) = Request r"
  using request_of_text [OF assms(1), of rest] assms(2,3) by (simp add: header_def declared_length_def ascii_ieq_def same_lower_def c_str_def)

section \<open>What a client reads\<close>

text \<open>No header of a response can break out of its line.\<close>

definition clean :: "http_response \<Rightarrow> bool" where
  "clean r = (lf \<notin> set (rs_content_type r) \<and> list_all (\<lambda>kv. lf \<notin> set (fst kv) \<and> lf \<notin> set (snd kv)) (rs_extra_headers r))"

definition response_lines :: "http_response \<Rightarrow> string list" where
  "response_lines r =
     [''HTTP/1.1 '' @ to_string (rs_status r) @ '' '' @ status_phrase (rs_status r),
      ''Content-Type: '' @ (if rs_content_type r = [] then ''text/plain'' else rs_content_type r),
      ''Content-Length: '' @ digits (length (rs_body r)), ''Connection: close''] @ map header_line (rs_extra_headers r)"

lemma digits_no_lf: "lf \<notin> set (digits n)"
proof (induction n rule: digits.induct)
  case (1 n)
  have "char_of (48 + n mod 10) \<noteq> lf" "n < 10 \<Longrightarrow> char_of (48 + n) \<noteq> lf"
    by (auto dest: arg_cong [where f = "of_char :: char \<Rightarrow> nat"])
  then show ?case using 1 by (subst digits.simps) auto
qed

lemma to_string_no_lf: "lf \<notin> set (to_string n)"
  by (simp add: to_string_def digits_no_lf)

lemma response_head_lines: "response_head r = text_of_lines (response_lines r)"
  by (simp add: response_head_def text_of_lines_def response_lines_def header_text_def header_line_def crlf_def case_prod_unfold map_concat comp_def)

lemma response_lines_ok: "clean r \<Longrightarrow> list_all a_line (response_lines r)"
  by (auto simp: clean_def response_lines_def a_line_def list_all_iff header_line_def to_string_no_lf digits_no_lf status_phrase_def split: prod.splits)

lemma first_entry_path: "lf \<notin> set (cookie_path req)"
proof -
  let ?p = "first_entry (header req ''X-Forwarded-Prefix'')"
  have "lf \<notin> set ?p" if "list_all path_char ?p" using that by (auto simp: list_all_iff path_char_def Let_def)
  then show ?thesis by (auto simp: cookie_path_def Let_def dest: in_set_butlastD)
qed

lemma cookie_clean: "lf \<notin> set (cookie_attrs req)" "lf \<notin> set (session_cookie_name h p)"
proof -
  show "lf \<notin> set (cookie_attrs req)" by (simp add: cookie_attrs_def first_entry_path)
  have "hex_digit (n mod 16) \<noteq> lf" for n
    by (auto simp: hex_digit_def dest: arg_cong [where f = "of_char :: char \<Rightarrow> nat"])
  then show "lf \<notin> set (session_cookie_name h p)" by (simp add: session_cookie_name_def hex8_def) metis
qed

lemma router_clean:
  assumes "lf \<notin> set (re_token env)"
  shows "clean (fst (make_router env d req))"
proof (rule make_router_cases [where P = "\<lambda>r. clean (fst r)"])
  show "clean (fst (response st ty x, d))" if "lf \<notin> set ty" for st ty x using that by (simp add: clean_def response_def)
  show "clean (fst (route_login env d req))"
    using assms by (auto simp: clean_def route_login_def login_checked_def response_def add_header_def sess_create_def Let_def cookie_clean to_string_no_lf
        split: prod.splits option.splits)
  show "clean (fst (route_logout env d req))"
    by (simp add: clean_def route_logout_def response_def add_header_def Let_def cookie_clean)
  have ws: "clean (fst (with_session env d req f))" if "\<And>d. clean (fst (f d))" for f
    using that by (auto simp: with_session_def clean_def unauthenticated_def response_def split: prod.splits)
  show "clean (fst (with_session env d req (\<lambda>d. route_samples env d req)))"
    by (rule ws) (simp add: clean_def route_samples_def response_def Let_def)
  show "clean (fst (with_session env d req (\<lambda>d. (f d, d))))" if "\<And>d. \<exists>st txt. f d = response st ''application/json'' txt" for f
  proof (rule ws)
    show "clean (fst (f d, d))" for d using that [of d] by (auto simp: clean_def response_def)
  qed
  show "clean (fst (route_ws env d req))" by (auto simp: clean_def route_ws_def response_def Let_def split: prod.splits)
qed

lemma send_all_sends: "send_all deadline as data = (True, out, as') \<Longrightarrow> out = data"
proof (induction deadline as data arbitrary: out rule: send_all.induct)
  case (3 deadline n as c data)
  then show ?case by (auto split: if_splits prod.splits)
qed (auto split: if_splits)

lemma send_response_sends: "send_response r io rate start as = (True, out, as') \<Longrightarrow> out = response_head r @ rs_body r"
  by (auto simp: send_response_def Let_def dest!: send_all_sends split: prod.splits if_splits)

text \<open>C25: What the routes answer is what the client reads: whatever the request holds (forwarded prefixes, hosts and cookies of any bytes), an answer of the routes that
  was sent whole is, read as lines up to the first blank one, exactly the status, the type, the length and the headers the
  route set, each on a line of its own, followed by exactly the body, whose length is the one announced. (The token drawn for a login holds no newline.)\<close>

theorem router_answer_intact:
  assumes "lf \<notin> set (re_token env)" "r = fst (make_router env d req)" "send_response r io rate start as = (True, out, as')"
  shows "split_lines (take (find_header_end out 0) out) =
      [''HTTP/1.1 '' @ to_string (rs_status r) @ '' '' @ status_phrase (rs_status r),
       ''Content-Type: '' @ (if rs_content_type r = [] then ''text/plain'' else rs_content_type r),
       ''Content-Length: '' @ digits (length (rs_body r)), ''Connection: close''] @
      map (\<lambda>(k, v). k @ '': '' @ v) (rs_extra_headers r) @ [[]] \<and>
    drop (find_header_end out 0) out = rs_body r"
proof -
  have ok: "list_all a_line (response_lines r)" using response_lines_ok router_clean [OF assms(1)] assms(2) by simp
  have out: "out = text_of_lines (response_lines r) @ rs_body r" using send_response_sends [OF assms(3)] by (simp add: response_head_lines)
  have "find_header_end out 0 = length (text_of_lines (response_lines r))"
    unfolding out by (rule text_of_lines_end [OF ok]) (simp add: response_lines_def)
  then show ?thesis using split_lines_text [OF ok] out by (simp add: response_lines_def header_line_def)
qed

section \<open>A small exchange\<close>

definition demo_turns :: "recv_turn list" where
  "demo_turns = [Turn 0 PollRoom (RGot ''GET /x HT''), Turn 0 PollIntr RNone, Turn 0 PollRoom (RGot (''TP/1.1'' @ crlf @ [cr])), Turn 0 PollRoom (RGot [lf])]"

lemma demo_turns_good: "list_all (good_turn 1000000000) demo_turns" "bytes_in demo_turns = text_of_lines (request_lines (demo_get ''/x'' []))"
  by (simp_all add: demo_turns_def past_def text_of_lines_def request_lines_def demo_get_def crlf_def)

lemma demo_end: "find_header_end (bytes_in demo_turns) 0 = 19"
  by (simp add: find_header_end_def demo_turns_def crlf_def)

theorem request_any_cut_witness:
  "read_request 1000000000 ''127.0.0.1'' demo_turns = request_of ''127.0.0.1'' (''GET /x HTTP/1.1'' @ crlf @ crlf)"
  using request_any_cut [OF demo_turns_good(1), of "''127.0.0.1''"] demo_end by (simp add: kHeaderReadCap_def demo_turns_def crlf_def)

lemma demo_plain: "plain_request (demo_get ''/x'' [])" "header (demo_get ''/x'' []) n = []" "declared_length (demo_get ''/x'' []) = 0"
  by (simp_all add: plain_request_def demo_get_def is_upper_def header_def declared_length_def)

theorem request_roundtrip_witness: "read_request 1000000000 ''127.0.0.1'' demo_turns = Request (demo_get ''/x'' [])"
  using request_roundtrip [of "demo_get ''/x'' []" 1000000000 demo_turns "[]"] demo_turns_good demo_plain
  by (simp add: demo_get_def kHeaderReadCap_def text_of_lines_def request_lines_def crlf_def)

theorem request_length_agreed_witness:
  "int (length (rq_body (demo_get ''/x'' []))) \<le> declared_length (demo_get ''/x'' []) \<and> declared_length (demo_get ''/x'' []) \<le> int kMaxBodyBytes"
proof -
  have "request_of ''127.0.0.1'' (bytes_in demo_turns) = Request (demo_get ''/x'' [])"
    using request_of_text [of "demo_get ''/x'' []" "[]"] demo_plain demo_turns_good(2) by (simp add: demo_get_def)
  then have "read_request 1000000000 ''127.0.0.1'' demo_turns = Request (demo_get ''/x'' [])"
    using read_request_cut [OF demo_turns_good(1), of "''127.0.0.1''"] demo_end by (simp add: kHeaderReadCap_def)
  from request_length_agreed [OF this] show ?thesis by blast
qed

lemma demo_answer: "fst (make_router (demo_env 1) (demo_router [] []) (demo_get ''/x'' [])) = response 404 ''text/plain'' (''not found'' @ eol)"
  by (simp add: make_router_def own_host_def demo_router_def demo_get_def)

theorem router_answer_intact_witness:
  "split_lines (''HTTP/1.1 404 Not Found'' @ crlf @ ''Content-Type: text/plain'' @ crlf @ ''Content-Length: 10'' @ crlf @ ''Connection: close'' @ crlf @ crlf) =
     [''HTTP/1.1 404 Not Found'', ''Content-Type: text/plain'', ''Content-Length: 10'', ''Connection: close'', []]"
proof -
  let ?r = "response 404 ''text/plain'' (''not found'' @ eol)"
  let ?h = "''HTTP/1.1 404 Not Found'' @ crlf @ ''Content-Type: text/plain'' @ crlf @ ''Content-Length: 10'' @ crlf @ ''Connection: close'' @ crlf @ crlf"
  have dg: "digits 404 = ''404''" "digits 10 = ''10''" by code_simp+
  have ln: "length (rs_body ?r) = 10" by (simp add: response_def eol_def)
  have h: "response_head ?r = ?h" unfolding response_head_def ln by (simp add: response_def to_string_def dg status_phrase_def)
  have all: "send_all dl (OSent 500 # as) (c # data) = (True, c # data, as)" if "length data < 500" for dl as c data
    using that by (simp add: drop_Cons' take_Cons')
  have s: "send_response ?r 5000 1 0 [OSent 500, OSent 500] = (True, ?h @ ''not found'' @ eol, [])"
    unfolding send_response_def h by (simp add: Let_def response_def eol_def crlf_def)
  have "find_header_end (?h @ ''not found'' @ eol) 0 = length ?h"
    by (simp add: find_header_end_def crlf_def eol_def)
  moreover have "take (length x) (x @ y) = x" for x y :: string by simp
  ultimately have "take (find_header_end (?h @ ''not found'' @ eol) 0) (?h @ ''not found'' @ eol) = ?h" by (simp only:)
  with router_answer_intact [OF _ demo_answer [symmetric] s, unfolded ln] show ?thesis
    by (simp add: demo_env_def response_def to_string_def dg status_phrase_def)
qed

end
