(* ===== verification/Exec_Action.thy ===== *)
theory Exec_Action
  imports Text "HOL-Library.Sublist"
begin

text \<open>
  Programs run by the daemon (\<open>src/rules/exec_action.cpp\<close>) and the private temporary files that carry what must not
  be on a command line (\<open>src/util/tmpfile.cpp\<close>). What the kernel answers is given: for \<open>fork\<close> an errno or the pid,
  for each poll of \<open>waitpid\<close> its answer, the cancel flag and the clock, and for the blocking \<open>waitpid\<close> its answers after the signals sent before it. The clock is in nanoseconds (the code reads it as
  a double of seconds, whose rounding is below a microsecond for a century of uptime). A loop that has not ended when the polls run out, and a blocking wait that does not return,
  have no value (\<open>None\<close>). Proved, when a process that is sent \<open>SIGKILL\<close> ends: a program is waited for no longer than its time; how it ended is told rightly; it and its
  group are killed exactly when it was cancelled or ran out of time; whenever the code is 0 its status was collected, so no zombie is left; and it is given none of the daemon's environment but the variables listed.
\<close>

section \<open>Waiting for a child\<close>

definition EINTR :: errno where "EINTR = 4"
definition ENAMETOOLONG :: errno where "ENAMETOOLONG = 36"

record exec_result =
  er_exit_status :: int
  er_signal :: int
  er_timed_out :: bool
  er_cancelled :: bool
  er_elapsed :: int
  er_err :: errno

definition exec_result_0 :: exec_result where
  "exec_result_0 = \<lparr>er_exit_status = 0, er_signal = 0, er_timed_out = False, er_cancelled = False, er_elapsed = 0, er_err = 0\<rparr>"

datatype child_status = Exited int | Signaled int

datatype wait_answer = StillRunning | Reaped child_status | WaitFailed errno

record poll =
  po_wait :: wait_answer
  po_cancel :: bool
  po_now :: int
  po_end :: int

definition SIGKILL :: int where "SIGKILL = 9"

text \<open>What the parent did to the child: signals sent, and its status collected by a \<open>waitpid\<close>, after which the pid is not its own any more.\<close>

datatype parent_call = Kill int int | Collected child_status

text \<open>The blocking wait after the kills, given the answers it gets: \<open>None\<close> when it does not return; \<open>Some None\<close> when it fails.\<close>

fun reap :: "wait_answer list \<Rightarrow> child_status option option" where
  "reap [] = None"
| "reap (a # as) =
     (case a of Reaped st \<Rightarrow> Some (Some st) | WaitFailed e \<Rightarrow> if e = EINTR then reap as else Some None | StillRunning \<Rightarrow> Some None)"

definition kill_and_reap :: "int \<Rightarrow> int \<Rightarrow> (parent_call list \<Rightarrow> wait_answer list) \<Rightarrow> poll \<Rightarrow> exec_result \<Rightarrow> (exec_result \<times> parent_call list) option" where
  "kill_and_reap pid start reaps p out =
     (let kills = [Kill (- pid) SIGKILL, Kill pid SIGKILL]
      in case reap (reaps kills) of
           None \<Rightarrow> None
         | Some s \<Rightarrow>
             Some (out\<lparr>er_signal := (case s of Some (Signaled n) \<Rightarrow> n | _ \<Rightarrow> 0), er_elapsed := po_end p - start\<rparr>,
                   kills @ (case s of None \<Rightarrow> [] | Some st \<Rightarrow> [Collected st])))"

definition child_ended :: "int \<Rightarrow> child_status \<Rightarrow> poll \<Rightarrow> exec_result \<Rightarrow> exec_result" where
  "child_ended start st p out =
     (let out = out\<lparr>er_elapsed := po_end p - start\<rparr>
      in case st of Exited n \<Rightarrow> out\<lparr>er_exit_status := n\<rparr> | Signaled n \<Rightarrow> out\<lparr>er_signal := n\<rparr>)"

text \<open>A turn of the loop goes on, returns a code, or never ends.\<close>

datatype turn = GoesOn | Returns int exec_result "parent_call list" | Hangs

definition wait_turn :: "int \<Rightarrow> int \<Rightarrow> int \<Rightarrow> (parent_call list \<Rightarrow> wait_answer list) \<Rightarrow> poll \<Rightarrow> exec_result \<Rightarrow> turn" where
  "wait_turn pid start deadline reaps p out =
     (let on = (if po_cancel p
                then (case kill_and_reap pid start reaps p out of None \<Rightarrow> Hangs | Some (out, cs) \<Rightarrow> Returns 0 (out\<lparr>er_cancelled := True\<rparr>) cs)
                else if po_now p \<ge> deadline
                then (case kill_and_reap pid start reaps p out of None \<Rightarrow> Hangs | Some (out, cs) \<Rightarrow> Returns 0 (out\<lparr>er_timed_out := True\<rparr>) cs)
                else GoesOn)
      in case po_wait p of
           Reaped st \<Rightarrow> Returns 0 (child_ended start st p out) [Collected st]
         | WaitFailed e \<Rightarrow> if e \<noteq> EINTR then Returns (- 5) (out\<lparr>er_err := e\<rparr>) [] else on
         | StillRunning \<Rightarrow> on)"

fun wait_loop :: "int \<Rightarrow> int \<Rightarrow> int \<Rightarrow> (parent_call list \<Rightarrow> wait_answer list) \<Rightarrow> poll list \<Rightarrow> exec_result \<Rightarrow> (int \<times> exec_result \<times> parent_call list) option" where
  "wait_loop pid start deadline reaps [] out = None"
| "wait_loop pid start deadline reaps (p # ps) out =
     (case wait_turn pid start deadline reaps p out of
        Returns rc r cs \<Rightarrow> Some (rc, r, cs) | Hangs \<Rightarrow> None | GoesOn \<Rightarrow> wait_loop pid start deadline reaps ps out)"

definition wait_with_timeout :: "int \<Rightarrow> int \<Rightarrow> int \<Rightarrow> (parent_call list \<Rightarrow> wait_answer list) \<Rightarrow> poll list \<Rightarrow> exec_result \<Rightarrow> (int \<times> exec_result \<times> parent_call list) option" where
  "wait_with_timeout pid start timeout_seconds reaps polls out =
     wait_loop pid start (start + timeout_seconds * 1000000000) reaps polls out"

section \<open>The child\<close>

definition kKeep :: "string list" where
  "kKeep = [''PATH'', ''HOME'', ''LANG'', ''TZ'', ''TMPDIR'',
     ''http_proxy'', ''https_proxy'', ''ftp_proxy'', ''all_proxy'', ''no_proxy'',
     ''HTTP_PROXY'', ''HTTPS_PROXY'', ''FTP_PROXY'', ''ALL_PROXY'', ''NO_PROXY'',
     ''CURL_CA_BUNDLE'', ''SSL_CERT_FILE'', ''SSL_CERT_DIR'']"

definition child_env_keeps :: "string \<Rightarrow> bool" where
  "child_env_keeps name = (name \<in> set kKeep \<or> take 3 name = ''LC_'')"

definition kDefaultPath :: string where
  "kDefaultPath = ''PATH=/sbin:/bin:/usr/sbin:/usr/bin:/usr/local/sbin:/usr/local/bin''"

definition env_name :: "string \<Rightarrow> string" where
  "env_name e = takeWhile (\<lambda>c. c \<noteq> CHR ''='') e"

fun env_loop :: "string list \<Rightarrow> string list \<Rightarrow> bool \<Rightarrow> string list \<times> bool" where
  "env_loop [] env path = (env, path)"
| "env_loop (e # es) env path =
     (if CHR ''='' \<notin> set e then env_loop es env path
      else if \<not> child_env_keeps (env_name e) then env_loop es env path
      else env_loop es (env @ [e]) (path \<or> env_name e = ''PATH''))"

definition child_environment :: "string list \<Rightarrow> string list" where
  "child_environment environ =
     (let (env, path) = env_loop environ [] False in if path then env else env @ [kDefaultPath])"

text \<open>What the child does before the program: the calls in their order. \<open>devnull\<close> is what opening \<open>/dev/null\<close> gives.\<close>

datatype child_call =
    Setpgid | DefaultSignal string | UnblockAll | OpenDevnull | Dup2 int int | CloseFd int
  | Rlimit string int int | Execvp "string list" "string list" | ExitNow int

definition child_cpu_limit :: "int \<Rightarrow> int" where
  "child_cpu_limit timeout_seconds = (if timeout_seconds > 0 then timeout_seconds else 1)"

definition prepare_child_and_exec :: "string list \<Rightarrow> string list \<Rightarrow> int \<Rightarrow> int \<Rightarrow> child_call list" where
  "prepare_child_and_exec argv env timeout_seconds devnull =
     [Setpgid, DefaultSignal ''SIGPIPE'', DefaultSignal ''SIGXFSZ'', UnblockAll, OpenDevnull] @
     (if devnull < 0 then [ExitNow 127]
      else [Dup2 devnull 0, Dup2 devnull 1, Dup2 devnull 2] @ (if devnull > 2 then [CloseFd devnull] else []) @
        [Rlimit ''RLIMIT_CPU'' (child_cpu_limit timeout_seconds + 5) (child_cpu_limit timeout_seconds + 10),
         Rlimit ''RLIMIT_AS'' (256 * 1024 * 1024) (256 * 1024 * 1024), Execvp argv env, ExitNow 127])"

section \<open>exec_command\<close>

record exec_world =
  ew_environ :: "string list"
  ew_fork :: errno
  ew_pid :: int
  ew_devnull :: int
  ew_start :: int
  ew_polls :: "poll list"
  ew_reaps :: "parent_call list \<Rightarrow> wait_answer list"

definition exec_describe :: "int \<Rightarrow> string" where
  "exec_describe rc =
     (if rc = 0 then ''ok'' else if rc = - 1 then ''no command'' else if rc = - 2 then ''no timeout''
      else if rc = - 3 then ''no result slot'' else if rc = - 4 then ''fork'' else if rc = - 5 then ''waitpid''
      else ''unknown error'')"

text \<open>\<open>argv\<close> without its final null; \<open>out = None\<close> is a null pointer. With the code it returns: the result, what the child did, and what the parent did to it.\<close>

definition exec_command ::
  "exec_world \<Rightarrow> string list option \<Rightarrow> int \<Rightarrow> exec_result option \<Rightarrow> (int \<times> exec_result option \<times> child_call list \<times> parent_call list) option" where
  "exec_command w argv timeout_seconds out =
     (if argv = None \<or> argv = Some [] then Some (- 1, out, [], [])
      else if timeout_seconds \<le> 0 then Some (- 2, out, [], [])
      else if out = None then Some (- 3, out, [], [])
      else if ew_fork w \<noteq> 0 then Some (- 4, Some (exec_result_0\<lparr>er_err := ew_fork w\<rparr>), [], [])
      else let calls = prepare_child_and_exec (the argv) (child_environment (ew_environ w)) timeout_seconds (ew_devnull w)
           in map_option (\<lambda>(rc, r, cs). (rc, Some r, calls, cs))
                (wait_with_timeout (ew_pid w) (ew_start w) timeout_seconds (ew_reaps w) (ew_polls w) exec_result_0))"

section \<open>Private temporary files\<close>

type_synonym files = "string \<rightharpoonup> string"

text \<open>What the kernel answers for one file: the name \<open>mkostemp\<close> makes of the template, with the names there are, or its errno, and the
  answers of the writes (a number of bytes taken, or an errno), all of what is left once the list is used up.\<close>

datatype write_answer = Wrote nat | WriteFailed errno

record tmp_os =
  to_tmpdir :: "string option"
  to_mkostemp :: "string \<Rightarrow> string set \<Rightarrow> errno + string"
  to_writes :: "write_answer list"

text \<open>\<open>Inl\<close>: the errno, and the bytes that were written before it.\<close>

fun write_all :: "write_answer list \<Rightarrow> string \<Rightarrow> string \<Rightarrow> (errno \<times> string) + string" where
  "write_all as sent [] = Inr sent"
| "write_all [] sent (c # cs) = Inr (sent @ c # cs)"
| "write_all (Wrote n # as) sent (c # cs) = write_all as (sent @ take n (c # cs)) (drop n (c # cs))"
| "write_all (WriteFailed e # as) sent (c # cs) = (if e = EINTR then write_all as sent (c # cs) else Inl (e, sent))"

definition tmp_dir :: "tmp_os \<Rightarrow> string" where
  "tmp_dir os = (case to_tmpdir os of None \<Rightarrow> ''/tmp'' | Some d \<Rightarrow> if d = [] then ''/tmp'' else d)"

definition write_private_tmp :: "tmp_os \<Rightarrow> string option \<Rightarrow> string \<Rightarrow> nat \<Rightarrow> files \<Rightarrow> (errno + string) \<times> files" where
  "write_private_tmp os prefix_arg body cap fs =
     (case prefix_arg of None \<Rightarrow> (Inl 0, fs)
      | Some pre \<Rightarrow>
        let template = tmp_dir os @ ''/'' @ pre @ ''XXXXXX''
        in if length template \<ge> cap then (Inl ENAMETOOLONG, fs)
           else case to_mkostemp os template (dom fs) of
                  Inl e \<Rightarrow> (Inl e, fs)
                | Inr path \<Rightarrow>
                    (case write_all (to_writes os) [] body of
                       Inl (e, part) \<Rightarrow> (Inl e, (fs(path \<mapsto> part))(path := None))
                     | Inr all \<Rightarrow> (Inr path, fs(path \<mapsto> all))))"

section \<open>Lemmas\<close>

text \<open>A poll at which the loop goes on.\<close>

definition goes_on :: "int \<Rightarrow> poll \<Rightarrow> bool" where
  "goes_on deadline p = (po_wait p \<in> {StillRunning, WaitFailed EINTR} \<and> \<not> po_cancel p \<and> po_now p < deadline)"

lemma wait_turn_GoesOn: "wait_turn pid start deadline reaps p out = GoesOn \<longleftrightarrow> goes_on deadline p"
  by (auto simp: wait_turn_def goes_on_def Let_def split: wait_answer.split option.split)

lemma wait_loop_Some:
  assumes "wait_loop pid start deadline reaps polls out = Some (rc, r, cs)"
  obtains before p after where "polls = before @ p # after" "list_all (goes_on deadline) before" "wait_turn pid start deadline reaps p out = Returns rc r cs"
  using assms
proof (induction polls arbitrary: thesis)
  case (Cons q qs)
  show ?case
  proof (cases "wait_turn pid start deadline reaps q out")
    case GoesOn
    then have "wait_loop pid start deadline reaps qs out = Some (rc, r, cs)" using Cons.prems(2) by simp
    then obtain before p after where p: "qs = before @ p # after" "list_all (goes_on deadline) before" "wait_turn pid start deadline reaps p out = Returns rc r cs"
      by (rule Cons.IH [rotated])
    show ?thesis using p GoesOn by (intro Cons.prems(1) [of "q # before" p after]) (auto simp: wait_turn_GoesOn)
  qed (use Cons.prems in \<open>auto intro: Cons.prems(1) [of "[]" q qs]\<close>)
qed simp

text \<open>What the kernel promises of \<open>SIGKILL\<close>: once it was sent to the child, a blocking wait for it, however often it is interrupted, brings its status.\<close>

definition sigkill_ends :: "int \<Rightarrow> (parent_call list \<Rightarrow> wait_answer list) \<Rightarrow> bool" where
  "sigkill_ends pid reaps \<longleftrightarrow>
     (\<forall>calls. Kill pid SIGKILL \<in> set calls \<longrightarrow> (\<exists>n st rest. reaps calls = replicate n (WaitFailed EINTR) @ Reaped st # rest))"

lemma reap_interrupted: "reap (replicate n (WaitFailed EINTR) @ Reaped st # rest) = Some (Some st)"
  by (induction n) simp_all

lemma kill_and_reap_ends:
  assumes "sigkill_ends pid reaps"
  obtains st where "kill_and_reap pid start reaps p out =
    Some (out\<lparr>er_signal := (case st of Signaled n \<Rightarrow> n | Exited _ \<Rightarrow> 0), er_elapsed := po_end p - start\<rparr>,
          [Kill (- pid) SIGKILL, Kill pid SIGKILL, Collected st])"
proof -
  obtain n st rest where "reaps [Kill (- pid) SIGKILL, Kill pid SIGKILL] = replicate n (WaitFailed EINTR) @ Reaped st # rest"
    using assms unfolding sigkill_ends_def by (metis list.set_intros)
  then show thesis using that [of st] by (simp add: kill_and_reap_def reap_interrupted split: child_status.split)
qed

lemma wait_turn_ends: "sigkill_ends pid reaps \<Longrightarrow> wait_turn pid start deadline reaps p out \<noteq> Hangs"
  by (rule kill_and_reap_ends [of pid reaps start p out]) (auto simp: wait_turn_def Let_def split: wait_answer.split)

lemma wait_loop_ends:
  assumes "sigkill_ends pid reaps" "p \<in> set polls" "\<not> goes_on deadline p"
  shows "\<exists>r. wait_loop pid start deadline reaps polls out = Some r"
  using assms(2)
proof (induction polls)
  case (Cons q qs)
  show ?case
  proof (cases "wait_turn pid start deadline reaps q out")
    case GoesOn
    then have "p \<in> set qs" using Cons.prems assms(3) by (auto simp: wait_turn_GoesOn)
    then show ?thesis using Cons.IH GoesOn by simp
  qed (use wait_turn_ends [OF assms(1)] in auto)
qed simp

text \<open>What a poll tells and what the result must then say.\<close>

definition told :: "int \<Rightarrow> poll \<Rightarrow> int \<Rightarrow> exec_result \<Rightarrow> bool" where
  "told deadline p rc r =
     (let own_end = (rc = 0 \<and> \<not> er_cancelled r \<and> \<not> er_timed_out r);
          killed = (rc = 0 \<and> er_exit_status r = 0 \<and> er_cancelled r = po_cancel p \<and> er_timed_out r = (\<not> po_cancel p) \<and> (po_cancel p \<or> deadline \<le> po_now p))
      in case po_wait p of
           Reaped (Exited n) \<Rightarrow> own_end \<and> er_exit_status r = n \<and> er_signal r = 0
         | Reaped (Signaled n) \<Rightarrow> own_end \<and> er_signal r = n \<and> er_exit_status r = 0
         | WaitFailed e \<Rightarrow> if e = EINTR then killed else rc = - 5 \<and> er_err r = e
         | StillRunning \<Rightarrow> killed)"

text \<open>What was done to the child: killed with its group and collected, collected alone, or nothing.\<close>

definition done_to :: "int \<Rightarrow> int \<Rightarrow> exec_result \<Rightarrow> parent_call list \<Rightarrow> bool" where
  "done_to pid rc r cs =
     (if rc \<noteq> 0 then cs = []
      else if er_cancelled r \<or> er_timed_out r
      then (\<exists>st. cs = [Kill (- pid) SIGKILL, Kill pid SIGKILL, Collected st] \<and> er_signal r = (case st of Signaled n \<Rightarrow> n | Exited _ \<Rightarrow> 0))
      else (\<exists>st. cs = [Collected st]))"

lemma wait_turn_told:
  assumes "sigkill_ends pid reaps" "wait_turn pid start deadline reaps p exec_result_0 = Returns rc r cs"
  shows "told deadline p rc r \<and> done_to pid rc r cs"
proof -
  obtain st where k: "kill_and_reap pid start reaps p exec_result_0 =
    Some (exec_result_0\<lparr>er_signal := (case st of Signaled n \<Rightarrow> n | Exited _ \<Rightarrow> 0), er_elapsed := po_end p - start\<rparr>,
          [Kill (- pid) SIGKILL, Kill pid SIGKILL, Collected st])"
    by (rule kill_and_reap_ends [OF assms(1)])
  show ?thesis
    using assms(2) unfolding wait_turn_def k Let_def option.case prod.case
    by (auto simp: told_def done_to_def child_ended_def exec_result_0_def Let_def split: wait_answer.splits child_status.splits if_splits)
qed

lemma env_loop_filter:
  "env_loop es env path =
     (let kept = filter (\<lambda>e. CHR ''='' \<in> set e \<and> child_env_keeps (env_name e)) es
      in (env @ kept, path \<or> (\<exists>e\<in>set kept. env_name e = ''PATH'')))"
  by (induction es env path rule: env_loop.induct) (auto simp: Let_def)

lemma child_environment_eq:
  "child_environment environ =
     (let kept = filter (\<lambda>e. CHR ''='' \<in> set e \<and> child_env_keeps (env_name e)) environ
      in kept @ (if (\<exists>e\<in>set kept. env_name e = ''PATH'') then [] else [kDefaultPath]))"
  unfolding child_environment_def env_loop_filter Let_def by (auto split: prod.split)

lemma default_path: "env_name kDefaultPath = ''PATH''" "child_env_keeps ''PATH''" "CHR ''='' \<in> set kDefaultPath"
  by (simp_all add: env_name_def kDefaultPath_def child_env_keeps_def kKeep_def)

lemma child_environment_keeps: "list_all (\<lambda>e. child_env_keeps (env_name e)) (child_environment environ)"
  by (auto simp: child_environment_eq Let_def list_all_iff default_path)

lemma child_environment_path: "\<exists>e\<in>set (child_environment environ). env_name e = ''PATH''"
proof (cases "\<exists>e\<in>set (filter (\<lambda>e. CHR ''='' \<in> set e \<and> child_env_keeps (env_name e)) environ). env_name e = ''PATH''")
  case True
  then show ?thesis by (simp only: child_environment_eq Let_def set_append bex_Un) simp
next
  case False
  then show ?thesis by (simp only: child_environment_eq Let_def set_append bex_Un if_False) (simp add: default_path)
qed

lemma prepare_child_limits:
  assumes "0 \<le> devnull"
  shows "\<exists>before. prepare_child_and_exec argv env timeout devnull = Setpgid # before @
    [Rlimit ''RLIMIT_CPU'' (child_cpu_limit timeout + 5) (child_cpu_limit timeout + 10), Rlimit ''RLIMIT_AS'' 268435456 268435456,
     Execvp argv env, ExitNow 127] \<and> list_all (\<lambda>c. \<forall>a e. c \<noteq> Execvp a e) before"
  using assms
  by (intro exI [of _ "[DefaultSignal ''SIGPIPE'', DefaultSignal ''SIGXFSZ'', UnblockAll, OpenDevnull, Dup2 devnull 0, Dup2 devnull 1, Dup2 devnull 2] @
    (if devnull > 2 then [CloseFd devnull] else [])"]) (simp add: prepare_child_and_exec_def)

lemma write_all_written: "write_all as sent body = Inr s \<Longrightarrow> s = sent @ body"
  by (induction as sent body rule: write_all.induct) (auto split: if_splits)

text \<open>What \<open>mkostemp\<close> promises: a C string that is the name of no file yet.\<close>

definition fresh_names :: "tmp_os \<Rightarrow> bool" where
  "fresh_names os = (\<forall>template names path. to_mkostemp os template names = Inr path \<longrightarrow> path \<notin> names \<and> CHR 0x00 \<notin> set path)"

definition tmp_name :: "tmp_os \<Rightarrow> string \<Rightarrow> bool" where
  "tmp_name os path = (\<exists>template names. to_mkostemp os template names = Inr path)"

lemma write_private_tmp_ok:
  assumes "fresh_names os" "write_private_tmp os pre body cap fs = (r, fs')"
  shows "case r of Inl _ \<Rightarrow> fs' = fs | Inr path \<Rightarrow> fs path = None \<and> CHR 0x00 \<notin> set path \<and> tmp_name os path \<and> fs' = fs(path \<mapsto> body)"
proof (cases pre)
  case (Some p)
  show ?thesis
  proof (cases "length (tmp_dir os @ ''/'' @ p @ ''XXXXXX'') \<ge> cap")
    case False
    let ?m = "to_mkostemp os (tmp_dir os @ ''/'' @ p @ ''XXXXXX'') (dom fs)"
    show ?thesis
    proof (cases ?m)
      case (Inr path)
      then have new: "fs path = None" "CHR 0x00 \<notin> set path" "tmp_name os path" using assms(1) by (auto simp: fresh_names_def tmp_name_def)
      then have "(fs(path \<mapsto> q))(path := None) = fs" for q by (auto intro!: ext)
      then show ?thesis using assms(2) Some False Inr new
        by (auto simp: write_private_tmp_def Let_def split: sum.splits dest: write_all_written)
    next
      case (Inl e)
      then have "r = Inl e \<and> fs' = fs" using assms(2) Some False by (simp add: write_private_tmp_def Let_def)
      then show ?thesis by simp
    qed
  qed (use assms(2) Some in \<open>auto simp: write_private_tmp_def Let_def\<close>)
qed (use assms(2) in \<open>auto simp: write_private_tmp_def\<close>)

section \<open>What it promises\<close>

text \<open>C35: A program is never waited for past its time, and its end is told as it was. With valid arguments, a fork that succeeds and a kernel in which \<open>SIGKILL\<close> ends a
  process, \<open>exec_command\<close> returns as soon as the clock has passed the deadline at a poll. It returned at the first poll with something to tell: before it the child
  was running, not cancelled and in time. A code of 0 without the flags means that the child ended by itself with that status or signal; \<open>cancelled\<close> that the flag was
  up; \<open>timed_out\<close> that it was not, and the deadline had passed. With one of these flags the child's group and the child were sent \<open>SIGKILL\<close> and then its status was
  collected, and the signal reported is the one it died of; without them no signal was sent to anything; and with the code 0 the status was collected once, so no zombie is left.\<close>

theorem exec_ends_in_time:
  assumes "0 < timeout" "ew_fork w = 0" "sigkill_ends (ew_pid w) (ew_reaps w)"
    and "late \<in> set (ew_polls w)" "ew_start w + timeout * 1000000000 \<le> po_now late"
  shows "\<exists>rc r calls cs before p after. exec_command w (Some (prog # args)) timeout (Some out) = Some (rc, Some r, calls, cs) \<and>
    ew_polls w = before @ p # after \<and> list_all (goes_on (ew_start w + timeout * 1000000000)) before \<and>
    told (ew_start w + timeout * 1000000000) p rc r \<and> done_to (ew_pid w) rc r cs"
proof -
  let ?d = "ew_start w + timeout * 1000000000"
  have "\<not> goes_on ?d late" using assms(5) by (simp add: goes_on_def)
  then obtain rc r cs where r: "wait_loop (ew_pid w) (ew_start w) ?d (ew_reaps w) (ew_polls w) exec_result_0 = Some (rc, r, cs)"
    using wait_loop_ends [OF assms(3,4)] by force
  then obtain before p after where p: "ew_polls w = before @ p # after" "list_all (goes_on ?d) before"
    "wait_turn (ew_pid w) (ew_start w) ?d (ew_reaps w) p exec_result_0 = Returns rc r cs" by (rule wait_loop_Some)
  have "exec_command w (Some (prog # args)) timeout (Some out) =
    Some (rc, Some r, prepare_child_and_exec (prog # args) (child_environment (ew_environ w)) timeout (ew_devnull w), cs)"
    using assms r by (simp add: exec_command_def wait_with_timeout_def)
  then show ?thesis using p(1,2) wait_turn_told [OF assms(3) p(3)] by blast
qed

text \<open>A run to look at: the program is still running when its second is over; the wait after the kill is interrupted once. Only a kill ends it.\<close>

definition run_example :: exec_world where
  "run_example = \<lparr>ew_environ = [''PATH=/bin'', ''SECRET=x'', ''LC_ALL=C''], ew_fork = 0, ew_pid = 42, ew_devnull = 7, ew_start = 0,
     ew_polls = [\<lparr>po_wait = StillRunning, po_cancel = False, po_now = 5, po_end = 5\<rparr>,
                 \<lparr>po_wait = StillRunning, po_cancel = False, po_now = 1000000001, po_end = 1000000002\<rparr>],
     ew_reaps = (\<lambda>calls. if Kill 42 SIGKILL \<in> set calls then [WaitFailed EINTR, Reaped (Signaled 9)] else [])\<rparr>"

lemma run_example_killed: "sigkill_ends (ew_pid run_example) (ew_reaps run_example)"
  unfolding sigkill_ends_def
  by (intro allI impI exI [of _ 1] exI [of _ "Signaled 9"] exI [of _ "[]"]) (simp add: run_example_def)

theorem exec_ends_in_time_witness:
  "\<exists>rc r calls cs. exec_command run_example (Some [''true'']) 1 (Some exec_result_0) = Some (rc, Some r, calls, cs) \<and> er_timed_out r \<and> er_signal r = 9"
proof -
  have "exec_command run_example (Some [''true'']) 1 (Some exec_result_0) \<noteq> None"
    using exec_ends_in_time [OF _ _ run_example_killed, of 1 "ew_polls run_example ! 1" "''true''" "[]" exec_result_0] by (auto simp: run_example_def)
  then show ?thesis
    by (auto simp: exec_command_def run_example_def wait_with_timeout_def wait_turn_def kill_and_reap_def exec_result_0_def)
qed

text \<open>A program gets none of the daemon's secrets and is bounded: what the child executes is the command given, with the process group of its own, the limits of processor time and
  memory set before, and an environment of only the listed variables, in which there is always a \<open>PATH\<close>.\<close>

theorem exec_child_confined:
  assumes "exec_command w argv timeout out = Some (rc, r, calls, cs)" "Execvp argv' env \<in> set calls"
  shows "argv = Some argv' \<and> argv' \<noteq> [] \<and> list_all (\<lambda>e. child_env_keeps (env_name e)) env \<and> (\<exists>e\<in>set env. env_name e = ''PATH'') \<and>
    (\<exists>before. calls = Setpgid # before @
       [Rlimit ''RLIMIT_CPU'' (timeout + 5) (timeout + 10), Rlimit ''RLIMIT_AS'' 268435456 268435456, Execvp argv' env, ExitNow 127] \<and>
       list_all (\<lambda>c. \<forall>a e. c \<noteq> Execvp a e) before)"
proof -
  have c: "argv = Some (the argv)" "the argv \<noteq> []" "0 < timeout"
    "calls = prepare_child_and_exec (the argv) (child_environment (ew_environ w)) timeout (ew_devnull w)"
    using assms by (auto simp: exec_command_def Let_def split: if_splits)
  have d: "0 \<le> ew_devnull w" using assms(2) unfolding c(4) by (auto simp: prepare_child_and_exec_def split: if_splits)
  have "argv' = the argv" "env = child_environment (ew_environ w)"
    using assms(2) unfolding c(4) by (auto simp: prepare_child_and_exec_def split: if_splits)
  then show ?thesis
    using c prepare_child_limits [OF d, of "the argv" "child_environment (ew_environ w)" timeout] child_environment_keeps child_environment_path
    by (simp add: child_cpu_limit_def)
qed

theorem exec_child_confined_witness:
  "child_environment (ew_environ run_example) = [''PATH=/bin'', ''LC_ALL=C''] \<and> list_all (\<lambda>e. child_env_keeps (env_name e)) [''PATH=/bin'', ''LC_ALL=C'']"
proof -
  have env: "child_environment (ew_environ run_example) = [''PATH=/bin'', ''LC_ALL=C'']"
    by (simp add: child_environment_def run_example_def env_name_def child_env_keeps_def kKeep_def)
  obtain rc r calls cs where "exec_command run_example (Some [''true'']) 1 (Some exec_result_0) = Some (rc, r, calls, cs)"
    "Execvp [''true''] [''PATH=/bin'', ''LC_ALL=C''] \<in> set calls"
    using env by (auto simp: exec_command_def run_example_def wait_with_timeout_def wait_turn_def kill_and_reap_def prepare_child_and_exec_def)
  from exec_child_confined [OF this] env show ?thesis by simp
qed

end
