(* ===== verification/Worker.thy ===== *)
theory Worker
  imports Text "HOL-Library.Sublist"
begin

text \<open>
  The background worker of the rules' actions (\<open>src/rules/worker.h\<close>, \<open>src/rules/worker.cpp\<close>): one thread with
  a bounded queue of jobs. What each of the three threads involved does under the lock (the tick that posts, the
  worker, the one that stops it) is a function; their interleaving is a step relation. The worker's wait on the condition variable \<open>cv_\<close> is a
  state: in the wait set it does nothing until a notification (or a wake-up without one) takes it out, and then it looks at the condition again. The
  wait of \<open>stop\<close> for an idle worker ends at any time, by its time limit. The counters are natural
  numbers: none reaches \<open>2^64\<close> in the life of a daemon. A job is any value; that it runs to its end is a step of its own.
  Proved, for every interleaving: accepted jobs run once each, in the order of their acceptance; those that do
  not run are the last ones, and every one of them is counted as dropped; the queue keeps its bound; no wake-up is lost, a worker that has
  something to do is never left in the wait set; and once \<open>stop\<close> has told the worker to end, it cannot be held up: it returns after at most four more steps.
\<close>

section \<open>What each thread does under the lock\<close>

record 'j worker =
  wk_name :: string
  wk_capacity :: nat
  wk_queue :: "'j list"
  wk_busy :: bool
  wk_stopping :: bool
  wk_started :: bool
  wk_cancel :: bool
  wk_completed :: nat
  wk_dropped :: nat
  wk_log :: "string list"

definition worker_new :: "string option \<Rightarrow> nat \<Rightarrow> 'j worker" where
  "worker_new name capacity =
     \<lparr>wk_name = (case name of None \<Rightarrow> ''worker'' | Some n \<Rightarrow> n), wk_capacity = (if capacity > 0 then capacity else 1),
      wk_queue = [], wk_busy = False, wk_stopping = False, wk_started = False, wk_cancel = False, wk_completed = 0,
      wk_dropped = 0, wk_log = []\<rparr>"

definition drop_job :: "string \<Rightarrow> 'j worker \<Rightarrow> 'j worker" where
  "drop_job reason w0 =
     (let w = w0\<lparr>wk_dropped := wk_dropped w0 + 1\<rparr>
      in if wk_dropped w = 1 \<or> wk_dropped w mod 100 = 0
         then w\<lparr>wk_log := wk_log w @ [''budyk '' @ wk_name w @ '': '' @ reason @ '', dropping job ('' @ digits (wk_dropped w) @ '' dropped so far)'' @ [CHR 0x0A]]\<rparr>
         else w)"

text \<open>\<open>rc\<close>: what \<open>pthread_create\<close> answers when it is called.\<close>

definition worker_post :: "(errno \<Rightarrow> string) \<Rightarrow> errno \<Rightarrow> 'j worker \<Rightarrow> 'j \<Rightarrow> bool \<times> 'j worker" where
  "worker_post strerror rc w job =
     (if wk_stopping w \<or> length (wk_queue w) \<ge> wk_capacity w
      then (False, drop_job (if wk_stopping w then ''stopped'' else ''queue full'') w)
      else if \<not> wk_started w \<and> rc \<noteq> 0 then (False, drop_job (''cannot start its thread: '' @ strerror rc) w)
      else (True, w\<lparr>wk_started := True, wk_queue := wk_queue w @ [job]\<rparr>))"

text \<open>The worker wakes: it ends (\<open>None\<close>), or takes a job.\<close>

definition worker_wakes :: "'j worker \<Rightarrow> bool" where
  "worker_wakes w = (wk_queue w \<noteq> [] \<or> wk_stopping w)"

definition worker_take :: "'j worker \<Rightarrow> 'j option \<times> 'j worker" where
  "worker_take w =
     (if wk_stopping w \<and> (wk_queue w = [] \<or> wk_cancel w)
      then (None, w\<lparr>wk_dropped := wk_dropped w + length (wk_queue w), wk_queue := []\<rparr>)
      else (Some (hd (wk_queue w)), w\<lparr>wk_queue := tl (wk_queue w), wk_busy := True\<rparr>))"

definition worker_done :: "'j worker \<Rightarrow> 'j worker" where
  "worker_done w = w\<lparr>wk_busy := False, wk_completed := wk_completed w + 1\<rparr>"

definition worker_idle :: "'j worker \<Rightarrow> bool" where
  "worker_idle w = (wk_queue w = [] \<and> \<not> wk_busy w)"

text \<open>\<open>stop\<close>, its two locked sections; the first tells whether there is anything to wait for.\<close>

definition stop_begin :: "'j worker \<Rightarrow> bool \<times> 'j worker" where
  "stop_begin w =
     (if \<not> wk_started w then (False, w\<lparr>wk_stopping := True\<rparr>) else if wk_stopping w then (False, w) else (True, w))"

definition stop_set :: "'j worker \<Rightarrow> nat \<times> 'j worker" where
  "stop_set w =
     (let w = w\<lparr>wk_stopping := True\<rparr>; left = length (wk_queue w) + (if wk_busy w then 1 else 0)
      in (left, if left > 0 then w\<lparr>wk_cancel := True\<rparr> else w))"

definition stop_report :: "nat \<Rightarrow> 'j worker \<Rightarrow> 'j worker" where
  "stop_report left w =
     (if left > 0 then w\<lparr>wk_log := wk_log w @ [''budyk '' @ wk_name w @ '': stopped with '' @ digits left @ '' job(s) unfinished'' @ [CHR 0x0A]]\<rparr> else w)"

section \<open>The threads together\<close>

text \<open>
  Where the stopping thread is: not called, waiting for the queue to run dry, past its second locked section and about to notify (with the jobs it
  found left), joining, returned. \<open>sy_waiting\<close>: the worker's thread is in the wait set of \<open>cv_\<close>.
  The rest is history: the jobs accepted, those that ran to their end, those dropped from the queue, the number refused.
\<close>

datatype stop_phase = NotStopped | Waiting | Notifying nat | Joining nat | Stopped

record 'j worker_sys =
  sy_worker :: "'j worker"
  sy_job :: "'j option"
  sy_waiting :: bool
  sy_exited :: bool
  sy_stop :: stop_phase
  sy_accepted :: "'j list"
  sy_ran :: "'j list"
  sy_discarded :: "'j list"
  sy_refused :: nat

definition sys_new :: "string option \<Rightarrow> nat \<Rightarrow> 'j worker_sys" where
  "sys_new name capacity =
     \<lparr>sy_worker = worker_new name capacity, sy_job = None, sy_waiting = False, sy_exited = False, sy_stop = NotStopped, sy_accepted = [], sy_ran = [],
      sy_discarded = [], sy_refused = 0\<rparr>"

text \<open>The worker looks at the condition of its wait: its thread runs, is not in the wait set, and has no job.\<close>

definition looks :: "'j worker_sys \<Rightarrow> bool" where
  "looks s = (wk_started (sy_worker s) \<and> \<not> sy_exited s \<and> \<not> sy_waiting s \<and> sy_job s = None)"

text \<open>\<open>notify_one\<close> and \<open>notify_all\<close> of \<open>cv_\<close>, on which only the worker waits.\<close>

definition notify :: "'j worker_sys \<Rightarrow> 'j worker_sys" where
  "notify s = s\<lparr>sy_waiting := False\<rparr>"

text \<open>What the worker and the stopping thread do by themselves once \<open>stop\<close> is past its wait.\<close>

inductive worker_step :: "'j worker_sys \<Rightarrow> 'j worker_sys \<Rightarrow> bool" where
  takes: "looks s \<Longrightarrow> worker_wakes (sy_worker s) \<Longrightarrow> worker_take (sy_worker s) = (Some j, w) \<Longrightarrow>
    worker_step s (s\<lparr>sy_worker := w, sy_job := Some j\<rparr>)"
| exits: "looks s \<Longrightarrow> worker_wakes (sy_worker s) \<Longrightarrow> worker_take (sy_worker s) = (None, w) \<Longrightarrow>
    worker_step s (s\<lparr>sy_worker := w, sy_exited := True, sy_discarded := sy_discarded s @ wk_queue (sy_worker s)\<rparr>)"
| sleeps: "looks s \<Longrightarrow> \<not> worker_wakes (sy_worker s) \<Longrightarrow> worker_step s (s\<lparr>sy_waiting := True\<rparr>)"
| finishes: "sy_job s = Some j \<Longrightarrow> worker_step s (s\<lparr>sy_worker := worker_done (sy_worker s), sy_job := None, sy_ran := sy_ran s @ [j]\<rparr>)"
| notifies: "sy_stop s = Notifying left \<Longrightarrow> worker_step s ((notify s)\<lparr>sy_stop := Joining left\<rparr>)"
| joins: "sy_stop s = Joining left \<Longrightarrow> sy_exited s \<Longrightarrow>
    worker_step s (s\<lparr>sy_worker := stop_report left (sy_worker s), sy_stop := Stopped\<rparr>)"

text \<open>All that can happen: the above, a wake-up without a notification, a post, and the two locked parts of a stop (its wait may end at any time, with
  the queue dry or not).\<close>

inductive sys_step :: "'j worker_sys \<Rightarrow> 'j worker_sys \<Rightarrow> bool" where
  internal: "worker_step s t \<Longrightarrow> sys_step s t"
| spurious: "sy_waiting s \<Longrightarrow> sys_step s (s\<lparr>sy_waiting := False\<rparr>)"
| accepts: "worker_post se rc (sy_worker s) j = (True, w) \<Longrightarrow> sys_step s ((notify s)\<lparr>sy_worker := w, sy_accepted := sy_accepted s @ [j]\<rparr>)"
| refuses: "worker_post se rc (sy_worker s) j = (False, w) \<Longrightarrow> sys_step s (s\<lparr>sy_worker := w, sy_refused := sy_refused s + 1\<rparr>)"
| stop_waits: "sy_stop s = NotStopped \<Longrightarrow> stop_begin (sy_worker s) = (True, w) \<Longrightarrow> sys_step s (s\<lparr>sy_worker := w, sy_stop := Waiting\<rparr>)"
| stop_unstarted: "sy_stop s = NotStopped \<Longrightarrow> stop_begin (sy_worker s) = (False, w) \<Longrightarrow> sys_step s (s\<lparr>sy_worker := w, sy_stop := Stopped\<rparr>)"
| stop_sets: "sy_stop s = Waiting \<Longrightarrow> stop_set (sy_worker s) = (left, w) \<Longrightarrow> sys_step s (s\<lparr>sy_worker := w, sy_stop := Notifying left\<rparr>)"

definition reached :: "string option \<Rightarrow> nat \<Rightarrow> 'j worker_sys \<Rightarrow> bool" where
  "reached name capacity s = sys_step\<^sup>*\<^sup>* (sys_new name capacity) s"

inductive_cases worker_stepE: "worker_step s t"
inductive_cases sys_stepE: "sys_step s t"

section \<open>The invariant\<close>

abbreviation running :: "'j worker_sys \<Rightarrow> 'j list" where
  "running s \<equiv> (case sy_job s of None \<Rightarrow> [] | Some j \<Rightarrow> [j])"

definition jobs_ok :: "'j worker_sys \<Rightarrow> bool" where
  "jobs_ok s =
     (sy_accepted s = sy_ran s @ running s @ wk_queue (sy_worker s) @ sy_discarded s \<and>
      wk_completed (sy_worker s) = length (sy_ran s) \<and> wk_dropped (sy_worker s) = sy_refused s + length (sy_discarded s) \<and>
      length (wk_queue (sy_worker s)) \<le> wk_capacity (sy_worker s) \<and> wk_busy (sy_worker s) = (sy_job s \<noteq> None))"

definition stop_ok :: "'j worker_sys \<Rightarrow> bool" where
  "stop_ok s =
     (wk_stopping (sy_worker s) = (sy_stop s \<notin> {NotStopped, Waiting}) \<and>
      (sy_exited s \<longrightarrow> wk_stopping (sy_worker s) \<and> sy_job s = None \<and> wk_queue (sy_worker s) = []) \<and>
      (\<not> sy_exited s \<longrightarrow> sy_discarded s = []) \<and>
      (\<not> wk_started (sy_worker s) \<longrightarrow> \<not> sy_exited s \<and> sy_job s = None \<and> wk_queue (sy_worker s) = [] \<and> sy_stop s \<in> {NotStopped, Stopped}) \<and>
      (sy_stop s = Stopped \<longrightarrow> sy_exited s \<or> \<not> wk_started (sy_worker s)) \<and>
      (wk_cancel (sy_worker s) \<longrightarrow> wk_stopping (sy_worker s)) \<and>
      (wk_stopping (sy_worker s) \<and> \<not> wk_cancel (sy_worker s) \<longrightarrow> sy_job s = None \<and> wk_queue (sy_worker s) = [] \<and> sy_discarded s = []))"

text \<open>No lost wake-up: in the wait set there is nothing to do, or a notification is on its way.\<close>

definition wait_ok :: "'j worker_sys \<Rightarrow> bool" where
  "wait_ok s =
     (sy_waiting s \<longrightarrow> wk_started (sy_worker s) \<and> \<not> sy_exited s \<and> sy_job s = None \<and> wk_queue (sy_worker s) = [] \<and>
        (\<not> wk_stopping (sy_worker s) \<or> (\<exists>left. sy_stop s = Notifying left)))"

lemma drop_job_fields [simp]:
  "wk_queue (drop_job r w) = wk_queue w" "wk_stopping (drop_job r w) = wk_stopping w" "wk_started (drop_job r w) = wk_started w"
  "wk_cancel (drop_job r w) = wk_cancel w" "wk_completed (drop_job r w) = wk_completed w" "wk_busy (drop_job r w) = wk_busy w"
  "wk_dropped (drop_job r w) = wk_dropped w + 1" "wk_capacity (drop_job r w) = wk_capacity w"
  by (simp_all add: drop_job_def Let_def)

lemma stop_report_fields [simp]:
  "wk_queue (stop_report n w) = wk_queue w" "wk_stopping (stop_report n w) = wk_stopping w" "wk_started (stop_report n w) = wk_started w"
  "wk_cancel (stop_report n w) = wk_cancel w" "wk_completed (stop_report n w) = wk_completed w" "wk_busy (stop_report n w) = wk_busy w"
  "wk_dropped (stop_report n w) = wk_dropped w" "wk_capacity (stop_report n w) = wk_capacity w"
  by (simp_all add: stop_report_def)

lemmas worker_ops = looks_def notify_def worker_post_def worker_take_def worker_done_def worker_wakes_def stop_begin_def stop_set_def Let_def

lemma worker_step_ok: "worker_step s t \<Longrightarrow> jobs_ok s \<Longrightarrow> stop_ok s \<Longrightarrow> jobs_ok t \<and> stop_ok t"
proof (induction rule: worker_step.induct)
  case (takes s j w)
  then have s: "sy_job s = None" "wk_queue (sy_worker s) \<noteq> []" "\<not> (wk_stopping (sy_worker s) \<and> wk_cancel (sy_worker s))" "\<not> sy_exited s"
    "wk_started (sy_worker s)" "j = hd (wk_queue (sy_worker s))" "w = (sy_worker s)\<lparr>wk_queue := tl (wk_queue (sy_worker s)), wk_busy := True\<rparr>"
    by (auto simp: looks_def worker_wakes_def worker_take_def split: if_splits)
  then obtain q where "wk_queue (sy_worker s) = j # q" by (cases "wk_queue (sy_worker s)") auto
  then show ?case using takes.prems s by (simp add: jobs_ok_def stop_ok_def) auto
next
  case (exits s w)
  then have "sy_job s = None" "wk_stopping (sy_worker s)" "wk_started (sy_worker s)" "\<not> sy_exited s"
    "w = (sy_worker s)\<lparr>wk_dropped := wk_dropped (sy_worker s) + length (wk_queue (sy_worker s)), wk_queue := []\<rparr>"
    by (auto simp: looks_def worker_take_def split: if_splits)
  then show ?case using exits.prems by (simp add: jobs_ok_def stop_ok_def)
next
  case (sleeps s)
  then show ?case by (simp add: jobs_ok_def stop_ok_def) auto
next
  case (finishes s j)
  then show ?case by (simp add: jobs_ok_def stop_ok_def worker_done_def) auto
next
  case (notifies s left)
  then show ?case by (simp add: jobs_ok_def stop_ok_def notify_def)
next
  case (joins s left)
  then show ?case by (simp add: jobs_ok_def stop_ok_def)
qed

lemma worker_step_wait: "worker_step s t \<Longrightarrow> stop_ok s \<Longrightarrow> wait_ok s \<Longrightarrow> wait_ok t"
proof (induction rule: worker_step.induct)
  case (sleeps s)
  then show ?case by (simp add: wait_ok_def looks_def worker_wakes_def)
next
  case (joins s left)
  then show ?case by (auto simp: wait_ok_def)
next
  case (finishes s j)
  then show ?case by (simp add: wait_ok_def worker_done_def)
next
  case (notifies s left)
  then show ?case by (simp add: wait_ok_def notify_def)
qed (simp_all add: wait_ok_def looks_def)

lemma sys_step_ok: "sys_step s t \<Longrightarrow> jobs_ok s \<Longrightarrow> stop_ok s \<Longrightarrow> jobs_ok t \<and> stop_ok t"
proof (induction rule: sys_step.induct)
  case (internal s t)
  then show ?case using worker_step_ok by blast
next
  case (spurious s)
  then show ?case by (auto simp: jobs_ok_def stop_ok_def)
next
  case (accepts se rc s j w)
  then have w: "\<not> wk_stopping (sy_worker s)" "length (wk_queue (sy_worker s)) < wk_capacity (sy_worker s)"
    "w = (sy_worker s)\<lparr>wk_started := True, wk_queue := wk_queue (sy_worker s) @ [j]\<rparr>"
    by (auto simp: worker_post_def split: if_splits)
  have "sy_discarded s = []" "sy_stop s \<in> {NotStopped, Waiting}" "\<not> sy_exited s" "\<not> wk_cancel (sy_worker s)"
    using accepts.prems(2) w(1) by (auto simp: stop_ok_def)
  then show ?case using accepts.prems w by (auto simp: jobs_ok_def stop_ok_def notify_def)
next
  case (refuses se rc s j w)
  then obtain r where "w = drop_job r (sy_worker s)" by (auto simp: worker_post_def split: if_splits)
  then show ?case using refuses.prems by (auto simp: jobs_ok_def stop_ok_def)
next
  case (stop_waits s w)
  then show ?case by (auto simp: stop_begin_def jobs_ok_def stop_ok_def split: if_splits)
next
  case (stop_unstarted s w)
  then have "w = (sy_worker s)\<lparr>wk_stopping := True\<rparr>" "\<not> wk_started (sy_worker s)"
    by (auto simp: stop_begin_def stop_ok_def split: if_splits)
  then show ?case using stop_unstarted by (simp add: jobs_ok_def stop_ok_def)
next
  case (stop_sets s left w)
  then show ?case by (cases "sy_job s") (auto simp: stop_set_def jobs_ok_def stop_ok_def Let_def split: if_splits)
qed

lemma sys_step_wait: "sys_step s t \<Longrightarrow> stop_ok s \<Longrightarrow> wait_ok s \<Longrightarrow> wait_ok t"
proof (induction rule: sys_step.induct)
  case (internal s t)
  then show ?case using worker_step_wait by blast
next
  case (refuses se rc s j w)
  then obtain r where "w = drop_job r (sy_worker s)" by (auto simp: worker_post_def split: if_splits)
  then show ?case using refuses.prems by (auto simp: wait_ok_def)
qed (auto simp: wait_ok_def stop_ok_def worker_ops split: if_splits)

lemma reached_ok: "reached name capacity s \<Longrightarrow> jobs_ok s \<and> stop_ok s \<and> wait_ok s"
  unfolding reached_def
proof (induction rule: rtranclp_induct)
  case base
  show ?case by (simp add: jobs_ok_def stop_ok_def wait_ok_def sys_new_def worker_new_def)
next
  case (step s t)
  then show ?case using sys_step_ok sys_step_wait by blast
qed

section \<open>What it promises\<close>

text \<open>C28: No accepted job is lost or reordered, whatever the threads do and in whatever order: at any moment the jobs that ran are the first ones accepted, in
  that order, each once, and as many as were counted as completed; the queue is within its bound; and once \<open>stop\<close> has returned
  nothing is running or waiting, every accepted job that did not run is one of those counted as dropped, and none was
  dropped from the queue unless the cancel flag was raised.\<close>

theorem worker_loses_nothing:
  assumes "reached name capacity s"
  shows "prefix (sy_ran s) (sy_accepted s) \<and> wk_completed (sy_worker s) = length (sy_ran s) \<and>
    length (wk_queue (sy_worker s)) \<le> wk_capacity (sy_worker s) \<and>
    (sy_stop s = Stopped \<longrightarrow> sy_job s = None \<and> wk_queue (sy_worker s) = [] \<and>
       wk_dropped (sy_worker s) = sy_refused s + (length (sy_accepted s) - length (sy_ran s)) \<and>
       (\<not> wk_cancel (sy_worker s) \<longrightarrow> sy_ran s = sy_accepted s))"
proof -
  have j: "jobs_ok s" and st: "stop_ok s" using reached_ok [OF assms] by auto
  have "sy_job s = None \<and> wk_queue (sy_worker s) = []" if "sy_stop s = Stopped" using st that by (auto simp: stop_ok_def)
  moreover have "sy_discarded s = []" if "sy_stop s = Stopped" "\<not> wk_cancel (sy_worker s)" using st that by (auto simp: stop_ok_def)
  ultimately show ?thesis using j by (auto simp: jobs_ok_def)
qed

lemma sys_steps: "reached name capacity s \<Longrightarrow> sys_step s t \<Longrightarrow> reached name capacity t"
  unfolding reached_def by (rule rtranclp.rtrancl_into_rtrancl)

text \<open>A state to look at: two jobs posted, none started, a stop whose wait has run out.\<close>

definition two_posted :: "nat worker_sys" where
  "two_posted = (sys_new None 2)\<lparr>sy_worker := (worker_new None 2)\<lparr>wk_started := True, wk_queue := [7, 8]\<rparr>, sy_accepted := [7, 8]\<rparr>"

definition two_stopping :: "nat worker_sys" where
  "two_stopping = two_posted\<lparr>sy_worker := snd (stop_set (sy_worker two_posted)), sy_stop := Notifying 2\<rparr>"

lemma two_stopping_reached: "reached None 2 two_stopping"
proof -
  let ?one = "(sys_new None 2)\<lparr>sy_worker := (worker_new None 2)\<lparr>wk_started := True, wk_queue := [7]\<rparr>, sy_accepted := [7]\<rparr> :: nat worker_sys"
  have "reached None 2 (sys_new None 2)" by (simp add: reached_def)
  moreover have "sys_step (sys_new None 2) ?one"
    using sys_step.accepts [of "\<lambda>_. []" 0 "sys_new None 2" 7] by (simp add: worker_post_def sys_new_def worker_new_def notify_def)
  moreover have "sys_step ?one two_posted"
    using sys_step.accepts [of "\<lambda>_. []" 0 ?one 8] by (simp add: worker_post_def sys_new_def worker_new_def two_posted_def notify_def)
  moreover have "sys_step two_posted (two_posted\<lparr>sy_stop := Waiting\<rparr>)"
    using sys_step.stop_waits [of two_posted "sy_worker two_posted"] by (simp add: stop_begin_def two_posted_def sys_new_def worker_new_def)
  moreover have "sys_step (two_posted\<lparr>sy_stop := Waiting\<rparr>) two_stopping"
    using sys_step.stop_sets [of "two_posted\<lparr>sy_stop := Waiting\<rparr>" 2 "snd (stop_set (sy_worker two_posted))"]
    by (simp add: stop_set_def two_stopping_def two_posted_def sys_new_def worker_new_def)
  ultimately show ?thesis by (meson sys_steps)
qed

theorem worker_loses_nothing_witness: "prefix [] [7, 8::nat] \<and> length (wk_queue (sy_worker two_stopping)) \<le> 2"
  using worker_loses_nothing [OF two_stopping_reached]
  by (simp add: two_stopping_def two_posted_def stop_set_def sys_new_def worker_new_def)

text \<open>How far \<open>stop\<close> is from its return once it has set the worker to end: the notification, the running job, the end of the thread, the join.\<close>

definition stop_measure :: "'j worker_sys \<Rightarrow> nat" where
  "stop_measure s =
     (case sy_stop s of Stopped \<Rightarrow> 0 | Notifying _ \<Rightarrow> 2 | _ \<Rightarrow> 1) + (if sy_exited s then 0 else 1) + (if sy_job s = None then 0 else 1)"

definition ending :: "'j worker_sys \<Rightarrow> nat \<Rightarrow> bool" where
  "ending s left = (sy_stop s = Notifying left \<or> sy_stop s = Joining left)"

lemma stopping_progress:
  assumes "jobs_ok s" "stop_ok s" "wait_ok s" "ending s left"
  shows "\<exists>t. worker_step s t"
proof (cases "sy_stop s = Notifying left")
  case True
  show ?thesis by (rule exI, rule worker_step.notifies [OF True])
next
  case False
  then have joining: "sy_stop s = Joining left" using assms(4) by (simp add: ending_def)
  show ?thesis
  proof (cases "sy_job s")
    case (Some j)
    show ?thesis by (rule exI, rule worker_step.finishes [OF Some])
  next
    case None
    show ?thesis
    proof (cases "sy_exited s")
      case True
      show ?thesis by (rule exI, rule worker_step.joins [OF joining True])
    next
      case False
      have st: "wk_stopping (sy_worker s)" "wk_started (sy_worker s)" "wk_queue (sy_worker s) = [] \<or> wk_cancel (sy_worker s)"
        using assms(2) joining by (auto simp: stop_ok_def)
      then have "looks s" using assms(3) joining False None by (auto simp: looks_def wait_ok_def)
      moreover have "worker_wakes (sy_worker s)"
        "worker_take (sy_worker s) = (None, (sy_worker s)\<lparr>wk_dropped := wk_dropped (sy_worker s) + length (wk_queue (sy_worker s)), wk_queue := []\<rparr>)"
        using st by (auto simp: worker_wakes_def worker_take_def)
      ultimately show ?thesis by - (rule exI, erule worker_step.exits, assumption+)
    qed
  qed
qed

lemma stopping_decreases:
  assumes "worker_step s t" "stop_ok s" "ending s left"
  shows "stop_measure t < stop_measure s \<and> (sy_stop t = Stopped \<or> ending t left) \<and> (sy_job t = None \<or> sy_job t = sy_job s)"
  using assms
proof (induction rule: worker_step.induct)
  case (takes s j w)
  then show ?case by (auto simp: stop_ok_def ending_def looks_def worker_take_def split: if_splits)
next
  case (sleeps s)
  then show ?case by (auto simp: stop_ok_def ending_def worker_wakes_def)
qed (auto simp: stop_measure_def ending_def notify_def looks_def)

lemma stopping_undisturbed:
  assumes "sys_step s t" "stop_ok s" "ending s left"
  shows "stop_measure t \<le> stop_measure s"
  using assms
proof (induction rule: sys_step.induct)
  case (internal s t)
  then show ?case using stopping_decreases less_imp_le by blast
next
  case (accepts se rc s j w)
  then show ?case by (auto simp: stop_ok_def ending_def worker_post_def split: if_splits)
qed (auto simp: stop_measure_def ending_def)

text \<open>C29: A stop cannot hang on the worker: once \<open>stop\<close> has set it to end, whatever has happened before and wherever the worker's thread is, in the wait set of its
  condition variable included, the threads can always go on until \<open>stop\<close> returns, and every step of theirs brings the return nearer: after at most four steps
  (the notification, the running job ends, the thread ends, the join) it has returned, and nothing another thread does (a post, a wake-up without a notification) sets it back. No job is started any more. And before that no wake-up is lost: a
  worker in the wait set has nothing in its queue.\<close>

theorem worker_stops:
  assumes "reached name capacity s"
  shows "(sy_waiting s \<longrightarrow> wk_queue (sy_worker s) = [] \<and> (\<not> wk_stopping (sy_worker s) \<or> (\<exists>left. sy_stop s = Notifying left))) \<and>
    (sy_stop s = Notifying left \<or> sy_stop s = Joining left \<longrightarrow>
      stop_measure s \<le> 4 \<and> (\<exists>t. worker_step s t) \<and>
      (\<forall>t. worker_step s t \<longrightarrow> stop_measure t < stop_measure s \<and> (sy_stop t = Stopped \<or> sy_stop t = Notifying left \<or> sy_stop t = Joining left) \<and>
         (sy_job t = None \<or> sy_job t = sy_job s) \<and> reached name capacity t) \<and>
      (\<forall>t. sys_step s t \<longrightarrow> stop_measure t \<le> stop_measure s))"
proof -
  have ok: "jobs_ok s" "stop_ok s" "wait_ok s" using reached_ok [OF assms(1)] by auto
  have "reached name capacity t" if "worker_step s t" for t
    using assms(1) that sys_step.internal unfolding reached_def by (meson rtranclp.rtrancl_into_rtrancl)
  moreover have "stop_measure s \<le> 4" by (simp add: stop_measure_def split: stop_phase.split)
  ultimately show ?thesis using stopping_progress [OF ok] stopping_decreases [OF _ ok(2)] stopping_undisturbed [OF _ ok(2)] ok(3)
    unfolding ending_def [symmetric] by (auto simp: wait_ok_def)
qed

theorem worker_stops_witness: "stop_measure two_stopping = 3 \<and> (\<exists>t. worker_step two_stopping t)"
proof -
  have "sy_stop two_stopping = Notifying 2" by (simp add: two_stopping_def)
  then show ?thesis using worker_stops [OF two_stopping_reached, of 2]
    by (simp add: stop_measure_def) (simp add: two_stopping_def two_posted_def sys_new_def)
qed

end
