(* ===== verification/Alert.thy ===== *)
theory Alert
  imports Exec_Action Worker Json_Body Sha1_Base64 Http_Util
begin

text \<open>
  Alert delivery (\<open>src/rules/alert.h\<close>, \<open>src/rules/alert.cpp\<close>): the messages of the five kinds of channel, the run of \<open>curl\<close>
  that sends one, and the dispatcher that queues an alert for its worker thread. A rule's name and message are anyone's bytes (a
  process name, a mount point). Temporary files are a map from paths to contents; the program \<open>curl\<close> is an argument, a function from its command
  line and the files to the files it leaves; how its run ends is given as in \<open>Exec_Action\<close>. Proved: no name or message can add a header, a line of the mail's head, an option of \<open>curl\<close> or a field; what
  the receiver decodes is the text; secrets and contents never reach a command line, and no temporary file stays behind; every
  channel of an alert is counted exactly once.
\<close>

section \<open>Text helpers\<close>

definition hex_upper :: "nat \<Rightarrow> char" where
  "hex_upper d = char_of (if d < 10 then 48 + d else 55 + d)"

definition unreserved :: "char \<Rightarrow> bool" where
  "unreserved ch =
     (let c = of_char ch :: nat
      in 65 \<le> c \<and> c \<le> 90 \<or> 97 \<le> c \<and> c \<le> 122 \<or> 48 \<le> c \<and> c \<le> 57 \<or> ch \<in> {CHR ''-'', CHR ''_'', CHR ''.'', CHR ''~''})"

fun url_encode :: "string \<Rightarrow> string" where
  "url_encode [] = []"
| "url_encode (ch # s) =
     (if unreserved ch then [ch]
      else if ch = CHR '' '' then ''+''
      else [CHR ''%'', hex_upper (of_char ch div 16), hex_upper (of_char ch mod 16)]) @ url_encode s"

definition control_char :: "char \<Rightarrow> bool" where
  "control_char c = ((of_char c :: nat) < 0x20 \<or> (of_char c :: nat) = 0x7F)"

fun first_line_loop :: "string \<Rightarrow> string \<Rightarrow> string" where
  "first_line_loop out [] = out"
| "first_line_loop out (c # cs) =
     (if c = CHR 0x0A then out
      else let out = out @ [if control_char c then CHR '' '' else c]
           in if length out \<ge> 200 then out @ ''...'' else first_line_loop out cs)"

definition first_line :: "string \<Rightarrow> string" where
  "first_line text_arg = rev (dropWhile (\<lambda>c. c = CHR '' '') (rev (first_line_loop [] text_arg)))"

definition config_char :: "char \<Rightarrow> string" where
  "config_char c =
     (if c = bslash then [bslash, bslash] else if c = quot then [bslash, quot]
      else if c = CHR 0x0A then [bslash, CHR ''n''] else if c = CHR 0x0D then [bslash, CHR ''r'']
      else if c = CHR 0x09 then [bslash, CHR ''t''] else [c])"

definition config_line :: "string \<Rightarrow> string \<Rightarrow> string" where
  "config_line key val = key @ '' = '' @ [quot] @ concat (map config_char val) @ [quot, CHR 0x0A]"

definition curl_config :: "string \<Rightarrow> string \<Rightarrow> string" where
  "curl_config url user_pass =
     config_line ''url'' (c_str url) @ (if user_pass \<noteq> [] then config_line ''user'' user_pass else [])"

section \<open>Severities and headers\<close>

datatype alert_severity = Info | Warning | Critical

definition severity_color :: "alert_severity \<Rightarrow> string" where
  "severity_color s = (case s of Info \<Rightarrow> ''3447003'' | Warning \<Rightarrow> ''16753920'' | Critical \<Rightarrow> ''15158332'')"

definition ntfy_priority :: "alert_severity \<Rightarrow> string" where
  "ntfy_priority s = (case s of Info \<Rightarrow> ''3'' | Warning \<Rightarrow> ''4'' | Critical \<Rightarrow> ''5'')"

definition severity_name :: "alert_severity \<Rightarrow> string" where
  "severity_name s = (case s of Info \<Rightarrow> ''info'' | Warning \<Rightarrow> ''warning'' | Critical \<Rightarrow> ''critical'')"

definition parse_severity :: "string option \<Rightarrow> alert_severity option" where
  "parse_severity s =
     (case s of None \<Rightarrow> None
      | Some t \<Rightarrow>
          let l = map to_lower (c_str t)
          in if l = ''info'' then Some Info else if l = ''warning'' then Some Warning
             else if l = ''critical'' then Some Critical else None)"

definition header_value :: "string \<Rightarrow> string" where
  "header_value s = map (\<lambda>c. if control_char c then CHR '' '' else c) s"

definition continuation :: "char \<Rightarrow> bool" where
  "continuation c = ((of_char c :: nat) AND 0xC0 = 0x80)"

text \<open>The end of a word: not inside a character.\<close>

function word_end :: "string \<Rightarrow> nat \<Rightarrow> nat" where
  "word_end t n = (if n > 1 \<and> n < length t \<and> continuation (t ! n) then word_end t (n - 1) else n)"
  by pat_completeness auto
termination by (relation "measure snd") auto

declare word_end.simps [simp del]

fun word_base64 :: "string \<Rightarrow> string" where
  "word_base64 [] = []"
| "word_base64 [a] =
     (let triple = push_bit 16 (word_of_nat (of_char a)) OR push_bit 8 0 OR 0
      in [b64_char triple 18, b64_char triple 12, CHR ''='', CHR ''=''])"
| "word_base64 [a, b] =
     (let triple = push_bit 16 (word_of_nat (of_char a)) OR push_bit 8 (word_of_nat (of_char b)) OR 0
      in [b64_char triple 18, b64_char triple 12, b64_char triple 6, CHR ''=''])"
| "word_base64 (a # b # c # r) =
     (let triple = push_bit 16 (word_of_nat (of_char a)) OR push_bit 8 (word_of_nat (of_char b)) OR word_of_nat (of_char c)
      in [b64_char triple 18, b64_char triple 12, b64_char triple 6, b64_char triple 0] @ word_base64 r)"

lemma word_end_bounds: "word_end t n \<le> n" "0 < n \<Longrightarrow> 0 < word_end t n"
  by (induction t n rule: word_end.induct) (subst word_end.simps, force)+

function words_loop :: "string \<Rightarrow> string \<Rightarrow> string" where
  "words_loop out t =
     (if t = [] then out
      else let n = word_end t (if length t < 45 then length t else 45);
               out = (if out \<noteq> [] then out @ '' '' else out) @ ''=?UTF-8?B?'' @ word_base64 (take n t) @ ''?=''
           in words_loop out (drop n t))"
  by pat_completeness auto
termination by (relation "measure (\<lambda>(out, t). length t)") (auto simp: word_end_bounds)

declare words_loop.simps [simp del]

definition header_text_2047 :: "string \<Rightarrow> string" where
  "header_text_2047 s =
     (let v = header_value s
      in if \<not> list_ex (\<lambda>c. (of_char c :: nat) \<ge> 0x80) v then v else words_loop [] (utf8_sanitize v))"

section \<open>The messages\<close>

definition ntfy_headers :: "alert_severity \<Rightarrow> string \<Rightarrow> string list" where
  "ntfy_headers sev rule_name =
     [''Title: '' @ header_text_2047 (''budyk: '' @ rule_name), ''Priority: '' @ ntfy_priority sev, ''Tags: '' @ severity_name sev]"

definition ntfy_payload :: "string \<Rightarrow> string" where
  "ntfy_payload message = utf8_sanitize message"

abbreviation brace_open :: char where "brace_open \<equiv> CHR 0x7B"
abbreviation brace_close :: char where "brace_close \<equiv> CHR 0x7D"

definition telegram_payload :: "alert_severity \<Rightarrow> string \<Rightarrow> string \<Rightarrow> string \<Rightarrow> string" where
  "telegram_payload sev chat_id rule_name message =
     [brace_open, quot] @ ''chat_id'' @ [quot, CHR '':'', quot] @ json_escape chat_id @ [quot, CHR '','', quot] @ ''text'' @ [quot, CHR '':'', quot] @
     ''['' @ severity_name sev @ ''] '' @ json_escape rule_name @
     (if message \<noteq> [] then '': '' @ json_escape message else []) @ [quot, brace_close]"

definition discord_payload :: "alert_severity \<Rightarrow> string \<Rightarrow> string \<Rightarrow> string" where
  "discord_payload sev rule_name message =
     [brace_open, quot] @ ''embeds'' @ [quot, CHR '':'', CHR ''['', brace_open] @
     [quot] @ ''title'' @ [quot, CHR '':'', quot] @ ''['' @ severity_name sev @ ''] '' @ json_escape rule_name @ [quot, CHR '',''] @
     [quot] @ ''description'' @ [quot, CHR '':'', quot] @ json_escape message @ [quot, CHR '',''] @
     [quot] @ ''color'' @ [quot, CHR '':''] @ severity_color sev @ [brace_close, CHR '']'', brace_close]"

definition cr_lf :: string where "cr_lf = [CHR 0x0D, CHR 0x0A]"

fun mail_body :: "string \<Rightarrow> string" where
  "mail_body [] = []"
| "mail_body (c # s) =
     (if c = CHR 0x0D then cr_lf @ mail_body (if s \<noteq> [] \<and> hd s = CHR 0x0A then tl s else s)
      else if c = CHR 0x0A then cr_lf @ mail_body s
      else c # mail_body s)"

text \<open>\<open>date\<close>: what \<open>strftime\<close> makes of the local time.\<close>

definition smtp_message :: "string \<Rightarrow> alert_severity \<Rightarrow> string \<Rightarrow> string \<Rightarrow> string \<Rightarrow> string \<Rightarrow> string" where
  "smtp_message date sev from_addr to_addr rule_name message =
     ''From: '' @ header_value from_addr @ cr_lf @
     ''To: '' @ header_value to_addr @ cr_lf @
     ''Subject: '' @ header_text_2047 (''[budyk:'' @ severity_name sev @ ''] '' @ rule_name) @ cr_lf @
     ''Date: '' @ date @ cr_lf @
     ''MIME-Version: 1.0'' @ cr_lf @
     ''Content-Type: text/plain; charset=utf-8'' @ cr_lf @
     ''Content-Transfer-Encoding: 8bit'' @ cr_lf @
     cr_lf @
     mail_body (utf8_sanitize message) @ cr_lf"

definition twilio_form :: "string \<Rightarrow> string \<Rightarrow> string \<Rightarrow> string \<Rightarrow> string" where
  "twilio_form from_addr to_addr rule_name message =
     (let t = ''[budyk] '' @ rule_name @ (if message \<noteq> [] then '': '' @ message else [])
      in ''From='' @ url_encode from_addr @ ''&To='' @ url_encode to_addr @ ''&Body='' @ url_encode (utf8_sanitize t))"

section \<open>Running curl\<close>

text \<open>
  What is outside: the answers for the temporary files and for the runs, and what \<open>curl\<close> does to the files, by the number of the
  call; the local time. What changes: the files, the number of calls so far, the command lines run with the files as they were.
\<close>

record alert_os =
  ao_tmp :: "nat \<Rightarrow> tmp_os"
  ao_exec :: "nat \<Rightarrow> exec_world"
  ao_curl :: "nat \<Rightarrow> string list \<Rightarrow> files \<Rightarrow> files"
  ao_strerror :: "errno \<Rightarrow> string"
  ao_date :: "nat \<Rightarrow> string"

record curl_state =
  cs_files :: files
  cs_calls :: nat
  cs_runs :: "(string list \<times> files) list"

definition kPathMax :: nat where "kPathMax = 4096"

text \<open>\<open>Inl\<close>: why it failed, for the log.\<close>

definition write_tmp :: "alert_os \<Rightarrow> string \<Rightarrow> curl_state \<Rightarrow> (string + string) \<times> curl_state" where
  "write_tmp os body st =
     (case write_private_tmp (ao_tmp os (cs_calls st)) (Some ''budyk_alert_'') body kPathMax (cs_files st) of
        (Inr path, fs) \<Rightarrow> (Inr path, st\<lparr>cs_files := fs, cs_calls := cs_calls st + 1\<rparr>)
      | (Inl e, fs) \<Rightarrow> (Inl (''cannot write a temp file: '' @ ao_strerror os e), st\<lparr>cs_files := fs, cs_calls := cs_calls st + 1\<rparr>))"

definition read_head :: "string \<Rightarrow> nat \<Rightarrow> files \<Rightarrow> string" where
  "read_head path cap fs = (case fs path of None \<Rightarrow> [] | Some t \<Rightarrow> take cap t)"

text \<open>How the run is told: \<open>None\<close> when \<open>curl\<close> ended well.\<close>

definition curl_verdict :: "alert_os \<Rightarrow> int \<Rightarrow> int \<Rightarrow> exec_result \<Rightarrow> string \<Rightarrow> string option" where
  "curl_verdict os timeout_s rc res said =
     (if rc \<noteq> 0 then Some (if rc = - 4 then ''cannot fork curl: '' @ ao_strerror os (er_err res) else ''cannot run curl'')
      else if er_cancelled res then Some ''cancelled at shutdown''
      else if er_timed_out res then Some (''curl ran past '' @ append_int timeout_s @ '' s and was killed'')
      else if er_signal res \<noteq> 0 then Some (''curl was killed by signal '' @ append_int (er_signal res))
      else if er_exit_status res = 127 \<and> said = [] then Some ''curl not found in PATH (exit 127)''
      else if er_exit_status res \<noteq> 0
      then Some (if said = [] then ''curl exited '' @ append_int (er_exit_status res)
                 else said @ '' (exit '' @ append_int (er_exit_status res) @ '')'')
      else None)"

text \<open>The outer \<open>None\<close> here and below: the run has not ended.\<close>

definition run_curl :: "alert_os \<Rightarrow> string list \<Rightarrow> int \<Rightarrow> curl_state \<Rightarrow> (string option \<times> curl_state) option" where
  "run_curl os args timeout_s st =
     (case write_tmp os [] st of
        (Inl why, st) \<Rightarrow> Some (Some why, st)
      | (Inr err_path, st) \<Rightarrow>
          let argv = map c_str ([''curl'', ''-q'', ''--stderr'', err_path] @ args)
          in case exec_command (ao_exec os (cs_calls st)) (Some argv) timeout_s (Some exec_result_0) of
               None \<Rightarrow> None
             | Some (rc, res, child, parent) \<Rightarrow>
                 let fs = (if rc = - 4 then cs_files st else ao_curl os (cs_calls st) argv (cs_files st));
                     said = first_line (read_head err_path 4096 fs)
                 in Some (curl_verdict os timeout_s rc (the res) said,
                      st\<lparr>cs_files := fs(err_path := None), cs_calls := cs_calls st + 1, cs_runs := cs_runs st @ [(argv, cs_files st)]\<rparr>))"

definition starts_at :: "string \<Rightarrow> string \<Rightarrow> nat \<Rightarrow> bool" where
  "starts_at needle hay i = (take (length needle) (drop i hay) = needle)"

definition rfind :: "string \<Rightarrow> string \<Rightarrow> nat option" where
  "rfind needle hay =
     (let found = filter (starts_at needle hay) [0..<Suc (length hay)] in if found = [] then None else Some (last found))"

definition status_at :: "string \<Rightarrow> nat option" where
  "status_at hdrs =
     (case rfind (CHR 0x0A # ''HTTP/'') hdrs of
        None \<Rightarrow> if take 5 hdrs = ''HTTP/'' then Some 0 else None
      | Some pos \<Rightarrow> Some (pos + 1))"

definition atoi :: "string \<Rightarrow> int" where
  "atoi s = (case strtol s of None \<Rightarrow> 0 | Some (v, _, _) \<Rightarrow> v)"

definition status_code :: "string \<Rightarrow> int" where
  "status_code status =
     (let sp = length (takeWhile (\<lambda>c. c \<noteq> CHR '' '') status)
      in if sp < length status \<and> length status \<ge> sp + 4 then atoi (take 3 (drop (sp + 1) status)) else 0)"

text \<open>\<open>None\<close>: the message was taken.\<close>

definition http_ok :: "string \<Rightarrow> string \<Rightarrow> files \<Rightarrow> string option" where
  "http_ok reply_hdr reply_body fs =
     (let hdrs = read_head reply_hdr 16384
                   fs
      in case status_at hdrs of
           None \<Rightarrow> Some ''no HTTP status line in the reply''
         | Some pos \<Rightarrow>
             let status = first_line (drop pos hdrs); code = status_code status
             in if 200 \<le> code \<and> code < 300 then None
                else let body = first_line (read_head reply_body 4096 fs)
                     in Some (status @ (if body \<noteq> [] then '': '' @ body else [])))"

definition cleanup :: "string list \<Rightarrow> curl_state \<Rightarrow> curl_state" where
  "cleanup made st = st\<lparr>cs_files := fold (\<lambda>p fs. fs(p := None)) made (cs_files st)\<rparr>"

text \<open>Files with these contents, one after the other; when one fails, those made before are removed.\<close>

fun make_tmps :: "alert_os \<Rightarrow> string list \<Rightarrow> string list \<Rightarrow> curl_state \<Rightarrow> (string + string list) \<times> curl_state" where
  "make_tmps os [] made st = (Inr made, st)"
| "make_tmps os (c # cs) made st =
     (case write_tmp os c st of
        (Inl why, st) \<Rightarrow> (Inl why, cleanup made st)
      | (Inr path, st) \<Rightarrow> make_tmps os cs (made @ [path]) st)"

definition curl_post :: "alert_os \<Rightarrow> string \<Rightarrow> string \<Rightarrow> string \<Rightarrow> string list \<Rightarrow> curl_state \<Rightarrow> (string option \<times> curl_state) option" where
  "curl_post os url user_pass body extra_headers st =
     (let headers = concat (map (\<lambda>h. h @ [CHR 0x0A]) extra_headers)
      in case make_tmps os [body, headers, [], [], curl_config url user_pass] [] st of
           (Inl why, st) \<Rightarrow> Some (Some why, st)
         | (Inr made, st) \<Rightarrow>
             let body_path = made ! 0; hdr_path = made ! 1; reply_hdr = made ! 2; reply_body = made ! 3; cfg_path = made ! 4
             in case run_curl os [''-sS'', ''-X'', ''POST'', ''-H'', ''@'' @ hdr_path, ''--data-binary'', ''@'' @ body_path,
                       ''-D'', reply_hdr, ''-o'', reply_body, ''--max-time'', ''10'', ''-K'', cfg_path] 15 st of
                  None \<Rightarrow> None
                | Some (why, st) \<Rightarrow>
                    Some (case why of None \<Rightarrow> http_ok reply_hdr reply_body (cs_files st) | Some w \<Rightarrow> Some w, cleanup made st))"

definition curl_smtp :: "alert_os \<Rightarrow> string \<Rightarrow> string \<Rightarrow> string \<Rightarrow> string \<Rightarrow> string \<Rightarrow> curl_state \<Rightarrow> (string option \<times> curl_state) option" where
  "curl_smtp os url user_pass from_addr to_addr message st =
     (case make_tmps os [message, curl_config url user_pass] [] st of
        (Inl why, st) \<Rightarrow> Some (Some why, st)
      | (Inr made, st) \<Rightarrow>
          (case run_curl os [''-sS'', ''--mail-from'', from_addr, ''--mail-rcpt'', to_addr, ''-T'', made ! 0, ''--max-time'', ''15'', ''-K'', made ! 1] 20 st of
             None \<Rightarrow> None
           | Some (why, st) \<Rightarrow> Some (why, cleanup made st)))"

section \<open>Channels and the dispatcher\<close>

record alert_channel =
  ac_name :: string
  ac_type :: string
  ac_url :: string
  ac_topic :: string
  ac_token :: string
  ac_from :: string

definition incomplete_line :: "string \<Rightarrow> alert_channel \<Rightarrow> string \<Rightarrow> string" where
  "incomplete_line kind ch missing = ''budyk alert: '' @ kind @ '' channel '' @ [CHR 0x27] @ c_str (ac_name ch) @ [CHR 0x27] @ '' missing '' @ missing @ [CHR 0x0A]"

text \<open>\<open>None\<close>: complete. Otherwise the line for the log.\<close>

definition channel_complete :: "alert_channel \<Rightarrow> string option" where
  "channel_complete ch =
     (if ac_type ch = ''ntfy''
      then if ac_url ch = [] \<or> ac_topic ch = [] then Some (incomplete_line ''ntfy'' ch ''url/topic'') else None
      else if ac_type ch = ''discord''
      then if ac_url ch = [] then Some (incomplete_line ''discord'' ch ''url'') else None
      else if ac_type ch = ''telegram''
      then if (ac_token ch = [] \<and> ac_url ch = []) \<or> ac_topic ch = [] then Some (incomplete_line ''telegram'' ch ''token/topic'') else None
      else if ac_type ch = ''smtp''
      then if ac_from ch = [] \<or> ac_topic ch = [] \<or> ac_url ch = [] then Some (incomplete_line ''smtp'' ch ''url/from/topic'') else None
      else if ac_type ch = ''twilio''
      then if ac_from ch = [] \<or> ac_topic ch = [] \<or> ac_url ch = [] \<or> ac_token ch = []
           then Some (incomplete_line ''twilio'' ch ''url/token/from/topic'') else None
      else Some (''budyk alert: unknown channel type '' @ [CHR 0x27] @ c_str (ac_type ch) @ [CHR 0x27] @ '' on '' @ [CHR 0x27] @ c_str (ac_name ch) @ [CHR 0x27, CHR 0x0A]))"

definition ntfy_url :: "alert_channel \<Rightarrow> string" where
  "ntfy_url ch = ac_url ch @ (if ac_url ch \<noteq> [] \<and> last (ac_url ch) \<noteq> CHR ''/'' then ''/'' else []) @ ac_topic ch"

definition telegram_url :: "alert_channel \<Rightarrow> string" where
  "telegram_url ch = (if ac_url ch = [] then ''https://api.telegram.org/bot'' @ ac_token ch @ ''/sendMessage'' else ac_url ch)"

definition json_type :: "string list" where
  "json_type = [''Content-Type: application/json'']"

definition send_one :: "alert_os \<Rightarrow> alert_channel \<Rightarrow> alert_severity \<Rightarrow> string \<Rightarrow> string \<Rightarrow> curl_state \<Rightarrow> (string option \<times> curl_state) option" where
  "send_one os ch sev rule_name message st =
     (if ac_type ch = ''ntfy'' then curl_post os (ntfy_url ch) [] (ntfy_payload message) (ntfy_headers sev rule_name) st
      else if ac_type ch = ''discord'' then curl_post os (ac_url ch) [] (discord_payload sev rule_name message) json_type st
      else if ac_type ch = ''telegram''
      then curl_post os (telegram_url ch) [] (telegram_payload sev (ac_topic ch) rule_name message) json_type st
      else if ac_type ch = ''smtp''
      then if ac_token ch \<noteq> [] \<and> CHR '':'' \<notin> set (ac_token ch)
           then Some (Some (''token is not '' @ [quot] @ ''user:password'' @ [quot]), st)
           else curl_smtp os (ac_url ch) (ac_token ch) (ac_from ch) (ac_topic ch)
                  (smtp_message (ao_date os (cs_calls st)) sev (ac_from ch) (ac_topic ch) rule_name message) st
      else if ac_type ch = ''twilio''
      then if CHR '':'' \<notin> set (ac_token ch)
           then Some (Some (''token is not '' @ [quot] @ ''AccountSID:AuthToken'' @ [quot]), st)
           else curl_post os (ac_url ch) (ac_token ch) (twilio_form (ac_from ch) (ac_topic ch) rule_name message)
                  [''Content-Type: application/x-www-form-urlencoded''] st
      else Some (Some ''unknown channel type'', st))"

record alert_job =
  aj_channels :: "alert_channel list"
  aj_severity :: alert_severity
  aj_rule :: string
  aj_message :: string

record alert_dispatcher =
  ad_channels :: "alert_channel list"
  ad_dispatch_calls :: nat
  ad_last_event :: "alert_severity \<times> string \<times> string"
  ad_worker :: "alert_job worker"
  ad_delivered :: nat
  ad_failed :: nat
  ad_log :: "string list"

definition add_channel :: "alert_channel \<Rightarrow> alert_dispatcher \<Rightarrow> alert_dispatcher" where
  "add_channel ch d = d\<lparr>ad_channels := ad_channels d @ [ch]\<rparr>"

definition send_failed_line :: "alert_channel \<Rightarrow> string \<Rightarrow> string" where
  "send_failed_line ch why =
     ''budyk alert: channel '' @ [CHR 0x27] @ c_str (ac_name ch) @ [CHR 0x27] @ '' ('' @ c_str (ac_type ch) @ '') failed: '' @ c_str why @ [CHR 0x0A]"

text \<open>The job, run by the worker thread; \<open>cancel\<close> is the flag as it is read before each channel (none when the list is used up).\<close>

fun run_alert_job :: "alert_os \<Rightarrow> alert_job \<Rightarrow> alert_channel list \<Rightarrow> bool list \<Rightarrow> alert_dispatcher \<times> curl_state \<Rightarrow> (alert_dispatcher \<times> curl_state) option" where
  "run_alert_job os job [] cancel (d, st) = Some (d, st)"
| "run_alert_job os job (ch # chs) cancel (d, st) =
     (if cancel \<noteq> [] \<and> hd cancel then run_alert_job os job chs (tl cancel) (d\<lparr>ad_failed := ad_failed d + 1\<rparr>, st)
      else case send_one os ch (aj_severity job) (aj_rule job) (aj_message job) st of
             None \<Rightarrow> None
           | Some (None, st) \<Rightarrow> run_alert_job os job chs (tl cancel) (d\<lparr>ad_delivered := ad_delivered d + 1\<rparr>, st)
           | Some (Some why, st) \<Rightarrow>
               run_alert_job os job chs (tl cancel) (d\<lparr>ad_failed := ad_failed d + 1, ad_log := ad_log d @ [send_failed_line ch why]\<rparr>, st))"

fun complete_channels :: "alert_channel list \<Rightarrow> alert_channel list \<times> string list" where
  "complete_channels [] = ([], [])"
| "complete_channels (ch # chs) =
     (let (targets, lines) = complete_channels chs
      in case channel_complete ch of None \<Rightarrow> (ch # targets, lines) | Some l \<Rightarrow> (targets, l # lines))"

definition dispatch :: "(errno \<Rightarrow> string) \<Rightarrow> errno \<Rightarrow> alert_severity \<Rightarrow> string \<Rightarrow> string \<Rightarrow> alert_dispatcher \<Rightarrow> nat \<times> alert_dispatcher" where
  "dispatch strerror rc sev rule_name message d =
     (let d = d\<lparr>ad_dispatch_calls := ad_dispatch_calls d + 1, ad_last_event := (sev, rule_name, message)\<rparr>;
          (targets, lines) = complete_channels (ad_channels d); d = d\<lparr>ad_log := ad_log d @ lines\<rparr>
      in if targets = [] then (0, d)
         else let (ok, w) = worker_post strerror rc (ad_worker d)
                     \<lparr>aj_channels = targets, aj_severity = sev, aj_rule = rule_name, aj_message = message\<rparr>;
                  d = d\<lparr>ad_worker := w\<rparr>
              in if \<not> ok
                 then (0, d\<lparr>ad_log := ad_log d @ [''budyk alert: queue full, alert for rule '' @ [CHR 0x27] @ c_str (header_value rule_name) @ [CHR 0x27] @ '' dropped'' @ [CHR 0x0A]]\<rparr>)
                 else (length targets, d))"

section \<open>Encoded words\<close>

lemma of_char_u32: "(word_of_nat (of_char c) :: u32) = ucast (word_of_nat (of_char c) :: byte)"
proof -
  have "(of_char c :: nat) < 256" by simp
  then show ?thesis by (simp only: unsigned_of_nat) (simp add: take_bit_nat_eq_self)
qed

lemma word_base64_eq: "word_base64 s = base64_encode (bytes_of s)"
  by (induction s rule: word_base64.induct) (simp_all add: bytes_of_def of_char_u32 Let_def)

lemma and_push_bit: "(n AND push_bit k m :: nat) = push_bit k (drop_bit k n AND m)"
  by (rule bit_eqI) (auto simp: bit_simps)

lemma and_C0: "(n AND 0xC0 :: nat) = 64 * ((n div 64) mod 4)"
proof -
  have "n AND push_bit 6 (mask 2) = push_bit 6 (take_bit 2 (drop_bit 6 n))" by (simp only: and_push_bit take_bit_eq_mask)
  moreover have "push_bit 6 (mask 2) = (0xC0 :: nat)" by (simp add: push_bit_eq_mult mask_eq_exp_minus_1)
  ultimately show ?thesis by (simp add: push_bit_eq_mult drop_bit_eq_div take_bit_eq_mod)
qed

lemma continuation_byte: "n < 256 \<Longrightarrow> (n AND 0xC0 = 0x80) = (0x80 \<le> n \<and> n \<le> (0xBF::nat))"
proof -
  assume n: "n < 256"
  then have "(n div 64) mod 4 = n div 64" by simp
  moreover have "n div 64 = 2 \<longleftrightarrow> 0x80 \<le> n \<and> n \<le> (0xBF::nat)" 
    using div_mult_mod_eq [of n 64] mod_less_divisor [of 64 n] by (intro iffI) linarith+
  ultimately show ?thesis unfolding and_C0 by simp
qed

lemma continuation_iff: "continuation c \<longleftrightarrow> 0x80 \<le> (of_char c :: nat) \<and> (of_char c :: nat) \<le> 0xBF"
  by (simp add: continuation_def continuation_byte)

lemma utf8_len_cont:
  assumes "0 < k" "k < utf8_len s"
  shows "0x80 \<le> byte_at s k \<and> byte_at s k \<le> 0xBF"
proof -
  obtain n lo hi where l: "utf8_lead (byte_at s 0) = (n, lo, hi)" by (cases "utf8_lead (byte_at s 0)")
  have n: "utf8_len s = n" "lo \<le> byte_at s 1" "byte_at s 1 \<le> hi" "\<forall>k \<in> {2..<n}. 0x80 \<le> byte_at s k \<and> byte_at s k \<le> 0xBF"
    using assms l by (auto simp: utf8_len_def list_ex_iff not_less split: if_splits)
  have "0x80 \<le> lo" "hi \<le> 0xBF" using l by (auto simp: utf8_lead_def split: if_splits)
  then show ?thesis using n assms by (cases "k = 1") auto
qed

lemma utf8_len_le4: "utf8_len s \<le> 4"
  by (auto simp: utf8_len_def utf8_lead_def split: prod.splits if_splits)

lemma utf8_len_lead_not_cont: "utf8_len s \<noteq> 0 \<Longrightarrow> 0xC2 \<le> byte_at s 0"
  by (auto simp: utf8_len_def utf8_lead_def split: prod.splits if_splits)

lemma utf8_ok_head: "utf8_ok t \<Longrightarrow> t \<noteq> [] \<Longrightarrow> \<not> continuation (hd t)"
  using utf8_len_lead_not_cont [of t] by (cases t) (auto simp: continuation_iff byte_at_def split: if_splits)

text \<open>A valid text cut where no character continues is two valid texts.\<close>

lemma utf8_ok_cut:
  "utf8_ok t \<Longrightarrow> k \<le> length t \<Longrightarrow> k = length t \<or> \<not> continuation (t ! k) \<Longrightarrow> utf8_ok (take k t) \<and> utf8_ok (drop k t)"
proof (induction t arbitrary: k rule: utf8_ok.induct)
  case (2 c r)
  show ?case
  proof (cases "k = 0")
    case False
    let ?n = "utf8_len (c # r)"
    show ?thesis
    proof (cases "(of_char c :: nat) < 0x80")
      case True
      then show ?thesis using 2(1) [OF True, of "k - 1"] 2(3-) False by (cases k) auto
    next
      case high: False
      then have n: "?n \<noteq> 0" "utf8_ok (drop (?n - 1) r)" using "2.prems"(1) by auto
      have len: "2 \<le> ?n" "?n \<le> length (c # r)" using utf8_len_cases [of "c # r"] n by auto
      have kn: "?n \<le> k"
      proof (rule ccontr)
        assume "\<not> ?n \<le> k"
        then show False using utf8_len_cont [of k "c # r"] False "2.prems"(3) len
          by (auto simp: byte_at_def continuation_iff)
      qed
      have d: "drop (?n - 1) r = drop ?n (c # r)" using len by (cases ?n) auto
      have "utf8_ok (take (k - ?n) (drop ?n (c # r))) \<and> utf8_ok (drop (k - ?n) (drop ?n (c # r)))"
        using 2(2) [of "k - ?n"] high n(1) n(2) "2.prems"(2,3) kn unfolding d by (auto simp: nth_append)
      moreover have "take k (c # r) = take ?n (c # r) @ take (k - ?n) (drop ?n (c # r))"
        using kn by (metis take_add le_add_diff_inverse)
      moreover have "drop (k - ?n) (drop ?n (c # r)) = drop k (c # r)" using kn by (simp only: drop_drop le_add_diff_inverse2)
      ultimately show ?thesis using utf8_ok_append_seq [OF n(1)] by (simp only:)
    qed
  qed (use "2.prems" in simp)
qed simp

text \<open>No four bytes in a row continue characters.\<close>

lemma utf8_ok_run:
  "utf8_ok t \<Longrightarrow> k + 3 < length t \<Longrightarrow> \<exists>j \<in> {k..k + 3}. \<not> continuation (t ! j)"
proof (induction t arbitrary: k rule: utf8_ok.induct)
  case (2 c r)
  let ?n = "if (of_char c :: nat) < 0x80 then 1 else utf8_len (c # r)"
  have ok: "utf8_ok (drop ?n (c # r))" and n: "1 \<le> ?n" "?n \<le> 4"
    using "2.prems"(1) utf8_len_cases [of "c # r"] utf8_len_le4 [of "c # r"] by (auto simp: drop_Cons')
  have IH: "?n \<le> k \<Longrightarrow> \<exists>j \<in> {k - ?n..k - ?n + 3}. \<not> continuation (drop ?n (c # r) ! j)"
  proof (cases "(of_char c :: nat) < 0x80")
    case True
    then show "?n \<le> k \<Longrightarrow> ?thesis" using 2(1) [OF True, of "k - 1"] "2.prems" by simp
  next
    case False
    then have "drop (utf8_len (c # r) - 1) r = drop ?n (c # r)" using n(1) by (simp add: drop_Cons')
    then show "?n \<le> k \<Longrightarrow> ?thesis" using 2(2) [of "k - ?n"] False ok "2.prems"(2) n(1) by simp
  qed
  show ?case
  proof (cases "?n \<le> k")
    case True
    then obtain j where j: "j \<in> {k - ?n..k - ?n + 3}" "\<not> continuation (drop ?n (c # r) ! j)" using IH by blast
    then have "?n + j \<in> {k..k + 3}" "\<not> continuation ((c # r) ! (?n + j))" using True "2.prems"(2) by (auto simp: nth_append)
    then show ?thesis by blast
  next
    case False
    show ?thesis
    proof (cases "k = 0")
      case True
      then show ?thesis using utf8_ok_head [OF "2.prems"(1)] by force
    next
      case k: False
      then have "?n \<in> {k..k + 3}" using False n by auto
      moreover have "drop ?n (c # r) \<noteq> []" using "2.prems"(2) False n k by auto
      moreover have "hd (drop ?n (c # r)) = (c # r) ! ?n" by (rule hd_drop_conv_nth) (use \<open>drop ?n (c # r) \<noteq> []\<close> in simp)
      ultimately show ?thesis using utf8_ok_head [OF ok] by (intro bexI [of _ ?n]) simp_all
    qed
  qed
qed simp

lemma word_end_step: "n > 1 \<and> n < length t \<and> continuation (t ! n) \<Longrightarrow> word_end t n = word_end t (n - 1)"
  by (subst word_end.simps) simp

lemma word_end_stop: "\<not> (n > 1 \<and> n < length t \<and> continuation (t ! n)) \<Longrightarrow> word_end t n = n"
  by (subst word_end.simps) (simp only: if_False)

lemma word_end_stops: "word_end t n \<le> 1 \<or> length t \<le> word_end t n \<or> \<not> continuation (t ! word_end t n)"
proof (induction t n rule: word_end.induct)
  case (1 t n)
  show ?case
    by (cases "n > 1 \<and> n < length t \<and> continuation (t ! n)") (use 1 in \<open>simp add: word_end_step\<close>, subst (1 2 3) word_end_stop, auto)
qed

lemma word_end_passed: "word_end t n < j \<Longrightarrow> j \<le> n \<Longrightarrow> j < length t \<and> continuation (t ! j)"
proof (induction t n rule: word_end.induct)
  case (1 t n)
  show ?case
  proof (cases "n > 1 \<and> n < length t \<and> continuation (t ! n)")
    case True
    then show ?thesis using 1 True word_end_step [OF True] by (cases "j = n") auto
  next
    case False
    then show ?thesis using 1 word_end_stop [OF False] by simp
  qed
qed

lemma word_end_cut:
  assumes "utf8_ok t" "t \<noteq> []" "n = word_end t (if length t < 45 then length t else 45)"
  shows "0 < n \<and> n \<le> 45 \<and> n \<le> length t \<and> utf8_ok (take n t) \<and> utf8_ok (drop n t)"
proof -
  let ?m = "if length t < 45 then length t else 45"
  have b: "n \<le> ?m" "0 < n" using word_end_bounds(1) [of t ?m] word_end_bounds(2) [of ?m t] assms(2,3) by auto
  have "n = length t \<or> \<not> continuation (t ! n)"
  proof (rule ccontr)
    assume c: "\<not> (n = length t \<or> \<not> continuation (t ! n))"
    then have lt: "n < length t" using b by (auto split: if_splits)
    then have n1: "n = 1" using word_end_stops [of t ?m] c b assms(3) by auto
    have m: "?m = 45"
    proof (rule ccontr)
      assume "?m \<noteq> 45"
      then have "?m = length t" "length t < 45" by (auto split: if_splits)
      then have "n = length t" using assms(3) word_end_stop [of "length t" t] by simp
      then show False using c by simp
    qed
    then have "length t > 5" by (auto split: if_splits)
    then obtain j where "j \<in> {2..5}" "\<not> continuation (t ! j)" using utf8_ok_run [OF assms(1), of 2] by auto
    then show False using word_end_passed [of t ?m j] n1 assms(3) m by auto
  qed
  then show ?thesis using utf8_ok_cut [OF assms(1), of n] b by (auto split: if_splits)
qed

text \<open>The words of a text, as RFC 2047 has them, and the pieces they stand for.\<close>

definition encoded_word :: "string \<Rightarrow> string" where
  "encoded_word piece = ''=?UTF-8?B?'' @ base64_encode (bytes_of piece) @ ''?=''"

fun spaced :: "string list \<Rightarrow> string" where
  "spaced [] = []"
| "spaced [w] = w"
| "spaced (w # ws) = w @ '' '' @ spaced ws"

lemma spaced_snoc: "ws \<noteq> [] \<Longrightarrow> spaced (ws @ [w]) = spaced ws @ '' '' @ w"
  by (induction ws rule: spaced.induct) auto

lemma spaced_Nil: "list_all (\<lambda>w. w \<noteq> []) ws \<Longrightarrow> spaced ws = [] \<longleftrightarrow> ws = []"
  by (cases ws rule: spaced.cases) auto

definition piece_ok :: "string \<Rightarrow> bool" where
  "piece_ok p = (p \<noteq> [] \<and> utf8_ok p \<and> length (encoded_word p) \<le> 75 \<and> base64_decode (base64_encode (bytes_of p)) = Some (bytes_of p))"

lemma piece_okI: "p \<noteq> [] \<Longrightarrow> utf8_ok p \<Longrightarrow> length p \<le> 45 \<Longrightarrow> piece_ok p"
  by (auto simp: piece_ok_def encoded_word_def length_base64_encode base64_decode_encode bytes_of_def)

lemma words_loop_words:
  "utf8_ok t \<Longrightarrow> list_all piece_ok ps \<Longrightarrow>
   \<exists>qs. words_loop (spaced (map encoded_word ps)) t = spaced (map encoded_word (ps @ qs)) \<and> concat qs = t \<and> list_all piece_ok qs"
proof (induction "length t" arbitrary: t ps rule: less_induct)
  case less
  show ?case
  proof (cases "t = []")
    case True
    then show ?thesis by (intro exI [of _ "[]"]) (subst words_loop.simps, simp)
  next
    case False
    define n where "n = word_end t (if length t < 45 then length t else 45)"
    have n: "0 < n" "n \<le> 45" "n \<le> length t" "utf8_ok (take n t)" "utf8_ok (drop n t)"
      using word_end_cut [OF less.prems(1) False n_def] by auto
    have p: "piece_ok (take n t)" using n False by (intro piece_okI) auto
    let ?ps = "ps @ [take n t]"
    have ne: "spaced (map encoded_word ps) = [] \<longleftrightarrow> ps = []"
      using spaced_Nil [of "map encoded_word ps"] by (simp add: encoded_word_def list_all_iff)
    have "(if spaced (map encoded_word ps) \<noteq> [] then spaced (map encoded_word ps) @ '' '' else spaced (map encoded_word ps)) @
        ''=?UTF-8?B?'' @ word_base64 (take n t) @ ''?='' = spaced (map encoded_word ?ps)"
      unfolding ne by (auto simp: word_base64_eq spaced_snoc encoded_word_def)
    then have "words_loop (spaced (map encoded_word ps)) t = words_loop (spaced (map encoded_word ?ps)) (drop n t)"
      using False by (subst words_loop.simps) (simp only: Let_def n_def [symmetric] if_False)
    moreover obtain qs where "words_loop (spaced (map encoded_word ?ps)) (drop n t) = spaced (map encoded_word (?ps @ qs))"
      "concat qs = drop n t" "list_all piece_ok qs"
      using less.hyps [of "drop n t" ?ps] n p less.prems(2) False by auto
    ultimately show ?thesis using p by (intro exI [of _ "take n t # qs"]) simp
  qed
qed

lemma header_text_words:
  "(list_all (\<lambda>c. (of_char c :: nat) < 0x80) (header_value s) \<and> header_text_2047 s = header_value s) \<or>
   (\<exists>pieces. header_text_2047 s = spaced (map encoded_word pieces) \<and> concat pieces = utf8_sanitize (header_value s) \<and> list_all piece_ok pieces)"
  using words_loop_words [OF utf8_sanitize_ok, of "[]" "header_value s"]
  by (auto simp: header_text_2047_def Let_def list_all_iff list_ex_iff not_le)

section \<open>One line each\<close>

definition one_line :: "string \<Rightarrow> bool" where
  "one_line s = list_all (\<lambda>c. \<not> control_char c) s"

lemma one_line_append [simp]: "one_line (a @ b) \<longleftrightarrow> one_line a \<and> one_line b"
  by (simp add: one_line_def)

lemma one_line_header_value [simp]: "one_line (header_value s)"
  by (auto simp: one_line_def header_value_def list_all_iff control_char_def)

lemma one_line_base64: "one_line (base64_encode bs)"
proof -
  have "one_line kB64Alphabet" by (simp add: one_line_def kB64Alphabet_def control_char_def)
  then have "\<not> control_char (b64_char t k)" for t k
    using six_bits [of "drop_bit k t"] alphabet(2) by (auto simp: b64_char_def one_line_def list_all_iff)
  then show ?thesis by (induction bs rule: base64_encode.induct) (auto simp: one_line_def Let_def control_char_def [of "CHR ''=''"])
qed

lemma one_line_encoded [simp]: "one_line (encoded_word p)"
proof -
  have "one_line ''=?UTF-8?B?''" "one_line ''?=''" by (simp_all add: one_line_def control_char_def)
  then show ?thesis unfolding encoded_word_def one_line_append using one_line_base64 by blast
qed

lemma one_line_spaced: "list_all one_line ws \<Longrightarrow> one_line (spaced ws)"
  by (induction ws rule: spaced.induct) (auto simp: one_line_def control_char_def)

lemma one_line_header_text [simp]: "one_line (header_text_2047 s)"
  using header_text_words [of s] one_line_spaced by (fastforce simp: list_all_iff)

text \<open>A mail's lines, as SMTP has them; a text's lines, whatever ends them.\<close>

fun mail_lines :: "string \<Rightarrow> string list" where
  "mail_lines [] = [[]]"
| "mail_lines [c] = [[c]]"
| "mail_lines (c # d # s) =
     (if c = CHR 0x0D \<and> d = CHR 0x0A then [] # mail_lines s
      else (c # hd (mail_lines (d # s))) # tl (mail_lines (d # s)))"

fun text_lines :: "string \<Rightarrow> string list" where
  "text_lines [] = [[]]"
| "text_lines [c] = (if c = CHR 0x0D \<or> c = CHR 0x0A then [[], []] else [[c]])"
| "text_lines (c # d # s) =
     (if c = CHR 0x0D \<and> d = CHR 0x0A then [] # text_lines s
      else if c = CHR 0x0D \<or> c = CHR 0x0A then [] # text_lines (d # s)
      else (c # hd (text_lines (d # s))) # tl (text_lines (d # s)))"

definition breaks :: "string \<Rightarrow> bool" where
  "breaks s = (CHR 0x0D \<in> set s \<or> CHR 0x0A \<in> set s)"

lemma mail_lines_line: "CHR 0x0D \<notin> set l \<Longrightarrow> mail_lines (l @ cr_lf @ s) = l # mail_lines s"
proof (induction l)
  case (Cons c l)
  then show ?case by (cases "l @ cr_lf @ s") (auto simp: cr_lf_def)
qed (simp add: cr_lf_def)

lemma mail_lines_char: "c \<noteq> CHR 0x0D \<Longrightarrow> mail_lines (c # s) = (c # hd (mail_lines s)) # tl (mail_lines s)"
  by (cases s) auto

lemma mail_body_lines: "mail_lines (mail_body s) = text_lines s"
proof (induction s rule: text_lines.induct)
  case (2 c)
  then show ?case by (simp add: cr_lf_def)
next
  case (3 c d s)
  consider "c = CHR 0x0D" "d = CHR 0x0A" | "c = CHR 0x0D" "d \<noteq> CHR 0x0A" | "c = CHR 0x0A" | "c \<noteq> CHR 0x0D" "c \<noteq> CHR 0x0A" by blast
  then show ?case
  proof cases
    case 4
    then have "mail_body (c # d # s) = c # mail_body (d # s)" by simp
    then show ?thesis using 4 3 mail_lines_char [OF 4(1)] by simp
  qed (use 3 mail_lines_line [of "[]"] in simp_all)
qed simp

lemma text_lines_clean: "list_all (\<lambda>l. \<not> breaks l) (text_lines s)" "text_lines s \<noteq> []"
  by (induction s rule: text_lines.induct) (auto simp: breaks_def list_all_iff intro: list.set_sel)

lemma mail_body_snoc: "mail_lines (mail_body s @ cr_lf) = text_lines s @ [[]]"
proof (induction s rule: text_lines.induct)
  case (2 c)
  then show ?case by (simp add: cr_lf_def)
next
  case (3 c d s)
  consider "c = CHR 0x0D" "d = CHR 0x0A" | "c = CHR 0x0D" "d \<noteq> CHR 0x0A" | "c = CHR 0x0A" | "c \<noteq> CHR 0x0D" "c \<noteq> CHR 0x0A" by blast
  then show ?case
  proof cases
    case 4
    then have "mail_body (c # d # s) = c # mail_body (d # s)" by simp
    then show ?thesis using 4 3 mail_lines_char [OF 4(1)] text_lines_clean(2) [of "d # s"] by (cases "text_lines (d # s)") simp_all
  qed (use 3 mail_lines_line [of "[]"] in simp_all)
qed (simp add: cr_lf_def)

lemma one_line_no_cr: "one_line s \<Longrightarrow> CHR 0x0D \<notin> set s"
  by (auto simp: one_line_def list_all_iff control_char_def)

lemma smtp_lines:
  assumes "one_line date"
  shows "mail_lines (smtp_message date sev from_addr to_addr rule_name message) =
    [''From: '' @ header_value from_addr, ''To: '' @ header_value to_addr,
     ''Subject: '' @ header_text_2047 (''[budyk:'' @ severity_name sev @ ''] '' @ rule_name), ''Date: '' @ date,
     ''MIME-Version: 1.0'', ''Content-Type: text/plain; charset=utf-8'', ''Content-Transfer-Encoding: 8bit'', []] @
    text_lines (utf8_sanitize message) @ [[]]"
proof -
  have l: "mail_lines (h @ v @ cr_lf @ s) = (h @ v) # mail_lines s" if "one_line v" "CHR 0x0D \<notin> set h" for h v s
    using that mail_lines_line [of "h @ v" s] one_line_no_cr by auto
  have heads: "mail_lines (''From: '' @ header_value x @ cr_lf @ s) = (''From: '' @ header_value x) # mail_lines s"
    "mail_lines (''To: '' @ header_value x @ cr_lf @ s) = (''To: '' @ header_value x) # mail_lines s"
    "mail_lines (''Subject: '' @ header_text_2047 x @ cr_lf @ s) = (''Subject: '' @ header_text_2047 x) # mail_lines s"
    "mail_lines (''Date: '' @ date @ cr_lf @ s) = (''Date: '' @ date) # mail_lines s" for x s
    by (rule l; simp add: assms)+
  have fixed: "mail_lines (''MIME-Version: 1.0'' @ cr_lf @ s) = ''MIME-Version: 1.0'' # mail_lines s"
    "mail_lines (''Content-Type: text/plain; charset=utf-8'' @ cr_lf @ s) = ''Content-Type: text/plain; charset=utf-8'' # mail_lines s"
    "mail_lines (''Content-Transfer-Encoding: 8bit'' @ cr_lf @ s) = ''Content-Transfer-Encoding: 8bit'' # mail_lines s"
    "mail_lines (cr_lf @ s) = [] # mail_lines s" for s
    using mail_lines_line [of "[]" s] by (simp_all add: mail_lines_line del: mail_lines.simps append_Cons)
  show ?thesis unfolding smtp_message_def heads fixed mail_body_snoc by (simp only: append_Cons append_Nil)
qed

section \<open>What the receivers decode\<close>

text \<open>A form value, as \<open>application/x-www-form-urlencoded\<close> has it.\<close>

fun form_decode :: "string \<Rightarrow> string" where
  "form_decode [] = []"
| "form_decode (c # s) =
     (if c = CHR ''+'' then CHR '' '' # form_decode s
      else if c = CHR ''%''
      then (case s of h # l # r \<Rightarrow>
              (case (hex_value h, hex_value l) of (Some a, Some b) \<Rightarrow> char_of (16 * a + b) # form_decode r | _ \<Rightarrow> c # form_decode s)
            | _ \<Rightarrow> c # form_decode s)
      else c # form_decode s)"

definition form_char :: "char \<Rightarrow> bool" where
  "form_char c = (c \<noteq> CHR ''&'' \<and> c \<noteq> CHR ''='' \<and> \<not> control_char c \<and> (of_char c :: nat) < 0x80)"

lemma hex_upper_form: "d < 16 \<Longrightarrow> form_char (hex_upper d)"
proof -
  assume "d < 16"
  then have "(of_char (hex_upper d) :: nat) = (if d < 10 then 48 + d else 55 + d)" by (simp add: hex_upper_def of_char_of)
  then show ?thesis using \<open>d < 16\<close> by (auto simp: form_char_def control_char_def split: if_splits)
qed

lemma hex_value_upper: "d < 16 \<Longrightarrow> hex_value (hex_upper d) = Some d"
  by (auto simp: hex_upper_def hex_value_def of_char_of Let_def)

lemma char_nibbles: "(of_char c :: nat) div 16 < 16" "(of_char c :: nat) mod 16 < 16"
  by (rule less_mult_imp_div_less) (use nat_of_char_less_256 [of c] in simp_all)

lemma url_encode_then: "form_decode (url_encode s @ t) = s @ form_decode t"
proof (induction s)
  case (Cons c s)
  have u: "c \<noteq> CHR ''+''" "c \<noteq> CHR ''%''" if "unreserved c" using that by (auto simp: unreserved_def Let_def)
  show ?case using Cons u by (auto simp: hex_value_upper char_nibbles)
qed simp

lemma url_encode_chars: "list_all form_char (url_encode s)"
proof (induction s)
  case (Cons c s)
  have "unreserved c \<Longrightarrow> form_char c" by (auto simp: unreserved_def Let_def form_char_def control_char_def)
  moreover have "form_char (CHR ''+'')" "form_char (CHR ''%'')" by (simp_all add: form_char_def control_char_def)
  ultimately show ?case using Cons hex_upper_form [OF char_nibbles(1)] hex_upper_form [OF char_nibbles(2)] by simp
qed simp

lemma url_encode_pair: "CHR ''='' \<notin> set k \<Longrightarrow> CHR ''&'' \<notin> set k \<Longrightarrow> k \<noteq> [] \<Longrightarrow> \<not> is_blank (hd k) \<Longrightarrow> pair_ok (CHR ''&'') (k, url_encode v)"
  using url_encode_chars [of v] by (auto simp: pair_ok_def list_all_iff form_char_def)

text \<open>A quoted value of a \<open>curl\<close> config file: what its reader takes up to the closing quote.\<close>

fun config_read :: "string \<Rightarrow> string option \<times> string" where
  "config_read [] = (None, [])"
| "config_read [c] = (if c = quot then (Some [], []) else (None, []))"
| "config_read (c # d # s) =
     (if c = bslash
      then (let e = (if d = CHR ''n'' then CHR 0x0A else if d = CHR ''r'' then CHR 0x0D else if d = CHR ''t'' then CHR 0x09 else d); (v, r) = config_read s
            in (map_option ((#) e) v, r))
      else if c = quot then (Some [], d # s)
      else let (v, r) = config_read (d # s) in (map_option ((#) c) v, r))"

lemma config_read_char: "c \<noteq> bslash \<Longrightarrow> c \<noteq> quot \<Longrightarrow> s \<noteq> [] \<Longrightarrow> config_read (c # s) = (map_option ((#) c) (fst (config_read s)), snd (config_read s))"
  by (cases s) (auto split: prod.split)

lemma config_read_val: "config_read (concat (map config_char v) @ quot # s) = (Some v, s)"
proof (induction v)
  case Nil
  show ?case by (cases s) auto
next
  case (Cons c v)
  consider "c \<in> {bslash, quot, CHR 0x0A, CHR 0x0D, CHR 0x09}" | "config_char c = [c]" "c \<noteq> bslash" "c \<noteq> quot"
    by (cases "c \<in> {bslash, quot, CHR 0x0A, CHR 0x0D, CHR 0x09}") (auto simp: config_char_def)
  then show ?case
  proof cases
    case 1
    then show ?thesis using Cons by (auto simp: config_char_def [of c])
  next
    case 2
    then show ?thesis using Cons config_read_char [of c "concat (map config_char v) @ quot # s"] by simp
  qed
qed

lemma config_char_no_break: "\<not> breaks (concat (map config_char v))"
  by (induction v) (auto simp: breaks_def config_char_def)

text \<open>Text in pieces inside a JSON string.\<close>

lemma json_escapes_then: "json_escapes (json_escape s @ t) = json_escapes t"
proof (induction s rule: json_escape.induct)
  case (2 c r)
  consider "(of_char c :: nat) < 0x80" | "\<not> (of_char c :: nat) < 0x80" "utf8_len (c # r) = 0"
    | "\<not> (of_char c :: nat) < 0x80" "utf8_len (c # r) \<noteq> 0" by blast
  then show ?case
  proof cases
    case 1
    then show ?thesis using 2 by (simp add: json_escapes_ascii)
  next
    case 2
    then show ?thesis using "2.IH"(1) by (simp add: hex_value_def)
  next
    case 3
    have "list_all (\<lambda>x. x \<noteq> bslash \<and> x \<noteq> quot \<and> 0x20 \<le> (of_char x :: nat)) (take (utf8_len (c # r)) (c # r))"
      using high_chars [OF 3(2)] by (fastforce simp: list_all_iff)
    from json_escapes_plain [OF this] show ?thesis using 3 "2.IH" by (simp add: Let_def)
  qed
qed simp

lemma utf8_ok_then: "utf8_ok s \<Longrightarrow> utf8_ok (s @ t) = utf8_ok t"
proof (induction s rule: utf8_ok.induct)
  case (2 c r)
  show ?case
  proof (cases "(of_char c :: nat) < 0x80")
    case True
    then show ?thesis using 2 by simp
  next
    case False
    let ?n = "utf8_len (c # r)"
    have n: "?n \<noteq> 0" "utf8_ok (drop (?n - 1) r)" using "2.prems" False by auto
    have "c # r @ t = take ?n (c # r) @ drop (?n - 1) r @ t" using n(1) by (cases ?n) simp_all
    then show ?thesis using utf8_ok_append_seq [OF n(1), of "drop (?n - 1) r @ t"] "2.IH"(2) [OF False n(2)] by (simp only: append_Cons)
  qed
qed simp

lemma severity_words: "plain_word (''['' @ severity_name sev @ ''] '')" "bslash \<notin> set (''['' @ severity_name sev @ ''] '')"
  by (cases sev; simp add: severity_name_def plain_word_def)+

section \<open>Temporary files and command lines\<close>

definition fresh_os :: "alert_os \<Rightarrow> bool" where
  "fresh_os os = (\<forall>k. fresh_names (ao_tmp os k))"

definition os_name :: "alert_os \<Rightarrow> string \<Rightarrow> bool" where
  "os_name os p = (\<exists>k. tmp_name (ao_tmp os k) p)"

text \<open>The files that \<open>curl\<close> writes, by its options (those used here): all the others stay as they are.\<close>

fun curl_writes :: "string list \<Rightarrow> string set" where
  "curl_writes [] = {}"
| "curl_writes [w] = {}"
| "curl_writes (w # p # r) =
     (if w = ''-q'' \<or> w = ''-sS'' then curl_writes (p # r)
      else if w = ''--stderr'' \<or> w = ''-D'' \<or> w = ''-o'' then insert p (curl_writes r)
      else curl_writes r)"

definition curl_ok :: "alert_os \<Rightarrow> bool" where
  "curl_ok os = (\<forall>k argv fs p. p \<notin> curl_writes (tl argv) \<longrightarrow> ao_curl os k argv fs p = fs p)"

lemma write_tmp_ok:
  assumes "fresh_os os" "write_tmp os body st = (r, st')"
  shows "cs_runs st' = cs_runs st \<and>
    (case r of Inl _ \<Rightarrow> cs_files st' = cs_files st
     | Inr p \<Rightarrow> cs_files st p = None \<and> CHR 0x00 \<notin> set p \<and> os_name os p \<and> cs_files st' = (cs_files st)(p \<mapsto> body))"
proof -
  obtain q fs' where w: "write_private_tmp (ao_tmp os (cs_calls st)) (Some ''budyk_alert_'') body kPathMax (cs_files st) = (q, fs')" by fastforce
  have "fresh_names (ao_tmp os (cs_calls st))" using assms(1) by (simp add: fresh_os_def)
  from write_private_tmp_ok [OF this w] w assms(2) show ?thesis by (auto simp: write_tmp_def os_name_def split: sum.splits)
qed

text \<open>Besides the files there were, these, which were made here, with their contents.\<close>

definition with_tmps :: "alert_os \<Rightarrow> files \<Rightarrow> string list \<Rightarrow> string list \<Rightarrow> files \<Rightarrow> bool" where
  "with_tmps os fs0 made contents fs =
     (length made = length contents \<and> distinct made \<and> map fs made = map Some contents \<and>
      list_all (\<lambda>p. fs0 p = None \<and> CHR 0x00 \<notin> set p \<and> os_name os p) made \<and> (\<forall>p. p \<notin> set made \<longrightarrow> fs p = fs0 p))"

lemma cleanup_files: "cs_files (cleanup made st) p = (if p \<in> set made then None else cs_files st p)"
proof -
  have "fold (\<lambda>p fs. fs(p := None)) made fs p = (if p \<in> set made then None else fs p)" for fs :: files
    by (induction made arbitrary: fs) auto
  then show ?thesis by (simp add: cleanup_def)
qed

lemma cleanup_runs [simp]: "cs_runs (cleanup made st) = cs_runs st"
  by (simp add: cleanup_def)

lemma with_tmps_cleanup:
  assumes "with_tmps os fs0 made contents fs" "\<And>p. p \<notin> set made \<Longrightarrow> cs_files st p = fs p"
  shows "cs_files (cleanup made st) = fs0"
  using assms by (auto simp: cleanup_files with_tmps_def list_all_iff intro!: ext)

lemma make_tmps_ok:
  assumes "fresh_os os" "with_tmps os fs0 made before (cs_files st)" "make_tmps os contents made st = (r, st')"
  shows "cs_runs st' = cs_runs st \<and>
    (case r of Inl _ \<Rightarrow> cs_files st' = fs0 | Inr made' \<Rightarrow> with_tmps os fs0 made' (before @ contents) (cs_files st'))"
  using assms(2,3)
proof (induction contents arbitrary: made before st)
  case (Cons c cs)
  obtain q st1 where w: "write_tmp os c st = (q, st1)" by fastforce
  note ok = write_tmp_ok [OF assms(1) w]
  show ?case
  proof (cases q)
    case (Inl why)
    then have "st' = cleanup made st1" "r = Inl why" using Cons.prems(2) w by auto
    then show ?thesis using with_tmps_cleanup [OF Cons.prems(1), of st1] ok Inl by auto
  next
    case (Inr p)
    then have m: "make_tmps os cs (made @ [p]) st1 = (r, st')" using Cons.prems(2) w by simp
    have p: "cs_files st p = None" "CHR 0x00 \<notin> set p" "os_name os p" "cs_files st1 = (cs_files st)(p \<mapsto> c)" using ok Inr by auto
    have new: "p \<notin> set made" "fs0 p = None"
    proof -
      have "cs_files st q \<noteq> None" if "q \<in> set made" for q
      proof -
        have "map (cs_files st) made = map Some before" using Cons.prems(1) by (simp add: with_tmps_def)
        from arg_cong [OF this, of set] show ?thesis using that by auto
      qed
      then show "p \<notin> set made" using p(1) by blast
      then show "fs0 p = None" using p(1) Cons.prems(1) by (auto simp: with_tmps_def)
    qed
    have "map (cs_files st1) made = map (cs_files st) made" using new(1) p(4) by auto
    then have "with_tmps os fs0 (made @ [p]) (before @ [c]) (cs_files st1)"
      using Cons.prems(1) p new by (auto simp: with_tmps_def)
    from Cons.IH [OF this m] show ?thesis using ok by (cases r) auto
  qed
qed auto

lemma run_curl_ok:
  assumes "fresh_os os" "curl_ok os" "run_curl os args timeout st = Some (why, st')"
    and "map c_str args = args'"
  shows "(cs_files st' = cs_files st \<and> cs_runs st' = cs_runs st \<and> why \<noteq> None) \<or>
    (\<exists>err. os_name os err \<and> (\<forall>p. p \<notin> curl_writes args' \<longrightarrow> cs_files st' p = cs_files st p) \<and>
       cs_runs st' = cs_runs st @ [([''curl'', ''-q'', ''--stderr'', err] @ args', (cs_files st)(err \<mapsto> []))] \<and> cs_files st err = None)"
proof -
  obtain q st1 where w: "write_tmp os [] st = (q, st1)" by fastforce
  note ok = write_tmp_ok [OF assms(1) w]
  show ?thesis
  proof (cases q)
    case (Inl e)
    then show ?thesis using ok assms(3) w by (auto simp: run_curl_def)
  next
    case (Inr err)
    then have e: "cs_files st err = None" "CHR 0x00 \<notin> set err" "os_name os err" "cs_files st1 = (cs_files st)(err \<mapsto> [])" using ok by auto
    let ?argv = "[''curl'', ''-q'', ''--stderr'', err] @ args'"
    have argv: "map c_str ([''curl'', ''-q'', ''--stderr'', err] @ args) = ?argv"
      using e(2) assms(4) by (simp add: c_str_id)
    have writes: "curl_writes (tl ?argv) = insert err (curl_writes args')" by simp
    obtain rc :: int where rc: "st' = st1\<lparr>cs_files := (if rc = - 4 then cs_files st1 else ao_curl os (cs_calls st1) ?argv (cs_files st1))(err := None),
        cs_calls := cs_calls st1 + 1, cs_runs := cs_runs st1 @ [(?argv, cs_files st1)]\<rparr>"
      using assms(3) unfolding run_curl_def w Inr prod.case sum.case Let_def argv by (auto split: option.splits)
    define fs where "fs = (if rc = - 4 then cs_files st1 else ao_curl os (cs_calls st1) ?argv (cs_files st1))"
    note fs = rc [folded fs_def]
    have "cs_files st' p = cs_files st p" if "p \<notin> curl_writes args'" for p
    proof (cases "p = err")
      case False
      then have "fs p = cs_files st1 p" using assms(2) that writes unfolding curl_ok_def fs_def by auto
      then show ?thesis using False e(4) fs by simp
    qed (use fs e(1) in simp)
    then show ?thesis using e fs ok by auto
  qed
qed

text \<open>The command lines that may be run: option words and the names of temporary files, in which are the contents.\<close>

definition post_run :: "alert_os \<Rightarrow> string \<Rightarrow> string \<Rightarrow> string \<Rightarrow> string list \<Rightarrow> string list \<times> files \<Rightarrow> bool" where
  "post_run os url user_pass body headers run =
     (\<exists>err b h rh rb c fs. list_all (os_name os) [err, b, h, rh, rb, c] \<and>
        run = ([''curl'', ''-q'', ''--stderr'', err, ''-sS'', ''-X'', ''POST'', ''-H'', ''@'' @ h, ''--data-binary'', ''@'' @ b,
                ''-D'', rh, ''-o'', rb, ''--max-time'', ''10'', ''-K'', c], fs) \<and>
        fs b = Some body \<and> fs h = Some (concat (map (\<lambda>h. h @ [CHR 0x0A]) headers)) \<and> fs c = Some (curl_config url user_pass))"

definition smtp_run :: "alert_os \<Rightarrow> string \<Rightarrow> string \<Rightarrow> string \<Rightarrow> string \<Rightarrow> string \<Rightarrow> string list \<times> files \<Rightarrow> bool" where
  "smtp_run os url user_pass from_addr to_addr message run =
     (\<exists>err b c fs. list_all (os_name os) [err, b, c] \<and>
        run = ([''curl'', ''-q'', ''--stderr'', err, ''-sS'', ''--mail-from'', c_str from_addr, ''--mail-rcpt'', c_str to_addr, ''-T'', b,
                ''--max-time'', ''15'', ''-K'', c], fs) \<and>
        fs b = Some message \<and> fs c = Some (curl_config url user_pass))"

lemma post_runI:
  assumes "list_all (os_name os) [err, b, h, rh, rb, c]"
    and "fs b = Some body" "fs h = Some (concat (map (\<lambda>h. h @ [CHR 0x0A]) headers))" "fs c = Some (curl_config url user_pass)"
  shows "post_run os url user_pass body headers
    ([''curl'', ''-q'', ''--stderr'', err, ''-sS'', ''-X'', ''POST'', ''-H'', ''@'' @ h, ''--data-binary'', ''@'' @ b,
      ''-D'', rh, ''-o'', rb, ''--max-time'', ''10'', ''-K'', c], fs)"
  unfolding post_run_def using assms by blast

lemma with_tmps_start: "with_tmps os fs [] [] fs"
  by (simp add: with_tmps_def)

lemma list5: "length xs = 5 \<Longrightarrow> \<exists>a b c d e. xs = [a, b, c, d, e]"
  by (auto simp: numeral_eq_Suc length_Suc_conv)

lemma list2: "length xs = 2 \<Longrightarrow> \<exists>a b. xs = [a, b]"
  by (auto simp: numeral_eq_Suc length_Suc_conv)

lemma c_str_words [simp]:
  "c_str ''-sS'' = ''-sS''" "c_str ''-X'' = ''-X''" "c_str ''POST'' = ''POST''" "c_str ''-H'' = ''-H''" "c_str ''--data-binary'' = ''--data-binary''"
  "c_str ''-D'' = ''-D''" "c_str ''-o'' = ''-o''" "c_str ''--max-time'' = ''--max-time''" "c_str ''10'' = ''10''" "c_str ''-K'' = ''-K''"
  "c_str ''--mail-from'' = ''--mail-from''" "c_str ''--mail-rcpt'' = ''--mail-rcpt''" "c_str ''-T'' = ''-T''" "c_str ''15'' = ''15''"
  by (simp_all add: c_str_id)

lemma curl_post_ok:
  assumes "fresh_os os" "curl_ok os" "curl_post os url user_pass body headers st = Some (why, st')"
  shows "cs_files st' = cs_files st \<and>
    (cs_runs st' = cs_runs st \<and> why \<noteq> None \<or> (\<exists>run. cs_runs st' = cs_runs st @ [run] \<and> post_run os url user_pass body headers run))"
proof -
  let ?hs = "concat (map (\<lambda>h. h @ [CHR 0x0A]) headers)"
  obtain q st1 where m: "make_tmps os [body, ?hs, [], [], curl_config url user_pass] [] st = (q, st1)" by fastforce
  note ok = make_tmps_ok [OF assms(1) with_tmps_start m]
  show ?thesis
  proof (cases q)
    case (Inl e)
    then show ?thesis using ok m assms(3) by (auto simp: curl_post_def simp del: make_tmps.simps)
  next
    case (Inr made)
    then have w: "with_tmps os (cs_files st) made [body, ?hs, [], [], curl_config url user_pass] (cs_files st1)" "cs_runs st1 = cs_runs st"
      using ok by simp_all
    then obtain b h rh rb c where made: "made = [b, h, rh, rb, c]" using list5 [of made] by (auto simp: with_tmps_def)
    let ?args = "[''-sS'', ''-X'', ''POST'', ''-H'', ''@'' @ h, ''--data-binary'', ''@'' @ b, ''-D'', rh, ''-o'', rb, ''--max-time'', ''10'', ''-K'', c]"
    have names: "list_all (\<lambda>p. CHR 0x00 \<notin> set p \<and> os_name os p) made" using w(1) by (auto simp: with_tmps_def list_all_iff)
    have cs: "map c_str ?args = ?args" using names by (simp add: made c_str_id)
    obtain why1 st2 where r: "run_curl os ?args 15 st1 = Some (why1, st2)" and st': "st' = cleanup made st2" and why: "why1 \<noteq> None \<Longrightarrow> why \<noteq> None"
      using assms(3) m Inr made by (auto simp: curl_post_def split: option.splits)
    have files: "p \<notin> set made \<Longrightarrow> cs_files st2 p = cs_files st1 p" for p
      using run_curl_ok [OF assms(1,2) r cs] made by auto
    have "cs_runs st2 = cs_runs st1 \<and> why1 \<noteq> None \<or> (\<exists>run. cs_runs st2 = cs_runs st1 @ [run] \<and> post_run os url user_pass body headers run)"
      using run_curl_ok [OF assms(1,2) r cs]
    proof (elim disjE exE conjE)
      fix err assume e: "os_name os err" "cs_runs st2 = cs_runs st1 @ [([''curl'', ''-q'', ''--stderr'', err] @ ?args, (cs_files st1)(err \<mapsto> []))]"
        "cs_files st1 err = None"
      have "map (cs_files st1) made = map Some [body, ?hs, [], [], curl_config url user_pass]" using w(1) by (simp add: with_tmps_def)
      then have "err \<notin> set made" "cs_files st1 b = Some body" "cs_files st1 h = Some ?hs" "cs_files st1 c = Some (curl_config url user_pass)"
        using e(3) made by auto
      then have "post_run os url user_pass body headers ([''curl'', ''-q'', ''--stderr'', err] @ ?args, (cs_files st1)(err \<mapsto> []))"
        unfolding append_Cons append_Nil using names e(1) made by (intro post_runI [unfolded append_Cons append_Nil]) auto
      then show ?thesis using e(2) by blast
    qed blast
    then show ?thesis using with_tmps_cleanup [OF w(1) files] st' w(2) why by auto
  qed
qed

lemma curl_smtp_ok:
  assumes "fresh_os os" "curl_ok os" "curl_smtp os url user_pass from_addr to_addr message st = Some (why, st')"
  shows "cs_files st' = cs_files st \<and>
    (cs_runs st' = cs_runs st \<and> why \<noteq> None \<or> (\<exists>run. cs_runs st' = cs_runs st @ [run] \<and> smtp_run os url user_pass from_addr to_addr message run))"
proof -
  obtain q st1 where m: "make_tmps os [message, curl_config url user_pass] [] st = (q, st1)" by fastforce
  note ok = make_tmps_ok [OF assms(1) with_tmps_start m]
  show ?thesis
  proof (cases q)
    case (Inl e)
    then show ?thesis using ok m assms(3) by (auto simp: curl_smtp_def simp del: make_tmps.simps)
  next
    case (Inr made)
    then have w: "with_tmps os (cs_files st) made [message, curl_config url user_pass] (cs_files st1)" "cs_runs st1 = cs_runs st"
      using ok by simp_all
    then obtain b c where made: "made = [b, c]" using list2 [of made] by (auto simp: with_tmps_def)
    let ?args = "[''-sS'', ''--mail-from'', from_addr, ''--mail-rcpt'', to_addr, ''-T'', b, ''--max-time'', ''15'', ''-K'', c]"
    let ?args' = "[''-sS'', ''--mail-from'', c_str from_addr, ''--mail-rcpt'', c_str to_addr, ''-T'', b, ''--max-time'', ''15'', ''-K'', c]"
    have names: "list_all (\<lambda>p. CHR 0x00 \<notin> set p \<and> os_name os p) made" using w(1) by (auto simp: with_tmps_def list_all_iff)
    have cs: "map c_str ?args = ?args'" using names by (simp add: made c_str_id)
    obtain why1 st2 where r: "run_curl os ?args 20 st1 = Some (why1, st2)" and st': "st' = cleanup made st2" and why: "why1 \<noteq> None \<Longrightarrow> why \<noteq> None"
      using assms(3) m Inr made by (auto simp: curl_smtp_def split: option.splits)
    have files: "p \<notin> set made \<Longrightarrow> cs_files st2 p = cs_files st1 p" for p
      using run_curl_ok [OF assms(1,2) r cs] by auto
    have "cs_runs st2 = cs_runs st1 \<and> why1 \<noteq> None \<or> (\<exists>run. cs_runs st2 = cs_runs st1 @ [run] \<and> smtp_run os url user_pass from_addr to_addr message run)"
      using run_curl_ok [OF assms(1,2) r cs]
    proof (elim disjE exE conjE)
      fix err assume e: "os_name os err" "cs_runs st2 = cs_runs st1 @ [([''curl'', ''-q'', ''--stderr'', err] @ ?args', (cs_files st1)(err \<mapsto> []))]"
        "cs_files st1 err = None"
      have "map (cs_files st1) made = map Some [message, curl_config url user_pass]" using w(1) by (simp add: with_tmps_def)
      then have "err \<notin> set made" "cs_files st1 b = Some message" "cs_files st1 c = Some (curl_config url user_pass)" using e(3) made by auto
      then have "smtp_run os url user_pass from_addr to_addr message ([''curl'', ''-q'', ''--stderr'', err] @ ?args', (cs_files st1)(err \<mapsto> []))"
        unfolding smtp_run_def using names e(1) made by (intro exI [of _ err] exI [of _ b] exI [of _ c]) auto
      then show ?thesis using e(2) by blast
    qed blast
    then show ?thesis using with_tmps_cleanup [OF w(1) files] st' w(2) why by auto
  qed
qed

lemma json_chars_plain: "plain_word k \<Longrightarrow> json_chars t \<Longrightarrow> json_chars (k @ t)"
  unfolding plain_word_def json_chars_def by (induction k) auto

lemma json_chars_escape: "json_chars t \<Longrightarrow> json_chars (json_escape s @ t)"
  using json_escape_chars [of s] by (simp add: json_chars_def json_escapes_then utf8_ok_then)

lemma json_chars_content:
  "json_chars (''['' @ severity_name sev @ ''] '' @ json_escape rule_name @ (if message \<noteq> [] then '': '' @ json_escape message else []))"
  "json_chars (''['' @ severity_name sev @ ''] '' @ json_escape rule_name)"
proof -
  have tail: "json_chars (if message \<noteq> [] then '': '' @ json_escape message else [])"
    using json_chars_plain [OF _ json_escape_chars, of "'': ''" message] by (simp add: plain_word_def json_chars_def)
  from json_chars_plain [OF severity_words(1) json_chars_escape [OF tail]]
  show "json_chars (''['' @ severity_name sev @ ''] '' @ json_escape rule_name @ (if message \<noteq> [] then '': '' @ json_escape message else []))"
    by simp
  from json_chars_plain [OF severity_words(1) json_escape_chars]
  show "json_chars (''['' @ severity_name sev @ ''] '' @ json_escape rule_name)" by simp
qed

lemma telegram_object:
  "telegram_payload sev chat rule_name message =
     json_object [json_key ''chat_id'' @ [quot] @ json_escape chat @ [quot], json_key ''text'' @ [quot] @
       (''['' @ severity_name sev @ ''] '' @ json_escape rule_name @ (if message \<noteq> [] then '': '' @ json_escape message else [])) @ [quot]]"
  by (simp add: telegram_payload_def json_object_def json_key_def)

lemma discord_object:
  "discord_payload sev rule_name message =
     json_object [json_key ''embeds'' @ json_array [json_object
       [json_key ''title'' @ [quot] @ (''['' @ severity_name sev @ ''] '' @ json_escape rule_name) @ [quot],
        json_key ''description'' @ [quot] @ json_escape message @ [quot], json_key ''color'' @ severity_color sev]]]"
  by (simp add: discord_payload_def json_object_def json_array_def json_key_def)

lemma payloads_json: "json_value (telegram_payload sev chat rule_name message)" "json_value (discord_payload sev rule_name message)"
proof -
  have w: "plain_word ''chat_id''" "plain_word ''text''" "plain_word ''embeds''" "plain_word ''title''" "plain_word ''description''" "plain_word ''color''"
    by (simp_all add: plain_word_def)
  have str: "json_value ([quot] @ c @ [quot])" if "json_chars c" for c using chars [OF that] by simp
  show "json_value (telegram_payload sev chat rule_name message)"
    unfolding telegram_object by (intro json_object_all) (simp only: list.pred_inject, intro conjI TrueI key_json w str json_escape_chars json_chars_content)
  have "digits 3447003 = ''3447003''" "digits 16753920 = ''16753920''" "digits 15158332 = ''15158332''"
    by (simp_all add: digits.simps char_of_def bit_0)
  then have col: "json_value (severity_color sev)"
    using scalar_json(2) [of 3447003] scalar_json(2) [of 16753920] scalar_json(2) [of 15158332] by (cases sev) (simp_all add: severity_color_def)
  show "json_value (discord_payload sev rule_name message)"
    unfolding discord_object
    by (intro json_object_all) (simp only: list.pred_inject,
      intro conjI TrueI key_json w json_array_all, simp only: list.pred_inject,
      intro conjI TrueI json_object_all, simp only: list.pred_inject, intro conjI TrueI key_json w str json_escape_chars json_chars_content col)
qed

lemma content_decodes:
  "json_unescape (''['' @ severity_name sev @ ''] '' @ json_escape rule_name @ (if message \<noteq> [] then '': '' @ json_escape message else [])) =
     ''['' @ severity_name sev @ ''] '' @ utf8_sanitize rule_name @ (if message \<noteq> [] then '': '' @ utf8_sanitize message else [])"
proof -
  have "json_unescape (if message \<noteq> [] then '': '' @ json_escape message else []) = (if message \<noteq> [] then '': '' @ utf8_sanitize message else [])"
    using json_unescape_plain [of "'': ''" "json_escape message"] by (simp add: json_escape_decodes)
  then show ?thesis using json_unescape_plain [OF severity_words(2)] by (simp add: json_escape_decodes_then)
qed

lemma twilio_fields:
  "query_find (twilio_form from_addr to_addr rule_name message) key = map_of [(''From'', url_encode from_addr), (''To'', url_encode to_addr),
     (''Body'', url_encode (utf8_sanitize (''[budyk] '' @ rule_name @ (if message \<noteq> [] then '': '' @ message else []))))] key"
  if "key \<in> {''From'', ''To'', ''Body''}"
proof -
  let ?kvs = "[(''From'', url_encode from_addr), (''To'', url_encode to_addr),
     (''Body'', url_encode (utf8_sanitize (''[budyk] '' @ rule_name @ (if message \<noteq> [] then '': '' @ message else []))))]"
  have form: "twilio_form from_addr to_addr rule_name message = joined ''&'' ?kvs" by (simp add: twilio_form_def)
  have kvs: "list_all (pair_ok (CHR ''&'')) ?kvs" unfolding list.pred_inject
    by (intro conjI list.pred_inject(1) url_encode_pair) (simp_all add: is_blank_def)
  have key: "CHR ''='' \<notin> set key" "c_str key = key" using that by (auto simp: c_str_id)
  show ?thesis unfolding query_find_def form key(2) by (rule query_scan_joined [OF key(1) kvs])
qed

lemma url_encode_decodes: "form_decode (url_encode s) = s"
  using url_encode_then [of s "[]"] by simp

lemma twilio_decodes:
  "map_option form_decode (query_find (twilio_form from_addr to_addr rule_name message) ''From'') = Some from_addr"
  "map_option form_decode (query_find (twilio_form from_addr to_addr rule_name message) ''To'') = Some to_addr"
  "map_option form_decode (query_find (twilio_form from_addr to_addr rule_name message) ''Body'') =
     Some (utf8_sanitize (''[budyk] '' @ rule_name @ (if message \<noteq> [] then '': '' @ message else [])))"
  by (simp_all add: twilio_fields url_encode_decodes del: url_encode.simps utf8_sanitize.simps append_Cons)

section \<open>Counting\<close>

text \<open>During every run the clock goes on (some poll is 20 seconds after the start or later), and a killed child ends.\<close>

definition runs_end :: "alert_os \<Rightarrow> bool" where
  "runs_end os = (\<forall>k. sigkill_ends (ew_pid (ao_exec os k)) (ew_reaps (ao_exec os k)) \<and>
     (\<exists>p \<in> set (ew_polls (ao_exec os k)). ew_start (ao_exec os k) + 20000000000 \<le> po_now p))"

lemma exec_command_ends:
  assumes "sigkill_ends (ew_pid w) (ew_reaps w)" "p \<in> set (ew_polls w)" "ew_start w + timeout * 1000000000 \<le> po_now p"
  shows "exec_command w argv timeout out \<noteq> None"
proof -
  have "\<not> goes_on (ew_start w + timeout * 1000000000) p" using assms(3) by (simp add: goes_on_def)
  then have "wait_with_timeout (ew_pid w) (ew_start w) timeout (ew_reaps w) (ew_polls w) exec_result_0 \<noteq> None"
    using wait_loop_ends [OF assms(1,2)] by (auto simp: wait_with_timeout_def)
  then show ?thesis by (auto simp: exec_command_def Let_def)
qed

lemma run_curl_ends:
  assumes "runs_end os" "timeout \<le> 20"
  shows "run_curl os args timeout st \<noteq> None"
proof -
  obtain q st1 where w: "write_tmp os [] st = (q, st1)" by fastforce
  obtain p where "sigkill_ends (ew_pid (ao_exec os (cs_calls st1))) (ew_reaps (ao_exec os (cs_calls st1)))"
    "p \<in> set (ew_polls (ao_exec os (cs_calls st1)))" "ew_start (ao_exec os (cs_calls st1)) + 20000000000 \<le> po_now p"
    using assms(1) by (auto simp: runs_end_def)
  then have ne: "exec_command (ao_exec os (cs_calls st1)) argv timeout out \<noteq> None" for argv out
    using assms(2) by (intro exec_command_ends [of _ p]) simp_all
  show ?thesis unfolding run_curl_def w prod.case Let_def by (auto simp: ne split: sum.split option.split)
qed

lemma if_cases: "(c \<Longrightarrow> P a) \<Longrightarrow> (\<not> c \<Longrightarrow> P b) \<Longrightarrow> P (if c then a else b)"
  by simp

text \<open>A send is refused at once, or is one POST, or one mail.\<close>

lemma send_one_cases:
  assumes "\<And>why. P (Some (Some why, st))" "\<And>url up body hs. P (curl_post os url up body hs st)"
    and "\<And>m. ac_type ch = ''smtp'' \<Longrightarrow> P (curl_smtp os (ac_url ch) (ac_token ch) (ac_from ch) (ac_topic ch) m st)"
  shows "P (send_one os ch sev rule_name message st)"
  unfolding send_one_def by (intro if_cases [where P = P]) (rule assms, assumption?)+

lemma send_one_ends:
  assumes "runs_end os"
  shows "\<exists>why st'. send_one os ch sev rule_name message st = Some (why, st')"
proof -
  have post: "\<exists>why st'. curl_post os url up body hs st = Some (why, st')" for url up body hs
  proof -
    obtain q st1 where m: "make_tmps os [body, concat (map (\<lambda>h. h @ [CHR 0x0A]) hs), [], [], curl_config url up] [] st = (q, st1)" by fastforce
    have ne: "run_curl os args 15 st1 \<noteq> None" for args by (rule run_curl_ends [OF assms]) simp
    show ?thesis unfolding curl_post_def Let_def m by (auto simp: ne split: sum.split option.split)
  qed
  have smtp: "\<exists>why st'. curl_smtp os url up from_addr to_addr body st = Some (why, st')" for url up from_addr to_addr body
  proof -
    obtain q st1 where m: "make_tmps os [body, curl_config url up] [] st = (q, st1)" by fastforce
    have ne: "run_curl os args 20 st1 \<noteq> None" for args by (rule run_curl_ends [OF assms]) simp
    show ?thesis unfolding curl_smtp_def m by (auto simp: ne split: sum.split option.split)
  qed
  show ?thesis using post smtp by (intro send_one_cases [where P = "\<lambda>r. \<exists>why st'. r = Some (why, st')"]) auto
qed

section \<open>What it promises\<close>

text \<open>C31: Nobody's text can add a line to what is sent. The headers given to ntfy are one line each whatever the rule's name holds. A mail, read as SMTP reads it, has exactly
  the seven header lines and the blank one, then the lines of the message's text, however it broke them, then
  the end: a line break in a name or an address never starts a header, and none in the message is a bare CR or LF.\<close>

theorem alert_lines_intact:
  assumes "one_line date"
  shows "length (ntfy_headers sev rule_name) = 3 \<and> list_all one_line (ntfy_headers sev rule_name) \<and>
    mail_lines (smtp_message date sev from_addr to_addr rule_name message) =
      [''From: '' @ header_value from_addr, ''To: '' @ header_value to_addr,
       ''Subject: '' @ header_text_2047 (''[budyk:'' @ severity_name sev @ ''] '' @ rule_name), ''Date: '' @ date,
       ''MIME-Version: 1.0'', ''Content-Type: text/plain; charset=utf-8'', ''Content-Transfer-Encoding: 8bit'', []] @
      text_lines (utf8_sanitize message) @ [[]] \<and>
    list_all (\<lambda>l. \<not> breaks l) (mail_lines (smtp_message date sev from_addr to_addr rule_name message))"
proof -
  have nb: "one_line l \<Longrightarrow> \<not> breaks l" for l by (auto simp: one_line_def breaks_def list_all_iff control_char_def)
  have names: "one_line ''Title: ''" "one_line (''Priority: '' @ ntfy_priority sev)" "one_line (''Tags: '' @ severity_name sev)"
    "one_line ''From: ''" "one_line ''To: ''" "one_line ''Subject: ''" "one_line ''Date: ''" "one_line ''MIME-Version: 1.0''"
    "one_line ''Content-Type: text/plain; charset=utf-8''" "one_line ''Content-Transfer-Encoding: 8bit''" "one_line []"
    by (cases sev; simp add: one_line_def control_char_def ntfy_priority_def severity_name_def)+
  have heads: "one_line (''From: '' @ header_value from_addr)" "one_line (''To: '' @ header_value to_addr)"
    "one_line (''Subject: '' @ header_text_2047 x)" "one_line (''Date: '' @ date)" "one_line (''Title: '' @ header_text_2047 x)" for x
    unfolding one_line_append using names assms by simp_all
  have "length (ntfy_headers sev rule_name) = 3" by (simp add: ntfy_headers_def)
  moreover have "list_all one_line (ntfy_headers sev rule_name)"
    unfolding ntfy_headers_def list.pred_inject by (intro conjI heads names list.pred_inject(1))
  moreover have "list_all (\<lambda>l. \<not> breaks l) (mail_lines (smtp_message date sev from_addr to_addr rule_name message))"
    unfolding smtp_lines [OF assms] list_all_append list.pred_inject
    by (intro conjI nb heads names list.pred_inject(1) text_lines_clean(1))
  ultimately show ?thesis using smtp_lines [OF assms] by blast
qed

theorem alert_lines_intact_witness:
  "list_all one_line (ntfy_headers Info [CHR ''a'', CHR 0x0A, CHR ''b'']) \<and>
   mail_lines (smtp_message ''now'' Info ''me'' ''you'' ''r'' [CHR ''x'', CHR 0x0A, CHR ''.'']) =
     [''From: me'', ''To: you'', ''Subject: [budyk:info] r'', ''Date: now'', ''MIME-Version: 1.0'',
      ''Content-Type: text/plain; charset=utf-8'', ''Content-Transfer-Encoding: 8bit'', [], ''x'', ''.'', []]"
proof -
  have "one_line ''now''" by (simp add: one_line_def control_char_def)
  from alert_lines_intact [OF this, of Info "[CHR ''a'', CHR 0x0A, CHR ''b'']" "''me''" "''you''"]
    alert_lines_intact [OF this, of Info "''r''" "''me''" "''you''" "[CHR ''x'', CHR 0x0A, CHR ''.'']"]
  show ?thesis by (simp add: header_value_def header_text_2047_def control_char_def severity_name_def)
qed

text \<open>C34: A header's text arrives: a text of ASCII goes out as it is, its control characters as blanks; any other as words of RFC 2047, each at most 75 characters
  long, each the Base64 of whole characters of valid UTF-8, which put together are the text with its broken bytes replaced.\<close>

theorem header_text_roundtrip:
  "(list_all (\<lambda>c. (of_char c :: nat) < 0x80) (header_value s) \<and> header_text_2047 s = header_value s) \<or>
   (\<exists>pieces. header_text_2047 s = spaced (map encoded_word pieces) \<and> concat pieces = utf8_sanitize (header_value s) \<and> list_all piece_ok pieces)"
  by (rule header_text_words)


text \<open>What is to be sent to a channel: the address, the credentials, the body and the headers of its POST, or the mail.\<close>

definition sent_to_channel :: "alert_os \<Rightarrow> string \<Rightarrow> alert_channel \<Rightarrow> alert_severity \<Rightarrow> string \<Rightarrow> string \<Rightarrow> string list \<times> files \<Rightarrow> bool" where
  "sent_to_channel os date ch sev rule_name message run \<longleftrightarrow>
     (ac_type ch = ''ntfy'' \<and> post_run os (ntfy_url ch) [] (ntfy_payload message) (ntfy_headers sev rule_name) run) \<or>
     (ac_type ch = ''discord'' \<and> post_run os (ac_url ch) [] (discord_payload sev rule_name message) [''Content-Type: application/json''] run) \<or>
     (ac_type ch = ''telegram'' \<and> ac_url ch \<noteq> [] \<and>
        post_run os (ac_url ch) [] (telegram_payload sev (ac_topic ch) rule_name message) [''Content-Type: application/json''] run) \<or>
     (ac_type ch = ''telegram'' \<and> ac_url ch = [] \<and>
        post_run os (''https://api.telegram.org/bot'' @ ac_token ch @ ''/sendMessage'') []
          (telegram_payload sev (ac_topic ch) rule_name message) [''Content-Type: application/json''] run) \<or>
     (ac_type ch = ''smtp'' \<and> (ac_token ch = [] \<or> CHR '':'' \<in> set (ac_token ch)) \<and>
        smtp_run os (ac_url ch) (ac_token ch) (ac_from ch) (ac_topic ch)
          (smtp_message date sev (ac_from ch) (ac_topic ch) rule_name message) run) \<or>
     (ac_type ch = ''twilio'' \<and> CHR '':'' \<in> set (ac_token ch) \<and>
        post_run os (ac_url ch) (ac_token ch) (twilio_form (ac_from ch) (ac_topic ch) rule_name message)
          [''Content-Type: application/x-www-form-urlencoded''] run)"

lemma send_one_sends:
  assumes ok: "fresh_os os" "curl_ok os" and s: "send_one os ch sev rule_name message st = Some (why, st')"
  shows "cs_files st' = cs_files st \<and>
    (cs_runs st' = cs_runs st \<and> why \<noteq> None \<or>
     (\<exists>run. cs_runs st' = cs_runs st @ [run] \<and> sent_to_channel os (ao_date os (cs_calls st)) ch sev rule_name message run))"
proof -
  note post = curl_post_ok [OF ok] and smtp = curl_smtp_ok [OF ok]
  consider "ac_type ch = ''ntfy''" | "ac_type ch = ''discord''" | "ac_type ch = ''telegram''" | "ac_type ch = ''smtp''" | "ac_type ch = ''twilio''"
    | "ac_type ch \<notin> {''ntfy'', ''discord'', ''telegram'', ''smtp'', ''twilio''}" by blast
  then show ?thesis
  proof cases
    case 1
    then show ?thesis using s post [of "ntfy_url ch"] by (simp add: send_one_def sent_to_channel_def)
  next
    case 2
    then show ?thesis using s post [of "ac_url ch" "[]"] by (simp add: send_one_def sent_to_channel_def json_type_def)
  next
    case 3
    then show ?thesis using s post [of "telegram_url ch" "[]"]
      by (cases "ac_url ch = []") (simp_all add: send_one_def sent_to_channel_def json_type_def telegram_url_def)
  next
    case 4
    then show ?thesis using s smtp [of "ac_url ch"] by (auto simp: send_one_def sent_to_channel_def split: if_splits)
  next
    case 5
    then show ?thesis using s post [of "ac_url ch" "ac_token ch"] by (auto simp: send_one_def sent_to_channel_def split: if_splits)
  next
    case 6
    then show ?thesis using s by (auto simp: send_one_def)
  qed
qed

text \<open>C30: An alert leaves no trace but its run. Whatever fails on the way (a temporary file, the fork, \<open>curl\<close>, the reply), after a send the files are what they
  were before; at most one \<open>curl\<close> was run, and one was whenever the send succeeded. Its command line is made of fixed words and names of temporary files, with the addresses of a mail: the URL, which may hold a token,
  the credentials, the headers and the text are in those files only. And they are those of the channel and the alert: the POST to the channel's address with the body and the headers for this severity, rule and
  message (with the token as the credentials for Twilio, in the address for Telegram, and no credentials else), or the mail of this severity, rule and message from and to the channel's addresses.
  \<open>mkostemp\<close> gives new names, and \<open>curl\<close> writes only the files its options name.\<close>

theorem alert_sends_privately:
  assumes "fresh_os os" "curl_ok os" "send_one os ch sev rule_name message st = Some (why, st')"
  shows "cs_files st' = cs_files st \<and>
    (cs_runs st' = cs_runs st \<and> why \<noteq> None \<or>
     (\<exists>run. cs_runs st' = cs_runs st @ [run] \<and> sent_to_channel os (ao_date os (cs_calls st)) ch sev rule_name message run))"
  by (rule send_one_sends [OF assms])

text \<open>What became of a channel: not tried, or sent with or without success; and the sends in their order, from one state to another.\<close>

datatype outcome = Skipped | Sent "string option"

fun sends :: "alert_os \<Rightarrow> alert_job \<Rightarrow> alert_channel list \<Rightarrow> curl_state \<Rightarrow> outcome list \<Rightarrow> curl_state \<Rightarrow> bool" where
  "sends os job [] st outs st' = (outs = [] \<and> st' = st)"
| "sends os job (ch # chs) st outs st' =
     (case outs of
        Skipped # outs \<Rightarrow> sends os job chs st outs st'
      | Sent why # outs \<Rightarrow> (\<exists>st1. send_one os ch (aj_severity job) (aj_rule job) (aj_message job) st = Some (why, st1) \<and> sends os job chs st1 outs st')
      | [] \<Rightarrow> False)"

text \<open>The channels before which the cancel flag was up.\<close>

definition cancelled_at :: "bool list \<Rightarrow> nat \<Rightarrow> bool" where
  "cancelled_at cancel i \<longleftrightarrow> i < length cancel \<and> cancel ! i"

lemma cancelled_at_tl: "cancelled_at (tl cancel) i = cancelled_at cancel (Suc i)"
  by (cases cancel) (simp_all add: cancelled_at_def)

lemma cancelled_at_0: "cancelled_at cancel 0 \<longleftrightarrow> cancel \<noteq> [] \<and> hd cancel"
  by (cases cancel) (simp_all add: cancelled_at_def)

definition job_done :: "alert_os \<Rightarrow> alert_job \<Rightarrow> alert_channel list \<Rightarrow> bool list \<Rightarrow> alert_dispatcher \<times> curl_state \<Rightarrow> outcome list \<Rightarrow>
    alert_dispatcher \<times> curl_state \<Rightarrow> bool" where
  "job_done os job chs cancel = (\<lambda>(d, st) outs (d', st').
     sends os job chs st outs st' \<and> length outs = length chs \<and> (\<forall>i < length chs. outs ! i = Skipped \<longleftrightarrow> cancelled_at cancel i) \<and>
     ad_delivered d' = ad_delivered d + length (filter (\<lambda>out. out = Sent None) outs) \<and>
     ad_failed d' = ad_failed d + length (filter (\<lambda>out. out \<noteq> Sent None) outs) \<and> ad_worker d' = ad_worker d)"

lemma job_done_step:
  assumes "job_done os job chs (tl cancel) (d1, st1) outs (d', st')"
    and "if cancelled_at cancel 0 then out = Skipped \<and> st1 = st
         else \<exists>why. out = Sent why \<and> send_one os ch (aj_severity job) (aj_rule job) (aj_message job) st = Some (why, st1)"
    and "ad_delivered d1 = ad_delivered d + (if out = Sent None then 1 else 0)"
    and "ad_failed d1 = ad_failed d + (if out = Sent None then 0 else 1)" "ad_worker d1 = ad_worker d"
  shows "job_done os job (ch # chs) cancel (d, st) (out # outs) (d', st')"
proof -
  have "(out # outs) ! i = Skipped \<longleftrightarrow> cancelled_at cancel i" if "i < length (ch # chs)" for i
    using assms(1,2) that by (cases i) (auto simp: job_done_def cancelled_at_tl split: if_splits)
  then show ?thesis using assms by (auto simp: job_done_def split: if_splits)
qed

lemma run_alert_job_done:
  assumes "runs_end os"
  shows "\<exists>outs d' st'. run_alert_job os job chs cancel (d, st) = Some (d', st') \<and> job_done os job chs cancel (d, st) outs (d', st')"
proof (induction chs arbitrary: cancel d st)
  case Nil
  show ?case by (simp add: job_done_def)
next
  case (Cons ch chs)
  obtain why st1 where s: "send_one os ch (aj_severity job) (aj_rule job) (aj_message job) st = Some (why, st1)"
    using send_one_ends [OF assms] by blast
  define out where "out = (if cancelled_at cancel 0 then Skipped else Sent why)"
  define d1 where "d1 = (if cancelled_at cancel 0 then d\<lparr>ad_failed := ad_failed d + 1\<rparr>
    else case why of None \<Rightarrow> d\<lparr>ad_delivered := ad_delivered d + 1\<rparr>
      | Some w \<Rightarrow> d\<lparr>ad_failed := ad_failed d + 1, ad_log := ad_log d @ [send_failed_line ch w]\<rparr>)"
  define st2 where "st2 = (if cancelled_at cancel 0 then st else st1)"
  obtain outs d' st' where ih: "run_alert_job os job chs (tl cancel) (d1, st2) = Some (d', st')" "job_done os job chs (tl cancel) (d1, st2) outs (d', st')"
    using Cons by blast
  have "run_alert_job os job (ch # chs) cancel (d, st) = Some (d', st')"
    using ih(1) s by (auto simp: d1_def st2_def cancelled_at_0 split: option.splits if_splits)
  moreover have "job_done os job (ch # chs) cancel (d, st) (out # outs) (d', st')"
    by (rule job_done_step [OF ih(2)]) (use s in \<open>auto simp: d1_def st2_def out_def split: option.split\<close>)
  ultimately show ?case by blast
qed

text \<open>C32: Every channel of an alert is accounted for, and the worker is never held for good: when the clock goes on during the runs and a killed \<open>curl\<close> ends, the job ends; its channels were tried one after the other, each once,
  except those before which the cancel flag was up, which are skipped; the sends that succeeded are what was added to the delivered count, and the sends that failed together with the skipped channels are what was
  added to the failed count. A dispatch queues
  a job for exactly the complete channels and returns their number, or returns 0: then no channel was complete, or the drop is counted.\<close>

theorem alert_channels_counted:
  assumes "runs_end os"
  shows "(\<exists>outs d' st'. run_alert_job os job chs cancel (d, st) = Some (d', st') \<and>
      sends os job chs st outs st' \<and> length outs = length chs \<and> (\<forall>i < length chs. outs ! i = Skipped \<longleftrightarrow> cancelled_at cancel i) \<and>
      ad_delivered d' = ad_delivered d + length (filter (\<lambda>out. out = Sent None) outs) \<and>
      ad_failed d' = ad_failed d + length (filter (\<lambda>out. out \<noteq> Sent None) outs) \<and> ad_worker d' = ad_worker d) \<and>
    (dispatch strerror rc sev rule_name message e = (n, e') \<longrightarrow>
      (let targets = filter (\<lambda>ch. channel_complete ch = None) (ad_channels e)
       in (n = length targets \<and> n \<noteq> 0 \<and> wk_queue (ad_worker e') = wk_queue (ad_worker e) @
              [\<lparr>aj_channels = targets, aj_severity = sev, aj_rule = rule_name, aj_message = message\<rparr>]) \<or>
          (n = 0 \<and> wk_queue (ad_worker e') = wk_queue (ad_worker e) \<and>
             (if targets = [] then ad_worker e' = ad_worker e else wk_dropped (ad_worker e') = wk_dropped (ad_worker e) + 1))))"
proof -
  have targets: "fst (complete_channels chs) = filter (\<lambda>ch. channel_complete ch = None) chs" for chs
    by (induction chs) (auto simp: Let_def split: prod.splits option.splits)
  show ?thesis using run_alert_job_done [OF assms, of job chs cancel d st] targets [of "ad_channels e"]
    by (auto simp: job_done_def dispatch_def worker_post_def Let_def split: prod.splits if_splits)
qed

text \<open>A host to look at: names numbered by the call, a \<open>curl\<close> that runs past its time at the second poll.\<close>

definition demo_os :: alert_os where
  "demo_os = \<lparr>ao_tmp = (\<lambda>k. \<lparr>to_tmpdir = None,
       to_mkostemp = (\<lambda>t names. let p = c_str (t @ digits k) in if p \<in> names then Inl 17 else Inr p), to_writes = []\<rparr>),
     ao_exec = (\<lambda>k. run_example\<lparr>ew_polls := [\<lparr>po_wait = StillRunning, po_cancel = False, po_now = 5, po_end = 5\<rparr>,
       \<lparr>po_wait = StillRunning, po_cancel = False, po_now = 20000000001, po_end = 20000000002\<rparr>]\<rparr>),
     ao_curl = (\<lambda>k argv fs. fs), ao_strerror = (\<lambda>e. []), ao_date = (\<lambda>k. ''now'')\<rparr>"

definition demo_channel :: alert_channel where
  "demo_channel = \<lparr>ac_name = ''n'', ac_type = ''ntfy'', ac_url = ''http://h'', ac_topic = ''t'', ac_token = [], ac_from = []\<rparr>"

definition demo_dispatcher :: alert_dispatcher where
  "demo_dispatcher = \<lparr>ad_channels = [demo_channel], ad_dispatch_calls = 0, ad_last_event = (Warning, [], []), ad_worker = worker_new (Some ''alerts'') 256,
     ad_delivered = 0, ad_failed = 0, ad_log = []\<rparr>"

abbreviation demo_state :: curl_state where
  "demo_state \<equiv> \<lparr>cs_files = Map.empty, cs_calls = 0, cs_runs = []\<rparr>"

lemma demo_os_ok: "fresh_os demo_os" "curl_ok demo_os" "runs_end demo_os"
  by (auto simp: fresh_os_def demo_os_def fresh_names_def Let_def c_str_def curl_ok_def runs_end_def run_example_def
      intro!: run_example_killed [unfolded run_example_def, simplified] split: if_splits dest: set_takeWhileD)

theorem alert_sends_privately_witness:
  "\<exists>why st'. send_one demo_os demo_channel Warning ''r'' ''m'' demo_state = Some (why, st') \<and> cs_files st' = Map.empty"
proof -
  obtain why st' where s: "send_one demo_os demo_channel Warning ''r'' ''m'' demo_state = Some (why, st')"
    using send_one_ends [OF demo_os_ok(3)] by blast
  from alert_sends_privately [OF demo_os_ok(1,2) s] show ?thesis using s by auto
qed

theorem alert_channels_counted_witness:
  "\<exists>d' st'. run_alert_job demo_os \<lparr>aj_channels = [], aj_severity = Info, aj_rule = [], aj_message = []\<rparr> [demo_channel, demo_channel] [False, True]
     (demo_dispatcher, demo_state) = Some (d', st') \<and> ad_delivered d' + ad_failed d' = 2 \<and> ad_failed d' \<noteq> 0"
proof -
  let ?job = "\<lparr>aj_channels = [], aj_severity = Info, aj_rule = [], aj_message = []\<rparr>"
  let ?chs = "[demo_channel, demo_channel]"
  obtain outs d' st' where o: "run_alert_job demo_os ?job ?chs [False, True] (demo_dispatcher, demo_state) = Some (d', st')"
    "length outs = length ?chs" "\<forall>i < length ?chs. outs ! i = Skipped \<longleftrightarrow> cancelled_at [False, True] i"
    "ad_delivered d' = ad_delivered demo_dispatcher + length (filter (\<lambda>out. out = Sent None) outs)"
    "ad_failed d' = ad_failed demo_dispatcher + length (filter (\<lambda>out. out \<noteq> Sent None) outs)"
    using alert_channels_counted [OF demo_os_ok(3), of ?job ?chs "[False, True]" demo_dispatcher demo_state] by blast
  have "outs ! 1 = Skipped" using o(3) by (simp add: cancelled_at_def)
  moreover obtain x y where "outs = [x, y]" using o(2) list2 [of outs] by auto
  ultimately show ?thesis using o(1,4,5) by (auto simp: demo_dispatcher_def)
qed

end
