(* ===== verification/Detail.thy ===== *)
theory Detail
  imports Json_Body "HOL-Library.Multiset"
begin

text \<open>
  The helpers the collectors share (\<open>src/collector/detail.c\<close>): rates of counters, the totals over devices that come and go,
  and the tracker of processes with its lists of the largest. Counters are words of 64 bits and rates doubles, bit by bit. An array with its
  count is a list. \<open>qsort\<close> is an argument, of which only what the C library promises is used: the same entries, in order.
  Proved: a total is the sum of what each known device moved, wherever the search begins; the list of processes is exactly the ten
  largest by memory and the ten largest by processor time, each process once, in order; and a process's time is
  compared with its own previous reading only.
\<close>

section \<open>Rates\<close>

record budyk_entity_prev_c =
  ep_name :: string
  ep_c :: "u64 list"

definition budyk_find_prev :: "budyk_entity_prev_c list \<Rightarrow> string \<Rightarrow> budyk_entity_prev_c option" where
  "budyk_find_prev prev name = find (\<lambda>p. ep_name p = name) prev"

definition f64_1e9 :: f64 where "f64_1e9 = f64_of_nat 1000000000"

definition budyk_rate :: "u64 \<Rightarrow> u64 option \<Rightarrow> u64 \<Rightarrow> f64" where
  "budyk_rate now prev dns =
     (case prev of None \<Rightarrow> 0
      | Some p \<Rightarrow> if dns = 0 \<or> now < p then 0
                  else f64_div (f64_mul (f64_of_nat (unat (now - p))) f64_1e9) (f64_of_nat (unat dns)))"

text \<open>\<open>static_cast<uint64_t>\<close> of a double that is not negative and below \<open>2^64\<close>.\<close>

definition f64_trunc :: "f64 \<Rightarrow> u64" where
  "f64_trunc x = of_nat (f64_units x div 2 ^ 1074)"

definition budyk_rate_u64 :: "u64 \<Rightarrow> u64 option \<Rightarrow> u64 \<Rightarrow> u64" where
  "budyk_rate_u64 now prev dns =
     (let r = budyk_rate now prev dns in if \<not> f64_less r (f64_of_nat (2 ^ 64 - 1)) then - 1 else f64_trunc r)"

section \<open>Totals over devices\<close>

record budyk_counted_c =
  ct_name :: string
  ct_a :: u64
  ct_b :: u64

definition BUDYK_MAX_COUNTED :: nat where "BUDYK_MAX_COUNTED = 1024"

definition name31 :: "string \<Rightarrow> string" where
  "name31 name = take 31 (c_str name)"

text \<open>From \<open>pos\<close> round the list: the index of the entry.\<close>

definition counted_index :: "budyk_counted_c list \<Rightarrow> nat \<Rightarrow> string \<Rightarrow> nat option" where
  "counted_index prev pos name =
     find (\<lambda>i. ct_name (prev ! i) = name) (map (\<lambda>k. (pos + k) mod length prev) [0..<length prev])"

record counted_state =
  cd_pos :: nat
  cd_next :: "budyk_counted_c list"
  cd_moved_a :: u64
  cd_moved_b :: u64

definition budyk_counted_add :: "budyk_counted_c list \<Rightarrow> string \<Rightarrow> u64 \<Rightarrow> u64 \<Rightarrow> counted_state \<Rightarrow> counted_state" where
  "budyk_counted_add prev name a b st =
     (let st = (case counted_index prev (cd_pos st) name of None \<Rightarrow> st
                | Some i \<Rightarrow> st\<lparr>cd_moved_a := cd_moved_a st + (if a \<ge> ct_a (prev ! i) then a - ct_a (prev ! i) else 0),
                              cd_moved_b := cd_moved_b st + (if b \<ge> ct_b (prev ! i) then b - ct_b (prev ! i) else 0),
                              cd_pos := i + 1\<rparr>)
      in if length (cd_next st) < BUDYK_MAX_COUNTED
         then st\<lparr>cd_next := cd_next st @ [\<lparr>ct_name = name31 name, ct_a = a, ct_b = b\<rparr>]\<rparr> else st)"

section \<open>The process tracker\<close>

definition BUDYK_TOP_EACH :: nat where "BUDYK_TOP_EACH = 10"
definition BUDYK_MAX_TRACKED_PROCS :: nat where "BUDYK_MAX_TRACKED_PROCS = 8192"

record budyk_proc_read_c =
  rd_pid :: "32 word"
  rd_start :: u64
  rd_cpu :: u64
  rd_rss_bytes :: u64
  rd_threads :: u32
  rd_state :: char
  rd_name :: string

record budyk_proc_prev_c =
  pp_pid :: "32 word"
  pp_start :: u64
  pp_cpu :: u64

text \<open>Of the detail: \<open>tk_prev\<close> is \<open>proc_track[proc_cur]\<close>, \<open>tk_next\<close> the other one.\<close>

record tracker =
  tk_prev :: "budyk_proc_prev_c list"
  tk_next :: "budyk_proc_prev_c list"
  tk_prev_ns :: u64
  tk_now_ns :: u64
  tk_top_cpu :: "budyk_process_c list"
  tk_top_rss :: "budyk_process_c list"
  tk_procs :: "budyk_process_c list"

definition budyk_procs_begin :: "u64 \<Rightarrow> tracker \<Rightarrow> tracker" where
  "budyk_procs_begin now_ns t = t\<lparr>tk_now_ns := now_ns, tk_next := [], tk_top_cpu := [], tk_top_rss := []\<rparr>"

function pid_search :: "budyk_proc_prev_c list \<Rightarrow> 32 word \<Rightarrow> nat \<Rightarrow> nat \<Rightarrow> nat" where
  "pid_search v pid lo hi =
     (if lo < hi
      then let mid = lo + (hi - lo) div 2 in if sint (pp_pid (v ! mid)) < sint pid then pid_search v pid (mid + 1) hi else pid_search v pid lo mid
      else lo)"
  by pat_completeness auto
termination by (relation "measure (\<lambda>(v, pid, lo, hi). hi - lo)") (auto simp: less_eq_div_iff_mult_less_eq)

declare pid_search.simps [simp del]

definition find_proc :: "tracker \<Rightarrow> 32 word \<Rightarrow> u64 \<Rightarrow> budyk_proc_prev_c option" where
  "find_proc t pid start =
     (let v = tk_prev t; lo = pid_search v pid 0 (length v)
      in if lo < length v \<and> pp_pid (v ! lo) = pid \<and> pp_start (v ! lo) = start then Some (v ! lo) else None)"

fun offer_at :: "(budyk_process_c \<Rightarrow> f64) \<Rightarrow> budyk_process_c list \<Rightarrow> budyk_process_c \<Rightarrow> nat \<Rightarrow> nat" where
  "offer_at key tops p 0 = 0"
| "offer_at key tops p (Suc n) = (if f64_less (key (tops ! n)) (key p) then offer_at key tops p n else Suc n)"

definition offer :: "(budyk_process_c \<Rightarrow> f64) \<Rightarrow> budyk_process_c list \<Rightarrow> budyk_process_c \<Rightarrow> budyk_process_c list" where
  "offer key tops p =
     (let n = length tops; i = offer_at key tops p n; l = (if n < BUDYK_TOP_EACH then n else BUDYK_TOP_EACH - 1)
      in if i \<ge> BUDYK_TOP_EACH then tops else take i tops @ [p] @ take (l - i) (drop i tops))"

definition by_cpu :: "budyk_process_c \<Rightarrow> f64" where "by_cpu p = pr_cpu_percent p"
definition by_rss :: "budyk_process_c \<Rightarrow> f64" where "by_rss p = f64_of_nat (unat (pr_rss_bytes p))"

definition f64_100 :: f64 where "f64_100 = f64_of_nat 100"

definition proc_entry :: "tracker \<Rightarrow> budyk_proc_read_c \<Rightarrow> f64 \<Rightarrow> budyk_process_c" where
  "proc_entry t r cpu_per_sec =
     \<lparr>pr_pid = rd_pid r, pr_name = take 31 (rd_name r), pr_state = rd_state r, pr_threads = rd_threads r,
      pr_cpu_percent =
        (case find_proc t (rd_pid r) (rd_start r) of None \<Rightarrow> 0
         | Some prev \<Rightarrow> if f64_less 0 cpu_per_sec \<and> tk_now_ns t > tk_prev_ns t
                       then f64_mul (f64_div (budyk_rate (rd_cpu r) (Some (pp_cpu prev)) (tk_now_ns t - tk_prev_ns t)) cpu_per_sec) f64_100
                       else 0),
      pr_rss_bytes = rd_rss_bytes r\<rparr>"

definition budyk_procs_add :: "budyk_proc_read_c \<Rightarrow> f64 \<Rightarrow> tracker \<Rightarrow> tracker" where
  "budyk_procs_add r cpu_per_sec t =
     (let p = proc_entry t r cpu_per_sec;
          t = (if length (tk_next t) < BUDYK_MAX_TRACKED_PROCS
               then t\<lparr>tk_next := tk_next t @ [\<lparr>pp_pid = rd_pid r, pp_start = rd_start r, pp_cpu = rd_cpu r\<rparr>]\<rparr> else t);
          t = (if f64_less 0 (pr_cpu_percent p) then t\<lparr>tk_top_cpu := offer by_cpu (tk_top_cpu t) p\<rparr> else t)
      in t\<lparr>tk_top_rss := offer by_rss (tk_top_rss t) p\<rparr>)"

definition cmp_prev :: "budyk_proc_prev_c \<Rightarrow> budyk_proc_prev_c \<Rightarrow> int" where
  "cmp_prev a b =
     (if sint (pp_pid a) > sint (pp_pid b) then 1 else 0) - (if sint (pp_pid a) < sint (pp_pid b) then 1 else 0)"

text \<open>\<open>x != y\<close> of doubles.\<close>

definition f64_ne :: "f64 \<Rightarrow> f64 \<Rightarrow> bool" where
  "f64_ne x y = (f64_nan x \<or> f64_nan y \<or> f64_key x \<noteq> f64_key y)"

definition cmp_top :: "budyk_process_c \<Rightarrow> budyk_process_c \<Rightarrow> int" where
  "cmp_top x y =
     (if f64_ne (pr_cpu_percent x) (pr_cpu_percent y) then if f64_less (pr_cpu_percent x) (pr_cpu_percent y) then 1 else - 1
      else if pr_rss_bytes x \<noteq> pr_rss_bytes y then if pr_rss_bytes x < pr_rss_bytes y then 1 else - 1
      else (if sint (pr_pid x) > sint (pr_pid y) then 1 else 0) - (if sint (pr_pid x) < sint (pr_pid y) then 1 else 0))"

fun pids_in_order :: "budyk_proc_prev_c list \<Rightarrow> bool" where
  "pids_in_order (x # y # v) = (sint (pp_pid x) \<le> sint (pp_pid y) \<and> pids_in_order (y # v))"
| "pids_in_order _ = True"

definition merge_tops :: "tracker \<Rightarrow> budyk_process_c list" where
  "merge_tops t = tk_top_cpu t @ filter (\<lambda>p. \<not> list_ex (\<lambda>q. pr_pid q = pr_pid p) (tk_top_cpu t)) (tk_top_rss t)"

definition budyk_procs_end :: "(budyk_proc_prev_c list \<Rightarrow> budyk_proc_prev_c list) \<Rightarrow> (budyk_process_c list \<Rightarrow> budyk_process_c list) \<Rightarrow> tracker \<Rightarrow> tracker" where
  "budyk_procs_end qsort_prev qsort_top t =
     (let v = (if pids_in_order (tk_next t) then tk_next t else qsort_prev (tk_next t))
      in t\<lparr>tk_prev := v, tk_next := tk_prev t, tk_prev_ns := tk_now_ns t, tk_procs := qsort_top (merge_tops t)\<rparr>)"

text \<open>What \<open>qsort\<close> promises: the same entries in order, when the comparison is of an order.\<close>

definition consistent :: "('a \<Rightarrow> 'a \<Rightarrow> int) \<Rightarrow> 'a set \<Rightarrow> bool" where
  "consistent cmp S =
     ((\<forall>x\<in>S. \<forall>y\<in>S. sgn (cmp x y) = - sgn (cmp y x)) \<and>
      (\<forall>x\<in>S. \<forall>y\<in>S. \<forall>z\<in>S. cmp x y \<le> 0 \<longrightarrow> cmp y z \<le> 0 \<longrightarrow> cmp x z \<le> 0))"

definition sorts :: "('a \<Rightarrow> 'a \<Rightarrow> int) \<Rightarrow> ('a list \<Rightarrow> 'a list) \<Rightarrow> bool" where
  "sorts cmp qs = (\<forall>xs. consistent cmp (set xs) \<longrightarrow> mset (qs xs) = mset xs \<and> sorted_wrt (\<lambda>x y. cmp x y \<le> 0) (qs xs))"

section \<open>Numbers\<close>

lemma f64_mag_pack: "m < 2 ^ 63 \<Longrightarrow> f64_mag (f64_pack s m) = m"
proof -
  assume m: "m < 2 ^ 63"
  have "unat (f64_pack s m) = (if s then 2 ^ 63 else 0) + m"
    unfolding f64_pack_def by (subst unat_of_nat) (use m in simp)
  then show ?thesis using m by (simp add: f64_mag_def)
qed

lemma f64_of_nat_mag:
  assumes "0 < n" "n < 2 ^ 64"
  shows "0 < f64_mag (f64_of_nat n) \<and> f64_mag (f64_of_nat n) < 2047 * 2 ^ 52"
proof -
  define a where "a = n * 2 ^ 1074"
  define sh where "sh = floorlog 2 a - 53"
  define k where "k = a div 2 ^ sh"
  have a: "0 < a" "a < 2 ^ 1138"
  proof -
    show "0 < a" using assms by (simp add: a_def)
    have "a < 2 ^ 64 * 2 ^ 1074" unfolding a_def using assms(2) by (rule mult_strict_right_mono) simp
    also have "\<dots> = 2 ^ 1138" by (simp flip: power_add)
    finally show "a < 2 ^ 1138" .
  qed
  have fl: "2 ^ (floorlog 2 a - 1) \<le> a" "a < 2 ^ floorlog 2 a"
    using floorlog_bounds [of a 2] a(1) by simp_all
  have "(2::nat) ^ (floorlog 2 a - 1) < 2 ^ 1138" using fl(1) a(2) by (rule order.strict_trans1)
  then have "floorlog 2 a - 1 < 1138" by (rule power_less_imp_less_exp [rotated]) simp
  then have sh: "sh \<le> 1085" by (simp add: sh_def)
  have k: "k < 2 ^ 53"
  proof -
    have "a < 2 ^ (sh + 53)" using fl(2) by (rule order.strict_trans2) (simp add: sh_def power_increasing)
    then show ?thesis by (simp add: k_def power_add less_mult_imp_div_less mult.commute)
  qed
  have "0 < k"
  proof -
    have "2 ^ sh \<le> a" by (rule order.trans [OF _ fl(1)]) (simp add: sh_def power_increasing)
    then show ?thesis by (simp add: k_def div_greater_zero_iff)
  qed
  define m where "m = (if 2 ^ sh < 2 * (a mod 2 ^ sh) \<or> (2 * (a mod 2 ^ sh) = 2 ^ sh \<and> odd k) then k + 1 else k)"
  have m: "0 < m" "m \<le> 2 ^ 53" using k \<open>0 < k\<close> by (auto simp: m_def)
  have "f64_of_nat n = f64_pack False (min (sh * 2 ^ 52 + m) (2047 * 2 ^ 52))"
    unfolding f64_of_nat_def f64_round_def a_def [symmetric] div_by_1 sh_def [symmetric] Let_def mult_1 k_def [symmetric] m_def [symmetric] by (rule refl)
  moreover have le: "sh * 2 ^ 52 \<le> 1085 * 2 ^ 52" using sh by simp
  then have "sh * 2 ^ 52 + m < 2047 * 2 ^ 52" using m(2) by simp
  ultimately have "f64_mag (f64_of_nat n) = sh * 2 ^ 52 + m" using f64_mag_pack [of "sh * 2 ^ 52 + m" False] by simp
  then show ?thesis using m(1) \<open>sh * 2 ^ 52 + m < _\<close> by simp
qed

lemma f64_round_not_nan: "\<not> f64_nan (f64_round s a b)"
proof -
  have "\<not> f64_nan (f64_pack s (min m (2047 * 2 ^ 52)))" for m
    using f64_mag_pack [of "min m (2047 * 2 ^ 52)" s] by (simp add: f64_nan_def)
  then show ?thesis unfolding f64_round_def Let_def by blast
qed

lemma f64_of_nat_not_nan [simp]: "\<not> f64_nan (f64_of_nat n)"
  by (simp add: f64_of_nat_def f64_round_not_nan)

lemma f64_pack_not_nan: "m \<le> 2047 * 2 ^ 52 \<Longrightarrow> \<not> f64_nan (f64_pack s m)"
  using f64_mag_pack [of m s] by (simp add: f64_nan_def)

text \<open>A product or quotient is a number unless it is of infinity and zero.\<close>

lemma f64_mul_not_nan:
  assumes "\<not> f64_nan x" "f64_finite y" "0 < f64_mag y"
  shows "\<not> f64_nan (f64_mul x y)"
proof (cases "f64_inf x")
  case True
  then have "f64_mul x y = f64_pack (f64_sign x \<noteq> f64_sign y) (2047 * 2 ^ 52)"
    using assms f64_finite_not [OF assms(2)] by (simp add: f64_mul_def Let_def f64_inf_def)
  then show ?thesis by (simp only: f64_pack_not_nan order_refl not_False_eq_True)
next
  case False
  then show ?thesis using assms(1) f64_finite_not [OF assms(2)] by (simp add: f64_mul_def Let_def f64_round_not_nan)
qed

lemma f64_div_not_nan:
  assumes "\<not> f64_nan x" "f64_finite y" "0 < f64_mag y"
  shows "\<not> f64_nan (f64_div x y)"
proof (cases "f64_inf x")
  case True
  then have "f64_div x y = f64_pack (f64_sign x \<noteq> f64_sign y) (2047 * 2 ^ 52)"
    using assms f64_finite_not [OF assms(2)] by (simp add: f64_div_def Let_def)
  then show ?thesis by (simp only: f64_pack_not_nan order_refl not_False_eq_True)
next
  case False
  then show ?thesis using assms f64_finite_not [OF assms(2)] by (simp add: f64_div_def Let_def f64_round_not_nan)
qed

lemma f64_of_nat_finite: "0 < n \<Longrightarrow> n < 2 ^ 64 \<Longrightarrow> f64_finite (f64_of_nat n) \<and> 0 < f64_mag (f64_of_nat n)"
  using f64_of_nat_mag by (simp add: f64_finite_def)

lemma f64_positive_mag: "f64_less 0 x \<Longrightarrow> 0 < f64_mag x"
  by (auto simp: f64_less_def f64_key_def split: if_splits)

lemma f64_1e9_finite: "f64_finite f64_1e9 \<and> 0 < f64_mag f64_1e9"
  unfolding f64_1e9_def by (rule f64_of_nat_finite) simp_all

lemma f64_100_finite: "f64_finite f64_100 \<and> 0 < f64_mag f64_100"
  unfolding f64_100_def by (rule f64_of_nat_finite) simp_all

lemma f64_zero_not_nan [simp]: "\<not> f64_nan 0"
  by (simp add: f64_nan_def)

lemma budyk_rate_not_nan: "\<not> f64_nan (budyk_rate now prev dns)"
proof -
  have "\<not> f64_nan (f64_div (f64_mul (f64_of_nat n) f64_1e9) (f64_of_nat (unat dns)))" if "dns \<noteq> 0" for n
  proof (rule f64_div_not_nan)
    have "0 < unat dns" "unat dns < 2 ^ 64" using that unsigned_less [of dns, where ?'a = nat] by (simp_all add: unat_gt_0)
    from f64_of_nat_finite [OF this] show "f64_finite (f64_of_nat (unat dns))" "0 < f64_mag (f64_of_nat (unat dns))" by simp_all
    show "\<not> f64_nan (f64_mul (f64_of_nat n) f64_1e9)" by (rule f64_mul_not_nan) (simp_all add: f64_1e9_finite)
  qed
  then show ?thesis by (simp add: budyk_rate_def split: option.split)
qed

section \<open>Totals\<close>

lemma rotated_indices: "0 < n \<Longrightarrow> set (map (\<lambda>k. (pos + k) mod n) [0..<n]) = {0..<n}"
proof -
  assume n: "0 < n"
  have "i \<in> (\<lambda>k. (pos + k) mod n) ` {0..<n}" if "i < n" for i
  proof -
    let ?k = "(i + (n - pos mod n)) mod n"
    have "(pos + ?k) mod n = (pos mod n + (i + (n - pos mod n))) mod n" by (simp add: mod_simps)
    also have "pos mod n + (i + (n - pos mod n)) = i + n" using n mod_less_divisor [OF n, of pos] by simp
    finally have "(pos + ?k) mod n = i" using that by simp
    moreover have "?k < n" using n by simp
    ultimately show ?thesis by (metis atLeastLessThan_iff imageI le0)
  qed
  then show ?thesis using n by auto
qed

lemma find_map_index:
  "find P xs = Some x \<Longrightarrow> P x \<and> x \<in> set xs" "find P xs = None \<longleftrightarrow> (\<forall>x\<in>set xs. \<not> P x)"
  by (auto simp: find_Some_iff find_None_iff)

lemma counted_index_lookup:
  assumes "distinct (map ct_name prev)"
  shows "map_option (\<lambda>i. prev ! i) (counted_index prev pos name) = find (\<lambda>e. ct_name e = name) prev"
proof (cases "counted_index prev pos name")
  case None
  have "\<not> (\<exists>e\<in>set prev. ct_name e = name)"
  proof
    assume "\<exists>e\<in>set prev. ct_name e = name"
    then obtain i where i: "i < length prev" "ct_name (prev ! i) = name" by (auto simp: in_set_conv_nth)
    then have "0 < length prev" by linarith
    then have "i \<in> set (map (\<lambda>k. (pos + k) mod length prev) [0..<length prev])" unfolding rotated_indices [OF \<open>0 < length prev\<close>] using i(1) by simp
    then show False using None i(2) by (auto simp: counted_index_def find_None_iff)
  qed
  then have "find (\<lambda>e. ct_name e = name) prev = None" by (auto simp: find_None_iff)
  then show ?thesis using None by simp
next
  case (Some i)
  then have i: "i < length prev" "ct_name (prev ! i) = name"
    by (auto simp: counted_index_def dest!: find_map_index(1) intro!: mod_less_divisor)
  then have "find (\<lambda>e. ct_name e = name) prev = Some (prev ! i)"
    using assms by (auto simp: find_Some_iff distinct_conv_nth intro!: exI [of _ i])
  then show ?thesis using Some by simp
qed

text \<open>What a device moved: against its own last counter only.\<close>

definition moved :: "(budyk_counted_c \<Rightarrow> u64) \<Rightarrow> budyk_counted_c list \<Rightarrow> string \<Rightarrow> u64 \<Rightarrow> u64" where
  "moved sel prev name v = (case find (\<lambda>e. ct_name e = name) prev of None \<Rightarrow> 0 | Some e \<Rightarrow> if v \<ge> sel e then v - sel e else 0)"

lemma counted_add_moved:
  assumes "distinct (map ct_name prev)"
  shows "cd_moved_a (budyk_counted_add prev name a b st) = cd_moved_a st + moved ct_a prev name a"
    "cd_moved_b (budyk_counted_add prev name a b st) = cd_moved_b st + moved ct_b prev name b"
    "length (cd_next st) \<le> BUDYK_MAX_COUNTED \<Longrightarrow> cd_next (budyk_counted_add prev name a b st) =
      take BUDYK_MAX_COUNTED (cd_next st @ [\<lparr>ct_name = name31 name, ct_a = a, ct_b = b\<rparr>])"
  using counted_index_lookup [OF assms, of "cd_pos st" name]
  by (auto simp: budyk_counted_add_def moved_def Let_def split: option.splits)

lemma take_append_take: "take n (take n xs @ ys) = take n (xs @ ys)"
  by (cases "length xs \<le> n") simp_all

definition add_device :: "budyk_counted_c list \<Rightarrow> string \<times> u64 \<times> u64 \<Rightarrow> counted_state \<Rightarrow> counted_state" where
  "add_device prev dev st = (case dev of (name, a, b) \<Rightarrow> budyk_counted_add prev name a b st)"

lemma add_device_simp [simp]: "add_device prev (name, a, b) st = budyk_counted_add prev name a b st"
  by (simp add: add_device_def)

lemma counted_adds:
  assumes "distinct (map ct_name prev)" "length (cd_next st) \<le> BUDYK_MAX_COUNTED"
  shows "cd_moved_a (fold (add_device prev) devs st) = cd_moved_a st + sum_list (map (\<lambda>(name, a, b). moved ct_a prev name a) devs) \<and>
    cd_moved_b (fold (add_device prev) devs st) = cd_moved_b st + sum_list (map (\<lambda>(name, a, b). moved ct_b prev name b) devs) \<and>
    cd_next (fold (add_device prev) devs st) = take BUDYK_MAX_COUNTED (cd_next st @ map (\<lambda>(name, a, b). \<lparr>ct_name = name31 name, ct_a = a, ct_b = b\<rparr>) devs)"
  using assms(2)
proof (induction devs arbitrary: st)
  case (Cons dev devs)
  obtain name a b where dev: "dev = (name, a, b)" by (cases dev)
  note add = counted_add_moved [OF assms(1), where name = name and a = a and b = b and st = st]
  have "length (cd_next (add_device prev dev st)) \<le> BUDYK_MAX_COUNTED" using Cons.prems add(3) by (simp add: dev)
  note IH = Cons.IH [OF this]
  have "cd_next (fold (add_device prev) devs (add_device prev dev st)) =
      take BUDYK_MAX_COUNTED (cd_next st @ map (\<lambda>(name, a, b). \<lparr>ct_name = name31 name, ct_a = a, ct_b = b\<rparr>) (dev # devs))"
    using IH add(3) [OF Cons.prems] by (simp only: dev add_device_simp prod.case take_append_take list.map append_assoc append_Cons append_Nil)
  then show ?case using IH add(1,2) by (simp add: dev)
qed simp

section \<open>The largest\<close>

lemma by_rss_not_nan [simp]: "\<not> f64_nan (by_rss p)"
  by (simp add: by_rss_def f64_of_nat_def f64_round_not_nan)

text \<open>Stable descending order, and a new entry in it: after those as large.\<close>

definition ranked :: "(budyk_process_c \<Rightarrow> f64) \<Rightarrow> budyk_process_c list \<Rightarrow> budyk_process_c list" where
  "ranked key ps = sort_key (\<lambda>p. - f64_key (key p)) ps"

lemma dropWhile_greater:
  fixes f :: "'a \<Rightarrow> 'b::linorder"
  shows "sorted (map f xs) \<Longrightarrow> y \<in> set (dropWhile (\<lambda>y. f y \<le> c) xs) \<Longrightarrow> c < f y"
  by (induction xs) (auto split: if_splits)

lemma sort_key_snoc:
  fixes f :: "'a \<Rightarrow> 'b::linorder"
  shows "sort_key f (xs @ [x]) = takeWhile (\<lambda>y. f y \<le> f x) (sort_key f xs) @ [x] @ dropWhile (\<lambda>y. f y \<le> f x) (sort_key f xs)"
    (is "_ = ?t @ [x] @ ?d")
proof (rule properties_for_sort_key)
  have d: "f x < f y" if "y \<in> set ?d" for y using dropWhile_greater [OF sorted_sort_key that] .
  have t: "f y \<le> f x" if "y \<in> set ?t" for y using set_takeWhileD [OF that] by simp
  show "mset (?t @ [x] @ ?d) = mset (xs @ [x])"
  proof -
    have "mset ?t + mset ?d = mset (sort_key f xs)" by (simp flip: mset_append)
    then show ?thesis by simp
  qed
  show "filter (\<lambda>y. f k = f y) (?t @ [x] @ ?d) = filter (\<lambda>y. f k = f y) (xs @ [x])" for k
  proof -
    have "filter (\<lambda>y. f k = f y) ?t @ filter (\<lambda>y. f k = f y) ?d = filter (\<lambda>y. f k = f y) (sort_key f xs)"
      by (simp flip: filter_append)
    also have "\<dots> = filter (\<lambda>y. f k = f y) xs" using sort_key_stable [of f "f k" xs] by (simp add: eq_commute)
    finally have eq: "filter (\<lambda>y. f k = f y) ?t @ filter (\<lambda>y. f k = f y) ?d = filter (\<lambda>y. f k = f y) xs" .
    have "filter (\<lambda>y. f x = f y) ?d = []" using d by (fastforce simp: filter_empty_conv)
    then show ?thesis using eq by (cases "f k = f x") auto
  qed
  have "sorted (map f ?t @ map f ?d)" using sorted_sort_key [of f xs] by (simp flip: map_append)
  then have st: "sorted (map f ?t)" "sorted (map f ?d)" by (simp_all only: sorted_append)
  have xd: "sorted (f x # map f ?d)" using st(2) d by (auto simp del: sorted_sort_key intro: less_imp_le)
  have "a \<le> b" if "a \<in> set (map f ?t)" "b \<in> set (f x # map f ?d)" for a b
  proof -
    have "a \<le> f x" using that(1) t by auto
    moreover have "f x \<le> b" using that(2) d by (auto intro: less_imp_le)
    ultimately show ?thesis by (rule order.trans)
  qed
  then show "sorted (map f (?t @ [x] @ ?d))" using st(1) xd by (simp only: map_append list.map append_Cons append_Nil sorted_append) blast
qed

lemma offer_at_spec:
  assumes "sorted (map (\<lambda>p. - f64_key (key p)) tops)" "\<not> f64_nan (key p)" "list_all (\<lambda>q. \<not> f64_nan (key q)) tops" "n \<le> length tops"
  shows "offer_at key tops p n = length (takeWhile (\<lambda>q. - f64_key (key q) \<le> - f64_key (key p)) (take n tops))"
  using assms(4)
proof (induction n)
  case (Suc n)
  let ?P = "\<lambda>q. - f64_key (key q) \<le> - f64_key (key p)"
  have n: "n < length tops" using Suc.prems by simp
  then have split: "take (Suc n) tops = take n tops @ [tops ! n]" by (simp add: take_Suc_conv_app_nth)
  have less: "f64_less (key (tops ! n)) (key p) \<longleftrightarrow> \<not> ?P (tops ! n)"
    using assms(2,3) n by (auto simp: f64_less_def list_all_length)
  show ?case
  proof (cases "?P (tops ! n)")
    case True
    have "?P q" if q: "q \<in> set (take n tops)" for q
    proof -
      obtain i where i: "i < n" "q = tops ! i" using q n by (auto simp: in_set_conv_nth)
      then have "- f64_key (key q) \<le> - f64_key (key (tops ! n))"
        using sorted_nth_mono [OF assms(1), of i n] n by simp
      then show ?thesis using True by linarith
    qed
    then have eq: "takeWhile ?P (take (Suc n) tops) = take (Suc n) tops" using True split by (subst takeWhile_eq_all_conv) auto
    have "offer_at key tops p (Suc n) = Suc n" using less True by simp
    then show ?thesis unfolding eq using n by simp
  next
    case False
    have "takeWhile ?P (take (Suc n) tops) = takeWhile ?P (take n tops)" using False by (simp add: split takeWhile_append)
      (metis takeWhile_eq_all_conv)
    then show ?thesis using less False Suc by simp
  qed
qed simp

lemma takeWhile_of_take: "takeWhile P (take n xs) = take n (takeWhile P xs)"
  by (induction xs arbitrary: n) (auto simp: take_Cons' )

lemma offer_ranked:
  assumes "\<not> f64_nan (key p)" "list_all (\<lambda>q. \<not> f64_nan (key q)) ps"
  shows "offer key (take BUDYK_TOP_EACH (ranked key ps)) p = take BUDYK_TOP_EACH (ranked key (ps @ [p]))"
proof -
  let ?S = "ranked key ps" and ?P = "\<lambda>q. - f64_key (key q) \<le> - f64_key (key p)"
  let ?K = BUDYK_TOP_EACH
  let ?t = "takeWhile ?P ?S" and ?d = "dropWhile ?P ?S"
  have S: "sorted (map (\<lambda>q. - f64_key (key q)) ?S)" by (simp add: ranked_def)
  have nan: "list_all (\<lambda>q. \<not> f64_nan (key q)) (take ?K ?S)"
    using assms(2) by (auto simp: ranked_def list_all_iff dest!: in_set_takeD)
  have "sorted (map (\<lambda>q. - f64_key (key q)) (take ?K ?S))" using S by (simp add: sorted_wrt_take flip: take_map)
  note at = offer_at_spec [OF this assms(1) nan le_refl]
  have "length (takeWhile ?P (take (length (take ?K ?S)) (take ?K ?S))) = min ?K (length ?t)"
    by (simp only: take_all le_refl takeWhile_of_take length_take min.commute)
  then have i: "offer_at key (take ?K ?S) p (length (take ?K ?S)) = min ?K (length ?t)" using at by (simp only:)
  define t d where "t = ?t" and "d = ?d"
  have td: "?S = t @ d" by (simp add: t_def d_def)
  have new: "ranked key (ps @ [p]) = t @ [p] @ d" unfolding ranked_def t_def d_def by (rule sort_key_snoc)
  note i = i [folded t_def]
  have k: "?K = 10" by (simp add: BUDYK_TOP_EACH_def)
  show ?thesis
  proof (cases "length t < ?K")
    case False
    then have "take ?K (t @ [p] @ d) = take ?K (t @ d)" "min ?K (length t) = ?K" by simp_all
    then show ?thesis unfolding offer_def Let_def i new by (simp only: order_refl if_True td)
  next
    case True
    then have m: "min ?K (length t) = length t" "\<not> ?K \<le> length t" by simp_all
    have "take (length t) (take ?K ?S) = t" using True by (simp add: td)
    moreover have "take ((if length (take ?K ?S) < ?K then length (take ?K ?S) else ?K - 1) - length t) (drop (length t) (take ?K ?S)) = take (?K - 1 - length t) d"
      using True by (auto simp: td k min_def not_less)
    moreover have "take ?K (t @ [p] @ d) = t @ [p] @ take (?K - 1 - length t) d" using True by (simp add: take_Cons' k)
    ultimately show ?thesis unfolding offer_def Let_def i new m(1) by (simp only: m(2) if_False)
  qed
qed

section \<open>Finding the previous reading\<close>

abbreviation pids_sorted :: "budyk_proc_prev_c list \<Rightarrow> bool" where
  "pids_sorted v \<equiv> sorted (map (\<lambda>e. sint (pp_pid e)) v)"

lemma pids_in_order_sorted: "pids_in_order v \<longleftrightarrow> pids_sorted v"
  by (induction v rule: pids_in_order.induct) (auto simp del: sorted_wrt.simps(2) simp: sorted2 sorted1)

lemma pid_search_spec:
  assumes "pids_sorted v"
  shows "lo \<le> hi \<Longrightarrow> hi \<le> length v \<Longrightarrow> (\<forall>i < lo. sint (pp_pid (v ! i)) < sint pid) \<Longrightarrow>
    (\<forall>i. hi \<le> i \<longrightarrow> i < length v \<longrightarrow> sint pid \<le> sint (pp_pid (v ! i))) \<Longrightarrow>
    pid_search v pid lo hi \<le> length v \<and> (\<forall>i < pid_search v pid lo hi. sint (pp_pid (v ! i)) < sint pid) \<and>
    (\<forall>i. pid_search v pid lo hi \<le> i \<longrightarrow> i < length v \<longrightarrow> sint pid \<le> sint (pp_pid (v ! i)))"
proof (induction "hi - lo" arbitrary: lo hi rule: less_induct)
  case less
  have mono: "i \<le> j \<Longrightarrow> j < length v \<Longrightarrow> sint (pp_pid (v ! i)) \<le> sint (pp_pid (v ! j))" for i j
    using sorted_nth_mono [OF assms, of i j] by simp
  show ?case
  proof (cases "lo < hi")
    case False
    then have "pid_search v pid lo hi = lo" by (subst pid_search.simps) simp
    then show ?thesis using less.prems False by auto
  next
    case True
    define mid where "mid = lo + (hi - lo) div 2"
    have mid: "lo \<le> mid" "mid < hi" using True by (auto simp: mid_def)
    show ?thesis
    proof (cases "sint (pp_pid (v ! mid)) < sint pid")
      case lt: True
      have step: "pid_search v pid lo hi = pid_search v pid (mid + 1) hi"
        using True lt by (subst pid_search.simps) (simp add: mid_def Let_def)
      have low: "sint (pp_pid (v ! i)) < sint pid" if "i < mid + 1" for i
        using lt mono [of i mid] mid that less.prems(2) by simp
      show ?thesis unfolding step by (rule less.hyps) (use mid less.prems low in simp_all)
    next
      case ge: False
      have step: "pid_search v pid lo hi = pid_search v pid lo mid"
        using True ge by (subst pid_search.simps) (simp add: mid_def Let_def)
      have high: "sint pid \<le> sint (pp_pid (v ! i))" if "mid \<le> i" "i < length v" for i
        using ge mono [of mid i] that by simp
      show ?thesis unfolding step by (rule less.hyps) (use mid less.prems high in simp_all)
    qed
  qed
qed

lemma find_proc_lookup:
  assumes "pids_sorted (tk_prev t)" "distinct (map pp_pid (tk_prev t))"
  shows "find_proc t pid start = find (\<lambda>e. pp_pid e = pid \<and> pp_start e = start) (tk_prev t)"
proof -
  let ?v = "tk_prev t"
  let ?r = "pid_search ?v pid 0 (length ?v)"
  have r: "\<forall>i < ?r. sint (pp_pid (?v ! i)) < sint pid" "\<forall>i. ?r \<le> i \<longrightarrow> i < length ?v \<longrightarrow> sint pid \<le> sint (pp_pid (?v ! i))"
    using pid_search_spec [OF assms(1), of 0 "length ?v" pid] by auto
  have only: "i = ?r" if "i < length ?v" "pp_pid (?v ! i) = pid" for i
  proof (rule ccontr)
    assume "i \<noteq> ?r"
    moreover have "\<not> i < ?r" using r(1) that(2) by auto
    ultimately have lt: "?r < i" by simp
    then have "sint pid \<le> sint (pp_pid (?v ! ?r))" using r(2) that(1) by simp
    moreover have "sint (pp_pid (?v ! ?r)) \<le> sint pid"
      using sorted_nth_mono [OF assms(1), of ?r i] lt that by simp
    ultimately have "pp_pid (?v ! ?r) = pp_pid (?v ! i)" using that(2) by (intro signed_word_eqI [where ?'a = int]) simp
    then show False using assms(2) lt that(1) by (auto simp: distinct_conv_nth)
  qed
  show ?thesis
  proof (cases "?r < length ?v \<and> pp_pid (?v ! ?r) = pid \<and> pp_start (?v ! ?r) = start")
    case True
    have no: "\<not> (pp_pid (?v ! j) = pid \<and> pp_start (?v ! j) = start)" if "j < ?r" for j
    proof -
      have "sint (pp_pid (?v ! j)) < sint pid" using r(1) that by blast
      then show ?thesis by blast
    qed
    from True have "find (\<lambda>e. pp_pid e = pid \<and> pp_start e = start) ?v = Some (?v ! ?r)"
      unfolding find_Some_iff by (intro exI [of _ ?r]) (use no in simp)
    then show ?thesis using True by (simp add: find_proc_def Let_def)
  next
    case False
    have no: False if e: "e \<in> set ?v" "pp_pid e = pid" "pp_start e = start" for e
    proof -
      obtain i where i: "i < length ?v" "?v ! i = e" using e(1) by (meson in_set_conv_nth)
      then have ir: "i = ?r" using only e(2) by blast
      show False using False i(1) [unfolded ir] i(2) [unfolded ir] e(2,3) by blast
    qed
    then have "find (\<lambda>e. pp_pid e = pid \<and> pp_start e = start) ?v = None"
      unfolding find_None_iff by blast
    then show ?thesis using False by (simp add: find_proc_def Let_def)
  qed
qed

section \<open>A round of the tracker\<close>

lemma procs_add_keeps [simp]:
  "tk_prev (budyk_procs_add r c t) = tk_prev t" "tk_prev_ns (budyk_procs_add r c t) = tk_prev_ns t"
  "tk_now_ns (budyk_procs_add r c t) = tk_now_ns t"
  by (simp_all add: budyk_procs_add_def Let_def)

lemma proc_entry_cong:
  "tk_prev t' = tk_prev t \<Longrightarrow> tk_prev_ns t' = tk_prev_ns t \<Longrightarrow> tk_now_ns t' = tk_now_ns t \<Longrightarrow> proc_entry t' r c = proc_entry t r c"
  by (simp add: proc_entry_def find_proc_def Let_def)

lemma proc_entry_pid [simp]: "pr_pid (proc_entry t r c) = rd_pid r"
  by (simp add: proc_entry_def)

definition as_prev :: "budyk_proc_read_c \<Rightarrow> budyk_proc_prev_c" where
  "as_prev r = \<lparr>pp_pid = rd_pid r, pp_start = rd_start r, pp_cpu = rd_cpu r\<rparr>"

definition busy :: "budyk_process_c \<Rightarrow> bool" where
  "busy p = f64_less 0 (pr_cpu_percent p)"

lemma busy_not_nan: "busy p \<Longrightarrow> \<not> f64_nan (by_cpu p)"
  by (simp add: busy_def by_cpu_def f64_less_def)

definition procs_read :: "budyk_proc_read_c list \<Rightarrow> f64 \<Rightarrow> tracker \<Rightarrow> tracker" where
  "procs_read rs c t = fold (\<lambda>r. budyk_procs_add r c) rs t"

text \<open>After the readings \<open>rs\<close>: the readings themselves, and the ten largest of each kind.\<close>

lemma procs_read_spec:
  fixes t c
  defines "p \<equiv> \<lambda>r. proc_entry t r c"
  assumes "tk_next t = []" "tk_top_cpu t = []" "tk_top_rss t = []"
  shows "tk_prev (procs_read rs c t) = tk_prev t \<and> tk_prev_ns (procs_read rs c t) = tk_prev_ns t \<and> tk_now_ns (procs_read rs c t) = tk_now_ns t \<and>
    tk_next (procs_read rs c t) = take BUDYK_MAX_TRACKED_PROCS (map as_prev rs) \<and>
    tk_top_cpu (procs_read rs c t) = take BUDYK_TOP_EACH (ranked by_cpu (filter busy (map p rs))) \<and>
    tk_top_rss (procs_read rs c t) = take BUDYK_TOP_EACH (ranked by_rss (map p rs))"
proof (induction rs rule: rev_induct)
  case Nil
  then show ?case by (simp add: procs_read_def assms ranked_def)
next
  case (snoc r rs)
  define u where "u = procs_read rs c t"
  note IH = snoc.IH [folded u_def]
  have step: "procs_read (rs @ [r]) c t = budyk_procs_add r c u" by (simp add: procs_read_def u_def)
  have pr: "proc_entry u r c = p r" unfolding p_def by (rule proc_entry_cong) (use IH in simp_all)
  have rss: "offer by_rss (tk_top_rss u) (p r) = take BUDYK_TOP_EACH (ranked by_rss (map p rs @ [p r]))"
    using offer_ranked [of by_rss "p r" "map p rs"] IH by (simp add: list_all_iff)
  have cpu: "offer by_cpu (tk_top_cpu u) (p r) = take BUDYK_TOP_EACH (ranked by_cpu (filter busy (map p rs) @ [p r]))" if "busy (p r)"
    using offer_ranked [of by_cpu "p r" "filter busy (map p rs)"] IH that busy_not_nan by (simp add: list_all_iff)
  have nexts: "tk_next (budyk_procs_add r c u) = take BUDYK_MAX_TRACKED_PROCS (map as_prev (rs @ [r]))"
    using IH by (simp add: budyk_procs_add_def Let_def flip: as_prev_def)
  have tops: "tk_top_rss (budyk_procs_add r c u) = offer by_rss (tk_top_rss u) (p r)"
    "tk_top_cpu (budyk_procs_add r c u) = (if busy (p r) then offer by_cpu (tk_top_cpu u) (p r) else tk_top_cpu u)"
    by (simp_all add: budyk_procs_add_def Let_def pr busy_def)
  have c: "tk_top_cpu (budyk_procs_add r c u) = take BUDYK_TOP_EACH (ranked by_cpu (filter busy (map p (rs @ [r]))))"
    unfolding tops using cpu IH by simp
  have s: "tk_top_rss (budyk_procs_add r c u) = take BUDYK_TOP_EACH (ranked by_rss (map p (rs @ [r])))"
    unfolding tops rss by simp
  show ?case unfolding step using IH nexts c s by simp
qed

lemma procs_begin_fields [simp]:
  "tk_next (budyk_procs_begin now t) = []" "tk_top_cpu (budyk_procs_begin now t) = []" "tk_top_rss (budyk_procs_begin now t) = []"
  "tk_prev (budyk_procs_begin now t) = tk_prev t" "tk_prev_ns (budyk_procs_begin now t) = tk_prev_ns t" "tk_now_ns (budyk_procs_begin now t) = now"
  by (simp_all add: budyk_procs_begin_def)

lemma procs_end_fields:
  "tk_procs (budyk_procs_end qp qt t) = qt (merge_tops t)" "tk_prev_ns (budyk_procs_end qp qt t) = tk_now_ns t"
  "tk_prev (budyk_procs_end qp qt t) = (if pids_in_order (tk_next t) then tk_next t else qp (tk_next t))"
  by (simp_all add: budyk_procs_end_def Let_def)

lemma sorts_props:
  assumes "sorts cmp qs" "consistent cmp (set xs)"
  shows "mset (qs xs) = mset xs" "set (qs xs) = set xs" "sorted_wrt (\<lambda>x y. cmp x y \<le> 0) (qs xs)"
    "mset (map f (qs xs)) = mset (map f xs)"
  using assms by (auto simp: sorts_def dest: mset_eq_setD)

lemma cmp_prev_consistent: "consistent cmp_prev S"
  by (auto simp: consistent_def cmp_prev_def split: if_splits)

text \<open>The order of the list is one when every share is a number.\<close>

lemma cmp_top_consistent:
  assumes "\<forall>p\<in>S. \<not> f64_nan (pr_cpu_percent p)"
  shows "consistent cmp_top S"
proof -
  define lex where "lex p q = (f64_key (pr_cpu_percent q) < f64_key (pr_cpu_percent p) \<or>
    f64_key (pr_cpu_percent q) = f64_key (pr_cpu_percent p) \<and>
      (pr_rss_bytes q < pr_rss_bytes p \<or> pr_rss_bytes q = pr_rss_bytes p \<and> sint (pr_pid p) \<le> sint (pr_pid q)))" for p q :: budyk_process_c
  have le: "cmp_top p q \<le> 0 \<longleftrightarrow> lex p q" if "p \<in> S" "q \<in> S" for p q
    using assms that by (auto simp: cmp_top_def lex_def f64_ne_def f64_less_def)
  have sg: "sgn (cmp_top p q) = - sgn (cmp_top q p)" if "p \<in> S" "q \<in> S" for p q
    using assms that by (auto simp: cmp_top_def f64_ne_def f64_less_def)
  have tr: "lex p r" if "lex p q" "lex q r" for p q r using that by (auto simp: lex_def)
  have "cmp_top p r \<le> 0" if "p \<in> S" "q \<in> S" "r \<in> S" "cmp_top p q \<le> 0" "cmp_top q r \<le> 0" for p q r
    using le [OF that(1,2)] le [OF that(2,3)] le [OF that(1,3)] that(4,5) tr by blast
  then show ?thesis unfolding consistent_def using sg by blast
qed

lemma proc_entry_not_nan:
  assumes "f64_finite c"
  shows "\<not> f64_nan (pr_cpu_percent (proc_entry t r c))"
proof -
  have "\<not> f64_nan (f64_mul (f64_div (budyk_rate n p d) c) f64_100)" if "f64_less 0 c" for n p d
    by (rule f64_mul_not_nan [OF f64_div_not_nan [OF budyk_rate_not_nan assms f64_positive_mag [OF that]]]) (simp_all add: f64_100_finite)
  then show ?thesis by (simp add: proc_entry_def split: option.split)
qed

lemma distinct_mset_eq: "mset xs = mset ys \<Longrightarrow> distinct xs = distinct ys"
  by (metis mset_eq_imp_distinct_iff)

lemma merge_tops_distinct:
  assumes "distinct (map pr_pid (tk_top_cpu t))" "distinct (map pr_pid (tk_top_rss t))"
  shows "distinct (map pr_pid (merge_tops t))"
proof -
  have "distinct (map pr_pid (filter P (tk_top_rss t)))" for P using assms(2) by (rule distinct_map_filter)
  moreover have "set (map pr_pid (tk_top_cpu t)) \<inter>
      set (map pr_pid (filter (\<lambda>p. \<not> list_ex (\<lambda>q. pr_pid q = pr_pid p) (tk_top_cpu t)) (tk_top_rss t))) = {}"
    by (auto simp: list_ex_iff)
  ultimately show ?thesis using assms(1) unfolding merge_tops_def map_append distinct_append by blast
qed

lemma merge_tops_set:
  assumes "\<forall>p\<in>set ps. \<forall>q\<in>set ps. pr_pid p = pr_pid q \<longrightarrow> p = q" "set (tk_top_cpu t) \<subseteq> set ps" "set (tk_top_rss t) \<subseteq> set ps"
  shows "set (merge_tops t) = set (tk_top_cpu t) \<union> set (tk_top_rss t)"
  using assms by (auto simp: merge_tops_def list_ex_iff)

lemma ranked_mset: "mset (ranked key ps) = mset ps"
  by (simp add: ranked_def)

lemma ranked_take:
  assumes "distinct (map pr_pid ps)"
  shows "distinct (map pr_pid (take n (ranked key (filter P ps))))" "set (take n (ranked key (filter P ps))) \<subseteq> set ps"
proof -
  have m: "mset (ranked key (filter P ps)) = mset (filter P ps)" by (rule ranked_mset)
  then have "mset (map pr_pid (ranked key (filter P ps))) = mset (map pr_pid (filter P ps))" by (metis mset_map)
  then have "distinct (map pr_pid (ranked key (filter P ps)))" using distinct_mset_eq distinct_map_filter [OF assms] by blast
  then show "distinct (map pr_pid (take n (ranked key (filter P ps))))" by (simp add: distinct_take flip: take_map)
  have "set (ranked key (filter P ps)) = set (filter P ps)" using m by (rule mset_eq_setD)
  then show "set (take n (ranked key (filter P ps))) \<subseteq> set ps" using set_take_subset [of n "ranked key (filter P ps)"] by auto
qed

text \<open>C15: The list of processes. For readings of different processes, the list shown is exactly the ten that used most processor
  time (of those that used any) together with the ten with most memory, each process once, by processor time, then
  memory, then process number.
\<close>

theorem procs_listed:
  fixes t :: tracker and c :: f64 and now :: u64 and rs :: "budyk_proc_read_c list"
    and qp :: "budyk_proc_prev_c list \<Rightarrow> budyk_proc_prev_c list" and qt :: "budyk_process_c list \<Rightarrow> budyk_process_c list"
  assumes "sorts cmp_top qt" "f64_finite c" "distinct (map rd_pid rs)"
  defines "t1 \<equiv> budyk_procs_begin now t"
  defines "ps \<equiv> map (\<lambda>r. proc_entry t1 r c) rs"
  defines "shown \<equiv> tk_procs (budyk_procs_end qp qt (procs_read rs c t1))"
  shows "set shown = set (take BUDYK_TOP_EACH (ranked by_cpu (filter busy ps))) \<union> set (take BUDYK_TOP_EACH (ranked by_rss ps)) \<and>
    distinct (map pr_pid shown) \<and> sorted_wrt (\<lambda>p q. cmp_top p q \<le> 0) shown"
proof -
  have "tk_next t1 = []" "tk_top_cpu t1 = []" "tk_top_rss t1 = []" by (simp_all add: t1_def)
  note read = procs_read_spec [OF this, where rs = rs and c = c, folded ps_def]
  define u where "u = procs_read rs c t1"
  have tops: "tk_top_cpu u = take BUDYK_TOP_EACH (ranked by_cpu (filter busy ps))" "tk_top_rss u = take BUDYK_TOP_EACH (ranked by_rss ps)"
    using read by (simp_all add: u_def)
  have pids: "distinct (map pr_pid ps)" using assms(3) by (simp add: ps_def comp_def)
  then have inj: "\<forall>p\<in>set ps. \<forall>q\<in>set ps. pr_pid p = pr_pid q \<longrightarrow> p = q" by (simp add: distinct_map inj_on_def)
  note rc = ranked_take [OF pids, of BUDYK_TOP_EACH by_cpu busy] and rr = ranked_take [OF pids, of BUDYK_TOP_EACH by_rss "\<lambda>_. True", simplified]
  have merged: "set (merge_tops u) = set (tk_top_cpu u) \<union> set (tk_top_rss u)"
    by (rule merge_tops_set [OF inj]) (use rc(2) rr(2) tops in simp_all)
  have "\<forall>p\<in>set ps. \<not> f64_nan (pr_cpu_percent p)" using proc_entry_not_nan [OF assms(2)] by (auto simp: ps_def)
  then have "consistent cmp_top (set (merge_tops u))"
    using rc(2) rr(2) by (intro cmp_top_consistent) (auto simp: merged tops)
  note q = sorts_props [OF assms(1) this]
  have "distinct (map pr_pid (merge_tops u))" by (rule merge_tops_distinct) (use rc(1) rr(1) tops in simp_all)
  then have "distinct (map pr_pid (qt (merge_tops u)))" using distinct_mset_eq [OF q(4) [of pr_pid]] by blast
  moreover have "shown = qt (merge_tops u)" by (simp add: shown_def procs_end_fields u_def)
  ultimately show ?thesis using q(2,3) merged by (simp add: tops)
qed

text \<open>What one round leaves for the next: its own readings, by process number.\<close>

lemma procs_round_prev:
  fixes qt c now t
  assumes "sorts cmp_prev qp" "length rs \<le> BUDYK_MAX_TRACKED_PROCS"
  defines "t2 \<equiv> budyk_procs_end qp qt (procs_read rs c (budyk_procs_begin now t))"
  shows "mset (tk_prev t2) = mset (map as_prev rs) \<and> pids_sorted (tk_prev t2) \<and> tk_prev_ns t2 = now"
proof -
  define u where "u = procs_read rs c (budyk_procs_begin now t)"
  have u: "tk_next u = map as_prev rs" "tk_now_ns u = now"
    using procs_read_spec [of "budyk_procs_begin now t" rs c] assms(2) by (simp_all add: u_def)
  have cmp: "cmp_prev x y \<le> 0 \<longleftrightarrow> sint (pp_pid x) \<le> sint (pp_pid y)" for x y by (auto simp: cmp_prev_def)
  have "pids_sorted (qp v)" for v using sorts_props(3) [OF assms(1) cmp_prev_consistent, of v] by (simp add: cmp sorted_wrt_map)
  then show ?thesis using sorts_props(1) [OF assms(1) cmp_prev_consistent] by (simp add: t2_def procs_end_fields u_def [symmetric] u pids_in_order_sorted)
qed

lemma find_unique:
  assumes "mset ys = mset xs" "\<forall>x\<in>set xs. \<forall>y\<in>set xs. P x \<longrightarrow> P y \<longrightarrow> x = y"
  shows "find P ys = find P xs"
proof -
  have s: "set ys = set xs" using assms(1) by (rule mset_eq_setD)
  show ?thesis
  proof (cases "find P xs")
    case None
    then have "find P ys = None" using s by (simp add: find_map_index(2))
    then show ?thesis using None by simp
  next
    case (Some x)
    then have x: "x \<in> set xs" "P x" using find_map_index(1) by fastforce+
    then have "find P ys \<noteq> None" using s by (auto simp: find_None_iff)
    then obtain y where y: "find P ys = Some y" by blast
    then have "y \<in> set xs" "P y" using find_map_index(1) [OF y] s by simp_all
    then have "x = y" using assms(2) x by blast
    then show ?thesis using y Some by simp
  qed
qed

lemma find_as_prev:
  "find (\<lambda>e. pp_pid e = pid \<and> pp_start e = start) (map as_prev rs) = map_option as_prev (find (\<lambda>r. rd_pid r = pid \<and> rd_start r = start) rs)"
  by (induction rs) (simp_all add: as_prev_def)

text \<open>A process's share of the processor is measured against its own reading of the round before, and no other: the process of
  the same number that started at the same time. One that is new, or that took the number of another, shows none.
\<close>

theorem proc_share_own_reading:
  fixes now1 now2 :: u64
  assumes "sorts cmp_prev qp" "length rs \<le> BUDYK_MAX_TRACKED_PROCS" "distinct (map rd_pid rs)"
  shows "pr_cpu_percent (proc_entry (budyk_procs_begin now2 (budyk_procs_end qp qt (procs_read rs c (budyk_procs_begin now1 t)))) r per_sec) =
    (case find (\<lambda>r'. rd_pid r' = rd_pid r \<and> rd_start r' = rd_start r) rs of None \<Rightarrow> 0
     | Some r' \<Rightarrow> if f64_less 0 per_sec \<and> now1 < now2
                   then f64_mul (f64_div (budyk_rate (rd_cpu r) (Some (rd_cpu r')) (now2 - now1)) per_sec) f64_100 else 0)"
proof -
  define t2 where "t2 = budyk_procs_end qp qt (procs_read rs c (budyk_procs_begin now1 t))"
  have prev: "mset (tk_prev t2) = mset (map as_prev rs)" "pids_sorted (tk_prev t2)" "tk_prev_ns t2 = now1"
    using procs_round_prev [OF assms(1,2)] by (simp_all add: t2_def)
  have pids: "map pp_pid (map as_prev rs) = map rd_pid rs" by (simp add: as_prev_def)
  then have d: "distinct (map pp_pid (map as_prev rs))" using assms(3) by (simp only:)
  have "mset (map pp_pid (tk_prev t2)) = mset (map pp_pid (map as_prev rs))" using prev(1) by (metis mset_map)
  then have dist: "distinct (map pp_pid (tk_prev t2))" using distinct_mset_eq d by blast
  have one: "\<forall>x\<in>set (map as_prev rs). \<forall>y\<in>set (map as_prev rs). pp_pid x = pid \<and> pp_start x = start \<longrightarrow> pp_pid y = pid \<and> pp_start y = start \<longrightarrow> x = y" for pid start
    using d by (auto simp: distinct_map inj_on_def)
  have "find_proc (budyk_procs_begin now2 t2) pid start = map_option as_prev (find (\<lambda>r. rd_pid r = pid \<and> rd_start r = start) rs)" for pid start
    using find_proc_lookup [of "budyk_procs_begin now2 t2" pid start] prev(2) dist find_unique [OF prev(1) one, of pid start] find_as_prev by simp
  then show ?thesis unfolding t2_def [symmetric]
    by (auto simp: proc_entry_def prev(3) as_prev_def split: option.splits)
qed

text \<open>The totals over devices. Whatever the order in which the devices are met, and wherever the search for each begins, the total is
  the sum of what each device known from the last reading moved since; a device that is new, or whose counter went back, adds
  nothing; and the readings are kept for the next round, the first 1024 of them.
\<close>

theorem counted_total:
  assumes "distinct (map ct_name prev)"
  shows "cd_moved_a (fold (add_device prev) devs \<lparr>cd_pos = pos, cd_next = [], cd_moved_a = 0, cd_moved_b = 0\<rparr>) =
      sum_list (map (\<lambda>(name, a, b). moved ct_a prev name a) devs) \<and>
    cd_moved_b (fold (add_device prev) devs \<lparr>cd_pos = pos, cd_next = [], cd_moved_a = 0, cd_moved_b = 0\<rparr>) =
      sum_list (map (\<lambda>(name, a, b). moved ct_b prev name b) devs) \<and>
    cd_next (fold (add_device prev) devs \<lparr>cd_pos = pos, cd_next = [], cd_moved_a = 0, cd_moved_b = 0\<rparr>) =
      take BUDYK_MAX_COUNTED (map (\<lambda>(name, a, b). \<lparr>ct_name = name31 name, ct_a = a, ct_b = b\<rparr>) devs)"
  using counted_adds [OF assms, of "\<lparr>cd_pos = pos, cd_next = [], cd_moved_a = 0, cd_moved_b = 0\<rparr>" devs] by simp

section \<open>Witnesses\<close>

text \<open>A \<open>qsort\<close> for both comparisons: insertion sort.\<close>

fun insert_cmp :: "('a \<Rightarrow> 'a \<Rightarrow> int) \<Rightarrow> 'a \<Rightarrow> 'a list \<Rightarrow> 'a list" where
  "insert_cmp cmp x [] = [x]"
| "insert_cmp cmp x (y # ys) = (if cmp x y \<le> 0 then x # y # ys else y # insert_cmp cmp x ys)"

definition insertion_sort :: "('a \<Rightarrow> 'a \<Rightarrow> int) \<Rightarrow> 'a list \<Rightarrow> 'a list" where
  "insertion_sort cmp xs = foldr (insert_cmp cmp) xs []"

lemma insert_cmp_mset [simp]: "mset (insert_cmp cmp x ys) = add_mset x (mset ys)"
  by (induction ys) auto

lemma insert_cmp_set [simp]: "set (insert_cmp cmp x ys) = insert x (set ys)"
  by (induction ys) auto

lemma consistent_total: "consistent cmp S \<Longrightarrow> x \<in> S \<Longrightarrow> y \<in> S \<Longrightarrow> \<not> cmp x y \<le> 0 \<Longrightarrow> cmp y x \<le> 0"
proof -
  assume "consistent cmp S" "x \<in> S" "y \<in> S" and n: "\<not> cmp x y \<le> 0"
  then have "sgn (cmp x y) = - sgn (cmp y x)" unfolding consistent_def by blast
  then show "cmp y x \<le> 0" using n by (simp add: sgn_if split: if_splits)
qed

lemma consistent_trans: "consistent cmp S \<Longrightarrow> x \<in> S \<Longrightarrow> y \<in> S \<Longrightarrow> z \<in> S \<Longrightarrow> cmp x y \<le> 0 \<Longrightarrow> cmp y z \<le> 0 \<Longrightarrow> cmp x z \<le> 0"
  unfolding consistent_def by blast

lemma insert_cmp_sorted:
  "consistent cmp S \<Longrightarrow> x \<in> S \<Longrightarrow> set ys \<subseteq> S \<Longrightarrow> sorted_wrt (\<lambda>x y. cmp x y \<le> 0) ys \<Longrightarrow> sorted_wrt (\<lambda>x y. cmp x y \<le> 0) (insert_cmp cmp x ys)"
proof (induction ys)
  case (Cons y ys)
  show ?case
  proof (cases "cmp x y \<le> 0")
    case True
    have "cmp x z \<le> 0" if "z \<in> set ys" for z using consistent_trans [OF Cons.prems(1), of x y z] True that Cons.prems by auto
    then show ?thesis using True Cons.prems by simp
  next
    case False
    then have "cmp y x \<le> 0" using consistent_total [OF Cons.prems(1), of x y] Cons.prems by simp
    then show ?thesis using False Cons by simp
  qed
qed simp

lemma insertion_sort_sorts: "sorts cmp (insertion_sort cmp)"
proof -
  have s: "mset (insertion_sort cmp xs) = mset xs" "set (insertion_sort cmp xs) = set xs" for xs :: "'a list"
    by (induction xs) (simp_all add: insertion_sort_def)
  have "sorted_wrt (\<lambda>x y. cmp x y \<le> 0) (insertion_sort cmp xs)" if "consistent cmp S" "set xs \<subseteq> S" for xs S
    using that(2) by (induction xs) (auto simp: insertion_sort_def s [unfolded insertion_sort_def] intro!: insert_cmp_sorted [OF that(1)])
  then show ?thesis using s by (auto simp: sorts_def)
qed

definition example_read :: "nat \<Rightarrow> nat \<Rightarrow> budyk_proc_read_c" where
  "example_read pid cpu = \<lparr>rd_pid = of_nat pid, rd_start = 7, rd_cpu = of_nat cpu, rd_rss_bytes = 4096, rd_threads = 1, rd_state = CHR ''S'', rd_name = ''init''\<rparr>"

definition example_tracker :: tracker where
  "example_tracker = \<lparr>tk_prev = [], tk_next = [], tk_prev_ns = 0, tk_now_ns = 0, tk_top_cpu = [], tk_top_rss = [], tk_procs = []\<rparr>"

theorem procs_listed_witness:
  "set (tk_procs (budyk_procs_end id (insertion_sort cmp_top) (procs_read [example_read 1 5, example_read 2 6] f64_100 (budyk_procs_begin 1 example_tracker)))) =
    set (take BUDYK_TOP_EACH (ranked by_cpu (filter busy (map (\<lambda>r. proc_entry (budyk_procs_begin 1 example_tracker) r f64_100) [example_read 1 5, example_read 2 6])))) \<union>
    set (take BUDYK_TOP_EACH (ranked by_rss (map (\<lambda>r. proc_entry (budyk_procs_begin 1 example_tracker) r f64_100) [example_read 1 5, example_read 2 6])))"
  using procs_listed [of "insertion_sort cmp_top" f64_100 "[example_read 1 5, example_read 2 6]" id 1 example_tracker]
  by (simp add: insertion_sort_sorts f64_100_finite example_read_def)

theorem proc_share_own_reading_witness:
  "pr_cpu_percent (proc_entry (budyk_procs_begin 2000000000 (budyk_procs_end (insertion_sort cmp_prev) id
      (procs_read [example_read 1 5, example_read 2 6] f64_100 (budyk_procs_begin 1000000000 example_tracker)))) (example_read 3 9) f64_100) = 0"
  using proc_share_own_reading [of "insertion_sort cmp_prev" "[example_read 1 5, example_read 2 6]" 2000000000 id f64_100 1000000000 example_tracker "example_read 3 9" f64_100]
  by (simp add: insertion_sort_sorts BUDYK_MAX_TRACKED_PROCS_def example_read_def)

theorem counted_total_witness:
  "cd_moved_a (fold (add_device [\<lparr>ct_name = ''sda'', ct_a = 5, ct_b = 7\<rparr>]) [(''sda'', 9, 8), (''sdb'', 100, 100)]
      \<lparr>cd_pos = 0, cd_next = [], cd_moved_a = 0, cd_moved_b = 0\<rparr>) = 4"
  using counted_total [of "[\<lparr>ct_name = ''sda'', ct_a = 5, ct_b = 7\<rparr>]" "[(''sda'', 9, 8), (''sdb'', 100, 100)]" 0]
  by (simp add: moved_def)

end
