(* ===== verification/Proc_Text.thy ===== *)
theory Proc_Text
  imports Detail
begin

text \<open>
  What the Linux collectors read of the host, and how they read text: \<open>fgets\<close> with its buffer, and the conversions of
  \<open>sscanf\<close> and \<open>fscanf\<close> the sources use, in the C locale with \<open>long\<close> of 64 bits. A number over the range is
  the largest one, as \<open>strtoull\<close> and \<open>strtol\<close> have it, which the C library's \<open>scanf\<close> calls. The host is a record of
  answers: files, directories, links and system calls, as they are during one collection; \<open>/proc\<close> and \<open>/sys\<close> are where
  \<open>src/collector/linux/proc_root.c\<close> says. Proved: words and numbers printed with blanks between them are read back.
\<close>

section \<open>The host\<close>

record statvfs_c =
  f_blocks :: u64
  f_bfree :: u64
  f_bavail :: u64
  f_files :: u64
  f_ffree :: u64
  f_frsize :: u64
  f_bsize :: u64

record timex_c =
  tx_status :: u32
  tx_offset :: int
  tx_maxerror :: int

record rusage_c =
  ru_maxrss :: int
  ru_utime :: "int \<times> int"
  ru_stime :: "int \<times> int"

text \<open>
  \<open>ho_read\<close> is \<open>fopen\<close> with what reading to the end gives, \<open>ho_reread\<close> the same after \<open>fseek\<close> to the start (the kernel makes the text anew);
  \<open>ho_link\<close> is \<open>readlink\<close> when it gives a target. \<open>ho_double\<close> is what \<open>%lf\<close> reads off the start of a text.
\<close>

record host =
  ho_proc_root :: string
  ho_sys_root :: string
  ho_read :: "string \<Rightarrow> errno + string"
  ho_reread :: "string \<Rightarrow> errno + string"
  ho_list :: "string \<Rightarrow> errno + string list"
  ho_exists :: "string \<Rightarrow> bool"
  ho_readable :: "string \<Rightarrow> bool"
  ho_link :: "string \<Rightarrow> string option"
  ho_dev :: "string \<Rightarrow> errno + u64"
  ho_statvfs :: "string \<Rightarrow> statvfs_c option"
  ho_pagesize :: int
  ho_clk_tck :: int
  ho_loadavg :: "f64 list"
  ho_adjtimex :: "int \<times> timex_c"
  ho_rusage :: "rusage_c option"
  ho_double :: "string \<Rightarrow> f64 option"

definition budyk_linux_set_proc_root :: "string option \<Rightarrow> host \<Rightarrow> host" where
  "budyk_linux_set_proc_root dir h = h\<lparr>ho_proc_root := take 255 (case dir of None \<Rightarrow> ''/proc'' | Some r \<Rightarrow> c_str r)\<rparr>"

definition budyk_linux_set_sys_root :: "string option \<Rightarrow> host \<Rightarrow> host" where
  "budyk_linux_set_sys_root dir h = h\<lparr>ho_sys_root := take 255 (case dir of None \<Rightarrow> ''/sys'' | Some r \<Rightarrow> c_str r)\<rparr>"

text \<open>\<open>snprintf(path, sizeof(path), ...)\<close> into 512 bytes.\<close>

definition proc_path :: "host \<Rightarrow> string \<Rightarrow> string" where
  "proc_path h p = take 511 (ho_proc_root h @ p)"

definition sys_path :: "host \<Rightarrow> string \<Rightarrow> string" where
  "sys_path h p = take 511 (ho_sys_root h @ p)"

section \<open>Lines\<close>

text \<open>\<open>fgets(line, n + 1, f)\<close>: up to \<open>n\<close> bytes, to the end of the line.\<close>

fun fgets_piece :: "nat \<Rightarrow> string \<Rightarrow> string \<times> string" where
  "fgets_piece 0 s = ([], s)"
| "fgets_piece (Suc n) [] = ([], [])"
| "fgets_piece (Suc n) (c # s) = (if c = CHR 0x0A then ([c], s) else let (l, r) = fgets_piece n s in (c # l, r))"

lemma fgets_piece_append: "fgets_piece n s = (l, r) \<Longrightarrow> l @ r = s"
  by (induction n s arbitrary: l r rule: fgets_piece.induct) (auto split: if_splits prod.splits)

lemma fgets_piece_progress: "s \<noteq> [] \<Longrightarrow> length (snd (fgets_piece (Suc n) s)) < length s"
proof (cases s)
  case (Cons c t)
  have "length (snd (fgets_piece n t)) \<le> length t"
    using fgets_piece_append [of n t] by (cases "fgets_piece n t") fastforce
  then show ?thesis using Cons by (auto simp: Let_def split: prod.splits)
qed simp

text \<open>Every line \<open>while (fgets(line, n + 2, f) != NULL)\<close> sees, as the C string it is then read as.\<close>

function fgets_all :: "nat \<Rightarrow> string \<Rightarrow> string list" where
  "fgets_all n s = (if s = [] then [] else c_str (fst (fgets_piece (Suc n) s)) # fgets_all n (snd (fgets_piece (Suc n) s)))"
  by pat_completeness auto
termination by (relation "measure (\<lambda>(n, s). length s)") (use fgets_piece_progress in simp_all)

declare fgets_all.simps [simp del]

definition fgets_texts :: "nat \<Rightarrow> string \<Rightarrow> string list" where
  "fgets_texts sz s = fgets_all (sz - 2) s"

section \<open>Conversions\<close>

text \<open>\<open>%s\<close> with a width: a word.\<close>

definition scan_word :: "nat \<Rightarrow> string \<Rightarrow> (string \<times> string) option" where
  "scan_word width s =
     (let s = dropWhile is_space s; w = take width (takeWhile (\<lambda>c. \<not> is_space c) s)
      in if w = [] then None else Some (w, drop (length w) s))"

definition scan_llu :: "string \<Rightarrow> (u64 \<times> string) option" where
  "scan_llu s = strtoull s"

definition scan_u :: "string \<Rightarrow> (u32 \<times> string) option" where
  "scan_u s = map_option (\<lambda>(v, r). (ucast v, r)) (strtoull s)"

definition scan_ld :: "string \<Rightarrow> (int \<times> string) option" where
  "scan_ld s = map_option (\<lambda>(v, erange, r). (v, r)) (strtol s)"

definition is_hex_digit :: "char \<Rightarrow> bool" where
  "is_hex_digit c = (is_digit c \<or> (let n = of_char c :: nat in 65 \<le> n \<and> n \<le> 70 \<or> 97 \<le> n \<and> n \<le> 102))"

definition xdigit_value :: "char \<Rightarrow> nat" where
  "xdigit_value c = (let n = of_char c :: nat in if is_digit c then n - 48 else if n \<le> 70 then n - 55 else n - 87)"

text \<open>\<open>%x\<close>: an optional sign and \<open>0x\<close>.\<close>

definition scan_x :: "string \<Rightarrow> u32 option" where
  "scan_x s =
     (let s = dropWhile is_space s;
          (neg, s) = (case s of c # r \<Rightarrow> if c = CHR ''-'' then (True, r) else if c = CHR ''+'' then (False, r) else (False, s) | [] \<Rightarrow> (False, []));
          s = (case s of c # x # r \<Rightarrow> if c = CHR ''0'' \<and> (x = CHR ''x'' \<or> x = CHR ''X'') then r else s | _ \<Rightarrow> s);
          ds = takeWhile is_hex_digit s; n = foldl (\<lambda>n c. n * 16 + xdigit_value c) 0 ds
      in if ds = [] then None
         else Some (ucast (if n \<ge> two64 then - 1 else if neg then - of_nat n else of_nat n :: u64)))"

text \<open>A run of \<open>%llu\<close> with blanks between: the numbers read before the first that does not read.\<close>

fun scan_llus :: "nat \<Rightarrow> string \<Rightarrow> u64 list" where
  "scan_llus 0 s = []"
| "scan_llus (Suc n) s = (case scan_llu s of None \<Rightarrow> [] | Some (v, r) \<Rightarrow> v # scan_llus n r)"

text \<open>The variables after a run of conversions: those not read keep what they were.\<close>

definition or_old :: "'a list \<Rightarrow> 'a list \<Rightarrow> 'a list" where
  "or_old new old = new @ drop (length new) old"

section \<open>Text\<close>

definition starts_with :: "string \<Rightarrow> string \<Rightarrow> bool" where
  "starts_with p s = (take (length p) s = p)"

text \<open>\<open>strstr\<close>: what stands before the first place, and from it on.\<close>

fun strstr :: "string \<Rightarrow> string \<Rightarrow> (string \<times> string) option" where
  "strstr [] pat = (if pat = [] then Some ([], []) else None)"
| "strstr (c # s) pat = (if starts_with pat (c # s) then Some ([], c # s) else map_option (\<lambda>(b, a). (c # b, a)) (strstr s pat))"

text \<open>\<open>strchr\<close> and \<open>strrchr\<close>: before the character, and after it.\<close>

definition strchr :: "string \<Rightarrow> char \<Rightarrow> (string \<times> string) option" where
  "strchr s c = (if c \<in> set s then Some (takeWhile (\<lambda>x. x \<noteq> c) s, tl (dropWhile (\<lambda>x. x \<noteq> c) s)) else None)"

definition strrchr :: "string \<Rightarrow> char \<Rightarrow> (string \<times> string) option" where
  "strrchr s c =
     (if c \<in> set s then Some (rev (tl (dropWhile (\<lambda>x. x \<noteq> c) (rev s))), rev (takeWhile (\<lambda>x. x \<noteq> c) (rev s))) else None)"

text \<open>The tokens of \<open>strtok_r(s, " \n", ...)\<close>.\<close>

definition tok_char :: "char \<Rightarrow> bool" where
  "tok_char c = (c \<noteq> CHR '' '' \<and> c \<noteq> CHR 0x0A)"

function tokens :: "string \<Rightarrow> string list" where
  "tokens s =
     (let s' = dropWhile (\<lambda>c. \<not> tok_char c) s in if s' = [] then [] else takeWhile tok_char s' # tokens (dropWhile tok_char s'))"
  by pat_completeness auto
termination
proof (relation "measure length")
  fix s s' :: string
  assume s': "s' = dropWhile (\<lambda>c. \<not> tok_char c) s" "s' \<noteq> []"
  then have "tok_char (hd s')" using hd_dropWhile [of "\<lambda>c. \<not> tok_char c" s] by simp
  then have "length (dropWhile tok_char s') < length s'"
    using s'(2) by (cases s') (auto simp: le_imp_less_Suc length_dropWhile_le)
  moreover have "length s' \<le> length s" using s'(1) by (simp add: length_dropWhile_le)
  ultimately show "(dropWhile tok_char s', s) \<in> measure length" by simp
qed simp

declare tokens.simps [simp del]

section \<open>What is printed is read\<close>

lemma fgets_piece_text: "CHR 0x0A \<notin> set l \<Longrightarrow> length l \<le> n \<Longrightarrow> fgets_piece (Suc n) (l @ CHR 0x0A # s) = (l @ [CHR 0x0A], s)"
proof (induction l arbitrary: n)
  case (Cons c l)
  then obtain m where n: "n = Suc m" by (cases n) auto
  then show ?case using Cons by (auto simp: Let_def)
qed simp

lemma fgets_all_Nil [simp]: "fgets_all n [] = []"
  by (subst fgets_all.simps) simp

lemma fgets_all_line:
  "CHR 0x0A \<notin> set l \<Longrightarrow> length l \<le> n \<Longrightarrow> fgets_all n (l @ CHR 0x0A # s) = c_str (l @ [CHR 0x0A]) # fgets_all n s"
  by (subst fgets_all.simps) (simp add: fgets_piece_text)

lemma fgets_texts_text:
  assumes "list_all (\<lambda>l. CHR 0x0A \<notin> set l \<and> CHR 0x00 \<notin> set l \<and> length l + 2 \<le> n) ls"
  shows "fgets_texts n (concat (map (\<lambda>l. l @ [CHR 0x0A]) ls)) = map (\<lambda>l. l @ [CHR 0x0A]) ls"
  using assms
proof (induction ls)
  case (Cons l ls)
  have "c_str (l @ [CHR 0x0A]) = l @ [CHR 0x0A]" using Cons.prems by (intro c_str_id) simp
  moreover have "length l \<le> n - 2" using Cons.prems by auto
  ultimately show ?case using Cons fgets_all_line [of l "n - 2" "concat (map (\<lambda>l. l @ [CHR 0x0A]) ls)"] by (simp add: fgets_texts_def)
qed (simp add: fgets_texts_def)

lemma fgets_all_no_nul: "l \<in> set (fgets_all n s) \<Longrightarrow> CHR 0x00 \<notin> set l"
proof (induction n s rule: fgets_all.induct)
  case (1 n s)
  show ?case
  proof (cases "s = []")
    case True
    then show ?thesis using "1.prems" by simp
  next
    case False
    have "CHR 0x00 \<notin> set (c_str x)" for x unfolding c_str_def using set_takeWhileD by fastforce
    moreover have "l = c_str (fst (fgets_piece (Suc n) s)) \<or> l \<in> set (fgets_all n (snd (fgets_piece (Suc n) s)))"
      using "1.prems" False by (subst (asm) fgets_all.simps) simp
    ultimately show ?thesis using "1.IH" [OF False] by blast
  qed
qed

lemma fgets_texts_no_nul: "l \<in> set (fgets_texts n s) \<Longrightarrow> CHR 0x00 \<notin> set l"
  by (simp add: fgets_texts_def fgets_all_no_nul)

lemma scan_number_space: "is_space c \<Longrightarrow> scan_number (c # s) = scan_number s"
  by (simp add: scan_number_def)

lemma is_space_blank [simp]: "is_space (CHR '' '')"
  by (simp add: is_space_def)

lemma strtoull_space: "is_space c \<Longrightarrow> strtoull (c # s) = strtoull s"
  by (simp add: strtoull_def scan_number_space)

lemma strtol_space: "is_space c \<Longrightarrow> strtol (c # s) = strtol s"
  by (simp add: strtol_def scan_number_space)

lemma strtol_digits:
  assumes "rest = [] \<or> \<not> is_digit (hd rest)" "n < 2 ^ 63"
  shows "strtol (digits n @ rest) = Some (int n, False, rest)"
proof -
  have "\<not> (2::int) ^ 63 \<le> int n" using assms(2) by (simp add: not_le flip: of_nat_less_iff)
  then show ?thesis
    unfolding strtol_def scan_digits [OF digits_all [of n] assms(1)] by (simp add: nat_of_digits_digits Let_def)
qed

text \<open>Numbers printed with a blank before each.\<close>

definition print_llus :: "u64 list \<Rightarrow> string" where
  "print_llus vs = concat (map (\<lambda>v. CHR '' '' # digits (unat v)) vs)"

lemma hd_print_llus: "rest = [] \<or> \<not> is_digit (hd rest) \<Longrightarrow> print_llus vs @ rest = [] \<or> \<not> is_digit (hd (print_llus vs @ rest))"
  by (cases vs) (simp_all add: print_llus_def is_digit_def)

lemma scan_llus_printed:
  "rest = [] \<or> \<not> is_digit (hd rest) \<Longrightarrow> scan_llus (length vs) (print_llus vs @ rest) = vs"
proof (induction vs)
  case (Cons v vs)
  have eq: "print_llus (v # vs) @ rest = CHR '' '' # digits (unat v) @ (print_llus vs @ rest)" by (simp add: print_llus_def)
  have "scan_llu (print_llus (v # vs) @ rest) = Some (v, print_llus vs @ rest)"
    unfolding scan_llu_def eq strtoull_space [OF is_space_blank] by (rule strtoull_digits [OF hd_print_llus [OF Cons.prems]])
  then show ?case using Cons by (simp del: append_assoc)
qed simp

lemma scan_word_printed:
  assumes "w \<noteq> []" "list_all (\<lambda>c. \<not> is_space c) w" "length w \<le> n" "rest = [] \<or> is_space (hd rest)"
  shows "scan_word n (w @ rest) = Some (w, rest)"
proof -
  have d: "dropWhile is_space (w @ rest) = w @ rest" using assms(1,2) by (cases w) simp_all
  have t: "takeWhile (\<lambda>c. \<not> is_space c) (w @ rest) = w" using assms(2,4) by (induction w) (auto, cases rest, auto)
  show ?thesis unfolding scan_word_def d t Let_def using assms(1,3) by simp
qed

lemma scan_word_space: "is_space c \<Longrightarrow> scan_word n (c # s) = scan_word n s"
  by (simp add: scan_word_def)

lemma scan_word_no_nul: "CHR 0x00 \<notin> set s \<Longrightarrow> scan_word n s = Some (w, r) \<Longrightarrow> CHR 0x00 \<notin> set w \<and> CHR 0x00 \<notin> set r"
  by (auto simp: scan_word_def Let_def split: if_splits dest!: in_set_takeD in_set_dropD set_takeWhileD set_dropWhileD)

lemma tokens_Nil [simp]: "tokens [] = []"
  by (subst tokens.simps) simp

lemma tokens_blank: "\<not> tok_char c \<Longrightarrow> tokens (c # s) = tokens s"
  by (subst (1 2) tokens.simps) simp

lemma tokens_word:
  assumes "w \<noteq> []" "list_all tok_char w" "rest = [] \<or> \<not> tok_char (hd rest)"
  shows "tokens (w @ rest) = w # tokens rest"
proof -
  have d: "dropWhile (\<lambda>c. \<not> tok_char c) (w @ rest) = w @ rest" using assms(1,2) by (cases w) simp_all
  have "takeWhile tok_char (w @ rest) = w \<and> dropWhile tok_char (w @ rest) = rest"
    using assms(2,3) by (induction w) (auto, (cases rest; simp)+)
  then show ?thesis using assms(1) by (subst tokens.simps) (simp only: d Let_def append_is_Nil_conv simp_thms if_False)
qed

lemma digits_bound: "n < 10 ^ Suc k \<Longrightarrow> length (digits n) \<le> Suc k"
proof (induction k arbitrary: n)
  case 0
  then show ?case by (subst digits.simps) simp
next
  case (Suc k)
  have "n div 10 < 10 ^ Suc k" using Suc.prems by (simp add: less_mult_imp_div_less)
  then show ?case using Suc.IH by (subst digits.simps) simp
qed

lemma digits_u64_length: "length (digits (unat (v :: u64))) \<le> 20"
proof -
  have "unat v < 10 ^ Suc 19" using unat_lt_two64 [of v] by simp
  from digits_bound [OF this] show ?thesis by simp
qed

lemma digits_no_break: "CHR 0x0A \<notin> set (digits n)" "CHR 0x00 \<notin> set (digits n)"
  using digits_all(1) [of n] by (auto simp: list_all_iff is_digit_def Let_def)

lemma print_llus_text: "CHR 0x0A \<notin> set (print_llus vs)" "CHR 0x00 \<notin> set (print_llus vs)" "length (print_llus vs) \<le> 21 * length vs"
proof -
  show "CHR 0x0A \<notin> set (print_llus vs)" "CHR 0x00 \<notin> set (print_llus vs)" using digits_no_break by (auto simp: print_llus_def)
  show "length (print_llus vs) \<le> 21 * length vs"
  proof (induction vs)
    case (Cons v vs)
    then show ?case using digits_u64_length [of v] by (simp add: print_llus_def)
  qed (simp add: print_llus_def)
qed

lemma strchr_split: "c \<notin> set b \<Longrightarrow> strchr (b @ c # a) c = Some (b, a)"
proof -
  assume c: "c \<notin> set b"
  have t: "takeWhile (\<lambda>x. x \<noteq> c) (b @ c # a) = b" by (rule takeWhile_until [OF c]) simp
  have d: "dropWhile (\<lambda>x. x \<noteq> c) (b @ c # a) = c # a" by (rule dropWhile_until [OF c]) simp
  show ?thesis unfolding strchr_def t d by simp
qed

lemma strrchr_split: "c \<notin> set a \<Longrightarrow> strrchr (b @ c # a) c = Some (b, a)"
proof -
  assume "c \<notin> set a"
  then have c: "c \<notin> set (rev a)" by simp
  have t: "takeWhile (\<lambda>x. x \<noteq> c) (rev (b @ c # a)) = rev a" unfolding rev_append rev.simps append_assoc append_Cons append_Nil by (rule takeWhile_until [OF c]) simp
  have d: "dropWhile (\<lambda>x. x \<noteq> c) (rev (b @ c # a)) = c # rev b" unfolding rev_append rev.simps append_assoc append_Cons append_Nil by (rule dropWhile_until [OF c]) simp
  show ?thesis unfolding strrchr_def t d by simp
qed

end
