(* ===== verification/Linux_Devices.thy ===== *)
theory Linux_Devices
  imports Proc_Text
begin

text \<open>
  The collectors of processors, disks and network interfaces (\<open>src/collector/linux/cpu.c\<close>, \<open>disk.c\<close>, \<open>network.c\<close>). The pointers
  they are given are those of \<open>collect_one\<close>, not null but for the detail, which is an option. Each takes the host, its context
  of the last reading, the sample and the detail, and gives the return code and these after it.
  Proved: the totals of disks and of interfaces are the sums of what each device moved since the reading before, whatever came or
  went in between; partitions and stacked devices are not counted twice.
\<close>

definition ENODATA :: errno where "ENODATA = 61"

section \<open>The sample and the detail\<close>

record budyk_sample_c =
  sc_timestamp_nanos :: u64
  sc_cpu :: cpu_stats
  sc_mem :: mem_stats
  sc_swap :: swap_stats
  sc_load :: load_stats
  sc_disk :: disk_stats
  sc_net :: net_stats
  sc_proc :: process_stats
  sc_entropy :: entropy_stats
  sc_self :: self_stats
  sc_thermal :: thermal_stats
  sc_tcp :: tcp_stats
  sc_udp :: udp_stats
  sc_icmp :: icmp_stats
  sc_fs :: fs_stats
  sc_fs_unreadable :: u32
  sc_clock :: clock_stats
  sc_uptime_seconds :: f64

definition BUDYK_MAX_CORES :: nat where "BUDYK_MAX_CORES = 1024"
definition BUDYK_MAX_ENTITIES :: nat where "BUDYK_MAX_ENTITIES = 256"

text \<open>The whole detail: the lists, and what is kept for the rates. \<open>dc_core_prev\<close> has a core's last reading when \<open>core_has_prev\<close> is set.\<close>

record detail =
  dc_collected :: u32
  dc_baseline :: u32
  dc_cores :: "budyk_core_c list"
  dc_disks :: "budyk_disk_dev_c list"
  dc_ifaces :: "budyk_iface_c list"
  dc_mounts :: "budyk_mount_c list"
  dc_core_prev :: "nat \<Rightarrow> u64 list option"
  dc_disk_prev :: "budyk_entity_prev_c list"
  dc_disk_prev_ns :: u64
  dc_iface_prev :: "budyk_entity_prev_c list"
  dc_iface_prev_ns :: u64
  dc_tracker :: tracker

section \<open>Processors\<close>

definition delta :: "u64 \<Rightarrow> u64 \<Rightarrow> u64" where
  "delta now prev = (if now \<ge> prev then now - prev else 0)"

definition share :: "u64 \<Rightarrow> u64 \<Rightarrow> f64" where
  "share d dt = f64_div (f64_mul (f64_of_nat (unat d)) f64_100) (f64_of_nat (unat dt))"

text \<open>\<open>x - y\<close> of doubles.\<close>

definition f64_sub :: "f64 \<Rightarrow> f64 \<Rightarrow> f64" where
  "f64_sub x y = f64_add x (y XOR 2 ^ 63)"

definition core_zero :: budyk_core_c where
  "core_zero = \<lparr>co_total_percent = 0, co_user_percent = 0, co_system_percent = 0, co_iowait_percent = 0,
     co_irq_percent = 0, co_steal_percent = 0, co_idle_percent = 0, co_id = 0\<rparr>"

definition core_percent :: "u64 list \<Rightarrow> u64 list option \<Rightarrow> budyk_core_c" where
  "core_percent now prev =
     (case prev of None \<Rightarrow> core_zero
      | Some p \<Rightarrow>
          let dt = delta (now ! 6) (p ! 6)
          in if dt = 0 then core_zero
             else let pct = (\<lambda>i. share (delta (now ! i) (p ! i)) dt); total = f64_sub (f64_sub f64_100 (pct 5)) (pct 2)
                  in \<lparr>co_total_percent = (if f64_less total 0 then 0 else total), co_user_percent = pct 0, co_system_percent = pct 1,
                      co_iowait_percent = pct 2, co_irq_percent = pct 3, co_steal_percent = pct 4, co_idle_percent = pct 5, co_id = 0\<rparr>)"

record budyk_cpu_ctx_c =
  cx_busy :: u64
  cx_total :: u64
  cx_part :: "u64 list"
  cx_has_prev :: bool

text \<open>
  The lines of \<open>/proc/stat\<close> up to the one of the interrupts. \<open>cs_agg\<close> is user, nice, system, idle, iowait, irq, softirq, steal.
\<close>

record cpu_scan =
  cs_agg :: "u64 list"
  cs_got_agg :: bool
  cs_ncpu :: u32
  cs_detail :: "detail option"

definition core_now :: "u64 list \<Rightarrow> u64 list" where
  "core_now v = [v ! 0 + v ! 1, v ! 2, v ! 4, v ! 5 + v ! 6, v ! 7, v ! 3,
     v ! 0 + v ! 1 + v ! 2 + v ! 4 + v ! 5 + v ! 6 + v ! 7 + v ! 3]"

definition core_line :: "string \<Rightarrow> detail \<Rightarrow> detail" where
  "core_line line d =
     (case scan_u line of None \<Rightarrow> d
      | Some (cid, r) \<Rightarrow>
          let v = scan_llus 8 r; n = unat cid
          in if length v = 8 \<and> n < BUDYK_MAX_CORES \<and> length (dc_cores d) < BUDYK_MAX_CORES
             then d\<lparr>dc_cores := dc_cores d @ [core_percent (core_now v) (dc_core_prev d n) \<lparr>co_id := cid\<rparr>],
                    dc_core_prev := (dc_core_prev d)(n := Some (core_now v))\<rparr>
             else d)"

fun cpu_lines :: "string list \<Rightarrow> cpu_scan \<Rightarrow> cpu_scan" where
  "cpu_lines [] st = st"
| "cpu_lines (line # ls) st =
     (if \<not> cs_got_agg st \<and> starts_with ''cpu '' line
      then cpu_lines ls (st\<lparr>cs_agg := or_old (scan_llus 8 (drop 4 line)) (cs_agg st), cs_got_agg := True\<rparr>)
      else if starts_with ''cpu'' line \<and> drop 3 line \<noteq> [] \<and> is_digit (line ! 3)
      then cpu_lines ls (st\<lparr>cs_ncpu := cs_ncpu st + 1, cs_detail := map_option (core_line (drop 3 line)) (cs_detail st)\<rparr>)
      else if starts_with ''intr'' line then st else cpu_lines ls st)"

definition budyk_collect_cpu_linux_ex :: "host \<Rightarrow> budyk_cpu_ctx_c \<Rightarrow> budyk_sample_c \<Rightarrow> detail option \<Rightarrow>
    rc \<times> budyk_cpu_ctx_c \<times> budyk_sample_c \<times> detail option" where
  "budyk_collect_cpu_linux_ex h ctx s d =
     (let d = map_option (dc_cores_update (\<lambda>_. [])) d
      in case ho_read h (proc_path h ''/stat'') of Inl e \<Rightarrow> (- e, ctx, s, d)
         | Inr content \<Rightarrow>
             let st = cpu_lines (fgets_texts 512 content) \<lparr>cs_agg = replicate 8 0, cs_got_agg = False, cs_ncpu = 0, cs_detail = d\<rparr>;
                 d = cs_detail st
             in if \<not> cs_got_agg st then (- ENODATA, ctx, s, d)
                else let v = cs_agg st;
                         busy = v ! 0 + v ! 1 + v ! 2 + v ! 5 + v ! 6 + v ! 7;
                         total = busy + v ! 3 + v ! 4;
                         part = [v ! 0 + v ! 1, v ! 2, v ! 4, v ! 5 + v ! 6, v ! 7, v ! 3];
                         dt = delta total (cx_total ctx);
                         pct = (\<lambda>x. if cx_has_prev ctx \<and> dt > 0 then share x dt else 0);
                         p = (\<lambda>i. pct (delta (part ! i) (cx_part ctx ! i)))
                     in (0, \<lparr>cx_busy = busy, cx_total = total, cx_part = part, cx_has_prev = True\<rparr>,
                         s\<lparr>sc_cpu := \<lparr>cpu_total_percent = pct (delta busy (cx_busy ctx)), cpu_count = cs_ncpu st,
                             cpu_user_percent = p 0, cpu_system_percent = p 1, cpu_iowait_percent = p 2,
                             cpu_irq_percent = p 3, cpu_steal_percent = p 4, cpu_idle_percent = p 5\<rparr>\<rparr>, d))"

section \<open>Disks\<close>

definition noise_names :: "string list" where
  "noise_names = [''loop'', ''ram'', ''zram'', ''dm-'', ''md'', ''fd'', ''sr'', ''nbd'', ''zd'', ''bcache'', ''drbd'']"

definition is_noise_name :: "string \<Rightarrow> bool" where
  "is_noise_name name = list_ex (\<lambda>p. starts_with p name) noise_names"

definition is_alpha :: "char \<Rightarrow> bool" where
  "is_alpha c = (let n = of_char c :: nat in 65 \<le> n \<and> n \<le> 90 \<or> 97 \<le> n \<and> n \<le> 122)"

definition ends_with_digit_p_digits :: "string \<Rightarrow> bool" where
  "ends_with_digit_p_digits name =
     (let i = length (dropWhile is_digit (rev name))
      in i > 1 \<and> i < length name \<and> name ! (i - 1) = CHR ''p'' \<and> is_digit (name ! (i - 2)))"

definition sd_family_partition :: "string \<Rightarrow> string \<Rightarrow> bool" where
  "sd_family_partition name pre =
     (starts_with pre name \<and> length name > length pre \<and> is_digit (last name) \<and>
      (let i = length pre + length (takeWhile is_alpha (drop (length pre) name))
       in i > length pre \<and> i < length name \<and> is_digit (name ! i)))"

definition is_partition_name :: "host \<Rightarrow> string \<Rightarrow> bool" where
  "is_partition_name h name =
     (if ho_exists h (sys_path h (''/class/block/'' @ take 64 name))
      then ho_exists h (sys_path h (''/class/block/'' @ take 64 name @ ''/partition''))
      else ends_with_digit_p_digits name \<or> sd_family_partition name ''sd'' \<or> sd_family_partition name ''hd'' \<or>
           sd_family_partition name ''vd'' \<or> sd_family_partition name ''xvd'')"

record budyk_disk_ctx_c =
  dx_dev :: "budyk_counted_c list"
  dx_prev_ns :: u64
  dx_has_prev :: bool

text \<open>A line of \<open>/proc/diskstats\<close>: the name, and the ten numbers that follow, the last two 0 when they are missing.\<close>

definition disk_line :: "string \<Rightarrow> (string \<times> u64 list) option" where
  "disk_line line =
     (case scan_u line of None \<Rightarrow> None
      | Some (maj, l) \<Rightarrow>
          case scan_u l of None \<Rightarrow> None
          | Some (minr, l) \<Rightarrow>
              case scan_word 63 l of None \<Rightarrow> None
              | Some (name, l) \<Rightarrow>
                  let v = scan_llus 10 l in if length v < 8 then None else Some (name, or_old v (replicate 10 0)))"

definition f64_10 :: f64 where "f64_10 = f64_of_nat 10"

definition disk_entry :: "budyk_entity_prev_c list \<Rightarrow> u64 \<Rightarrow> string \<Rightarrow> u64 list \<Rightarrow> budyk_disk_dev_c" where
  "disk_entry prev ddns name now =
     (let zero = \<lparr>dd_name = name31 name, dd_read_bytes_per_sec = 0, dd_write_bytes_per_sec = 0, dd_reads_per_sec = 0, dd_writes_per_sec = 0, dd_busy_percent = 0\<rparr>
      in case budyk_find_prev prev name of None \<Rightarrow> zero
         | Some p \<Rightarrow>
             if ddns > 0
             then let c = (\<lambda>i. Some (ep_c p ! i)); busy = f64_div (budyk_rate (now ! 4) (c 4) ddns) f64_10
                  in zero\<lparr>dd_read_bytes_per_sec := budyk_rate_u64 (now ! 0) (c 0) ddns, dd_write_bytes_per_sec := budyk_rate_u64 (now ! 1) (c 1) ddns,
                      dd_reads_per_sec := budyk_rate (now ! 2) (c 2) ddns, dd_writes_per_sec := budyk_rate (now ! 3) (c 3) ddns,
                      dd_busy_percent := (if f64_less f64_100 busy then f64_100 else busy)\<rparr>
             else zero)"

record disk_scan =
  ds_counted :: counted_state
  ds_count :: u32
  ds_disks :: "budyk_disk_dev_c list"
  ds_next :: "budyk_entity_prev_c list"

definition disk_read :: "host \<Rightarrow> budyk_counted_c list \<Rightarrow> detail option \<Rightarrow> u64 \<Rightarrow> string \<Rightarrow> disk_scan \<Rightarrow> disk_scan" where
  "disk_read h dev d ddns line st =
     (case disk_line line of None \<Rightarrow> st
      | Some (name, v) \<Rightarrow>
          if is_noise_name name \<or> is_partition_name h name then st
          else let st = st\<lparr>ds_counted := budyk_counted_add dev name (v ! 2 * 512) (v ! 6 * 512) (ds_counted st), ds_count := ds_count st + 1\<rparr>
               in case d of None \<Rightarrow> st
                  | Some d \<Rightarrow>
                      if length (ds_disks st) < BUDYK_MAX_ENTITIES
                      then let now = [v ! 2 * 512, v ! 6 * 512, v ! 0, v ! 4, v ! 9]
                           in st\<lparr>ds_disks := ds_disks st @ [disk_entry (dc_disk_prev d) ddns name now],
                                 ds_next := ds_next st @ [\<lparr>ep_name = name31 name, ep_c = now\<rparr>]\<rparr>
                      else st)"

definition counted_start :: counted_state where
  "counted_start = \<lparr>cd_pos = 0, cd_next = [], cd_moved_a = 0, cd_moved_b = 0\<rparr>"

text \<open>The interval of a list's rates: 0 when there was no reading before.\<close>

definition list_interval :: "u64 \<Rightarrow> u64 \<Rightarrow> u64" where
  "list_interval now prev = (if prev \<noteq> 0 \<and> now > prev then now - prev else 0)"

definition total_rate :: "bool \<Rightarrow> u64 \<Rightarrow> u64 \<Rightarrow> u64 \<Rightarrow> u64" where
  "total_rate has_prev now prev n = (if \<not> has_prev \<or> now \<le> prev then 0 else budyk_rate_u64 n (Some 0) (now - prev))"

definition budyk_collect_disk_linux_ex :: "host \<Rightarrow> budyk_disk_ctx_c \<Rightarrow> budyk_sample_c \<Rightarrow> detail option \<Rightarrow>
    rc \<times> budyk_disk_ctx_c \<times> budyk_sample_c \<times> detail option" where
  "budyk_collect_disk_linux_ex h ctx s d =
     (let now = sc_timestamp_nanos s;
          ddns = (case d of None \<Rightarrow> 0 | Some d \<Rightarrow> list_interval now (dc_disk_prev_ns d));
          d = map_option (dc_disks_update (\<lambda>_. [])) d
      in case ho_read h (proc_path h ''/diskstats'') of Inl e \<Rightarrow> (- e, ctx, s, d)
         | Inr content \<Rightarrow>
             let st = fold (disk_read h (dx_dev ctx) d ddns) (fgets_texts 512 content) \<lparr>ds_counted = counted_start, ds_count = 0, ds_disks = [], ds_next = []\<rparr>
             in (0, \<lparr>dx_dev = cd_next (ds_counted st), dx_prev_ns = now, dx_has_prev = True\<rparr>,
                 s\<lparr>sc_disk := \<lparr>disk_read_bytes_per_sec = total_rate (dx_has_prev ctx) now (dx_prev_ns ctx) (cd_moved_a (ds_counted st)),
                     disk_write_bytes_per_sec = total_rate (dx_has_prev ctx) now (dx_prev_ns ctx) (cd_moved_b (ds_counted st)), disk_device_count = ds_count st\<rparr>\<rparr>,
                 map_option (\<lambda>d. d\<lparr>dc_disks := ds_disks st, dc_disk_prev := ds_next st, dc_disk_prev_ns := now\<rparr>) d))"

section \<open>Network interfaces\<close>

definition iface_up :: "host \<Rightarrow> string \<Rightarrow> 8 word" where
  "iface_up h name =
     (case ho_read h (sys_path h (''/class/net/'' @ take 64 name @ ''/flags'')) of Inl e \<Rightarrow> 1
      | Inr content \<Rightarrow> let flags = (case scan_x content of None \<Rightarrow> 1 | Some f \<Rightarrow> f) in if flags AND 1 \<noteq> 0 then 1 else 0)"

definition iface_is_device :: "host \<Rightarrow> string \<Rightarrow> bool" where
  "iface_is_device h name = ho_exists h (sys_path h (''/class/net/'' @ take 64 name @ ''/device''))"

definition iface_physical :: "host \<Rightarrow> string \<Rightarrow> bool" where
  "iface_physical h name =
     (iface_is_device h name \<and>
      (case ho_link h (sys_path h (''/class/net/'' @ take 64 name @ ''/master'')) of None \<Rightarrow> True
       | Some target0 \<Rightarrow>
           let target = c_str (take 511 target0)
           in \<not> iface_is_device h (case strrchr target (CHR ''/'') of None \<Rightarrow> target | Some (_, master) \<Rightarrow> master)))"

record budyk_net_ctx_c =
  nx_dev :: "budyk_counted_c list"
  nx_prev_ns :: u64
  nx_has_prev :: bool

text \<open>A line of \<open>/proc/net/dev\<close>: the name before the colon, without blanks before it, and sixteen numbers.\<close>

definition net_line :: "string \<Rightarrow> (string \<times> u64 list) option" where
  "net_line line =
     (case strchr line (CHR '':'') of None \<Rightarrow> None
      | Some (b, a) \<Rightarrow>
          let name = dropWhile (\<lambda>c. c = CHR '' '' \<or> c = CHR 0x09) b; v = scan_llus 16 a
          in if name = [] \<or> name = ''lo'' \<or> length v < 16 then None else Some (name, v))"

definition iface_entry :: "host \<Rightarrow> budyk_entity_prev_c list \<Rightarrow> u64 \<Rightarrow> string \<Rightarrow> u64 list \<Rightarrow> budyk_iface_c" where
  "iface_entry h prev ddns name now =
     (let zero = \<lparr>ic_name = name31 name, ic_rx_bytes_per_sec = 0, ic_tx_bytes_per_sec = 0, ic_rx_packets_per_sec = 0, ic_tx_packets_per_sec = 0,
                   ic_rx_errors_per_sec = 0, ic_tx_errors_per_sec = 0, ic_rx_drops_per_sec = 0, ic_up = iface_up h name\<rparr>
      in case budyk_find_prev prev name of None \<Rightarrow> zero
         | Some p \<Rightarrow>
             if ddns > 0
             then let c = (\<lambda>i. Some (ep_c p ! i))
                  in zero\<lparr>ic_rx_bytes_per_sec := budyk_rate_u64 (now ! 0) (c 0) ddns, ic_tx_bytes_per_sec := budyk_rate_u64 (now ! 1) (c 1) ddns,
                      ic_rx_packets_per_sec := budyk_rate (now ! 2) (c 2) ddns, ic_tx_packets_per_sec := budyk_rate (now ! 3) (c 3) ddns,
                      ic_rx_errors_per_sec := budyk_rate (now ! 4) (c 4) ddns, ic_tx_errors_per_sec := budyk_rate (now ! 5) (c 5) ddns,
                      ic_rx_drops_per_sec := budyk_rate (now ! 6) (c 6) ddns\<rparr>
             else zero)"

record net_scan =
  ns_counted :: counted_state
  ns_rx_moved :: u64
  ns_tx_moved :: u64
  ns_rx_physical :: u64
  ns_tx_physical :: u64
  ns_physical :: u32
  ns_count :: u32
  ns_ifaces :: "budyk_iface_c list"
  ns_next :: "budyk_entity_prev_c list"

definition net_read :: "host \<Rightarrow> budyk_counted_c list \<Rightarrow> detail option \<Rightarrow> u64 \<Rightarrow> string \<Rightarrow> net_scan \<Rightarrow> net_scan" where
  "net_read h dev d ddns line st =
     (case net_line line of None \<Rightarrow> st
      | Some (name, v) \<Rightarrow>
          let cd = budyk_counted_add dev name (v ! 0) (v ! 8) ((ns_counted st)\<lparr>cd_moved_a := 0, cd_moved_b := 0\<rparr>);
              rx = cd_moved_a cd; tx = cd_moved_b cd;
              st = st\<lparr>ns_counted := cd, ns_rx_moved := ns_rx_moved st + rx, ns_tx_moved := ns_tx_moved st + tx\<rparr>;
              st = (if iface_physical h name
                    then st\<lparr>ns_rx_physical := ns_rx_physical st + rx, ns_tx_physical := ns_tx_physical st + tx, ns_physical := ns_physical st + 1\<rparr> else st);
              st = st\<lparr>ns_count := ns_count st + 1\<rparr>
          in case d of None \<Rightarrow> st
             | Some d \<Rightarrow>
                 if length (ns_ifaces st) < BUDYK_MAX_ENTITIES
                 then let now = [v ! 0, v ! 8, v ! 1, v ! 9, v ! 2, v ! 10, v ! 3]
                      in st\<lparr>ns_ifaces := ns_ifaces st @ [iface_entry h (dc_iface_prev d) ddns name now],
                            ns_next := ns_next st @ [\<lparr>ep_name = name31 name, ep_c = now\<rparr>]\<rparr>
                 else st)"

definition net_start :: net_scan where
  "net_start = \<lparr>ns_counted = counted_start, ns_rx_moved = 0, ns_tx_moved = 0, ns_rx_physical = 0, ns_tx_physical = 0,
     ns_physical = 0, ns_count = 0, ns_ifaces = [], ns_next = []\<rparr>"

definition budyk_collect_network_linux_ex :: "host \<Rightarrow> budyk_net_ctx_c \<Rightarrow> budyk_sample_c \<Rightarrow> detail option \<Rightarrow>
    rc \<times> budyk_net_ctx_c \<times> budyk_sample_c \<times> detail option" where
  "budyk_collect_network_linux_ex h ctx s d =
     (let now = sc_timestamp_nanos s;
          ddns = (case d of None \<Rightarrow> 0 | Some d \<Rightarrow> list_interval now (dc_iface_prev_ns d));
          d = map_option (dc_ifaces_update (\<lambda>_. [])) d
      in case ho_read h (proc_path h ''/net/dev'') of Inl e \<Rightarrow> (- e, ctx, s, d)
         | Inr content \<Rightarrow>
             case fgets_texts 512 content of
               _ # _ # ls \<Rightarrow>
                 let st = fold (net_read h (nx_dev ctx) d ddns) ls net_start;
                     rx = (if ns_physical st > 0 then ns_rx_physical st else ns_rx_moved st);
                     tx = (if ns_physical st > 0 then ns_tx_physical st else ns_tx_moved st)
                 in (0, \<lparr>nx_dev = cd_next (ns_counted st), nx_prev_ns = now, nx_has_prev = True\<rparr>,
                     s\<lparr>sc_net := \<lparr>net_rx_bytes_per_sec = total_rate (nx_has_prev ctx) now (nx_prev_ns ctx) rx,
                         net_tx_bytes_per_sec = total_rate (nx_has_prev ctx) now (nx_prev_ns ctx) tx, net_interface_count = ns_count st\<rparr>\<rparr>,
                     map_option (\<lambda>d. d\<lparr>dc_ifaces := ns_ifaces st, dc_iface_prev := ns_next st, dc_iface_prev_ns := now\<rparr>) d)
             | _ \<Rightarrow> (- ENODATA, ctx, s, d))"

section \<open>Totals of devices\<close>

text \<open>The devices a text names: name and the two counters.\<close>

definition whole_disk :: "host \<Rightarrow> string \<Rightarrow> (string \<times> u64 \<times> u64) option" where
  "whole_disk h line =
     (case disk_line line of None \<Rightarrow> None
      | Some (name, v) \<Rightarrow> if is_noise_name name \<or> is_partition_name h name then None else Some (name, v ! 2 * 512, v ! 6 * 512))"

definition whole_disks :: "host \<Rightarrow> string \<Rightarrow> (string \<times> u64 \<times> u64) list" where
  "whole_disks h content = List.map_filter (whole_disk h) (fgets_texts 512 content)"

definition interface :: "string \<Rightarrow> (string \<times> u64 \<times> u64) option" where
  "interface line = map_option (\<lambda>(name, v). (name, v ! 0, v ! 8)) (net_line line)"

definition interfaces :: "string \<Rightarrow> (string \<times> u64 \<times> u64) list" where
  "interfaces content = List.map_filter interface (drop 2 (fgets_texts 512 content))"

text \<open>What a device moved from one reading to the next: only one that is in both, whose counter did not go back, moves anything.\<close>

definition moved_since :: "(u64 \<times> u64 \<Rightarrow> u64) \<Rightarrow> (string \<times> u64 \<times> u64) list \<Rightarrow> string \<times> u64 \<times> u64 \<Rightarrow> u64" where
  "moved_since sel before dev = (case map_of before (fst dev) of None \<Rightarrow> 0 | Some c \<Rightarrow> delta (sel (snd dev)) (sel c))"

definition kept :: "(string \<times> u64 \<times> u64) list \<Rightarrow> budyk_counted_c list" where
  "kept devs = map (\<lambda>(name, a, b). \<lparr>ct_name = name31 name, ct_a = a, ct_b = b\<rparr>) devs"

definition short_names :: "(string \<times> 'a) list \<Rightarrow> bool" where
  "short_names devs = list_all (\<lambda>dev. length (fst dev) \<le> 31) devs"

definition no_nuls :: "(string \<times> 'a) list \<Rightarrow> bool" where
  "no_nuls devs = list_all (\<lambda>dev. CHR 0x00 \<notin> set (fst dev)) devs"

lemma name31_short: "length name \<le> 31 \<Longrightarrow> CHR 0x00 \<notin> set name \<Longrightarrow> name31 name = name"
  by (simp add: name31_def c_str_id)

lemma kept_names: "short_names devs \<Longrightarrow> no_nuls devs \<Longrightarrow> map ct_name (kept devs) = map fst devs"
  by (induction devs) (auto simp: kept_def short_names_def no_nuls_def name31_short)

lemma kept_find:
  "short_names devs \<Longrightarrow> no_nuls devs \<Longrightarrow> find (\<lambda>e. ct_name e = name) (kept devs) = map_option (\<lambda>(a, b). \<lparr>ct_name = name, ct_a = a, ct_b = b\<rparr>) (map_of devs name)"
  by (induction devs) (auto simp: kept_def short_names_def no_nuls_def name31_short)

lemma moved_kept:
  assumes "short_names before" "no_nuls before"
  shows "moved ct_a (kept before) name a = moved_since fst before (name, a, b)" "moved ct_b (kept before) name b = moved_since snd before (name, a, b)"
  using kept_find [OF assms, of name] by (auto simp: moved_def moved_since_def delta_def split: option.splits)

lemma disk_read_counted:
  "ds_counted (fold (disk_read h dev d ddns) ls st) = fold (add_device dev) (List.map_filter (whole_disk h) ls) (ds_counted st) \<and>
   ds_count (fold (disk_read h dev d ddns) ls st) = ds_count st + of_nat (length (List.map_filter (whole_disk h) ls))"
proof (induction ls arbitrary: st)
  case (Cons l ls)
  show ?case
  proof (cases "whole_disk h l")
    case None
    then have "disk_read h dev d ddns l st = st" by (auto simp: whole_disk_def disk_read_def split: option.splits if_splits)
    then show ?thesis using Cons None by (simp add: map_filter_simps)
  next
    case (Some x)
    then have "ds_counted (disk_read h dev d ddns l st) = add_device dev x (ds_counted st)" "ds_count (disk_read h dev d ddns l st) = ds_count st + 1"
      by (auto simp: whole_disk_def disk_read_def Let_def split: option.splits if_splits)
    then show ?thesis using Cons Some by (simp add: map_filter_simps)
  qed
qed (simp add: map_filter_simps)

lemma counted_start_adds:
  assumes "distinct (map ct_name prev)"
  shows "cd_moved_a (fold (add_device prev) devs counted_start) = sum_list (map (\<lambda>(name, a, b). moved ct_a prev name a) devs)"
    "cd_moved_b (fold (add_device prev) devs counted_start) = sum_list (map (\<lambda>(name, a, b). moved ct_b prev name b) devs)"
    "cd_next (fold (add_device prev) devs counted_start) = take BUDYK_MAX_COUNTED (kept devs)"
  using counted_adds [OF assms, of counted_start devs] by (simp_all add: counted_start_def kept_def)

lemma counted_next: "cd_next (fold (add_device prev) devs st) = take BUDYK_MAX_COUNTED (cd_next st @ kept devs)"
  if "length (cd_next st) \<le> BUDYK_MAX_COUNTED" for st
  using that
proof (induction devs arbitrary: st)
  case (Cons dev devs)
  obtain name a b where dev: "dev = (name, a, b)" by (cases dev)
  have n: "cd_next (add_device prev dev st) = take BUDYK_MAX_COUNTED (cd_next st @ kept [dev])"
    using Cons.prems by (auto simp: dev budyk_counted_add_def Let_def kept_def split: option.splits)
  then have "length (cd_next (add_device prev dev st)) \<le> BUDYK_MAX_COUNTED" by simp
  from Cons.IH [OF this] show ?case
    unfolding n fold_simps by (simp only: take_append_take append_assoc kept_def list.map append_Cons append_Nil)
qed (simp add: kept_def)

lemma sum_moved_kept:
  assumes "short_names before" "no_nuls before"
  shows "sum_list (map (\<lambda>(name, a, b). moved ct_a (kept before) name a) devs) = sum_list (map (moved_since fst before) devs)"
    "sum_list (map (\<lambda>(name, a, b). moved ct_b (kept before) name b) devs) = sum_list (map (moved_since snd before) devs)"
  by (auto simp: moved_kept [OF assms] intro!: arg_cong [where f = sum_list])

lemma strtoull_rest: "strtoull s = Some (v, r) \<Longrightarrow> set r \<subseteq> set s"
proof -
  assume "strtoull s = Some (v, r)"
  then obtain neg ds where sc: "scan_number s = Some (neg, ds, r)" by (auto simp: strtoull_def)
  define s1 where "s1 = dropWhile is_space s"
  define s2 where "s2 = snd (case s1 of c # r \<Rightarrow> if c = CHR ''-'' then (True, r) else if c = CHR ''+'' then (False, r) else (False, s1) | [] \<Rightarrow> (False, []))"
  have "set s1 \<subseteq> set s" unfolding s1_def using set_dropWhileD by fast
  moreover have "set s2 \<subseteq> set s1" by (auto simp: s2_def split: list.splits)
  moreover have "r = dropWhile is_digit s2"
    using sc by (auto simp: scan_number_def Let_def s1_def [symmetric] s2_def split: if_splits prod.splits list.splits)
  then have "set r \<subseteq> set s2" using set_dropWhileD by fast
  ultimately show ?thesis by blast
qed

lemma disk_line_no_nul: "CHR 0x00 \<notin> set l \<Longrightarrow> disk_line l = Some (name, v) \<Longrightarrow> CHR 0x00 \<notin> set name"
proof -
  assume l: "CHR 0x00 \<notin> set l" and "disk_line l = Some (name, v)"
  then obtain l1 l2 m1 m2 l3 where s: "strtoull l = Some (m1, l1)" "strtoull l1 = Some (m2, l2)" and w: "scan_word 63 l2 = Some (name, l3)"
    by (auto simp: disk_line_def scan_u_def Let_def split: option.splits if_splits)
  have "CHR 0x00 \<notin> set l2" using l strtoull_rest [OF s(1)] strtoull_rest [OF s(2)] by blast
  then show ?thesis using scan_word_no_nul [OF _ w] by blast
qed

lemma whole_disks_no_nuls: "no_nuls (whole_disks h content)"
proof -
  have "CHR 0x00 \<notin> set (fst dev)" if "l \<in> set (fgets_texts 512 content)" "whole_disk h l = Some dev" for l dev
    using that disk_line_no_nul [OF fgets_texts_no_nul [OF that(1)]] by (auto simp: whole_disk_def split: option.splits if_splits)
  then show ?thesis by (auto simp: no_nuls_def whole_disks_def list_all_iff map_filter_def)
qed

lemma interfaces_no_nuls: "no_nuls (interfaces content)"
proof -
  have "CHR 0x00 \<notin> set (fst dev)" if "l \<in> set (fgets_texts 512 content)" "interface l = Some dev" for l dev
    using that(2) fgets_texts_no_nul [OF that(1)]
    by (auto simp: interface_def net_line_def strchr_def Let_def split: option.splits if_splits dest!: set_dropWhileD set_takeWhileD)
  then show ?thesis by (auto simp: no_nuls_def interfaces_def list_all_iff map_filter_def dest: in_set_dropD)
qed

lemma collect_disk:
  assumes "ho_read h (proc_path h ''/diskstats'') = Inr content"
  shows "\<exists>d'. budyk_collect_disk_linux_ex h ctx s d =
    (let cd = fold (add_device (dx_dev ctx)) (whole_disks h content) counted_start; now = sc_timestamp_nanos s;
         rate = total_rate (dx_has_prev ctx) now (dx_prev_ns ctx)
     in (0, \<lparr>dx_dev = cd_next cd, dx_prev_ns = now, dx_has_prev = True\<rparr>,
         s\<lparr>sc_disk := \<lparr>disk_read_bytes_per_sec = rate (cd_moved_a cd), disk_write_bytes_per_sec = rate (cd_moved_b cd),
           disk_device_count = of_nat (length (whole_disks h content))\<rparr>\<rparr>, d'))"
  unfolding budyk_collect_disk_linux_ex_def assms Let_def sum.case whole_disks_def
    disk_read_counted [THEN conjunct1] disk_read_counted [THEN conjunct2] by simp

text \<open>The totals of the disks. Between two readings, however many disks came and went, the rate shown is that of the bytes which the disks seen
  in both moved, whole disks only, each against its own counter; a disk that is new or was replaced adds nothing.\<close>

theorem disk_totals:
  assumes "ho_read h1 (proc_path h1 ''/diskstats'') = Inr c1" "ho_read h2 (proc_path h2 ''/diskstats'') = Inr c2"
    and "short_names (whole_disks h1 c1)" "distinct (map fst (whole_disks h1 c1))" "length (whole_disks h1 c1) \<le> BUDYK_MAX_COUNTED"
    and "sc_timestamp_nanos s1 < sc_timestamp_nanos s2"
    and "budyk_collect_disk_linux_ex h1 ctx s1 d1 = (rc1, ctx1, s1', d1')" "budyk_collect_disk_linux_ex h2 ctx1 s2 d2 = (rc2, ctx2, s2', d2')"
  shows "rc2 = 0 \<and> sc_disk s2' =
    \<lparr>disk_read_bytes_per_sec = budyk_rate_u64 (sum_list (map (moved_since fst (whole_disks h1 c1)) (whole_disks h2 c2))) (Some 0) (sc_timestamp_nanos s2 - sc_timestamp_nanos s1),
     disk_write_bytes_per_sec = budyk_rate_u64 (sum_list (map (moved_since snd (whole_disks h1 c1)) (whole_disks h2 c2))) (Some 0) (sc_timestamp_nanos s2 - sc_timestamp_nanos s1),
     disk_device_count = of_nat (length (whole_disks h2 c2))\<rparr>"
proof -
  define w1 where "w1 = whole_disks h1 c1"
  have w1: "short_names w1" "no_nuls w1" "distinct (map fst w1)" "length w1 \<le> BUDYK_MAX_COUNTED"
    using assms(3-5) whole_disks_no_nuls [of h1 c1] by (simp_all add: w1_def)
  have "cd_next (fold (add_device (dx_dev ctx)) w1 counted_start) = kept w1"
    using counted_next [of counted_start "dx_dev ctx" w1] w1(4) by (simp add: counted_start_def kept_def)
  then have ctx1: "dx_dev ctx1 = kept w1" "dx_prev_ns ctx1 = sc_timestamp_nanos s1" "dx_has_prev ctx1"
    using collect_disk [OF assms(1), of ctx s1 d1] assms(7) by (auto simp: Let_def w1_def)
  have d: "distinct (map ct_name (kept w1))" using w1(3) kept_names [OF w1(1,2)] by simp
  note sums = counted_start_adds(1,2) [OF d] sum_moved_kept [OF w1(1,2)]
  show ?thesis
    using collect_disk [OF assms(2), of ctx1 s2 d2] assms(6,8) sums
    by (auto simp: Let_def ctx1 total_rate_def w1_def)
qed

lemma counted_add_next:
  "length (cd_next st) \<le> BUDYK_MAX_COUNTED \<Longrightarrow> cd_next (budyk_counted_add prev name a b st) = take BUDYK_MAX_COUNTED (cd_next st @ kept [(name, a, b)])"
  by (auto simp: budyk_counted_add_def Let_def kept_def split: option.splits)

lemma net_read_interface:
  assumes "interface l = Some (name, a, b)"
  shows "ns_counted (net_read h dev d ddns l st) = budyk_counted_add dev name a b ((ns_counted st)\<lparr>cd_moved_a := 0, cd_moved_b := 0\<rparr>)"
    "ns_count (net_read h dev d ddns l st) = ns_count st + 1"
    "ns_rx_moved (net_read h dev d ddns l st) = ns_rx_moved st + cd_moved_a (ns_counted (net_read h dev d ddns l st))"
    "ns_tx_moved (net_read h dev d ddns l st) = ns_tx_moved st + cd_moved_b (ns_counted (net_read h dev d ddns l st))"
    "ns_rx_physical (net_read h dev d ddns l st) = ns_rx_physical st + (if iface_physical h name then cd_moved_a (ns_counted (net_read h dev d ddns l st)) else 0)"
    "ns_tx_physical (net_read h dev d ddns l st) = ns_tx_physical st + (if iface_physical h name then cd_moved_b (ns_counted (net_read h dev d ddns l st)) else 0)"
    "ns_physical (net_read h dev d ddns l st) = ns_physical st + (if iface_physical h name then 1 else 0)"
  using assms by (auto simp: interface_def net_read_def Let_def split: option.splits)

lemma net_read_other: "interface l = None \<Longrightarrow> net_read h dev d ddns l st = st"
  by (simp add: interface_def net_read_def)

definition is_physical :: "host \<Rightarrow> string \<times> u64 \<times> u64 \<Rightarrow> bool" where
  "is_physical h dev = iface_physical h (fst dev)"

lemma net_read_next:
  "length (cd_next (ns_counted st)) \<le> BUDYK_MAX_COUNTED \<Longrightarrow>
   cd_next (ns_counted (fold (net_read h dev d ddns) ls st)) = take BUDYK_MAX_COUNTED (cd_next (ns_counted st) @ kept (List.map_filter interface ls))"
proof (induction ls arbitrary: st)
  case (Cons l ls)
  show ?case
  proof (cases "interface l")
    case None
    then show ?thesis using Cons by (simp add: net_read_other map_filter_simps)
  next
    case (Some x)
    obtain name a b where x: "x = (name, a, b)" by (cases x)
    have n: "cd_next (ns_counted (net_read h dev d ddns l st)) = take BUDYK_MAX_COUNTED (cd_next (ns_counted st) @ kept [x])"
      unfolding net_read_interface(1) [OF Some [unfolded x]] x using Cons.prems by (subst counted_add_next) simp_all
    then have le: "length (cd_next (ns_counted (net_read h dev d ddns l st))) \<le> BUDYK_MAX_COUNTED" by simp
    have mf: "List.map_filter interface (l # ls) = x # List.map_filter interface ls" using Some by (simp add: map_filter_simps)
    from Cons.IH [OF le] show ?thesis
      unfolding n fold_simps mf by (simp only: take_append_take append_assoc kept_def list.map append_Cons append_Nil)
  qed
qed (simp add: map_filter_simps kept_def)

lemma net_read_sums:
  assumes "distinct (map ct_name dev)"
  shows "ns_rx_moved (fold (net_read h dev d ddns) ls st) = ns_rx_moved st + sum_list (map (\<lambda>(name, a, b). moved ct_a dev name a) (List.map_filter interface ls)) \<and>
    ns_tx_moved (fold (net_read h dev d ddns) ls st) = ns_tx_moved st + sum_list (map (\<lambda>(name, a, b). moved ct_b dev name b) (List.map_filter interface ls)) \<and>
    ns_rx_physical (fold (net_read h dev d ddns) ls st) = ns_rx_physical st + sum_list (map (\<lambda>(name, a, b). moved ct_a dev name a) (filter (is_physical h) (List.map_filter interface ls))) \<and>
    ns_tx_physical (fold (net_read h dev d ddns) ls st) = ns_tx_physical st + sum_list (map (\<lambda>(name, a, b). moved ct_b dev name b) (filter (is_physical h) (List.map_filter interface ls))) \<and>
    ns_physical (fold (net_read h dev d ddns) ls st) = ns_physical st + of_nat (length (filter (is_physical h) (List.map_filter interface ls))) \<and>
    ns_count (fold (net_read h dev d ddns) ls st) = ns_count st + of_nat (length (List.map_filter interface ls))"
proof (induction ls arbitrary: st)
  case (Cons l ls)
  show ?case
  proof (cases "interface l")
    case None
    then show ?thesis using Cons by (simp add: net_read_other map_filter_simps)
  next
    case (Some x)
    obtain name a b where x: "x = (name, a, b)" by (cases x)
    note r = net_read_interface [OF Some [unfolded x], of h dev d ddns st]
    have m: "cd_moved_a (ns_counted (net_read h dev d ddns l st)) = moved ct_a dev name a" "cd_moved_b (ns_counted (net_read h dev d ddns l st)) = moved ct_b dev name b"
      unfolding r(1) using counted_add_moved(1,2) [OF assms, of name a b] by simp_all
    show ?thesis unfolding fold_simps using Cons.IH [of "net_read h dev d ddns l st"] Some
      by (simp add: r(2-) m x map_filter_simps is_physical_def add.assoc)
  qed
qed (simp add: map_filter_simps)

lemma collect_network:
  assumes "ho_read h (proc_path h ''/net/dev'') = Inr content" "2 \<le> length (fgets_texts 512 content)"
  shows "\<exists>st d'. st = fold (net_read h (nx_dev ctx) (map_option (dc_ifaces_update (\<lambda>_. [])) d) (case d of None \<Rightarrow> 0 | Some d \<Rightarrow> list_interval (sc_timestamp_nanos s) (dc_iface_prev_ns d)))
        (drop 2 (fgets_texts 512 content)) net_start \<and>
    budyk_collect_network_linux_ex h ctx s d =
    (let now = sc_timestamp_nanos s; rate = total_rate (nx_has_prev ctx) now (nx_prev_ns ctx)
     in (0, \<lparr>nx_dev = cd_next (ns_counted st), nx_prev_ns = now, nx_has_prev = True\<rparr>,
         s\<lparr>sc_net := \<lparr>net_rx_bytes_per_sec = rate (if ns_physical st > 0 then ns_rx_physical st else ns_rx_moved st),
           net_tx_bytes_per_sec = rate (if ns_physical st > 0 then ns_tx_physical st else ns_tx_moved st), net_interface_count = ns_count st\<rparr>\<rparr>, d'))"
proof -
  obtain x y ls where "fgets_texts 512 content = x # y # ls" using assms(2) by (cases "fgets_texts 512 content" rule: remdups_adj.cases) auto
  then show ?thesis unfolding budyk_collect_network_linux_ex_def assms(1) Let_def sum.case by simp
qed

text \<open>The interfaces whose traffic the totals count: those of devices, or every one when there is no device.\<close>

definition counted_interfaces :: "host \<Rightarrow> string \<Rightarrow> (string \<times> u64 \<times> u64) list" where
  "counted_interfaces h content =
     (if list_ex (is_physical h) (interfaces content) then filter (is_physical h) (interfaces content) else interfaces content)"

lemma of_nat_u32_pos: "n < 2 ^ 32 \<Longrightarrow> (0 :: u32) < of_nat n \<longleftrightarrow> 0 < n"
  by (simp add: word_less_nat_alt unat_of_nat)

lemma filter_pos: "0 < length (filter P xs) \<longleftrightarrow> list_ex P xs"
  by (auto simp: list_ex_iff filter_empty_conv)

text \<open>The totals of the network. Between two readings, however many interfaces came and went, the rate shown is that of the bytes
  which the interfaces seen in both moved: those of devices that are not part of another device, so that no traffic counts twice, or all when
  there is none. The loopback is never in it.\<close>

theorem network_totals:
  assumes "ho_read h1 (proc_path h1 ''/net/dev'') = Inr c1" "ho_read h2 (proc_path h2 ''/net/dev'') = Inr c2"
    and "2 \<le> length (fgets_texts 512 c1)" "2 \<le> length (fgets_texts 512 c2)" "length (interfaces c2) < 2 ^ 32"
    and "short_names (interfaces c1)" "distinct (map fst (interfaces c1))" "length (interfaces c1) \<le> BUDYK_MAX_COUNTED"
    and "sc_timestamp_nanos s1 < sc_timestamp_nanos s2"
    and "budyk_collect_network_linux_ex h1 ctx s1 d1 = (rc1, ctx1, s1', d1')" "budyk_collect_network_linux_ex h2 ctx1 s2 d2 = (rc2, ctx2, s2', d2')"
  shows "rc2 = 0 \<and> sc_net s2' =
    \<lparr>net_rx_bytes_per_sec = budyk_rate_u64 (sum_list (map (moved_since fst (interfaces c1)) (counted_interfaces h2 c2))) (Some 0) (sc_timestamp_nanos s2 - sc_timestamp_nanos s1),
     net_tx_bytes_per_sec = budyk_rate_u64 (sum_list (map (moved_since snd (interfaces c1)) (counted_interfaces h2 c2))) (Some 0) (sc_timestamp_nanos s2 - sc_timestamp_nanos s1),
     net_interface_count = of_nat (length (interfaces c2))\<rparr>"
proof -
  define i1 where "i1 = interfaces c1"
  have i1: "short_names i1" "no_nuls i1" "distinct (map fst i1)" "length i1 \<le> BUDYK_MAX_COUNTED"
    using assms(6-8) interfaces_no_nuls [of c1] by (simp_all add: i1_def)
  have i1f: "List.map_filter interface (drop 2 (fgets_texts 512 c1)) = i1" by (simp add: i1_def interfaces_def)
  have "cd_next (ns_counted (fold (net_read h1 (nx_dev ctx) d ddns) (drop 2 (fgets_texts 512 c1)) net_start)) = kept i1" for d ddns
    using net_read_next [of net_start h1 "nx_dev ctx" d ddns "drop 2 (fgets_texts 512 c1)"] i1(4) by (simp add: net_start_def counted_start_def kept_def i1f)
  then have ctx1: "nx_dev ctx1 = kept i1" "nx_prev_ns ctx1 = sc_timestamp_nanos s1" "nx_has_prev ctx1"
    using collect_network [OF assms(1,3), of ctx d1 s1] assms(10) by (auto simp: Let_def)
  have d: "distinct (map ct_name (nx_dev ctx1))" using i1(3) kept_names [OF i1(1,2)] by (simp add: ctx1)
  obtain st d' where st: "st = fold (net_read h2 (nx_dev ctx1) (map_option (dc_ifaces_update (\<lambda>_. [])) d2) (case d2 of None \<Rightarrow> 0 | Some d \<Rightarrow> list_interval (sc_timestamp_nanos s2) (dc_iface_prev_ns d)))
      (drop 2 (fgets_texts 512 c2)) net_start"
    and c: "budyk_collect_network_linux_ex h2 ctx1 s2 d2 =
    (let now = sc_timestamp_nanos s2; rate = total_rate (nx_has_prev ctx1) now (nx_prev_ns ctx1)
     in (0, \<lparr>nx_dev = cd_next (ns_counted st), nx_prev_ns = now, nx_has_prev = True\<rparr>,
         s2\<lparr>sc_net := \<lparr>net_rx_bytes_per_sec = rate (if ns_physical st > 0 then ns_rx_physical st else ns_rx_moved st),
           net_tx_bytes_per_sec = rate (if ns_physical st > 0 then ns_tx_physical st else ns_tx_moved st), net_interface_count = ns_count st\<rparr>\<rparr>, d'))"
    using collect_network [OF assms(2,4), of ctx1 d2 s2] by blast
  have "length (filter (is_physical h2) (interfaces c2)) < 2 ^ 32" using assms(5) length_filter_le [of "is_physical h2" "interfaces c2"] by linarith
  note pos = of_nat_u32_pos [OF this, unfolded filter_pos]
  have sums: "ns_count st = of_nat (length (interfaces c2))"
    "(if ns_physical st > 0 then ns_rx_physical st else ns_rx_moved st) = sum_list (map (moved_since fst i1) (counted_interfaces h2 c2))"
    "(if ns_physical st > 0 then ns_tx_physical st else ns_tx_moved st) = sum_list (map (moved_since snd i1) (counted_interfaces h2 c2))"
    using net_read_sums [OF d, of h2] pos sum_moved_kept [OF i1(1,2)]
    by (simp_all add: st interfaces_def [symmetric] net_start_def counted_interfaces_def ctx1(1))
  show ?thesis using assms(9,11) c by (auto simp: Let_def sums ctx1(2,3) total_rate_def i1_def [symmetric])
qed

section \<open>Lines the kernel prints\<close>

definition lines_text :: "string list \<Rightarrow> string" where
  "lines_text ls = concat (map (\<lambda>l. l @ [CHR 0x0A]) ls)"

lemma space_not_digit: "is_space c \<Longrightarrow> \<not> is_digit c"
  using digit_not_space by blast

lemma scan_u_printed: "rest = [] \<or> \<not> is_digit (hd rest) \<Longrightarrow> scan_u (digits (unat (n :: u64)) @ rest) = Some (ucast n, rest)"
  by (simp add: scan_u_def strtoull_digits)

lemma scan_u_space: "is_space c \<Longrightarrow> scan_u (c # s) = scan_u s"
  by (simp add: scan_u_def strtoull_space)

lemma disk_line_printed:
  assumes "name \<noteq> []" "list_all (\<lambda>c. \<not> is_space c) name" "length name \<le> 63" "length vs = 10" "rest = [] \<or> \<not> is_digit (hd rest)"
  shows "disk_line (digits (unat (maj :: u64)) @ CHR '' '' # digits (unat (minr :: u64)) @ CHR '' '' # name @ print_llus vs @ rest) = Some (name, vs)"
proof -
  obtain v vs' where vs: "vs = v # vs'" using assms(4) by (cases vs) auto
  have "scan_word 63 (name @ print_llus vs @ rest) = Some (name, print_llus vs @ rest)"
    by (rule scan_word_printed) (use assms in \<open>simp_all add: vs print_llus_def\<close>)
  moreover have "scan_llus 10 (print_llus vs @ rest) = vs" using scan_llus_printed [OF assms(5), of vs] assms(4) by simp
  ultimately show ?thesis using assms(4)
    by (simp add: disk_line_def scan_u_printed scan_u_space scan_word_space space_not_digit or_old_def)
qed

lemma net_line_printed:
  assumes "list_all (\<lambda>c. c = CHR '' '' \<or> c = CHR 0x09) pad" "CHR '':'' \<notin> set name" "length vs = 16" "rest = [] \<or> \<not> is_digit (hd rest)"
    and "name = [] \<or> hd name \<noteq> CHR '' '' \<and> hd name \<noteq> CHR 0x09"
  shows "net_line (pad @ name @ CHR '':'' # print_llus vs @ rest) = (if name = [] \<or> name = ''lo'' then None else Some (name, vs))"
proof -
  have "CHR '':'' \<notin> set pad"
  proof
    assume colon: "CHR '':'' \<in> set pad"
    from bspec [OF assms(1) [unfolded list_all_iff] colon] show False by simp
  qed
  then have pn: "CHR '':'' \<notin> set (pad @ name)" using assms(2) by simp
  note strchr_split [OF pn, of "print_llus vs @ rest"]
  moreover have "dropWhile (\<lambda>c. c = CHR '' '' \<or> c = CHR 0x09) (pad @ name) = name"
    using assms(1,5) by (cases name) (simp_all add: list_all_iff dropWhile_append2 dropWhile_eq_Nil_conv)
  moreover have "scan_llus 16 (print_llus vs @ rest) = vs" using scan_llus_printed [OF assms(4), of vs] assms(3) by simp
  ultimately show ?thesis using assms(3) by (simp only: net_line_def Let_def append_assoc option.case prod.case) simp
qed

section \<open>Witnesses\<close>

text \<open>A host whose files all hold one text.\<close>

definition plain_host :: "string \<Rightarrow> host" where
  "plain_host content = \<lparr>ho_proc_root = ''/proc'', ho_sys_root = ''/sys'', ho_read = (\<lambda>_. Inr content), ho_reread = (\<lambda>_. Inr content), ho_list = (\<lambda>_. Inl 2),
     ho_exists = (\<lambda>_. False), ho_readable = (\<lambda>_. True), ho_link = (\<lambda>_. None), ho_dev = (\<lambda>_. Inr 1), ho_statvfs = (\<lambda>_. None), ho_pagesize = 4096,
     ho_clk_tck = 100, ho_loadavg = [], ho_adjtimex = (0, \<lparr>tx_status = 0, tx_offset = 0, tx_maxerror = 0\<rparr>), ho_rusage = None, ho_double = (\<lambda>_. None)\<rparr>"

definition plain_sample :: "u64 \<Rightarrow> budyk_sample_c" where
  "plain_sample now = \<lparr>sc_timestamp_nanos = now, sc_cpu = cpu_zero, sc_mem = mem_zero, sc_swap = swap_zero, sc_load = load_zero, sc_disk = disk_zero,
     sc_net = net_zero, sc_proc = proc_zero, sc_entropy = entropy_zero, sc_self = self_zero, sc_thermal = thermal_zero, sc_tcp = tcp_zero, sc_udp = udp_zero,
     sc_icmp = icmp_zero, sc_fs = fs_zero, sc_fs_unreadable = 0, sc_clock = clock_zero, sc_uptime_seconds = 0\<rparr>"

definition demo_disk_line :: "u64 \<Rightarrow> string \<Rightarrow> u64 list \<Rightarrow> string" where
  "demo_disk_line minr name vs = digits (unat (8 :: u64)) @ CHR '' '' # digits (unat minr) @ CHR '' '' # name @ print_llus vs"

definition demo_disks :: "u64 \<Rightarrow> string list" where
  "demo_disks rs = [demo_disk_line 0 ''sda'' [1, 2, rs, 4, 5, 6, 7, 8, 9, 10], demo_disk_line 1 ''sda1'' [1, 2, 3, 4, 5, 6, 7, 8, 9, 10]]"

lemma demo_line:
  "length vs = 10 \<Longrightarrow> disk_line (demo_disk_line m ''sda'' vs @ [CHR 0x0A]) = Some (''sda'', vs)"
  "length vs = 10 \<Longrightarrow> disk_line (demo_disk_line m ''sda1'' vs @ [CHR 0x0A]) = Some (''sda1'', vs)"
  using disk_line_printed [of "''sda''" vs "[CHR 0x0A]" 8 m] disk_line_printed [of "''sda1''" vs "[CHR 0x0A]" 8 m]
  by (simp_all add: demo_disk_line_def is_space_def is_digit_def)

lemma demo_disk_line_text:
  assumes "length vs = 10" "CHR 0x0A \<notin> set name" "CHR 0x00 \<notin> set name" "length name \<le> 10"
  shows "CHR 0x0A \<notin> set (demo_disk_line m name vs) \<and> CHR 0x00 \<notin> set (demo_disk_line m name vs) \<and> length (demo_disk_line m name vs) \<le> 510"
  using assms print_llus_text [of vs] digits_u64_length [of 8] digits_u64_length [of m] digits_no_break by (auto simp: demo_disk_line_def)

lemma demo_disk_names: "is_noise_name ''sda'' = False" "is_partition_name (plain_host c) ''sda'' = False" "is_partition_name (plain_host c) ''sda1'' = True"
  by (simp_all add: is_noise_name_def noise_names_def starts_with_def is_partition_name_def plain_host_def ends_with_digit_p_digits_def
      sd_family_partition_def is_digit_def is_alpha_def Let_def)

lemma demo_disks_read: "whole_disks (plain_host (lines_text (demo_disks rs))) (lines_text (demo_disks rs)) = [(''sda'', rs * 512, 3584)]"
proof -
  have "fgets_texts 512 (lines_text (demo_disks rs)) = map (\<lambda>l. l @ [CHR 0x0A]) (demo_disks rs)"
    unfolding lines_text_def by (intro fgets_texts_text) (simp add: demo_disks_def demo_disk_line_text)
  then show ?thesis
    by (simp add: whole_disks_def whole_disk_def demo_disks_def map_filter_simps demo_line demo_disk_names)
qed

definition demo_disk_tick :: "u64 \<Rightarrow> u64 \<Rightarrow> budyk_disk_ctx_c \<Rightarrow> rc \<times> budyk_disk_ctx_c \<times> budyk_sample_c \<times> detail option" where
  "demo_disk_tick rs now ctx = budyk_collect_disk_linux_ex (plain_host (lines_text (demo_disks rs))) ctx (plain_sample now) None"

definition demo_disk_ctx :: budyk_disk_ctx_c where
  "demo_disk_ctx = fst (snd (demo_disk_tick 3 1 \<lparr>dx_dev = [], dx_prev_ns = 0, dx_has_prev = False\<rparr>))"

lemma plain_host_exists: "\<not> ho_exists (plain_host content) path"
  by (simp add: plain_host_def)

lemma plain_host_read [simp]: "ho_read (plain_host content) path = Inr content"
  by (simp add: plain_host_def)

lemma plain_sample_time [simp]: "sc_timestamp_nanos (plain_sample now) = now"
  by (simp add: plain_sample_def)

theorem disk_totals_witness:
  "disk_read_bytes_per_sec (sc_disk (fst (snd (snd (demo_disk_tick 9 2 demo_disk_ctx))))) = budyk_rate_u64 3072 (Some 0) 1"
proof -
  obtain rc1 ctx1 s1' d1' where a: "demo_disk_tick 3 1 \<lparr>dx_dev = [], dx_prev_ns = 0, dx_has_prev = False\<rparr> = (rc1, ctx1, s1', d1')" by (rule prod_cases4)
  obtain rc2 ctx2 s2' d2' where b: "demo_disk_tick 9 2 ctx1 = (rc2, ctx2, s2', d2')" by (rule prod_cases4)
  have c: "demo_disk_ctx = ctx1" by (simp add: demo_disk_ctx_def a)
  show ?thesis unfolding c b
    using disk_totals [OF plain_host_read plain_host_read _ _ _ _ a [unfolded demo_disk_tick_def] b [unfolded demo_disk_tick_def]]
    by (simp add: demo_disks_read short_names_def BUDYK_MAX_COUNTED_def moved_since_def delta_def)
qed

definition demo_net :: "u64 \<Rightarrow> string list" where
  "demo_net rx = [''Inter-'', '' face'', ''    lo:'' @ print_llus (replicate 16 9), ''  eth0:'' @ print_llus (rx # replicate 7 1 @ 20 # replicate 7 1)]"

lemma demo_net_lines:
  "net_line ((''  eth0:'' @ print_llus (rx # replicate 7 1 @ 20 # replicate 7 1)) @ [CHR 0x0A]) = Some (''eth0'', rx # replicate 7 1 @ 20 # replicate 7 1)"
  "net_line ((''    lo:'' @ print_llus (replicate 16 9)) @ [CHR 0x0A]) = None"
  using net_line_printed [of "''  ''" "''eth0''" "rx # replicate 7 1 @ 20 # replicate 7 1" "[CHR 0x0A]"]
    net_line_printed [of "''    ''" "''lo''" "replicate 16 9" "[CHR 0x0A]"]
  by (simp_all add: is_digit_def)

lemma demo_net_read: "interfaces (lines_text (demo_net rx)) = [(''eth0'', rx, 20)]" "length (fgets_texts 512 (lines_text (demo_net rx))) = 4"
proof -
  have eq: "fgets_texts 512 (lines_text (demo_net rx)) = map (\<lambda>l. l @ [CHR 0x0A]) (demo_net rx)"
    unfolding lines_text_def using print_llus_text [of "replicate 16 9"] print_llus_text [of "rx # replicate 7 1 @ 20 # replicate 7 1"]
    by (intro fgets_texts_text) (auto simp: demo_net_def)
  then show "length (fgets_texts 512 (lines_text (demo_net rx))) = 4" by (simp add: demo_net_def)
  have d: "drop 2 (map (\<lambda>l. l @ [CHR 0x0A]) (demo_net rx)) =
      [(''    lo:'' @ print_llus (replicate 16 9)) @ [CHR 0x0A], (''  eth0:'' @ print_llus (rx # replicate 7 1 @ 20 # replicate 7 1)) @ [CHR 0x0A]]"
    by (simp add: demo_net_def)
  show "interfaces (lines_text (demo_net rx)) = [(''eth0'', rx, 20)]"
    unfolding interfaces_def eq d map_filter_simps interface_def demo_net_lines by (simp add: numeral_eq_Suc)
qed

definition demo_net_tick :: "u64 \<Rightarrow> u64 \<Rightarrow> budyk_net_ctx_c \<Rightarrow> rc \<times> budyk_net_ctx_c \<times> budyk_sample_c \<times> detail option" where
  "demo_net_tick rx now ctx = budyk_collect_network_linux_ex (plain_host (lines_text (demo_net rx))) ctx (plain_sample now) None"

definition demo_net_ctx :: budyk_net_ctx_c where
  "demo_net_ctx = fst (snd (demo_net_tick 10 1 \<lparr>nx_dev = [], nx_prev_ns = 0, nx_has_prev = False\<rparr>))"

theorem network_totals_witness:
  "net_rx_bytes_per_sec (sc_net (fst (snd (snd (demo_net_tick 14 2 demo_net_ctx))))) = budyk_rate_u64 4 (Some 0) 1"
proof -
  obtain rc1 ctx1 s1' d1' where a: "demo_net_tick 10 1 \<lparr>nx_dev = [], nx_prev_ns = 0, nx_has_prev = False\<rparr> = (rc1, ctx1, s1', d1')" by (rule prod_cases4)
  obtain rc2 ctx2 s2' d2' where b: "demo_net_tick 14 2 ctx1 = (rc2, ctx2, s2', d2')" by (rule prod_cases4)
  have c: "demo_net_ctx = ctx1" by (simp add: demo_net_ctx_def a)
  show ?thesis unfolding c b
    using network_totals [OF plain_host_read plain_host_read _ _ _ _ _ _ _ a [unfolded demo_net_tick_def] b [unfolded demo_net_tick_def]]
    by (simp add: demo_net_read counted_interfaces_def is_physical_def iface_physical_def iface_is_device_def plain_host_exists short_names_def BUDYK_MAX_COUNTED_def moved_since_def delta_def)
qed

end
