(* ===== verification/Linux_System.thy ===== *)
theory Linux_System
  imports Linux_Devices
begin

text \<open>
  The collectors of memory and of the counters of the network protocols (\<open>src/collector/linux/memory.c\<close>, \<open>netstat.c\<close>), as those of \<open>Linux_Devices\<close>.
  Proved: memory available is never more than there is, nor swap used; the columns of the protocols' counters are found by name wherever they
  stand; and a 32-bit counter that wrapped gives its true count.
\<close>

section \<open>Memory\<close>

definition arc_line :: "string \<Rightarrow> (string \<times> u64) option" where
  "arc_line line =
     (case scan_word 63 line of None \<Rightarrow> None
      | Some (name, l) \<Rightarrow> (case scan_u l of None \<Rightarrow> None
          | Some (typ, l) \<Rightarrow> (case scan_llu l of None \<Rightarrow> None | Some (v, _) \<Rightarrow> Some (name, v))))"

definition arc_read :: "string \<Rightarrow> u64 \<times> u64 \<Rightarrow> u64 \<times> u64" where
  "arc_read line st =
     (case arc_line line of None \<Rightarrow> st
      | Some (name, v) \<Rightarrow> if name = ''size'' then (v, snd st) else if name = ''c_min'' then (fst st, v) else st)"

definition zfs_arc_reclaimable :: "host \<Rightarrow> u64" where
  "zfs_arc_reclaimable h =
     (case ho_read h (proc_path h ''/spl/kstat/zfs/arcstats'') of Inl e \<Rightarrow> 0
      | Inr content \<Rightarrow> let (sz, c_min) = fold arc_read (fgets_texts 256 content) (0, 0) in if sz > c_min then sz - c_min else 0)"

text \<open>The keys of \<open>/proc/meminfo\<close>; \<open>None\<close> when a key has not come. A key without a number keeps 0.\<close>

record meminfo =
  mi_total :: "u64 option"
  mi_avail :: "u64 option"
  mi_free :: "u64 option"
  mi_buffers :: u64
  mi_cached :: u64
  mi_sreclaimable :: u64
  mi_swap_total :: "u64 option"
  mi_swap_free :: "u64 option"

definition llu_or :: "u64 \<Rightarrow> string \<Rightarrow> u64" where
  "llu_or old s = (case scan_llu s of None \<Rightarrow> old | Some (v, _) \<Rightarrow> v)"

definition meminfo_line :: "string \<Rightarrow> meminfo \<Rightarrow> meminfo" where
  "meminfo_line line m =
     (if mi_total m = None \<and> starts_with ''MemTotal:'' line then m\<lparr>mi_total := Some (llu_or 0 (drop 9 line))\<rparr>
      else if mi_avail m = None \<and> starts_with ''MemAvailable:'' line then m\<lparr>mi_avail := Some (llu_or 0 (drop 13 line))\<rparr>
      else if mi_free m = None \<and> starts_with ''MemFree:'' line then m\<lparr>mi_free := Some (llu_or 0 (drop 8 line))\<rparr>
      else if starts_with ''Buffers:'' line then m\<lparr>mi_buffers := llu_or (mi_buffers m) (drop 8 line)\<rparr>
      else if starts_with ''Cached:'' line then m\<lparr>mi_cached := llu_or (mi_cached m) (drop 7 line)\<rparr>
      else if starts_with ''SReclaimable:'' line then m\<lparr>mi_sreclaimable := llu_or (mi_sreclaimable m) (drop 13 line)\<rparr>
      else if mi_swap_total m = None \<and> starts_with ''SwapTotal:'' line then m\<lparr>mi_swap_total := Some (llu_or 0 (drop 10 line))\<rparr>
      else if mi_swap_free m = None \<and> starts_with ''SwapFree:'' line then m\<lparr>mi_swap_free := Some (llu_or 0 (drop 9 line))\<rparr>
      else m)"

definition meminfo_none :: meminfo where
  "meminfo_none = \<lparr>mi_total = None, mi_avail = None, mi_free = None, mi_buffers = 0, mi_cached = 0, mi_sreclaimable = 0, mi_swap_total = None, mi_swap_free = None\<rparr>"

definition mem_of :: "u64 \<Rightarrow> u64 \<Rightarrow> mem_stats" where
  "mem_of total_kb available_kb =
     \<lparr>mem_total = total_kb * 1024, mem_available = available_kb * 1024, mem_available_percent = (if total_kb > 0 then share available_kb total_kb else 0)\<rparr>"

definition swap_of :: "u64 \<Rightarrow> u64 \<Rightarrow> swap_stats" where
  "swap_of total_kb free_kb =
     (let used_kb = (if total_kb > free_kb then total_kb - free_kb else 0)
      in \<lparr>swap_total = total_kb * 1024, swap_used = used_kb * 1024, swap_used_percent = (if total_kb > 0 then share used_kb total_kb else 0)\<rparr>)"

definition budyk_collect_memory_linux :: "host \<Rightarrow> budyk_sample_c \<Rightarrow> rc \<times> budyk_sample_c" where
  "budyk_collect_memory_linux h s =
     (case ho_read h (proc_path h ''/meminfo'') of Inl e \<Rightarrow> (- e, s)
      | Inr content \<Rightarrow>
          let m = fold meminfo_line (fgets_texts 256 content) meminfo_none
          in case mi_total m of None \<Rightarrow> (- ENODATA, s)
             | Some total_kb \<Rightarrow>
                 case (case mi_avail m of Some a \<Rightarrow> Some a
                       | None \<Rightarrow> map_option (\<lambda>free. free + mi_buffers m + mi_cached m + mi_sreclaimable m) (mi_free m)) of
                   None \<Rightarrow> (- ENODATA, s)
                 | Some a \<Rightarrow>
                     let a = a + zfs_arc_reclaimable h div 1024;
                         s = s\<lparr>sc_mem := mem_of total_kb (if a > total_kb then total_kb else a)\<rparr>
                     in (0, case mi_swap_total m of None \<Rightarrow> s
                            | Some swap_total_kb \<Rightarrow> s\<lparr>sc_swap := swap_of swap_total_kb (case mi_swap_free m of None \<Rightarrow> 0 | Some v \<Rightarrow> v)\<rparr>))"

section \<open>Protocol counters\<close>

fun snmp_find :: "string list \<Rightarrow> string list \<Rightarrow> string \<Rightarrow> string option" where
  "snmp_find (n # ns) (v # vs) want = (if n = want then Some v else snmp_find ns vs want)"
| "snmp_find _ _ want = None"

text \<open>The value stored and whether it was found; strings of the 1023 bytes the buffers hold.\<close>

definition snmp_value :: "string \<Rightarrow> string \<Rightarrow> string \<Rightarrow> bool \<times> u64 option" where
  "snmp_value names vals want =
     (case snmp_find (tokens (take 1023 names)) (tokens (take 1023 vals)) want of None \<Rightarrow> (False, None)
      | Some v \<Rightarrow> (case strtoull v of None \<Rightarrow> (False, Some 0) | Some (n, _) \<Rightarrow> (True, Some n)))"

definition netstat_rate :: "u64 \<Rightarrow> u64 \<Rightarrow> u64 \<Rightarrow> f64" where
  "netstat_rate now prev dns =
     (let r = (\<lambda>d. f64_div (f64_mul (f64_of_nat (unat (d :: u64))) f64_1e9) (f64_of_nat (unat dns)))
      in if dns = 0 then 0
         else if now < prev then if prev < 2 ^ 31 \<or> prev \<ge> 2 ^ 32 \<or> now \<ge> 2 ^ 31 then 0 else r (2 ^ 32 - prev + now)
         else r (now - prev))"

record budyk_netstat_ctx_c =
  nc_tcp :: "u64 list"
  nc_udp :: "u64 list"
  nc_icmp :: "u64 list"
  nc_prev_ns :: u64
  nc_has_prev :: bool

text \<open>A chain of \<open>snmp_value(...) && ...\<close>: stops at the first not found; the variables start at 0.\<close>

fun snmp_values :: "string \<Rightarrow> string \<Rightarrow> string list \<Rightarrow> bool \<times> u64 list" where
  "snmp_values names vals [] = (True, [])"
| "snmp_values names vals (w # ws) =
     (case snmp_value names vals w of (ok, v) \<Rightarrow>
        let v = (case v of None \<Rightarrow> 0 | Some v \<Rightarrow> v)
        in if ok then (case snmp_values names vals ws of (ok, vs) \<Rightarrow> (ok, v # vs)) else (False, v # replicate (length ws) 0))"

text \<open>The two lines of a protocol: the names first, then the values, the last line that comes.\<close>

definition snmp_pair :: "string \<Rightarrow> string \<Rightarrow> string \<times> string \<Rightarrow> string \<times> string" where
  "snmp_pair proto line p =
     (if starts_with proto line
      then let l = drop (length proto) line in if fst p = [] then (l, snd p) else (fst p, l) else p)"

definition udp6_names :: "string list" where
  "udp6_names = [''Udp6InDatagrams'', ''Udp6OutDatagrams'', ''Udp6NoPorts'', ''Udp6InErrors'']"

definition udp6_line :: "string \<Rightarrow> u64 list \<Rightarrow> u64 list" where
  "udp6_line line v =
     (case scan_word 63 line of None \<Rightarrow> v
      | Some (name, l) \<Rightarrow> (case scan_llu l of None \<Rightarrow> v
          | Some (x, _) \<Rightarrow> map2 (\<lambda>n y. if name = n then y + x else y) udp6_names v))"

definition sockstat_line :: "string \<Rightarrow> u64 \<Rightarrow> u64" where
  "sockstat_line line tw =
     (case (if starts_with ''TCP: '' line then strstr line '' tw '' else None) of None \<Rightarrow> tw
      | Some (_, p) \<Rightarrow> (case strtoull (drop 4 p) of None \<Rightarrow> 0 | Some (v, _) \<Rightarrow> v))"

text \<open>
  What is read in one go: of TCP the active and passive opens, the established, the segments in and out, the retransmits and the errors;
  of UDP the datagrams in and out, those for no port, the errors; of ICMP the messages in and out, the errors, the unreachables.
\<close>

record netstat_read =
  nr_tcp_ok :: bool
  nr_tcp :: "u64 list"
  nr_udp_ok :: bool
  nr_udp :: "u64 list"
  nr_icmp_ok :: bool
  nr_icmp :: "u64 list"
  nr_tw :: u64

definition read_netstat :: "host \<Rightarrow> string \<Rightarrow> netstat_read" where
  "read_netstat h content =
     (let ls = fgets_texts 1024 content;
          (tcp_n, tcp_v) = fold (snmp_pair ''Tcp: '') ls ([], []);
          (udp_n, udp_v) = fold (snmp_pair ''Udp: '') ls ([], []);
          (icmp_n, icmp_v) = fold (snmp_pair ''Icmp: '') ls ([], []);
          (tcp_ok, tcp) = snmp_values tcp_n tcp_v [''ActiveOpens'', ''PassiveOpens'', ''CurrEstab'', ''InSegs'', ''OutSegs'', ''RetransSegs''];
          inerr = (case snd (snmp_value tcp_n tcp_v ''InErrs'') of None \<Rightarrow> 0 | Some v \<Rightarrow> v);
          (udp_ok, udp) = snmp_values udp_n udp_v [''InDatagrams'', ''OutDatagrams'', ''NoPorts'', ''InErrors''];
          udp = (case ho_read h (proc_path h ''/net/snmp6'') of Inl e \<Rightarrow> udp | Inr c6 \<Rightarrow> fold udp6_line (fgets_texts 1024 c6) udp);
          (icmp_ok, icmp) = snmp_values icmp_n icmp_v [''InMsgs'', ''OutMsgs'', ''InErrors'', ''InDestUnreachs''];
          tw = (case ho_read h (proc_path h ''/net/sockstat'') of Inl e \<Rightarrow> 0 | Inr c \<Rightarrow> fold sockstat_line (fgets_texts 1024 c) 0)
      in \<lparr>nr_tcp_ok = tcp_ok, nr_tcp = tcp @ [inerr], nr_udp_ok = udp_ok, nr_udp = udp, nr_icmp_ok = icmp_ok, nr_icmp = icmp, nr_tw = tw\<rparr>)"

definition netstat_stats :: "bool \<Rightarrow> u64 \<Rightarrow> budyk_netstat_ctx_c \<Rightarrow> netstat_read \<Rightarrow> tcp_stats \<times> udp_stats \<times> icmp_stats" where
  "netstat_stats have_prev dns ctx nr =
     (let rate = (\<lambda>now prev i. if have_prev then netstat_rate (now ! i) (prev ! i) dns else 0);
          t = rate (nr_tcp nr) (nc_tcp ctx); u = rate (nr_udp nr) (nc_udp ctx); i = rate (nr_icmp nr) (nc_icmp ctx)
      in (if nr_tcp_ok nr
          then \<lparr>tcp_established = ucast (nr_tcp nr ! 2), tcp_time_wait = ucast (nr_tw nr), tcp_active_opens_per_sec = t 0, tcp_passive_opens_per_sec = t 1,
                tcp_retransmits_per_sec = t 5, tcp_in_segments_per_sec = t 3, tcp_out_segments_per_sec = t 4, tcp_in_errors_per_sec = t 6, tcp_present = True\<rparr>
          else tcp_zero,
          if nr_udp_ok nr
          then \<lparr>udp_in_datagrams_per_sec = u 0, udp_out_datagrams_per_sec = u 1, udp_no_port_per_sec = u 2, udp_in_errors_per_sec = u 3, udp_present = True\<rparr>
          else udp_zero,
          if nr_icmp_ok nr
          then \<lparr>icmp_in_msgs_per_sec = i 0, icmp_out_msgs_per_sec = i 1, icmp_in_errors_per_sec = i 2, icmp_in_dest_unreachs_per_sec = i 3, icmp_present = True\<rparr>
          else icmp_zero))"

definition budyk_collect_netstat_linux :: "host \<Rightarrow> budyk_netstat_ctx_c \<Rightarrow> budyk_sample_c \<Rightarrow> rc \<times> budyk_netstat_ctx_c \<times> budyk_sample_c" where
  "budyk_collect_netstat_linux h ctx s =
     (let s = s\<lparr>sc_tcp := tcp_zero, sc_udp := udp_zero, sc_icmp := icmp_zero\<rparr>
      in case ho_read h (proc_path h ''/net/snmp'') of Inl e \<Rightarrow> (- e, ctx, s)
         | Inr content \<Rightarrow>
             let nr = read_netstat h content; now = sc_timestamp_nanos s;
                 have_prev = (nc_has_prev ctx \<and> now > nc_prev_ns ctx);
                 (t, u, i) = netstat_stats have_prev (if have_prev then now - nc_prev_ns ctx else 0) ctx nr
             in (if nr_tcp_ok nr \<or> nr_udp_ok nr \<or> nr_icmp_ok nr then 0 else - ENODATA,
                 \<lparr>nc_tcp = nr_tcp nr, nc_udp = nr_udp nr, nc_icmp = nr_icmp nr, nc_prev_ns = now, nc_has_prev = True\<rparr>,
                 s\<lparr>sc_tcp := t, sc_udp := u, sc_icmp := i\<rparr>))"

section \<open>Memory is within what there is\<close>

lemma mem_of_bound: "a \<le> t \<Longrightarrow> t < 2 ^ 54 \<Longrightarrow> mem_available (mem_of t a) \<le> mem_total (mem_of t a)"
  by (simp add: mem_of_def word_le_nat_alt word_less_nat_alt unat_word_ariths)

lemma swap_of_bound: "t < 2 ^ 54 \<Longrightarrow> swap_used (swap_of t f) \<le> swap_total (swap_of t f)"
proof -
  assume t: "t < 2 ^ 54"
  define u where "u = (if t > f then t - f else 0)"
  have "u \<le> t"
  proof (cases "f < t")
    case True
    then have "unat (t - f) = unat t - unat f" by (intro unat_sub) simp
    then show ?thesis using True by (simp add: u_def word_le_nat_alt)
  qed (simp add: u_def)
  then have "u * 1024 \<le> t * 1024" using t by (simp add: word_le_nat_alt word_less_nat_alt unat_word_ariths)
  then show ?thesis by (simp add: swap_of_def Let_def u_def)
qed

text \<open>Whatever the text, a reading that is taken has a total, and an available of at most the total.\<close>

lemma collect_memory:
  assumes "budyk_collect_memory_linux h s = (0, s')" "\<forall>path e. ho_read h path = Inl e \<longrightarrow> e \<noteq> 0"
  shows "\<exists>t a. a \<le> t \<and> sc_mem s' = mem_of t a \<and> (sc_swap s' = sc_swap s \<or> (\<exists>st sf. sc_swap s' = swap_of st sf))"
proof -
  obtain content where c: "ho_read h (proc_path h ''/meminfo'') = Inr content"
    using assms by (cases "ho_read h (proc_path h ''/meminfo'')") (auto simp: budyk_collect_memory_linux_def)
  define m where "m = fold meminfo_line (fgets_texts 256 content) meminfo_none"
  define av where "av = (case mi_avail m of Some a \<Rightarrow> Some a
    | None \<Rightarrow> map_option (\<lambda>free. free + mi_buffers m + mi_cached m + mi_sreclaimable m) (mi_free m))"
  obtain t where t: "mi_total m = Some t" using assms(1) by (auto simp: budyk_collect_memory_linux_def c m_def [symmetric] Let_def ENODATA_def split: option.splits)
  obtain a where a: "av = Some a"
    using assms(1) by (cases av) (simp_all add: budyk_collect_memory_linux_def c m_def [symmetric] Let_def t av_def [symmetric] ENODATA_def)
  define a' where "a' = a + zfs_arc_reclaimable h div 1024"
  define s1 where "s1 = s\<lparr>sc_mem := mem_of t (if a' > t then t else a')\<rparr>"
  have "s' = (case mi_swap_total m of None \<Rightarrow> s1 | Some x \<Rightarrow> s1\<lparr>sc_swap := swap_of x (case mi_swap_free m of None \<Rightarrow> 0 | Some v \<Rightarrow> v)\<rparr>)"
    using assms(1) by (auto simp: budyk_collect_memory_linux_def c m_def [symmetric] Let_def t av_def [symmetric] a a'_def [symmetric] s1_def split: option.splits)
  then have "sc_mem s' = mem_of t (if a' > t then t else a')" "sc_swap s' = sc_swap s \<or> (\<exists>st sf. sc_swap s' = swap_of st sf)"
    by (auto simp: s1_def split: option.splits)
  then show ?thesis by (intro exI [of _ t] exI [of _ "if a' > t then t else a'"]) auto
qed

section \<open>Columns by name\<close>

text \<open>The words of a line, each after a blank, and the two lines of a protocol.\<close>

definition columns :: "string list \<Rightarrow> string" where
  "columns ws = concat (map (\<lambda>w. CHR '' '' # w) ws)"

definition words_ok :: "string list \<Rightarrow> bool" where
  "words_ok ws = list_all (\<lambda>w. w \<noteq> [] \<and> list_all tok_char w) ws"

definition numbers :: "(string \<times> u64) list \<Rightarrow> string list" where
  "numbers cols = map (\<lambda>c. digits (unat (snd c))) cols"

lemma tokens_columns: "words_ok ws \<Longrightarrow> rest = [] \<or> \<not> tok_char (hd rest) \<Longrightarrow> tokens (columns ws @ rest) = ws @ tokens rest"
proof (induction ws)
  case Nil
  then show ?case by (simp add: columns_def)
next
  case (Cons w ws)
  have eq: "columns (w # ws) @ rest = CHR '' '' # w @ (columns ws @ rest)" by (simp add: columns_def)
  have "columns ws @ rest = [] \<or> \<not> tok_char (hd (columns ws @ rest))" using Cons.prems by (cases ws) (simp_all add: columns_def tok_char_def)
  then show ?case unfolding eq using Cons by (simp add: tokens_blank tokens_word tok_char_def words_ok_def del: append_assoc)
qed

lemma snmp_find_zip: "length ns = length vs \<Longrightarrow> snmp_find ns vs want = map_of (zip ns vs) want"
  by (induction ns vs want rule: snmp_find.induct) auto

lemma digits_word: "digits n \<noteq> [] \<and> list_all tok_char (digits n)"
  using digits_all [of n] by (auto simp: list_all_iff tok_char_def is_digit_def Let_def)

lemma numbers_ok: "words_ok (numbers cols)"
  using digits_word by (simp add: words_ok_def numbers_def list_all_iff)

text \<open>A line as it is kept: without the blank after the colon, with the end of line.\<close>

definition kept_line :: "string list \<Rightarrow> string" where
  "kept_line ws = drop 1 (columns ws @ [CHR 0x0A])"

lemma tokens_kept_line: "words_ok ws \<Longrightarrow> tokens (kept_line ws) = ws"
proof (cases ws)
  case Nil
  then show ?thesis by (simp add: kept_line_def columns_def)
next
  case (Cons w v)
  assume ok: "words_ok ws"
  have "columns ws @ [CHR 0x0A] = CHR '' '' # kept_line ws" by (simp add: kept_line_def columns_def Cons)
  moreover have "tokens (columns ws @ [CHR 0x0A]) = ws" using tokens_columns [OF ok, of "[CHR 0x0A]"] by (simp add: tok_char_def tokens_blank)
  ultimately show ?thesis using tokens_blank [of "CHR '' ''" "kept_line ws"] by (simp add: tok_char_def)
qed

lemma snmp_by_name:
  assumes "words_ok (map fst cols)" "length (kept_line (map fst cols)) \<le> 1023" "length (kept_line (numbers cols)) \<le> 1023" "map_of cols want = Some v"
  shows "snmp_value (kept_line (map fst cols)) (kept_line (numbers cols)) want = (True, Some v)"
proof -
  have "map_of (zip (map fst cols) (numbers cols)) want = map_option (\<lambda>v. digits (unat v)) (map_of cols want)"
    by (induction cols) (auto simp: numbers_def)
  moreover have "tokens (take 1023 (kept_line (map fst cols))) = map fst cols" "tokens (take 1023 (kept_line (numbers cols))) = numbers cols"
    using tokens_kept_line assms(1-3) numbers_ok by simp_all
  ultimately show ?thesis using strtoull_digits [of "[]" v] assms(4) by (simp add: snmp_value_def snmp_find_zip numbers_def)
qed

lemma snmp_values_by_name:
  assumes "words_ok (map fst cols)" "length (kept_line (map fst cols)) \<le> 1023" "length (kept_line (numbers cols)) \<le> 1023"
    and "\<forall>w \<in> set wants. map_of cols w = Some (val w)"
  shows "snmp_values (kept_line (map fst cols)) (kept_line (numbers cols)) wants = (True, map val wants)"
  using assms(4) by (induction wants) (simp_all add: snmp_by_name [OF assms(1-3)])

text \<open>The text of \<open>/proc/net/snmp\<close>: the two lines of TCP among others.\<close>

definition tcp_lines :: "(string \<times> u64) list \<Rightarrow> string list" where
  "tcp_lines cols = [''Tcp:'' @ columns (map fst cols), ''Tcp:'' @ columns (numbers cols)]"

definition line_fits :: "string \<Rightarrow> bool" where
  "line_fits l = (CHR 0x0A \<notin> set l \<and> CHR 0x00 \<notin> set l \<and> length l + 2 \<le> 1024)"

definition other_line :: "string \<Rightarrow> bool" where
  "other_line l = (line_fits l \<and> take 4 l \<noteq> ''Tcp:'')"

lemma snmp_pair_others: "list_all other_line ls \<Longrightarrow> fold (snmp_pair ''Tcp: '') (map (\<lambda>l. l @ [CHR 0x0A]) ls) p = p"
proof (induction ls arbitrary: p)
  case (Cons l ls)
  have "\<not> starts_with ''Tcp: '' (l @ [CHR 0x0A])"
  proof
    assume "starts_with ''Tcp: '' (l @ [CHR 0x0A])"
    then have t: "take 5 (l @ [CHR 0x0A]) = ''Tcp: ''" by (simp add: starts_with_def numeral_eq_Suc)
    then have "take 4 (take 5 (l @ [CHR 0x0A])) = ''Tcp:''" by simp
    then have tt: "take 4 (l @ [CHR 0x0A]) = ''Tcp:''" by (simp del: take_append)
    have "5 \<le> length (l @ [CHR 0x0A])" using arg_cong [OF t, of length] by simp
    then have "take 4 l = ''Tcp:''" using tt by simp
    then show False using Cons.prems by (simp add: other_line_def)
  qed
  then show ?case using Cons by (simp add: snmp_pair_def)
qed simp

lemma snmp_pair_tcp:
  assumes "cols \<noteq> []" "words_ok (map fst cols)" "list_all other_line before" "list_all other_line after"
  shows "fold (snmp_pair ''Tcp: '') (map (\<lambda>l. l @ [CHR 0x0A]) (before @ tcp_lines cols @ after)) ([], []) = (kept_line (map fst cols), kept_line (numbers cols))"
proof -
  have line: "starts_with ''Tcp: '' ((''Tcp:'' @ columns (w # ws)) @ [CHR 0x0A]) \<and> drop 5 ((''Tcp:'' @ columns (w # ws)) @ [CHR 0x0A]) = kept_line (w # ws)" for w ws
    by (simp add: starts_with_def columns_def kept_line_def)
  obtain c cs where cols: "cols = c # cs" using assms(1) by (cases cols) auto
  have ne: "kept_line (map fst cols) \<noteq> []" by (simp add: kept_line_def columns_def cols)
  have n: "starts_with ''Tcp: '' ((''Tcp:'' @ columns (map fst cols)) @ [CHR 0x0A])" "drop 5 ((''Tcp:'' @ columns (map fst cols)) @ [CHR 0x0A]) = kept_line (map fst cols)"
    using line by (simp_all add: cols)
  have v: "starts_with ''Tcp: '' ((''Tcp:'' @ columns (numbers cols)) @ [CHR 0x0A])" "drop 5 ((''Tcp:'' @ columns (numbers cols)) @ [CHR 0x0A]) = kept_line (numbers cols)"
    using line by (simp_all add: cols numbers_def)
  have step: "snmp_pair ''Tcp: '' ((''Tcp:'' @ columns (map fst cols)) @ [CHR 0x0A]) ([], []) = (kept_line (map fst cols), [])"
    "snmp_pair ''Tcp: '' ((''Tcp:'' @ columns (numbers cols)) @ [CHR 0x0A]) (kept_line (map fst cols), []) = (kept_line (map fst cols), kept_line (numbers cols))"
    unfolding snmp_pair_def Let_def using n v ne by (simp_all del: append_assoc append.simps)
  show ?thesis unfolding map_append fold_append o_apply snmp_pair_others [OF assms(3)]
    unfolding tcp_lines_def list.map fold_simps step snmp_pair_others [OF assms(4)] by (rule refl)
qed

definition tcp_names :: "string list" where
  "tcp_names = [''ActiveOpens'', ''PassiveOpens'', ''CurrEstab'', ''InSegs'', ''OutSegs'', ''RetransSegs'', ''InErrs'']"

definition tcp_text :: "string list \<Rightarrow> (string \<times> u64) list \<Rightarrow> string list \<Rightarrow> (string \<Rightarrow> u64) \<Rightarrow> bool" where
  "tcp_text before cols after val =
     (words_ok (map fst cols) \<and> list_all line_fits (tcp_lines cols) \<and> list_all other_line before \<and> list_all other_line after \<and>
      (\<forall>w \<in> set tcp_names. map_of cols w = Some (val w)))"

lemma read_netstat_tcp:
  assumes "tcp_text before cols after val"
  shows "nr_tcp_ok (read_netstat h (lines_text (before @ tcp_lines cols @ after))) \<and>
    nr_tcp (read_netstat h (lines_text (before @ tcp_lines cols @ after))) = map val tcp_names"
proof -
  define ls where "ls = before @ tcp_lines cols @ after"
  have fits: "list_all line_fits ls"
    using assms by (auto simp: ls_def tcp_text_def other_line_def list_all_iff)
  have lines: "fgets_texts 1024 (lines_text ls) = map (\<lambda>l. l @ [CHR 0x0A]) ls"
    unfolding lines_text_def by (rule fgets_texts_text) (use fits in \<open>simp add: line_fits_def [abs_def]\<close>)
  have ne: "cols \<noteq> []" using assms by (auto simp: tcp_text_def tcp_names_def)
  have pair: "fold (snmp_pair ''Tcp: '') (map (\<lambda>l. l @ [CHR 0x0A]) ls) ([], []) = (kept_line (map fst cols), kept_line (numbers cols))"
    unfolding ls_def by (rule snmp_pair_tcp [OF ne]) (use assms in \<open>simp_all add: tcp_text_def\<close>)
  have len: "length (kept_line (map fst cols)) \<le> 1023" "length (kept_line (numbers cols)) \<le> 1023"
    using assms by (auto simp: tcp_text_def tcp_lines_def line_fits_def kept_line_def)
  have ok: "words_ok (map fst cols)" using assms by (simp add: tcp_text_def)
  have six: "\<forall>w \<in> set [''ActiveOpens'', ''PassiveOpens'', ''CurrEstab'', ''InSegs'', ''OutSegs'', ''RetransSegs'']. map_of cols w = Some (val w)"
    and err: "map_of cols ''InErrs'' = Some (val ''InErrs'')" using assms unfolding tcp_text_def tcp_names_def by simp_all
  show ?thesis
    unfolding ls_def [symmetric] read_netstat_def Let_def lines pair prod.case snmp_values_by_name [OF ok len six] snmp_by_name [OF ok len err]
    by (simp add: tcp_names_def split: prod.split)
qed

section \<open>Counters that wrap\<close>

lemma netstat_rate_wrapped:
  fixes prev :: u64
  assumes "unat prev < 2 ^ 32" "k < 2 ^ 31" "dns \<noteq> 0"
  shows "netstat_rate (of_nat ((unat prev + k) mod 2 ^ 32)) prev dns = f64_div (f64_mul (f64_of_nat k) f64_1e9) (f64_of_nat (unat dns))"
proof (cases "unat prev + k < 2 ^ 32")
  case True
  define now :: u64 where "now = of_nat (unat prev + k)"
  have now: "unat now = unat prev + k" unfolding now_def using True by (subst unat_of_nat) simp
  then have "\<not> now < prev" "unat (now - prev) = k" by (simp_all add: word_less_nat_alt unat_sub word_le_nat_alt)
  then show ?thesis using True assms(3) unfolding netstat_rate_def Let_def by (simp add: now_def)
next
  case False
  define w where "w = unat prev + k - 2 ^ 32"
  define now :: u64 where "now = of_nat w"
  have w: "w < k" "unat prev + k = w + 2 ^ 32" using False assms(1) by (auto simp: w_def)
  have m: "(unat prev + k) mod 2 ^ 32 = w" unfolding w(2) using w(1) assms(2) by simp
  have now: "unat now = w" unfolding now_def using w(1) assms(2) by (subst unat_of_nat) simp
  have p: "2 ^ 31 \<le> unat prev" using w assms(2) by simp
  have less: "now < prev" unfolding word_less_nat_alt now using w(1) p assms(2) by simp
  have range: "\<not> (prev < 2 ^ 31 \<or> prev \<ge> 2 ^ 32 \<or> now \<ge> 2 ^ 31)"
    using p assms(1,2) w(1) by (simp add: word_less_nat_alt word_le_nat_alt now)
  have "unat (2 ^ 32 - prev) = 2 ^ 32 - unat prev" using assms(1) by (subst unat_sub) (simp_all add: word_le_nat_alt)
  then have "unat (2 ^ 32 - prev + now) = k" using w assms(1,2) by (simp add: unat_word_ariths now)
  then show ?thesis unfolding m now_def [symmetric] netstat_rate_def Let_def using less range assms(3) by simp
qed

text \<open>The rates of TCP. For any two texts of \<open>/proc/net/snmp\<close> that have TCP's counters, in whatever columns and among whatever other lines,
  read one after the other: the sockets established are those of the second, and each rate is what was counted in between over the
  time between, also when a 32-bit counter wrapped.\<close>

theorem tcp_rates_read:
  fixes count :: "string \<Rightarrow> nat"
  assumes "ho_read h1 (proc_path h1 ''/net/snmp'') = Inr (lines_text (b1 @ tcp_lines cols1 @ a1))" "tcp_text b1 cols1 a1 val1"
    and "ho_read h2 (proc_path h2 ''/net/snmp'') = Inr (lines_text (b2 @ tcp_lines cols2 @ a2))" "tcp_text b2 cols2 a2 val2"
    and "sc_timestamp_nanos s1 < sc_timestamp_nanos s2"
    and "\<forall>w \<in> set tcp_names. unat (val1 w) < 2 ^ 32 \<and> count w < 2 ^ 31 \<and> val2 w = of_nat ((unat (val1 w) + count w) mod 2 ^ 32)"
    and "budyk_collect_netstat_linux h1 ctx s1 = (rc1, ctx1, s1')" "budyk_collect_netstat_linux h2 ctx1 s2 = (rc2, ctx2, s2')"
  defines "per_sec \<equiv> \<lambda>w. f64_div (f64_mul (f64_of_nat (count w)) f64_1e9) (f64_of_nat (unat (sc_timestamp_nanos s2 - sc_timestamp_nanos s1)))"
  shows "rc2 = 0 \<and> tcp_present (sc_tcp s2') \<and> tcp_established (sc_tcp s2') = ucast (val2 ''CurrEstab'') \<and>
    tcp_active_opens_per_sec (sc_tcp s2') = per_sec ''ActiveOpens'' \<and> tcp_passive_opens_per_sec (sc_tcp s2') = per_sec ''PassiveOpens'' \<and>
    tcp_retransmits_per_sec (sc_tcp s2') = per_sec ''RetransSegs'' \<and> tcp_in_segments_per_sec (sc_tcp s2') = per_sec ''InSegs'' \<and>
    tcp_out_segments_per_sec (sc_tcp s2') = per_sec ''OutSegs'' \<and> tcp_in_errors_per_sec (sc_tcp s2') = per_sec ''InErrs''"
proof -
  define nr1 nr2 where "nr1 = read_netstat h1 (lines_text (b1 @ tcp_lines cols1 @ a1))" and "nr2 = read_netstat h2 (lines_text (b2 @ tcp_lines cols2 @ a2))"
  have n1: "nr_tcp nr1 = map val1 tcp_names" and n2: "nr_tcp_ok nr2" "nr_tcp nr2 = map val2 tcp_names"
    using read_netstat_tcp [OF assms(2)] read_netstat_tcp [OF assms(4)] by (simp_all add: nr1_def nr2_def)
  have ctx1: "nc_tcp ctx1 = map val1 tcp_names" "nc_prev_ns ctx1 = sc_timestamp_nanos s1" "nc_has_prev ctx1"
    using assms(7) by (auto simp: budyk_collect_netstat_linux_def Let_def assms(1) nr1_def [symmetric] n1 split: prod.splits)
  have dns: "sc_timestamp_nanos s2 - sc_timestamp_nanos s1 \<noteq> 0" using assms(5) by simp
  have rate: "netstat_rate (val2 w) (val1 w) (sc_timestamp_nanos s2 - sc_timestamp_nanos s1) = per_sec w" if "w \<in> set tcp_names" for w
  proof -
    have "unat (val1 w) < 2 ^ 32" "count w < 2 ^ 31" "val2 w = of_nat ((unat (val1 w) + count w) mod 2 ^ 32)" using assms(6) that by blast+
    then show ?thesis unfolding per_sec_def by (simp only: netstat_rate_wrapped [OF _ _ dns])
  qed
  have rates: "netstat_rate (val2 ''ActiveOpens'') (val1 ''ActiveOpens'') (sc_timestamp_nanos s2 - sc_timestamp_nanos s1) = per_sec ''ActiveOpens''"
    "netstat_rate (val2 ''PassiveOpens'') (val1 ''PassiveOpens'') (sc_timestamp_nanos s2 - sc_timestamp_nanos s1) = per_sec ''PassiveOpens''"
    "netstat_rate (val2 ''InSegs'') (val1 ''InSegs'') (sc_timestamp_nanos s2 - sc_timestamp_nanos s1) = per_sec ''InSegs''"
    "netstat_rate (val2 ''OutSegs'') (val1 ''OutSegs'') (sc_timestamp_nanos s2 - sc_timestamp_nanos s1) = per_sec ''OutSegs''"
    "netstat_rate (val2 ''RetransSegs'') (val1 ''RetransSegs'') (sc_timestamp_nanos s2 - sc_timestamp_nanos s1) = per_sec ''RetransSegs''"
    "netstat_rate (val2 ''InErrs'') (val1 ''InErrs'') (sc_timestamp_nanos s2 - sc_timestamp_nanos s1) = per_sec ''InErrs''"
    by (rule rate; simp add: tcp_names_def)+
  show ?thesis
    using assms(5,8) by (auto simp: budyk_collect_netstat_linux_def netstat_stats_def Let_def assms(3) nr2_def [symmetric] n2 ctx1 tcp_names_def rates split: prod.splits)
qed

section \<open>Witnesses\<close>

definition demo_tcp :: "u64 \<Rightarrow> (string \<times> u64) list" where
  "demo_tcp n = map (\<lambda>w. (w, n)) tcp_names"

lemma tcp_names_words: "words_ok tcp_names" "length (columns tcp_names) \<le> 100" "CHR 0x0A \<notin> set (columns tcp_names)" "CHR 0x00 \<notin> set (columns tcp_names)"
  by (simp_all add: words_ok_def tcp_names_def tok_char_def columns_def)

lemma demo_tcp_text: "tcp_text [] (demo_tcp n) [] (\<lambda>_. n)"
proof -
  have fst: "map fst (demo_tcp n) = tcp_names" by (simp add: demo_tcp_def comp_def)
  have num: "numbers (demo_tcp n) = replicate 7 (digits (unat n))" by (simp add: demo_tcp_def numbers_def tcp_names_def numeral_eq_Suc)
  have col: "CHR 0x0A \<notin> set (columns (replicate k (digits (unat n))))" "CHR 0x00 \<notin> set (columns (replicate k (digits (unat n))))"
    "length (columns (replicate k (digits (unat n)))) \<le> 21 * k" for k
    using digits_no_break digits_u64_length [of n] by (induction k) (auto simp: columns_def)
  have "length (columns (replicate 7 (digits (unat n)))) \<le> 1018" using col(3) [of 7] by simp
  moreover have "\<forall>w \<in> set tcp_names. map_of (demo_tcp n) w = Some n" by (simp add: demo_tcp_def tcp_names_def)
  ultimately show ?thesis unfolding tcp_text_def tcp_lines_def fst num line_fits_def using tcp_names_words col(1,2) by simp
qed

definition demo_tcp_host :: "u64 \<Rightarrow> host" where
  "demo_tcp_host n = plain_host (lines_text ([] @ tcp_lines (demo_tcp n) @ []))"

definition demo_tcp_tick :: "u64 \<Rightarrow> u64 \<Rightarrow> budyk_netstat_ctx_c \<Rightarrow> rc \<times> budyk_netstat_ctx_c \<times> budyk_sample_c" where
  "demo_tcp_tick n now ctx = budyk_collect_netstat_linux (demo_tcp_host n) ctx (plain_sample now)"

definition demo_tcp_ctx :: budyk_netstat_ctx_c where
  "demo_tcp_ctx = fst (snd (demo_tcp_tick 4294967290 1 \<lparr>nc_tcp = [], nc_udp = [], nc_icmp = [], nc_prev_ns = 0, nc_has_prev = False\<rparr>))"

text \<open>A counter at \<open>2^32 - 6\<close>, then at 4: ten more.\<close>

theorem tcp_rates_witness:
  "tcp_active_opens_per_sec (sc_tcp (snd (snd (demo_tcp_tick 4 2 demo_tcp_ctx)))) = f64_div (f64_mul (f64_of_nat 10) f64_1e9) (f64_of_nat 1)"
proof -
  obtain rc1 ctx1 s1' where a: "demo_tcp_tick 4294967290 1 \<lparr>nc_tcp = [], nc_udp = [], nc_icmp = [], nc_prev_ns = 0, nc_has_prev = False\<rparr> = (rc1, ctx1, s1')" by (rule prod_cases3)
  obtain rc2 ctx2 s2' where b: "demo_tcp_tick 4 2 ctx1 = (rc2, ctx2, s2')" by (rule prod_cases3)
  have c: "demo_tcp_ctx = ctx1" by (simp add: demo_tcp_ctx_def a)
  have r: "ho_read (demo_tcp_host n) path = Inr (lines_text ([] @ tcp_lines (demo_tcp n) @ []))" for n path by (simp add: demo_tcp_host_def)
  show ?thesis unfolding c b
    using tcp_rates_read [OF r demo_tcp_text r demo_tcp_text _ _ a [unfolded demo_tcp_tick_def] b [unfolded demo_tcp_tick_def], where count = "\<lambda>_. 10"] by simp
qed

end
