(* ===== verification/Linux_Proc.thy ===== *)
theory Linux_Proc
  imports Linux_Devices
begin

text \<open>
  The collectors of uptime, load, entropy, processes, the clock, the daemon itself and the sensors, and of filesystems
  (\<open>src/collector/linux/system.c\<close>, \<open>fs.c\<close>), as those of \<open>Linux_Devices\<close>.
  Proved: the line of a process reads back whatever its name holds; every process counted is in exactly one state; the escapes of a mount
  point are undone; a filesystem is counted once however often it is mounted, and the fullest is reported.
\<close>

definition EACCES :: errno where "EACCES = 13"

section \<open>Uptime, load, entropy\<close>

definition budyk_collect_uptime_linux :: "host \<Rightarrow> budyk_sample_c \<Rightarrow> rc \<times> budyk_sample_c" where
  "budyk_collect_uptime_linux h s =
     (case ho_read h ''/proc/uptime'' of Inl e \<Rightarrow> (- e, s)
      | Inr content \<Rightarrow> (case ho_double h content of None \<Rightarrow> (- EIO, s) | Some up \<Rightarrow> (0, s\<lparr>sc_uptime_seconds := up\<rparr>)))"

definition budyk_collect_load_linux :: "host \<Rightarrow> budyk_sample_c \<Rightarrow> rc \<times> budyk_sample_c" where
  "budyk_collect_load_linux h s =
     (case ho_loadavg h of [a, b, c] \<Rightarrow> (0, s\<lparr>sc_load := \<lparr>load_avg_1m = a, load_avg_5m = b, load_avg_15m = c\<rparr>\<rparr>) | _ \<Rightarrow> (- EIO, s))"

definition budyk_collect_entropy_linux :: "host \<Rightarrow> budyk_sample_c \<Rightarrow> rc \<times> budyk_sample_c" where
  "budyk_collect_entropy_linux h s =
     (case ho_read h ''/proc/sys/kernel/random/entropy_avail'' of Inl e \<Rightarrow> (0, s\<lparr>sc_entropy := entropy_zero\<rparr>)
      | Inr content \<Rightarrow>
          (case scan_u content of None \<Rightarrow> (0, s\<lparr>sc_entropy := entropy_zero\<rparr>)
           | Some (bits, _) \<Rightarrow> (0, s\<lparr>sc_entropy := \<lparr>entropy_available_bits = bits, entropy_present = True\<rparr>\<rparr>)))"

section \<open>Processes\<close>

text \<open>Fields \<open>24 - n\<close> to 24 of the line; a line may end after field 20, and reads 0 for the rest.\<close>

fun stat_fields :: "nat \<Rightarrow> string \<Rightarrow> int list option" where
  "stat_fields 0 p = Some []"
| "stat_fields (Suc n) p =
     (case strtol p of None \<Rightarrow> if 24 - n \<le> 20 then None else Some (replicate (Suc n) 0)
      | Some (v, _, r) \<Rightarrow> map_option (\<lambda>vs. v # vs) (stat_fields n r))"

definition positive :: "int \<Rightarrow> u64" where
  "positive v = (if v > 0 then word_of_int v else 0)"

definition budyk_linux_parse_proc_stat_ex :: "int \<Rightarrow> string \<Rightarrow> (budyk_proc_read_c \<times> u32) option" where
  "budyk_linux_parse_proc_stat_ex page line =
     (case (strchr line (CHR ''(''), strrchr line (CHR '')'')) of
        (Some (before, _), Some (till, c1 # st # p)) \<Rightarrow>
          if length till < length before \<or> c1 \<noteq> CHR '' '' then None
          else (case stat_fields 21 p of None \<Rightarrow> None
                | Some fs \<Rightarrow>
                    let f = (\<lambda>i. fs ! (i - 4)); len = length till - length before - 1
                    in Some (\<lparr>rd_pid = word_of_int (case strtol line of None \<Rightarrow> 0 | Some (v, _) \<Rightarrow> v), rd_start = word_of_int (f 22),
                             rd_cpu = positive (f 14) + positive (f 15),
                             rd_rss_bytes = (if f 24 > 0 then word_of_int (f 24) * word_of_int (if page > 0 then page else 4096) else 0),
                             rd_threads = word_of_int (f 20), rd_state = st,
                             rd_name = take (if len \<ge> 32 then 31 else len) (drop (length before + 1) line)\<rparr>, word_of_int (f 9)))
      | _ \<Rightarrow> None)"

definition budyk_linux_parse_proc_stat :: "int \<Rightarrow> string \<Rightarrow> (char \<times> u32) option" where
  "budyk_linux_parse_proc_stat page line = map_option (\<lambda>(r, _). (rd_state r, rd_threads r)) (budyk_linux_parse_proc_stat_ex page line)"

definition BUDYK_PF_KTHREAD :: u32 where "BUDYK_PF_KTHREAD = 0x200000"

definition proc_counted :: "char \<Rightarrow> process_stats \<Rightarrow> process_stats option" where
  "proc_counted st p =
     (if st = CHR ''R'' then Some (p\<lparr>proc_running := proc_running p + 1\<rparr>)
      else if st \<in> {CHR ''S'', CHR ''I'', CHR ''W'', CHR ''P''} then Some (p\<lparr>proc_sleeping := proc_sleeping p + 1\<rparr>)
      else if st \<in> {CHR ''D'', CHR ''K''} then Some (p\<lparr>proc_blocked := proc_blocked p + 1\<rparr>)
      else if st \<in> {CHR ''T'', CHR ''t''} then Some (p\<lparr>proc_stopped := proc_stopped p + 1\<rparr>)
      else if st = CHR ''Z'' then Some (p\<lparr>proc_zombie := proc_zombie p + 1\<rparr>)
      else None)"

definition tick_rate :: "host \<Rightarrow> f64" where
  "tick_rate h = f64_of_nat (nat (if ho_clk_tck h > 0 then ho_clk_tck h else 100))"

text \<open>The reading of the process in directory \<open>name\<close>, if that is one and still there.\<close>

definition proc_entry_read :: "host \<Rightarrow> string \<Rightarrow> (budyk_proc_read_c \<times> u32) option" where
  "proc_entry_read h name =
     (case name of [] \<Rightarrow> None
      | c # _ \<Rightarrow>
          if \<not> is_digit c \<or> c = CHR ''0'' then None
          else let path = ho_proc_root h @ ''/'' @ name @ ''/stat''
               in if length path \<ge> 512 then None
                  else case ho_read h path of Inl e \<Rightarrow> None
                       | Inr content \<Rightarrow> if content = [] then None else budyk_linux_parse_proc_stat_ex (ho_pagesize h) (c_str (take 1023 content)))"

definition proc_read :: "host \<Rightarrow> string \<Rightarrow> process_stats \<times> tracker option \<Rightarrow> process_stats \<times> tracker option" where
  "proc_read h name st =
     (case proc_entry_read h name of None \<Rightarrow> st
      | Some (r, flags) \<Rightarrow>
          (case proc_counted (rd_state r) (fst st) of None \<Rightarrow> st
           | Some p \<Rightarrow> (p\<lparr>proc_total := proc_total p + 1, proc_threads := proc_threads p + rd_threads r\<rparr>,
                        map_option (\<lambda>t. if flags AND BUDYK_PF_KTHREAD = 0 then budyk_procs_add r (tick_rate h) t else t) (snd st))))"

definition budyk_collect_proc_linux_ex ::
    "(budyk_proc_prev_c list \<Rightarrow> budyk_proc_prev_c list) \<Rightarrow> (budyk_process_c list \<Rightarrow> budyk_process_c list) \<Rightarrow> host \<Rightarrow> budyk_sample_c \<Rightarrow> detail option \<Rightarrow>
     rc \<times> budyk_sample_c \<times> detail option" where
  "budyk_collect_proc_linux_ex qp qt h s d =
     (let s = s\<lparr>sc_proc := proc_zero\<rparr>; dir = ho_proc_root h
      in case ho_list h dir of Inl e \<Rightarrow> (- e, s, d)
         | Inr names \<Rightarrow>
             let (p, t) = fold (proc_read h) names (proc_zero, map_option (\<lambda>d. budyk_procs_begin (sc_timestamp_nanos s) (dc_tracker d)) d);
                 s = s\<lparr>sc_proc := p\<rparr>;
                 d = (case (d, t) of (Some d, Some t) \<Rightarrow> Some (d\<lparr>dc_tracker := budyk_procs_end qp qt t\<rparr>) | _ \<Rightarrow> d)
             in (if proc_total p \<le> 1 \<and> dir = ''/proc'' \<and> \<not> ho_readable h ''/proc/1/stat'' then - EACCES else 0, s, d))"

section \<open>The clock, the daemon, the sensors\<close>

definition f64_of_int :: "int \<Rightarrow> f64" where
  "f64_of_int v = (if v < 0 then f64_of_nat (nat (- v)) XOR 2 ^ 63 else f64_of_nat (nat v))"

definition TIME_ERROR :: int where "TIME_ERROR = 5"
definition STA_UNSYNC :: u32 where "STA_UNSYNC = 0x40"
definition STA_NANO :: u32 where "STA_NANO = 0x2000"

definition budyk_collect_clock_linux :: "host \<Rightarrow> budyk_sample_c \<Rightarrow> rc \<times> budyk_sample_c" where
  "budyk_collect_clock_linux h s =
     (case ho_adjtimex h of (state, tx) \<Rightarrow>
        (0, s\<lparr>sc_clock := (if state < 0 then clock_zero
          else \<lparr>clock_offset_ms = f64_div (f64_of_int (tx_offset tx)) (f64_of_nat (if tx_status tx AND STA_NANO \<noteq> 0 then 1000000 else 1000)),
                clock_max_error_ms = f64_div (f64_of_int (tx_maxerror tx)) (f64_of_nat 1000),
                clock_synced = (state \<noteq> TIME_ERROR \<and> tx_status tx AND STA_UNSYNC = 0), clock_present = True\<rparr>)\<rparr>))"

definition cpu_seconds :: "int \<times> int \<Rightarrow> f64" where
  "cpu_seconds tv = f64_add (f64_of_int (fst tv)) (f64_div (f64_of_int (snd tv)) (f64_of_nat 1000000))"

definition self_rss :: "host \<Rightarrow> u64" where
  "self_rss h =
     (case ho_read h ''/proc/self/statm'' of Inl e \<Rightarrow> 0
      | Inr content \<Rightarrow> (case scan_llus 2 content of [sz_pages, rss_pages] \<Rightarrow> if ho_pagesize h > 0 then rss_pages * word_of_int (ho_pagesize h) else 0 | _ \<Rightarrow> 0))"

definition budyk_collect_self_linux :: "host \<Rightarrow> budyk_sample_c \<Rightarrow> rc \<times> budyk_sample_c" where
  "budyk_collect_self_linux h s =
     (0, s\<lparr>sc_self := (case ho_rusage h of None \<Rightarrow> self_zero\<lparr>self_rss_bytes := self_rss h\<rparr>
        | Some ru \<Rightarrow> \<lparr>self_rss_bytes = self_rss h, self_peak_rss_bytes = word_of_int (ru_maxrss ru) * 1024,
                      self_cpu_user_seconds = cpu_seconds (ru_utime ru), self_cpu_system_seconds = cpu_seconds (ru_stime ru)\<rparr>)\<rparr>)"

definition thermal_read :: "host \<Rightarrow> string \<Rightarrow> f64 \<times> u32 \<Rightarrow> f64 \<times> u32" where
  "thermal_read h path st =
     (case ho_read h path of Inl e \<Rightarrow> st
      | Inr content \<Rightarrow>
          (case scan_ld content of None \<Rightarrow> st
           | Some (milli, _) \<Rightarrow>
               let celsius = f64_div (f64_of_int milli) (f64_of_nat 1000)
               in (if f64_less (fst st) celsius then celsius else fst st, snd st + 1)))"

definition zone_read :: "host \<Rightarrow> string \<Rightarrow> string \<Rightarrow> f64 \<times> u32 \<Rightarrow> f64 \<times> u32" where
  "zone_read h dirpath name st =
     (let path = dirpath @ ''/'' @ name @ ''/temp''
      in if \<not> starts_with ''thermal_zone'' name \<or> length path \<ge> 768 then st else thermal_read h path st)"

definition sensor_file :: "string \<Rightarrow> bool" where
  "sensor_file name = (starts_with ''temp'' name \<and> length name \<ge> 11 \<and> drop (length name - 6) name = ''_input'')"

definition chip_read :: "host \<Rightarrow> string \<Rightarrow> string \<Rightarrow> f64 \<times> u32 \<Rightarrow> f64 \<times> u32" where
  "chip_read h dirpath name st =
     (let chip = dirpath @ ''/'' @ name
      in if \<not> starts_with ''hwmon'' name \<or> length chip \<ge> 640 then st
         else case ho_list h chip of Inl e \<Rightarrow> st
              | Inr names \<Rightarrow>
                  fold (\<lambda>n st. if \<not> sensor_file n \<or> length (chip @ ''/'' @ n) \<ge> 768 then st else thermal_read h (chip @ ''/'' @ n) st) names st)"

definition dir_names :: "host \<Rightarrow> string \<Rightarrow> string list" where
  "dir_names h path = (case ho_list h path of Inl e \<Rightarrow> [] | Inr names \<Rightarrow> names)"

definition budyk_collect_thermal_linux :: "host \<Rightarrow> budyk_sample_c \<Rightarrow> rc \<times> budyk_sample_c" where
  "budyk_collect_thermal_linux h s =
     (let zones = sys_path h ''/class/thermal''; chips = sys_path h ''/class/hwmon'';
          st = fold (zone_read h zones) (dir_names h zones) (f64_of_int (- 1000000000), 0);
          (hottest, count) = fold (chip_read h chips) (dir_names h chips) st
      in (0, s\<lparr>sc_thermal := (if count > 0 then \<lparr>thermal_max_celsius = hottest, thermal_sensor_count = count, thermal_present = True\<rparr> else thermal_zero)\<rparr>))"

section \<open>Filesystems\<close>

definition skipped_types :: "string list" where
  "skipped_types = [''autofs'', ''binfmt_misc'', ''bpf'', ''cgroup'', ''cgroup2'', ''configfs'',
     ''debugfs'', ''devpts'', ''devtmpfs'', ''efivarfs'', ''fusectl'', ''hugetlbfs'',
     ''iso9660'', ''mqueue'', ''nsfs'', ''overlay'', ''proc'', ''pstore'', ''ramfs'',
     ''rpc_pipefs'', ''securityfs'', ''selinuxfs'', ''squashfs'', ''sysfs'',
     ''tracefs'', ''nfs'', ''nfs4'', ''cifs'', ''smb3'', ''smbfs'', ''ncpfs'', ''afs'',
     ''ceph'', ''glusterfs'', ''9p'', ''lustre'', ''gpfs'', ''sshfs'']"

definition skipped_type :: "string \<Rightarrow> bool" where
  "skipped_type t = (t \<in> set skipped_types \<or> starts_with ''fuse'' t)"

definition read_only :: "string \<Rightarrow> bool" where
  "read_only opts = (opts = ''ro'' \<or> starts_with ''ro,'' opts)"

text \<open>\<open>%*s\<close>, then the rest.\<close>

fun skip_words :: "nat \<Rightarrow> string \<Rightarrow> string option" where
  "skip_words 0 s = Some s"
| "skip_words (Suc n) s =
     (let s = dropWhile is_space s in if s = [] then None else skip_words n (dropWhile (\<lambda>c. \<not> is_space c) s))"

record mount_line =
  ml_mnt :: string
  ml_type :: string
  ml_dev :: string
  ml_opts :: string

definition parse_mountinfo :: "string \<Rightarrow> mount_line option" where
  "parse_mountinfo line =
     (case strstr line '' - '' of None \<Rightarrow> None
      | Some (b, a) \<Rightarrow>
          (case skip_words 4 b of None \<Rightarrow> None
           | Some l \<Rightarrow> (case scan_word 1023 l of None \<Rightarrow> None
           | Some (mnt, _) \<Rightarrow> (case scan_word 63 (drop 3 a) of None \<Rightarrow> None
           | Some (typ, l) \<Rightarrow> (case scan_word 1023 l of None \<Rightarrow> None
           | Some (dev, l) \<Rightarrow> (case scan_word 1023 l of None \<Rightarrow> None
           | Some (opts, _) \<Rightarrow> Some \<lparr>ml_mnt = mnt, ml_type = typ, ml_dev = dev, ml_opts = opts\<rparr>))))))"

definition hash_str :: "string \<Rightarrow> u64" where
  "hash_str s = foldl (\<lambda>h c. (h XOR of_nat (of_char c)) * 1099511628211) 1469598103934665603 s"

definition BUDYK_FS_MAX_LINES :: nat where "BUDYK_FS_MAX_LINES = 8192"

definition mount_points :: "string \<Rightarrow> u64 list" where
  "mount_points content =
     map (\<lambda>line. case parse_mountinfo line of None \<Rightarrow> 0 | Some m \<Rightarrow> hash_str (ml_mnt m)) (take BUDYK_FS_MAX_LINES (fgets_texts 4096 content))"

definition mounted_over :: "u64 list \<Rightarrow> nat \<Rightarrow> bool" where
  "mounted_over points i = (\<exists>j \<in> set [i + 1..<length points]. points ! j = points ! i)"

definition octal :: "char \<Rightarrow> nat" where
  "octal c = of_char c - 48"

definition is_octal :: "nat \<Rightarrow> char \<Rightarrow> bool" where
  "is_octal k c = (let n = of_char c :: nat in 48 \<le> n \<and> n \<le> 48 + k)"

fun budyk_linux_unescape_mount :: "string \<Rightarrow> string" where
  "budyk_linux_unescape_mount (p # a # b # c # s) =
     (if p = CHR 0x5C \<and> is_octal 3 a \<and> is_octal 7 b \<and> is_octal 7 c
      then char_of (octal a * 64 + octal b * 8 + octal c) # budyk_linux_unescape_mount s
      else p # budyk_linux_unescape_mount (a # b # c # s))"
| "budyk_linux_unescape_mount s = s"

record fs_scan =
  fz_fs :: fs_stats
  fz_unreadable :: u32
  fz_seen :: "u64 list"
  fz_mounts :: "budyk_mount_c list"

text \<open>As \<open>df\<close>: used of used and available.\<close>

definition used_percent :: "statvfs_c \<Rightarrow> f64" where
  "used_percent v =
     (let used = f64_of_nat (unat (f_blocks v - f_bfree v)); avail = f64_of_nat (unat (f_bavail v))
      in if f64_less 0 (f64_add used avail) then f64_div (f64_mul used f64_100) (f64_add used avail) else 0)"

definition inodes_percent :: "statvfs_c \<Rightarrow> f64" where
  "inodes_percent v = (if f_files v > 0 then share (f_files v - f_ffree v) (f_files v) else 0)"

definition mount_entry :: "mount_line \<Rightarrow> string \<Rightarrow> string \<Rightarrow> statvfs_c \<Rightarrow> budyk_mount_c" where
  "mount_entry m mnt dev v =
     (let frsize = (if f_frsize v > 0 then f_frsize v else f_bsize v)
      in \<lparr>mo_mount = take 255 mnt, mo_type = take 31 (ml_type m), mo_device = take 127 dev,
          mo_total_bytes = f_blocks v * frsize, mo_used_bytes = (f_blocks v - f_bfree v) * frsize, mo_avail_bytes = f_bavail v * frsize,
          mo_used_percent = used_percent v, mo_inodes_total = f_files v, mo_inodes_used = f_files v - f_ffree v, mo_inodes_used_percent = inodes_percent v\<rparr>)"

text \<open>One mount that counts: reachable, not seen before, with blocks.\<close>

definition fs_mount :: "host \<Rightarrow> bool \<Rightarrow> mount_line \<Rightarrow> fs_scan \<Rightarrow> fs_scan" where
  "fs_mount h detailed m st =
     (let mnt = c_str (budyk_linux_unescape_mount (ml_mnt m)); dev = c_str (budyk_linux_unescape_mount (ml_dev m))
      in case ho_dev h mnt of Inl e \<Rightarrow> if e = EACCES then st\<lparr>fz_unreadable := fz_unreadable st + 1\<rparr> else st
         | Inr st_dev \<Rightarrow>
             if st_dev \<in> set (fz_seen st) then st
             else let st = (if length (fz_seen st) < 256 then st\<lparr>fz_seen := fz_seen st @ [st_dev]\<rparr> else st)
                  in case ho_statvfs h mnt of None \<Rightarrow> st
                     | Some v \<Rightarrow>
                         if f_blocks v = 0 then st
                         else let pct = used_percent v; ipct = inodes_percent v; fs = fz_fs st;
                                  fs = fs\<lparr>fs_count := fs_count fs + 1,
                                         fs_max_used_percent := (if f64_less (fs_max_used_percent fs) pct then pct else fs_max_used_percent fs),
                                         fs_max_inodes_used_percent := (if f64_less (fs_max_inodes_used_percent fs) ipct then ipct else fs_max_inodes_used_percent fs)\<rparr>;
                                  st = st\<lparr>fz_fs := fs\<rparr>
                              in if detailed \<and> length (fz_mounts st) < BUDYK_MAX_ENTITIES
                                 then st\<lparr>fz_mounts := fz_mounts st @ [mount_entry m mnt dev v]\<rparr> else st)"

definition fs_line :: "host \<Rightarrow> bool \<Rightarrow> u64 list \<Rightarrow> nat \<times> string \<Rightarrow> fs_scan \<Rightarrow> fs_scan" where
  "fs_line h detailed points il st =
     (case parse_mountinfo (snd il) of None \<Rightarrow> st
      | Some m \<Rightarrow>
          if fst il < length points \<and> mounted_over points (fst il) then st
          else if skipped_type (ml_type m) \<or> read_only (ml_opts m) then st else fs_mount h detailed m st)"

definition budyk_collect_fs_linux_ex :: "host \<Rightarrow> budyk_sample_c \<Rightarrow> detail option \<Rightarrow> rc \<times> budyk_sample_c \<times> detail option" where
  "budyk_collect_fs_linux_ex h s d =
     (let s = s\<lparr>sc_fs := fs_zero, sc_fs_unreadable := 0\<rparr>; d = map_option (dc_mounts_update (\<lambda>_. [])) d;
          path = proc_path h ''/self/mountinfo''
      in case ho_read h path of Inl e \<Rightarrow> (- e, s, d)
         | Inr c1 \<Rightarrow>
             case ho_reread h path of Inl e \<Rightarrow> (- e, s, d)
             | Inr c2 \<Rightarrow>
                 let st = fold (fs_line h (d \<noteq> None) (mount_points c1)) (enumerate 0 (fgets_texts 4096 c2))
                            \<lparr>fz_fs = fs_zero, fz_unreadable = 0, fz_seen = [], fz_mounts = []\<rparr>
                 in (0, s\<lparr>sc_fs := (fz_fs st)\<lparr>fs_present := True\<rparr>, sc_fs_unreadable := fz_unreadable st\<rparr>,
                     map_option (\<lambda>d. d\<lparr>dc_mounts := fz_mounts st\<rparr>) d))"

section \<open>The line of a process reads back\<close>

definition print_int :: "int \<Rightarrow> string" where
  "print_int v = (if v < 0 then CHR ''-'' # digits (nat (- v)) else digits (nat v))"

lemma strtol_print_int:
  assumes "rest = [] \<or> \<not> is_digit (hd rest)" "- (2 ^ 63) \<le> v" "v < 2 ^ 63"
  shows "strtol (CHR '' '' # print_int v @ rest) = Some (v, False, rest)"
proof (cases "v < 0")
  case False
  then have "nat v < 2 ^ 63" using assms(3) by (simp add: nat_less_iff)
  then show ?thesis using strtol_digits [OF assms(1), of "nat v"] False by (simp add: strtol_space print_int_def)
next
  case True
  define n where "n = nat (- v)"
  have v: "v = - int n" using True by (simp add: n_def)
  have sc: "takeWhile is_digit (digits n @ rest) = digits n \<and> dropWhile is_digit (digits n @ rest) = rest"
    by (rule takeWhile_digits [OF digits_all(1) assms(1)])
  have "scan_number (CHR ''-'' # digits n @ rest) = Some (True, digits n, rest)"
    unfolding scan_number_def using sc digits_all(2) [of n] by (simp add: is_space_def)
  moreover have "print_int v = CHR ''-'' # digits n" using True by (simp add: print_int_def n_def)
  ultimately show ?thesis using assms(2) unfolding strtol_space [OF is_space_blank]
    by (simp add: strtol_def nat_of_digits_digits v Let_def)
qed

definition print_ints :: "int list \<Rightarrow> string" where
  "print_ints vs = concat (map (\<lambda>v. CHR '' '' # print_int v) vs)"

lemma hd_print_ints: "rest = [] \<or> \<not> is_digit (hd rest) \<Longrightarrow> print_ints vs @ rest = [] \<or> \<not> is_digit (hd (print_ints vs @ rest))"
  by (cases vs) (simp_all add: print_ints_def is_digit_def)

lemma stat_fields_printed:
  assumes "rest = [] \<or> \<not> is_digit (hd rest)" "list_all (\<lambda>v. - (2 ^ 63) \<le> v \<and> v < 2 ^ 63) vs"
  shows "stat_fields (length vs) (print_ints vs @ rest) = Some vs"
  using assms(2)
proof (induction vs)
  case (Cons v vs)
  have eq: "print_ints (v # vs) @ rest = CHR '' '' # print_int v @ (print_ints vs @ rest)" by (simp add: print_ints_def)
  have "strtol (print_ints (v # vs) @ rest) = Some (v, False, print_ints vs @ rest)"
    unfolding eq by (rule strtol_print_int [OF hd_print_ints [OF assms(1)]]) (use Cons.prems in simp_all)
  then show ?case using Cons by (simp del: append_assoc)
qed simp

lemma print_int_chars: "c \<in> set (print_int v) \<Longrightarrow> c = CHR ''-'' \<or> is_digit c"
  using digits_all(1) by (auto simp: print_int_def list_all_iff split: if_splits)

lemma print_ints_no_paren: "CHR '')'' \<notin> set (print_ints vs)"
proof
  assume "CHR '')'' \<in> set (print_ints vs)"
  then obtain v where "CHR '')'' \<in> set (CHR '' '' # print_int v)" by (auto simp: print_ints_def split: if_splits)
  then have "CHR '')'' = CHR ''-'' \<or> is_digit (CHR '')'')" using print_int_chars [of "CHR '')''" v] by simp
  then show False by (simp add: is_digit_def)
qed

text \<open>The line the kernel prints; \<open>fs\<close> are the fields from the fourth to the twenty-fourth, \<open>rest\<close> those after.\<close>

definition proc_stat_text :: "nat \<Rightarrow> string \<Rightarrow> char \<Rightarrow> int list \<Rightarrow> string \<Rightarrow> string" where
  "proc_stat_text pid comm st fs rest = (digits pid @ '' '') @ CHR ''('' # comm @ CHR '')'' # CHR '' '' # st # print_ints fs @ rest"

lemma proc_stat_parsed:
  assumes "pid < 2 ^ 31" "st \<noteq> CHR '')''" "length fs = 21" "list_all (\<lambda>v. - (2 ^ 63) \<le> v \<and> v < 2 ^ 63) fs"
    and "CHR '')'' \<notin> set rest" "rest = [] \<or> \<not> is_digit (hd rest)" "page > 0"
  shows "budyk_linux_parse_proc_stat_ex page (proc_stat_text pid comm st fs rest) =
    Some (\<lparr>rd_pid = of_nat pid, rd_start = word_of_int (fs ! 18), rd_cpu = positive (fs ! 10) + positive (fs ! 11),
           rd_rss_bytes = (if fs ! 20 > 0 then word_of_int (fs ! 20) * word_of_int page else 0),
           rd_threads = word_of_int (fs ! 16), rd_state = st, rd_name = take 31 comm\<rparr>, word_of_int (fs ! 5))"
proof -
  let ?line = "proc_stat_text pid comm st fs rest"
  have lp: "strchr ?line (CHR ''('') = Some (digits pid @ '' '', comm @ CHR '')'' # CHR '' '' # st # print_ints fs @ rest)"
    unfolding proc_stat_text_def
  proof (rule strchr_split)
    show "CHR ''('' \<notin> set (digits pid @ '' '')" using digits_all(1) [of pid] by (auto simp: list_all_iff is_digit_def Let_def)
  qed
  have line: "?line = (digits pid @ '' ('' @ comm) @ CHR '')'' # CHR '' '' # st # print_ints fs @ rest" by (simp add: proc_stat_text_def)
  have rp: "strrchr ?line (CHR '')'') = Some (digits pid @ '' ('' @ comm, CHR '' '' # st # print_ints fs @ rest)"
    unfolding line by (rule strrchr_split) (use assms(2,5) print_ints_no_paren in auto)
  have fields: "stat_fields 21 (print_ints fs @ rest) = Some fs" using stat_fields_printed [OF assms(6,4)] assms(3) by simp
  have "pid < 2 ^ 63" using assms(1) by simp
  then have pid: "strtol ?line = Some (int pid, False, '' ('' @ comm @ CHR '')'' # CHR '' '' # st # print_ints fs @ rest)"
    using strtol_digits [of "'' ('' @ comm @ CHR '')'' # CHR '' '' # st # print_ints fs @ rest" pid] by (simp add: proc_stat_text_def is_digit_def)
  have "drop (length (digits pid @ '' '') + 1) ?line = comm @ CHR '')'' # CHR '' '' # st # print_ints fs @ rest" by (simp add: proc_stat_text_def)
  then have name: "take (if 32 \<le> length comm then 31 else length comm) (drop (length (digits pid @ '' '') + 1) ?line) = take 31 comm" by simp
  show ?thesis unfolding budyk_linux_parse_proc_stat_ex_def lp rp prod.case option.case list.case fields pid
    using name assms(7) by (simp add: Let_def)
qed

lemma proc_stat_text_no_nul: "CHR 0x00 \<notin> set (comm @ st # rest) \<Longrightarrow> CHR 0x00 \<notin> set (proc_stat_text pid comm st fs rest)"
proof -
  assume a: "CHR 0x00 \<notin> set (comm @ st # rest)"
  have "CHR 0x00 \<notin> set (print_ints fs)"
  proof
    assume "CHR 0x00 \<in> set (print_ints fs)"
    then obtain v where "CHR 0x00 \<in> set (print_int v)" by (auto simp: print_ints_def split: if_splits)
    then show False using print_int_chars [of "CHR 0x00" v] by (simp add: is_digit_def)
  qed
  then show ?thesis using a digits_no_break(2) [of pid] by (auto simp: proc_stat_text_def)
qed

text \<open>C40: What the kernel says of a process is what is read of it, whatever its name holds: blanks, parentheses, line ends, a text that looks
  like the fields after it. When \<open>/proc/<pid>/stat\<close> has a line of the kernel's form that the buffer holds, the entry of that process is read with its own pid, state, flags, threads, start,
  memory and processor time, and the first 31 characters of its name.\<close>

theorem proc_stat_roundtrip:
  assumes "ho_read h (ho_proc_root h @ ''/'' @ digits pid @ ''/stat'') = Inr (proc_stat_text pid comm st fs rest)"
    and "length (proc_stat_text pid comm st fs rest) \<le> 1023" "length (ho_proc_root h @ ''/'' @ digits pid @ ''/stat'') < 512"
    and "0 < pid" "pid < 2 ^ 31" "st \<noteq> CHR '')''" "length fs = 21" "list_all (\<lambda>v. - (2 ^ 63) \<le> v \<and> v < 2 ^ 63) fs"
    and "CHR 0x00 \<notin> set (comm @ st # rest)" "CHR '')'' \<notin> set rest" "rest = [] \<or> \<not> is_digit (hd rest)" "ho_pagesize h > 0"
  shows "proc_entry_read h (digits pid) =
    Some (\<lparr>rd_pid = of_nat pid, rd_start = word_of_int (fs ! 18), rd_cpu = positive (fs ! 10) + positive (fs ! 11),
           rd_rss_bytes = (if fs ! 20 > 0 then word_of_int (fs ! 20) * word_of_int (ho_pagesize h) else 0),
           rd_threads = word_of_int (fs ! 16), rd_state = st, rd_name = take 31 comm\<rparr>, word_of_int (fs ! 5))"
proof -
  let ?t = "proc_stat_text pid comm st fs rest"
  obtain c r where name: "digits pid = c # r" using digits_all(2) [of pid] by (cases "digits pid") auto
  have c: "is_digit c" "c \<noteq> CHR ''0''" using digits_all(1) [of pid] digits_hd [OF assms(4)] by (simp_all add: name)
  have "c_str (take 1023 ?t) = ?t"
    using proc_stat_text_no_nul [OF assms(9), of pid fs] assms(2) by (auto simp: c_str_def takeWhile_eq_all_conv)
  moreover have "?t \<noteq> []" by (simp add: proc_stat_text_def)
  ultimately have "proc_entry_read h (digits pid) = budyk_linux_parse_proc_stat_ex (ho_pagesize h) ?t"
    using assms(1,3) c unfolding proc_entry_read_def name by (simp add: Let_def)
  then show ?thesis using proc_stat_parsed [OF assms(5-8,10-12)] by simp
qed

section \<open>Every process in one state\<close>

definition states_sum :: "process_stats \<Rightarrow> u32" where
  "states_sum p = proc_running p + proc_sleeping p + proc_blocked p + proc_stopped p + proc_zombie p"

definition counted_states :: "char list" where
  "counted_states = ''RSIWPDKTtZ''"

lemma five_ways:
  "(if a then Some x1 else if b then Some x2 else if c then Some x3 else if d then Some x4 else if e then Some x5 else None) = Some y \<Longrightarrow> y \<in> {x1, x2, x3, x4, x5}"
  "((if a then Some x1 else if b then Some x2 else if c then Some x3 else if d then Some x4 else if e then Some x5 else None) = None) = (\<not> (a \<or> b \<or> c \<or> d \<or> e))"
  by (auto split: if_splits)

lemma proc_counted_sum:
  "proc_counted st p = Some p' \<Longrightarrow> states_sum p' = states_sum p + 1 \<and> proc_total p' = proc_total p \<and> proc_threads p' = proc_threads p"
  "(proc_counted st p = None) = (st \<notin> set counted_states)"
proof -
  assume "proc_counted st p = Some p'"
  from five_ways(1) [OF this [unfolded proc_counted_def]]
  show "states_sum p' = states_sum p + 1 \<and> proc_total p' = proc_total p \<and> proc_threads p' = proc_threads p" by (auto simp: states_sum_def)
next
  show "(proc_counted st p = None) = (st \<notin> set counted_states)"
    unfolding proc_counted_def five_ways(2) counted_states_def insert_iff empty_iff list.set simp_thms disj_assoc by (rule TrueI)
qed

definition counted_procs :: "host \<Rightarrow> string list \<Rightarrow> budyk_proc_read_c list" where
  "counted_procs h names = filter (\<lambda>r. rd_state r \<in> set counted_states) (map fst (List.map_filter (proc_entry_read h) names))"

lemma proc_read_fold:
  "states_sum (fst (fold (proc_read h) names st)) = states_sum (fst st) + of_nat (length (counted_procs h names)) \<and>
   proc_total (fst (fold (proc_read h) names st)) = proc_total (fst st) + of_nat (length (counted_procs h names)) \<and>
   proc_threads (fst (fold (proc_read h) names st)) = proc_threads (fst st) + sum_list (map rd_threads (counted_procs h names))"
proof (induction names arbitrary: st)
  case (Cons n ns)
  show ?case
  proof (cases "proc_entry_read h n")
    case None
    then have "proc_read h n st = st" "counted_procs h (n # ns) = counted_procs h ns" by (simp_all add: proc_read_def counted_procs_def map_filter_simps)
    then show ?thesis using Cons [of st] by simp
  next
    case (Some rf)
    show ?thesis
    proof (cases "proc_counted (rd_state (fst rf)) (fst st)")
      case None
      then have "rd_state (fst rf) \<notin> set counted_states" using proc_counted_sum(2) by blast
      then have "proc_read h n st = st" "counted_procs h (n # ns) = counted_procs h ns"
        using Some None by (cases rf; simp add: proc_read_def counted_procs_def map_filter_simps)+
      then show ?thesis using Cons [of st] by simp
    next
      case c: (Some p)
      then have "rd_state (fst rf) \<in> set counted_states" using proc_counted_sum(2) [of "rd_state (fst rf)" "fst st"] by auto
      then have cp: "counted_procs h (n # ns) = fst rf # counted_procs h ns" using Some by (simp add: counted_procs_def map_filter_simps)
      have s: "states_sum (fst (proc_read h n st)) = states_sum (fst st) + 1 \<and> proc_total (fst (proc_read h n st)) = proc_total (fst st) + 1 \<and>
          proc_threads (fst (proc_read h n st)) = proc_threads (fst st) + rd_threads (fst rf)"
        using proc_counted_sum(1) [OF c] Some c by (cases rf) (simp add: proc_read_def states_sum_def)
      show ?thesis unfolding cp fold_simps using Cons [of "proc_read h n st"] s by (simp add: add.assoc)
    qed
  qed
qed (simp add: counted_procs_def map_filter_simps)

lemma collect_proc_counts:
  assumes "ho_list h (ho_proc_root h) = Inr names" "budyk_collect_proc_linux_ex qp qt h s d = (rc, s', d')"
  shows "proc_total (sc_proc s') = of_nat (length (counted_procs h names)) \<and> states_sum (sc_proc s') = proc_total (sc_proc s') \<and>
    proc_threads (sc_proc s') = sum_list (map rd_threads (counted_procs h names))"
proof -
  define start where "start = (proc_zero, map_option (\<lambda>d. budyk_procs_begin (sc_timestamp_nanos s) (dc_tracker d)) d)"
  have "states_sum (fst start) = 0" "proc_total (fst start) = 0" "proc_threads (fst start) = 0" by (simp_all add: start_def proc_zero_def states_sum_def)
  moreover have "sc_proc s' = fst (fold (proc_read h) names start)"
    using assms(2) by (auto simp: budyk_collect_proc_linux_ex_def Let_def assms(1) start_def split: prod.splits)
  ultimately show ?thesis using proc_read_fold [of h names start] by simp
qed

section \<open>Mount points\<close>

text \<open>What the kernel writes for a name: the characters of \<open>esc\<close>, the backslash among them, as a backslash and three octal digits.\<close>

definition escape_char :: "char list \<Rightarrow> char \<Rightarrow> string" where
  "escape_char esc c =
     (if c \<in> set esc then let n = of_char c :: nat in [CHR 0x5C, char_of (48 + n div 64), char_of (48 + n div 8 mod 8), char_of (48 + n mod 8)] else [c])"

definition escape_mount :: "char list \<Rightarrow> string \<Rightarrow> string" where
  "escape_mount esc s = concat (map (escape_char esc) s)"

lemma octal_char: "n \<le> k \<Longrightarrow> k \<le> 7 \<Longrightarrow> is_octal k (char_of (48 + n)) \<and> octal (char_of (48 + n)) = n"
  by (simp add: is_octal_def octal_def Let_def of_char_of)

lemma unescape_plain: "c \<noteq> CHR 0x5C \<Longrightarrow> budyk_linux_unescape_mount (c # s) = c # budyk_linux_unescape_mount s"
  by (cases "c # s" rule: budyk_linux_unescape_mount.cases) auto

lemma octal_split: "n div 64 * 64 + n div 8 mod 8 * 8 + n mod 8 = (n :: nat)"
proof -
  have "n div 64 = n div 8 div 8" by (simp add: div_mult2_eq [of n 8 8, simplified])
  then have "n div 64 * 8 + n div 8 mod 8 = n div 8" by simp
  then have "(n div 64 * 8 + n div 8 mod 8) * 8 + n mod 8 = n" by simp
  then show ?thesis by (simp add: add_mult_distrib)
qed

lemma unescape_escaped:
  fixes n :: nat
  assumes "n = of_char c"
  shows "budyk_linux_unescape_mount (CHR 0x5C # char_of (48 + n div 64) # char_of (48 + n div 8 mod 8) # char_of (48 + n mod 8) # s) = c # budyk_linux_unescape_mount s"
proof -
  have "n < 256" using assms by simp
  then have o: "is_octal 3 (char_of (48 + n div 64)) \<and> octal (char_of (48 + n div 64)) = n div 64"
    "is_octal 7 (char_of (48 + n div 8 mod 8)) \<and> octal (char_of (48 + n div 8 mod 8)) = n div 8 mod 8"
    "is_octal 7 (char_of (48 + n mod 8)) \<and> octal (char_of (48 + n mod 8)) = n mod 8"
    by (intro octal_char; simp)+
  have "char_of n = c" using assms by simp
  then show ?thesis using o by (simp add: octal_split)
qed

lemma unescape_mount_escaped: "CHR 0x5C \<in> set esc \<Longrightarrow> budyk_linux_unescape_mount (escape_mount esc s) = s"
proof (induction s)
  case (Cons c s)
  show ?case
  proof (cases "c \<in> set esc")
    case True
    define n :: nat where "n = of_char c"
    have "escape_mount esc (c # s) = CHR 0x5C # char_of (48 + n div 64) # char_of (48 + n div 8 mod 8) # char_of (48 + n mod 8) # escape_mount esc s"
      using True by (simp add: escape_mount_def escape_char_def n_def Let_def)
    then show ?thesis using Cons by (simp only: unescape_escaped [OF n_def])
  next
    case False
    then have "c \<noteq> CHR 0x5C" using Cons.prems by blast
    then show ?thesis using Cons False by (simp add: escape_mount_def escape_char_def unescape_plain)
  qed
qed (simp add: escape_mount_def)

text \<open>A word of the line: no blank in it.\<close>

definition word_ok :: "nat \<Rightarrow> string \<Rightarrow> bool" where
  "word_ok n w = (w \<noteq> [] \<and> list_all (\<lambda>c. \<not> is_space c) w \<and> length w \<le> n)"

lemma strstr_char: "c \<noteq> CHR '' '' \<Longrightarrow> strstr (c # s) '' - '' = map_option (\<lambda>(b, a). (c # b, a)) (strstr s '' - '')"
  by (simp add: starts_with_def)

lemma strstr_word: "CHR '' '' \<notin> set w \<Longrightarrow> strstr (w @ s) '' - '' = map_option (\<lambda>(b, a). (w @ b, a)) (strstr s '' - '')"
proof (induction w)
  case Nil
  then show ?case by (simp add: option.map_ident case_prod_beta' del: strstr.simps)
next
  case (Cons c w)
  then have c: "c \<noteq> CHR '' ''" and w: "CHR '' '' \<notin> set w" by auto
  show ?case unfolding append_Cons strstr_char [OF c] Cons.IH [OF w] by (simp add: option.map_comp comp_def case_prod_beta' del: strstr.simps)
qed

lemma strstr_blank_word:
  assumes "CHR '' '' \<notin> set w" "w \<noteq> ''-''" "s \<noteq> []" "hd s = CHR '' ''"
  shows "strstr (CHR '' '' # w @ s) '' - '' = map_option (\<lambda>(b, a). (CHR '' '' # w @ b, a)) (strstr s '' - '')"
proof -
  obtain s' where s: "s = CHR '' '' # s'" using assms(3,4) by (cases s) auto
  have "\<not> starts_with '' - '' (CHR '' '' # w @ s)"
  proof (cases w)
    case Nil
    then show ?thesis by (simp add: starts_with_def s)
  next
    case (Cons c v)
    show ?thesis
    proof (cases v)
      case Nil
      then show ?thesis using assms(2) Cons by (simp add: starts_with_def s)
    next
      case (Cons d u)
      then have "d \<noteq> CHR '' ''" using assms(1) \<open>w = c # v\<close> by auto
      then show ?thesis using Cons \<open>w = c # v\<close> by (simp add: starts_with_def)
    qed
  qed
  then have "strstr (CHR '' '' # w @ s) '' - '' = map_option (\<lambda>(b, a). (CHR '' '' # b, a)) (strstr (w @ s) '' - '')" by simp
  then show ?thesis using strstr_word [OF assms(1), of s] by (simp add: option.map_comp comp_def case_prod_beta' del: strstr.simps)
qed

definition spaced_words :: "string list \<Rightarrow> string" where
  "spaced_words ws = concat (map (\<lambda>w. CHR '' '' # w) ws)"

lemma strstr_dash:
  assumes "list_all (\<lambda>w. CHR '' '' \<notin> set w \<and> w \<noteq> ''-'') ws"
  shows "strstr (spaced_words ws @ '' - '' @ s) '' - '' = Some (spaced_words ws, '' - '' @ s)"
  using assms
proof (induction ws)
  case Nil
  then show ?case by (simp add: spaced_words_def starts_with_def)
next
  case (Cons w ws)
  have eq: "spaced_words (w # ws) @ '' - '' @ s = CHR '' '' # w @ (spaced_words ws @ '' - '' @ s)" by (simp add: spaced_words_def)
  have "spaced_words ws @ '' - '' @ s \<noteq> [] \<and> hd (spaced_words ws @ '' - '' @ s) = CHR '' ''" by (cases ws) (simp_all add: spaced_words_def)
  then show ?case unfolding eq using Cons by (subst strstr_blank_word) (simp_all add: spaced_words_def del: strstr.simps)
qed

lemma skip_words_spaced:
  "list_all (word_ok n) ws \<Longrightarrow> rest = [] \<or> is_space (hd rest) \<Longrightarrow> skip_words (length ws) (spaced_words ws @ rest) = Some rest"
proof (induction ws)
  case (Cons w ws)
  have r: "spaced_words ws @ rest = [] \<or> is_space (hd (spaced_words ws @ rest))" using Cons.prems by (cases ws) (simp_all add: spaced_words_def)
  have w: "w \<noteq> []" "list_all (\<lambda>c. \<not> is_space c) w" using Cons.prems by (simp_all add: word_ok_def)
  have d1: "dropWhile is_space (w @ spaced_words ws @ rest) = w @ spaced_words ws @ rest" using w by (cases w) simp_all
  have d2: "dropWhile (\<lambda>c. \<not> is_space c) (w @ spaced_words ws @ rest) = spaced_words ws @ rest"
    using w(2) r by (induction w) (auto, cases "spaced_words ws @ rest", auto)
  have "spaced_words (w # ws) @ rest = CHR '' '' # w @ spaced_words ws @ rest" by (simp add: spaced_words_def)
  then show ?case using Cons w d1 d2 by (simp add: Let_def)
qed (simp add: spaced_words_def)

lemma scan_spaced:
  assumes "word_ok n w" "rest = [] \<or> is_space (hd rest)"
  shows "scan_word n (CHR '' '' # w @ rest) = Some (w, rest)"
  using assms by (simp add: scan_word_space scan_word_printed word_ok_def)

lemma word_no_blank: "word_ok n w \<Longrightarrow> CHR '' '' \<notin> set w"
  by (auto simp: word_ok_def list_all_iff)

text \<open>A line of \<open>mountinfo\<close>: four words, the mount point, options and tags, the dash, the type, the source and the options of the filesystem.\<close>

definition mountinfo_text :: "string list \<Rightarrow> string \<Rightarrow> string list \<Rightarrow> string \<Rightarrow> string \<Rightarrow> string \<Rightarrow> string" where
  "mountinfo_text ids mnt tags typ dev opts = spaced_words (ids @ mnt # tags) @ '' - '' @ typ @ spaced_words [dev, opts] @ [CHR 0x0A]"

lemma mountinfo_parses:
  assumes "length ids = 4" "list_all (word_ok 1023) (ids @ mnt # tags)" "list_all (\<lambda>w. w \<noteq> ''-'') (ids @ mnt # tags)"
    and "word_ok 63 typ" "word_ok 1023 dev" "word_ok 1023 opts"
  shows "parse_mountinfo (mountinfo_text ids mnt tags typ dev opts) = Some \<lparr>ml_mnt = mnt, ml_type = typ, ml_dev = dev, ml_opts = opts\<rparr>"
proof -
  have "list_all (\<lambda>w. CHR '' '' \<notin> set w \<and> w \<noteq> ''-'') (ids @ mnt # tags)"
    using assms(2,3) word_no_blank unfolding list_all_iff by blast
  from strstr_dash [OF this, of "typ @ spaced_words [dev, opts] @ [CHR 0x0A]"]
  have dash: "strstr (mountinfo_text ids mnt tags typ dev opts) '' - '' = Some (spaced_words (ids @ mnt # tags), '' - '' @ typ @ spaced_words [dev, opts] @ [CHR 0x0A])"
    by (simp only: mountinfo_text_def)
  have b: "spaced_words (ids @ mnt # tags) = spaced_words ids @ spaced_words (mnt # tags)" by (simp add: spaced_words_def)
  have skip: "skip_words 4 (spaced_words (ids @ mnt # tags)) = Some (spaced_words (mnt # tags))"
    unfolding b assms(1) [symmetric] by (rule skip_words_spaced [of 1023]) (use assms(2) in \<open>simp_all add: spaced_words_def\<close>)
  have mnt: "scan_word 1023 (spaced_words (mnt # tags)) = Some (mnt, spaced_words tags)"
    using scan_spaced [of 1023 mnt "spaced_words tags"] assms(2) by (cases tags) (simp_all add: spaced_words_def)
  have ty: "scan_word 63 (typ @ spaced_words [dev, opts] @ [CHR 0x0A]) = Some (typ, spaced_words [dev, opts] @ [CHR 0x0A])"
    using assms(4) by (intro scan_word_printed) (simp_all add: word_ok_def spaced_words_def)
  have dev: "scan_word 1023 (spaced_words [dev, opts] @ [CHR 0x0A]) = Some (dev, spaced_words [opts] @ [CHR 0x0A])"
    using scan_spaced [OF assms(5), of "spaced_words [opts] @ [CHR 0x0A]"] by (simp add: spaced_words_def)
  have opts: "scan_word 1023 (spaced_words [opts] @ [CHR 0x0A]) = Some (opts, [CHR 0x0A])"
    using scan_spaced [OF assms(6), of "[CHR 0x0A]"] by (simp add: spaced_words_def is_space_def)
  have drop3: "drop 3 ('' - '' @ x) = x" for x by simp
  show ?thesis unfolding parse_mountinfo_def dash option.case prod.case skip mnt drop3 ty dev opts ..
qed

text \<open>The line of a mount reads back: for a mount point and a source of any characters, blanks, backslashes and line ends included, written with
  the kernel's escapes, the collector asks the system about exactly that mount point, and reports exactly that type and source.\<close>

theorem mountinfo_roundtrip:
  assumes "CHR 0x5C \<in> set esc" "length ids = 4" "list_all (word_ok 1023) (ids @ escape_mount esc mnt # tags)"
    and "list_all (\<lambda>w. w \<noteq> ''-'') (ids @ escape_mount esc mnt # tags)"
    and "word_ok 63 typ" "word_ok 1023 (escape_mount esc dev)" "word_ok 1023 opts"
  shows "\<exists>m. parse_mountinfo (mountinfo_text ids (escape_mount esc mnt) tags typ (escape_mount esc dev) opts) = Some m \<and>
    budyk_linux_unescape_mount (ml_mnt m) = mnt \<and> budyk_linux_unescape_mount (ml_dev m) = dev \<and> ml_type m = typ \<and> ml_opts m = opts"
  using mountinfo_parses [OF assms(2-7)] unescape_mount_escaped [OF assms(1)] by simp

section \<open>Each filesystem once\<close>

text \<open>The mounts that are worth watching, of a list of lines with their numbers: not hidden under another, not of a type to skip, not read only.\<close>

definition watched :: "u64 list \<Rightarrow> nat \<times> string \<Rightarrow> mount_line option" where
  "watched points il =
     (case parse_mountinfo (snd il) of None \<Rightarrow> None
      | Some m \<Rightarrow> if fst il < length points \<and> mounted_over points (fst il) \<or> skipped_type (ml_type m) \<or> read_only (ml_opts m) then None else Some m)"

definition mount_path :: "mount_line \<Rightarrow> string" where
  "mount_path m = c_str (budyk_linux_unescape_mount (ml_mnt m))"

definition device_of :: "host \<Rightarrow> mount_line \<Rightarrow> u64 option" where
  "device_of h m = (case ho_dev h (mount_path m) of Inl e \<Rightarrow> None | Inr dev \<Rightarrow> Some dev)"

definition devices :: "host \<Rightarrow> u64 list \<Rightarrow> (nat \<times> string) list \<Rightarrow> u64 list" where
  "devices h points ils = List.map_filter (device_of h) (List.map_filter (watched points) ils)"

text \<open>A list without repetitions, each entry where it first stands.\<close>

definition add_new :: "'a \<Rightarrow> 'a list \<Rightarrow> 'a list" where
  "add_new x xs = (if x \<in> set xs then xs else xs @ [x])"

lemma add_new_fold: "set (fold add_new ys xs) = set xs \<union> set ys \<and> (distinct xs \<longrightarrow> distinct (fold add_new ys xs))"
  by (induction ys arbitrary: xs) (auto simp: add_new_def)

lemma add_new_grows: "\<exists>zs. fold add_new ys xs = xs @ zs"
proof (induction ys arbitrary: xs)
  case (Cons y ys)
  obtain zs where "fold add_new ys (add_new y xs) = add_new y xs @ zs" using Cons by blast
  moreover obtain us where "add_new y xs = xs @ us" by (cases "y \<in> set xs") (simp_all add: add_new_def)
  ultimately show ?case by simp
qed simp

definition with_blocks :: "(u64 \<Rightarrow> statvfs_c option) \<Rightarrow> u64 \<Rightarrow> statvfs_c option" where
  "with_blocks sv dev = (case sv dev of None \<Rightarrow> None | Some v \<Rightarrow> if f_blocks v = 0 then None else Some v)"

definition f64_larger :: "f64 \<Rightarrow> f64 \<Rightarrow> f64" where
  "f64_larger x y = (if f64_less y x then x else y)"

text \<open>What the numbers of a list of filesystems come to.\<close>

definition fs_summary :: "statvfs_c list \<Rightarrow> fs_stats" where
  "fs_summary vs = \<lparr>fs_count = of_nat (length vs), fs_max_used_percent = fold (\<lambda>v. f64_larger (used_percent v)) vs 0,
     fs_max_inodes_used_percent = fold (\<lambda>v. f64_larger (inodes_percent v)) vs 0, fs_present = False\<rparr>"

lemma fs_mount_seen:
  assumes "\<forall>path dev. ho_dev h path = Inr dev \<longrightarrow> ho_statvfs h path = sv dev" "length (fz_seen st) < 256"
    and "fz_fs st = fs_summary (List.map_filter (with_blocks sv) (fz_seen st))"
  shows "fz_seen (fs_mount h b m st) = (case device_of h m of None \<Rightarrow> fz_seen st | Some dev \<Rightarrow> add_new dev (fz_seen st)) \<and>
    fz_fs (fs_mount h b m st) = fs_summary (List.map_filter (with_blocks sv) (fz_seen (fs_mount h b m st)))"
proof (cases "ho_dev h (mount_path m)")
  case (Inl e)
  then show ?thesis using assms(3) by (simp add: fs_mount_def device_of_def mount_path_def [symmetric] Let_def)
next
  case (Inr dev)
  then have dev: "device_of h m = Some dev" and sv: "ho_statvfs h (mount_path m) = sv dev" using assms(1) by (simp_all add: device_of_def)
  show ?thesis
  proof (cases "dev \<in> set (fz_seen st)")
    case True
    then show ?thesis using assms(3) Inr by (simp add: fs_mount_def dev add_new_def mount_path_def [symmetric] Let_def)
  next
    case new: False
    have mf: "List.map_filter (with_blocks sv) (fz_seen st @ [dev]) = List.map_filter (with_blocks sv) (fz_seen st) @ (case with_blocks sv dev of None \<Rightarrow> [] | Some v \<Rightarrow> [v])"
      by (simp add: map_filter_def split: option.split)
    have seen: "fz_seen (fs_mount h b m st) = fz_seen st @ [dev]"
      using new assms(2) Inr by (auto simp: fs_mount_def mount_path_def [symmetric] Let_def sv split: option.split)
    have "fz_fs (fs_mount h b m st) = fs_summary (List.map_filter (with_blocks sv) (fz_seen st) @ (case with_blocks sv dev of None \<Rightarrow> [] | Some v \<Rightarrow> [v]))"
      using new assms(2,3) Inr by (auto simp: fs_mount_def mount_path_def [symmetric] Let_def sv with_blocks_def fs_summary_def f64_larger_def split: option.split)
    then show ?thesis unfolding seen mf dev using new by (simp add: add_new_def)
  qed
qed

lemma fs_lines_seen:
  assumes "\<forall>path dev. ho_dev h path = Inr dev \<longrightarrow> ho_statvfs h path = sv dev"
  shows "length (fold add_new (devices h points ils) (fz_seen st)) < 256 \<Longrightarrow> fz_fs st = fs_summary (List.map_filter (with_blocks sv) (fz_seen st)) \<Longrightarrow>
    fz_fs (fold (fs_line h b points) ils st) = fs_summary (List.map_filter (with_blocks sv) (fold add_new (devices h points ils) (fz_seen st)))"
proof (induction ils arbitrary: st)
  case Nil
  then show ?case by (simp add: devices_def map_filter_simps)
next
  case (Cons il ils)
  show ?case
  proof (cases "watched points il")
    case None
    then have "fs_line h b points il st = st" "devices h points (il # ils) = devices h points ils"
      by (auto simp: watched_def fs_line_def devices_def map_filter_simps split: option.splits if_splits)
    then show ?thesis using Cons by simp
  next
    case (Some m)
    then have line: "fs_line h b points il st = fs_mount h b m st"
      by (auto simp: watched_def fs_line_def split: option.splits if_splits)
    have devs: "devices h points (il # ils) = (case device_of h m of None \<Rightarrow> [] | Some dev \<Rightarrow> [dev]) @ devices h points ils"
      using Some by (simp add: devices_def map_filter_simps split: option.split)
    obtain zs where "fold add_new (devices h points (il # ils)) (fz_seen st) = fz_seen st @ zs" using add_new_grows by blast
    then have lt: "length (fz_seen st) < 256" using Cons.prems(1) by simp
    note m = fs_mount_seen [OF assms lt Cons.prems(2), of b m]
    have eq: "fold add_new (devices h points ils) (fz_seen (fs_mount h b m st)) = fold add_new (devices h points (il # ils)) (fz_seen st)"
      unfolding devs using m by (cases "device_of h m") simp_all
    have "length (fold add_new (devices h points ils) (fz_seen (fs_mount h b m st))) < 256" unfolding eq by (rule Cons.prems(1))
    from Cons.IH [OF this m [THEN conjunct2]] show ?thesis unfolding eq fold_simps line .
  qed
qed

text \<open>Each filesystem once, and none left out. For a table of mounts in which every mount of a device tells the same, and fewer than 256 devices: the filesystems
  counted are those of the devices of all mounts that are reachable, not hidden under another, local and writable, each device once however
  often it is mounted; and the percentages reported are those of the fullest of them.\<close>

theorem filesystems_counted:
  fixes h :: host
  assumes "ho_read h (proc_path h ''/self/mountinfo'') = Inr c1" "ho_reread h (proc_path h ''/self/mountinfo'') = Inr c2"
    and "\<forall>path dev. ho_dev h path = Inr dev \<longrightarrow> ho_statvfs h path = sv dev"
    and "card (set (devices h (mount_points c1) (enumerate 0 (fgets_texts 4096 c2)))) < 256"
    and "budyk_collect_fs_linux_ex h s d = (rc, s', d')"
  shows "\<exists>devs. distinct devs \<and> set devs = set (devices h (mount_points c1) (enumerate 0 (fgets_texts 4096 c2))) \<and>
    rc = 0 \<and> sc_fs s' = (fs_summary (List.map_filter (with_blocks sv) devs))\<lparr>fs_present := True\<rparr>"
proof -
  define ds where "ds = devices h (mount_points c1) (enumerate 0 (fgets_texts 4096 c2))"
  define devs where "devs = fold add_new ds []"
  have devs: "distinct devs" "set devs = set ds" using add_new_fold [of ds "[]"] by (simp_all add: devs_def)
  have "length devs < 256" using assms(4) distinct_card [OF devs(1)] by (simp add: devs(2) ds_def)
  define start where "start = \<lparr>fz_fs = fs_zero, fz_unreadable = 0, fz_seen = [], fz_mounts = []\<rparr>"
  have st: "fz_seen start = []" "fz_fs start = fs_summary (List.map_filter (with_blocks sv) (fz_seen start))"
    by (simp_all add: start_def fs_summary_def fs_zero_def map_filter_simps)
  have "fz_fs (fold (fs_line h b (mount_points c1)) (enumerate 0 (fgets_texts 4096 c2)) start) = fs_summary (List.map_filter (with_blocks sv) devs)" for b
    using fs_lines_seen [OF assms(3) _ st(2), of "mount_points c1" "enumerate 0 (fgets_texts 4096 c2)" b] \<open>length devs < 256\<close> by (simp add: st(1) devs_def ds_def)
  then have "rc = 0 \<and> sc_fs s' = (fs_summary (List.map_filter (with_blocks sv) devs))\<lparr>fs_present := True\<rparr>"
    using assms(5) by (auto simp: budyk_collect_fs_linux_ex_def Let_def assms(1,2) start_def)
  then show ?thesis using devs by (auto simp: ds_def)
qed

section \<open>Witnesses\<close>

definition demo_fields :: "int list" where
  "demo_fields = [1, 1, 1, 0, - 1, 4194560, 0, 0, 0, 0, 30, 12, 0, 0, 20, 0, 3, 0, 777, 0, 25]"

definition demo_stat :: string where
  "demo_stat = proc_stat_text 42 '') R 1 (x'' (CHR ''S'') demo_fields [CHR 0x0A]"

theorem proc_stat_roundtrip_witness:
  "map_option (\<lambda>(r, flags). (rd_pid r, rd_state r, rd_threads r, rd_name r)) (proc_entry_read (plain_host demo_stat) (digits 42)) = Some (42, CHR ''S'', 3, '') R 1 (x'')"
proof -
  have len: "length demo_stat \<le> 1023" "length (''/proc/'' @ digits 42 @ ''/stat'') < 512"
    by (simp_all add: demo_stat_def proc_stat_text_def print_ints_def print_int_def demo_fields_def digits.simps)
  show ?thesis
    using proc_stat_roundtrip [of "plain_host demo_stat" 42 "'') R 1 (x''" "CHR ''S''" demo_fields "[CHR 0x0A]"] len
    by (simp add: demo_fields_def is_digit_def demo_stat_def plain_host_def)
qed

definition demo_escapes :: "char list" where
  "demo_escapes = [CHR '' '', CHR 0x09, CHR 0x0A, CHR 0x5C, CHR ''#'']"

lemma demo_escaped: "escape_mount demo_escapes ''/a b'' = ''/a'' @ [CHR 0x5C] @ ''040b''" "escape_mount demo_escapes ''/dev/x'' = ''/dev/x''"
  by code_simp+

theorem mountinfo_roundtrip_witness:
  "\<exists>m. parse_mountinfo (mountinfo_text [''36'', ''35'', ''98:0'', ''/''] (escape_mount demo_escapes ''/a b'') [''rw''] ''ext4'' (escape_mount demo_escapes ''/dev/x'') ''rw'') = Some m \<and>
    budyk_linux_unescape_mount (ml_mnt m) = ''/a b''"
proof -
  have esc: "CHR 0x5C \<in> set demo_escapes" by (simp add: demo_escapes_def)
  have "\<exists>m. parse_mountinfo (mountinfo_text [''36'', ''35'', ''98:0'', ''/''] (escape_mount demo_escapes ''/a b'') [''rw''] ''ext4'' (escape_mount demo_escapes ''/dev/x'') ''rw'') = Some m \<and>
      budyk_linux_unescape_mount (ml_mnt m) = ''/a b'' \<and> budyk_linux_unescape_mount (ml_dev m) = ''/dev/x'' \<and> ml_type m = ''ext4'' \<and> ml_opts m = ''rw''"
    by (rule mountinfo_roundtrip [OF esc]) (simp_all add: demo_escaped word_ok_def is_space_def)
  then show ?thesis by blast
qed

definition demo_fs_host :: host where
  "demo_fs_host = plain_host (mountinfo_text [''36'', ''35'', ''98:0'', ''/''] ''/mnt'' [''rw''] ''ext4'' ''/dev/x'' ''rw'')"

theorem filesystems_counted_witness:
  "\<exists>devs s'. distinct devs \<and> sc_fs s' = (fs_summary (List.map_filter (with_blocks (\<lambda>_. None)) devs))\<lparr>fs_present := True\<rparr> \<and>
    fst (snd (budyk_collect_fs_linux_ex demo_fs_host (plain_sample 1) None)) = s'"
proof -
  define c where "c = mountinfo_text [''36'', ''35'', ''98:0'', ''/''] ''/mnt'' [''rw''] ''ext4'' ''/dev/x'' ''rw''"
  obtain rc s' d' where r: "budyk_collect_fs_linux_ex demo_fs_host (plain_sample 1) None = (rc, s', d')" by (rule prod_cases3)
  have "set (devices demo_fs_host points ils) \<subseteq> {1}" for points ils
    by (auto simp: devices_def device_of_def demo_fs_host_def plain_host_def map_filter_def)
  then have "card (set (devices demo_fs_host (mount_points c) (enumerate 0 (fgets_texts 4096 c)))) \<le> card {1 :: u64}" by (intro card_mono) simp_all
  then have small: "card (set (devices demo_fs_host (mount_points c) (enumerate 0 (fgets_texts 4096 c)))) < 256" by simp
  have "ho_read demo_fs_host p = Inr c" "ho_reread demo_fs_host p = Inr c" "ho_statvfs demo_fs_host p = None" for p
    by (simp_all add: demo_fs_host_def plain_host_def c_def)
  from filesystems_counted [OF this(1) this(2) _ small r, of "\<lambda>_. None"] this(3) show ?thesis unfolding r by auto
qed

end
