(* ===== verification/Collect.thy ===== *)
theory Collect
  imports Linux_System Linux_Proc
begin

text \<open>
  One collection (\<open>src/daemon/collect.cpp\<close>, \<open>collect.h\<close>), on Linux: the collectors a metric set asks for, run in order into one sample, the
  messages when a collector starts failing or a list is cut short, and which groups and lists the tick then has. The arrays of the
  detail with their counts are lists. The messages of \<open>stderr\<close> are collected.
  Proved, for any texts the kernel gives and any failures: a group that is not in the sample is all zeros, a list that is not collected is empty, and
  a rate is reported exactly when it was read on this tick and on the one before and the two clocks agree on the time between.
\<close>

section \<open>State\<close>

definition kCutDiskTotals :: u32 where "kCutDiskTotals = push_bit 16 1"
definition kCutNetTotals :: u32 where "kCutNetTotals = push_bit 17 1"

record collect_context =
  cc_cpu :: budyk_cpu_ctx_c
  cc_disk :: budyk_disk_ctx_c
  cc_net :: budyk_net_ctx_c
  cc_netstat :: budyk_netstat_ctx_c
  cc_detail :: detail
  cc_last_groups :: u32
  cc_last_detail :: u32
  cc_failed :: u32
  cc_last_wall_ns :: u64
  cc_last_mono_ns :: u64
  cc_mono_now_ns :: u64
  cc_fs_unreadable :: u32
  cc_cut :: u32

definition tracker_zero :: tracker where
  "tracker_zero = \<lparr>tk_prev = [], tk_next = [], tk_prev_ns = 0, tk_now_ns = 0, tk_top_cpu = [], tk_top_rss = [], tk_procs = []\<rparr>"

definition detail_zero :: detail where
  "detail_zero = \<lparr>dc_collected = 0, dc_baseline = 0, dc_cores = [], dc_disks = [], dc_ifaces = [], dc_mounts = [], dc_core_prev = (\<lambda>_. None),
     dc_disk_prev = [], dc_disk_prev_ns = 0, dc_iface_prev = [], dc_iface_prev_ns = 0, dc_tracker = tracker_zero\<rparr>"

definition context_zero :: collect_context where
  "context_zero = \<lparr>cc_cpu = \<lparr>cx_busy = 0, cx_total = 0, cx_part = replicate 6 0, cx_has_prev = False\<rparr>,
     cc_disk = \<lparr>dx_dev = [], dx_prev_ns = 0, dx_has_prev = False\<rparr>, cc_net = \<lparr>nx_dev = [], nx_prev_ns = 0, nx_has_prev = False\<rparr>,
     cc_netstat = \<lparr>nc_tcp = replicate 7 0, nc_udp = replicate 4 0, nc_icmp = replicate 4 0, nc_prev_ns = 0, nc_has_prev = False\<rparr>, cc_detail = detail_zero,
     cc_last_groups = 0, cc_last_detail = 0, cc_failed = 0, cc_last_wall_ns = 0, cc_last_mono_ns = 0, cc_mono_now_ns = 0, cc_fs_unreadable = 0, cc_cut = 0\<rparr>"

text \<open>The surroundings of a tick: the host, and the library's \<open>strerror\<close> and \<open>qsort\<close>.\<close>

record collect_env =
  ce_host :: host
  ce_strerror :: "int \<Rightarrow> string"
  ce_qsort_prev :: "budyk_proc_prev_c list \<Rightarrow> budyk_proc_prev_c list"
  ce_qsort_top :: "budyk_process_c list \<Rightarrow> budyk_process_c list"

record tick_state =
  ti_c :: budyk_sample_c
  ti_ctx :: collect_context
  ti_d :: detail
  ti_failed :: u32
  ti_log :: "string list"

section \<open>The collectors\<close>

abbreviation kNetstat :: u32 where "kNetstat \<equiv> kGroupTcp OR kGroupUdp OR kGroupIcmp"

definition has_bits :: "u32 \<Rightarrow> u32 \<Rightarrow> bool" where
  "has_bits m b = (m AND b \<noteq> 0)"

definition wanted :: "metric_set \<Rightarrow> u32" where
  "wanted ms =
     (let ask = ms_detail ms AND kDetailAll;
          want = ms_groups ms OR kGroupsMinimal;
          want = (if has_bits ask kDetailDisks then want OR kGroupDisk else want);
          want = (if has_bits ask kDetailInterfaces then want OR kGroupNet else want);
          want = (if has_bits ask kDetailMounts then want OR kGroupFs else want);
          want = (if has_bits ask kDetailProcesses then want OR kGroupProc else want)
      in if has_bits want kNetstat then want OR kNetstat else want)"

definition group_text :: "u32 \<Rightarrow> string" where
  "group_text b = (case metric_group_name b of None \<Rightarrow> [] | Some n \<Rightarrow> n)"

definition run :: "collect_env \<Rightarrow> u32 \<Rightarrow> rc \<Rightarrow> tick_state \<Rightarrow> tick_state" where
  "run e groups rc t =
     (if rc \<ge> 0 then t
      else t\<lparr>ti_log := ti_log t @ (if has_bits (cc_failed (ti_ctx t)) groups then []
                else [''budyk: collecting '' @ group_text (groups AND (0 - groups)) @ '' failed: '' @ ce_strerror e (- rc) @ ''; left out until it reads again'' @ [CHR 0x0A]]),
             ti_failed := ti_failed t OR groups\<rparr>)"

text \<open>\<open>list(bit)\<close>: the detail, when the list is asked for.\<close>

definition list_arg :: "u32 \<Rightarrow> u32 \<Rightarrow> tick_state \<Rightarrow> detail option" where
  "list_arg ask b t = (if has_bits ask b then Some (ti_d t) else None)"

definition or_kept :: "detail option \<Rightarrow> tick_state \<Rightarrow> detail" where
  "or_kept d t = (case d of None \<Rightarrow> ti_d t | Some d \<Rightarrow> d)"

definition run_cpu :: "collect_env \<Rightarrow> u32 \<Rightarrow> tick_state \<Rightarrow> tick_state" where
  "run_cpu e ask t =
     (case budyk_collect_cpu_linux_ex (ce_host e) (cc_cpu (ti_ctx t)) (ti_c t) (list_arg ask kDetailCores t) of (rc, x, c, d) \<Rightarrow>
        run e kGroupCpu rc (t\<lparr>ti_ctx := (ti_ctx t)\<lparr>cc_cpu := x\<rparr>, ti_c := c, ti_d := or_kept d t\<rparr>))"

definition run_disk :: "collect_env \<Rightarrow> u32 \<Rightarrow> tick_state \<Rightarrow> tick_state" where
  "run_disk e ask t =
     (case budyk_collect_disk_linux_ex (ce_host e) (cc_disk (ti_ctx t)) (ti_c t) (list_arg ask kDetailDisks t) of (rc, x, c, d) \<Rightarrow>
        run e kGroupDisk rc (t\<lparr>ti_ctx := (ti_ctx t)\<lparr>cc_disk := x\<rparr>, ti_c := c, ti_d := or_kept d t\<rparr>))"

definition run_net :: "collect_env \<Rightarrow> u32 \<Rightarrow> tick_state \<Rightarrow> tick_state" where
  "run_net e ask t =
     (case budyk_collect_network_linux_ex (ce_host e) (cc_net (ti_ctx t)) (ti_c t) (list_arg ask kDetailInterfaces t) of (rc, x, c, d) \<Rightarrow>
        run e kGroupNet rc (t\<lparr>ti_ctx := (ti_ctx t)\<lparr>cc_net := x\<rparr>, ti_c := c, ti_d := or_kept d t\<rparr>))"

definition run_proc :: "collect_env \<Rightarrow> u32 \<Rightarrow> tick_state \<Rightarrow> tick_state" where
  "run_proc e ask t =
     (case budyk_collect_proc_linux_ex (ce_qsort_prev e) (ce_qsort_top e) (ce_host e) (ti_c t) (list_arg ask kDetailProcesses t) of (rc, c, d) \<Rightarrow>
        run e kGroupProc rc (t\<lparr>ti_c := c, ti_d := or_kept d t\<rparr>))"

definition run_fs :: "collect_env \<Rightarrow> u32 \<Rightarrow> tick_state \<Rightarrow> tick_state" where
  "run_fs e ask t =
     (case budyk_collect_fs_linux_ex (ce_host e) (ti_c t) (list_arg ask kDetailMounts t) of (rc, c, d) \<Rightarrow>
        run e kGroupFs rc (t\<lparr>ti_c := c, ti_d := or_kept d t\<rparr>))"

definition run_netstat :: "collect_env \<Rightarrow> tick_state \<Rightarrow> tick_state" where
  "run_netstat e t =
     (case budyk_collect_netstat_linux (ce_host e) (cc_netstat (ti_ctx t)) (ti_c t) of (rc, x, c) \<Rightarrow>
        run e kNetstat rc (t\<lparr>ti_ctx := (ti_ctx t)\<lparr>cc_netstat := x\<rparr>, ti_c := c\<rparr>))"

definition run_plain :: "collect_env \<Rightarrow> u32 \<Rightarrow> (host \<Rightarrow> budyk_sample_c \<Rightarrow> rc \<times> budyk_sample_c) \<Rightarrow> tick_state \<Rightarrow> tick_state" where
  "run_plain e groups f t = (case f (ce_host e) (ti_c t) of (rc, c) \<Rightarrow> run e groups rc (t\<lparr>ti_c := c\<rparr>))"

definition only_if :: "bool \<Rightarrow> ('a \<Rightarrow> 'a) \<Rightarrow> 'a \<Rightarrow> 'a" where
  "only_if b f x = (if b then f x else x)"

definition run_collectors :: "collect_env \<Rightarrow> u32 \<Rightarrow> u32 \<Rightarrow> tick_state \<Rightarrow> tick_state" where
  "run_collectors e ask want t =
     (let t = run_cpu e ask t;
          t = run_plain e (kGroupMem OR kGroupSwap) budyk_collect_memory_linux t;
          t = run_plain e kGroupUptime budyk_collect_uptime_linux t;
          t = run_plain e kGroupLoad budyk_collect_load_linux t;
          t = only_if (has_bits want kGroupDisk) (run_disk e ask) t;
          t = only_if (has_bits want kGroupNet) (run_net e ask) t;
          t = only_if (has_bits want kGroupProc) (run_proc e ask) t;
          t = only_if (has_bits want kGroupEntropy) (run_plain e kGroupEntropy budyk_collect_entropy_linux) t;
          t = only_if (has_bits want kGroupSelf) (run_plain e kGroupSelf budyk_collect_self_linux) t;
          t = only_if (has_bits want kGroupThermal) (run_plain e kGroupThermal budyk_collect_thermal_linux) t;
          t = only_if (has_bits want kGroupTcp) (run_netstat e) t;
          t = only_if (has_bits want kGroupFs) (run_fs e ask) t
      in only_if (has_bits want kGroupClock) (run_plain e kGroupClock budyk_collect_clock_linux) t)"

section \<open>Lists cut short\<close>

record cut_state =
  cu_cut :: u32
  cu_checked :: u32
  cu_log :: "string list"

definition cut_short :: "u32 \<Rightarrow> u32 \<Rightarrow> bool \<Rightarrow> u32 \<Rightarrow> u32 \<Rightarrow> string \<Rightarrow> string \<Rightarrow> cut_state \<Rightarrow> cut_state" where
  "cut_short old b over got room what place st =
     (let st = st\<lparr>cu_checked := cu_checked st OR b\<rparr>
      in if \<not> over then st
         else st\<lparr>cu_cut := cu_cut st OR b,
                 cu_log := cu_log st @ (if has_bits old b then []
                   else [''budyk: '' @ digits (unat got) @ '' '' @ what @ '': '' @ place @ '' the first '' @ digits (unat room) @ [CHR 0x0A]])\<rparr>)"

text \<open>The lengths of the lists, as the 32-bit counts of the arrays.\<close>

definition count_of :: "'a list \<Rightarrow> u32" where
  "count_of xs = of_nat (length xs)"

definition cut_checks :: "u32 \<Rightarrow> u32 \<Rightarrow> tick_state \<Rightarrow> cut_state" where
  "cut_checks ask want t =
     (let old = cc_cut (ti_ctx t); c = ti_c t; d = ti_d t;
          ran = (\<lambda>g. \<not> has_bits (ti_failed t) g \<and> has_bits want g);
          disks = disk_device_count (sc_disk c); ifaces = net_interface_count (sc_net c);
          st = \<lparr>cu_cut = 0, cu_checked = 0, cu_log = []\<rparr>;
          st = only_if (ran kGroupDisk) (\<lambda>st.
                 let n = count_of (dx_dev (cc_disk (ti_ctx t)));
                     st = cut_short old kCutDiskTotals (disks > n) disks n ''disks'' ''the disk totals follow'' st
                 in only_if (has_bits ask kDetailDisks)
                      (cut_short old kDetailDisks (disks > count_of (dc_disks d)) disks (count_of (dc_disks d)) ''disks'' ''disk.devices lists'') st) st;
          st = only_if (ran kGroupNet) (\<lambda>st.
                 let n = count_of (nx_dev (cc_net (ti_ctx t)));
                     st = cut_short old kCutNetTotals (ifaces > n) ifaces n ''network interfaces'' ''the network totals follow'' st
                 in only_if (has_bits ask kDetailInterfaces)
                      (cut_short old kDetailInterfaces (ifaces > count_of (dc_ifaces d)) ifaces (count_of (dc_ifaces d)) ''network interfaces'' ''net.interfaces lists'') st) st;
          st = only_if (ran kGroupFs \<and> has_bits ask kDetailMounts)
                 (cut_short old kDetailMounts (fs_count (sc_fs c) > count_of (dc_mounts d)) (fs_count (sc_fs c)) (count_of (dc_mounts d)) ''filesystems'' ''fs.mounts lists'') st;
          st = only_if (\<not> has_bits (ti_failed t) kGroupCpu \<and> has_bits ask kDetailCores)
                 (cut_short old kDetailCores (cpu_count (sc_cpu c) > count_of (dc_cores d)) (cpu_count (sc_cpu c)) (count_of (dc_cores d)) ''CPUs'' ''cpu.cores lists'') st;
          un = sc_fs_unreadable c;
          st = only_if (ran kGroupFs \<and> un \<noteq> cc_fs_unreadable (ti_ctx t)) (\<lambda>st. st\<lparr>cu_log := cu_log st @
                 [if un > 0 then ''budyk: '' @ digits (unat un) @ '' mount point(s) budyk cannot reach (Permission denied): not in fs; '' @
                     ''run it as root or give it search access to the directories above them'' @ [CHR 0x0A]
                  else ''budyk: every mount point is reachable again'' @ [CHR 0x0A]]\<rparr>) st;
          cap = of_nat BUDYK_MAX_TRACKED_PROCS
      in only_if (ran kGroupProc \<and> has_bits ask kDetailProcesses)
           (cut_short old kDetailProcesses (proc_total (sc_proc c) > cap) (proc_total (sc_proc c)) cap ''processes'' ''proc.top ranks by CPU'') st)"

section \<open>What the tick has\<close>

definition copy_back :: "budyk_sample_c \<Rightarrow> sample \<Rightarrow> sample" where
  "copy_back c s = s\<lparr>s_cpu := sc_cpu c, s_mem := sc_mem c, s_swap := sc_swap c, s_load := sc_load c, s_disk := sc_disk c, s_net := sc_net c,
     s_proc := sc_proc c, s_entropy := sc_entropy c, s_self := sc_self c, s_thermal := sc_thermal c, s_tcp := sc_tcp c, s_udp := sc_udp c,
     s_icmp := sc_icmp c, s_fs := sc_fs c, s_clock := sc_clock c, s_uptime_seconds := sc_uptime_seconds c\<rparr>"

definition kRateGroups :: u32 where "kRateGroups = kGroupCpu OR kGroupDisk OR kGroupNet OR kNetstat"
definition kRateLists :: u32 where "kRateLists = kDetailCores OR kDetailDisks OR kDetailInterfaces OR kDetailProcesses"

definition failed_lists :: "u32 \<Rightarrow> u32" where
  "failed_lists failed =
     (if has_bits failed kGroupCpu then kDetailCores else 0) OR (if has_bits failed kGroupDisk then kDetailDisks else 0) OR
     (if has_bits failed kGroupNet then kDetailInterfaces else 0) OR (if has_bits failed kGroupFs then kDetailMounts else 0) OR
     (if has_bits failed kGroupProc then kDetailProcesses else 0)"

text \<open>The clocks of two reads disagree on the time between them by more than a second, or the wall clock did not go on.\<close>

definition clock_stepped :: "u64 \<Rightarrow> u64 \<Rightarrow> u64 \<Rightarrow> u64 \<Rightarrow> bool" where
  "clock_stepped last_wall last_mono wall mono_now =
     (mono_now \<noteq> 0 \<and> last_wall \<noteq> 0 \<and> last_mono \<noteq> 0 \<and> mono_now > last_mono \<and>
      (let mono_dt = mono_now - last_mono; wall_dt = (if wall > last_wall then wall - last_wall else 0);
           off = (if mono_dt > wall_dt then mono_dt - wall_dt else wall_dt - mono_dt)
       in wall_dt = 0 \<or> off > 1000000000))"

definition clear_lists :: "u32 \<Rightarrow> detail \<Rightarrow> detail" where
  "clear_lists have_lists d =
     d\<lparr>dc_cores := (if has_bits have_lists kDetailCores then dc_cores d else []), dc_disks := (if has_bits have_lists kDetailDisks then dc_disks d else []),
       dc_ifaces := (if has_bits have_lists kDetailInterfaces then dc_ifaces d else []), dc_mounts := (if has_bits have_lists kDetailMounts then dc_mounts d else []),
       dc_tracker := (dc_tracker d)\<lparr>tk_procs := (if has_bits have_lists kDetailProcesses then tk_procs (dc_tracker d) else [])\<rparr>\<rparr>"

definition sample_c_zero :: "u64 \<Rightarrow> budyk_sample_c" where
  "sample_c_zero now = \<lparr>sc_timestamp_nanos = now, sc_cpu = cpu_zero, sc_mem = mem_zero, sc_swap = swap_zero, sc_load = load_zero, sc_disk = disk_zero,
     sc_net = net_zero, sc_proc = proc_zero, sc_entropy = entropy_zero, sc_self = self_zero, sc_thermal = thermal_zero, sc_tcp = tcp_zero, sc_udp = udp_zero,
     sc_icmp = icmp_zero, sc_fs = fs_zero, sc_fs_unreadable = 0, sc_clock = clock_zero, sc_uptime_seconds = 0\<rparr>"

definition collected :: "collect_env \<Rightarrow> sample \<Rightarrow> collect_context \<Rightarrow> metric_set \<Rightarrow> tick_state" where
  "collected e s ctx ms =
     run_collectors e (ms_detail ms AND kDetailAll) (wanted ms)
       \<lparr>ti_c = sample_c_zero (s_timestamp_nanos s), ti_ctx = ctx, ti_d = clear_lists 0 (cc_detail ctx), ti_failed = 0, ti_log = []\<rparr>"

definition collect_one :: "collect_env \<Rightarrow> sample \<Rightarrow> collect_context \<Rightarrow> metric_set \<Rightarrow> sample \<times> collect_context \<times> string list" where
  "collect_one e s ctx ms =
     (let ask = ms_detail ms AND kDetailAll; want = wanted ms; t = collected e s ctx ms; failed = ti_failed t; cu = cut_checks ask want t;
          unread = (if \<not> has_bits failed kGroupFs \<and> has_bits want kGroupFs then sc_fs_unreadable (ti_c t) else cc_fs_unreadable ctx);
          s = copy_back (ti_c t) s;
          have_read = want AND NOT failed; read_lists = ask AND NOT (failed_lists failed);
          got = have_read AND NOT (kRateGroups AND NOT (cc_last_groups ctx));
          have_lists = read_lists AND NOT (kRateLists AND NOT (cc_last_detail ctx));
          stepped = clock_stepped (cc_last_wall_ns ctx) (cc_last_mono_ns ctx) (s_timestamp_nanos s) (cc_mono_now_ns ctx);
          got = (if stepped then got AND NOT kRateGroups else got);
          have_lists = (if stepped then have_lists AND NOT kRateLists else have_lists);
          d = (clear_lists have_lists (ti_d t))\<lparr>dc_collected := have_lists, dc_baseline := read_lists AND NOT have_lists\<rparr>;
          s = clear_fields (s\<lparr>s_groups := kGroupsAll\<rparr>) (kGroupsAll AND NOT got)
      in (s\<lparr>s_baseline := have_read AND NOT got\<rparr>,
          (ti_ctx t)\<lparr>cc_detail := d, cc_last_wall_ns := s_timestamp_nanos s, cc_last_mono_ns := cc_mono_now_ns ctx, cc_last_groups := have_read,
                     cc_last_detail := read_lists, cc_failed := failed, cc_fs_unreadable := unread, cc_cut := (cc_cut ctx AND NOT (cu_checked cu)) OR cu_cut cu\<rparr>,
          ti_log t @ cu_log cu))"

section \<open>What is reported\<close>

lemma copy_back_keeps [simp]:
  "s_timestamp_nanos (copy_back c s) = s_timestamp_nanos s" "s_groups (copy_back c s) = s_groups s"
  by (simp_all add: copy_back_def)

lemma run_ctx [simp]: "ti_ctx (run e g rc t) = ti_ctx t"
  by (simp add: run_def)

text \<open>The groups a tick has read.\<close>

definition groups_read :: "sample \<Rightarrow> u32" where
  "groups_read s = s_groups s OR s_baseline s"

lemma bit_kGroupsAll: "bit (0x1FFFF :: u32) n \<longleftrightarrow> n < 17"
proof -
  have m: "(0x1FFFF :: u32) = mask 17" by (simp add: mask_eq_exp_minus_1)
  show ?thesis unfolding m bit_mask_iff by auto
qed

lemma bit_kRateGroups: "bit kRateGroups n \<longleftrightarrow> n \<in> {0, 4, 5, 12, 13, 16}"
proof -
  have m: "kRateGroups = push_bit 0 1 OR push_bit 4 1 OR push_bit 5 1 OR push_bit 12 1 OR push_bit 13 1 OR push_bit 16 (1 :: u32)"
    by (simp add: kRateGroups_def)
  have "bit (push_bit k (1 :: u32)) n \<longleftrightarrow> n = k" if "k < 32" for k using that by (auto simp: bit_simps)
  note one = this [of 0] this [of 4] this [of 5] this [of 12] this [of 13] this [of 16]
  show ?thesis unfolding m bit_or_iff using one by (simp only: insert_iff empty_iff) simp
qed

text \<open>The groups of a tick, and those whose reading is only a baseline.\<close>

lemma collect_one_groups:
  assumes "collect_one e s ctx ms = (s', ctx', msgs)"
  defines "rd \<equiv> wanted ms AND NOT (ti_failed (collected e s ctx ms))"
    and "stepped \<equiv> clock_stepped (cc_last_wall_ns ctx) (cc_last_mono_ns ctx) (s_timestamp_nanos s) (cc_mono_now_ns ctx)"
  shows "s_groups s' = kGroupsAll AND rd AND NOT (kRateGroups AND (if stepped then - 1 else NOT (cc_last_groups ctx)))"
    "s_baseline s' = rd AND kRateGroups AND (if stepped then - 1 else NOT (cc_last_groups ctx))"
    "cc_last_groups ctx' = rd" "cc_last_wall_ns ctx' = s_timestamp_nanos s" "cc_last_mono_ns ctx' = cc_mono_now_ns ctx" "s_timestamp_nanos s' = s_timestamp_nanos s"
proof -
  note c = assms(1) [unfolded collect_one_def Let_def Pair_inject, symmetric]
  show "cc_last_groups ctx' = rd" "cc_last_wall_ns ctx' = s_timestamp_nanos s" "cc_last_mono_ns ctx' = cc_mono_now_ns ctx" "s_timestamp_nanos s' = s_timestamp_nanos s"
    using c by (simp_all add: rd_def clear_fields_def)
  show "s_groups s' = kGroupsAll AND rd AND NOT (kRateGroups AND (if stepped then - 1 else NOT (cc_last_groups ctx)))"
    using c by (auto simp: clear_fields_def rd_def stepped_def intro!: bit_word_eqI simp: bit_simps)
  show "s_baseline s' = rd AND kRateGroups AND (if stepped then - 1 else NOT (cc_last_groups ctx))"
    using c by (auto simp: rd_def stepped_def intro!: bit_word_eqI simp: bit_simps)
qed

lemma bit_if_all: "bit (if b then - 1 else m :: u32) n = (n < 32 \<and> b \<or> (\<not> b \<and> bit m n))"
  by (simp add: bit_simps)

lemma collect_one_zero:
  assumes "collect_one e s ctx ms = (s', ctx', msgs)"
  shows "absent_zero s'"
proof -
  obtain s0 g b where s': "s' = (clear_fields (s0\<lparr>s_groups := kGroupsAll\<rparr>) g)\<lparr>s_baseline := b\<rparr>"
    using assms unfolding collect_one_def Let_def Pair_inject by blast
  have "absent_zero (s0\<lparr>s_groups := kGroupsAll\<rparr>)" unfolding absent_zero_def by (simp add: has_group_def)
  from clear_fields_absent_zero [OF this] show ?thesis unfolding s' by (simp add: absent_zero_def)
qed

lemma collect_one_lists:
  assumes "collect_one e s ctx ms = (s', ctx', msgs)"
  defines "d \<equiv> cc_detail ctx'"
  shows "(has_bits (dc_collected d) kDetailCores \<or> dc_cores d = []) \<and> (has_bits (dc_collected d) kDetailDisks \<or> dc_disks d = []) \<and>
    (has_bits (dc_collected d) kDetailInterfaces \<or> dc_ifaces d = []) \<and> (has_bits (dc_collected d) kDetailMounts \<or> dc_mounts d = []) \<and>
    (has_bits (dc_collected d) kDetailProcesses \<or> tk_procs (dc_tracker d) = [])"
proof -
  obtain d0 g b where d: "d = (clear_lists g d0)\<lparr>dc_collected := g, dc_baseline := b\<rparr>"
    using assms(1) unfolding collect_one_def Let_def Pair_inject d_def by force
  show ?thesis unfolding d by (simp add: clear_lists_def)
qed

text \<open>The read groups are the reported ones and the baselines; which are reported.\<close>

lemma collect_one_bits:
  assumes "collect_one e s ctx ms = (s', ctx', msgs)" and "n < 17"
  shows "bit (groups_read s') n \<longleftrightarrow> bit (wanted ms) n \<and> \<not> bit (ti_failed (collected e s ctx ms)) n"
    and "bit (s_groups s') n \<longleftrightarrow> bit (groups_read s') n \<and> (bit kRateGroups n \<longrightarrow> bit (cc_last_groups ctx) n \<and>
      \<not> clock_stepped (cc_last_wall_ns ctx) (cc_last_mono_ns ctx) (s_timestamp_nanos s) (cc_mono_now_ns ctx))"
    and "bit (cc_last_groups ctx') n = bit (groups_read s') n"
  using assms(2) unfolding groups_read_def collect_one_groups [OF assms(1)]
  by (auto simp: bit_and_iff bit_or_iff bit_not_iff bit_if_all bit_kGroupsAll simp del: bit_numeral_word_iff)

text \<open>What a sample says it has it has: over any two ticks in a row, for any texts the kernel gives and any collectors that fail, a group is read exactly when it is wanted and its
  collector did not fail, a group that was read is reported unless it is a rate (cpu, disk, net, tcp, udp, icmp) that was not read on the tick before or across a step of the clock; then it is named as
  a baseline. A group that is not reported is all zeros, and a list that is not collected is empty.\<close>

theorem collect_reports:
  assumes "collect_one e1 s1 ctx ms1 = (s1', ctx1, log1)"
    and "collect_one e2 s2 (ctx1\<lparr>cc_mono_now_ns := mono_now\<rparr>) ms2 = (s2', ctx2, log2)" and "n < 17"
  shows "(bit (groups_read s2') n \<longleftrightarrow> bit (wanted ms2) n \<and> \<not> bit (ti_failed (collected e2 s2 (ctx1\<lparr>cc_mono_now_ns := mono_now\<rparr>) ms2)) n) \<and>
    (bit (s_groups s2') n \<longleftrightarrow> bit (groups_read s2') n \<and> (n \<in> {0, 4, 5, 12, 13, 16} \<longrightarrow>
       bit (groups_read s1') n \<and> \<not> clock_stepped (s_timestamp_nanos s1) (cc_mono_now_ns ctx) (s_timestamp_nanos s2) mono_now)) \<and>
    absent_zero s2'"
  using collect_one_bits [OF assms(2,3)] collect_one_bits(3) [OF assms(1,3)] collect_one_groups(4,5) [OF assms(1)] collect_one_zero [OF assms(2)]
  by (simp add: bit_kRateGroups)

end
