(* ===== verification/Spec2Isabelle.thy ===== *)
theory Spec2Isabelle
  imports Ring_Check Tier_Manager Scheduler Hot_Buffer Session Login_Limiter Http_Util Json_Body Web_Socket Http_Server Alert Detail Collect
begin

text \<open>
  A verification of \<^emph>\<open>budyk\<close>, a host monitor: a daemon that samples the host at a level of detail it
  chooses itself, keeps the samples in memory and in ring files on disk, folds fine samples into
  coarse ones, and shows them over HTTP.

  \<^bold>\<open>The parts of the program and how they work together.\<close> At every tick
  \<open>collect_one\<close> (\<open>src/daemon/collect.cpp\<close>) runs the collectors (\<open>src/collector\<close>), which read the host,
  and makes a \<open>Sample\<close> (\<open>src/core/sample.h\<close>) with a detail of cores, disks, interfaces, mounts and processes. The scheduler (\<open>src/scheduler\<close>) is given the sample and says at
  which level (L1 to L3, or a custom one) the next is to be taken. The sample goes to the hot buffer
  (\<open>src/hot_buffer\<close>) and to the store (\<open>src/storage\<close>): the tier manager encodes it
  (\<open>src/core/codec.cpp\<close>) as a record with a checksum (\<open>src/storage/codec.cpp\<close>), appends the record to
  the ring file of its level (\<open>src/storage/ring_file.cpp\<close>) and adds it to the fold windows of the
  coarser levels (\<open>src/storage/tier_aggregator.cpp\<close>), whose summaries go to their own rings. At a
  start, a ring that a crash left behind is repaired and one of another format converted
  (\<open>src/storage/ring_check.cpp\<close>). Queries read the rings back, one or all merged. The web side
  (\<open>src/web\<close>) has login sessions kept in a file, a limiter of failed logins, small parsers of HTTP
  data, JSON text and bodies, and a hub of WebSocket clients (with SHA-1 and Base64 for the handshake) to
  which every sample is broadcast. The routes (\<open>src/daemon/router.cpp\<close>) put these parts together.

  \<^bold>\<open>The theories\<close>, from the bottom up; each opens with what it holds.

  \<^item> \<open>Prelude\<close>: shared types, error codes, lemmas on lists and words, the interface of a bounded log
    (a locale: what is kept of a sequence of insertions), and the lemma collections.
  \<^item> \<open>Float64\<close>, \<open>Sample\<close>, \<open>Endian\<close>, \<open>Sample_Codec\<close>: doubles as bit patterns, the sample with every
    group of fields, little-endian numbers, and \<open>sample_encode\<close> and \<open>sample_decode\<close> with the old
    versions 1 to 8 of the format.
  \<^item> \<open>Record_Codec\<close>: CRC-32C with its table, \<open>record_encode\<close>, \<open>record_decode\<close>.
  \<^item> \<open>Ring_File\<close>: \<open>RingFile\<close> over a file as a list of bytes; the answers of the system calls are
    arguments, so that failures and short writes are branches of the model.
  \<^item> \<open>Ring_Check\<close>: recovery after a crash, conversion to another size, the check of a ring.
  \<^item> \<open>Tier_Aggregator\<close>, \<open>Tier_Query\<close>, \<open>Tier_Manager\<close>: folding; reading of one ring by binary search,
    and the merge of all rings; the store.
  \<^item> \<open>Text\<close>, \<open>Metric_Set\<close>: C strings and numbers; the names of metric groups.
  \<^item> \<open>Scheduler\<close>: the level state machine; \<open>Hot_Buffer\<close>: the memory buffer and its warm grace.
  \<^item> \<open>Sha1_Base64\<close>, \<open>Table\<close>, \<open>Session\<close>, \<open>Login_Limiter\<close>, \<open>Http_Util\<close>, \<open>Json_Text\<close>,
    \<open>Printf\<close>, \<open>Json_Body\<close>: the web side. \<open>Printf\<close> is the C library's conversion of doubles, \<open>Table\<close> is the interface of a lookup table (a locale) and its provider.
  \<^item> \<open>Web_Socket\<close>: frames, the handshake and the hub; a client carries what its socket will answer and
    what it has taken.
  \<^item> \<open>Router\<close>: every HTTP route over the store, the hot buffer, the sessions, the limiter and the hub.
  \<^item> \<open>Http_Server\<close>: one connection of the embedded server, from the first byte to the answer, and its
    start and stop.
  \<^item> \<open>Worker\<close>: the background thread of the rules' actions, with its condition variable (the wait set,
    notifications, spurious wake-ups) and every interleaving of the threads.
  \<^item> \<open>Exec_Action\<close>, \<open>Alert\<close>: running a program with a time limit, private temporary files; the messages of
    an alert for each kind of channel, their delivery by \<open>curl\<close>, and the dispatcher.
  \<^item> \<open>Detail\<close>: rates, the totals over devices and the process tracker (\<open>src/collector/detail.c\<close>).
  \<^item> \<open>Proc_Text\<close>, \<open>Linux_Devices\<close>, \<open>Linux_System\<close>, \<open>Linux_Proc\<close>: \<open>fgets\<close> and the conversions of \<open>sscanf\<close>; the Linux
    collectors (\<open>src/collector/linux\<close>) over a record of what the host answers.
  \<^item> \<open>Collect\<close>: one tick, with the collectors that are wanted, their failures, baselines and lists cut short.

  \<^bold>\<open>How state and operations correspond to the code.\<close> A class is a record with the class's members, a
  method a function from the record and its arguments to the result and the record after it. The
  file system is a map from paths to bytes; what a system call answers (success, an errno, a short
  write) is an argument. Clocks are arguments. Integers of the code are words of their width where
  they can wrap (timestamps, sums, indices in files) and \<open>nat\<close> or \<open>int\<close> where the code's checks keep
  them in range. Doubles are 64-bit patterns, with the arithmetic and the comparisons of IEEE 754 defined on
  them in \<open>Float64\<close>. Code outside the sources (the Argon2 check, the token generator, \<open>qsort\<close>, \<open>strerror\<close>, \<open>curl\<close>,
  the kernel) is an argument, with what is relied on as a hypothesis. Locks make
  an operation one step; the steps of the store against a reader are covered where a crash can fall
  between them.

  \<^bold>\<open>What is proved.\<close> Round trips of samples, records, session files, metric names, JSON text and
  Base64. Rings and the hot buffer as bounded logs. That every one-byte error of a record is found.
  That a crash between a record and its index is repaired exactly, and that conversion keeps the
  readable ones of the newest records or leaves the old file. That stores keep every ring well formed and in time order
  whatever the disk does, and that a query returns exactly the records of its window, through the
  whole path from store to query. That the level chosen is the best in force in every reachable
  state, that a step back of the clock keeps the levels of a clock that went on (but for requests stamped
  at or before the new time, whose deadlines stay moments of the new clock), and that a lasting anomaly
  escalates. That a session is accepted only when it was issued, not revoked, and used since with no gap of its TTL, and how many passwords can be tried in
  any window. That the streaming SHA-1 is the one of the standard. That every body is JSON. That a
  WebSocket peer never sees a broken frame, gets every broadcast in order while it stays, and has its
  pings answered however its bytes arrive. That answers without a session do not depend on the host's
  data, that a session comes only from the right password and a page of this site, and that the end of
  a session closes its live streams. That a request is what its bytes spell however they arrive, and an
  answer what the route set. That the background worker loses no job, misses no wake-up and cannot hold up a stop. That
  a program that outlives its time is killed and waited for. That an
  alert adds no line of its own to a header or a mail, decodes to its text, hands \<open>curl\<close> what its channel says, keeps its secrets off the command line, leaves no
  temporary file, and counts every channel once, as delivered or failed. That the texts of the kernel are read back whatever a process or a
  mount point is called, that the totals of disks and interfaces are what the devices moved, that the top processes are the largest ones, and that a
  tick reports a rate only from two readings in a row.

  \<^bold>\<open>Bounds and fuel.\<close> One definition runs on fuel: \<open>group_index_from\<close> (\<open>Tier_Aggregator\<close>), the search for the bit of a group, has 32
  steps, and the bits of the groups lie below 17 (lemma \<open>group_index\<close>). The other loops of the code are structural recursions, or
  recursions with a measure (the span of a binary search, the rest of a text, the records left to
  read). A wait loop runs over the list of what its polls will find; where that list may end before the loop does, not returning is a value
  of its own, and that the code returns is proved as such. Histories (of stores, ticks, session operations, login attempts) are lists of any length.

  \<^bold>\<open>Not modelled.\<close> The FreeBSD collectors, the daemon's threads
  (signals, the accept loop around one connection), the Lua rules engine and the configuration reader
  (third-party interpreters and parsers), the freezing of processes, the file watcher, the baseline statistics and the terminal client, and the
  dashboard page. Interleavings inside an operation on a ring between processes are left out but for
  the crash points.
\<close>

end
